(* ===== verification/Prelude.thy ===== *)
theory Prelude
  imports Main "HOL-Library.Word"
begin

text \<open>
  Shared vocabulary of the development: the widths of the C types, the errors a
  kernel function can end in, sequencing of fallible calls, and byte-addressed
  memory with its little-endian 64-bit accessors.
\<close>

unbundle bit_operations_syntax

section \<open>C integer types\<close>

type_synonym u8 = "8 word"
type_synonym u16 = "16 word"
type_synonym u32 = "32 word"
type_synonym u64 = "64 word"

section \<open>Errors and sequencing\<close>

text \<open>
  \<open>Panic msg\<close> is a call of \<^verbatim>\<open>panic(msg)\<close>. \<open>Fault\<close> is the dereference of a null
  or unmapped pointer, and \<open>OutOfBounds\<close> an access outside a C array: both have no
  defined result in C, so a function that reaches one has no value here.
  \<open>Deadlock\<close> is a wait that nobody else can end in a sequential execution.
\<close>

datatype kerr = Panic string | Fault | OutOfBounds | Deadlock

type_synonym 'a res = "kerr + 'a"

definition bnd :: "'a res \<Rightarrow> ('a \<Rightarrow> 'b res) \<Rightarrow> 'b res" where
  "bnd m f = (case m of Inl e \<Rightarrow> Inl e | Inr x \<Rightarrow> f x)"

lemma bnd_Inl [simp]: "bnd (Inl e) f = Inl e"
  by (simp add: bnd_def)

lemma bnd_Inr [simp]: "bnd (Inr x) f = f x"
  by (simp add: bnd_def)

lemma bnd_eq_Inr: "bnd m f = Inr y \<longleftrightarrow> (\<exists>x. m = Inr x \<and> f x = Inr y)"
  by (cases m) auto

lemma bnd_eq_Inl: "bnd m f = Inl e \<longleftrightarrow> m = Inl e \<or> (\<exists>x. m = Inr x \<and> f x = Inl e)"
  by (cases m) auto

lemma bnd_InrE [elim]:
  assumes "bnd m f = Inr y"
  obtains x where "m = Inr x" and "f x = Inr y"
  using assms by (auto simp: bnd_eq_Inr)

lemma bnd_cong [fundef_cong]:
  "m = m' \<Longrightarrow> (\<And>x. m' = Inr x \<Longrightarrow> f x = f' x) \<Longrightarrow> bnd m f = bnd m' f'"
  by (cases m') (auto simp: bnd_def)

definition guard_res :: "kerr \<Rightarrow> bool \<Rightarrow> unit res" where
  "guard_res e b = (if b then Inr () else Inl e)"

lemma guard_res_simps [simp]:
  "guard_res e True = Inr ()"
  "guard_res e False = Inl e"
  "guard_res e b = Inr u \<longleftrightarrow> b"
  by (simp_all add: guard_res_def)

fun iter_res :: "('s \<Rightarrow> 's res) \<Rightarrow> nat \<Rightarrow> 's \<Rightarrow> 's res" where
  "iter_res f 0 s = Inr s"
| "iter_res f (Suc n) s = bnd (f s) (iter_res f n)"

text \<open>\<open>for_each xs f s\<close> is a C \<^verbatim>\<open>for\<close> loop over the values \<open>xs\<close> whose body is \<open>f\<close>.\<close>

fun for_each :: "'a list \<Rightarrow> ('a \<Rightarrow> 's \<Rightarrow> 's res) \<Rightarrow> 's \<Rightarrow> 's res" where
  "for_each [] f s = Inr s"
| "for_each (x # xs) f s = bnd (f x s) (for_each xs f)"

lemma for_each_append:
  "for_each (xs @ ys) f s = bnd (for_each xs f s) (for_each ys f)"
  by (induction xs arbitrary: s) (auto simp: bnd_def split: sum.splits)

lemma for_each_invariant:
  assumes "P s" and "\<And>x s. x \<in> set xs \<Longrightarrow> P s \<Longrightarrow> \<exists>s'. f x s = Inr s' \<and> P s'"
  shows "\<exists>s'. for_each xs f s = Inr s' \<and> P s'"
  using assms
proof (induction xs arbitrary: s)
  case Nil
  then show ?case by simp
next
  case (Cons x xs)
  then obtain s1 where "f x s = Inr s1" "P s1" by force
  then show ?case using Cons.IH [of s1] Cons.prems(2) by simp
qed

text \<open>What every round of a loop leaves alone, the loop leaves alone.\<close>

lemma for_each_keep:
  assumes "\<And>x s s'. f x s = Inr s' \<Longrightarrow> g s' = g s" and "for_each xs f s = Inr s'"
  shows "g s' = g s"
  using assms(2) by (induction xs arbitrary: s) (auto dest!: assms(1))

section \<open>Word arithmetic\<close>

lemma unat_u64_less: "unat (a :: u64) < 2 ^ 64"
  using unsigned_less [of a] by simp

lemma unat_add_no_wrap:
  "unat (a :: u64) + unat b < 2 ^ 64 \<Longrightarrow> unat (a + b) = unat a + unat b"
  by (simp add: unat_word_ariths)

lemma unat_mult_no_wrap:
  "unat (a :: u64) * unat b < 2 ^ 64 \<Longrightarrow> unat (a * b) = unat a * unat b"
  by (simp add: unat_word_ariths)

section \<open>Byte memory\<close>

text \<open>
  Memory maps a 64-bit address to a byte. \<open>in_range a n x\<close> says that \<open>x\<close> is one
  of the \<open>n\<close> bytes from \<open>a\<close> on; the subtraction is the machine's, so the range
  may wrap round the end of the address space, as pointer arithmetic does.
\<close>

type_synonym memory = "u64 \<Rightarrow> u8"

definition in_range :: "u64 \<Rightarrow> u64 \<Rightarrow> u64 \<Rightarrow> bool" where
  "in_range a n x \<longleftrightarrow> x - a < n"

definition load64 :: "memory \<Rightarrow> u64 \<Rightarrow> u64" where
  "load64 m a =
     ucast (m a) OR push_bit 8 (ucast (m (a + 1))) OR push_bit 16 (ucast (m (a + 2))) OR
     push_bit 24 (ucast (m (a + 3))) OR push_bit 32 (ucast (m (a + 4))) OR
     push_bit 40 (ucast (m (a + 5))) OR push_bit 48 (ucast (m (a + 6))) OR
     push_bit 56 (ucast (m (a + 7)))"

definition store64 :: "memory \<Rightarrow> u64 \<Rightarrow> u64 \<Rightarrow> memory" where
  "store64 m a v = (\<lambda>x. if in_range a 8 x then ucast (drop_bit (8 * unat (x - a)) v) else m x)"

definition fill :: "memory \<Rightarrow> u64 \<Rightarrow> u8 \<Rightarrow> u64 \<Rightarrow> memory" where
  "fill m a c n = (\<lambda>x. if in_range a n x then c else m x)"

definition copy_bytes :: "memory \<Rightarrow> u64 \<Rightarrow> u64 \<Rightarrow> u64 \<Rightarrow> memory" where
  "copy_bytes m d s n = (\<lambda>x. if in_range d n x then m (s + (x - d)) else m x)"

lemma less_8_cases:
  fixes k :: nat
  assumes "k < 8"
  obtains "k = 0" | "k = 1" | "k = 2" | "k = 3" | "k = 4" | "k = 5" | "k = 6" | "k = 7"
  using assms by linarith

lemma bit_ucast_u8: "bit (ucast (b :: u8) :: u64) n \<longleftrightarrow> n < 8 \<and> bit b n"
  by (auto simp: bit_ucast_iff dest: bit_imp_le_length)

lemma bit_load64:
  "bit (load64 m a) n \<longleftrightarrow> n < 64 \<and> bit (m (a + of_nat (n div 8))) (n mod 8)"
proof (cases "n < 64")
  case True
  define k where "k = n div 8"
  define r where "r = n mod 8"
  have n: "n = 8 * k + r" and r: "r < 8" by (simp_all add: k_def r_def)
  have "k < 8" using True by (simp add: k_def)
  then have "bit (load64 m a) n = bit (m (a + of_nat k)) r"
    unfolding n using r
    by (cases rule: less_8_cases)
      (simp_all add: load64_def bit_or_iff bit_push_bit_iff bit_ucast_u8)
  then show ?thesis using True by (simp add: k_def r_def)
next
  case False
  then show ?thesis
    by (simp add: bit_word.rep_eq)
qed

lemma load64_cong:
  assumes "\<And>x. in_range a 8 x \<Longrightarrow> m x = m' x"
  shows "load64 m a = load64 m' a"
proof -
  have "m (a + k) = m' (a + k)" if "k < 8" for k
    using assms [of "a + k"] that by (simp add: in_range_def)
  from this [of 0] this [of 1] this [of 2] this [of 3] this [of 4] this [of 5] this [of 6] this [of 7]
  show ?thesis by (simp add: load64_def)
qed

lemma load64_store64_same [simp]: "load64 (store64 m a v) a = v"
proof (rule bit_word_eqI)
  fix n assume "n < LENGTH(64)"
  then have n: "n < 64" and d: "n div 8 < 8" by simp_all
  have u: "unat (of_nat (n div 8) :: u64) = n div 8"
    using d by (simp add: unat_of_nat)
  have "in_range a 8 (a + of_nat (n div 8))"
    using d u by (simp add: in_range_def word_less_nat_alt)
  then have "bit (load64 (store64 m a v) a) n = bit v (8 * (n div 8) + n mod 8)"
    using n u by (simp add: bit_load64 store64_def bit_ucast_iff bit_drop_bit_eq)
  then show "bit (load64 (store64 m a v) a) n = bit v n" by simp
qed

definition disj_range :: "u64 \<Rightarrow> u64 \<Rightarrow> u64 \<Rightarrow> u64 \<Rightarrow> bool" where
  "disj_range a n b k \<longleftrightarrow> (\<forall>x. \<not> (in_range a n x \<and> in_range b k x))"

lemma load64_store64_disj:
  "disj_range a 8 b 8 \<Longrightarrow> load64 (store64 m a v) b = load64 m b"
  by (rule load64_cong) (auto simp: store64_def disj_range_def)

lemma load64_fill_disj:
  "disj_range a n b 8 \<Longrightarrow> load64 (fill m a c n) b = load64 m b"
  by (rule load64_cong) (auto simp: fill_def disj_range_def)

lemma load64_copy_disj:
  "disj_range d n b 8 \<Longrightarrow> load64 (copy_bytes m d s n) b = load64 m b"
  by (rule load64_cong) (auto simp: copy_bytes_def disj_range_def)

lemma load64_fill_zero:
  assumes "\<And>x. in_range b 8 x \<Longrightarrow> in_range a n x"
  shows "load64 (fill m a 0 n) b = 0"
proof -
  have "load64 (fill m a 0 n) b = load64 (\<lambda>_. 0) b"
    by (rule load64_cong) (use assms in \<open>auto simp: fill_def\<close>)
  also have "\<dots> = 0"
    by (rule bit_word_eqI) (simp add: bit_load64)
  finally show ?thesis .
qed

end
