(* ===== verification/Mmu.thy ===== *)
theory Mmu
  imports Prelude
begin

text \<open>
  The address arithmetic of \<^verbatim>\<open>mmu.h\<close>, \<^verbatim>\<open>memlayout.h\<close> and \<^verbatim>\<open>param.h\<close>: page
  rounding, frame numbers, the four page-table indices of a virtual address, the
  address and flag parts of a page-table entry, and the direct map between kernel
  virtual and physical addresses. The lemmas move the bit tricks to arithmetic on
  \<open>unat\<close> and say when two pages or two table slots overlap.
\<close>

section \<open>Constants\<close>

definition PGSIZE :: u64 where "PGSIZE = 4096"
definition PHYSTOP :: u64 where "PHYSTOP = 0xE000000"
definition KERNBASE :: u64 where "KERNBASE = 0xFFFF800000000000"
definition NPDENTRIES :: nat where "NPDENTRIES = 512"

definition PTE_P :: u64 where "PTE_P = 0x001"
definition PTE_W :: u64 where "PTE_W = 0x002"
definition PTE_U :: u64 where "PTE_U = 0x004"
definition PTE_PWT :: u64 where "PTE_PWT = 0x008"
definition PTE_PCD :: u64 where "PTE_PCD = 0x010"
definition PTE_PS :: u64 where "PTE_PS = 0x080"
definition PTE_COW :: u64 where "PTE_COW = 0x200"

definition V2P :: "u64 \<Rightarrow> u64" where "V2P a = a - KERNBASE"
definition P2V :: "u64 \<Rightarrow> u64" where "P2V a = a + KERNBASE"

definition PGROUNDUP :: "u64 \<Rightarrow> u64" where
  "PGROUNDUP sz = (sz + (PGSIZE - 1)) AND NOT (PGSIZE - 1)"
definition PGROUNDDOWN :: "u64 \<Rightarrow> u64" where
  "PGROUNDDOWN a = a AND NOT (PGSIZE - 1)"
definition PGINDEX :: "u64 \<Rightarrow> u64" where
  "PGINDEX physaddr = physaddr div PGSIZE"

definition PXMASK :: u64 where "PXMASK = 0x1FF"
definition PMX :: "u64 \<Rightarrow> u64" where "PMX va = drop_bit 39 va AND PXMASK"
definition PDPX :: "u64 \<Rightarrow> u64" where "PDPX va = drop_bit 30 va AND PXMASK"
definition PDX :: "u64 \<Rightarrow> u64" where "PDX va = drop_bit 21 va AND PXMASK"
definition PTX :: "u64 \<Rightarrow> u64" where "PTX va = drop_bit 12 va AND PXMASK"

definition PTE_ADDR :: "u64 \<Rightarrow> u64" where "PTE_ADDR pte = pte AND NOT 0xFFF"
definition PTE_FLAGS :: "u64 \<Rightarrow> u64" where "PTE_FLAGS pte = pte AND 0xFFF"

named_theorems mmu_defs \<open>constants and macros of mmu.h and memlayout.h\<close>

lemmas [mmu_defs] =
  PGSIZE_def PHYSTOP_def KERNBASE_def NPDENTRIES_def PTE_P_def PTE_W_def PTE_U_def
  PTE_PWT_def PTE_PCD_def PTE_PS_def PTE_COW_def V2P_def P2V_def PGROUNDUP_def
  PGROUNDDOWN_def PGINDEX_def PXMASK_def PMX_def PDPX_def PDX_def PTX_def
  PTE_ADDR_def PTE_FLAGS_def

section \<open>The direct map\<close>

lemma V2P_P2V [simp]: "V2P (P2V a) = a"
  by (simp add: V2P_def P2V_def)

lemma P2V_V2P [simp]: "P2V (V2P a) = a"
  by (simp add: V2P_def P2V_def)

lemma V2P_inject [simp]: "V2P a = V2P b \<longleftrightarrow> a = b"
  by (simp add: V2P_def)

lemma P2V_inject [simp]: "P2V a = P2V b \<longleftrightarrow> a = b"
  by (simp add: P2V_def)

section \<open>Page rounding\<close>

definition pg_aligned :: "u64 \<Rightarrow> bool" where
  "pg_aligned v \<longleftrightarrow> v mod PGSIZE = 0"

lemma and_not_mask: "(a :: u64) AND NOT (mask n) = push_bit n (drop_bit n a)"
  by (rule bit_word_eqI)
    (auto simp: bit_and_iff bit_not_iff bit_mask_iff bit_push_bit_iff bit_drop_bit_eq)

lemma unat_and_mask: "unat ((a :: u64) AND mask n) = unat a mod 2 ^ n"
  by (simp only: take_bit_eq_mask [symmetric] unsigned_take_bit_eq) (simp add: take_bit_eq_mod)

lemma unat_and_not_mask: "unat ((a :: u64) AND NOT (mask n)) = unat a - unat a mod 2 ^ n"
proof -
  have a: "a = (a AND NOT (mask n)) + (a AND mask n)"
    by (simp add: and_not_mask take_bit_eq_mask [symmetric] bits_ident)
  have le: "a AND NOT (mask n) \<le> a"
    by (simp add: word_and_le2)
  have "a AND NOT (mask n) = a - (a AND mask n)"
    using a by (simp add: eq_diff_eq)
  moreover have "a AND mask n \<le> a" by (simp add: word_and_le2)
  ultimately show ?thesis
    by (simp add: unat_sub unat_and_mask)
qed

lemma unat_and_4095: "unat ((a :: u64) AND 4095) = unat a mod 4096"
  using unat_and_mask [of a 12] by (simp add: mask_eq_exp_minus_1)

lemma unat_and_511: "unat ((a :: u64) AND 511) = unat a mod 512"
  using unat_and_mask [of a 9] by (simp add: mask_eq_exp_minus_1)

lemma and_not_4095_plus: "((a :: u64) AND NOT 4095) + (a AND 4095) = a"
proof -
  have "(a AND NOT (mask 12)) + (a AND mask 12) = a"
    by (simp only: and_not_mask take_bit_eq_mask [symmetric] bits_ident)
  then show ?thesis by (simp add: mask_eq_exp_minus_1)
qed

lemma unat_PGROUNDDOWN: "unat (PGROUNDDOWN a) = unat a - unat a mod 4096"
  using unat_and_not_mask [of a 12] by (simp add: PGROUNDDOWN_def PGSIZE_def mask_eq_exp_minus_1)

lemma pg_aligned_unat: "pg_aligned v \<longleftrightarrow> unat v mod 4096 = 0"
  by (simp add: pg_aligned_def PGSIZE_def word_unat_eq_iff unat_mod)

lemma pg_aligned_PGROUNDDOWN_iff: "pg_aligned a \<longleftrightarrow> PGROUNDDOWN a = a"
  by (metis diff_diff_cancel diff_zero mod_less_eq_dividend pg_aligned_unat
      unat_PGROUNDDOWN word_unat_eq_iff diff_self_eq_0)

lemma pg_aligned_PGROUNDDOWN [simp]: "pg_aligned (PGROUNDDOWN a)"
  by (simp add: pg_aligned_PGROUNDDOWN_iff PGROUNDDOWN_def and.assoc)

lemma pg_aligned_room:
  assumes "pg_aligned p"
  shows "unat p + 4096 \<le> 2 ^ 64"
proof -
  from assms obtain k where k: "unat p = 4096 * k"
    by (auto simp: pg_aligned_unat)
  with unat_u64_less [of p] have "k < 2 ^ 52" by simp
  then have "k + 1 \<le> 2 ^ 52" by simp
  then show ?thesis unfolding k by simp
qed

lemma in_range_page:
  assumes "pg_aligned p"
  shows "in_range p PGSIZE x \<longleftrightarrow> PGROUNDDOWN x = p"
proof -
  have dec: "x = PGROUNDDOWN x + (x AND 4095)"
    using and_not_4095_plus [of x] by (simp add: PGROUNDDOWN_def PGSIZE_def)
  have r: "unat (x AND 4095) < 4096"
    by (simp add: unat_and_4095)
  show ?thesis
  proof
    assume "PGROUNDDOWN x = p"
    then have "x - p = x AND 4095" using dec by (simp add: diff_eq_eq add.commute)
    then show "in_range p PGSIZE x"
      using r by (simp add: in_range_def PGSIZE_def word_less_nat_alt)
  next
    assume "in_range p PGSIZE x"
    then have lt: "unat (x - p) < 4096"
      by (simp add: in_range_def PGSIZE_def word_less_nat_alt)
    have "unat p + 4096 \<le> 2 ^ 64"
      using assms by (rule pg_aligned_room)
    then have "unat x = unat p + unat (x - p)"
      using lt unat_add_no_wrap [of p "x - p"] by simp
    moreover from this have "unat x mod 4096 = unat (x - p)"
      using assms lt by (auto simp: pg_aligned_unat)
    ultimately show "PGROUNDDOWN x = p"
      by (simp add: word_unat_eq_iff unat_PGROUNDDOWN)
  qed
qed

lemma page_disj:
  "pg_aligned p \<Longrightarrow> pg_aligned q \<Longrightarrow> p \<noteq> q \<Longrightarrow> disj_range p PGSIZE q PGSIZE"
  by (auto simp: disj_range_def in_range_page)

lemma PGROUNDDOWN_aligned [simp]: "pg_aligned a \<Longrightarrow> PGROUNDDOWN a = a"
  by (simp add: pg_aligned_PGROUNDDOWN_iff)

lemma pg_aligned_mult: "pg_aligned v \<longleftrightarrow> (\<exists>k. v = 4096 * k)"
proof
  assume "pg_aligned v"
  then have "v = 4096 * (v div 4096)"
    by (metis PGSIZE_def add.right_neutral mult_div_mod_eq pg_aligned_def)
  then show "\<exists>k. v = 4096 * k" ..
next
  assume "\<exists>k. v = 4096 * k"
  then obtain k where "v = 4096 * k" ..
  then have "unat v = 4096 * unat k mod 2 ^ 64"
    by (simp add: unat_word_ariths)
  moreover have "(4096 :: nat) dvd 2 ^ 64" by simp
  ultimately show "pg_aligned v"
    by (simp only: pg_aligned_unat mod_mod_cancel) simp
qed

lemma pg_aligned_add: "pg_aligned a \<Longrightarrow> pg_aligned b \<Longrightarrow> pg_aligned (a + b)"
  unfolding pg_aligned_mult by (metis distrib_left)

lemma pg_aligned_diff: "pg_aligned a \<Longrightarrow> pg_aligned b \<Longrightarrow> pg_aligned (a - b)"
  unfolding pg_aligned_mult by (metis right_diff_distrib)

lemma pg_aligned_consts [simp]: "pg_aligned 0" "pg_aligned PGSIZE" "pg_aligned KERNBASE"
  by (simp_all add: pg_aligned_def PGSIZE_def KERNBASE_def)

lemma pg_aligned_V2P [simp]: "pg_aligned (V2P v) \<longleftrightarrow> pg_aligned v"
proof
  assume "pg_aligned (V2P v)"
  then have "pg_aligned (V2P v + KERNBASE)" by (intro pg_aligned_add) simp_all
  then show "pg_aligned v" by (simp add: V2P_def)
next
  assume "pg_aligned v"
  then show "pg_aligned (V2P v)" unfolding V2P_def by (intro pg_aligned_diff) simp_all
qed

lemma pg_aligned_P2V [simp]: "pg_aligned (P2V v) \<longleftrightarrow> pg_aligned v"
  by (metis V2P_P2V pg_aligned_V2P)

section \<open>Table slots\<close>

text \<open>Entry \<open>i\<close> of the page table whose page starts at physical address \<open>t\<close>.\<close>

definition slot :: "u64 \<Rightarrow> u64 \<Rightarrow> u64" where
  "slot t i = t + 8 * i"

lemma slot_offset:
  fixes i :: u64
  assumes "unat i < 512"
  shows "unat (8 * i) = 8 * unat i"
  using assms unat_mult_no_wrap [of 8 i] by simp

lemma slot_in_page:
  assumes "unat i < 512" and "in_range (slot t i) 8 x"
  shows "in_range t PGSIZE x"
proof -
  have "unat (x - slot t i) < 8"
    using assms(2) by (simp add: in_range_def word_less_nat_alt)
  then have "unat (8 * i + (x - slot t i)) < 4096"
    using assms(1) by (simp add: unat_add_no_wrap slot_offset)
  moreover have "x - t = 8 * i + (x - slot t i)" by (simp add: slot_def)
  ultimately have "unat (x - t) < 4096" by metis
  then show ?thesis by (simp add: in_range_def PGSIZE_def word_less_nat_alt)
qed

lemma slot_disj:
  assumes "unat i < 512" and "unat j < 512" and "i \<noteq> j"
  shows "disj_range (slot t i) 8 (slot t j) 8"
proof -
  have "i = j" if "in_range (slot t i) 8 x" and "in_range (slot t j) 8 x" for x
  proof -
    have d: "unat (x - slot t i) < 8" "unat (x - slot t j) < 8"
      using that by (simp_all add: in_range_def word_less_nat_alt)
    have "8 * i + (x - slot t i) = 8 * j + (x - slot t j)" by (simp add: slot_def)
    then have "unat (8 * i + (x - slot t i)) = unat (8 * j + (x - slot t j))" by (rule arg_cong)
    then have "8 * unat i + unat (x - slot t i) = 8 * unat j + unat (x - slot t j)"
      using assms(1,2) d by (simp add: unat_add_no_wrap slot_offset)
    then have "unat i = unat j" using d by presburger
    then show ?thesis by (simp add: word_unat_eq_iff)
  qed
  with assms(3) show ?thesis by (auto simp: disj_range_def)
qed

lemma slot_page_disj:
  assumes "unat i < 512" and "disj_range t PGSIZE p n"
  shows "disj_range (slot t i) 8 p n"
  using assms by (auto simp: disj_range_def dest: slot_in_page)

lemma disj_range_sym: "disj_range a n b k \<Longrightarrow> disj_range b k a n"
  by (auto simp: disj_range_def)

lemma unat_PXMASK: "unat (x AND PXMASK) < 512"
  by (simp add: PXMASK_def unat_and_511)

lemma px_bounds [simp]:
  "unat (PMX va) < 512" "unat (PDPX va) < 512" "unat (PDX va) < 512" "unat (PTX va) < 512"
  by (simp_all add: PMX_def PDPX_def PDX_def PTX_def unat_PXMASK)

lemma load64_store64_slot:
  assumes "unat i < 512" and "unat j < 512"
  shows "load64 (store64 m (slot t i) v) (slot t j) = (if i = j then v else load64 m (slot t j))"
  using assms by (simp add: load64_store64_disj slot_disj)

lemma load64_store64_page:
  assumes "pg_aligned t" and "pg_aligned u" and "t \<noteq> u" and "unat i < 512" and "unat j < 512"
  shows "load64 (store64 m (slot t i) v) (slot u j) = load64 m (slot u j)"
  by (rule load64_store64_disj, rule slot_page_disj, rule assms(4), rule disj_range_sym,
      rule slot_page_disj, rule assms(5)) (use assms page_disj in blast)

lemma load64_fill_page:
  assumes "pg_aligned t" and "pg_aligned u" and "t \<noteq> u" and "unat j < 512"
  shows "load64 (fill m t c PGSIZE) (slot u j) = load64 m (slot u j)"
  by (rule load64_fill_disj, rule disj_range_sym, rule slot_page_disj, rule assms(4))
    (use assms page_disj in blast)

lemma load64_fill_zero_page:
  assumes "unat j < 512"
  shows "load64 (fill m t 0 PGSIZE) (slot t j) = 0"
  by (rule load64_fill_zero) (use assms slot_in_page in blast)

section \<open>Page-table entries\<close>

lemma PTE_ADDR_aligned [simp]: "pg_aligned (PTE_ADDR pte)"
proof -
  have "PTE_ADDR pte = PGROUNDDOWN pte"
    by (simp add: PTE_ADDR_def PGROUNDDOWN_def PGSIZE_def)
  then show ?thesis by simp
qed

lemma pg_aligned_and_mask: "pg_aligned a \<longleftrightarrow> a AND 4095 = 0"
  by (simp add: pg_aligned_unat word_unat_eq_iff unat_and_4095)

lemma PTE_ADDR_or:
  assumes "pg_aligned pa" and "f AND NOT 4095 = 0"
  shows "PTE_ADDR (pa OR f) = pa"
proof -
  have "PTE_ADDR pa = pa"
    using assms(1) by (simp add: PTE_ADDR_def pg_aligned_PGROUNDDOWN_iff PGROUNDDOWN_def PGSIZE_def)
  then show ?thesis
    using assms(2) by (simp add: PTE_ADDR_def bit.conj_disj_distrib2)
qed

lemma and_4095_self:
  assumes "f AND NOT 4095 = (0 :: u64)"
  shows "f AND 4095 = f"
proof -
  have "f = f AND (4095 OR NOT 4095)" by simp
  also have "\<dots> = (f AND 4095) OR (f AND NOT 4095)" by (rule bit.conj_disj_distrib)
  finally show ?thesis using assms by simp
qed

lemma PTE_FLAGS_or:
  assumes "pg_aligned pa" and "f AND NOT 4095 = 0"
  shows "PTE_FLAGS (pa OR f) = f"
  using assms by (simp add: PTE_FLAGS_def bit.conj_disj_distrib2 pg_aligned_and_mask and_4095_self)

lemma pte_decompose: "PTE_ADDR pte OR PTE_FLAGS pte = pte"
proof -
  have "PTE_ADDR pte OR PTE_FLAGS pte = pte AND (NOT 4095 OR 4095)"
    unfolding PTE_ADDR_def PTE_FLAGS_def by (rule bit.conj_disj_distrib [symmetric])
  also have "\<dots> = pte" by simp
  finally show ?thesis .
qed

end
