(* ===== verification/Cstring.thy ===== *)
theory Cstring
  imports Mmu
begin

text \<open>
  The kernel's memory and string routines (\<^verbatim>\<open>string.c\<close>) on byte memory, with the
  two string-store instructions of \<^verbatim>\<open>x86.h\<close> they are built on. Each routine is the
  source's loop; the lemmas reduce it to a closed description of the memory it leaves.
\<close>

section \<open>Definitions\<close>

fun stosb :: "memory \<Rightarrow> u64 \<Rightarrow> u8 \<Rightarrow> nat \<Rightarrow> memory" where
  "stosb m a c 0 = m"
| "stosb m a c (Suc n) = stosb (m(a := c)) (a + 1) c n"

fun stosl :: "memory \<Rightarrow> u64 \<Rightarrow> u32 \<Rightarrow> nat \<Rightarrow> memory" where
  "stosl m a w 0 = m"
| "stosl m a w (Suc n) =
     stosl (m(a := ucast w, a + 1 := ucast (drop_bit 8 w),
              a + 2 := ucast (drop_bit 16 w), a + 3 := ucast (drop_bit 24 w))) (a + 4) w n"

definition memset :: "memory \<Rightarrow> u64 \<Rightarrow> u32 \<Rightarrow> u64 \<Rightarrow> memory" where
  "memset m dst c n =
     (if dst mod 4 = 0 \<and> n mod 4 = 0
      then let c = c AND 0xFF
           in stosl m dst (push_bit 24 c OR push_bit 16 c OR push_bit 8 c OR c) (unat (n div 4))
      else stosb m dst (ucast c) (unat n))"

fun memcmp_loop :: "memory \<Rightarrow> u64 \<Rightarrow> u64 \<Rightarrow> nat \<Rightarrow> int" where
  "memcmp_loop m s1 s2 0 = 0"
| "memcmp_loop m s1 s2 (Suc n) =
     (if m s1 \<noteq> m s2 then uint (m s1) - uint (m s2) else memcmp_loop m (s1 + 1) (s2 + 1) n)"

definition memcmp :: "memory \<Rightarrow> u64 \<Rightarrow> u64 \<Rightarrow> u32 \<Rightarrow> int" where
  "memcmp m v1 v2 n = memcmp_loop m v1 v2 (unat n)"

fun copy_fwd :: "memory \<Rightarrow> u64 \<Rightarrow> u64 \<Rightarrow> nat \<Rightarrow> memory" where
  "copy_fwd m d s 0 = m"
| "copy_fwd m d s (Suc n) = copy_fwd (m(d := m s)) (d + 1) (s + 1) n"

fun copy_bwd :: "memory \<Rightarrow> u64 \<Rightarrow> u64 \<Rightarrow> nat \<Rightarrow> memory" where
  "copy_bwd m d s 0 = m"
| "copy_bwd m d s (Suc n) = copy_bwd (m(d - 1 := m (s - 1))) (d - 1) (s - 1) n"

definition memmove :: "memory \<Rightarrow> u64 \<Rightarrow> u64 \<Rightarrow> u32 \<Rightarrow> memory" where
  "memmove m dst src n =
     (if src < dst \<and> src + ucast n > dst
      then copy_bwd m (dst + ucast n) (src + ucast n) (unat n)
      else copy_fwd m dst src (unat n))"

definition memcpy :: "memory \<Rightarrow> u64 \<Rightarrow> u64 \<Rightarrow> u32 \<Rightarrow> memory" where
  "memcpy m dst src n = memmove m dst src n"

fun strncmp_loop :: "memory \<Rightarrow> u64 \<Rightarrow> u64 \<Rightarrow> nat \<Rightarrow> int" where
  "strncmp_loop m p q 0 = 0"
| "strncmp_loop m p q (Suc n) =
     (if m p \<noteq> 0 \<and> m p = m q then strncmp_loop m (p + 1) (q + 1) n
      else uint (m p) - uint (m q))"

definition strncmp :: "memory \<Rightarrow> u64 \<Rightarrow> u64 \<Rightarrow> u32 \<Rightarrow> int" where
  "strncmp m p q n = strncmp_loop m p q (unat n)"

fun strncpy_loop :: "memory \<Rightarrow> u64 \<Rightarrow> u64 \<Rightarrow> nat \<Rightarrow> memory" where
  "strncpy_loop m s t 0 = m"
| "strncpy_loop m s t (Suc n) =
     (let c = m t; m' = m(s := c)
      in if c \<noteq> 0 then strncpy_loop m' (s + 1) (t + 1) n else stosb m' (s + 1) 0 n)"

definition strncpy :: "memory \<Rightarrow> u64 \<Rightarrow> u64 \<Rightarrow> int \<Rightarrow> memory" where
  "strncpy m s t n = strncpy_loop m s t (nat n)"

text \<open>
  \<open>safestrcpy_loop\<close> starts after the first \<^verbatim>\<open>--n\<close>: its counter is the value that
  \<^verbatim>\<open>--n\<close> has just produced. A copied NUL has advanced \<open>s\<close>, so the final store
  writes a second NUL behind it.
\<close>

fun safestrcpy_loop :: "memory \<Rightarrow> u64 \<Rightarrow> u64 \<Rightarrow> nat \<Rightarrow> memory" where
  "safestrcpy_loop m s t 0 = m(s := 0)"
| "safestrcpy_loop m s t (Suc n) =
     (let c = m t; m' = m(s := c)
      in if c \<noteq> 0 then safestrcpy_loop m' (s + 1) (t + 1) n else m'(s + 1 := 0))"

definition safestrcpy :: "memory \<Rightarrow> u64 \<Rightarrow> u64 \<Rightarrow> int \<Rightarrow> memory" where
  "safestrcpy m s t n = (if n \<le> 0 then m else safestrcpy_loop m s t (nat n - 1))"

partial_function (option) strlen_loop :: "memory \<Rightarrow> u64 \<Rightarrow> nat \<Rightarrow> nat option" where
  "strlen_loop m s n = (if m (s + of_nat n) \<noteq> 0 then strlen_loop m s (Suc n) else Some n)"

definition strlen :: "memory \<Rightarrow> u64 \<Rightarrow> nat option" where
  "strlen m s = strlen_loop m s 0"

section \<open>memset fills\<close>

lemma in_range_Suc:
  assumes "n + 1 < 2 ^ 64"
  shows "in_range a (of_nat (Suc n)) x \<longleftrightarrow> x = a \<or> in_range (a + 1) (of_nat n) x"
proof -
  have n: "unat (of_nat n :: u64) = n" "unat (of_nat (Suc n) :: u64) = Suc n"
    using assms by (simp_all add: unat_of_nat del: of_nat_Suc)
  show ?thesis
  proof (cases "x = a")
    case True
    then show ?thesis using n by (simp add: in_range_def word_less_nat_alt del: of_nat_Suc)
  next
    case False
    then have "unat (x - a) \<noteq> 0" by (simp add: unat_eq_zero)
    moreover have "x - (a + 1) = (x - a) - 1" by simp
    ultimately have "unat (x - (a + 1)) = unat (x - a) - 1"
      by (metis unat_minus_one unat_0)
    then show ?thesis
      using False n \<open>unat (x - a) \<noteq> 0\<close>
      by (auto simp: in_range_def word_less_nat_alt simp del: of_nat_Suc)
  qed
qed

lemma in_range_0 [simp]: "\<not> in_range a 0 x"
  by (simp add: in_range_def)

lemma stosb_fill: "n < 2 ^ 64 \<Longrightarrow> stosb m a c n = fill m a c (of_nat n)"
proof (induction n arbitrary: m a)
  case 0
  then show ?case by (simp add: fill_def)
next
  case (Suc n)
  then have "stosb m a c (Suc n) = fill (m(a := c)) (a + 1) c (of_nat n)" by simp
  also have "\<dots> = fill m a c (of_nat (Suc n))"
    using Suc.prems by (auto simp: fill_def fun_eq_iff in_range_Suc simp del: of_nat_Suc)
  finally show ?case .
qed

lemma stosl_stosb:
  assumes "ucast w = c" "ucast (drop_bit 8 w) = c" "ucast (drop_bit 16 w) = c" "ucast (drop_bit 24 w) = c"
  shows "stosl m a w n = stosb m a c (4 * n)"
proof (induction n arbitrary: m a)
  case 0
  then show ?case by simp
next
  case (Suc n)
  have e: "4 * Suc n = Suc (Suc (Suc (Suc (4 * n))))" by simp
  have a: "a + 1 + 1 = a + 2" "a + 2 + 1 = a + 3" "a + 3 + 1 = a + 4" by simp_all
  show ?case
    unfolding e by (simp only: stosl.simps stosb.simps assms Suc.IH a)
qed

lemma memset_fill: "memset m dst c n = fill m dst (ucast c) n"
proof (cases "dst mod 4 = 0 \<and> n mod 4 = 0")
  case True
  define d where "d = c AND 0xFF"
  define w where "w = push_bit 24 d OR push_bit 16 d OR push_bit 8 d OR d"
  have d: "d = take_bit 8 c"
    by (simp add: d_def take_bit_eq_mask mask_eq_exp_minus_1)
  have bytes: "ucast w = (ucast c :: u8)" "ucast (drop_bit 8 w) = (ucast c :: u8)"
    "ucast (drop_bit 16 w) = (ucast c :: u8)" "ucast (drop_bit 24 w) = (ucast c :: u8)"
    unfolding w_def d by (rule bit_word_eqI, auto simp: bit_simps)+
  have n: "4 * unat (n div 4) = unat n"
    using True by (auto simp: word_unat_eq_iff unat_mod unat_div)
  have "memset m dst c n = stosl m dst w (unat (n div 4))"
    using True by (simp add: memset_def w_def d_def Let_def)
  also have "\<dots> = stosb m dst (ucast c) (unat n)"
    using stosl_stosb [OF bytes] n by simp
  also have "\<dots> = fill m dst (ucast c) n"
    using unat_u64_less [of n] by (simp add: stosb_fill)
  finally show ?thesis .
next
  case False
  then show ?thesis
    using unat_u64_less [of n] by (auto simp: memset_def stosb_fill)
qed

section \<open>memcmp compares\<close>

lemma memcmp_loop_0_iff:
  "memcmp_loop m s1 s2 n = 0 \<longleftrightarrow> (\<forall>k<n. m (s1 + of_nat k) = m (s2 + of_nat k))"
proof (induction n arbitrary: s1 s2)
  case 0
  then show ?case by simp
next
  case (Suc n)
  have "uint (m s1) - uint (m s2) = 0 \<longleftrightarrow> m s1 = m s2"
    by (simp add: word_uint_eq_iff)
  then show ?case
    using Suc.IH [of "s1 + 1" "s2 + 1"]
    by (auto simp: All_less_Suc2 add.assoc)
qed

lemma memcmp_0_iff:
  "memcmp m v1 v2 n = 0 \<longleftrightarrow> (\<forall>k<unat n. m (v1 + of_nat k) = m (v2 + of_nat k))"
  by (simp add: memcmp_def memcmp_loop_0_iff)

section \<open>memmove copies, also between overlapping areas\<close>

lemma in_range_snoc:
  assumes "n + 1 < 2 ^ 64"
  shows "in_range a (of_nat (Suc n)) x \<longleftrightarrow> in_range a (of_nat n) x \<or> x = a + of_nat n"
proof -
  have n: "unat (of_nat n :: u64) = n" "unat (of_nat (Suc n) :: u64) = Suc n"
    using assms by (simp_all add: unat_of_nat del: of_nat_Suc)
  have "x = a + of_nat n \<longleftrightarrow> x - a = of_nat n" by (auto simp: algebra_simps)
  also have "\<dots> \<longleftrightarrow> unat (x - a) = n" using n by (auto simp: word_unat_eq_iff)
  finally show ?thesis
    using n by (auto simp: in_range_def word_less_nat_alt simp del: of_nat_Suc)
qed

lemma in_rangeE:
  assumes "in_range a (of_nat n) x" and "n < 2 ^ 64"
  obtains k where "k < n" and "x = a + of_nat k"
proof -
  have "unat (x - a) < n"
    using assms by (simp add: in_range_def word_less_nat_alt unat_of_nat)
  moreover have "x = a + of_nat (unat (x - a))" by simp
  ultimately show ?thesis by (rule that)
qed

lemma copy_fwd_copy_bytes:
  assumes "n < 2 ^ 64" and "\<And>j. 0 < j \<Longrightarrow> j < n \<Longrightarrow> s + of_nat j \<noteq> d"
  shows "copy_fwd m d s n = copy_bytes m d s (of_nat n)"
  using assms
proof (induction n arbitrary: m d s)
  case 0
  then show ?case by (simp add: copy_bytes_def)
next
  case (Suc n)
  have IH: "copy_fwd (m(d := m s)) (d + 1) (s + 1) n = copy_bytes (m(d := m s)) (d + 1) (s + 1) (of_nat n)"
  proof (rule Suc.IH)
    show "n < 2 ^ 64" using Suc.prems(1) by simp
    show "s + 1 + of_nat j \<noteq> d + 1" if "0 < j" "j < n" for j
      using Suc.prems(2) [of j] that by (simp add: algebra_simps)
  qed
  have read: "s + 1 + (x - (d + 1)) \<noteq> d" if x: "in_range (d + 1) (of_nat n) x" for x
  proof -
    obtain k where "k < n" "x = d + 1 + of_nat k"
      using in_rangeE [OF x] Suc.prems(1) by auto
    then show ?thesis
      using Suc.prems(2) [of "Suc k"] by (simp add: algebra_simps)
  qed
  have "\<not> in_range (d + 1) (of_nat n) d"
    by (simp add: in_range_def)
  then have "copy_bytes (m(d := m s)) (d + 1) (s + 1) (of_nat n) = copy_bytes m d s (of_nat (Suc n))"
    using Suc.prems(1) read
    by (auto simp: copy_bytes_def fun_eq_iff in_range_Suc algebra_simps simp del: of_nat_Suc)
  then show ?case using IH by simp
qed

lemma copy_bwd_copy_bytes:
  assumes "n < 2 ^ 64" and "\<And>j. 0 < j \<Longrightarrow> j < n \<Longrightarrow> d + of_nat j \<noteq> s"
  shows "copy_bwd m d s n = copy_bytes m (d - of_nat n) (s - of_nat n) (of_nat n)"
  using assms
proof (induction n arbitrary: m d s)
  case 0
  then show ?case by (simp add: copy_bytes_def)
next
  case (Suc n)
  let ?m = "m(d - 1 := m (s - 1))"
  have IH: "copy_bwd ?m (d - 1) (s - 1) n
      = copy_bytes ?m (d - 1 - of_nat n) (s - 1 - of_nat n) (of_nat n)"
  proof (rule Suc.IH)
    show "n < 2 ^ 64" using Suc.prems(1) by simp
    show "d - 1 + of_nat j \<noteq> s - 1" if "0 < j" "j < n" for j
      using Suc.prems(2) [of j] that by (simp add: algebra_simps)
  qed
  let ?d = "d - 1 - of_nat n" and ?s = "s - 1 - of_nat n"
  have read: "?s + (x - ?d) \<noteq> d - 1" if x: "in_range ?d (of_nat n) x" for x
  proof -
    obtain k where k: "k < n" "x = ?d + of_nat k"
      using in_rangeE [OF x] Suc.prems(1) by auto
    moreover have "d + of_nat (n - k) \<noteq> s"
      using Suc.prems(2) [of "n - k"] k(1) by simp
    ultimately show ?thesis
      by (auto simp: of_nat_diff algebra_simps)
  qed
  have last: "\<not> in_range ?d (of_nat n) (?d + of_nat n)"
    by (simp add: in_range_def)
  have "copy_bytes ?m ?d ?s (of_nat n) = copy_bytes m ?d ?s (of_nat (Suc n))"
    using Suc.prems(1) read last
    by (auto simp: copy_bytes_def fun_eq_iff in_range_snoc algebra_simps simp del: of_nat_Suc)
  then show ?case using IH by (simp add: algebra_simps)
qed

lemma memmove_copy_bytes:
  assumes "unat dst + unat n < 2 ^ 64" and "unat src + unat n < 2 ^ 64"
  shows "memmove m dst src n = copy_bytes m dst src (ucast n)"
proof -
  have lt: "unat n < 2 ^ 64" using assms(1) by simp
  then have un: "unat (ucast n :: u64) = unat n"
    by (simp add: unsigned_ucast_eq take_bit_nat_eq_self)
  then have ofn: "of_nat (unat n) = (ucast n :: u64)"
    using lt by (simp add: word_unat_eq_iff unat_of_nat)
  have end_src: "unat (src + ucast n) = unat src + unat n"
    using assms(2) un by (simp add: unat_add_no_wrap)
  have off: "unat (a + of_nat j) = unat a + j" if "unat a + unat n < 2 ^ 64" "j < unat n" for a :: u64 and j
    using that by (subst unat_add_no_wrap) (simp_all add: unat_of_nat)
  show ?thesis
  proof (cases "src < dst \<and> src + ucast n > dst")
    case True
    have "dst + ucast n + of_nat j \<noteq> src + ucast n" if "0 < j" "j < unat n" for j
    proof
      assume "dst + ucast n + of_nat j = src + ucast n"
      then have "dst + of_nat j = src" by (simp add: algebra_simps)
      then have "unat dst + j = unat src" using off [OF assms(1) that(2)] by simp
      then show False using True by (simp add: word_less_nat_alt)
    qed
    from copy_bwd_copy_bytes [OF lt this] show ?thesis
      using True by (simp add: memmove_def ofn)
  next
    case False
    have "src + of_nat j \<noteq> dst" if "0 < j" "j < unat n" for j
    proof
      assume "src + of_nat j = dst"
      then have "unat src + j = unat dst" using off [OF assms(2) that(2)] by simp
      then show False using False that end_src by (simp add: word_less_nat_alt)
    qed
    from copy_fwd_copy_bytes [OF lt this] show ?thesis
      using False by (auto simp: memmove_def ofn)
  qed
qed

section \<open>NUL-terminated strings\<close>

fun cstr :: "memory \<Rightarrow> u64 \<Rightarrow> u8 list \<Rightarrow> bool" where
  "cstr m a [] \<longleftrightarrow> m a = 0"
| "cstr m a (x # xs) \<longleftrightarrow> m a = x \<and> x \<noteq> 0 \<and> cstr m (a + 1) xs"

lemma strlen_loop_cstr:
  "cstr m (s + of_nat n) xs \<Longrightarrow> strlen_loop m s n = Some (n + length xs)"
proof (induction xs arbitrary: n)
  case Nil
  then show ?case by (simp add: strlen_loop.simps)
next
  case (Cons x xs)
  then have "cstr m (s + of_nat (Suc n)) xs" and nz: "m (s + of_nat n) \<noteq> 0"
    by (simp_all add: algebra_simps)
  from Cons.IH [OF this(1)] show ?case
    using nz by (subst strlen_loop.simps) simp
qed

lemma strlen_cstr: "cstr m s xs \<Longrightarrow> strlen m s = Some (length xs)"
  unfolding strlen_def using strlen_loop_cstr [of m s 0 xs] by simp

lemma strncmp_loop_0_iff:
  "cstr m p xs \<Longrightarrow> cstr m q ys \<Longrightarrow> strncmp_loop m p q n = 0 \<longleftrightarrow> take n xs = take n ys"
proof (induction n arbitrary: p q xs ys)
  case 0
  then show ?case by simp
next
  case (Suc n)
  show ?case
  proof (cases xs)
    case Nil
    with Suc.prems show ?thesis by (cases ys) (auto simp: uint_0_iff)
  next
    case (Cons x xs')
    with Suc show ?thesis by (cases ys) (auto simp: uint_0_iff word_uint_eq_iff [symmetric])
  qed
qed

lemma safestrcpy_loop_outside:
  assumes "n + 1 < 2 ^ 64" and "\<not> in_range s (of_nat (Suc n)) x"
  shows "safestrcpy_loop m s t n x = m x"
  using assms
proof (induction n arbitrary: m s t)
  case 0
  then show ?case by (auto simp: in_range_def)
next
  case (Suc n)
  have out: "x \<noteq> s" "\<not> in_range (s + 1) (of_nat (Suc n)) x"
    using Suc.prems by (auto simp: in_range_Suc simp del: of_nat_Suc)
  moreover have "x \<noteq> s + 1"
    using out(2) Suc.prems(1) by (auto simp: in_range_Suc simp del: of_nat_Suc)
  ultimately show ?case
    using Suc.IH [of "s + 1" "m(s := m t)" "t + 1"] Suc.prems(1)
    by (simp add: Let_def del: of_nat_Suc fun_upd_apply) simp
qed

lemma safestrcpy_loop_cstr:
  assumes "n + 1 < 2 ^ 64" and "cstr m t xs"
    and "\<And>j k. j \<le> length xs \<Longrightarrow> k \<le> n \<Longrightarrow> t + of_nat j \<noteq> s + of_nat k"
  shows "cstr (safestrcpy_loop m s t n) s (take n xs)"
  using assms
proof (induction n arbitrary: m s t xs)
  case 0
  then show ?case by simp
next
  case (Suc n)
  show ?case
  proof (cases xs)
    case Nil
    with Suc.prems show ?thesis by (simp add: Let_def)
  next
    case (Cons x xs')
    let ?m = "m(s := x)"
    have x: "m t = x" "x \<noteq> 0" and tl: "cstr m (t + 1) xs'"
      using Suc.prems(2) Cons by auto
    have src: "s \<noteq> t + 1 + of_nat j" if "j \<le> length xs'" for j
      using Suc.prems(3) [of "Suc j" 0] that Cons by (auto simp: algebra_simps)
    have keep: "cstr m a ys \<Longrightarrow> (\<And>j. j \<le> length ys \<Longrightarrow> s \<noteq> a + of_nat j) \<Longrightarrow> cstr ?m a ys" for a ys
    proof (induction ys arbitrary: a)
      case Nil
      then show ?case using Nil.prems(2) [of 0] by simp
    next
      case (Cons y ys)
      have "s \<noteq> a" using Cons.prems(2) [of 0] by simp
      moreover have "s \<noteq> a + 1 + of_nat j" if "j \<le> length ys" for j
        using Cons.prems(2) [of "Suc j"] that by (simp add: algebra_simps)
      ultimately show ?case using Cons by auto
    qed
    have "cstr (safestrcpy_loop ?m (s + 1) (t + 1) n) (s + 1) (take n xs')"
    proof (rule Suc.IH)
      show "n + 1 < 2 ^ 64" using Suc.prems(1) by simp
      show "cstr ?m (t + 1) xs'" using keep [OF tl] src by blast
      show "t + 1 + of_nat j \<noteq> s + 1 + of_nat k" if "j \<le> length xs'" "k \<le> n" for j k
        using Suc.prems(3) [of j k] that Cons by (simp add: algebra_simps)
    qed
    moreover have "\<not> in_range (s + 1) (of_nat (Suc n)) s"
      by (simp add: in_range_def)
    then have "safestrcpy_loop ?m (s + 1) (t + 1) n s = ?m s"
      using Suc.prems(1) by (intro safestrcpy_loop_outside) simp_all
    ultimately show ?thesis using x Cons by (simp add: Let_def)
  qed
qed

end
