(* ===== verification/Kalloc.thy ===== *)
theory Kalloc
  imports Cstring
begin

text \<open>
  The physical page allocator with reference counts and checksums (\<^verbatim>\<open>kalloc.c\<close>).
  A kernel pointer \<open>v\<close> is dereferenced through the direct map, at physical address
  \<open>V2P v\<close>. The free list is threaded through the first word of each free page.
  \<open>kend\<close> is the linker symbol \<^verbatim>\<open>end\<close>. The body of each function runs under
  \<^verbatim>\<open>kmem.lock\<close> and is one atomic step here.
\<close>

section \<open>State and operations\<close>

record frameinfo =
  refs :: u32
  checksum :: u64

record kmem =
  phys :: memory
  freelist :: u64
  use_lock :: bool
  finfo :: "nat \<Rightarrow> frameinfo"
  kend :: u64

text \<open>The length of the array \<^verbatim>\<open>frameinfo\<close> is \<^verbatim>\<open>PHYSTOP/PGSIZE\<close>.\<close>

definition NFRAMES :: nat where
  "NFRAMES = 57344"

definition frame_ix :: "u64 \<Rightarrow> nat" where
  "frame_ix pa = unat (PGINDEX pa)"

definition set_refs :: "kmem \<Rightarrow> nat \<Rightarrow> u32 \<Rightarrow> kmem" where
  "set_refs s i r = s\<lparr>finfo := (finfo s)(i := (finfo s i)\<lparr>refs := r\<rparr>)\<rparr>"

definition set_checksum :: "kmem \<Rightarrow> nat \<Rightarrow> u64 \<Rightarrow> kmem" where
  "set_checksum s i c = s\<lparr>finfo := (finfo s)(i := (finfo s i)\<lparr>checksum := c\<rparr>)\<rparr>"

definition kfree :: "kmem \<Rightarrow> u64 \<Rightarrow> kmem res" where
  "kfree s v =
     (if v mod PGSIZE \<noteq> 0 \<or> v < kend s \<or> V2P v \<ge> PHYSTOP then Inl (Panic ''kfree'')
      else let m = memset (phys s) (V2P v) 1 PGSIZE
           in Inr (s\<lparr>phys := store64 m (V2P v) (freelist s), freelist := v\<rparr>))"

definition kalloc :: "kmem \<Rightarrow> (u64 \<times> kmem) res" where
  "kalloc s =
     (let r = freelist s;
          s1 = (if r \<noteq> 0 then s\<lparr>freelist := load64 (phys s) (V2P r)\<rparr> else s);
          i = frame_ix (V2P r)
      in if i < NFRAMES then Inr (r, set_refs s1 i 1) else Inl OutOfBounds)"

definition krelease :: "kmem \<Rightarrow> u64 \<Rightarrow> kmem res" where
  "krelease s v =
     (let frame = V2P v; i = frame_ix frame
      in if i < NFRAMES
         then let s1 = set_refs s i (refs (finfo s i) - 1)
              in if refs (finfo s1 i) = 0 then kfree s1 (P2V frame) else Inr s1
         else Inl OutOfBounds)"

definition kretain :: "kmem \<Rightarrow> u64 \<Rightarrow> kmem res" where
  "kretain s v =
     (let i = frame_ix (V2P v)
      in if i < NFRAMES then Inr (set_refs s i (refs (finfo s i) + 1)) else Inl OutOfBounds)"

definition krefcount :: "kmem \<Rightarrow> u64 \<Rightarrow> u32 res" where
  "krefcount s v =
     (let i = frame_ix (V2P v) in if i < NFRAMES then Inr (refs (finfo s i)) else Inl OutOfBounds)"

fun checksum_loop :: "memory \<Rightarrow> u64 \<Rightarrow> nat \<Rightarrow> u64 \<Rightarrow> u64" where
  "checksum_loop m i 0 acc = acc"
| "checksum_loop m i (Suc n) acc = checksum_loop m (i + 8) n (acc + load64 m i)"

definition update_checksum :: "kmem \<Rightarrow> u64 \<Rightarrow> kmem res" where
  "update_checksum s frame =
     (let i = frame_ix frame
      in if i < NFRAMES
         then Inr (set_checksum s i (checksum_loop (phys s) frame (unat (PGSIZE div 8)) 0))
         else Inl OutOfBounds)"

definition frames_are_identical :: "kmem \<Rightarrow> u64 \<Rightarrow> u64 \<Rightarrow> bool res" where
  "frames_are_identical s frame1 frame2 =
     (let i = frame_ix frame1; j = frame_ix frame2
      in if i < NFRAMES \<and> j < NFRAMES
         then Inr (checksum (finfo s i) = checksum (finfo s j)
                   \<and> memcmp (phys s) frame1 frame2 (ucast PGSIZE) = 0)
         else Inl OutOfBounds)"

partial_function (option) freelist_loop :: "memory \<Rightarrow> u64 \<Rightarrow> u32 \<Rightarrow> u32 option" where
  "freelist_loop m list i =
     (if list \<noteq> 0 then freelist_loop m (load64 m (V2P list)) (i + 1) else Some i)"

definition kfreepagecount :: "kmem \<Rightarrow> u32 option" where
  "kfreepagecount s = freelist_loop (phys s) (freelist s) 0"

partial_function (option) freerange_loop :: "kmem \<Rightarrow> u64 \<Rightarrow> u64 \<Rightarrow> kmem res option" where
  "freerange_loop s p vend =
     (if p + PGSIZE \<le> vend
      then case kfree s p of Inl e \<Rightarrow> Some (Inl e) | Inr s' \<Rightarrow> freerange_loop s' (p + PGSIZE) vend
      else Some (Inr s))"

definition freerange :: "kmem \<Rightarrow> u64 \<Rightarrow> u64 \<Rightarrow> kmem res option" where
  "freerange s vstart vend = freerange_loop s (PGROUNDUP vstart) vend"

definition kinit1 :: "kmem \<Rightarrow> u64 \<Rightarrow> u64 \<Rightarrow> kmem res option" where
  "kinit1 s vstart vend =
     freerange (s\<lparr>finfo := (\<lambda>_. \<lparr>refs = 0, checksum = 0\<rparr>), use_lock := False, freelist := 0\<rparr>)
       vstart vend"

definition kinit2 :: "kmem \<Rightarrow> u64 \<Rightarrow> u64 \<Rightarrow> kmem res option" where
  "kinit2 s vstart vend =
     map_option (map_sum id (\<lambda>s'. s'\<lparr>use_lock := True\<rparr>)) (freerange s vstart vend)"

section \<open>The free list as a list of pages\<close>

fun flist :: "memory \<Rightarrow> u64 \<Rightarrow> u64 list \<Rightarrow> bool" where
  "flist m p [] \<longleftrightarrow> p = 0"
| "flist m p (a # as) \<longleftrightarrow> p = a \<and> a \<noteq> 0 \<and> flist m (load64 m (V2P a)) as"

definition valid_page :: "u64 \<Rightarrow> u64 \<Rightarrow> bool" where
  "valid_page e v \<longleftrightarrow> pg_aligned v \<and> e \<le> v \<and> V2P v < PHYSTOP"

definition kmem_inv :: "kmem \<Rightarrow> u64 list \<Rightarrow> bool" where
  "kmem_inv s L \<longleftrightarrow> flist (phys s) (freelist s) L \<and> distinct L
     \<and> (\<forall>v\<in>set L. valid_page (kend s) v) \<and> KERNBASE \<le> kend s"

lemma flist_cong:
  "(\<And>a. a \<in> set L \<Longrightarrow> load64 m (V2P a) = load64 m' (V2P a)) \<Longrightarrow> flist m p L = flist m' p L"
  by (induction L arbitrary: p) auto

lemma frame_ix_less: "pa < PHYSTOP \<Longrightarrow> frame_ix pa < NFRAMES"
  by (simp add: frame_ix_def PGINDEX_def PGSIZE_def PHYSTOP_def NFRAMES_def unat_div
      word_less_nat_alt)

lemma frame_ix_inject:
  assumes "pg_aligned a" and "pg_aligned b" and "frame_ix a = frame_ix b"
  shows "a = b"
proof -
  have "unat a div 4096 = unat b div 4096"
    using assms(3) by (simp add: frame_ix_def PGINDEX_def PGSIZE_def unat_div)
  moreover have "unat a mod 4096 = unat b mod 4096"
    using assms by (simp add: pg_aligned_unat)
  ultimately have "unat a = unat b" by (metis div_mult_mod_eq)
  then show ?thesis by (simp add: word_unat_eq_iff)
qed

lemma valid_page_facts:
  assumes "valid_page e v"
  shows "pg_aligned v" "pg_aligned (V2P v)" "frame_ix (V2P v) < NFRAMES"
  using assms by (simp_all add: valid_page_def frame_ix_less)

lemma valid_page_nonzero: "valid_page e v \<Longrightarrow> KERNBASE \<le> e \<Longrightarrow> v \<noteq> 0"
  by (auto simp: valid_page_def KERNBASE_def)

lemma page_word: "slot t 0 = t"
  by (simp add: slot_def)

section \<open>Allocation and release keep the free list well formed\<close>

lemma frame_ix_V2P_inject:
  "valid_page e a \<Longrightarrow> valid_page e b \<Longrightarrow> frame_ix (V2P a) = frame_ix (V2P b) \<longleftrightarrow> a = b"
  by (metis V2P_inject frame_ix_inject valid_page_facts(2))

lemma flist_fill_store:
  assumes "pg_aligned v" and "v \<notin> set L" and "\<And>a. a \<in> set L \<Longrightarrow> pg_aligned a"
  shows "flist (store64 (fill m (V2P v) c PGSIZE) (V2P v) w) p L = flist m p L"
proof (rule flist_cong)
  fix a assume a: "a \<in> set L"
  then have "V2P v \<noteq> V2P a" using assms(2) by auto
  then show "load64 (store64 (fill m (V2P v) c PGSIZE) (V2P v) w) (V2P a) = load64 m (V2P a)"
    using load64_store64_page [of "V2P v" "V2P a" 0 0] load64_fill_page [of "V2P v" "V2P a" 0]
      assms a by (simp add: page_word)
qed

lemma kfree_ok:
  assumes "kmem_inv s L" and "valid_page (kend s) v" and "v \<notin> set L"
  obtains s' where "kfree s v = Inr s'" and "kmem_inv s' (v # L)" and "finfo s' = finfo s"
    and "kend s' = kend s"
    and "\<And>x. PGROUNDDOWN x \<noteq> V2P v \<Longrightarrow> phys s' x = phys s x"
proof -
  let ?m = "store64 (fill (phys s) (V2P v) 1 PGSIZE) (V2P v) (freelist s)"
  let ?s = "s\<lparr>phys := ?m, freelist := v\<rparr>"
  have vp: "pg_aligned v" "kend s \<le> v" "V2P v < PHYSTOP"
    using assms(2) by (simp_all add: valid_page_def)
  have run: "kfree s v = Inr ?s"
    using vp by (auto simp: kfree_def memset_fill pg_aligned_def Let_def not_less not_le)
  have al: "pg_aligned a" if "a \<in> set L" for a
    using assms(1) that by (auto simp: kmem_inv_def valid_page_def)
  have "flist ?m v (v # L)"
    using assms vp flist_fill_store [OF vp(1) assms(3) al] valid_page_nonzero [OF assms(2)]
    by (simp add: kmem_inv_def)
  then have inv: "kmem_inv ?s (v # L)"
    using assms by (simp add: kmem_inv_def)
  have frame: "phys ?s x = phys s x" if "PGROUNDDOWN x \<noteq> V2P v" for x
  proof -
    have out: "\<not> in_range (V2P v) PGSIZE x"
      using that vp(1) by (simp add: in_range_page)
    then have "\<not> in_range (V2P v) 8 x"
      using slot_in_page [of 0 "V2P v" x] by (auto simp: page_word)
    with out show ?thesis by (simp add: store64_def fill_def)
  qed
  show ?thesis
    by (rule that [OF run inv]) (use frame in \<open>simp_all\<close>)
qed

lemma kalloc_ok:
  assumes "kmem_inv s (v # L)"
  obtains s' where "kalloc s = Inr (v, s')" and "kmem_inv s' L" and "phys s' = phys s"
    and "kend s' = kend s" and "finfo s' = (finfo s)(frame_ix (V2P v) := (finfo s (frame_ix (V2P v)))\<lparr>refs := 1\<rparr>)"
proof -
  have vp: "valid_page (kend s) v" and fl: "freelist s = v" "v \<noteq> 0"
    using assms by (auto simp: kmem_inv_def)
  let ?s = "set_refs (s\<lparr>freelist := load64 (phys s) (V2P v)\<rparr>) (frame_ix (V2P v)) 1"
  have "kalloc s = Inr (v, ?s)"
    using fl valid_page_facts(3) [OF vp] by (simp add: kalloc_def Let_def)
  moreover have "kmem_inv ?s L"
    using assms by (simp add: kmem_inv_def set_refs_def)
  ultimately show ?thesis
    by (rule that) (simp_all add: set_refs_def)
qed

lemma kmem_inv_finfo [simp]: "kmem_inv (s\<lparr>finfo := f\<rparr>) L = kmem_inv s L"
  by (simp add: kmem_inv_def)

lemma kmem_inv_set_refs [simp]: "kmem_inv (set_refs s i r) L = kmem_inv s L"
  by (simp add: set_refs_def)

lemma set_refs_fields [simp]:
  "phys (set_refs s i r) = phys s" "kend (set_refs s i r) = kend s"
  "freelist (set_refs s i r) = freelist s"
  "refs (finfo (set_refs s i r) j) = (if j = i then r else refs (finfo s j))"
  by (simp_all add: set_refs_def)

lemma krelease_shared:
  assumes "valid_page e v" and "refs (finfo s (frame_ix (V2P v))) \<noteq> 1"
  shows "krelease s v = Inr (set_refs s (frame_ix (V2P v)) (refs (finfo s (frame_ix (V2P v))) - 1))"
  using assms valid_page_facts(3) [OF assms(1)] by (simp add: krelease_def Let_def)

lemma krelease_last:
  assumes "valid_page e v" and "refs (finfo s (frame_ix (V2P v))) = 1"
  shows "krelease s v = kfree (set_refs s (frame_ix (V2P v)) 0) v"
  using assms valid_page_facts(3) [OF assms(1)] by (simp add: krelease_def Let_def)

lemma kretain_ok:
  assumes "valid_page e v"
  shows "kretain s v = Inr (set_refs s (frame_ix (V2P v)) (refs (finfo s (frame_ix (V2P v))) + 1))"
  using valid_page_facts(3) [OF assms] by (simp add: kretain_def Let_def)

section \<open>The interface the rest of the kernel relies on\<close>

text \<open>
  A reference-counting page allocator: \<open>inv s L\<close> says that \<open>s\<close> is well formed and
  that its free pages are \<open>L\<close>, in the order \<open>alloc\<close> hands them out; \<open>byte s v k\<close> is the
  \<open>k\<close>-th byte of page \<open>v\<close>.
\<close>

locale page_allocator =
  fixes alloc :: "'s \<Rightarrow> (u64 \<times> 's) res"
    and retain :: "'s \<Rightarrow> u64 \<Rightarrow> 's res"
    and release :: "'s \<Rightarrow> u64 \<Rightarrow> 's res"
    and inv :: "'s \<Rightarrow> u64 list \<Rightarrow> bool"
    and is_page :: "'s \<Rightarrow> u64 \<Rightarrow> bool"
    and refcnt :: "'s \<Rightarrow> u64 \<Rightarrow> nat"
    and byte :: "'s \<Rightarrow> u64 \<Rightarrow> u64 \<Rightarrow> u8"
  assumes inv_page: "inv s L \<Longrightarrow> v \<in> set L \<Longrightarrow> is_page s v"
    and inv_distinct: "inv s L \<Longrightarrow> distinct L"
    and alloc_spec: "inv s (v # L) \<Longrightarrow>
      \<exists>s'. alloc s = Inr (v, s') \<and> inv s' L \<and> refcnt s' v = 1 \<and> is_page s' = is_page s
        \<and> (\<forall>u. is_page s u \<longrightarrow> u \<noteq> v \<longrightarrow> refcnt s' u = refcnt s u)
        \<and> (\<forall>u. byte s' u = byte s u)"
    and retain_spec: "inv s L \<Longrightarrow> is_page s v \<Longrightarrow> refcnt s v + 1 < 2 ^ 32 \<Longrightarrow>
      \<exists>s'. retain s v = Inr s' \<and> inv s' L \<and> refcnt s' v = refcnt s v + 1 \<and> is_page s' = is_page s
        \<and> (\<forall>u. is_page s u \<longrightarrow> u \<noteq> v \<longrightarrow> refcnt s' u = refcnt s u)
        \<and> (\<forall>u. byte s' u = byte s u)"
    and release_shared: "inv s L \<Longrightarrow> is_page s v \<Longrightarrow> 1 < refcnt s v \<Longrightarrow>
      \<exists>s'. release s v = Inr s' \<and> inv s' L \<and> refcnt s' v = refcnt s v - 1 \<and> is_page s' = is_page s
        \<and> (\<forall>u. is_page s u \<longrightarrow> u \<noteq> v \<longrightarrow> refcnt s' u = refcnt s u)
        \<and> (\<forall>u. byte s' u = byte s u)"
    and release_last: "inv s L \<Longrightarrow> is_page s v \<Longrightarrow> v \<notin> set L \<Longrightarrow> refcnt s v = 1 \<Longrightarrow>
      \<exists>s'. release s v = Inr s' \<and> inv s' (v # L) \<and> refcnt s' v = 0 \<and> is_page s' = is_page s
        \<and> (\<forall>u. is_page s u \<longrightarrow> u \<noteq> v \<longrightarrow> refcnt s' u = refcnt s u)
        \<and> (\<forall>u k. is_page s u \<longrightarrow> u \<noteq> v \<longrightarrow> k < PGSIZE \<longrightarrow> byte s' u k = byte s u k)"
begin

lemma retain_n:
  assumes "inv s L" and "is_page s v" and "refcnt s v + n < 2 ^ 32"
  shows "\<exists>s'. iter_res (\<lambda>s. retain s v) n s = Inr s' \<and> inv s' L \<and> is_page s' = is_page s
    \<and> refcnt s' v = refcnt s v + n \<and> (\<forall>u. byte s' u = byte s u)"
  using assms
proof (induction n arbitrary: s)
  case 0
  then show ?case by simp
next
  case (Suc n)
  then obtain s1 where s1: "retain s v = Inr s1" "inv s1 L" "is_page s1 = is_page s"
    "refcnt s1 v = refcnt s v + 1" "\<And>u. byte s1 u = byte s u"
    using retain_spec [of s L v] by auto
  then show ?case using Suc.IH [of s1] Suc.prems by auto
qed

lemma release_n:
  assumes "inv s L" and "is_page s v" and "n < refcnt s v"
  shows "\<exists>s'. iter_res (\<lambda>s. release s v) n s = Inr s' \<and> inv s' L \<and> is_page s' = is_page s
    \<and> refcnt s' v = refcnt s v - n \<and> (\<forall>u. byte s' u = byte s u)"
  using assms
proof (induction n arbitrary: s)
  case 0
  then show ?case by simp
next
  case (Suc n)
  then obtain s1 where s1: "release s v = Inr s1" "inv s1 L" "is_page s1 = is_page s"
    "refcnt s1 v = refcnt s v - 1" "\<And>u. byte s1 u = byte s u"
    using release_shared [of s L v] by auto
  then show ?case using Suc.IH [of s1] Suc.prems by auto
qed

lemma alloc_retain_release:
  assumes "inv s (v # L)" and "n + 1 < 2 ^ 32" and "k \<le> n"
  shows "\<exists>s1 s2 s3. alloc s = Inr (v, s1) \<and> iter_res (\<lambda>s. retain s v) n s1 = Inr s2
    \<and> iter_res (\<lambda>s. release s v) k s2 = Inr s3
    \<and> inv s3 L \<and> refcnt s3 v = n + 1 - k \<and> byte s3 v = byte s v
    \<and> (k = n \<longrightarrow> (\<exists>s4. release s3 v = Inr s4 \<and> inv s4 (v # L) \<and> refcnt s4 v = 0))"
proof -
  obtain s1 where s1: "alloc s = Inr (v, s1)" "inv s1 L" "refcnt s1 v = 1" "is_page s1 = is_page s"
    "\<And>u. byte s1 u = byte s u"
    using alloc_spec [OF assms(1)] by blast
  have pg: "is_page s1 v" using inv_page [OF assms(1)] s1 by simp
  have "refcnt s1 v + n < 2 ^ 32" using s1(3) assms(2) by simp
  from retain_n [OF s1(2) pg this]
  obtain s2 where s2: "iter_res (\<lambda>s. retain s v) n s1 = Inr s2" "inv s2 L" "refcnt s2 v = 1 + n"
    "is_page s2 = is_page s1" "\<And>u. byte s2 u = byte s1 u"
    using s1(3) by auto
  have "is_page s2 v" "k < refcnt s2 v" using pg s2 assms(3) by simp_all
  from release_n [OF s2(2) this]
  obtain s3 where s3: "iter_res (\<lambda>s. release s v) k s2 = Inr s3" "inv s3 L"
    "is_page s3 = is_page s2" "refcnt s3 v = 1 + n - k" "\<And>u. byte s3 u = byte s2 u"
    using s2(3) by auto
  have "\<exists>s4. release s3 v = Inr s4 \<and> inv s4 (v # L) \<and> refcnt s4 v = 0" if "k = n"
  proof -
    have "v \<notin> set L" using inv_distinct [OF assms(1)] by simp
    moreover have "refcnt s3 v = 1" using s3(4) that by simp
    ultimately show ?thesis
      using release_last [OF s3(2), of v] s3(3) s2(4) pg by auto
  qed
  moreover have "refcnt s3 v = n + 1 - k" "byte s3 v = byte s v"
    using s3(4) s3(5) [of v] s2(5) [of v] s1(5) [of v] by simp_all
  ultimately show ?thesis
    using s1(1) s2(1) s3(1,2) by blast
qed

end

definition page_refs :: "kmem \<Rightarrow> u64 \<Rightarrow> nat" where
  "page_refs s v = unat (refs (finfo s (frame_ix (V2P v))))"

definition page_byte :: "kmem \<Rightarrow> u64 \<Rightarrow> u64 \<Rightarrow> u8" where
  "page_byte s v k = phys s (V2P v + k)"

definition kernel_page :: "kmem \<Rightarrow> u64 \<Rightarrow> bool" where
  "kernel_page s v \<longleftrightarrow> valid_page (kend s) v"

lemma page_offset:
  assumes "pg_aligned p" and "k < PGSIZE"
  shows "PGROUNDDOWN (p + k) = p"
  using assms in_range_page [of p "p + k"] by (simp add: in_range_def)

lemma page_refs_set_refs:
  assumes "kernel_page s u" and "kernel_page s v"
  shows "page_refs (set_refs s (frame_ix (V2P v)) r) u = (if u = v then unat r else page_refs s u)"
  using frame_ix_V2P_inject [of "kend s" u v] assms by (auto simp: page_refs_def kernel_page_def)

lemma page_byte_set_refs [simp]: "page_byte (set_refs s i r) = page_byte s"
  by (simp add: fun_eq_iff page_byte_def)

lemma kernel_page_set_refs [simp]: "kernel_page (set_refs s i r) = kernel_page s"
  by (simp add: fun_eq_iff kernel_page_def)

interpretation kpages: page_allocator kalloc kretain krelease kmem_inv kernel_page page_refs page_byte
proof (unfold_locales, goal_cases)
  case (1 s L v)
  then show ?case by (simp add: kmem_inv_def kernel_page_def)
next
  case (2 s L)
  then show ?case by (simp add: kmem_inv_def)
next
  case (3 s v L)
  from kalloc_ok [OF this] obtain s' where s': "kalloc s = Inr (v, s')" "kmem_inv s' L"
    "phys s' = phys s" "kend s' = kend s"
    "finfo s' = (finfo s)(frame_ix (V2P v) := (finfo s (frame_ix (V2P v)))\<lparr>refs := 1\<rparr>)" .
  have v: "valid_page (kend s) v" using 3 by (simp add: kmem_inv_def)
  have "page_refs s' u = page_refs s u" if "kernel_page s u" "u \<noteq> v" for u
    using that frame_ix_V2P_inject [OF _ v, of u] s'(5) by (simp add: page_refs_def kernel_page_def)
  with s' show ?case
    by (intro exI [of _ s']) (auto simp: page_refs_def page_byte_def kernel_page_def fun_eq_iff)
next
  case (4 s L v)
  then have "kretain s v = Inr (set_refs s (frame_ix (V2P v)) (refs (finfo s (frame_ix (V2P v))) + 1))"
    by (intro kretain_ok) (simp add: kernel_page_def)
  moreover have "unat (refs (finfo s (frame_ix (V2P v))) + 1) = page_refs s v + 1"
    using 4(3) by (simp add: page_refs_def unat_word_ariths)
  ultimately show ?case using 4 by (auto simp: page_refs_set_refs)
next
  case (5 s L v)
  then have ne: "refs (finfo s (frame_ix (V2P v))) \<noteq> 1" by (auto simp: page_refs_def)
  have "krelease s v = Inr (set_refs s (frame_ix (V2P v)) (refs (finfo s (frame_ix (V2P v))) - 1))"
    using 5(2) ne by (intro krelease_shared) (simp_all add: kernel_page_def)
  moreover have "unat (refs (finfo s (frame_ix (V2P v))) - 1) = page_refs s v - 1"
  proof -
    have "refs (finfo s (frame_ix (V2P v))) \<noteq> 0" using 5(3) by (auto simp: page_refs_def)
    then show ?thesis by (simp add: page_refs_def unat_minus_one)
  qed
  ultimately show ?case using 5 by (auto simp: page_refs_set_refs)
next
  case (6 s L v)
  let ?s = "set_refs s (frame_ix (V2P v)) 0"
  have v: "valid_page (kend ?s) v" using 6(2) by (simp add: kernel_page_def)
  have "refs (finfo s (frame_ix (V2P v))) = 1"
    using 6(4) by (simp add: page_refs_def word_unat_eq_iff)
  then have rel: "krelease s v = kfree ?s v" using krelease_last v by blast
  from 6(1) have "kmem_inv ?s L" by simp
  from kfree_ok [OF this v 6(3)] obtain s' where s': "kfree ?s v = Inr s'" "kmem_inv s' (v # L)"
    "finfo s' = finfo ?s" "kend s' = kend ?s"
    "\<And>x. PGROUNDDOWN x \<noteq> V2P v \<Longrightarrow> phys s' x = phys ?s x"
    by blast
  have refs': "page_refs s' u = page_refs ?s u" for u using s'(3) by (simp add: page_refs_def)
  have byte': "page_byte s' u k = page_byte s u k" if "kernel_page s u" "u \<noteq> v" "k < PGSIZE" for u k
    using that s'(5) [of "V2P u + k"] page_offset [of "V2P u" k]
    by (auto simp: page_byte_def kernel_page_def valid_page_def)
  have kp: "kernel_page s' = kernel_page s" using s'(4) by (simp add: kernel_page_def fun_eq_iff)
  have "page_refs ?s u = (if u = v then 0 else page_refs s u)" if "kernel_page s u" for u
    using page_refs_set_refs [OF that 6(2), of 0] by simp
  then show ?case
    using 6(2) s'(1,2) rel refs' byte' kp by (intro exI [of _ s']) auto
qed

section \<open>Counting and building the free list\<close>

lemma freelist_loop_flist:
  "flist m p L \<Longrightarrow> freelist_loop m p i = Some (i + of_nat (length L))"
proof (induction L arbitrary: p i)
  case Nil
  then show ?case by (simp add: freelist_loop.simps)
next
  case (Cons a L)
  then have "freelist_loop m (load64 m (V2P a)) (i + 1) = Some (i + 1 + of_nat (length L))"
    by simp
  with Cons.prems show ?case by (subst freelist_loop.simps) (simp add: algebra_simps)
qed

definition pages_from :: "u64 \<Rightarrow> nat \<Rightarrow> u64 list" where
  "pages_from p n = map (\<lambda>k. p + PGSIZE * of_nat k) [0..<n]"

lemma pages_from_Suc: "pages_from p (Suc n) = p # pages_from (p + PGSIZE) n"
  unfolding pages_from_def
  by (simp add: upt_conv_Cons map_Suc_upt [symmetric] o_def algebra_simps del: upt_Suc)

lemma pages_from_0 [simp]: "pages_from p 0 = []"
  by (simp add: pages_from_def)

lemma length_pages_from [simp]: "length (pages_from p n) = n"
  by (simp add: pages_from_def)

text \<open>A range of the direct map that \<^verbatim>\<open>freerange\<close> may hand to \<^verbatim>\<open>kfree\<close>.\<close>

definition free_span :: "u64 \<Rightarrow> u64 \<Rightarrow> nat \<Rightarrow> u64 \<Rightarrow> bool" where
  "free_span e p n vend \<longleftrightarrow> pg_aligned p \<and> KERNBASE \<le> e \<and> e \<le> p
     \<and> unat p + 4096 * n \<le> unat vend \<and> unat vend < unat p + 4096 * n + 4096
     \<and> unat vend \<le> unat (P2V PHYSTOP)"

lemma free_span_step:
  assumes "free_span e p (Suc n) vend"
  shows "p + PGSIZE \<le> vend" "free_span e (p + PGSIZE) n vend" "valid_page e p"
    "unat (p + PGSIZE) = unat p + 4096"
proof -
  have top: "unat (P2V PHYSTOP) = 0xFFFF80000E000000"
    by (simp add: P2V_def PHYSTOP_def KERNBASE_def)
  have lim: "unat p + 4096 \<le> 0xFFFF80000E000000"
    using assms top by (simp add: free_span_def)
  then show nxt: "unat (p + PGSIZE) = unat p + 4096"
    using unat_add_no_wrap [of p PGSIZE] by (simp add: PGSIZE_def)
  have al: "pg_aligned p" and ep: "e \<le> p" "KERNBASE \<le> e" using assms by (simp_all add: free_span_def)
  show "p + PGSIZE \<le> vend" using assms nxt by (simp add: free_span_def word_le_nat_alt)
  show "free_span e (p + PGSIZE) n vend"
    using assms nxt al ep unfolding free_span_def word_le_nat_alt
    by (simp add: pg_aligned_add)
  have "KERNBASE \<le> p" using ep by simp
  then have "unat (V2P p) = unat p - 0xFFFF800000000000"
    by (simp add: V2P_def unat_sub KERNBASE_def)
  then have "V2P p < PHYSTOP"
    using lim by (simp add: word_less_nat_alt PHYSTOP_def)
  then show "valid_page e p" using al ep by (simp add: valid_page_def)
qed

lemma free_span_0: "free_span e p 0 vend \<Longrightarrow> \<not> p + PGSIZE \<le> vend"
proof -
  assume a: "free_span e p 0 vend"
  have top: "unat (P2V PHYSTOP) = 0xFFFF80000E000000"
    by (simp add: P2V_def PHYSTOP_def KERNBASE_def)
  have "unat (p + PGSIZE) = unat p + 4096"
    using a top unat_add_no_wrap [of p PGSIZE] by (simp add: free_span_def PGSIZE_def)
  then show ?thesis using a by (simp add: free_span_def word_le_nat_alt)
qed

lemma pages_from_ge:
  assumes "free_span e p n vend" and "v \<in> set (pages_from p n)"
  shows "p \<le> v"
  using assms
proof (induction n arbitrary: p)
  case 0
  then show ?case by simp
next
  case (Suc n)
  note st = free_span_step [OF Suc.prems(1)]
  show ?case
  proof (cases "v = p")
    case False
    then have "p + PGSIZE \<le> v"
      using Suc.IH [OF st(2)] Suc.prems(2) by (simp add: pages_from_Suc)
    then show ?thesis using st(4) by (simp add: word_le_nat_alt)
  qed simp
qed

lemma freerange_loop_ok:
  assumes "kmem_inv s L" and "free_span (kend s) p n vend" and "set (pages_from p n) \<inter> set L = {}"
  shows "\<exists>s'. freerange_loop s p vend = Some (Inr s') \<and> kmem_inv s' (rev (pages_from p n) @ L)
    \<and> finfo s' = finfo s \<and> kend s' = kend s"
  using assms
proof (induction n arbitrary: s p L)
  case 0
  then show ?case using free_span_0 by (subst freerange_loop.simps) auto
next
  case (Suc n)
  note st = free_span_step [OF Suc.prems(2)]
  have pL: "p \<notin> set L" using Suc.prems(3) by (simp add: pages_from_Suc)
  obtain s1 where s1: "kfree s p = Inr s1" "kmem_inv s1 (p # L)" "finfo s1 = finfo s"
    "kend s1 = kend s"
    using kfree_ok [OF Suc.prems(1) st(3) pL] by blast
  have "p \<notin> set (pages_from (p + PGSIZE) n)"
    using pages_from_ge [OF st(2)] st(4) by (fastforce simp: word_le_nat_alt)
  then have "set (pages_from (p + PGSIZE) n) \<inter> set (p # L) = {}"
    using Suc.prems(3) by (auto simp: pages_from_Suc)
  with Suc.IH [of s1 "p # L" "p + PGSIZE"] s1 st
  obtain s' where "freerange_loop s1 (p + PGSIZE) vend = Some (Inr s')"
    "kmem_inv s' (rev (pages_from (p + PGSIZE) n) @ p # L)" "finfo s' = finfo s" "kend s' = kend s"
    by auto
  then show ?case using s1 st(1) by (subst freerange_loop.simps) (simp add: pages_from_Suc)
qed

lemma unat_PGROUNDUP:
  assumes "unat a + 4095 < 2 ^ 64"
  shows "unat (PGROUNDUP a) = (unat a + 4095) - (unat a + 4095) mod 4096"
proof -
  have "unat (a + 4095) = unat a + 4095"
    using assms unat_add_no_wrap [of a 4095] by simp
  moreover have "PGROUNDUP a = PGROUNDDOWN (a + 4095)"
    by (simp add: PGROUNDUP_def PGROUNDDOWN_def PGSIZE_def)
  ultimately show ?thesis using unat_PGROUNDDOWN [of "a + 4095"] by simp
qed

lemma PGROUNDUP_aligned [simp]: "pg_aligned (PGROUNDUP a)"
  using pg_aligned_PGROUNDDOWN [of "a + (PGSIZE - 1)"]
  by (simp add: PGROUNDUP_def PGROUNDDOWN_def)

section \<open>Checksums\<close>

lemma checksum_loop_cong:
  assumes "\<And>k. k < 8 * n \<Longrightarrow> m (a + of_nat k) = m' (b + of_nat k)"
  shows "checksum_loop m a n acc = checksum_loop m' b n acc"
  using assms
proof (induction n arbitrary: a b acc)
  case 0
  then show ?case by simp
next
  case (Suc n)
  have eq: "m (a + k) = m' (b + k)" if "k < 8" for k
    using Suc.prems [of "unat k"] that by (simp add: word_less_nat_alt)
  have "load64 m a = load64 m' b"
    unfolding load64_def using eq [of 0] eq [of 1] eq [of 2] eq [of 3] eq [of 4] eq [of 5] eq [of 6] eq [of 7]
    by simp
  moreover have "checksum_loop m (a + 8) n (acc + load64 m' b) = checksum_loop m' (b + 8) n (acc + load64 m' b)"
  proof (rule Suc.IH)
    fix k assume "k < 8 * n"
    then have "m (a + of_nat (8 + k)) = m' (b + of_nat (8 + k))" by (intro Suc.prems) simp
    then show "m (a + 8 + of_nat k) = m' (b + 8 + of_nat k)"
      by (simp only: of_nat_add of_nat_numeral add.assoc)
  qed
  ultimately show ?case by (simp only: checksum_loop.simps)
qed

lemma update_checksum_ok:
  assumes "frame < PHYSTOP"
  shows "update_checksum s frame
    = Inr (set_checksum s (frame_ix frame) (checksum_loop (phys s) frame 512 0))"
  using frame_ix_less [OF assms] by (simp add: update_checksum_def Let_def PGSIZE_def)

definition page_eq :: "memory \<Rightarrow> u64 \<Rightarrow> u64 \<Rightarrow> bool" where
  "page_eq m a b \<longleftrightarrow> (\<forall>k<4096. m (a + of_nat k) = m (b + of_nat k))"

lemma frames_are_identical_sound:
  assumes "frames_are_identical s a b = Inr True"
  shows "page_eq (phys s) a b"
  using assms
  by (auto simp: frames_are_identical_def page_eq_def Let_def memcmp_0_iff PGSIZE_def split: if_splits)

lemma frames_are_identical_fresh:
  assumes "frame1 < PHYSTOP" and "frame2 < PHYSTOP"
    and "checksum (finfo s (frame_ix frame1)) = checksum_loop (phys s) frame1 512 0"
    and "checksum (finfo s (frame_ix frame2)) = checksum_loop (phys s) frame2 512 0"
  shows "frames_are_identical s frame1 frame2 = Inr (page_eq (phys s) frame1 frame2)"
proof -
  have "checksum_loop (phys s) frame1 512 0 = checksum_loop (phys s) frame2 512 0"
    if "page_eq (phys s) frame1 frame2"
    by (rule checksum_loop_cong) (use that in \<open>simp add: page_eq_def\<close>)
  moreover have "memcmp (phys s) frame1 frame2 (ucast PGSIZE) = 0 \<longleftrightarrow> page_eq (phys s) frame1 frame2"
    by (simp add: memcmp_0_iff page_eq_def PGSIZE_def)
  ultimately show ?thesis
    using assms frame_ix_less [OF assms(1)] frame_ix_less [OF assms(2)]
    by (auto simp: frames_are_identical_def Let_def)
qed

section \<open>Properties\<close>

definition kmem0 :: kmem where
  "kmem0 = \<lparr>phys = (\<lambda>_. 0), freelist = 0, use_lock = False,
     finfo = (\<lambda>_. \<lparr>refs = 0, checksum = 0\<rparr>), kend = KERNBASE + 0x200000\<rparr>"

text \<open>
  C9. Boot-time initialisation: given a range of the direct map above the kernel image,
  \<^verbatim>\<open>kinit1\<close> returns, the free list then holds exactly the whole pages of the range, each
  once, \<^verbatim>\<open>kfreepagecount\<close> counts them, and no page has a reference.
\<close>

theorem kinit1_free_pages:
  assumes "KERNBASE \<le> kend s" and "kend s \<le> vstart" and "PGROUNDUP vstart \<le> vend"
    and "vstart \<le> vend" and "vend \<le> P2V PHYSTOP"
    and "n = (unat vend - unat (PGROUNDUP vstart)) div 4096"
  shows "\<exists>s'. kinit1 s vstart vend = Some (Inr s')
    \<and> kmem_inv s' (rev (pages_from (PGROUNDUP vstart) n))
    \<and> kfreepagecount s' = Some (of_nat n) \<and> (\<forall>v. page_refs s' v = 0)"
proof -
  let ?s = "s\<lparr>finfo := (\<lambda>_. \<lparr>refs = 0, checksum = 0\<rparr>), use_lock := False, freelist := 0\<rparr>"
  have top: "unat (P2V PHYSTOP) = 0xFFFF80000E000000"
    by (simp add: P2V_def PHYSTOP_def KERNBASE_def)
  have vs: "unat vstart \<le> 0xFFFF80000E000000"
    using assms(4,5) top by (simp add: word_le_nat_alt)
  then have up: "unat vstart \<le> unat (PGROUNDUP vstart)"
    using unat_PGROUNDUP [of vstart] by simp
  let ?d = "unat vend - unat (PGROUNDUP vstart)"
  have "4096 * n + ?d mod 4096 = ?d" unfolding assms(6) by simp
  moreover have "?d mod 4096 < 4096" by simp
  ultimately have "4096 * n \<le> ?d" "?d < 4096 * n + 4096" by linarith+
  then have "unat (PGROUNDUP vstart) + 4096 * n \<le> unat vend"
    "unat vend < unat (PGROUNDUP vstart) + 4096 * n + 4096"
    using assms(3) unfolding word_le_nat_alt by linarith+
  then have "free_span (kend ?s) (PGROUNDUP vstart) n vend"
    using assms(1,2,5) up by (simp add: free_span_def word_le_nat_alt)
  moreover have "kmem_inv ?s []" using assms(1) by (simp add: kmem_inv_def)
  ultimately obtain s' where s': "freerange_loop ?s (PGROUNDUP vstart) vend = Some (Inr s')"
    "kmem_inv s' (rev (pages_from (PGROUNDUP vstart) n))" "finfo s' = finfo ?s"
    using freerange_loop_ok [of ?s "[]" "PGROUNDUP vstart" n vend] by auto
  have "kfreepagecount s' = Some (of_nat n)"
    using s'(2) freelist_loop_flist [of "phys s'" "freelist s'" _ 0]
    by (fastforce simp: kmem_inv_def kfreepagecount_def)
  then show ?thesis
    using s' by (auto simp: kinit1_def freerange_def page_refs_def)
qed

theorem kinit1_free_pages_witness:
  "\<exists>s'. kinit1 kmem0 (P2V 0x200001) (P2V 0x400000) = Some (Inr s')
    \<and> kmem_inv s' (rev (pages_from (P2V 0x201000) 511))
    \<and> kfreepagecount s' = Some 511 \<and> (\<forall>v. page_refs s' v = 0)"
proof -
  have up: "PGROUNDUP (P2V 0x200001) = P2V 0x201000"
    by (simp add: mmu_defs)
  have n: "511 = (unat (P2V 0x400000) - unat (PGROUNDUP (P2V 0x200001))) div 4096"
    unfolding up by (simp add: mmu_defs)
  have h: "KERNBASE \<le> kend kmem0" "kend kmem0 \<le> P2V 0x200001"
    "PGROUNDUP (P2V 0x200001) \<le> P2V 0x400000" "P2V 0x200001 \<le> P2V 0x400000"
    "P2V 0x400000 \<le> P2V PHYSTOP"
    unfolding up by (simp_all add: kmem0_def P2V_def KERNBASE_def PHYSTOP_def)
  show ?thesis using kinit1_free_pages [OF h n] unfolding up by simp
qed

text \<open>
  C6. Reference counting: a page handed out by \<^verbatim>\<open>kalloc\<close> and retained \<open>n\<close> times stays
  allocated, with its contents intact, through \<open>k \<le> n\<close> releases; the release after
  the last of them puts it back at the head of the free list with count 0.
\<close>

theorem kalloc_retain_release:
  assumes "kmem_inv s (v # L)" and "n + 1 < 2 ^ 32" and "k \<le> n"
  shows "\<exists>s1 s2 s3. kalloc s = Inr (v, s1) \<and> iter_res (\<lambda>s. kretain s v) n s1 = Inr s2
    \<and> iter_res (\<lambda>s. krelease s v) k s2 = Inr s3
    \<and> kmem_inv s3 L \<and> page_refs s3 v = n + 1 - k \<and> page_byte s3 v = page_byte s v
    \<and> (k = n \<longrightarrow> (\<exists>s4. krelease s3 v = Inr s4 \<and> kmem_inv s4 (v # L) \<and> page_refs s4 v = 0))"
  using assms by (rule kpages.alloc_retain_release)

definition kmem1 :: kmem where
  "kmem1 = kmem0\<lparr>freelist := P2V 0x300000\<rparr>"

lemma load64_zero: "load64 (\<lambda>_. 0) a = 0"
  by (simp add: load64_def)

lemma kmem1_inv: "kmem_inv kmem1 [P2V 0x300000]"
  by (simp add: kmem_inv_def kmem1_def kmem0_def load64_zero valid_page_def pg_aligned_def P2V_def
      KERNBASE_def PHYSTOP_def PGSIZE_def V2P_def)

theorem kalloc_retain_release_witness:
  "\<exists>s1 s2 s3. kalloc kmem1 = Inr (P2V 0x300000, s1)
    \<and> iter_res (\<lambda>s. kretain s (P2V 0x300000)) 2 s1 = Inr s2
    \<and> iter_res (\<lambda>s. krelease s (P2V 0x300000)) 2 s2 = Inr s3
    \<and> kmem_inv s3 [] \<and> page_refs s3 (P2V 0x300000) = 1
    \<and> (\<exists>s4. krelease s3 (P2V 0x300000) = Inr s4 \<and> kmem_inv s4 [P2V 0x300000])"
  using kalloc_retain_release [OF kmem1_inv, of 2 2] by auto

text \<open>
  C38. Exhaustion is not reported: with an empty free list \<^verbatim>\<open>kalloc\<close> indexes
  \<^verbatim>\<open>frameinfo\<close> at the frame number of the null pointer, far outside the array, before it
  can return 0; so it never returns a null pointer at all, and no caller's test for one
  can succeed.
\<close>

theorem kalloc_exhausted:
  "(freelist s = 0 \<longrightarrow> kalloc s = Inl OutOfBounds) \<and> kalloc s \<noteq> Inr (0, s')"
proof -
  have "\<not> frame_ix (V2P 0) < NFRAMES"
    by (simp add: frame_ix_def mmu_defs NFRAMES_def unat_div)
  then show ?thesis
    by (auto simp: kalloc_def Let_def split: if_splits)
qed

theorem kalloc_exhausted_witness:
  "freelist kmem0 = 0 \<and> kalloc kmem0 = Inl OutOfBounds"
  using kalloc_exhausted [of kmem0] by (simp add: kmem0_def)

text \<open>
  C28. Page comparison is exact: once both checksums have been refreshed,
  \<^verbatim>\<open>frames_are_identical\<close> returns 1 just when the two frames hold the same 4096 bytes, so
  comparing checksums first loses no match.
\<close>

theorem frames_are_identical_exact:
  assumes "frame1 < PHYSTOP" and "frame2 < PHYSTOP" and "pg_aligned frame1" and "pg_aligned frame2"
  shows "\<exists>s1 s2. update_checksum s frame1 = Inr s1 \<and> update_checksum s1 frame2 = Inr s2
    \<and> frames_are_identical s2 frame1 frame2 = Inr (page_eq (phys s) frame1 frame2)"
proof -
  let ?c = "\<lambda>f. checksum_loop (phys s) f 512 0"
  let ?s1 = "set_checksum s (frame_ix frame1) (?c frame1)"
  let ?s2 = "set_checksum ?s1 (frame_ix frame2) (?c frame2)"
  have ph: "phys ?s1 = phys s" "phys ?s2 = phys s" by (simp_all add: set_checksum_def)
  have cs: "checksum (finfo ?s2 (frame_ix frame2)) = ?c frame2" by (simp add: set_checksum_def)
  have "checksum (finfo ?s2 (frame_ix frame1)) = ?c frame1"
    using frame_ix_inject [OF assms(3,4)] by (auto simp: set_checksum_def)
  then have "frames_are_identical ?s2 frame1 frame2 = Inr (page_eq (phys s) frame1 frame2)"
    using frames_are_identical_fresh [of frame1 frame2 ?s2] assms cs ph by simp
  then show ?thesis
    using update_checksum_ok [OF assms(1), of s] update_checksum_ok [OF assms(2), of ?s1] ph by simp
qed

theorem frames_are_identical_exact_witness:
  "\<exists>s1 s2. update_checksum kmem0 0x300000 = Inr s1 \<and> update_checksum s1 0x301000 = Inr s2
    \<and> frames_are_identical s2 0x300000 0x301000 = Inr True"
proof -
  have h: "(0x300000 :: u64) < PHYSTOP" "(0x301000 :: u64) < PHYSTOP"
    "pg_aligned 0x300000" "pg_aligned 0x301000"
    by (simp_all add: PHYSTOP_def pg_aligned_def PGSIZE_def)
  have "page_eq (phys kmem0) 0x300000 0x301000"
    by (simp add: page_eq_def kmem0_def)
  then show ?thesis using frames_are_identical_exact [OF h, of kmem0] by simp
qed

end
