(* ===== verification/Vm.thy ===== *)
theory Vm
  imports Kalloc
begin

text \<open>
  Virtual memory (\<^verbatim>\<open>vm.c\<close>): the four-level page tables in physical memory, creating,
  growing, shrinking, copying and freeing an address space, copying out to a user
  address, page deduplication and copy-on-write. A page table pointer is the kernel
  virtual address of its PML4 page; a null pointer is 0.
\<close>

section \<open>Operations\<close>

text \<open>
  The addresses a loop \<^verbatim>\<open>for(; a < lim; a += PGSIZE)\<close> visits, up to the point where
  the counter would wrap round. Every caller has \<open>lim \<le> KERNBASE\<close>, where it does not.
\<close>

function pages_upto :: "u64 \<Rightarrow> u64 \<Rightarrow> u64 list" where
  "pages_upto a lim = (if a < lim \<and> a < a + PGSIZE then a # pages_upto (a + PGSIZE) lim else [])"
  by pat_completeness auto
termination
  by (relation "measure (\<lambda>(a, lim). 2 ^ 64 - unat a)")
    (use unat_u64_less in \<open>auto simp: word_less_nat_alt intro!: diff_less_mono2\<close>)

declare pages_upto.simps [simp del]

text \<open>
  One level of \<^verbatim>\<open>walkpgdir\<close>: the table that entry \<open>ix\<close> of table \<open>tab\<close> points to,
  allocated and zeroed if it is missing and \<open>alloc\<close> is set.
\<close>

definition next_table :: "kmem \<Rightarrow> u64 \<Rightarrow> u64 \<Rightarrow> bool \<Rightarrow> (u64 \<times> kmem) res" where
  "next_table s tab ix alloc =
     (let ep = V2P (tab + 8 * ix); e = load64 (phys s) ep
      in if e AND PTE_P \<noteq> 0 then Inr (P2V (PTE_ADDR e), s)
         else if \<not> alloc then Inr (0, s)
         else bnd (kalloc s) (\<lambda>(p, s1).
           if p = 0 then Inr (0, s1)
           else let m = memset (phys s1) (V2P p) 0 PGSIZE
                in Inr (p, s1\<lparr>phys := store64 m ep (V2P p OR PTE_P OR PTE_W OR PTE_U)\<rparr>)))"

definition walkpgdir :: "kmem \<Rightarrow> u64 \<Rightarrow> u64 \<Rightarrow> bool \<Rightarrow> (u64 \<times> kmem) res" where
  "walkpgdir s pml4 va alloc =
     bnd (next_table s pml4 (PMX va) alloc) (\<lambda>(pdp, s).
       if pdp = 0 then Inr (0, s)
       else bnd (next_table s pdp (PDPX va) alloc) (\<lambda>(pd, s).
         if pd = 0 then Inr (0, s)
         else bnd (next_table s pd (PDX va) alloc) (\<lambda>(pgtab, s).
           if pgtab = 0 then Inr (0, s)
           else Inr (pgtab + 8 * PTX va, s))))"

text \<open>Reading and writing through a pointer to an entry; a null pointer faults.\<close>

definition get_pte :: "kmem \<Rightarrow> u64 \<Rightarrow> u64 res" where
  "get_pte s p = (if p = 0 then Inl Fault else Inr (load64 (phys s) (V2P p)))"

definition set_pte :: "kmem \<Rightarrow> u64 \<Rightarrow> u64 \<Rightarrow> kmem res" where
  "set_pte s p v = (if p = 0 then Inl Fault else Inr (s\<lparr>phys := store64 (phys s) (V2P p) v\<rparr>))"

text \<open>The loop of \<^verbatim>\<open>mappages\<close>; \<open>n\<close> is the number of pages from \<open>a\<close> to \<^verbatim>\<open>last\<close>.\<close>

fun mappages_loop :: "kmem \<Rightarrow> u64 \<Rightarrow> u64 \<Rightarrow> u64 \<Rightarrow> u64 \<Rightarrow> nat \<Rightarrow> (int \<times> kmem) res" where
  "mappages_loop s pgdir a pa perm n =
     bnd (walkpgdir s pgdir a True) (\<lambda>(pte, s).
       if pte = 0 then Inr (-1, s)
       else bnd (get_pte s pte) (\<lambda>e.
         if e AND PTE_P \<noteq> 0 then Inl (Panic ''remap'')
         else bnd (set_pte s pte (pa OR perm OR PTE_P)) (\<lambda>s.
           case n of 0 \<Rightarrow> Inr (0, s)
           | Suc k \<Rightarrow> mappages_loop s pgdir (a + PGSIZE) (pa + PGSIZE) perm k)))"

definition mappages :: "kmem \<Rightarrow> u64 \<Rightarrow> u64 \<Rightarrow> u64 \<Rightarrow> u64 \<Rightarrow> u64 \<Rightarrow> (int \<times> kmem) res" where
  "mappages s pgdir va sz pa perm =
     (let a = PGROUNDDOWN va; last = PGROUNDDOWN (va + sz - 1)
      in mappages_loop s pgdir a pa perm (unat ((last - a) div PGSIZE)))"

definition setupkvm :: "kmem \<Rightarrow> u64 \<Rightarrow> (u64 \<times> kmem) res" where
  "setupkvm s kpdpt =
     bnd (kalloc s) (\<lambda>(pml4, s).
       if pml4 = 0 then Inl Fault
       else let m = memset (phys s) (V2P pml4) 0 PGSIZE
            in Inr (pml4, s\<lparr>phys := store64 m (V2P (pml4 + 8 * 256)) (V2P kpdpt OR PTE_P OR PTE_W)\<rparr>))"

text \<open>The result is the pair \<^verbatim>\<open>kpml4\<close>, \<^verbatim>\<open>kpdpt\<close>; \<^verbatim>\<open>switchkvm\<close> then loads the former.\<close>

definition kvmalloc :: "kmem \<Rightarrow> (u64 \<times> u64 \<times> kmem) res" where
  "kvmalloc s =
     bnd (kalloc s) (\<lambda>(kpml4, s).
       if kpml4 = 0 then Inl Fault
       else let s = s\<lparr>phys := memset (phys s) (V2P kpml4) 0 PGSIZE\<rparr>
         in bnd (kalloc s) (\<lambda>(kpdpt, s).
           if kpdpt = 0 then Inl Fault
           else let m0 = memset (phys s) (V2P kpdpt) 0 PGSIZE;
                    m1 = store64 m0 (V2P (kpml4 + 8 * PMX KERNBASE)) (V2P kpdpt OR PTE_P OR PTE_W);
                    m2 = store64 m1 (V2P kpdpt) (0 OR PTE_PS OR PTE_P OR PTE_W);
                    m3 = store64 m2 (V2P (kpdpt + 8 * 3))
                           (0xC0000000 OR PTE_PS OR PTE_P OR PTE_W OR PTE_PWT OR PTE_PCD)
                in Inr (kpml4, kpdpt, s\<lparr>phys := m3\<rparr>)))"

definition inituvm :: "kmem \<Rightarrow> u64 \<Rightarrow> u64 \<Rightarrow> u32 \<Rightarrow> kmem res" where
  "inituvm s pgdir init sz =
     (if ucast sz \<ge> PGSIZE then Inl (Panic ''inituvm: more than a page'')
      else bnd (kalloc s) (\<lambda>(mem, s).
        if mem = 0 then Inl Fault
        else let s = s\<lparr>phys := memset (phys s) (V2P mem) 0 PGSIZE\<rparr>
          in bnd (mappages s pgdir PGSIZE PGSIZE (V2P mem) (PTE_W OR PTE_U)) (\<lambda>(_, s).
            Inr (s\<lparr>phys := memmove (phys s) (V2P mem) (V2P init) sz\<rparr>))))"

fun deallocuvm_loop :: "u64 list \<Rightarrow> u64 \<Rightarrow> kmem \<Rightarrow> kmem res" where
  "deallocuvm_loop [] pgdir s = Inr s"
| "deallocuvm_loop (a # as) pgdir s =
     bnd (walkpgdir s pgdir a False) (\<lambda>(pte, s).
       if pte = 0 then deallocuvm_loop as pgdir s
       else bnd (get_pte s pte) (\<lambda>e.
         if e AND PTE_P \<noteq> 0
         then let pa = PTE_ADDR e
              in if pa = 0 then Inl (Panic ''dallocuvm'')
                 else bnd (krelease s (P2V pa)) (\<lambda>s.
                   bnd (set_pte s pte 0) (deallocuvm_loop as pgdir))
         else deallocuvm_loop as pgdir s))"

definition deallocuvm :: "kmem \<Rightarrow> u64 \<Rightarrow> u64 \<Rightarrow> u64 \<Rightarrow> (u64 \<times> kmem) res" where
  "deallocuvm s pgdir oldsz newsz =
     (if newsz \<ge> oldsz then Inr (oldsz, s)
      else bnd (deallocuvm_loop (pages_upto (PGROUNDUP newsz) oldsz) pgdir s)
             (\<lambda>s. Inr (newsz, s)))"

fun allocuvm_loop :: "u64 list \<Rightarrow> u64 \<Rightarrow> u64 \<Rightarrow> u64 \<Rightarrow> kmem \<Rightarrow> (u64 \<times> kmem) res" where
  "allocuvm_loop [] pgdir oldsz newsz s = Inr (newsz, s)"
| "allocuvm_loop (a # as) pgdir oldsz newsz s =
     bnd (kalloc s) (\<lambda>(mem, s).
       if mem = 0 then bnd (deallocuvm s pgdir newsz oldsz) (\<lambda>(_, s). Inr (0, s))
       else let s = s\<lparr>phys := memset (phys s) (V2P mem) 0 PGSIZE\<rparr>
         in bnd (mappages s pgdir a PGSIZE (V2P mem) (PTE_W OR PTE_U)) (\<lambda>(r, s).
           if r < 0
           then bnd (deallocuvm s pgdir newsz oldsz) (\<lambda>(_, s).
                  bnd (krelease s mem) (\<lambda>s. Inr (0, s)))
           else allocuvm_loop as pgdir oldsz newsz s))"

definition allocuvm :: "kmem \<Rightarrow> u64 \<Rightarrow> u64 \<Rightarrow> u64 \<Rightarrow> (u64 \<times> kmem) res" where
  "allocuvm s pgdir oldsz newsz =
     (if newsz \<ge> KERNBASE then Inr (0, s)
      else if newsz < oldsz then Inr (oldsz, s)
      else allocuvm_loop (pages_upto (PGROUNDUP oldsz) newsz) pgdir oldsz newsz s)"

text \<open>
  \<^verbatim>\<open>freevm\<close>: at each level, every present entry's subtree is freed and then the table
  itself. \<open>free_table body n tab\<close> is the loop over the first \<open>n\<close> entries of a table.
\<close>

definition free_table :: "(u64 \<Rightarrow> kmem \<Rightarrow> kmem res) \<Rightarrow> nat \<Rightarrow> u64 \<Rightarrow> kmem \<Rightarrow> kmem res" where
  "free_table body n tab s =
     bnd (for_each [0..<n] (\<lambda>i s.
            let e = load64 (phys s) (V2P (tab + 8 * of_nat i))
            in if e AND PTE_P \<noteq> 0 then body (P2V (PTE_ADDR e)) s else Inr s) s)
       (\<lambda>s. krelease s tab)"

definition freevm :: "kmem \<Rightarrow> u64 \<Rightarrow> kmem res" where
  "freevm s pml4 =
     (if pml4 = 0 then Inl (Panic ''freevm: no pgdir'')
      else free_table (free_table (free_table (free_table (\<lambda>v s. krelease s v)
             NPDENTRIES) NPDENTRIES) NPDENTRIES) (NPDENTRIES div 2) pml4 s)"

definition clearpteu :: "kmem \<Rightarrow> u64 \<Rightarrow> u64 \<Rightarrow> kmem res" where
  "clearpteu s pgdir uva =
     bnd (walkpgdir s pgdir uva False) (\<lambda>(pte, s).
       if pte = 0 then Inl (Panic ''clearpteu'')
       else bnd (get_pte s pte) (\<lambda>e. set_pte s pte (e AND NOT PTE_U)))"

fun copyuvm_loop :: "u64 list \<Rightarrow> u64 \<Rightarrow> u64 \<Rightarrow> kmem \<Rightarrow> (bool \<times> kmem) res" where
  "copyuvm_loop [] pgdir d s = Inr (True, s)"
| "copyuvm_loop (i # is) pgdir d s =
     bnd (walkpgdir s pgdir i False) (\<lambda>(pte, s).
       if pte = 0 then Inl (Panic ''copyuvm: pte should exist'')
       else bnd (get_pte s pte) (\<lambda>e.
         if e AND PTE_P = 0 then Inl (Panic ''copyuvm: page not present'')
         else bnd (kalloc s) (\<lambda>(mem, s).
           if mem = 0 then Inr (False, s)
           else let s = s\<lparr>phys := memmove (phys s) (V2P mem) (PTE_ADDR e) (ucast PGSIZE)\<rparr>
             in bnd (mappages s d i PGSIZE (V2P mem) (PTE_FLAGS e)) (\<lambda>(r, s).
               if r < 0 then Inr (False, s) else copyuvm_loop is pgdir d s))))"

definition copyuvm :: "kmem \<Rightarrow> u64 \<Rightarrow> u64 \<Rightarrow> u32 \<Rightarrow> (u64 \<times> kmem) res" where
  "copyuvm s kpdpt pgdir sz =
     bnd (setupkvm s kpdpt) (\<lambda>(d, s).
       if d = 0 then Inr (0, s)
       else bnd (copyuvm_loop (pages_upto PGSIZE (ucast sz)) pgdir d s) (\<lambda>(ok, s).
         if ok then Inr (d, s) else bnd (freevm s d) (\<lambda>s. Inr (0, s))))"

definition uva2ka :: "kmem \<Rightarrow> u64 \<Rightarrow> u64 \<Rightarrow> u64 res" where
  "uva2ka s pgdir uva =
     bnd (walkpgdir s pgdir uva False) (\<lambda>(pte, s).
       bnd (get_pte s pte) (\<lambda>e.
         if e AND PTE_P = 0 then Inr 0
         else if e AND PTE_U = 0 then Inr 0
         else Inr (P2V (PTE_ADDR e))))"

text \<open>
  \<^verbatim>\<open>copyout\<close>; \<open>buf\<close> holds the \<^verbatim>\<open>len\<close> bytes at \<^verbatim>\<open>p\<close>. The test \<open>n = 0\<close> is never
  true, as \<open>va\<close> lies in the page \<open>va0\<close>; it makes the recursion total.
\<close>

definition write_bytes :: "memory \<Rightarrow> u64 \<Rightarrow> u8 list \<Rightarrow> memory" where
  "write_bytes m a bs = (\<lambda>x. if unat (x - a) < length bs then bs ! unat (x - a) else m x)"

function copyout :: "kmem \<Rightarrow> u64 \<Rightarrow> u64 \<Rightarrow> u8 list \<Rightarrow> (int \<times> kmem) res" where
  "copyout s pgdir va buf =
     (if buf = [] then Inr (0, s)
      else let va0 = PGROUNDDOWN va
        in bnd (uva2ka s pgdir va0) (\<lambda>pa0.
          if pa0 = 0 then Inr (-1, s)
          else let n = min (unat (PGSIZE - (va - va0))) (length buf)
            in if n = 0 then Inl Fault
               else copyout
                 (s\<lparr>phys := write_bytes (phys s) (V2P (pa0 + (va - va0))) (take n buf)\<rparr>)
                 pgdir (va0 + PGSIZE) (drop n buf)))"
  by pat_completeness auto
termination
  by (relation "measure (\<lambda>(s, pgdir, va, buf). length buf)") auto

declare copyout.simps [simp del]

definition merge_frames :: "kmem \<Rightarrow> u64 \<Rightarrow> u64 \<Rightarrow> u64 \<Rightarrow> u64 \<Rightarrow> kmem res" where
  "merge_frames s pgdir addr kernel_va kernel_off =
     bnd (walkpgdir s pgdir (addr - PGSIZE) False) (\<lambda>(pte1, s).
     bnd (walkpgdir s pgdir addr False) (\<lambda>(pte2, s).
     bnd (get_pte s pte1) (\<lambda>e1.
     bnd (set_pte s pte1 (e1 OR PTE_COW)) (\<lambda>s.
     bnd (if pte2 = 0 then Inr s
          else bnd (get_pte s pte1) (\<lambda>e1.
               bnd (set_pte s pte2 (e1 OR PTE_P OR PTE_U OR PTE_COW)) (\<lambda>s.
               bnd (get_pte s pte2) (\<lambda>e2. set_pte s pte2 (e2 AND NOT PTE_W))))) (\<lambda>s.
     bnd (krelease s kernel_va) (\<lambda>s.
     bnd (get_pte s pte1) (\<lambda>e1.
     bnd (if e1 AND PTE_W \<noteq> 0 then set_pte s pte1 (e1 AND NOT PTE_W) else Inr s) (\<lambda>s.
     kretain s kernel_off))))))))"

definition dedup_step :: "u64 \<Rightarrow> u64 \<Rightarrow> u64 \<Rightarrow> kmem \<Rightarrow> kmem res" where
  "dedup_step pgdir addr2 addr s =
     bnd (uva2ka s pgdir addr) (\<lambda>kernel_va.
       if kernel_va = 0 then Inr s
       else bnd (update_checksum s (V2P kernel_va)) (\<lambda>s.
         if addr > addr2
         then bnd (uva2ka s pgdir (addr - PGSIZE)) (\<lambda>kernel_off.
           if kernel_off = 0 then Inr s
           else bnd (frames_are_identical s (V2P kernel_off) (V2P kernel_va)) (\<lambda>same.
             if same then merge_frames s pgdir addr kernel_va kernel_off else Inr s))
         else Inr s))"

definition dedup :: "kmem \<Rightarrow> u64 \<Rightarrow> u64 \<Rightarrow> u64 \<Rightarrow> kmem res" where
  "dedup s pgdir vstart vend =
     for_each (pages_upto (PGROUNDDOWN vstart) (PGROUNDUP vend))
       (dedup_step pgdir (PGROUNDDOWN vstart + PGSIZE)) s"

definition copyonwrite :: "kmem \<Rightarrow> u64 \<Rightarrow> u64 \<Rightarrow> (int \<times> kmem) res" where
  "copyonwrite s pgdir v =
     (let round = PGROUNDDOWN v
      in bnd (uva2ka s pgdir round) (\<lambda>kernel_va.
        if kernel_va = 0 then Inr (1, s)
        else bnd (walkpgdir s pgdir round False) (\<lambda>(pte, s).
          bnd (get_pte s pte) (\<lambda>e.
            bnd (if e AND PTE_COW \<noteq> 0
                 then bnd (kalloc s) (\<lambda>(tmp_mem, s).
                   if tmp_mem = 0 then Inl Fault
                   else let s = s\<lparr>phys := memmove (phys s) (V2P tmp_mem) (V2P kernel_va) (ucast PGSIZE)\<rparr>
                     in set_pte s pte (V2P tmp_mem OR PTE_P OR PTE_U OR PTE_W))
                 else Inr s) (\<lambda>s.
            bnd (krelease s kernel_va) (\<lambda>s. Inr (1, s)))))))"

end
