(* ===== verification/Pagetable.thy ===== *)
theory Pagetable
  imports Vm
begin

text \<open>
  What the page tables in memory mean: the tables reachable from a PML4 page, the entry
  that translates a user page, the bytes a user process sees, and the invariant of an
  address space (tables form a tree, mapped frames are allocated, and each frame's
  reference count is the number of user pages that map it plus a given number of
  references held elsewhere). The lemmas describe how a store to an entry and the
  recycling of a frame change this picture.
\<close>

section \<open>Tables as paths\<close>

definition next_tbl :: "memory \<Rightarrow> u64 \<Rightarrow> u64 \<Rightarrow> u64 option" where
  "next_tbl m t i =
     (let e = load64 m (slot t i) in if e AND PTE_P \<noteq> 0 then Some (PTE_ADDR e) else None)"

fun tbl :: "memory \<Rightarrow> u64 \<Rightarrow> u64 list \<Rightarrow> u64 option" where
  "tbl m t [] = Some t"
| "tbl m t (i # is) = (case next_tbl m t i of None \<Rightarrow> None | Some t' \<Rightarrow> tbl m t' is)"

text \<open>Paths through the user half of the PML4.\<close>

definition upath :: "u64 list \<Rightarrow> bool" where
  "upath p \<longleftrightarrow> length p \<le> 3 \<and> (\<forall>i\<in>set p. unat i < 512) \<and> (p \<noteq> [] \<longrightarrow> unat (hd p) < 256)"

definition pathof :: "u64 \<Rightarrow> u64 list" where
  "pathof va = [PMX va, PDPX va, PDX va]"

definition upage :: "u64 \<Rightarrow> bool" where
  "upage va \<longleftrightarrow> pg_aligned va \<and> unat va < 2 ^ 47"

definition pte_slot :: "memory \<Rightarrow> u64 \<Rightarrow> u64 \<Rightarrow> u64 option" where
  "pte_slot m t va = map_option (\<lambda>pt. slot pt (PTX va)) (tbl m t (pathof va))"

definition pte_of :: "memory \<Rightarrow> u64 \<Rightarrow> u64 \<Rightarrow> u64 option" where
  "pte_of m t va = map_option (load64 m) (pte_slot m t va)"

definition tables :: "memory \<Rightarrow> u64 \<Rightarrow> u64 set" where
  "tables m t = {x. \<exists>p. upath p \<and> tbl m t p = Some x}"

definition pt_inj :: "memory \<Rightarrow> u64 \<Rightarrow> bool" where
  "pt_inj m t \<longleftrightarrow> pg_aligned t
     \<and> (\<forall>p q x. upath p \<longrightarrow> upath q \<longrightarrow> tbl m t p = Some x \<longrightarrow> tbl m t q = Some x \<longrightarrow> p = q)"

lemma tbl_snoc:
  "tbl m t (p @ [i]) = (case tbl m t p of None \<Rightarrow> None | Some x \<Rightarrow> next_tbl m x i)"
  by (induction p arbitrary: t) (auto split: option.splits)

lemma upath_snoc: "upath (p @ [i]) \<Longrightarrow> upath p \<and> length p < 3 \<and> unat i < 512"
  by (cases p) (auto simp: upath_def)

lemma tbl_aligned: "pg_aligned t \<Longrightarrow> tbl m t p = Some x \<Longrightarrow> pg_aligned x"
proof (induction p arbitrary: t)
  case Nil
  then show ?case by simp
next
  case (Cons i p)
  then obtain t' where "next_tbl m t i = Some t'" and "tbl m t' p = Some x"
    by (auto split: option.splits)
  moreover from this(1) have "pg_aligned t'" by (auto simp: next_tbl_def Let_def split: if_splits)
  ultimately show ?case using Cons.IH by blast
qed

lemma tbl_cong:
  assumes "upath q"
    and "\<And>p i y. upath (p @ [i]) \<Longrightarrow> tbl m t p = Some y \<Longrightarrow> load64 m' (slot y i) = load64 m (slot y i)"
  shows "tbl m' t q = tbl m t q"
  using assms(1)
proof (induction q rule: rev_induct)
  case Nil
  then show ?case by simp
next
  case (snoc i q)
  then have "tbl m' t q = tbl m t q" using upath_snoc by blast
  then show ?case
    using assms(2) [OF snoc.prems] by (auto simp: tbl_snoc next_tbl_def Let_def split: option.splits)
qed

section \<open>Indices of a user page\<close>

lemma unat_px:
  "unat (PMX va) = unat va div 2 ^ 39 mod 512" "unat (PDPX va) = unat va div 2 ^ 30 mod 512"
  "unat (PDX va) = unat va div 2 ^ 21 mod 512" "unat (PTX va) = unat va div 2 ^ 12 mod 512"
  by (simp_all add: PMX_def PDPX_def PDX_def PTX_def PXMASK_def unat_and_511 drop_bit_eq_div unat_div)

lemma div_mod_inject: "x div k = y div k \<Longrightarrow> x mod k = y mod k \<Longrightarrow> x = (y :: nat)"
  by (metis div_mult_mod_eq)

lemma unat_px':
  "unat (PMX va) = unat va div 4096 div 512 div 512 div 512 mod 512"
  "unat (PDPX va) = unat va div 4096 div 512 div 512 mod 512"
  "unat (PDX va) = unat va div 4096 div 512 mod 512"
  "unat (PTX va) = unat va div 4096 mod 512"
  using div_mult2_eq [of "unat va" 4096 512] div_mult2_eq [of "unat va" "4096 * 512" 512]
    div_mult2_eq [of "unat va" "4096 * 512 * 512" 512]
  by (simp_all add: unat_px)

lemma upage_top: "unat va < 2 ^ 47 \<Longrightarrow> unat va div 4096 div 512 div 512 div 512 < 256"
  by (intro less_mult_imp_div_less) simp

lemma upath_pathof: "unat va < 2 ^ 47 \<Longrightarrow> upath (pathof va)"
  using upage_top [of va] by (simp add: upath_def pathof_def unat_px'(1))

lemma upage_inject:
  assumes "upage a" and "upage b" and "pathof a = pathof b" and "PTX a = PTX b"
  shows "a = b"
proof -
  let ?x = "unat a div 4096" and ?y = "unat b div 4096"
  have px: "unat (PMX a) = unat (PMX b)" "unat (PDPX a) = unat (PDPX b)"
    "unat (PDX a) = unat (PDX b)" "unat (PTX a) = unat (PTX b)"
    using assms(3,4) by (simp_all add: pathof_def)
  have lt: "?x div 512 div 512 div 512 < 512" "?y div 512 div 512 div 512 < 512"
    using upage_top [of a] upage_top [of b] assms(1,2) unfolding upage_def by linarith+
  note eqs = px [unfolded unat_px']
  have "?x div 512 div 512 div 512 = ?y div 512 div 512 div 512"
    using eqs(1) unfolding mod_less [OF lt(1)] mod_less [OF lt(2)] .
  then have "?x div 512 div 512 = ?y div 512 div 512" using eqs(2) by (rule div_mod_inject)
  then have "?x div 512 = ?y div 512" using eqs(3) by (rule div_mod_inject)
  then have "?x = ?y" using eqs(4) by (rule div_mod_inject)
  moreover have "unat a mod 4096 = unat b mod 4096"
    using assms(1,2) by (simp add: upage_def pg_aligned_unat)
  ultimately have "unat a = unat b" by (rule div_mod_inject)
  then show ?thesis by (simp add: word_unat_eq_iff)
qed

lemma pathof_PGROUNDDOWN: "pathof (PGROUNDDOWN va) = pathof va" "PTX (PGROUNDDOWN va) = PTX va"
proof -
  have "unat (PGROUNDDOWN va) div 4096 = unat va div 4096"
    unfolding unat_PGROUNDDOWN by (simp add: minus_mod_eq_mult_div)
  then show "pathof (PGROUNDDOWN va) = pathof va" "PTX (PGROUNDDOWN va) = PTX va"
    by (simp_all add: pathof_def word_unat_eq_iff unat_px')
qed

lemma pte_of_PGROUNDDOWN [simp]: "pte_of m t (PGROUNDDOWN va) = pte_of m t va"
  by (simp add: pte_of_def pte_slot_def pathof_PGROUNDDOWN)

section \<open>Stores to entries and recycled frames\<close>

lemma load64_same_page:
  assumes "pg_aligned y" and "unat i < 512" and "\<And>x. PGROUNDDOWN x = y \<Longrightarrow> m' x = m x"
  shows "load64 m' (slot y i) = load64 m (slot y i)"
  by (rule load64_cong) (use assms slot_in_page in_range_page in blast)

lemma pt_injD:
  "pt_inj m t \<Longrightarrow> upath p \<Longrightarrow> upath q \<Longrightarrow> tbl m t p = Some x \<Longrightarrow> tbl m t q = Some x \<Longrightarrow> p = q"
  by (auto simp: pt_inj_def)

lemma pt_inj_aligned: "pt_inj m t \<Longrightarrow> tbl m t p = Some x \<Longrightarrow> pg_aligned x"
  using tbl_aligned by (auto simp: pt_inj_def)

lemma upath_pathof_upage: "upage va \<Longrightarrow> upath (pathof va)"
  by (simp add: upage_def upath_pathof)

lemma store_leaf_tbl:
  assumes "pt_inj m t" and "upage va" and "tbl m t (pathof va) = Some pt" and "upath q"
  shows "tbl (store64 m (slot pt (PTX va)) v) t q = tbl m t q"
  using assms(4)
proof (rule tbl_cong)
  fix p i y assume p: "upath (p @ [i])" and y: "tbl m t p = Some y"
  have "p \<noteq> pathof va" using upath_snoc [OF p] by (auto simp: pathof_def)
  then have "y \<noteq> pt"
    using pt_injD [OF assms(1) _ _ y] assms upath_snoc [OF p] upath_pathof_upage by blast
  then show "load64 (store64 m (slot pt (PTX va)) v) (slot y i) = load64 m (slot y i)"
    using load64_store64_page [of pt y] pt_inj_aligned [OF assms(1)] assms(3) y upath_snoc [OF p]
    by simp
qed

lemma store_leaf_pte:
  assumes "pt_inj m t" and "upage va" and "tbl m t (pathof va) = Some pt" and "upage va'"
  shows "pte_of (store64 m (slot pt (PTX va)) v) t va' = (if va' = va then Some v else pte_of m t va')"
proof -
  let ?m = "store64 m (slot pt (PTX va)) v"
  have same: "tbl ?m t (pathof va') = tbl m t (pathof va')"
    by (rule store_leaf_tbl) (use assms upath_pathof_upage in auto)
  show ?thesis
  proof (cases "va' = va")
    case True
    then show ?thesis using same assms(3) by (simp add: pte_of_def pte_slot_def)
  next
    case False
    have "load64 ?m (slot pt' (PTX va')) = load64 m (slot pt' (PTX va'))"
      if pt': "tbl m t (pathof va') = Some pt'" for pt'
    proof (cases "pt' = pt")
      case True
      then have "pathof va' = pathof va"
        using pt_injD [OF assms(1) _ _ pt'] assms upath_pathof_upage by blast
      then have "PTX va' \<noteq> PTX va" using upage_inject assms(2,4) False by blast
      then show ?thesis using True by (simp add: load64_store64_slot)
    next
      case False
      then show ?thesis
        using load64_store64_page [of pt pt'] pt_inj_aligned [OF assms(1)] assms(3) pt' by simp
    qed
    then show ?thesis using same False by (cases "tbl m t (pathof va')") (simp_all add: pte_of_def pte_slot_def)
  qed
qed

lemma store_leaf_byte:
  assumes "pg_aligned pt" and "unat i < 512" and "PGROUNDDOWN x \<noteq> pt"
  shows "store64 m (slot pt i) v x = m x"
  using assms slot_in_page [of i pt x] by (auto simp: store64_def in_range_page)

definition same_tbl :: "memory \<Rightarrow> memory \<Rightarrow> u64 \<Rightarrow> bool" where
  "same_tbl m m' t \<longleftrightarrow> (\<forall>q. upath q \<longrightarrow> tbl m' t q = tbl m t q)"

lemma same_tblD: "same_tbl m m' t \<Longrightarrow> upath q \<Longrightarrow> tbl m' t q = tbl m t q"
  by (simp add: same_tbl_def)

lemma same_tbl_tables: "same_tbl m m' t \<Longrightarrow> tables m' t = tables m t"
  by (auto simp: same_tbl_def tables_def)

lemma same_tbl_inj: "same_tbl m m' t \<Longrightarrow> pt_inj m t \<Longrightarrow> pt_inj m' t"
  by (auto simp: same_tbl_def pt_inj_def)

lemma same_tbl_trans: "same_tbl m m' t \<Longrightarrow> same_tbl m' m'' t \<Longrightarrow> same_tbl m m'' t"
  by (simp add: same_tbl_def)

text \<open>Memory may change arbitrarily outside the pages that hold the tables.\<close>

lemma outside_same_tbl:
  assumes "pt_inj m t" and "\<And>x. PGROUNDDOWN x \<in> tables m t \<Longrightarrow> m' x = m x"
  shows "same_tbl m m' t"
  unfolding same_tbl_def
proof (intro allI impI tbl_cong)
  fix p i y assume p: "upath (p @ [i])" and y: "tbl m t p = Some y"
  then have "y \<in> tables m t" using upath_snoc by (auto simp: tables_def)
  then show "load64 m' (slot y i) = load64 m (slot y i)"
    using assms(2) pt_inj_aligned [OF assms(1) y] upath_snoc [OF p] by (intro load64_same_page) auto
qed assumption

lemma outside_pte:
  assumes "pt_inj m t" and "\<And>x. PGROUNDDOWN x \<in> tables m t \<Longrightarrow> m' x = m x" and "upage va"
  shows "pte_of m' t va = pte_of m t va"
proof -
  have same: "tbl m' t (pathof va) = tbl m t (pathof va)"
    using outside_same_tbl [OF assms(1,2)] upath_pathof_upage [OF assms(3)] by (simp add: same_tbl_def)
  have "load64 m' (slot y (PTX va)) = load64 m (slot y (PTX va))"
    if y: "tbl m t (pathof va) = Some y" for y
  proof -
    have "y \<in> tables m t" using y upath_pathof_upage [OF assms(3)] by (auto simp: tables_def)
    then show ?thesis
      using assms(2) pt_inj_aligned [OF assms(1) y] by (intro load64_same_page) auto
  qed
  then show ?thesis using same by (cases "tbl m t (pathof va)") (simp_all add: pte_of_def pte_slot_def)
qed

section \<open>The user's view and the address-space invariant\<close>

definition present :: "u64 \<Rightarrow> bool" where
  "present e \<longleftrightarrow> e AND PTE_P \<noteq> 0"

definition user_byte :: "memory \<Rightarrow> u64 \<Rightarrow> u64 \<Rightarrow> u8 option" where
  "user_byte m t va =
     (case pte_of m t va of None \<Rightarrow> None
      | Some e \<Rightarrow> if present e \<and> e AND PTE_U \<noteq> 0 then Some (m (PTE_ADDR e + (va AND 0xFFF))) else None)"

definition mappers :: "memory \<Rightarrow> u64 \<Rightarrow> u64 \<Rightarrow> u64 set" where
  "mappers m t f = {va. upage va \<and> (\<exists>e. pte_of m t va = Some e \<and> present e \<and> PTE_ADDR e = f)}"

definition frame_ok :: "kmem \<Rightarrow> u64 list \<Rightarrow> u64 \<Rightarrow> u64 \<Rightarrow> bool" where
  "frame_ok s L t f \<longleftrightarrow> kernel_page s (P2V f) \<and> P2V f \<notin> set L \<and> f \<notin> tables (phys s) t"

definition aspace :: "kmem \<Rightarrow> u64 list \<Rightarrow> u64 \<Rightarrow> (u64 \<Rightarrow> nat) \<Rightarrow> bool" where
  "aspace s L t ext \<longleftrightarrow> kmem_inv s L \<and> pt_inj (phys s) t
     \<and> (\<forall>x\<in>tables (phys s) t. kernel_page s (P2V x) \<and> P2V x \<notin> set L)
     \<and> (\<forall>va e. upage va \<longrightarrow> pte_of (phys s) t va = Some e \<longrightarrow> present e \<longrightarrow>
          frame_ok s L t (PTE_ADDR e)
          \<and> page_refs s (P2V (PTE_ADDR e)) = card (mappers (phys s) t (PTE_ADDR e)) + ext (PTE_ADDR e))"

section \<open>walkpgdir and uva2ka read the tables\<close>

definition nonnull_tbl :: "memory \<Rightarrow> u64 \<Rightarrow> bool" where
  "nonnull_tbl m t \<longleftrightarrow> (\<forall>x\<in>tables m t. P2V x \<noteq> 0)"

lemma V2P_slot: "V2P (p + 8 * i) = slot (V2P p) i"
  by (simp add: slot_def V2P_def)

lemma P2V_slot: "P2V t + 8 * i = P2V (slot t i)"
  by (simp add: slot_def P2V_def)

lemma next_table_read:
  "next_table s tab ix False
    = Inr (case next_tbl (phys s) (V2P tab) ix of None \<Rightarrow> 0 | Some x \<Rightarrow> P2V x, s)"
  by (simp add: next_table_def next_tbl_def V2P_slot Let_def)

lemma walkpgdir_read:
  assumes "nonnull_tbl (phys s) (V2P pgdir)" and "unat va < 2 ^ 47"
  shows "walkpgdir s pgdir va False
    = Inr (case pte_slot (phys s) (V2P pgdir) va of None \<Rightarrow> 0 | Some p \<Rightarrow> P2V p, s)"
proof -
  let ?m = "phys s" and ?t = "V2P pgdir"
  have up: "upath (pathof va)" using assms(2) by (rule upath_pathof)
  have nn: "P2V x \<noteq> 0" if "tbl ?m ?t p = Some x" "upath p" for p x
    using assms(1) that by (auto simp: nonnull_tbl_def tables_def)
  have up1: "upath [PMX va]" "upath [PMX va, PDPX va]" "upath [PMX va, PDPX va, PDX va]"
    using up by (simp_all add: upath_def pathof_def)
  show ?thesis
  proof (cases "next_tbl ?m ?t (PMX va)")
    case None
    then show ?thesis by (simp add: walkpgdir_def next_table_read pte_slot_def pathof_def)
  next
    case (Some x1)
    note x1 = Some
    have n1: "P2V x1 \<noteq> 0" using nn [of "[PMX va]" x1] x1 up1 by simp
    show ?thesis
    proof (cases "next_tbl ?m x1 (PDPX va)")
      case None
      then show ?thesis using x1 n1 by (simp add: walkpgdir_def next_table_read pte_slot_def pathof_def)
    next
      case (Some x2)
      note x2 = Some
      have n2: "P2V x2 \<noteq> 0" using nn [of "[PMX va, PDPX va]" x2] x1 x2 up1 by simp
      show ?thesis
      proof (cases "next_tbl ?m x2 (PDX va)")
        case None
        then show ?thesis using x1 n1 x2 n2
          by (simp add: walkpgdir_def next_table_read pte_slot_def pathof_def)
      next
        case (Some x3)
        have n3: "P2V x3 \<noteq> 0" using nn [of "[PMX va, PDPX va, PDX va]" x3] x1 x2 Some up1 by simp
        then show ?thesis using x1 n1 x2 n2 Some
          by (simp add: walkpgdir_def next_table_read pte_slot_def pathof_def P2V_slot)
      qed
    qed
  qed
qed

lemma slot_nonnull:
  assumes "kernel_page s (P2V x)" and "KERNBASE \<le> kend s" and "unat i < 512"
  shows "P2V (slot x i) \<noteq> 0"
proof -
  have x: "x < PHYSTOP" "pg_aligned x"
    using assms(1) by (simp_all add: kernel_page_def valid_page_def)
  have "unat (slot x i) = unat x + 8 * unat i"
    using x(1) assms(3) unat_add_no_wrap [of x "8 * i"] slot_offset [OF assms(3)]
    by (simp add: slot_def PHYSTOP_def word_less_nat_alt)
  then have "unat (slot x i) < 0x10000000"
    using x(1) assms(3) by (simp add: PHYSTOP_def word_less_nat_alt)
  moreover have "V2P 0 = 0x800000000000" by (simp add: V2P_def KERNBASE_def)
  then have "P2V (slot x i) = 0 \<Longrightarrow> unat (slot x i) = 0x800000000000"
    using V2P_P2V [of "slot x i"] by simp
  ultimately show ?thesis by linarith
qed

lemma kernel_page_nonnull: "kmem_inv s L \<Longrightarrow> kernel_page s v \<Longrightarrow> v \<noteq> 0"
  using valid_page_nonzero by (auto simp: kmem_inv_def kernel_page_def)

lemma aspace_nonnull: "aspace s L t ext \<Longrightarrow> nonnull_tbl (phys s) t"
  using kernel_page_nonnull by (auto simp: aspace_def nonnull_tbl_def)

section \<open>Writing one entry\<close>

text \<open>The part of the invariant that stays true while an operation rewrites entries.\<close>

definition pt_ok :: "kmem \<Rightarrow> u64 \<Rightarrow> bool" where
  "pt_ok s t \<longleftrightarrow> pt_inj (phys s) t \<and> KERNBASE \<le> kend s \<and> (\<forall>x\<in>tables (phys s) t. kernel_page s (P2V x))"

definition put_pte :: "kmem \<Rightarrow> u64 \<Rightarrow> u64 \<Rightarrow> u64 \<Rightarrow> kmem" where
  "put_pte s t va v = s\<lparr>phys := store64 (phys s) (slot (the (tbl (phys s) t (pathof va))) (PTX va)) v\<rparr>"

definition has_pt :: "kmem \<Rightarrow> u64 \<Rightarrow> u64 \<Rightarrow> bool" where
  "has_pt s t va \<longleftrightarrow> upage va \<and> tbl (phys s) t (pathof va) \<noteq> None"

definition pte_ptr :: "kmem \<Rightarrow> u64 \<Rightarrow> u64 \<Rightarrow> u64" where
  "pte_ptr s t va = P2V (slot (the (tbl (phys s) t (pathof va))) (PTX va))"

lemma aspace_pt_ok: "aspace s L t ext \<Longrightarrow> pt_ok s t"
  by (auto simp: aspace_def pt_ok_def kmem_inv_def)

lemma pt_ok_nonnull: "pt_ok s t \<Longrightarrow> nonnull_tbl (phys s) t"
  using valid_page_nonzero by (auto simp: pt_ok_def nonnull_tbl_def kernel_page_def)

lemma has_pt_table:
  assumes "has_pt s t va"
  shows "the (tbl (phys s) t (pathof va)) \<in> tables (phys s) t"
    "tbl (phys s) t (pathof va) = Some (the (tbl (phys s) t (pathof va)))"
  using assms upath_pathof_upage by (auto simp: has_pt_def tables_def)

lemma walk_ptr:
  assumes "pt_ok s (V2P pgdir)" and "has_pt s (V2P pgdir) va"
  shows "walkpgdir s pgdir va False = Inr (pte_ptr s (V2P pgdir) va, s)"
  using walkpgdir_read [OF pt_ok_nonnull [OF assms(1)], of va] assms(2)
  by (auto simp: has_pt_def upage_def pte_slot_def pte_ptr_def)

lemma pte_ptr_nonnull:
  assumes "pt_ok s t" and "has_pt s t va"
  shows "pte_ptr s t va \<noteq> 0"
  unfolding pte_ptr_def
  by (rule slot_nonnull [of s]) (use assms has_pt_table in \<open>auto simp: pt_ok_def\<close>)

lemma get_pte_ptr:
  assumes "pt_ok s t" and "has_pt s t va"
  shows "get_pte s (pte_ptr s t va) = Inr (the (pte_of (phys s) t va))"
  using pte_ptr_nonnull [OF assms] assms(2)
  by (auto simp: get_pte_def pte_ptr_def pte_of_def pte_slot_def has_pt_def)

lemma set_pte_ptr:
  assumes "pt_ok s t" and "has_pt s t va"
  shows "set_pte s (pte_ptr s t va) v = Inr (put_pte s t va v)"
  using pte_ptr_nonnull [OF assms] by (simp add: set_pte_def put_pte_def pte_ptr_def)

lemma put_pte_fields [simp]:
  "finfo (put_pte s t va v) = finfo s" "kend (put_pte s t va v) = kend s"
  "freelist (put_pte s t va v) = freelist s" "kernel_page (put_pte s t va v) = kernel_page s"
  "page_refs (put_pte s t va v) = page_refs s"
  by (simp_all add: put_pte_def kernel_page_def page_refs_def fun_eq_iff)

lemma put_pte_same_tbl:
  assumes "pt_ok s t" and "has_pt s t va"
  shows "same_tbl (phys s) (phys (put_pte s t va v)) t"
  using store_leaf_tbl [of "phys s" t va] assms has_pt_table(2) [OF assms(2)]
  by (auto simp: same_tbl_def put_pte_def pt_ok_def has_pt_def)

lemma put_pte_ok:
  assumes "pt_ok s t" and "has_pt s t va"
  shows "pt_ok (put_pte s t va v) t"
  using same_tbl_tables [OF put_pte_same_tbl [OF assms]] same_tbl_inj [OF put_pte_same_tbl [OF assms]]
    assms(1) by (simp add: pt_ok_def)

lemma put_pte_has_pt:
  assumes "pt_ok s t" and "has_pt s t va"
  shows "has_pt (put_pte s t va v) t u = has_pt s t u" "pte_ptr (put_pte s t va v) t u = (if upage u then pte_ptr s t u else pte_ptr (put_pte s t va v) t u)"
  using same_tblD [OF put_pte_same_tbl [OF assms]] upath_pathof_upage
  by (auto simp: has_pt_def pte_ptr_def)

lemma put_pte_pte:
  assumes "pt_ok s t" and "has_pt s t va" and "upage u"
  shows "pte_of (phys (put_pte s t va v)) t u = (if u = va then Some v else pte_of (phys s) t u)"
  using store_leaf_pte [of "phys s" t va _ u v] assms has_pt_table(2) [OF assms(2)]
  by (simp add: put_pte_def pt_ok_def has_pt_def)

lemma put_pte_byte:
  assumes "pt_ok s t" and "has_pt s t va" and "PGROUNDDOWN x \<notin> tables (phys s) t"
  shows "phys (put_pte s t va v) x = phys s x"
proof -
  let ?pt = "the (tbl (phys s) t (pathof va))"
  have "pg_aligned ?pt"
    using pt_inj_aligned [of "phys s" t "pathof va" ?pt] assms has_pt_table(2) [OF assms(2)]
    by (simp add: pt_ok_def)
  moreover have "PGROUNDDOWN x \<noteq> ?pt" using has_pt_table(1) [OF assms(2)] assms(3) by metis
  ultimately show ?thesis by (simp add: put_pte_def store_leaf_byte)
qed

lemma put_pte_kmem_inv:
  assumes "pt_ok s t" and "has_pt s t va" and "kmem_inv s L" and "\<And>x. x \<in> tables (phys s) t \<Longrightarrow> P2V x \<notin> set L"
  shows "kmem_inv (put_pte s t va v) L"
proof -
  have "flist (phys (put_pte s t va v)) (freelist s) L = flist (phys s) (freelist s) L"
  proof (rule flist_cong)
    fix a assume a: "a \<in> set L"
    then have al: "pg_aligned (V2P a)" using assms(3) by (auto simp: kmem_inv_def valid_page_def)
    have "V2P a \<notin> tables (phys s) t" using assms(4) [of "V2P a"] a by auto
    then have "load64 (phys (put_pte s t va v)) (slot (V2P a) 0) = load64 (phys s) (slot (V2P a) 0)"
      by (intro load64_same_page al) (simp_all add: put_pte_byte [OF assms(1,2)])
    then show "load64 (phys (put_pte s t va v)) (V2P a) = load64 (phys s) (V2P a)"
      by (simp add: slot_def)
  qed
  then show ?thesis using assms(3) by (simp add: kmem_inv_def)
qed

end
