(* ===== verification/Cow.thy ===== *)
theory Cow
  imports Pagetable
begin

text \<open>
  Page deduplication and copy-on-write (\<^verbatim>\<open>dedup\<close>, \<^verbatim>\<open>copyonwrite\<close> of \<^verbatim>\<open>vm.c\<close>). The lemmas
  run the C code on an abstract view of the kernel's memory: \<open>sim s0 t s L E R D\<close> says
  that the state \<open>s\<close>, reached from \<open>s0\<close>, has the free pages \<open>L\<close>, the leaf entries \<open>E\<close>, the
  reference counts \<open>R\<close>, the page-table pages of \<open>s0\<close>, and the bytes of \<open>s0\<close> in every other
  kernel page outside the frames \<open>D\<close>.
\<close>

unbundle bit_operations_syntax

section \<open>The abstract view\<close>

definition sim ::
  "kmem \<Rightarrow> u64 \<Rightarrow> kmem \<Rightarrow> u64 list \<Rightarrow> (u64 \<Rightarrow> u64 option) \<Rightarrow> (u64 \<Rightarrow> nat) \<Rightarrow> u64 set \<Rightarrow> bool" where
  "sim s0 t s L E R D \<longleftrightarrow> pt_ok s t \<and> kmem_inv s L \<and> kernel_page s = kernel_page s0
     \<and> same_tbl (phys s0) (phys s) t
     \<and> (\<forall>x\<in>tables (phys s0) t. P2V x \<notin> set L)
     \<and> (\<forall>u. upage u \<longrightarrow> pte_of (phys s) t u = E u)
     \<and> (\<forall>v. kernel_page s0 v \<longrightarrow> page_refs s v = R v)
     \<and> (\<forall>x. kernel_page s0 (P2V (PGROUNDDOWN x)) \<longrightarrow> PGROUNDDOWN x \<notin> tables (phys s0) t \<union> D
          \<longrightarrow> phys s x = phys s0 x)"

lemma simD:
  assumes "sim s0 t s L E R D"
  shows "pt_ok s t" "kmem_inv s L" "kernel_page s = kernel_page s0" "same_tbl (phys s0) (phys s) t"
    "tables (phys s) t = tables (phys s0) t" "x \<in> tables (phys s0) t \<Longrightarrow> P2V x \<notin> set L"
    "upage u \<Longrightarrow> pte_of (phys s) t u = E u" "kernel_page s0 v \<Longrightarrow> page_refs s v = R v"
    "kernel_page s0 (P2V (PGROUNDDOWN y)) \<Longrightarrow> PGROUNDDOWN y \<notin> tables (phys s0) t \<Longrightarrow> PGROUNDDOWN y \<notin> D
      \<Longrightarrow> phys s y = phys s0 y"
  using assms same_tbl_tables by (auto simp: sim_def)

lemma sim_refl:
  "aspace s L t ext \<Longrightarrow> sim s t s L (pte_of (phys s) t) (page_refs s) {}"
  using aspace_pt_ok by (auto simp: sim_def aspace_def same_tbl_def)

lemma sim_ptr:
  assumes "sim s0 t s L E R D" and "has_pt s0 t va"
  shows "has_pt s t va" "pte_ptr s t va = pte_ptr s0 t va"
  using same_tblD [OF simD(4) [OF assms(1)]] assms(2) upath_pathof_upage
  by (auto simp: has_pt_def pte_ptr_def)

lemma sim_get:
  assumes "sim s0 t s L E R D" and "has_pt s0 t va"
  shows "get_pte s (pte_ptr s0 t va) = Inr (the (E va))"
  using get_pte_ptr [OF simD(1) [OF assms(1)] sim_ptr(1) [OF assms]] sim_ptr(2) [OF assms]
    simD(7) [OF assms(1)] assms(2) by (simp add: has_pt_def)

lemma sim_put:
  assumes "sim s0 t s L E R D" and "has_pt s0 t va"
  shows "sim s0 t (put_pte s t va v) L (E(va \<mapsto> v)) R D"
  unfolding sim_def
proof (intro conjI allI impI ballI)
  note f = simD [OF assms(1)] and hp = sim_ptr(1) [OF assms]
  show "kmem_inv (put_pte s t va v) L"
    using put_pte_kmem_inv [OF f(1) hp f(2)] f(5,6) by simp
  show "same_tbl (phys s0) (phys (put_pte s t va v)) t"
    using same_tbl_trans [OF f(4) put_pte_same_tbl [OF f(1) hp]] .
  show "phys (put_pte s t va v) x = phys s0 x" if "kernel_page s0 (P2V (PGROUNDDOWN x))"
    and "PGROUNDDOWN x \<notin> tables (phys s0) t \<union> D" for x
    using put_pte_byte [OF f(1) hp] f(5) f(9) [of x] that by auto
  show "pt_ok (put_pte s t va v) t" by (rule put_pte_ok [OF f(1) hp])
  show "pte_of (phys (put_pte s t va v)) t u = (E(va \<mapsto> v)) u" if "upage u" for u
    using put_pte_pte [OF f(1) hp that] f(7) [OF that] by simp
qed (use simD [OF assms(1)] in auto)

lemma sim_set:
  assumes "sim s0 t s L E R D" and "has_pt s0 t va"
  shows "\<exists>s'. set_pte s (pte_ptr s0 t va) v = Inr s' \<and> sim s0 t s' L (E(va \<mapsto> v)) R D"
  using set_pte_ptr [OF simD(1) [OF assms(1)] sim_ptr(1) [OF assms]] sim_ptr(2) [OF assms] sim_put [OF assms]
  by auto

text \<open>A step that leaves the page-table pages alone.\<close>

lemma sim_outside:
  assumes "sim s0 t s L E R D" and "kmem_inv s' L'" and "kernel_page s' = kernel_page s"
    and "\<And>x. x \<in> tables (phys s0) t \<Longrightarrow> P2V x \<notin> set L'"
    and "\<And>v. kernel_page s0 v \<Longrightarrow> page_refs s' v = R' v"
    and "\<And>x. kernel_page s (P2V (PGROUNDDOWN x)) \<Longrightarrow> PGROUNDDOWN x \<notin> D' \<Longrightarrow> phys s' x = phys s x"
    and "D' \<inter> tables (phys s0) t = {}"
  shows "sim s0 t s' L' E R' (D \<union> D')"
proof -
  note f = simD [OF assms(1)]
  have inj: "pt_inj (phys s) t" and tb: "x \<in> tables (phys s0) t \<Longrightarrow> kernel_page s (P2V x)" for x
    using f(1,5) by (auto simp: pt_ok_def)
  have out: "phys s' x = phys s x" if "PGROUNDDOWN x \<in> tables (phys s) t" for x
    using assms(6) [of x] assms(7) that f(5) tb by auto
  note st = outside_same_tbl [OF inj out]
  have "pt_ok s' t"
    using f(1,5) same_tbl_inj [OF st inj] same_tbl_tables [OF st] assms(2,3)
    by (auto simp: pt_ok_def kmem_inv_def)
  then show ?thesis
    using assms f same_tbl_trans [OF f(4) st] outside_pte [OF inj out] by (auto simp: sim_def)
qed

lemma page_byte_phys:
  assumes "pg_aligned v"
  shows "PGROUNDDOWN x = v \<longleftrightarrow> x - v < PGSIZE" "phys s x = page_byte s (P2V v) (x - v)"
  using in_range_page [OF assms] by (auto simp: in_range_def page_byte_def)

lemma P2V_image [simp]: "P2V x \<in> P2V ` A \<longleftrightarrow> x \<in> A"
  by (auto simp: P2V_def)

lemma sim_release:
  assumes "sim s0 t s L E R D" and "kernel_page s0 (P2V f)" and "P2V f \<notin> set L"
    and "f \<notin> tables (phys s0) t" and "R (P2V f) = Suc n"
  shows "\<exists>s'. krelease s (P2V f) = Inr s'
    \<and> sim s0 t s' (if n = 0 then P2V f # L else L) E (R(P2V f := n)) (D \<union> (if n = 0 then {f} else {}))"
proof -
  note g = simD [OF assms(1)]
  have kp: "kernel_page s (P2V f)" and rf: "page_refs s (P2V f) = Suc n"
    using assms g(3,8) by auto
  have fin: "sim s0 t s' L' E (R(P2V f := n)) (D \<union> D')"
    if "kmem_inv s' L'" "page_refs s' (P2V f) = n" "kernel_page s' = kernel_page s"
      "\<forall>u. kernel_page s u \<longrightarrow> u \<noteq> P2V f \<longrightarrow> page_refs s' u = page_refs s u"
      "\<forall>u k. kernel_page s u \<longrightarrow> u \<notin> P2V ` D' \<longrightarrow> k < PGSIZE \<longrightarrow> page_byte s' u k = page_byte s u k"
      "set L' \<subseteq> insert (P2V f) (set L)" "D' \<subseteq> {f}" for s' L' D'
  proof (rule sim_outside [OF assms(1) that(1,3)])
    fix x assume "kernel_page s (P2V (PGROUNDDOWN x))" and "PGROUNDDOWN x \<notin> D'"
    then show "phys s' x = phys s x"
      using that(5) [rule_format, of "P2V (PGROUNDDOWN x)" "x - PGROUNDDOWN x"] that(7)
        page_byte_phys(1) [of "PGROUNDDOWN x" x] page_byte_phys(2) [of "PGROUNDDOWN x" _ x] by auto
  qed (use that assms g in auto)
  show ?thesis
  proof (cases "n = 0")
    case True
    then show ?thesis
      using kpages.release_last [OF g(2) kp assms(3)] rf fin [where D' = "{f}"] by fastforce
  next
    case False
    then show ?thesis
      using kpages.release_shared [OF g(2) kp] rf fin [where D' = "{}" and L' = L] by fastforce
  qed
qed

lemma sim_retain:
  assumes "sim s0 t s L E R D" and "kernel_page s0 v" and "R v + 1 < 2 ^ 32"
  shows "\<exists>s'. kretain s v = Inr s' \<and> sim s0 t s' L E (R(v := R v + 1)) D"
proof -
  note g = simD [OF assms(1)]
  obtain s' where s': "kretain s v = Inr s'" "kmem_inv s' L" "page_refs s' v = page_refs s v + 1"
    "kernel_page s' = kernel_page s" "\<And>u. kernel_page s u \<Longrightarrow> u \<noteq> v \<Longrightarrow> page_refs s' u = page_refs s u"
    "\<And>u. page_byte s' u = page_byte s u"
    using kpages.retain_spec [OF g(2), of v] assms g(3,8) by auto
  have "phys s' x = phys s x" for x using s'(6) [of "P2V x"] by (auto simp: page_byte_def fun_eq_iff dest: spec [of _ 0])
  then have "sim s0 t s' L E (R(v := R v + 1)) (D \<union> {})"
    by (intro sim_outside [OF assms(1) s'(2,4)]) (use s' g assms in auto)
  then show ?thesis using s'(1) by auto
qed

section \<open>Merging two frames\<close>

lemma flag_absorb:
  fixes e :: u64
  assumes "e AND 2 ^ n \<noteq> 0"
  shows "e OR 2 ^ n = e"
proof -
  have "bit e n" using assms by (metis and_exp_eq_0_iff_not_bit)
  then show ?thesis by (intro bit_word_eqI) (auto simp: bit_or_iff bit_exp_iff)
qed

lemma PTE_ADDR_set_flag:
  assumes "f AND NOT 4095 = 0"
  shows "PTE_ADDR (e OR f) = PTE_ADDR e"
  using assms by (simp add: PTE_ADDR_def bit.conj_disj_distrib2)

lemma and_0_bit: "(a :: u64) AND b = 0 \<Longrightarrow> bit a n \<Longrightarrow> \<not> bit b n"
  by (metis bit_0_eq bit_and_iff bot_apply bot_bool_def)

lemma clear_clear: "(a :: u64) AND b = 0 \<Longrightarrow> a AND NOT b = a"
  by (intro bit_word_eqI) (auto simp: bit_and_iff bit_not_iff dest: and_0_bit)

lemma clear_masked:
  fixes f m e :: u64
  assumes "f AND NOT m = 0"
  shows "(e AND NOT f) AND NOT m = e AND NOT m"
proof -
  have "bit f n \<Longrightarrow> bit m n" for n
    using and_0_bit [OF assms, of n] bit_imp_le_length [of f n] by (auto simp: bit_not_iff)
  then show ?thesis by (intro bit_word_eqI) (auto simp: bit_and_iff bit_not_iff)
qed

lemma PTE_ADDR_clear_flag: "f AND NOT 4095 = 0 \<Longrightarrow> PTE_ADDR (e AND NOT f) = PTE_ADDR e"
  unfolding PTE_ADDR_def by (rule clear_masked)

text \<open>The entry both pages share after a merge.\<close>

definition shared_entry :: "u64 \<Rightarrow> u64" where
  "shared_entry e = (e OR PTE_COW) AND NOT PTE_W"

lemma and_or_single:
  fixes e :: u64
  assumes "a AND b = 0"
  shows "(e OR a) AND b = e AND b" "(e AND NOT a) AND b = e AND b"
proof -
  show "(e OR a) AND b = e AND b" using assms by (simp add: bit.conj_disj_distrib2)
  show "(e AND NOT a) AND b = e AND b"
    using and_0_bit [OF assms] by (intro bit_word_eqI) (auto simp: bit_and_iff bit_not_iff)
qed

lemma shared_entry_facts:
  "PTE_ADDR (shared_entry e) = PTE_ADDR e" "shared_entry e AND PTE_P = e AND PTE_P"
  "shared_entry e AND PTE_U = e AND PTE_U" "shared_entry e AND PTE_W = 0"
  "shared_entry e AND PTE_COW \<noteq> 0"
proof -
  show "PTE_ADDR (shared_entry e) = PTE_ADDR e"
    unfolding shared_entry_def
    by (subst PTE_ADDR_clear_flag, simp add: PTE_W_def, rule PTE_ADDR_set_flag, simp add: PTE_COW_def)
  show "shared_entry e AND PTE_P = e AND PTE_P" "shared_entry e AND PTE_U = e AND PTE_U"
    unfolding shared_entry_def
    by (subst and_or_single, simp add: PTE_W_def PTE_P_def PTE_U_def,
        subst and_or_single, simp_all add: PTE_COW_def PTE_P_def PTE_U_def)+
  show "shared_entry e AND PTE_W = 0"
    by (simp add: shared_entry_def and.assoc)
  have "shared_entry e AND PTE_COW = PTE_COW"
    unfolding shared_entry_def
    by (subst and_or_single) (simp_all add: PTE_COW_def PTE_W_def ac_simps)
  then show "shared_entry e AND PTE_COW \<noteq> 0" by (simp add: PTE_COW_def)
qed

lemma merged_entry:
  assumes "present e" and "e AND PTE_U \<noteq> 0"
  shows "((((e OR PTE_COW) OR PTE_P) OR PTE_U) OR PTE_COW) AND NOT PTE_W = shared_entry e"
proof -
  have "e OR PTE_P = e" "e OR PTE_U = e"
    using flag_absorb [of e 0] flag_absorb [of e 2] assms
    by (simp_all add: present_def PTE_P_def PTE_U_def)
  then show ?thesis
    by (metis (no_types) shared_entry_def or.assoc or.commute or.left_idem)
qed

text \<open>
  \<open>merge_frames\<close> on the abstract view: both pages get the entry of the lower one, shared
  and read-only, and one reference moves from the upper page's frame to the lower page's.
\<close>

lemma merge_frames_run:
  fixes pgdir s
  defines "t \<equiv> V2P pgdir"
  assumes as: "aspace s L t ext" and pts: "has_pt s t (addr - PGSIZE)" "has_pt s t addr"
    and e1: "pte_of (phys s) t (addr - PGSIZE) = Some e1" "present e1" "e1 AND PTE_U \<noteq> 0"
    and e2: "pte_of (phys s) t addr = Some e2" "present e2"
    and n: "page_refs s (P2V (PTE_ADDR e2)) = Suc n"
    and bnd32: "PTE_ADDR e1 \<noteq> PTE_ADDR e2 \<Longrightarrow> page_refs s (P2V (PTE_ADDR e1)) + 1 < 2 ^ 32"
  defines "R \<equiv> (page_refs s)(P2V (PTE_ADDR e2) := n)"
  shows "\<exists>s'. merge_frames s pgdir addr (P2V (PTE_ADDR e2)) (P2V (PTE_ADDR e1)) = Inr s'
    \<and> sim s t s' (if n = 0 then P2V (PTE_ADDR e2) # L else L)
        ((pte_of (phys s) t)(addr \<mapsto> shared_entry e1, addr - PGSIZE \<mapsto> shared_entry e1))
        (R(P2V (PTE_ADDR e1) := R (P2V (PTE_ADDR e1)) + 1))
        (if n = 0 then {PTE_ADDR e2} else {})"
proof -
  let ?A = addr and ?B = "addr - PGSIZE" and ?f2 = "PTE_ADDR e2" and ?E = "pte_of (phys s) t"
  let ?c = "e1 OR PTE_COW" and ?L = "if n = 0 then P2V (PTE_ADDR e2) # L else L"
  have ne: "?B \<noteq> ?A" by (simp add: PGSIZE_def)
  have fr: "frame_ok s L t (PTE_ADDR e)" if "pte_of (phys s) t u = Some e" "present e" "upage u" for e u
    using as that by (auto simp: aspace_def)
  have k1: "kernel_page s (P2V (PTE_ADDR e1))" and f2: "frame_ok s L t ?f2"
    using fr [OF e1(1,2)] fr [OF e2] pts by (auto simp: frame_ok_def has_pt_def)
  note s0 = sim_refl [OF as]
  obtain s1 where s1: "set_pte s (pte_ptr s t ?B) ?c = Inr s1" "sim s t s1 L (?E(?B \<mapsto> ?c)) (page_refs s) {}"
    using sim_set [OF s0 pts(1)] by blast
  obtain s2 where s2: "set_pte s1 (pte_ptr s t ?A) (((?c OR PTE_P) OR PTE_U) OR PTE_COW) = Inr s2"
    "sim s t s2 L (?E(?B \<mapsto> ?c, ?A \<mapsto> ((?c OR PTE_P) OR PTE_U) OR PTE_COW)) (page_refs s) {}"
    using sim_set [OF s1(2) pts(2)] by blast
  obtain s3 where s3: "set_pte s2 (pte_ptr s t ?A) (((((?c OR PTE_P) OR PTE_U) OR PTE_COW)) AND NOT PTE_W) = Inr s3"
    "sim s t s3 L (?E(?B \<mapsto> ?c, ?A \<mapsto> shared_entry e1)) (page_refs s) {}"
    using sim_set [OF s2(2) pts(2), of "((((?c OR PTE_P) OR PTE_U) OR PTE_COW)) AND NOT PTE_W"]
    by (auto simp: merged_entry [OF e1(2,3)])
  obtain s4 where s4: "krelease s3 (P2V ?f2) = Inr s4"
    "sim s t s4 ?L (?E(?B \<mapsto> ?c, ?A \<mapsto> shared_entry e1)) R (if n = 0 then {?f2} else {})"
    using sim_release [OF s3(2), of ?f2 n] f2 n by (auto simp: frame_ok_def R_def)
  obtain s5 where s5: "(if ?c AND PTE_W \<noteq> 0 then set_pte s4 (pte_ptr s t ?B) (?c AND NOT PTE_W) else Inr s4) = Inr s5"
    "sim s t s5 ?L (?E(?A \<mapsto> shared_entry e1, ?B \<mapsto> shared_entry e1)) R (if n = 0 then {?f2} else {})"
  proof (cases "?c AND PTE_W = 0")
    case True
    then have "shared_entry e1 = ?c"
      by (simp add: shared_entry_def clear_clear)
    then show ?thesis using that s4(2) True by (simp add: fun_upd_twist [OF ne])
  next
    case False
    then show ?thesis
      using that sim_set [OF s4(2) pts(1), of "?c AND NOT PTE_W"] ne
      by (auto simp: shared_entry_def fun_upd_twist [OF ne])
  qed
  have "R (P2V (PTE_ADDR e1)) + 1 < 2 ^ 32"
    using bnd32 n unsigned_less [where ?'a = nat, of "refs (finfo s (frame_ix (PTE_ADDR e2)))"] by (auto simp: R_def page_refs_def)
  then obtain s6 where s6: "kretain s5 (P2V (PTE_ADDR e1)) = Inr s6"
    "sim s t s6 ?L (?E(?A \<mapsto> shared_entry e1, ?B \<mapsto> shared_entry e1))
      (R(P2V (PTE_ADDR e1) := R (P2V (PTE_ADDR e1)) + 1)) (if n = 0 then {?f2} else {})"
    using sim_retain [OF s5(2) k1] by auto
  have "merge_frames s pgdir addr (P2V ?f2) (P2V (PTE_ADDR e1)) = Inr s6"
    using walk_ptr [OF aspace_pt_ok [OF as [unfolded t_def]]] pts pte_ptr_nonnull [OF aspace_pt_ok [OF as] pts(2)] ne
      sim_get [OF s0 pts(1)] sim_get [OF s1(2) pts(1)] sim_get [OF s2(2) pts(2)]
      sim_get [OF s4(2) pts(1)] s1(1) s2(1) s3(1) s4(1) s5(1) s6(1) e1
    by (cases "?c AND PTE_W = 0") (simp_all add: merge_frames_def t_def or.assoc)
  then show ?thesis using s6(2) by blast
qed

definition mapped :: "memory \<Rightarrow> u64 \<Rightarrow> u64 set" where
  "mapped m t = {va. upage va \<and> (\<exists>e. pte_of m t va = Some e \<and> present e)}"

lemma finite_mappers [simp]: "finite (mappers m t f)" "finite (mapped m t)"
proof -
  have "finite (UNIV :: u64 set)"
    by (rule finite_imageD [of unat]) (auto intro: finite_subset [of _ "{..<2 ^ 64}"] simp: inj_on_def unat_u64_less word_unat_eq_iff)
  then show "finite (mappers m t f)" "finite (mapped m t)"
    using finite_subset [OF subset_UNIV] by blast+
qed

lemma mappers_subset: "mappers m t f \<subseteq> mapped m t"
  by (auto simp: mappers_def mapped_def)

text \<open>
  The bookkeeping of a merge, on entries only: \<open>E\<close> before, \<open>E'\<close> after, pages \<open>A\<close> and \<open>B\<close>.
\<close>

lemma merge_mappers:
  assumes E': "\<And>u. upage u \<Longrightarrow> pte_of m' t u = (if u = A \<or> u = B then Some (shared_entry e1) else pte_of m t u)"
    and A: "upage A" "pte_of m t A = Some e2" "present e2"
    and B: "upage B" "pte_of m t B = Some e1" "present e1"
  shows "mappers m' t g = (if g = PTE_ADDR e1 then insert A (mappers m t g) else mappers m t g - {A})"
    and "mapped m' t = mapped m t"
proof -
  have pr: "present (shared_entry e1)" "PTE_ADDR (shared_entry e1) = PTE_ADDR e1"
    using B(3) by (simp_all add: present_def shared_entry_facts)
  show "mappers m' t g = (if g = PTE_ADDR e1 then insert A (mappers m t g) else mappers m t g - {A})"
    using A B pr by (auto simp: mappers_def E' split: if_splits)
  show "mapped m' t = mapped m t"
    using A B pr by (auto simp: mapped_def E' split: if_splits)
qed

lemma aspace_count:
  assumes "aspace s L t ext" and "va \<in> mappers (phys s) t f"
  shows "page_refs s (P2V f) = card (mappers (phys s) t f) + ext f" "frame_ok s L t f"
    "0 < card (mappers (phys s) t f)"
  using assms by (auto simp: aspace_def mappers_def card_gt_0_iff simp del: finite_mappers
      intro: finite_mappers [unfolded mappers_def])

text \<open>A frame that some page still maps after a merge was not the one given back.\<close>

lemma merge_frame_live:
  assumes as: "aspace s L t ext"
    and A: "A \<in> mappers (phys s) t f2" and B: "B \<in> mappers (phys s) t f1" and ne: "A \<noteq> B"
    and n: "page_refs s (P2V f2) = Suc n"
    and u: "u \<in> mappers (phys s) t g" "u \<noteq> A"
  shows "frame_ok s (if n = 0 then P2V f2 # L else L) t g \<and> (g = f2 \<longrightarrow> n \<noteq> 0)"
proof -
  have "n \<noteq> 0" if "g = f2"
  proof -
    have "{A, u} \<subseteq> mappers (phys s) t f2" using A u that by simp
    then have "2 \<le> card (mappers (phys s) t f2)"
      using card_mono [OF finite_mappers(1) [of "phys s" t f2], of "{A, u}"] u(2) by simp
    then show ?thesis using aspace_count(1) [OF as A] n by simp
  qed
  then show ?thesis
    using aspace_count(2) [OF as u(1)] by (auto simp: frame_ok_def P2V_def)
qed

text \<open>Two states give the user the same bytes.\<close>

definition same_view :: "memory \<Rightarrow> memory \<Rightarrow> u64 \<Rightarrow> bool" where
  "same_view m m' t \<longleftrightarrow> (\<forall>va. unat va < 2 ^ 47 \<longrightarrow> user_byte m' t va = user_byte m t va)"

lemma user_byte_page:
  assumes "pte_of m' t u = Some e'" and "pte_of m t u = Some e" and "u = PGROUNDDOWN va"
    and "present e' \<longleftrightarrow> present e" and "e' AND PTE_U = e AND PTE_U"
    and "\<And>k. k < PGSIZE \<Longrightarrow> present e \<Longrightarrow> m' (PTE_ADDR e' + k) = m (PTE_ADDR e + k)"
  shows "user_byte m' t va = user_byte m t va"
proof -
  have "va AND 0xFFF < PGSIZE"
    using word_and_le1 [of va "0xFFF"] by (simp add: PGSIZE_def word_le_nat_alt word_less_nat_alt)
  then show ?thesis using assms by (simp add: user_byte_def)
qed

lemma upage_PGROUNDDOWN:
  assumes "unat va < 2 ^ 47"
  shows "upage (PGROUNDDOWN va)"
  using assms unat_PGROUNDDOWN [of va] by (simp add: upage_def)

lemma sim_frame_byte:
  assumes "sim s0 t s L E R D" and "frame_ok s0 L0 t g" and "pg_aligned g" and "g \<notin> D" and "k < PGSIZE"
  shows "phys s (g + k) = phys s0 (g + k)"
  using simD(9) [OF assms(1), of "g + k"] assms(2,4) page_offset [OF assms(3,5)] by (simp add: frame_ok_def)

lemma page_eq_byte: "page_eq m a b \<Longrightarrow> k < PGSIZE \<Longrightarrow> m (a + k) = m (b + k)"
  by (auto simp: page_eq_def PGSIZE_def word_less_nat_alt dest!: spec [of _ "unat k"])

lemma U_flag: "e AND PTE_U \<noteq> 0 \<Longrightarrow> e AND PTE_U = PTE_U"
  using flag_absorb [of e 2] by (simp add: PTE_U_def) (metis and.commute word_bw_comms(1) word_ao_absorbs(5))

lemma same_viewI:
  assumes "\<And>u. upage u \<Longrightarrow> pte_of m' t u = None \<longleftrightarrow> pte_of m t u = None"
    and "\<And>u e e'. upage u \<Longrightarrow> pte_of m t u = Some e \<Longrightarrow> pte_of m' t u = Some e' \<Longrightarrow>
      (present e' \<longleftrightarrow> present e) \<and> e' AND PTE_U = e AND PTE_U
      \<and> (present e \<longrightarrow> (\<forall>k<PGSIZE. m' (PTE_ADDR e' + k) = m (PTE_ADDR e + k)))"
  shows "same_view m m' t"
  unfolding same_view_def
proof (intro allI impI)
  fix va :: u64 assume "unat va < 2 ^ 47"
  then have u: "upage (PGROUNDDOWN va)" by (rule upage_PGROUNDDOWN)
  show "user_byte m' t va = user_byte m t va"
  proof (cases "pte_of m t (PGROUNDDOWN va)")
    case None
    then show ?thesis using assms(1) [OF u] by (simp add: user_byte_def)
  next
    case (Some e)
    then obtain e' where e': "pte_of m' t (PGROUNDDOWN va) = Some e'" using assms(1) [OF u] by auto
    show ?thesis
      by (rule user_byte_page [OF e' Some refl]) (use assms(2) [OF u Some e'] in auto)
  qed
qed

lemma card_mappers_less:
  assumes "u \<in> mapped m t" and "u \<notin> mappers m t f"
  shows "card (mappers m t f) < card (mapped m t)"
proof -
  have "mappers m t f \<subset> mapped m t" using assms mappers_subset by blast
  then show ?thesis by (rule psubset_card_mono [OF finite_mappers(2)])
qed

text \<open>
  What the merge of \<open>A\<close> and \<open>B\<close> did, and the invariant after it. The hypotheses are the
  outcome of \<open>merge_frames_run\<close>.
\<close>

lemma merge_live_count:
  assumes as: "aspace s L t ext" and ne: "A \<noteq> B"
    and A: "upage A" "pte_of (phys s) t A = Some e2" "present e2"
    and B: "upage B" "pte_of (phys s) t B = Some e1" "present e1"
    and n: "page_refs s (P2V (PTE_ADDR e2)) = Suc n"
    and sm: "sim s t s' (if n = 0 then P2V (PTE_ADDR e2) # L else L)
      ((pte_of (phys s) t)(A \<mapsto> shared_entry e1, B \<mapsto> shared_entry e1))
      (((page_refs s)(P2V (PTE_ADDR e2) := n))
         (P2V (PTE_ADDR e1) := ((page_refs s)(P2V (PTE_ADDR e2) := n)) (P2V (PTE_ADDR e1)) + 1))
      (if n = 0 then {PTE_ADDR e2} else {})"
    and u: "u \<in> mappers (phys s') t g"
  shows "frame_ok s (if n = 0 then P2V (PTE_ADDR e2) # L else L) t g" "g = PTE_ADDR e2 \<Longrightarrow> n \<noteq> 0"
    and "page_refs s' (P2V g) = card (mappers (phys s') t g) + ext g"
proof -
  let ?f1 = "PTE_ADDR e1" and ?f2 = "PTE_ADDR e2" and ?m = "phys s"
  let ?R = "(page_refs s)(P2V ?f2 := n)"
  note f = simD [OF sm]
  have mA: "A \<in> mappers ?m t ?f2" and mB: "B \<in> mappers ?m t ?f1"
    using A B by (auto simp: mappers_def)
  have pte: "pte_of (phys s') t u = (if u = A \<or> u = B then Some (shared_entry e1) else pte_of ?m t u)"
    if "upage u" for u using f(7) [OF that] by simp
  have mp: "mappers (phys s') t g = (if g = ?f1 then insert A (mappers ?m t g) else mappers ?m t g - {A})"
    by (rule merge_mappers(1) [OF _ A B]) (rule pte)
  have live: "frame_ok s (if n = 0 then P2V ?f2 # L else L) t g \<and> (g = ?f2 \<longrightarrow> n \<noteq> 0)"
    using merge_frame_live [OF as mA mB ne n, of B ?f1] merge_frame_live [OF as mA mB ne n, of u g] u mB ne
    unfolding mp by (auto split: if_splits)
  then show "frame_ok s (if n = 0 then P2V ?f2 # L else L) t g" "g = ?f2 \<Longrightarrow> n \<noteq> 0" by auto
  have "g = ?f1 \<or> u \<in> mappers ?m t g" using u unfolding mp by (auto split: if_splits)
  then have old: "page_refs s (P2V g) = card (mappers ?m t g) + ext g"
    using aspace_count(1) [OF as] mB by blast
  have "page_refs s' (P2V g) = (?R(P2V ?f1 := ?R (P2V ?f1) + 1)) (P2V g)"
    using live f(8) by (simp add: frame_ok_def)
  moreover have "A \<in> mappers ?m t g \<longleftrightarrow> g = ?f2" using A by (auto simp: mappers_def)
  ultimately show "page_refs s' (P2V g) = card (mappers (phys s') t g) + ext g"
    using old n aspace_count(3) [OF as mA] unfolding mp by (auto simp: insert_absorb P2V_def card_Diff_singleton_if card_insert_if)
qed

lemma merge_frames_aspace:
  fixes pgdir s
  defines "t \<equiv> V2P pgdir"
  assumes as: "aspace s L t ext" and pts: "has_pt s t (addr - PGSIZE)" "has_pt s t addr"
    and e1: "pte_of (phys s) t (addr - PGSIZE) = Some e1" "present e1" "e1 AND PTE_U \<noteq> 0"
    and e2: "pte_of (phys s) t addr = Some e2" "present e2" "e2 AND PTE_U \<noteq> 0"
    and eq: "page_eq (phys s) (PTE_ADDR e1) (PTE_ADDR e2)"
    and few: "card (mapped (phys s) t) + ext (PTE_ADDR e1) < 2 ^ 32"
  shows "\<exists>s' L'. merge_frames s pgdir addr (P2V (PTE_ADDR e2)) (P2V (PTE_ADDR e1)) = Inr s'
    \<and> aspace s' L' t ext \<and> same_tbl (phys s) (phys s') t \<and> mapped (phys s') t = mapped (phys s) t
    \<and> same_view (phys s) (phys s') t
    \<and> (\<forall>u. upage u \<longrightarrow> pte_of (phys s') t u
        = (if u = addr \<or> u = addr - PGSIZE then Some (shared_entry e1) else pte_of (phys s) t u))"
proof -
  let ?A = addr and ?B = "addr - PGSIZE" and ?f1 = "PTE_ADDR e1" and ?f2 = "PTE_ADDR e2" and ?m = "phys s"
  have ne: "?A \<noteq> ?B" by (simp add: PGSIZE_def)
  have upg: "upage ?A" "upage ?B" using pts by (simp_all add: has_pt_def)
  have mA: "?A \<in> mappers ?m t ?f2" and mB: "?B \<in> mappers ?m t ?f1"
    using e1 e2 upg by (auto simp: mappers_def)
  obtain n where n: "page_refs s (P2V ?f2) = Suc n"
    using aspace_count(1,3) [OF as mA] gr0_implies_Suc [of "page_refs s (P2V ?f2)"] by auto
  have "page_refs s (P2V ?f1) + 1 < 2 ^ 32" if "?f1 \<noteq> ?f2"
    using card_mappers_less [of ?A ?m t ?f1] few aspace_count(1) [OF as mB] mA e2 that
    by (auto simp: mappers_def mapped_def)
  note run = merge_frames_run [OF as [unfolded t_def] pts [unfolded t_def] e1 [unfolded t_def]
      e2(1,2) [unfolded t_def] n this, folded t_def]
  obtain s' where s': "merge_frames s pgdir addr (P2V ?f2) (P2V ?f1) = Inr s'"
    and sm: "sim s t s' (if n = 0 then P2V ?f2 # L else L)
      ((pte_of ?m t)(?A \<mapsto> shared_entry e1, ?B \<mapsto> shared_entry e1))
      (((page_refs s)(P2V ?f2 := n)) (P2V ?f1 := ((page_refs s)(P2V ?f2 := n)) (P2V ?f1) + 1))
      (if n = 0 then {?f2} else {})"
    using run by blast
  note f = simD [OF sm] and live = merge_live_count [OF as ne upg(1) e2(1,2) upg(2) e1(1,2) n sm]
  have pte: "pte_of (phys s') t u = (if u = ?A \<or> u = ?B then Some (shared_entry e1) else pte_of ?m t u)"
    if "upage u" for u using f(7) [OF that] by simp
  have "aspace s' (if n = 0 then P2V ?f2 # L else L) t ext"
    unfolding aspace_def
  proof (intro conjI allI impI ballI)
    fix u e assume "upage u" "pte_of (phys s') t u = Some e" "present e"
    then have "u \<in> mappers (phys s') t (PTE_ADDR e)" by (auto simp: mappers_def)
    from live(1,3) [OF this]
    show "frame_ok s' (if n = 0 then P2V ?f2 # L else L) t (PTE_ADDR e)"
      "page_refs s' (P2V (PTE_ADDR e)) = card (mappers (phys s') t (PTE_ADDR e)) + ext (PTE_ADDR e)"
      using f(3,5) by (simp_all add: frame_ok_def)
  qed (use f(1,2,5,6) in \<open>auto simp: pt_ok_def\<close>)
  moreover have "same_view ?m (phys s') t"
  proof (rule same_viewI)
    fix u e e' assume u: "upage u" and e: "pte_of ?m t u = Some e" and e': "pte_of (phys s') t u = Some e'"
    have "phys s' (PTE_ADDR e' + k) = ?m (PTE_ADDR e' + k)" if "present e'" "k < PGSIZE" for k
      by (rule sim_frame_byte [OF sm live(1) [of u]]) (use live(2) [of u] that u e' in \<open>auto simp: mappers_def\<close>)
    then show "(present e' \<longleftrightarrow> present e) \<and> e' AND PTE_U = e AND PTE_U
      \<and> (present e \<longrightarrow> (\<forall>k<PGSIZE. phys s' (PTE_ADDR e' + k) = ?m (PTE_ADDR e + k)))"
      using pte [OF u] e e' e1 e2 page_eq_byte [OF eq] U_flag [OF e1(3)] U_flag [OF e2(3)]
      by (auto simp: shared_entry_facts present_def split: if_splits)
  qed (use pte e1 e2 in auto)
  moreover have "mapped (phys s') t = mapped ?m t"
    by (rule merge_mappers(2) [OF _ upg(1) e2(1,2) upg(2) e1(1,2)]) (rule pte)
  ultimately show ?thesis using s' f(4) pte by blast
qed

section \<open>One step of dedup\<close>

definition user_entry :: "memory \<Rightarrow> u64 \<Rightarrow> u64 \<Rightarrow> u64 \<Rightarrow> bool" where
  "user_entry m t u e \<longleftrightarrow> pte_of m t u = Some e \<and> present e \<and> e AND PTE_U \<noteq> 0"

lemma uva2ka_eq:
  assumes "pt_ok s (V2P pgdir)" and "has_pt s (V2P pgdir) u"
  shows "uva2ka s pgdir u = Inr (if \<exists>e. user_entry (phys s) (V2P pgdir) u e
      then P2V (PTE_ADDR (the (pte_of (phys s) (V2P pgdir) u))) else 0)"
proof -
  obtain e where "pte_of (phys s) (V2P pgdir) u = Some e"
    using assms(2) by (auto simp: has_pt_def pte_of_def pte_slot_def)
  then show ?thesis
    using walk_ptr [OF assms] get_pte_ptr [OF assms]
    by (auto simp: uva2ka_def user_entry_def present_def)
qed

lemma user_entry_frame:
  assumes "aspace s L t ext" and "upage u" and "user_entry (phys s) t u e"
  shows "frame_ok s L t (PTE_ADDR e)" "P2V (PTE_ADDR e) \<noteq> 0" "PTE_ADDR e < PHYSTOP"
proof -
  show f: "frame_ok s L t (PTE_ADDR e)" using assms by (auto simp: aspace_def user_entry_def)
  then show "P2V (PTE_ADDR e) \<noteq> 0"
    using assms(1) kernel_page_nonnull by (auto simp: frame_ok_def aspace_def)
  show "PTE_ADDR e < PHYSTOP"
    using f by (auto simp: frame_ok_def kernel_page_def valid_page_def)
qed

lemma set_checksum_fields [simp]:
  "phys (set_checksum s i c) = phys s" "kernel_page (set_checksum s i c) = kernel_page s"
  "page_refs (set_checksum s i c) = page_refs s" "kmem_inv (set_checksum s i c) = kmem_inv s"
  by (auto simp: set_checksum_def kernel_page_def page_refs_def kmem_inv_def fun_eq_iff)

lemma aspace_set_checksum [simp]: "aspace (set_checksum s i c) = aspace s"
  by (simp add: aspace_def frame_ok_def fun_eq_iff)

lemma pt_set_checksum [simp]:
  "pt_ok (set_checksum s i c) = pt_ok s" "has_pt (set_checksum s i c) = has_pt s"
  by (auto simp: pt_ok_def has_pt_def fun_eq_iff set_checksum_def kernel_page_def)

definition fresh :: "kmem \<Rightarrow> u64 \<Rightarrow> bool" where
  "fresh s f \<longleftrightarrow> checksum (finfo s (frame_ix f)) = checksum_loop (phys s) f 512 0"

lemma kalloc_ops_checksum:
  "krelease s v = Inr s' \<Longrightarrow> checksum (finfo s' i) = checksum (finfo s i)"
  "kretain s v = Inr s' \<Longrightarrow> checksum (finfo s' i) = checksum (finfo s i)"
  "set_pte s p e = Inr s' \<Longrightarrow> checksum (finfo s' i) = checksum (finfo s i)"
  by (auto simp: krelease_def kretain_def kfree_def set_pte_def set_refs_def Let_def split: if_splits)

lemma walk_read_state: "walkpgdir s pgdir va False = Inr (p, s') \<Longrightarrow> s' = s"
  by (auto simp: walkpgdir_def next_table_read bnd_eq_Inr split: if_splits)

lemma merge_frames_checksum:
  "merge_frames s pgdir a v w = Inr s' \<Longrightarrow> checksum (finfo s' i) = checksum (finfo s i)"
  by (auto simp: merge_frames_def bnd_eq_Inr kalloc_ops_checksum dest!: walk_read_state split: if_splits)

text \<open>
  What every step of \<^verbatim>\<open>dedup\<close> keeps: the tables, which pages are mapped, and every byte
  the user can read.
\<close>

definition keeps :: "kmem \<Rightarrow> kmem \<Rightarrow> u64 \<Rightarrow> bool" where
  "keeps s s' t \<longleftrightarrow> same_tbl (phys s) (phys s') t \<and> mapped (phys s') t = mapped (phys s) t
     \<and> same_view (phys s) (phys s') t"

lemma keeps_refl [simp]: "phys s' = phys s \<Longrightarrow> keeps s s' t"
  by (simp add: keeps_def same_tbl_def same_view_def)

lemma keeps_trans: "keeps s s' t \<Longrightarrow> keeps s' s'' t \<Longrightarrow> keeps s s'' t"
  using same_tbl_trans by (fastforce simp: keeps_def same_view_def)

text \<open>An entry that is shared and read-only, and two pages that share a frame through such entries.\<close>

definition cow_entry :: "u64 \<Rightarrow> bool" where
  "cow_entry e \<longleftrightarrow> e AND PTE_W = 0 \<and> e AND PTE_COW \<noteq> 0"

definition share :: "memory \<Rightarrow> u64 \<Rightarrow> u64 \<Rightarrow> u64 \<Rightarrow> bool" where
  "share m t u v \<longleftrightarrow> (\<exists>e e'. pte_of m t u = Some e \<and> pte_of m t v = Some e'
     \<and> PTE_ADDR e = PTE_ADDR e' \<and> cow_entry e \<and> cow_entry e')"

definition ages :: "memory \<Rightarrow> memory \<Rightarrow> u64 \<Rightarrow> u64 \<Rightarrow> bool" where
  "ages m m' t u \<longleftrightarrow> pte_of m' t u = pte_of m t u \<or> pte_of m' t u = map_option shared_entry (pte_of m t u)"

lemma ages_refl [simp]: "ages m m t u"
  by (simp add: ages_def)

lemma ages_share: "ages m m' t u \<Longrightarrow> ages m m' t v \<Longrightarrow> share m t u v \<Longrightarrow> share m' t u v"
  by (auto simp: ages_def share_def cow_entry_def shared_entry_facts)

definition twin :: "memory \<Rightarrow> u64 \<Rightarrow> u64 \<Rightarrow> u64 \<Rightarrow> bool" where
  "twin m t u v \<longleftrightarrow> (\<exists>e e'. user_entry m t u e \<and> user_entry m t v e' \<and> page_eq m (PTE_ADDR e) (PTE_ADDR e'))"

text \<open>The two ways a step of \<^verbatim>\<open>dedup\<close> ends: nothing but a checksum changed, or a merge.\<close>

lemma frames_are_identical_total:
  assumes "a < PHYSTOP" and "b < PHYSTOP"
  shows "\<exists>same. frames_are_identical s a b = Inr same"
  using frame_ix_less [OF assms(1)] frame_ix_less [OF assms(2)]
  by (auto simp: frames_are_identical_def Let_def)

lemma dedup_step_cases:
  fixes pgdir s
  defines "t \<equiv> V2P pgdir"
  assumes as: "aspace s L t ext" and A: "has_pt s t a" and B: "a > a2 \<Longrightarrow> has_pt s t (a - PGSIZE)"
    and e: "user_entry (phys s) t a e"
  defines "s1 \<equiv> set_checksum s (frame_ix (PTE_ADDR e)) (checksum_loop (phys s) (PTE_ADDR e) 512 0)"
  obtains (skip) "dedup_step pgdir a2 a s = Inr s1"
      and "\<And>e1. a > a2 \<Longrightarrow> user_entry (phys s) t (a - PGSIZE) e1 \<Longrightarrow> frames_are_identical s1 (PTE_ADDR e1) (PTE_ADDR e) = Inr False"
    | (merge) e1 where "a > a2" and "user_entry (phys s) t (a - PGSIZE) e1"
      and "frames_are_identical s1 (PTE_ADDR e1) (PTE_ADDR e) = Inr True"
      and "dedup_step pgdir a2 a s = merge_frames s1 pgdir a (P2V (PTE_ADDR e)) (P2V (PTE_ADDR e1))"
proof -
  have ok: "pt_ok s (V2P pgdir)" "has_pt s (V2P pgdir) a" using aspace_pt_ok as A by (auto simp: t_def)
  have ua: "upage a" using A by (simp add: has_pt_def)
  have "uva2ka s pgdir a = Inr (P2V (PTE_ADDR e))"
    using uva2ka_eq [OF ok] e by (auto simp: t_def user_entry_def)
  then have step: "dedup_step pgdir a2 a s =
    (if a > a2 then bnd (uva2ka s1 pgdir (a - PGSIZE)) (\<lambda>k. if k = 0 then Inr s1
       else bnd (frames_are_identical s1 (V2P k) (V2P (P2V (PTE_ADDR e)))) (\<lambda>same.
         if same then merge_frames s1 pgdir a (P2V (PTE_ADDR e)) k else Inr s1))
     else Inr s1)"
    using user_entry_frame [OF as ua e] unfolding s1_def by (simp add: dedup_step_def update_checksum_ok)
  show ?thesis
  proof (cases "a > a2 \<and> (\<exists>e1. user_entry (phys s) t (a - PGSIZE) e1)")
    case False
    then have "dedup_step pgdir a2 a s = Inr s1"
      using step uva2ka_eq [of s1 pgdir "a - PGSIZE"] ok B by (auto simp: t_def s1_def)
    then show ?thesis using skip False by blast
  next
    case True
    then obtain e1 where e1: "user_entry (phys s) t (a - PGSIZE) e1" and lt: "a > a2" by blast
    have ub: "upage (a - PGSIZE)" using B [OF lt] by (simp add: has_pt_def)
    have u2: "uva2ka s1 pgdir (a - PGSIZE) = Inr (P2V (PTE_ADDR e1))"
      using uva2ka_eq [of s1 pgdir "a - PGSIZE"] ok B [OF lt] e1 by (auto simp: t_def s1_def user_entry_def)
    obtain same where same: "frames_are_identical s1 (PTE_ADDR e1) (PTE_ADDR e) = Inr same"
      using frames_are_identical_total [OF user_entry_frame(3) [OF as ub e1] user_entry_frame(3) [OF as ua e]] by blast
    have uniq: "e1' = e1" if "user_entry (phys s) t (a - PGSIZE) e1'" for e1'
      using that e1 by (simp add: user_entry_def)
    show ?thesis
    proof (cases same)
      case True
      then show ?thesis using merge [OF lt e1] same step lt u2 user_entry_frame(2) [OF as ub e1] by simp
    next
      case False
      then show ?thesis using skip same uniq step lt u2 user_entry_frame(2) [OF as ub e1] by fastforce
    qed
  qed
qed

lemma page_split:
  assumes "pg_aligned u" and "k < PGSIZE"
  shows "(u + k) AND 0xFFF = k" "PGROUNDDOWN (u + k) = u"
proof -
  show p: "PGROUNDDOWN (u + k) = u" by (rule page_offset [OF assms])
  have "u + k = PGROUNDDOWN (u + k) + ((u + k) AND 0xFFF)"
    using and_not_4095_plus [of "u + k"] by (simp add: PGROUNDDOWN_def PGSIZE_def)
  then show "(u + k) AND 0xFFF = k" using p by simp
qed

lemma unat_page_offset:
  assumes "upage u" and "k < PGSIZE"
  shows "unat (u + k) < 2 ^ 47"
proof -
  obtain j where j: "unat u = 4096 * j" using assms(1) pg_aligned_unat by (auto simp: upage_def dvd_def)
  then have "j < 2 ^ 35" using assms(1) by (simp add: upage_def)
  then have "unat u + unat k < 2 ^ 47"
    using j assms(2) by (simp add: PGSIZE_def word_less_nat_alt)
  then show ?thesis by (simp add: unat_add_no_wrap)
qed

lemma user_byte_at:
  assumes "upage u" and "k < PGSIZE"
  shows "user_byte m t (u + k) = (if \<exists>e. user_entry m t u e then Some (m (PTE_ADDR (the (pte_of m t u)) + k)) else None)"
proof -
  have "pte_of m t (u + k) = pte_of m t u"
    using page_split(2) [of u k] assms pte_of_PGROUNDDOWN [of m t "u + k"] by (simp add: upage_def)
  then show ?thesis
    using page_split(1) [of u k] assms by (auto simp: user_byte_def user_entry_def upage_def split: option.split)
qed

lemma same_view_entry:
  assumes "same_view m m' t" and "upage u"
  shows "(\<exists>e. user_entry m' t u e) \<longleftrightarrow> (\<exists>e. user_entry m t u e)"
    and "user_entry m t u e \<Longrightarrow> user_entry m' t u e' \<Longrightarrow> k < PGSIZE \<Longrightarrow> m' (PTE_ADDR e' + k) = m (PTE_ADDR e + k)"
proof -
  have eq: "user_byte m' t (u + k) = user_byte m t (u + k)" if "k < PGSIZE" for k
    using assms unat_page_offset [OF assms(2) that] by (simp add: same_view_def)
  show "(\<exists>e. user_entry m' t u e) \<longleftrightarrow> (\<exists>e. user_entry m t u e)"
    using eq [of 0] user_byte_at [OF assms(2), of 0] by (auto simp: PGSIZE_def split: if_splits)
  show "user_entry m t u e \<Longrightarrow> user_entry m' t u e' \<Longrightarrow> k < PGSIZE \<Longrightarrow> m' (PTE_ADDR e' + k) = m (PTE_ADDR e + k)"
    using eq [of k] by (auto simp: user_byte_at [OF assms(2)] user_entry_def)
qed

lemma page_eq_bytes: "page_eq m a b \<longleftrightarrow> (\<forall>k<PGSIZE. m (a + k) = m (b + k))"
proof
  assume r: "\<forall>k<PGSIZE. m (a + k) = m (b + k)"
  show "page_eq m a b"
    unfolding page_eq_def
  proof (intro allI impI)
    fix k :: nat assume "k < 4096"
    then have "(of_nat k :: u64) < PGSIZE" by (simp add: PGSIZE_def word_less_nat_alt unat_of_nat)
    then show "m (a + of_nat k) = m (b + of_nat k)" using r by blast
  qed
qed (simp add: page_eq_byte)

lemma twin_same_view:
  assumes "same_view m m' t" and "upage u" and "upage v"
  shows "twin m' t u v \<longleftrightarrow> twin m t u v"
proof -
  have "(\<exists>e e'. user_entry m' t u e \<and> user_entry m' t v e') \<longleftrightarrow> (\<exists>e e'. user_entry m t u e \<and> user_entry m t v e')"
    using same_view_entry(1) [OF assms(1,2)] same_view_entry(1) [OF assms(1,3)] by blast
  moreover have "page_eq m' (PTE_ADDR e1') (PTE_ADDR e2') = page_eq m (PTE_ADDR e1) (PTE_ADDR e2)"
    if "user_entry m' t u e1'" "user_entry m t u e1" "user_entry m' t v e2'" "user_entry m t v e2" for e1 e2 e1' e2'
    using same_view_entry(2) [OF assms(1,2) that(2,1)] same_view_entry(2) [OF assms(1,3) that(4,3)]
    by (simp add: page_eq_bytes)
  ultimately show ?thesis unfolding twin_def by metis
qed

lemma frame_ix_frame:
  assumes "frame_ok s L t f" and "frame_ok s L' t' g"
  shows "frame_ix f = frame_ix g \<longleftrightarrow> f = g"
  using frame_ix_V2P_inject [of "kend s" "P2V f" "P2V g"] assms
  by (auto simp: frame_ok_def kernel_page_def P2V_def V2P_def)

lemma fresh_cong:
  assumes "fresh s f" and "checksum (finfo s' (frame_ix g)) = checksum (finfo s (frame_ix f))"
    and "\<And>k. k < PGSIZE \<Longrightarrow> phys s' (g + k) = phys s (f + k)"
  shows "fresh s' g"
proof -
  have "checksum_loop (phys s') g 512 0 = checksum_loop (phys s) f 512 0"
    by (rule checksum_loop_cong) (use assms(3) in \<open>auto simp: PGSIZE_def word_less_nat_alt unat_of_nat\<close>)
  then show ?thesis using assms(1,2) by (simp add: fresh_def)
qed

lemma dedup_step_ok:
  fixes pgdir s
  defines "t \<equiv> V2P pgdir"
  assumes as: "aspace s L t ext" and A: "has_pt s t a" and B: "a > a2 \<Longrightarrow> has_pt s t (a - PGSIZE)"
    and few: "\<And>f. card (mapped (phys s) t) + ext f < 2 ^ 32"
    and fr: "\<And>e1. a > a2 \<Longrightarrow> user_entry (phys s) t (a - PGSIZE) e1 \<Longrightarrow> fresh s (PTE_ADDR e1)"
  shows "\<exists>s' L'. dedup_step pgdir a2 a s = Inr s' \<and> aspace s' L' t ext \<and> keeps s s' t
    \<and> (\<forall>u. upage u \<longrightarrow> u \<noteq> a \<longrightarrow> ages (phys s) (phys s') t u)
    \<and> (\<forall>e. user_entry (phys s') t a e \<longrightarrow> fresh s' (PTE_ADDR e))
    \<and> (a > a2 \<longrightarrow> twin (phys s) t (a - PGSIZE) a \<longrightarrow> share (phys s') t (a - PGSIZE) a)"
proof (cases "\<exists>e. user_entry (phys s) t a e")
  case False
  then have "dedup_step pgdir a2 a s = Inr s"
    using uva2ka_eq [of s pgdir a] aspace_pt_ok as A by (auto simp: t_def dedup_step_def)
  then show ?thesis using as False by (auto simp: twin_def)
next
  case True
  then obtain e where e: "user_entry (phys s) t a e" by blast
  have ua: "upage a" using A by (simp add: has_pt_def)
  let ?s1 = "set_checksum s (frame_ix (PTE_ADDR e)) (checksum_loop (phys s) (PTE_ADDR e) 512 0)"
  have fe: "fresh ?s1 (PTE_ADDR e)" by (simp add: fresh_def set_checksum_def)
  have f1: "fresh ?s1 (PTE_ADDR e1)" if "a > a2" "user_entry (phys s) t (a - PGSIZE) e1" for e1
    using fr [OF that] fe frame_ix_frame [OF user_entry_frame(1) [OF as ua e]
        user_entry_frame(1) [OF as _ that(2)]] B [OF that(1)]
    by (cases "frame_ix (PTE_ADDR e1) = frame_ix (PTE_ADDR e)") (auto simp: fresh_def set_checksum_def has_pt_def)
  show ?thesis
  proof (rule dedup_step_cases [OF as [unfolded t_def] A [unfolded t_def] B [unfolded t_def] e [unfolded t_def]], assumption, goal_cases)
    case 1
    have "\<not> twin (phys s) t (a - PGSIZE) a" if lt: "a > a2"
    proof
      assume "twin (phys s) t (a - PGSIZE) a"
      then obtain e1 where e1: "user_entry (phys s) t (a - PGSIZE) e1" "page_eq (phys s) (PTE_ADDR e1) (PTE_ADDR e)"
        using e by (auto simp: twin_def user_entry_def)
      then have "frames_are_identical ?s1 (PTE_ADDR e1) (PTE_ADDR e) = Inr True"
        using frames_are_identical_fresh [of "PTE_ADDR e1" "PTE_ADDR e" ?s1] f1 [OF lt e1(1)] fe
          user_entry_frame(3) [OF as _ e1(1)] user_entry_frame(3) [OF as ua e] B [OF lt]
        by (simp add: fresh_def has_pt_def)
      then show False using 1(2) [OF lt e1(1) [unfolded t_def]] by simp
    qed
    then show ?case using 1(1) as fe e by (auto simp: user_entry_def)
  next
    case (2 e1)
    have e1: "user_entry (phys s) t (a - PGSIZE) e1" using 2(2) by (simp add: t_def)
    note mf = merge_frames_aspace [where s = ?s1 and pgdir = pgdir and addr = a and L = L and ext = ext and ?e1.0 = e1 and ?e2.0 = e, folded t_def]
    obtain s' L' where s': "merge_frames ?s1 pgdir a (P2V (PTE_ADDR e)) (P2V (PTE_ADDR e1)) = Inr s'"
      "aspace s' L' t ext" "keeps s s' t"
      and pte: "\<And>u. upage u \<Longrightarrow> pte_of (phys s') t u
        = (if u = a \<or> u = a - PGSIZE then Some (shared_entry e1) else pte_of (phys s) t u)"
      using mf as A B [OF 2(1)] e1 e few frames_are_identical_sound [OF 2(3)]
      by (auto simp: user_entry_def keeps_def)
    have ub: "upage (a - PGSIZE)" using B [OF 2(1)] by (simp add: has_pt_def)
    have ue: "user_entry (phys s') t (a - PGSIZE) (shared_entry e1)"
      using e1 pte [OF ub] by (simp add: user_entry_def present_def shared_entry_facts)
    have "fresh s' (PTE_ADDR e1)"
      by (rule fresh_cong [OF f1 [OF 2(1) e1]])
        (use merge_frames_checksum [OF s'(1)] same_view_entry(2) [OF _ ub e1 ue] s'(3) in
          \<open>auto simp: keeps_def shared_entry_facts\<close>)
    then show ?case
      using 2(4) s' pte [OF ua] pte [OF ub] pte e1
      by (auto simp: user_entry_def shared_entry_facts ages_def share_def cow_entry_def)
  qed
qed

section \<open>dedup\<close>

lemma keeps_has_pt: "keeps s s' t \<Longrightarrow> has_pt s' t u \<longleftrightarrow> has_pt s t u"
  using upath_pathof_upage [of u] same_tblD [of "phys s" "phys s'" t "pathof u"]
  by (cases "upage u") (simp_all add: keeps_def has_pt_def)

lemma unat_next_page:
  assumes "b < b + PGSIZE"
  shows "unat (b + PGSIZE) = unat b + 4096"
proof (cases "unat b + 4096 < 2 ^ 64")
  case True
  then show ?thesis by (simp add: unat_add_no_wrap PGSIZE_def)
next
  case False
  then have "(unat b + 4096) mod 2 ^ 64 = unat b + 4096 - 2 ^ 64"
    using unat_u64_less [of b] by (subst le_mod_geq) simp_all
  then have "unat (b + PGSIZE) < unat b"
    using unat_u64_less [of b] False by (simp add: unat_word_ariths PGSIZE_def)
  then show ?thesis using assms by (simp add: word_less_nat_alt)
qed

lemma aligned_next:
  fixes u a :: u64
  assumes "pg_aligned u" and "pg_aligned a" and "u < a + PGSIZE" and "a \<le> u" and "a < a + PGSIZE"
  shows "u = a"
proof -
  have "u - a < PGSIZE"
    using assms(3,4) unat_next_page [OF assms(5)]
    by (simp add: word_less_nat_alt word_le_nat_alt unat_sub) (simp add: PGSIZE_def)
  then show ?thesis
    using page_split(2) [OF assms(2), of "u - a"] assms(1) by simp
qed

lemma page_before:
  fixes u b :: u64
  assumes "upage u" and "pg_aligned b" and "b + PGSIZE < u" and "b < b + PGSIZE"
  shows "upage (u - PGSIZE)" "b \<le> u - PGSIZE" "u - PGSIZE < u"
proof -
  have k: "unat b + 4096 < unat u"
    using assms(3) unat_next_page [OF assms(4)] by (simp add: word_less_nat_alt)
  then have k2: "unat (u - PGSIZE) = unat u - 4096"
    by (subst unat_sub) (simp_all add: PGSIZE_def word_le_nat_alt)
  from k2 show "upage (u - PGSIZE)" "b \<le> u - PGSIZE" "u - PGSIZE < u"
    using k assms(1) by (auto simp: upage_def word_le_nat_alt word_less_nat_alt intro: pg_aligned_diff)
qed

text \<open>
  The loop from page \<open>a\<close> on: the pages between \<open>b + PGSIZE\<close> and \<open>a\<close> whose contents equal
  their predecessor's already share a frame with it, and the checksum of the last page
  visited is up to date.
\<close>

lemma dedup_loop:
  fixes pgdir
  defines "t \<equiv> V2P pgdir"
  assumes b: "pg_aligned b" "b < b + PGSIZE"
  shows "unat lim \<le> 2 ^ 47 \<Longrightarrow> aspace s L t ext \<Longrightarrow> pg_aligned a \<Longrightarrow> b \<le> a
    \<Longrightarrow> (\<And>u. upage u \<Longrightarrow> b \<le> u \<Longrightarrow> u < lim \<Longrightarrow> has_pt s t u)
    \<Longrightarrow> (\<And>f. card (mapped (phys s) t) + ext f < 2 ^ 32)
    \<Longrightarrow> (\<And>e. b < a \<Longrightarrow> user_entry (phys s) t (a - PGSIZE) e \<Longrightarrow> fresh s (PTE_ADDR e))
    \<Longrightarrow> (\<And>u. upage u \<Longrightarrow> b + PGSIZE < u \<Longrightarrow> u < a \<Longrightarrow> u < lim \<Longrightarrow> twin (phys s) t (u - PGSIZE) u
          \<Longrightarrow> share (phys s) t (u - PGSIZE) u)
    \<Longrightarrow> \<exists>s' L'. for_each (pages_upto a lim) (dedup_step pgdir (b + PGSIZE)) s = Inr s' \<and> aspace s' L' t ext
      \<and> keeps s s' t
      \<and> (\<forall>u. upage u \<longrightarrow> b + PGSIZE < u \<longrightarrow> u < lim \<longrightarrow> twin (phys s') t (u - PGSIZE) u
            \<longrightarrow> share (phys s') t (u - PGSIZE) u)"
proof (induction a lim arbitrary: s L rule: pages_upto.induct)
  case (1 a lim)
  note lim = 1(2) and as = 1(3) and al = 1(4) and ba = 1(5) and pts = 1(6) and few = 1(7)
    and fr = 1(8) and sh = 1(9)
  show ?case
  proof (cases "a < lim \<and> a < a + PGSIZE")
    case False
    have "lim \<le> a"
    proof (rule ccontr)
      assume "\<not> lim \<le> a"
      then have "unat a < 2 ^ 47" using lim by (simp add: word_le_nat_alt)
      then have "a < a + PGSIZE" by (simp add: PGSIZE_def word_less_nat_alt unat_add_no_wrap)
      then show False using False \<open>\<not> lim \<le> a\<close> by simp
    qed
    then show ?thesis using as sh by (fastforce simp: pages_upto.simps [of a lim])
  next
    case True
    then have ua: "upage a" using al lim by (auto simp: upage_def word_less_nat_alt)
    have hp: "has_pt s t a" using pts [OF ua ba] True by simp
    have hb: "has_pt s t (a - PGSIZE)" "b < a" if "b + PGSIZE < a"
      using pts page_before [OF ua b(1) that b(2)] True b(2) that by auto
    obtain s1 L1 where s1: "dedup_step pgdir (b + PGSIZE) a s = Inr s1" "aspace s1 L1 t ext" "keeps s s1 t"
      and ag: "\<And>u. upage u \<Longrightarrow> u \<noteq> a \<Longrightarrow> ages (phys s) (phys s1) t u"
      and f1: "\<And>e. user_entry (phys s1) t a e \<Longrightarrow> fresh s1 (PTE_ADDR e)"
      and sh1: "b + PGSIZE < a \<Longrightarrow> twin (phys s) t (a - PGSIZE) a \<Longrightarrow> share (phys s1) t (a - PGSIZE) a"
      using dedup_step_ok [of s L pgdir ext a "b + PGSIZE", folded t_def] as hp hb few fr by blast
    have share1: "share (phys s1) t (u - PGSIZE) u"
      if u: "upage u" "b + PGSIZE < u" "u < a + PGSIZE" "u < lim" and tw: "twin (phys s1) t (u - PGSIZE) u" for u
    proof -
      note pb = page_before [OF u(1) b(1) u(2) b(2)]
      have tw0: "twin (phys s) t (u - PGSIZE) u"
        using twin_same_view [OF _ pb(1) u(1)] s1(3) tw by (auto simp: keeps_def)
      show ?thesis
      proof (cases "a \<le> u")
        case True
        then have "u = a" using aligned_next [of u a] u al \<open>a < lim \<and> a < a + PGSIZE\<close> by (simp add: upage_def)
        then show ?thesis using sh1 tw0 u by simp
      next
        case False
        then show ?thesis
          using ages_share [OF ag ag sh [OF u(1,2) _ u(4) tw0]] pb u(1) by auto
      qed
    qed
    have "b \<le> a + PGSIZE" "b < a + PGSIZE" "pg_aligned (a + PGSIZE)"
      using ba True al by (auto intro: pg_aligned_add)
    then have "\<exists>s' L'. for_each (pages_upto (a + PGSIZE) lim) (dedup_step pgdir (b + PGSIZE)) s1 = Inr s'
      \<and> aspace s' L' t ext \<and> keeps s1 s' t
      \<and> (\<forall>u. upage u \<longrightarrow> b + PGSIZE < u \<longrightarrow> u < lim \<longrightarrow> twin (phys s') t (u - PGSIZE) u
            \<longrightarrow> share (phys s') t (u - PGSIZE) u)"
      using True lim s1 pts few f1 share1 keeps_has_pt [OF s1(3)]
      by (intro 1(1)) (auto simp: keeps_def)
    then show ?thesis
      using s1 True keeps_trans [OF s1(3)] by (auto simp: pages_upto.simps [of a lim])
  qed
qed

section \<open>copyonwrite\<close>

lemma sim_self: "sim s0 t s L E R D \<Longrightarrow> sim s t s L E R {}"
  using simD(5) [of s0 t s L E R D] by (auto simp: sim_def same_tbl_def)

lemma sim_trans:
  assumes "sim s0 t s L E R D" and "sim s t s' L' E' R' D'"
  shows "sim s0 t s' L' E' R' (D \<union> D')"
proof -
  note f = simD [OF assms(1)] and g = simD [OF assms(2)]
  show ?thesis
    using f g same_tbl_trans [OF f(4) g(4)] by (simp add: sim_def)
qed

lemma sim_alloc:
  assumes "sim s0 t s (v # L) E R D"
  shows "\<exists>s'. kalloc s = Inr (v, s') \<and> sim s0 t s' L E (R(v := 1)) D \<and> phys s' = phys s"
proof -
  note f = simD [OF assms]
  obtain s' where s': "kalloc s = Inr (v, s')" "kmem_inv s' L" "page_refs s' v = 1" "kernel_page s' = kernel_page s"
    "\<And>u. kernel_page s u \<Longrightarrow> u \<noteq> v \<Longrightarrow> page_refs s' u = page_refs s u" "\<And>u. page_byte s' u = page_byte s u"
    using kpages.alloc_spec [OF f(2)] by auto
  have ph: "phys s' x = phys s x" for x
    using s'(6) [of "P2V x"] by (auto simp: page_byte_def fun_eq_iff dest: spec [of _ 0])
  then have "sim s0 t s' L E (R(v := 1)) (D \<union> {})"
    by (intro sim_outside [OF assms s'(2,4)]) (use s' f in auto)
  then show ?thesis using s'(1) ph by auto
qed

lemma sim_write_page:
  assumes "sim s0 t s L E R D" and "pg_aligned g" and "g \<notin> tables (phys s0) t" and "P2V g \<notin> set L"
    and "\<And>x. PGROUNDDOWN x \<noteq> g \<Longrightarrow> m' x = phys s x"
  shows "sim s0 t (s\<lparr>phys := m'\<rparr>) L E R (insert g D)"
proof -
  note f = simD [OF assms(1)]
  have "flist m' (freelist s) L = flist (phys s) (freelist s) L"
  proof (rule flist_cong)
    fix a assume a: "a \<in> set L"
    then have al: "pg_aligned (V2P a)" using f(2) by (auto simp: kmem_inv_def valid_page_def)
    have "V2P a \<noteq> g" using a assms(4) by auto
    then have "load64 m' (slot (V2P a) 0) = load64 (phys s) (slot (V2P a) 0)"
      by (intro load64_same_page al) (simp_all add: assms(5))
    then show "load64 m' (V2P a) = load64 (phys s) (V2P a)" by (simp add: slot_def)
  qed
  then have "kmem_inv (s\<lparr>phys := m'\<rparr>) L" using f(2) by (simp add: kmem_inv_def)
  then have "sim s0 t (s\<lparr>phys := m'\<rparr>) L E R (D \<union> {g})"
    by (rule sim_outside [OF assms(1)])
      (use f assms in \<open>auto simp: kernel_page_def page_refs_def fun_eq_iff\<close>)
  then show ?thesis by simp
qed

text \<open>The entry of the private copy.\<close>

definition private_entry :: "u64 \<Rightarrow> u64" where
  "private_entry v = V2P v OR PTE_P OR PTE_U OR PTE_W"

lemma private_entry_facts:
  assumes "pg_aligned v"
  shows "PTE_ADDR (private_entry v) = V2P v" "present (private_entry v)" "private_entry v AND PTE_U \<noteq> 0"
    "private_entry v AND PTE_W \<noteq> 0" "private_entry v AND PTE_COW = 0"
proof -
  have fl: "private_entry v = V2P v OR 7" by (simp add: private_entry_def PTE_P_def PTE_U_def PTE_W_def)
  show "PTE_ADDR (private_entry v) = V2P v" unfolding fl using assms by (intro PTE_ADDR_or) simp_all
  have lo: "private_entry v AND b = 7 AND b" if "b AND 4095 = b" for b
  proof -
    have "V2P v AND b = (V2P v AND 4095) AND b" using that by (metis and.assoc and.commute)
    then show ?thesis
      using assms pg_aligned_and_mask [of "V2P v"] by (simp add: fl bit.conj_disj_distrib2)
  qed
  show "present (private_entry v)" "private_entry v AND PTE_U \<noteq> 0"
    "private_entry v AND PTE_W \<noteq> 0" "private_entry v AND PTE_COW = 0"
    by (simp_all add: present_def lo PTE_P_def PTE_U_def PTE_W_def PTE_COW_def)
qed

lemma memmove_page:
  assumes "V2P v < PHYSTOP" and "f < PHYSTOP"
  shows "memmove m (V2P v) f (ucast PGSIZE) = copy_bytes m (V2P v) f PGSIZE"
  using assms memmove_copy_bytes [of "V2P v" "ucast PGSIZE" f m]
  by (simp add: PGSIZE_def PHYSTOP_def word_less_nat_alt)

lemma copyonwrite_run:
  fixes pgdir s va
  defines "t \<equiv> V2P pgdir" and "u \<equiv> PGROUNDDOWN va"
  assumes as: "aspace s (v # L) t ext" and hp: "has_pt s t u"
    and e: "user_entry (phys s) t u e" and cow: "e AND PTE_COW \<noteq> 0"
    and n: "page_refs s (P2V (PTE_ADDR e)) = Suc n"
  shows "\<exists>s'. copyonwrite s pgdir va = Inr (1, s')
    \<and> sim s t s' (if n = 0 then P2V (PTE_ADDR e) # L else L) ((pte_of (phys s) t)(u \<mapsto> private_entry v))
        ((page_refs s)(v := 1, P2V (PTE_ADDR e) := n)) (insert (V2P v) (if n = 0 then {PTE_ADDR e} else {}))
    \<and> (\<forall>k<PGSIZE. phys s' (V2P v + k) = phys s (PTE_ADDR e + k))"
proof -
  let ?f = "PTE_ADDR e"
  have up: "upage u" using hp by (simp add: has_pt_def)
  note fr = user_entry_frame [OF as up e] and s0 = sim_refl [OF as]
  have kv: "kernel_page s v" "pg_aligned v" "v \<notin> set L" "v \<noteq> 0"
    using as kernel_page_nonnull [of s "v # L" v]
    by (auto simp: aspace_def kmem_inv_def kernel_page_def valid_page_def)
  have "P2V ?f \<noteq> v" "\<And>x. x \<in> tables (phys s) t \<Longrightarrow> P2V x \<noteq> v"
    using as fr(1) by (auto simp: aspace_def frame_ok_def)
  then have vf: "V2P v \<noteq> ?f" "V2P v \<notin> tables (phys s) t" by (metis P2V_V2P)+
  obtain s1 where s1: "kalloc s = Inr (v, s1)" "sim s t s1 L (pte_of (phys s) t) ((page_refs s)(v := 1)) {}" "phys s1 = phys s"
    using sim_alloc [OF s0] by blast
  let ?m = "memmove (phys s1) (V2P v) (V2P (P2V ?f)) (ucast PGSIZE)"
  let ?s2 = "s1\<lparr>phys := ?m\<rparr>"
  have mm: "?m = copy_bytes (phys s) (V2P v) ?f PGSIZE"
    using memmove_page [of v ?f] kv(1,2) fr(1) by (simp add: s1(3) frame_ok_def kernel_page_def valid_page_def)
  have cp: "?m x = phys s1 x" if "PGROUNDDOWN x \<noteq> V2P v" for x
    using in_range_page [of "V2P v" x] kv(2) that unfolding mm by (simp add: copy_bytes_def s1(3))
  have s2: "sim s t ?s2 L (pte_of (phys s) t) ((page_refs s)(v := 1)) {V2P v}"
    using sim_write_page [OF s1(2), of "V2P v"] kv vf cp by simp
  note hp2 = sim_ptr [OF s2 hp]
  obtain s3 where s3: "set_pte ?s2 (pte_ptr s t u) (private_entry v) = Inr s3"
    "sim ?s2 t s3 L ((pte_of (phys s) t)(u \<mapsto> private_entry v)) ((page_refs s)(v := 1)) {}"
    using sim_set [OF sim_self [OF s2] hp2(1)] hp2(2) by auto
  obtain s4 where s4: "krelease s3 (P2V ?f) = Inr s4"
    "sim ?s2 t s4 (if n = 0 then P2V ?f # L else L) ((pte_of (phys s) t)(u \<mapsto> private_entry v))
      ((page_refs s)(v := 1, P2V ?f := n)) (if n = 0 then {?f} else {})"
    using sim_release [OF s3(2), of ?f n] fr(1) n vf simD(3,5) [OF s2] by (auto simp: frame_ok_def)
  have "phys s4 (V2P v + k) = phys s (?f + k)" if "k < PGSIZE" for k
  proof -
    have "phys s4 (V2P v + k) = ?m (V2P v + k)"
      using simD(9) [OF s4(2), of "V2P v + k"] page_offset [of "V2P v" k] kv vf that simD(3,5) [OF s2] by simp
    then show ?thesis using that unfolding mm by (simp add: copy_bytes_def in_range_def)
  qed
  moreover have "copyonwrite s pgdir va = Inr (1, s4)"
    using uva2ka_eq [of s pgdir u] walk_ptr [of s pgdir u] aspace_pt_ok [OF as] hp e fr(2) cow
      sim_get [OF s0 hp] s1(1) s3(1) s4(1) kv(4)
    by (auto simp: copyonwrite_def u_def [symmetric] t_def [symmetric] user_entry_def private_entry_def or.assoc)
  ultimately show ?thesis using s4(1) sim_trans [OF s2 s4(2)] by auto
qed

lemma cow_mappers:
  assumes E': "\<And>w. upage w \<Longrightarrow> pte_of m' t w = (if w = u then Some (private_entry v) else pte_of m t w)"
    and v: "pg_aligned v" and u: "upage u" and un: "mappers m t (V2P v) = {}"
  shows "mappers m' t g = (if g = V2P v then {u} else mappers m t g - {u})"
proof (cases "g = V2P v")
  case True
  then show ?thesis
    using un u private_entry_facts [OF v] by (auto simp: mappers_def E' split: if_splits)
next
  case False
  then show ?thesis
    using u private_entry_facts [OF v] by (auto simp: mappers_def E' split: if_splits)
qed

lemma free_unmapped:
  assumes "aspace s L t ext" and "v \<in> set L"
  shows "mappers (phys s) t (V2P v) = {}" "V2P v \<notin> tables (phys s) t" "kernel_page s v" "pg_aligned v"
proof -
  have "P2V f \<notin> set L" if "w \<in> mappers (phys s) t f" for w f
    using aspace_count(2) [OF assms(1) that] by (simp add: frame_ok_def)
  then show "mappers (phys s) t (V2P v) = {}" using assms(2) by fastforce
  show "V2P v \<notin> tables (phys s) t" using assms by (auto simp: aspace_def)
  show "kernel_page s v" "pg_aligned v"
    using assms by (auto simp: aspace_def kmem_inv_def kernel_page_def valid_page_def)
qed

lemma cow_live_count:
  assumes as: "aspace s (v # L) t ext" and u: "upage u" "pte_of (phys s) t u = Some e" "present e"
    and n: "page_refs s (P2V (PTE_ADDR e)) = Suc n" and x: "ext (V2P v) = 0"
    and sm: "sim s t s' (if n = 0 then P2V (PTE_ADDR e) # L else L) ((pte_of (phys s) t)(u \<mapsto> private_entry v))
        ((page_refs s)(v := 1, P2V (PTE_ADDR e) := n)) (insert (V2P v) (if n = 0 then {PTE_ADDR e} else {}))"
    and w: "w \<in> mappers (phys s') t g"
  shows "frame_ok s' (if n = 0 then P2V (PTE_ADDR e) # L else L) t g"
    and "page_refs s' (P2V g) = card (mappers (phys s') t g) + ext g"
    and "g \<noteq> V2P v \<Longrightarrow> frame_ok s (v # L) t g \<and> (g = PTE_ADDR e \<longrightarrow> n \<noteq> 0)"
proof -
  let ?f = "PTE_ADDR e"
  note f = simD [OF sm] and fv = free_unmapped [OF as, of v]
  have mu: "u \<in> mappers (phys s) t ?f" using u by (auto simp: mappers_def)
  have dl: "v \<notin> set L" using as by (simp add: aspace_def kmem_inv_def)
  have mp: "mappers (phys s') t g = (if g = V2P v then {u} else mappers (phys s) t g - {u})"
    by (rule cow_mappers) (use f(7) fv u in auto)
  have fe: "P2V ?f \<noteq> v" using aspace_count(2) [OF as mu] by (auto simp: frame_ok_def)
  have "g \<noteq> V2P v \<Longrightarrow> w \<in> mappers (phys s) t g \<and> w \<noteq> u" using w mp by auto
  moreover have "?f \<noteq> V2P v" using fe by auto
  moreover have "n \<noteq> 0" if "w \<in> mappers (phys s) t ?f" "w \<noteq> u"
    using merge_frame_live [OF as mu that(1) _ n that(1,2)] that by auto
  ultimately show old: "g \<noteq> V2P v \<Longrightarrow> frame_ok s (v # L) t g \<and> (g = ?f \<longrightarrow> n \<noteq> 0)"
    using aspace_count(2) [OF as, of w g] by auto
  show fr: "frame_ok s' (if n = 0 then P2V ?f # L else L) t g"
  proof (cases "g = V2P v")
    case True
    then show ?thesis using fv dl fe f(3,5) by (auto simp: frame_ok_def)
  next
    case False
    then show ?thesis using old f(3,5) by (auto simp: frame_ok_def P2V_def)
  qed
  then have "page_refs s' (P2V g) = ((page_refs s)(v := 1, P2V ?f := n)) (P2V g)"
    using f(3,8) by (simp add: frame_ok_def)
  moreover have "u \<in> mappers (phys s) t g \<longleftrightarrow> g = ?f" using u by (auto simp: mappers_def)
  moreover have "P2V g = v \<longleftrightarrow> g = V2P v" by auto
  moreover have "P2V g = P2V ?f \<longleftrightarrow> g = ?f" by (simp add: P2V_def)
  moreover have "page_refs s (P2V g) = card (mappers (phys s) t g) + ext g" if "g \<noteq> V2P v"
    using aspace_count(1) [OF as, of w g] w mp that by auto
  ultimately show "page_refs s' (P2V g) = card (mappers (phys s') t g) + ext g"
    using n x fe aspace_count(3) [OF as mu] unfolding mp
    by (cases "g = V2P v") (auto simp: card_Diff_singleton_if)
qed

lemma copyonwrite_aspace:
  fixes pgdir s va
  defines "t \<equiv> V2P pgdir" and "u \<equiv> PGROUNDDOWN va"
  assumes as: "aspace s (v # L) t ext" and hp: "has_pt s t u"
    and e: "user_entry (phys s) t u e" and cow: "e AND PTE_COW \<noteq> 0" and x: "ext (V2P v) = 0"
  shows "\<exists>s' L'. copyonwrite s pgdir va = Inr (1, s') \<and> aspace s' L' t ext \<and> same_view (phys s) (phys s') t
    \<and> (\<forall>w. upage w \<longrightarrow> pte_of (phys s') t w = (if w = u then Some (private_entry v) else pte_of (phys s) t w))
    \<and> mappers (phys s') t (V2P v) = {u}
    \<and> page_refs s' v = 1 \<and> page_refs s' (P2V (PTE_ADDR e)) = page_refs s (P2V (PTE_ADDR e)) - 1"
proof -
  let ?f = "PTE_ADDR e"
  have u: "upage u" using hp by (simp add: has_pt_def)
  have ue: "pte_of (phys s) t u = Some e" "present e" using e by (simp_all add: user_entry_def)
  have mu: "u \<in> mappers (phys s) t ?f" using ue u by (auto simp: mappers_def)
  obtain n where n: "page_refs s (P2V ?f) = Suc n"
    using aspace_count(1,3) [OF as mu] gr0_implies_Suc [of "page_refs s (P2V ?f)"] by auto
  let ?L = "if n = 0 then P2V ?f # L else L"
  obtain s' where s': "copyonwrite s pgdir va = Inr (1, s')"
    and sm: "sim s t s' ?L ((pte_of (phys s) t)(u \<mapsto> private_entry v))
        ((page_refs s)(v := 1, P2V ?f := n)) (insert (V2P v) (if n = 0 then {?f} else {}))"
    and cp: "\<And>k. k < PGSIZE \<Longrightarrow> phys s' (V2P v + k) = phys s (?f + k)"
    using copyonwrite_run [OF as [unfolded t_def] hp [unfolded t_def u_def] e [unfolded t_def u_def] cow n]
    unfolding t_def u_def by blast
  note f = simD [OF sm] and lv = cow_live_count [OF as u ue n x sm] and fv = free_unmapped [OF as, of v]
  have pte: "pte_of (phys s') t w = (if w = u then Some (private_entry v) else pte_of (phys s) t w)"
    if "upage w" for w using f(7) [OF that] by simp
  have "aspace s' ?L t ext"
    unfolding aspace_def
  proof (intro conjI allI impI ballI)
    fix w e' assume "upage w" "pte_of (phys s') t w = Some e'" "present e'"
    then have w: "w \<in> mappers (phys s') t (PTE_ADDR e')" by (auto simp: mappers_def)
    from lv(1,2) [OF w] show "frame_ok s' ?L t (PTE_ADDR e')"
      "page_refs s' (P2V (PTE_ADDR e')) = card (mappers (phys s') t (PTE_ADDR e')) + ext (PTE_ADDR e')" .
  qed (use f(1,2,5,6) in \<open>auto simp: pt_ok_def\<close>)
  moreover have "same_view (phys s) (phys s') t"
  proof (rule same_viewI)
    fix w e1 e2 assume w: "upage w" and e1: "pte_of (phys s) t w = Some e1" and e2: "pte_of (phys s') t w = Some e2"
    show "(present e2 \<longleftrightarrow> present e1) \<and> e2 AND PTE_U = e1 AND PTE_U
      \<and> (present e1 \<longrightarrow> (\<forall>k<PGSIZE. phys s' (PTE_ADDR e2 + k) = phys s (PTE_ADDR e1 + k)))"
    proof (cases "w = u")
      case True
      then show ?thesis
        using e1 e2 ue e pte [OF u] cp private_entry_facts(1-3) [of v] fv(4) U_flag [of e] U_flag [of "private_entry v"]
        by (simp add: user_entry_def)
    next
      case False
      have "phys s' (PTE_ADDR e1 + k) = phys s (PTE_ADDR e1 + k)" if "present e1" "k < PGSIZE" for k
      proof -
        have w': "w \<in> mappers (phys s') t (PTE_ADDR e1)"
          using w e1 pte [OF w] False that by (auto simp: mappers_def)
        have ne: "PTE_ADDR e1 \<noteq> V2P v"
          using w e1 that fv(1) by (auto simp: mappers_def)
        show ?thesis
          using lv(3) [OF w' ne] ne by (intro sim_frame_byte [OF sm, of "v # L"]) (auto simp: that)
      qed
      then show ?thesis using e1 e2 pte [OF w] False by simp
    qed
  qed (use pte ue in auto)
  moreover have "mappers (phys s') t (V2P v) = {u}"
    using cow_mappers [of "phys s'" t u v "phys s" "V2P v"] pte fv u by auto
  moreover have "page_refs s' v = 1" "page_refs s' (P2V ?f) = page_refs s (P2V ?f) - 1"
    using f(8) [of v] f(8) [of "P2V ?f"] fv n aspace_count(2) [OF as mu] by (auto simp: frame_ok_def)
  ultimately show ?thesis using s' pte by blast
qed

section \<open>A small address space\<close>

text \<open>
  One page table at physical \<open>0x103000\<close> under the PML4 at \<open>0x100000\<close>, three frames from
  \<open>0x104000\<close> on and one free page; used to exercise the theorems.
\<close>

definition demo_mem :: memory where
  "demo_mem = store64 (store64 (store64 (\<lambda>_. 0) (slot 0x100000 0) 0x101007) (slot 0x101000 0) 0x102007)
     (slot 0x102000 0) 0x103007"

definition demo :: "(nat \<Rightarrow> u32) \<Rightarrow> kmem" where
  "demo r = \<lparr>phys = demo_mem, freelist = P2V 0x107000, use_lock = True,
     finfo = (\<lambda>i. \<lparr>refs = r i, checksum = 0\<rparr>), kend = P2V 0x100000\<rparr>"

lemma demo_load:
  assumes "unat i < 512" and "pg_aligned t"
  shows "load64 demo_mem (slot t i) = (if i = 0 \<and> t \<in> {0x100000, 0x101000, 0x102000} then t + 0x1007 else 0)"
proof -
  have al: "pg_aligned 0x100000" "pg_aligned 0x101000" "pg_aligned 0x102000"
    by (simp_all add: pg_aligned_def PGSIZE_def)
  have st: "load64 (store64 m (slot x 0) v) (slot t i) = (if t = x \<and> i = 0 then v else load64 m (slot t i))"
    if "pg_aligned x" for m x v
    using load64_store64_slot [of 0 i m x v] load64_store64_page [OF that assms(2), of 0 i m v] assms(1)
    by (cases "x = t") auto
  have "load64 demo_mem (slot t i) = (if t = 0x102000 \<and> i = 0 then 0x103007
      else if t = 0x101000 \<and> i = 0 then 0x102007 else if t = 0x100000 \<and> i = 0 then 0x101007 else 0)"
    by (simp only: demo_mem_def st [OF al(1)] st [OF al(2)] st [OF al(3)] load64_zero)
  then show ?thesis
    by (cases "i = 0"; cases "t = 0x102000"; cases "t = 0x101000"; cases "t = 0x100000") simp_all
qed

lemma demo_next:
  assumes "unat i < 512" and "pg_aligned t"
  shows "next_tbl demo_mem t i = (if i = 0 \<and> t \<in> {0x100000, 0x101000, 0x102000} then Some (t + 0x1000) else None)"
  by (auto simp: next_tbl_def demo_load [OF assms] PTE_P_def PTE_ADDR_def)

lemma upath_length: "upath p \<Longrightarrow> length p \<in> {0, 1, 2, 3}"
  unfolding upath_def by (cases p; cases "tl p"; cases "tl (tl p)"; cases "tl (tl (tl p))") auto

lemma demo_tbl:
  assumes "upath p" and "tbl demo_mem 0x100000 p = Some x"
  shows "p = replicate (length p) 0 \<and> x = 0x100000 + 0x1000 * of_nat (length p)"
proof -
  have al: "pg_aligned 0x100000" "pg_aligned 0x101000" "pg_aligned 0x102000" "pg_aligned 0x103000"
    by (simp_all add: pg_aligned_def PGSIZE_def)
  consider "p = []" | i where "p = [i]" | i j where "p = [i, j]" | i j k where "p = [i, j, k]"
    using assms(1) by (cases p; cases "tl p"; cases "tl (tl p)"; cases "tl (tl (tl p))") (auto simp: upath_def)
  then show ?thesis
    by cases (use assms al in \<open>auto simp: upath_def demo_next split: if_splits\<close>)
qed

lemma demo_tables: "tables demo_mem 0x100000 \<subseteq> {0x100000, 0x101000, 0x102000, 0x103000}"
proof
  fix x assume "x \<in> tables demo_mem 0x100000"
  then obtain p where p: "upath p" "tbl demo_mem 0x100000 p = Some x" by (auto simp: tables_def)
  show "x \<in> {0x100000, 0x101000, 0x102000, 0x103000}" using demo_tbl [OF p] upath_length [OF p(1)] by auto
qed

lemma demo_inj: "pt_inj demo_mem 0x100000"
proof -
  have "p = q" if p: "upath p" "upath q" "tbl demo_mem 0x100000 p = Some x" "tbl demo_mem 0x100000 q = Some x" for p q x
  proof -
    have "(0x1000 :: u64) * of_nat (length p) = 0x1000 * of_nat (length q)"
      using demo_tbl [OF p(1,3)] demo_tbl [OF p(2,4)] by auto
    then have "length p = length q" using upath_length [OF p(1)] upath_length [OF p(2)] by auto
    then show ?thesis using demo_tbl [OF p(1,3)] demo_tbl [OF p(2,4)] by metis
  qed
  then show ?thesis by (auto simp: pt_inj_def pg_aligned_def PGSIZE_def)
qed

lemma demo_path:
  assumes "u \<in> {0, 0x1000, 0x2000}"
  shows "upage u" "has_pt (demo r) 0x100000 u"
proof -
  show "upage u" using assms by (auto simp: upage_def pg_aligned_def PGSIZE_def)
  moreover have "tbl demo_mem 0x100000 (pathof u) = Some 0x103000"
    using assms by (auto simp: pathof_def demo_next PMX_def PDPX_def PDX_def pg_aligned_def PGSIZE_def mmu_defs)
  ultimately show "has_pt (demo r) 0x100000 u" by (simp add: has_pt_def demo_def)
qed

lemma demo_facts [simp]:
  "phys (demo r) = demo_mem" "kernel_page (demo r) v \<longleftrightarrow> valid_page (P2V 0x100000) v"
  "page_refs (demo r) v = unat (r (frame_ix (V2P v)))"
  by (simp_all add: demo_def kernel_page_def page_refs_def)

lemma demo_page:
  assumes "x \<in> {0x100000, 0x101000, 0x102000, 0x103000, 0x104000, 0x105000, 0x106000, 0x107000}"
  shows "valid_page (P2V 0x100000) (P2V x)"
  using assms by (auto simp: valid_page_def pg_aligned_def PGSIZE_def P2V_def V2P_def KERNBASE_def PHYSTOP_def)

lemma demo_kmem_inv: "kmem_inv (demo r) [P2V 0x107000]"
proof -
  have "load64 demo_mem (slot 0x107000 0) = 0"
    by (subst demo_load) (simp_all add: pg_aligned_def PGSIZE_def)
  then show ?thesis
    using demo_page [of "0x107000"]
    by (simp add: kmem_inv_def demo_def slot_def P2V_def V2P_def KERNBASE_def)
qed

lemma demo_sim: "sim (demo r) 0x100000 (demo r) [P2V 0x107000] (pte_of demo_mem 0x100000) (page_refs (demo r)) {}"
  using demo_kmem_inv [of r] demo_inj demo_tables demo_page
  by (auto simp: sim_def pt_ok_def same_tbl_def demo_def [of r] kernel_page_def kmem_inv_def P2V_def)

lemma demo_absent:
  assumes "pte_of demo_mem 0x100000 u = Some e"
  shows "e = 0"
proof -
  obtain pt where pt: "tbl demo_mem 0x100000 (pathof u) = Some pt" and e: "e = load64 demo_mem (slot pt (PTX u))"
    using assms by (auto simp: pte_of_def pte_slot_def)
  have "pt = 0x103000"
    using pt by (auto simp: pathof_def demo_next pg_aligned_def PGSIZE_def px_bounds split: if_splits option.splits)
  then show ?thesis using e by (simp add: demo_load px_bounds pg_aligned_def PGSIZE_def)
qed

definition demo3 :: "(nat \<Rightarrow> u32) \<Rightarrow> u64 \<Rightarrow> u64 \<Rightarrow> u64 \<Rightarrow> kmem" where
  "demo3 r e0 e1 e2 = put_pte (put_pte (put_pte (demo r) 0x100000 0 e0) 0x100000 0x1000 e1) 0x100000 0x2000 e2"

lemma demo3_sim:
  "sim (demo r) 0x100000 (demo3 r e0 e1 e2) [P2V 0x107000]
     ((pte_of demo_mem 0x100000)(0 \<mapsto> e0, 0x1000 \<mapsto> e1, 0x2000 \<mapsto> e2)) (page_refs (demo r)) {}"
  unfolding demo3_def using demo_path(2) by (intro sim_put demo_sim) auto

lemma demo3_pte:
  assumes "upage u" and "pte_of (phys (demo3 r e0 e1 e2)) 0x100000 u = Some e" and "present e"
  shows "u = 0 \<and> e = e0 \<or> u = 0x1000 \<and> e = e1 \<or> u = 0x2000 \<and> e = e2"
  using assms simD(7) [OF demo3_sim assms(1), of r e0 e1 e2] demo_absent [of u e]
  by (auto simp: present_def split: if_splits)

lemma demo3_pte_eq:
  "pte_of (phys (demo3 r e0 e1 e2)) 0x100000 0 = Some e0"
  "pte_of (phys (demo3 r e0 e1 e2)) 0x100000 0x1000 = Some e1"
  "pte_of (phys (demo3 r e0 e1 e2)) 0x100000 0x2000 = Some e2"
  using simD(7) [OF demo3_sim demo_path(1), of 0 r e0 e1 e2] simD(7) [OF demo3_sim demo_path(1), of "0x1000" r e0 e1 e2]
    simD(7) [OF demo3_sim demo_path(1), of "0x2000" r e0 e1 e2] by simp_all

lemma demo3_mappers:
  assumes "present e0" and "present e1" and "present e2"
  shows "mappers (phys (demo3 r e0 e1 e2)) 0x100000 f
    = (if PTE_ADDR e0 = f then {0} else {}) \<union> (if PTE_ADDR e1 = f then {0x1000} else {})
      \<union> (if PTE_ADDR e2 = f then {0x2000} else {})" (is "?l = ?r")
proof
  show "?l \<subseteq> ?r" using demo3_pte [of _ r e0 e1 e2] by (fastforce simp: mappers_def)
  show "?r \<subseteq> ?l" using assms demo3_pte_eq [of r e0 e1 e2] demo_path(1) by (auto simp: mappers_def)
qed

lemma demo3_aspace:
  assumes "present e0" and "present e1" and "present e2"
    and fr: "{PTE_ADDR e0, PTE_ADDR e1, PTE_ADDR e2} \<subseteq> {0x104000, 0x105000, 0x106000}"
    and cnt: "\<And>f. f \<in> {PTE_ADDR e0, PTE_ADDR e1, PTE_ADDR e2} \<Longrightarrow> unat (r (frame_ix f))
      = (if PTE_ADDR e0 = f then 1 else 0) + (if PTE_ADDR e1 = f then 1 else 0) + (if PTE_ADDR e2 = f then 1 else 0)"
  shows "aspace (demo3 r e0 e1 e2) [P2V 0x107000] 0x100000 (\<lambda>_. 0)"
  unfolding aspace_def
proof (intro conjI allI impI ballI)
  let ?s = "demo3 r e0 e1 e2"
  note f = simD [OF demo3_sim [of r e0 e1 e2]]
  have tb: "tables (phys ?s) 0x100000 \<subseteq> {0x100000, 0x101000, 0x102000, 0x103000}"
    using f(5) demo_tables by simp
  show "kmem_inv ?s [P2V 0x107000]" "pt_inj (phys ?s) 0x100000"
    using f(1,2) by (auto simp: pt_ok_def)
  show "kernel_page ?s (P2V x)" "P2V x \<notin> set [P2V 0x107000]" if "x \<in> tables (phys ?s) 0x100000" for x
    using that f(1,5,6) by (auto simp: pt_ok_def)
  fix u e assume e: "upage u" "pte_of (phys ?s) 0x100000 u = Some e" "present e"
  then have pa: "PTE_ADDR e \<in> {PTE_ADDR e0, PTE_ADDR e1, PTE_ADDR e2}" using demo3_pte by fastforce
  then have pb: "PTE_ADDR e \<in> {0x104000, 0x105000, 0x106000}" using fr by blast
  then have kp: "kernel_page ?s (P2V (PTE_ADDR e))" using f(3) demo_page [of "PTE_ADDR e"] by auto
  then show "frame_ok ?s [P2V 0x107000] 0x100000 (PTE_ADDR e)"
    using pb tb by (auto simp: frame_ok_def P2V_def)
  show "page_refs ?s (P2V (PTE_ADDR e)) = card (mappers (phys ?s) 0x100000 (PTE_ADDR e)) + 0"
    using f(3) f(8) [of "P2V (PTE_ADDR e)"] kp cnt [OF pa] by (auto simp: demo3_mappers assms)
qed

lemma demo3_has_pt:
  assumes "u \<in> {0, 0x1000, 0x2000}"
  shows "has_pt (demo3 r e0 e1 e2) 0x100000 u"
  using sim_ptr(1) [OF demo3_sim demo_path(2) [OF assms]] .

lemma demo3_mapped:
  "mapped (phys (demo3 r e0 e1 e2)) 0x100000 \<subseteq> {0, 0x1000, 0x2000}"
  using demo3_pte [of _ r e0 e1 e2] by (fastforce simp: mapped_def)

section \<open>The properties\<close>

lemma dedup_ok:
  fixes pgdir
  defines "t \<equiv> V2P pgdir"
  assumes as: "aspace s L t ext" and lims: "unat (PGROUNDUP vend) \<le> 2 ^ 47" "unat vstart < 2 ^ 47"
    and pts: "\<And>u. upage u \<Longrightarrow> PGROUNDDOWN vstart \<le> u \<Longrightarrow> u < PGROUNDUP vend \<Longrightarrow> has_pt s t u"
    and few: "\<And>f. card (mapped (phys s) t) + ext f < 2 ^ 32"
  shows "\<exists>s' L'. dedup s pgdir vstart vend = Inr s' \<and> aspace s' L' t ext \<and> keeps s s' t
    \<and> (\<forall>u. upage u \<longrightarrow> PGROUNDDOWN vstart + PGSIZE < u \<longrightarrow> u < PGROUNDUP vend
        \<longrightarrow> twin (phys s') t (u - PGSIZE) u \<longrightarrow> share (phys s') t (u - PGSIZE) u)"
proof -
  let ?b = "PGROUNDDOWN vstart"
  have "unat ?b < 2 ^ 47" using upage_PGROUNDDOWN [OF lims(2)] by (simp add: upage_def)
  then have nw: "?b < ?b + PGSIZE" by (simp add: PGSIZE_def word_less_nat_alt unat_add_no_wrap)
  then have "\<not> ?b + PGSIZE < u" if "u < ?b" for u using that by auto
  then show ?thesis
    unfolding dedup_def t_def
    by (intro dedup_loop [where b = ?b and L = L]) (use nw as lims pts few in \<open>auto simp: t_def\<close>)
qed

text \<open>
  C1. Deduplicating a range of pages is invisible to the process and keeps the kernel's
  books: starting from an address space whose reference counts are exact, \<^verbatim>\<open>dedup\<close>
  terminates without a fault, every user address reads the same byte afterwards, and the
  reference count of every mapped frame is still exactly the number of pages that map it
  plus the references held elsewhere.
\<close>

theorem dedup_preserves_view:
  fixes pgdir
  assumes "aspace s L (V2P pgdir) ext" and "unat (PGROUNDUP vend) \<le> 2 ^ 47" and "unat vstart < 2 ^ 47"
    and "\<And>u. upage u \<Longrightarrow> PGROUNDDOWN vstart \<le> u \<Longrightarrow> u < PGROUNDUP vend \<Longrightarrow> has_pt s (V2P pgdir) u"
    and "\<And>f. card (mapped (phys s) (V2P pgdir)) + ext f < 2 ^ 32"
  shows "\<exists>s' L'. dedup s pgdir vstart vend = Inr s' \<and> aspace s' L' (V2P pgdir) ext
    \<and> (\<forall>va. unat va < 2 ^ 47 \<longrightarrow> user_byte (phys s') (V2P pgdir) va = user_byte (phys s) (V2P pgdir) va)"
  using dedup_ok [of s L pgdir ext vend vstart] assms unfolding keeps_def same_view_def by blast

lemma demo_pages_range:
  assumes "upage u" and "u < 0x3000"
  shows "u \<in> {0, 0x1000, 0x2000}"
proof -
  obtain k where "unat u = 4096 * k" using assms(1) pg_aligned_unat by (auto simp: upage_def dvd_def)
  moreover have "unat u < 0x3000" using assms(2) by (simp add: word_less_nat_alt)
  ultimately have "k = 0 \<or> k = 1 \<or> k = 2" by auto
  then show ?thesis using \<open>unat u = 4096 * k\<close> by (auto simp: word_unat_eq_iff)
qed

definition demo_dup :: kmem where
  "demo_dup = demo3 (\<lambda>_. 1) 0x104007 0x105007 0x106007"

lemma demo_dup_ok:
  "aspace demo_dup [P2V 0x107000] (V2P (P2V 0x100000)) (\<lambda>_. 0)"
  "upage u \<Longrightarrow> u < PGROUNDUP 0x3000 \<Longrightarrow> has_pt demo_dup (V2P (P2V 0x100000)) u"
  "card (mapped (phys demo_dup) (V2P (P2V 0x100000))) + (\<lambda>_. 0) f < 2 ^ 32"
proof -
  show "aspace demo_dup [P2V 0x107000] (V2P (P2V 0x100000)) (\<lambda>_. 0)"
    unfolding demo_dup_def V2P_P2V by (rule demo3_aspace) (auto simp: present_def PTE_P_def PTE_ADDR_def)
  show "upage u \<Longrightarrow> u < PGROUNDUP 0x3000 \<Longrightarrow> has_pt demo_dup (V2P (P2V 0x100000)) u"
    using demo3_has_pt [OF demo_pages_range] by (simp add: demo_dup_def PGROUNDUP_def PGSIZE_def)
  have "card (mapped (phys demo_dup) 0x100000) \<le> card {0, 0x1000, 0x2000 :: u64}"
    unfolding demo_dup_def by (rule card_mono [OF _ demo3_mapped]) simp
  then show "card (mapped (phys demo_dup) (V2P (P2V 0x100000))) + (\<lambda>_. 0) f < 2 ^ 32" by simp
qed

theorem dedup_preserves_view_witness:
  "\<exists>s' L'. dedup demo_dup (P2V 0x100000) 0 0x3000 = Inr s' \<and> aspace s' L' (V2P (P2V 0x100000)) (\<lambda>_. 0)
    \<and> (\<forall>va. unat va < 2 ^ 47 \<longrightarrow>
        user_byte (phys s') (V2P (P2V 0x100000)) va = user_byte (phys demo_dup) (V2P (P2V 0x100000)) va)"
  by (rule dedup_preserves_view [OF demo_dup_ok(1)])
    (use demo_dup_ok(2,3) in \<open>auto simp: PGROUNDUP_def PGSIZE_def\<close>)

text \<open>
  C2. \<^verbatim>\<open>dedup\<close> does merge: every page of the range from the third on that is readable and
  has the same contents as the page before it ends up in that page's frame, both entries
  read-only and marked copy-on-write. (The first pair of pages is never compared.)
\<close>

theorem dedup_shares_twins:
  fixes pgdir
  assumes "aspace s L (V2P pgdir) ext" and "unat (PGROUNDUP vend) \<le> 2 ^ 47" and "unat vstart < 2 ^ 47"
    and "\<And>u. upage u \<Longrightarrow> PGROUNDDOWN vstart \<le> u \<Longrightarrow> u < PGROUNDUP vend \<Longrightarrow> has_pt s (V2P pgdir) u"
    and "\<And>f. card (mapped (phys s) (V2P pgdir)) + ext f < 2 ^ 32"
    and u: "upage u" "PGROUNDDOWN vstart + PGSIZE < u" "u < PGROUNDUP vend"
    and twin: "twin (phys s) (V2P pgdir) (u - PGSIZE) u"
  shows "\<exists>s'. dedup s pgdir vstart vend = Inr s' \<and> share (phys s') (V2P pgdir) (u - PGSIZE) u"
proof -
  obtain s' L' where s': "dedup s pgdir vstart vend = Inr s'" "keeps s s' (V2P pgdir)"
    and sh: "twin (phys s') (V2P pgdir) (u - PGSIZE) u \<Longrightarrow> share (phys s') (V2P pgdir) (u - PGSIZE) u"
    using dedup_ok [of s L pgdir ext vend vstart] assms by blast
  have b: "PGROUNDDOWN vstart < PGROUNDDOWN vstart + PGSIZE"
    using upage_PGROUNDDOWN [OF assms(3)]
    by (simp add: upage_def PGSIZE_def word_less_nat_alt unat_add_no_wrap)
  have "upage (u - PGSIZE)" by (rule page_before(1) [OF u(1) _ u(2) b]) simp
  then show ?thesis using twin_same_view [OF _ _ u(1)] s' sh twin by (auto simp: keeps_def)
qed

lemma demo_byte:
  assumes "g \<in> {0x104000, 0x105000, 0x106000}" and "k < PGSIZE"
  shows "phys (demo3 r e0 e1 e2) (g + k) = 0"
proof -
  have al: "pg_aligned g" "pg_aligned 0x100000" "pg_aligned 0x101000" "pg_aligned 0x102000"
    using assms(1) by (auto simp: pg_aligned_def PGSIZE_def)
  have pg: "PGROUNDDOWN (g + k) = g" by (rule page_offset [OF al(1) assms(2)])
  have "frame_ok (demo r) [] 0x100000 g"
    using demo_tables demo_page [of g] assms(1) by (auto simp: frame_ok_def)
  then have "phys (demo3 r e0 e1 e2) (g + k) = demo_mem (g + k)"
    using sim_frame_byte [OF demo3_sim _ al(1) _ assms(2)] by (metis demo_facts(1) empty_iff)
  also have "\<dots> = 0"
    unfolding demo_mem_def
    by (subst store_leaf_byte [OF al(4)], simp, use pg assms(1) in force,
        subst store_leaf_byte [OF al(3)], simp, use pg assms(1) in force,
        subst store_leaf_byte [OF al(2)], simp, use pg assms(1) in force, simp)
  finally show ?thesis .
qed

lemma demo_dup_twin: "twin (phys demo_dup) (V2P (P2V 0x100000)) (0x2000 - PGSIZE) 0x2000"
proof -
  have "user_entry (phys demo_dup) 0x100000 0x1000 0x105007" "user_entry (phys demo_dup) 0x100000 0x2000 0x106007"
    by (simp_all add: demo_dup_def user_entry_def demo3_pte_eq present_def PTE_P_def PTE_U_def)
  moreover have "page_eq (phys demo_dup) (PTE_ADDR 0x105007) (PTE_ADDR 0x106007)"
    using demo_byte by (simp add: page_eq_bytes demo_dup_def PTE_ADDR_def)
  ultimately show ?thesis unfolding twin_def by (auto simp: PGSIZE_def)
qed

theorem dedup_shares_twins_witness:
  "\<exists>s'. dedup demo_dup (P2V 0x100000) 0 0x3000 = Inr s'
    \<and> share (phys s') (V2P (P2V 0x100000)) (0x2000 - PGSIZE) 0x2000"
  by (rule dedup_shares_twins [OF demo_dup_ok(1)])
    (use demo_dup_ok(2,3) demo_dup_twin demo_path(1) in \<open>auto simp: PGROUNDUP_def PGROUNDDOWN_def PGSIZE_def\<close>)


definition demo_cow :: kmem where
  "demo_cow = demo3 (\<lambda>i. if i = 0x104 then 2 else 1) 0x104205 0x104205 0x106007"

lemma demo_cow_ok: "aspace demo_cow [P2V 0x107000] (V2P (P2V 0x100000)) (\<lambda>_. 0)"
  unfolding demo_cow_def V2P_P2V
  by (rule demo3_aspace) (auto simp: present_def PTE_P_def PTE_ADDR_def frame_ix_def PGINDEX_def PGSIZE_def)


text \<open>
  C36. The guard on \<^verbatim>\<open>PTE_COW\<close> in \<^verbatim>\<open>copyonwrite\<close> covers the copy but not the release: for a
  mapped page that is not copy-on-write and holds the only reference to its frame, the call
  answers 1 and puts the frame at the head of the free list, while the process still maps it.
\<close>

theorem copyonwrite_plain_page:
  fixes pgdir
  assumes as: "aspace s L (V2P pgdir) ext" and hp: "has_pt s (V2P pgdir) (PGROUNDDOWN va)"
    and e: "user_entry (phys s) (V2P pgdir) (PGROUNDDOWN va) e" and cow: "e AND PTE_COW = 0"
    and n: "page_refs s (P2V (PTE_ADDR e)) = 1"
  shows "\<exists>s'. copyonwrite s pgdir va = Inr (1, s') \<and> kmem_inv s' (P2V (PTE_ADDR e) # L)
    \<and> user_entry (phys s') (V2P pgdir) (PGROUNDDOWN va) e"
proof -
  have u: "upage (PGROUNDDOWN va)" using hp by (simp add: has_pt_def)
  note fr = user_entry_frame [OF as u e] and s0 = sim_refl [OF as]
  obtain s' where s': "krelease s (P2V (PTE_ADDR e)) = Inr s'"
    "sim s (V2P pgdir) s' (P2V (PTE_ADDR e) # L) (pte_of (phys s) (V2P pgdir))
      ((page_refs s)(P2V (PTE_ADDR e) := 0)) {PTE_ADDR e}"
    using sim_release [OF s0, of "PTE_ADDR e" 0] fr(1) n by (auto simp: frame_ok_def)
  have "copyonwrite s pgdir va = Inr (1, s')"
    using uva2ka_eq [of s pgdir "PGROUNDDOWN va"] walk_ptr [of s pgdir "PGROUNDDOWN va"] aspace_pt_ok [OF as] hp e
      fr(2) cow sim_get [OF s0 hp] s'(1)
    by (auto simp: copyonwrite_def user_entry_def Let_def)
  then show ?thesis
    using simD(2) [OF s'(2)] simD(7) [OF s'(2) u] e by (auto simp: user_entry_def)
qed

theorem copyonwrite_plain_page_witness:
  "\<exists>s'. copyonwrite demo_dup (P2V 0x100000) 0x1234 = Inr (1, s')
    \<and> kmem_inv s' (P2V (PTE_ADDR 0x105007) # [P2V 0x107000])
    \<and> user_entry (phys s') (V2P (P2V 0x100000)) (PGROUNDDOWN 0x1234) 0x105007"
proof (rule copyonwrite_plain_page [OF demo_dup_ok(1)])
  have pg: "PGROUNDDOWN 0x1234 = 0x1000" by (simp add: PGROUNDDOWN_def PGSIZE_def)
  show "has_pt demo_dup (V2P (P2V 0x100000)) (PGROUNDDOWN 0x1234)"
    unfolding pg demo_dup_def V2P_P2V by (rule demo3_has_pt) simp
  show "user_entry (phys demo_dup) (V2P (P2V 0x100000)) (PGROUNDDOWN 0x1234) 0x105007"
    unfolding pg by (simp add: demo_dup_def user_entry_def demo3_pte_eq present_def PTE_P_def PTE_U_def)
  have "page_refs demo_dup (P2V 0x105000) = 1"
    unfolding demo_dup_def using simD(8) [OF demo3_sim] demo_page [of "0x105000"] by simp
  then show "page_refs demo_dup (P2V (PTE_ADDR 0x105007)) = 1" by (simp add: PTE_ADDR_def)
qed (simp_all add: PTE_COW_def)

end
