(* ===== verification/Uvm.thy ===== *)
theory Uvm
  imports Cow
begin

text \<open>
  Building an address space: \<^verbatim>\<open>setupkvm\<close>, \<^verbatim>\<open>walkpgdir\<close> with the creation of missing tables,
  \<^verbatim>\<open>mappages\<close>, and the copy of an address space that \<^verbatim>\<open>fork\<close> makes with \<^verbatim>\<open>copyuvm\<close>. Everything
  that is built lies in pages that were free before.
\<close>

section \<open>A new table\<close>

definition paths :: "memory \<Rightarrow> u64 \<Rightarrow> u64 list set" where
  "paths m t = {p. upath p \<and> tbl m t p \<noteq> None}"

lemma upath_nil [simp]: "upath []"
  by (simp add: upath_def)

lemma root_table: "t \<in> tables m t"
  by (auto simp: tables_def intro: exI [of _ "[]"])

text \<open>The entry of a page that is mapped.\<close>

definition entry :: "memory \<Rightarrow> u64 \<Rightarrow> u64 \<Rightarrow> u64 option" where
  "entry m t u = (case pte_of m t u of None \<Rightarrow> None | Some e \<Rightarrow> if present e then Some e else None)"

lemma entry_Some: "entry m t u = Some e \<longleftrightarrow> pte_of m t u = Some e \<and> present e"
  by (auto simp: entry_def split: option.splits)

definition graft :: "memory \<Rightarrow> u64 \<Rightarrow> u64 \<Rightarrow> u64 \<Rightarrow> memory" where
  "graft m v tab ix = store64 (fill m v 0 PGSIZE) (slot tab ix) (v OR 7)"

lemma graft_load:
  assumes "pg_aligned v" and "pg_aligned tab" and "v \<noteq> tab" and "unat ix < 512" and "unat j < 512"
  shows "load64 (graft m v tab ix) (slot tab ix) = v OR 7"
    "load64 (graft m v tab ix) (slot v j) = 0"
    "pg_aligned y \<Longrightarrow> y \<noteq> v \<Longrightarrow> (y, j) \<noteq> (tab, ix) \<Longrightarrow> load64 (graft m v tab ix) (slot y j) = load64 m (slot y j)"
proof -
  show "load64 (graft m v tab ix) (slot tab ix) = v OR 7"
    by (simp add: graft_def)
  show "load64 (graft m v tab ix) (slot v j) = 0"
    using assms by (simp add: graft_def load64_store64_page load64_fill_zero_page)
  assume "pg_aligned y" "y \<noteq> v" "(y, j) \<noteq> (tab, ix)"
  then show "load64 (graft m v tab ix) (slot y j) = load64 m (slot y j)"
    using assms load64_store64_slot [of ix j _ tab] load64_store64_page [of tab y ix j] load64_fill_page [of v y j]
    by (cases "y = tab") (auto simp: graft_def)
qed

lemma graft_byte:
  assumes "pg_aligned v" and "pg_aligned tab" and "unat ix < 512" and "PGROUNDDOWN x \<noteq> v" and "PGROUNDDOWN x \<noteq> tab"
  shows "graft m v tab ix x = m x"
  using store_leaf_byte [of tab ix x] in_range_page [of v x] assms by (simp add: graft_def fill_def)

lemma table_entry:
  assumes "pg_aligned v"
  shows "PTE_ADDR (v OR 7) = v" "(v OR 7) AND PTE_P \<noteq> 0"
proof -
  show "PTE_ADDR (v OR 7) = v" using assms by (intro PTE_ADDR_or) simp_all
  show "(v OR 7) AND PTE_P \<noteq> 0"
    using private_entry_facts(2) [of "P2V v"] assms
    by (simp add: private_entry_def present_def PTE_P_def PTE_U_def PTE_W_def or.assoc)
qed

lemma graft_tbl:
  assumes inj: "pt_inj m t" and q: "upath (q @ [ix])" "tbl m t q = Some tab" "next_tbl m tab ix = None"
    and v: "pg_aligned v" "v \<notin> tables m t" and p: "upath p"
  shows "tbl (graft m v tab ix) t p = (if p = q @ [ix] then Some v else tbl m t p)"
  using p
proof (induction p rule: rev_induct)
  case Nil
  then show ?case by simp
next
  case (snoc j p)
  note up = upath_snoc [OF snoc.prems] and uq = upath_snoc [OF q(1)]
  have tab: "tab \<in> tables m t" "pg_aligned tab" using q(2) uq pt_inj_aligned [OF inj q(2)] by (auto simp: tables_def)
  have tv: "v \<noteq> tab" using tab(1) v(2) by auto
  note ld = graft_load [OF v(1) tab(2) tv, where ix = ix and j = j and m = m]
  have IH: "tbl (graft m v tab ix) t p = (if p = q @ [ix] then Some v else tbl m t p)" using snoc.IH up by blast
  show ?case
  proof (cases "p = q @ [ix]")
    case True
    have "tbl m t p = None" using True q by (simp add: tbl_snoc)
    moreover have "tbl (graft m v tab ix) t p = Some v" using IH True by simp
    moreover have "next_tbl (graft m v tab ix) v j = None" using ld(2) uq up by (simp add: next_tbl_def)
    ultimately show ?thesis using True by (simp add: tbl_snoc del: append_assoc append_Cons)
  next
    case False
    show ?thesis
    proof (cases "tbl m t p")
      case None
      then show ?thesis using IH False q(2) by (auto simp: tbl_snoc)
    next
      case (Some y)
      then have y: "y \<noteq> v" "pg_aligned y" using v(2) up pt_inj_aligned [OF inj Some] by (auto simp: tables_def)
      have yq: "y = tab \<longleftrightarrow> p = q" using pt_injD [OF inj _ _ Some, of q] q(2) up uq Some by auto
      show ?thesis
      proof (cases "p = q \<and> j = ix")
        case True
        then show ?thesis
          using IH False q(2) ld(1) uq up table_entry [OF v(1)] by (simp add: tbl_snoc next_tbl_def Let_def)
      next
        case ne: False
        then have "load64 (graft m v tab ix) (slot y j) = load64 m (slot y j)"
          using ld(3) [OF _ _ y(2,1)] yq uq up by auto
        then show ?thesis using IH False Some ne by (auto simp: tbl_snoc next_tbl_def Let_def)
      qed
    qed
  qed
qed

lemma graft_paths:
  assumes inj: "pt_inj m t" and q: "upath (q @ [ix])" "tbl m t q = Some tab" "next_tbl m tab ix = None"
    and v: "pg_aligned v" "v \<notin> tables m t"
  shows "paths (graft m v tab ix) t = insert (q @ [ix]) (paths m t)" "q @ [ix] \<notin> paths m t"
    "tables (graft m v tab ix) t = insert v (tables m t)" "pt_inj (graft m v tab ix) t"
    "upage u \<Longrightarrow> entry (graft m v tab ix) t u = entry m t u"
proof -
  note gt = graft_tbl [OF assms]
  have none: "tbl m t (q @ [ix]) = None" using q by (simp add: tbl_snoc)
  then show "paths (graft m v tab ix) t = insert (q @ [ix]) (paths m t)" "q @ [ix] \<notin> paths m t"
    using gt q(1) by (auto simp: paths_def)
  show "tables (graft m v tab ix) t = insert v (tables m t)"
  proof (intro equalityI subsetI)
    fix x assume "x \<in> tables (graft m v tab ix) t"
    then show "x \<in> insert v (tables m t)" using gt by (auto simp: tables_def split: if_splits)
  next
    fix x assume "x \<in> insert v (tables m t)"
    then consider "x = v" | p where "upath p" "tbl m t p = Some x" by (auto simp: tables_def)
    then show "x \<in> tables (graft m v tab ix) t"
    proof cases
      case 1
      then show ?thesis using gt [OF q(1)] q(1) by (auto simp: tables_def)
    next
      case 2
      then have "p \<noteq> q @ [ix]" using none by auto
      then show ?thesis using gt [OF 2(1)] 2 by (auto simp: tables_def)
    qed
  qed
  show "pt_inj (graft m v tab ix) t"
    unfolding pt_inj_def
  proof (intro conjI allI impI)
    show "pg_aligned t" using inj by (simp add: pt_inj_def)
    fix p1 p2 x assume a: "upath p1" "upath p2" "tbl (graft m v tab ix) t p1 = Some x" "tbl (graft m v tab ix) t p2 = Some x"
    have "tbl m t p \<noteq> Some v" if "upath p" for p using v(2) that by (auto simp: tables_def)
    then show "p1 = p2"
      using a gt [OF a(1)] gt [OF a(2)] pt_injD [OF inj a(1,2)] by (auto split: if_splits)
  qed
  assume u: "upage u"
  have tab: "tab \<in> tables m t" "pg_aligned tab" using q(2) upath_snoc [OF q(1)] pt_inj_aligned [OF inj q(2)] by (auto simp: tables_def)
  then have tv: "v \<noteq> tab" using v(2) by auto
  note gu = gt [OF upath_pathof_upage [OF u]]
  show "entry (graft m v tab ix) t u = entry m t u"
  proof (cases "pathof u = q @ [ix]")
    case True
    have "load64 (graft m v tab ix) (slot v (PTX u)) = 0"
      using graft_load(2) [OF v(1) tab(2) tv] upath_snoc [OF q(1)] by simp
    then show ?thesis using True gu none by (simp add: entry_def pte_of_def pte_slot_def present_def)
  next
    case False
    show ?thesis
    proof (cases "tbl m t (pathof u)")
      case None
      then show ?thesis using False gu by (simp add: entry_def pte_of_def pte_slot_def)
    next
      case (Some y)
      have "y \<in> tables m t" using Some upath_pathof_upage [OF u] by (auto simp: tables_def)
      then have y: "y \<noteq> v" "pg_aligned y" using v(2) pt_inj_aligned [OF inj Some] by auto
      have "y \<noteq> tab"
        using pt_injD [OF inj _ _ Some, of q] q(2) upath_snoc [OF q(1)] upath_pathof_upage [OF u] by (auto simp: pathof_def)
      then have "load64 (graft m v tab ix) (slot y (PTX u)) = load64 m (slot y (PTX u))"
        using graft_load(3) [OF v(1) tab(2) tv _ _ y(2,1)] upath_snoc [OF q(1)] by simp
      then show ?thesis using False gu Some by (simp add: entry_def pte_of_def pte_slot_def)
    qed
  qed
qed

section \<open>An address space in pages that were free\<close>

text \<open>
  The state \<open>s\<close> has been reached from \<open>s0\<close> with the free pages \<open>L0\<close> by building the address space \<open>t\<close>:
  \<open>L\<close> are still free, \<open>E\<close> are the entries of the mapped pages and \<open>F\<close> the frames with their contents,
  mapped or not yet mapped; \<open>K\<close> is the kernel's half of the root. Nothing outside the pages \<open>L0\<close> has
  changed.
\<close>

definition grown ::
  "(u64 \<Rightarrow> u64) \<Rightarrow> kmem \<Rightarrow> u64 list \<Rightarrow> u64 \<Rightarrow> kmem \<Rightarrow> u64 list \<Rightarrow> (u64 \<rightharpoonup> u64) \<Rightarrow> (u64 \<rightharpoonup> (u64 \<Rightarrow> u8)) \<Rightarrow> bool" where
  "grown K s0 L0 t s L E F \<longleftrightarrow> kmem_inv s0 L0 \<and> kmem_inv s L \<and> set L \<subseteq> set L0 \<and> kernel_page s = kernel_page s0
     \<and> (\<forall>v. kernel_page s0 v \<longrightarrow> v \<notin> set L0 \<longrightarrow> page_refs s v = page_refs s0 v)
     \<and> (\<forall>x. P2V (PGROUNDDOWN x) \<notin> set L0 \<longrightarrow> phys s x = phys s0 x)
     \<and> pt_inj (phys s) t
     \<and> (\<forall>x\<in>tables (phys s) t. P2V x \<in> set L0 \<and> P2V x \<notin> set L)
     \<and> (\<forall>u. upage u \<longrightarrow> entry (phys s) t u = E u)
     \<and> (\<forall>f b. F f = Some b \<longrightarrow> P2V f \<in> set L0 \<and> P2V f \<notin> set L \<and> f \<notin> tables (phys s) t
          \<and> page_refs s (P2V f) = 1 \<and> (\<forall>k<PGSIZE. phys s (f + k) = b k))
     \<and> (\<forall>u e. E u = Some e \<longrightarrow> upage u \<and> PTE_ADDR e \<in> dom F)
     \<and> (\<forall>u w e e'. E u = Some e \<longrightarrow> E w = Some e' \<longrightarrow> PTE_ADDR e = PTE_ADDR e' \<longrightarrow> u = w)
     \<and> finite (dom F) \<and> finite (paths (phys s) t)
     \<and> length L + card (paths (phys s) t) + card (dom F) = length L0
     \<and> (\<forall>i. 256 \<le> unat i \<longrightarrow> unat i < 512 \<longrightarrow> load64 (phys s) (slot t i) = K i)"

lemma grownD:
  assumes "grown K s0 L0 t s L E F"
  shows "kmem_inv s0 L0" "kmem_inv s L" "set L \<subseteq> set L0" "kernel_page s = kernel_page s0"
    "kernel_page s0 v \<Longrightarrow> v \<notin> set L0 \<Longrightarrow> page_refs s v = page_refs s0 v"
    "P2V (PGROUNDDOWN y) \<notin> set L0 \<Longrightarrow> phys s y = phys s0 y"
    "pt_inj (phys s) t" "x \<in> tables (phys s) t \<Longrightarrow> P2V x \<in> set L0 \<and> P2V x \<notin> set L"
    "upage u \<Longrightarrow> entry (phys s) t u = E u"
    "F f = Some b \<Longrightarrow> P2V f \<in> set L0 \<and> P2V f \<notin> set L \<and> f \<notin> tables (phys s) t
       \<and> page_refs s (P2V f) = 1 \<and> (\<forall>k<PGSIZE. phys s (f + k) = b k)"
    "E u = Some e \<Longrightarrow> upage u \<and> PTE_ADDR e \<in> dom F"
    "E u = Some e \<Longrightarrow> E w = Some e' \<Longrightarrow> PTE_ADDR e = PTE_ADDR e' \<Longrightarrow> u = w"
    "finite (dom F)" "finite (paths (phys s) t)"
    "length L + card (paths (phys s) t) + card (dom F) = length L0"
    "v \<in> set L0 \<Longrightarrow> kernel_page s0 v" "256 \<le> unat i \<Longrightarrow> unat i < 512 \<Longrightarrow> load64 (phys s) (slot t i) = K i"
proof -
  show "v \<in> set L0 \<Longrightarrow> kernel_page s0 v" using assms kpages.inv_page by (auto simp: grown_def)
  show "E u = Some e \<Longrightarrow> E w = Some e' \<Longrightarrow> PTE_ADDR e = PTE_ADDR e' \<Longrightarrow> u = w"
    using assms unfolding grown_def by metis
qed (use assms in \<open>simp_all add: grown_def\<close>)

lemma kmem_inv_phys:
  assumes "kmem_inv s L" and "\<And>x. P2V (PGROUNDDOWN x) \<in> set L \<Longrightarrow> m x = phys s x"
  shows "kmem_inv (s\<lparr>phys := m\<rparr>) L"
proof -
  have "flist m (freelist s) L = flist (phys s) (freelist s) L"
  proof (rule flist_cong)
    fix a assume a: "a \<in> set L"
    then have al: "pg_aligned (V2P a)" using assms(1) by (auto simp: kmem_inv_def valid_page_def)
    have "load64 m (slot (V2P a) 0) = load64 (phys s) (slot (V2P a) 0)"
      by (intro load64_same_page al) (use a assms(2) in auto)
    then show "load64 m (V2P a) = load64 (phys s) (V2P a)" by (simp add: slot_def)
  qed
  then show ?thesis using assms(1) by (simp add: kmem_inv_def)
qed

text \<open>Taking the first free page and changing memory, but not that of the other free pages.\<close>

lemma grown_take:
  assumes "grown K s0 L0 t s (v # L) E F" and "\<And>x. P2V (PGROUNDDOWN x) \<in> set L \<Longrightarrow> m x = phys s x"
  shows "\<exists>s1. kalloc s = Inr (v, s1) \<and> phys s1 = phys s \<and> kmem_inv (s1\<lparr>phys := m\<rparr>) L
    \<and> kernel_page (s1\<lparr>phys := m\<rparr>) = kernel_page s \<and> page_refs (s1\<lparr>phys := m\<rparr>) v = 1
    \<and> (\<forall>u. kernel_page s u \<longrightarrow> u \<noteq> v \<longrightarrow> page_refs (s1\<lparr>phys := m\<rparr>) u = page_refs s u)"
proof -
  note f = grownD [OF assms(1)]
  obtain s1 where s1: "kalloc s = Inr (v, s1)" "kmem_inv s1 L" "page_refs s1 v = 1" "kernel_page s1 = kernel_page s"
    "\<And>u. kernel_page s u \<Longrightarrow> u \<noteq> v \<Longrightarrow> page_refs s1 u = page_refs s u" "\<And>u. page_byte s1 u = page_byte s u"
    using kpages.alloc_spec [OF f(2)] by auto
  have "phys s1 x = phys s x" for x
    using s1(6) [of "P2V x"] by (auto simp: page_byte_def fun_eq_iff dest: spec [of _ 0])
  then have ph: "phys s1 = phys s" by (rule ext)
  then have "kmem_inv (s1\<lparr>phys := m\<rparr>) L" using kmem_inv_phys [OF s1(2)] assms(2) by simp
  then show ?thesis using s1 ph by (auto simp: kernel_page_def page_refs_def fun_eq_iff)
qed

lemma grown_head:
  assumes "grown K s0 L0 t s (v # L) E F"
  shows "v \<in> set L0" "v \<notin> set L" "V2P v \<notin> tables (phys s) t" "V2P v \<notin> dom F" "pg_aligned v" "v \<noteq> 0" "kernel_page s v"
proof -
  note f = grownD [OF assms]
  show "v \<in> set L0" "v \<notin> set L" using f(2,3) by (auto simp: kmem_inv_def)
  show "V2P v \<notin> tables (phys s) t" using f(8) by fastforce
  show "V2P v \<notin> dom F" using f(10) [of "V2P v"] by auto
  show k: "kernel_page s v" using f(16) [OF \<open>v \<in> set L0\<close>] f(4) by simp
  then show "pg_aligned v" "v \<noteq> 0" using kernel_page_nonnull [OF f(2)] by (auto simp: kernel_page_def valid_page_def)
qed

lemma same_tbl_paths: "same_tbl m m' t \<Longrightarrow> paths m' t = paths m t"
  by (auto simp: same_tbl_def paths_def)

lemma grown_frame:
  assumes g: "grown K s0 L0 t s (v # L) E F" and m: "\<And>x. PGROUNDDOWN x \<noteq> V2P v \<Longrightarrow> m x = phys s x"
  shows "\<exists>s1. kalloc s = Inr (v, s1) \<and> phys s1 = phys s
    \<and> grown K s0 L0 t (s1\<lparr>phys := m\<rparr>) L E (F(V2P v \<mapsto> (\<lambda>k. m (V2P v + k)))) \<and> paths m t = paths (phys s) t"
proof -
  note f = grownD [OF g] and h = grown_head [OF g]
  have mL: "m x = phys s x" if "P2V (PGROUNDDOWN x) \<in> set L" for x
    using m [of x] that h(2) by (cases "PGROUNDDOWN x = V2P v") auto
  obtain s1 where s1: "kalloc s = Inr (v, s1)" "phys s1 = phys s" "kmem_inv (s1\<lparr>phys := m\<rparr>) L"
    "kernel_page (s1\<lparr>phys := m\<rparr>) = kernel_page s" "page_refs (s1\<lparr>phys := m\<rparr>) v = 1"
    "\<And>u. kernel_page s u \<Longrightarrow> u \<noteq> v \<Longrightarrow> page_refs (s1\<lparr>phys := m\<rparr>) u = page_refs s u"
    using grown_take [OF g mL] by auto
  have out: "m x = phys s x" if "PGROUNDDOWN x \<in> tables (phys s) t" for x
    using m [of x] that h(3) by (cases "PGROUNDDOWN x = V2P v") auto
  note st = outside_same_tbl [OF f(7) out]
  have en: "entry m t u = entry (phys s) t u" if "upage u" for u
    using outside_pte [OF f(7) out that] by (simp add: entry_def)
  have fr: "page_refs (s1\<lparr>phys := m\<rparr>) (P2V f) = 1 \<and> (\<forall>k<PGSIZE. m (f + k) = b k)" if b: "F f = Some b" for f b
  proof -
    note fb = grownD(10) [OF g b]
    have ne: "f \<noteq> V2P v" using h(4) b by auto
    have kp: "kernel_page s (P2V f)" using f(16) [of "P2V f"] fb f(4) by simp
    then have "pg_aligned f" by (simp add: kernel_page_def valid_page_def)
    then have "m (f + k) = phys s (f + k)" if "k < PGSIZE" for k using m [of "f + k"] page_offset [OF _ that] ne by simp
    then show ?thesis using fb s1(6) [OF kp] ne by auto
  qed
  have "grown K s0 L0 t (s1\<lparr>phys := m\<rparr>) L E (F(V2P v \<mapsto> (\<lambda>k. m (V2P v + k))))"
    unfolding grown_def
  proof (intro conjI allI impI ballI)
    show "page_refs (s1\<lparr>phys := m\<rparr>) u = page_refs s0 u" if "kernel_page s0 u" "u \<notin> set L0" for u
      using s1(6) [of u] f(4) f(5) [OF that] that h(1) by auto
    show "phys (s1\<lparr>phys := m\<rparr>) x = phys s0 x" if "P2V (PGROUNDDOWN x) \<notin> set L0" for x
      using m [of x] f(6) [OF that] that h(1) by (cases "PGROUNDDOWN x = V2P v") auto
    show "load64 (phys (s1\<lparr>phys := m\<rparr>)) (slot t i) = K i" if "256 \<le> unat i" "unat i < 512" for i
      using load64_same_page [of t i m "phys s"] out root_table [of t] f(7) f(17) [OF that] that by (simp add: pt_inj_def)
    show "length L + card (paths (phys (s1\<lparr>phys := m\<rparr>)) t) + card (dom (F(V2P v \<mapsto> (\<lambda>k. m (V2P v + k))))) = length L0"
      using f(13,15) h(4) same_tbl_paths [OF st] by simp
    fix g b assume gb: "(F(V2P v \<mapsto> (\<lambda>k. m (V2P v + k)))) g = Some b"
    show "P2V g \<in> set L0" "P2V g \<notin> set L" "g \<notin> tables (phys (s1\<lparr>phys := m\<rparr>)) t"
      "page_refs (s1\<lparr>phys := m\<rparr>) (P2V g) = 1"
      using gb f(10) [of g b] fr [of g b] h same_tbl_tables [OF st] s1(5) by (auto split: if_splits)
    show "phys (s1\<lparr>phys := m\<rparr>) (g + k) = b k" if "k < PGSIZE" for k
      using gb fr [of g b] that by (auto split: if_splits)
  next
    fix u w e e' assume "E u = Some e" "E w = Some e'" "PTE_ADDR e = PTE_ADDR e'"
    then show "u = w" by (rule f(12))
  qed (use f s1 same_tbl_tables [OF st] same_tbl_inj [OF st] same_tbl_paths [OF st] en in auto)
  then show ?thesis using s1(1,2) same_tbl_paths [OF st] by blast
qed

lemma grown_table:
  assumes g: "grown K s0 L0 t s (v # L) E F" and q: "upath (q @ [ix])" "tbl (phys s) t q = Some tab" "next_tbl (phys s) tab ix = None"
  defines "m \<equiv> graft (phys s) (V2P v) tab ix"
  shows "\<exists>s1. kalloc s = Inr (v, s1) \<and> phys s1 = phys s \<and> grown K s0 L0 t (s1\<lparr>phys := m\<rparr>) L E F"
proof -
  note f = grownD [OF g] and h = grown_head [OF g]
  have tab: "tab \<in> tables (phys s) t" "pg_aligned tab"
    using q(2) upath_snoc [OF q(1)] pt_inj_aligned [OF f(7) q(2)] by (auto simp: tables_def)
  have av: "pg_aligned (V2P v)" using h(5) by simp
  note gp = graft_paths [OF f(7) q av h(3), folded m_def]
  have m: "m x = phys s x" if "PGROUNDDOWN x \<noteq> V2P v" "PGROUNDDOWN x \<noteq> tab" for x
    unfolding m_def using graft_byte [OF av tab(2) _ that] upath_snoc [OF q(1)] by blast
  have tL: "P2V tab \<in> set L0" "P2V tab \<notin> set L" using f(8) [OF tab(1)] by auto
  have mL: "m x = phys s x" if "P2V (PGROUNDDOWN x) \<in> set L" for x
    using m [of x] that h(2) tL(2) by (cases "PGROUNDDOWN x = V2P v"; cases "PGROUNDDOWN x = tab") auto
  obtain s1 where s1: "kalloc s = Inr (v, s1)" "phys s1 = phys s" "kmem_inv (s1\<lparr>phys := m\<rparr>) L"
    "kernel_page (s1\<lparr>phys := m\<rparr>) = kernel_page s" "page_refs (s1\<lparr>phys := m\<rparr>) v = 1"
    "\<And>u. kernel_page s u \<Longrightarrow> u \<noteq> v \<Longrightarrow> page_refs (s1\<lparr>phys := m\<rparr>) u = page_refs s u"
    using grown_take [OF g mL] by auto
  have fr: "f \<notin> tables m t \<and> page_refs (s1\<lparr>phys := m\<rparr>) (P2V f) = 1 \<and> (\<forall>k<PGSIZE. m (f + k) = b k)" if b: "F f = Some b" for f b
  proof -
    note fb = grownD(10) [OF g b]
    have ne: "f \<noteq> V2P v" "f \<noteq> tab" using h(4) b fb tab(1) by auto
    have kp: "kernel_page s (P2V f)" using f(16) [of "P2V f"] fb f(4) by simp
    then have "pg_aligned f" by (simp add: kernel_page_def valid_page_def)
    then have "m (f + k) = phys s (f + k)" if "k < PGSIZE" for k using m [of "f + k"] page_offset [OF _ that] ne by simp
    then show ?thesis using fb s1(6) [OF kp] ne gp(3) by auto
  qed
  have "grown K s0 L0 t (s1\<lparr>phys := m\<rparr>) L E F"
    unfolding grown_def
  proof (intro conjI allI impI ballI)
    show "page_refs (s1\<lparr>phys := m\<rparr>) u = page_refs s0 u" if "kernel_page s0 u" "u \<notin> set L0" for u
      using s1(6) [of u] f(4) f(5) [OF that] that h(1) by auto
    show "phys (s1\<lparr>phys := m\<rparr>) x = phys s0 x" if "P2V (PGROUNDDOWN x) \<notin> set L0" for x
      using m [of x] f(6) [OF that] that h(1) tL(1)
      by (cases "PGROUNDDOWN x = V2P v"; cases "PGROUNDDOWN x = tab") auto
    show "load64 (phys (s1\<lparr>phys := m\<rparr>)) (slot t i) = K i" if i: "256 \<le> unat i" "unat i < 512" for i
    proof -
      have "(t, i) \<noteq> (tab, ix)"
      proof
        assume e: "(t, i) = (tab, ix)"
        then have "q = []" using pt_injD [OF f(7) _ _ q(2), of "[]"] upath_snoc [OF q(1)] by simp
        then show False using q(1) i e by (simp add: upath_def)
      qed
      moreover have "V2P v \<noteq> tab" "t \<noteq> V2P v" using root_table [of t "phys s"] h(3) tab(1) by auto
      ultimately show ?thesis
        using graft_load(3) [OF av tab(2), of ix i t] f(7) f(17) [OF i] i upath_snoc [OF q(1)]
        by (simp add: m_def pt_inj_def)
    qed
    show "length L + card (paths (phys (s1\<lparr>phys := m\<rparr>)) t) + card (dom F) = length L0"
      using f(14,15) gp(1,2) by simp
    fix u w e e' assume "E u = Some e" "E w = Some e'" "PTE_ADDR e = PTE_ADDR e'"
    then show "u = w" by (rule f(12))
  next
    fix x assume "x \<in> tables (phys (s1\<lparr>phys := m\<rparr>)) t"
    then show "P2V x \<in> set L0" "P2V x \<notin> set L" using gp(3) h(1,2) f(8) [of x] by auto
  next
    fix f b assume b: "F f = Some b"
    show "P2V f \<in> set L0" "P2V f \<notin> set L" "f \<notin> tables (phys (s1\<lparr>phys := m\<rparr>)) t" "page_refs (s1\<lparr>phys := m\<rparr>) (P2V f) = 1"
      using f(10) [OF b] fr [OF b] by auto
    show "phys (s1\<lparr>phys := m\<rparr>) (f + k) = b k" if "k < PGSIZE" for k using fr [OF b] that by simp
  next
    show "set L \<subseteq> set L0" using f(3) by simp
    show "kernel_page (s1\<lparr>phys := m\<rparr>) = kernel_page s0" using s1(4) f(4) by simp
  qed (use f(1,9,11,13,14) s1(3) gp in simp_all)
  then show ?thesis using s1(1,2) by blast
qed

lemma grown_pt_ok: "grown K s0 L0 t s L E F \<Longrightarrow> pt_ok s t"
  using grownD(2,7,8,4,16) by (fastforce simp: pt_ok_def kmem_inv_def)

lemma grown_put:
  assumes g: "grown K s0 L0 t s L E F" and u: "has_pt s t u" and e: "present e" "PTE_ADDR e \<in> dom F"
    and new: "\<And>w e'. E w = Some e' \<Longrightarrow> PTE_ADDR e' \<noteq> PTE_ADDR e"
  shows "grown K s0 L0 t (put_pte s t u e) L (E(u \<mapsto> e)) F"
proof -
  note f = grownD [OF g] and ok = grown_pt_ok [OF g]
  let ?s = "put_pte s t u e"
  note st = put_pte_same_tbl [OF ok u, of e]
  have up: "upage u" using u by (simp add: has_pt_def)
  have byte: "phys ?s x = phys s x" if "PGROUNDDOWN x \<notin> tables (phys s) t" for x
    by (rule put_pte_byte [OF ok u that])
  have fr: "phys ?s (f + k) = b k" if b: "F f = Some b" and k: "k < PGSIZE" for f b k
  proof -
    have "pg_aligned f" using f(16) [of "P2V f"] grownD(10) [OF g b] by (simp add: kernel_page_def valid_page_def)
    then show ?thesis using byte [of "f + k"] page_offset [OF _ k] grownD(10) [OF g b] k by auto
  qed
  show ?thesis
    unfolding grown_def
  proof (intro conjI allI impI ballI)
    show "kmem_inv ?s L" using put_pte_kmem_inv [OF ok u f(2)] f(8) by blast
    show "load64 (phys ?s) (slot t i) = K i" if i: "256 \<le> unat i" "unat i < 512" for i
    proof -
      let ?pt = "the (tbl (phys s) t (pathof u))"
      have pt: "pg_aligned ?pt" "?pt \<noteq> t"
        using pt_inj_aligned [OF f(7) has_pt_table(2) [OF u]]
          pt_injD [OF f(7) _ _ has_pt_table(2) [OF u], of "[]"] upath_pathof_upage [OF up] by (auto simp: pathof_def)
      then show ?thesis
        using load64_store64_page [of ?pt t "PTX u" i] f(7) f(17) [OF i] i by (simp add: put_pte_def pt_inj_def)
    qed
    show "phys ?s x = phys s0 x" if "P2V (PGROUNDDOWN x) \<notin> set L0" for x
      using byte [of x] f(6) [OF that] f(8) [of "PGROUNDDOWN x"] that by (cases "PGROUNDDOWN x \<in> tables (phys s) t") auto
    show "entry (phys ?s) t w = (E(u \<mapsto> e)) w" if "upage w" for w
      using put_pte_pte [OF ok u that, of e] f(9) [OF that] e(1) by (simp add: entry_def)
    fix u' w e1 e2 assume "(E(u \<mapsto> e)) u' = Some e1" "(E(u \<mapsto> e)) w = Some e2" "PTE_ADDR e1 = PTE_ADDR e2"
    then show "u' = w" using f(12) [of u' e1 w e2] new [of u' e1] new [of w e2] by (auto split: if_splits)
  next
    fix w e' assume "(E(u \<mapsto> e)) w = Some e'"
    then show "upage w" "PTE_ADDR e' \<in> dom F" using f(11) [of w e'] up e(2) by (auto split: if_splits)
  next
    fix f b assume b: "F f = Some b"
    show "P2V f \<in> set L0" "P2V f \<notin> set L" "f \<notin> tables (phys ?s) t" "page_refs ?s (P2V f) = 1"
      using f(10) [OF b] same_tbl_tables [OF st] by auto
  qed (use f(1,3-5,7,8,13-15) fr same_tbl_tables [OF st] same_tbl_inj [OF st] same_tbl_paths [OF st] in auto)
qed

section \<open>Walking with the creation of tables\<close>

lemma next_alloc:
  assumes g: "grown K s0 L0 t s L E F" and q: "upath (q @ [ix])" "tbl (phys s) t q = Some tab"
    and P: "paths (phys s) t \<subseteq> P" "q @ [ix] \<in> P" "finite P" "card P + card (dom F) \<le> length L0"
  shows "\<exists>x s' L'. next_table s (P2V tab) ix True = Inr (P2V x, s') \<and> grown K s0 L0 t s' L' E F
    \<and> tbl (phys s') t (q @ [ix]) = Some x \<and> paths (phys s') t \<subseteq> P \<and> P2V x \<noteq> 0"
proof -
  note f = grownD [OF g]
  have nz: "P2V x \<noteq> 0" if "grown K s0 L0 t s' L' E F" "tbl (phys s') t (q @ [ix]) = Some x" for s' L' x
    using pt_ok_nonnull [OF grown_pt_ok [OF that(1)]] that(2) q(1) by (auto simp: nonnull_tbl_def tables_def)
  show ?thesis
  proof (cases "next_tbl (phys s) tab ix")
    case (Some x)
    then have run: "next_table s (P2V tab) ix True = Inr (P2V x, s)"
      by (auto simp: next_table_def next_tbl_def V2P_slot Let_def split: if_splits)
    have t: "tbl (phys s) t (q @ [ix]) = Some x" using Some q(2) by (simp add: tbl_snoc)
    show ?thesis using run t g P(1) nz [OF g t] by blast
  next
    case None
    have "q @ [ix] \<notin> paths (phys s) t" using None q(2) by (simp add: paths_def tbl_snoc)
    then have "card (paths (phys s) t) < card P" using P by (intro psubset_card_mono) auto
    then have "L \<noteq> []" using f(15) P(4) by auto
    then obtain v L' where L: "L = v # L'" by (cases L) auto
    note gv = g [unfolded L]
    note h = grown_head [OF gv]
    obtain s1 where s1: "kalloc s = Inr (v, s1)" "phys s1 = phys s"
      "grown K s0 L0 t (s1\<lparr>phys := graft (phys s) (V2P v) tab ix\<rparr>) L' E F"
      using grown_table [OF gv q None] by blast
    let ?s = "s1\<lparr>phys := graft (phys s) (V2P v) tab ix\<rparr>"
    have "next_table s (P2V tab) ix True = Inr (P2V (V2P v), ?s)"
      using None h(6) s1(1,2)
      by (auto simp: next_table_def next_tbl_def V2P_slot Let_def memset_fill graft_def PTE_P_def PTE_W_def PTE_U_def or.assoc
          split: if_splits)
    moreover have "tbl (phys ?s) t (q @ [ix]) = Some (V2P v)"
      using graft_tbl [OF f(7) q None _ h(3) q(1)] h(5) by simp
    moreover have "paths (phys ?s) t \<subseteq> P"
      using graft_paths(1) [OF f(7) q None _ h(3)] h(5) P by simp
    ultimately show ?thesis using s1(3) nz [OF s1(3)] by blast
  qed
qed

lemma walk_alloc:
  assumes g: "grown K s0 L0 (V2P d) s L E F" and u: "upage u"
    and P: "paths (phys s) (V2P d) \<subseteq> P" "finite P" "card P + card (dom F) \<le> length L0"
    and uP: "[PMX u] \<in> P" "[PMX u, PDPX u] \<in> P" "[PMX u, PDPX u, PDX u] \<in> P"
  shows "\<exists>s' L'. walkpgdir s d u True = Inr (pte_ptr s' (V2P d) u, s') \<and> grown K s0 L0 (V2P d) s' L' E F
    \<and> has_pt s' (V2P d) u \<and> paths (phys s') (V2P d) \<subseteq> P"
proof -
  have up: "upath ([] @ [PMX u])" "upath ([PMX u] @ [PDPX u])" "upath ([PMX u, PDPX u] @ [PDX u])"
    using upath_pathof_upage [OF u] by (simp_all add: upath_def pathof_def)
  obtain x1 s1 L1 where s1: "next_table s d (PMX u) True = Inr (P2V x1, s1)" "grown K s0 L0 (V2P d) s1 L1 E F"
    "tbl (phys s1) (V2P d) [PMX u] = Some x1" "paths (phys s1) (V2P d) \<subseteq> P" "P2V x1 \<noteq> 0"
    using next_alloc [OF g up(1), of "V2P d" P] P uP by auto
  obtain x2 s2 L2 where s2: "next_table s1 (P2V x1) (PDPX u) True = Inr (P2V x2, s2)" "grown K s0 L0 (V2P d) s2 L2 E F"
    "tbl (phys s2) (V2P d) [PMX u, PDPX u] = Some x2" "paths (phys s2) (V2P d) \<subseteq> P" "P2V x2 \<noteq> 0"
    using next_alloc [OF s1(2) up(2) s1(3), of P] s1(4) P uP by auto
  obtain x3 s3 L3 where s3: "next_table s2 (P2V x2) (PDX u) True = Inr (P2V x3, s3)" "grown K s0 L0 (V2P d) s3 L3 E F"
    "tbl (phys s3) (V2P d) [PMX u, PDPX u, PDX u] = Some x3" "paths (phys s3) (V2P d) \<subseteq> P" "P2V x3 \<noteq> 0"
    using next_alloc [OF s2(2) up(3) s2(3), of P] s2(4) P uP by auto
  have "walkpgdir s d u True = Inr (pte_ptr s3 (V2P d) u, s3)"
    using s1(1,5) s2(1,5) s3(1,3,5) by (simp add: walkpgdir_def pte_ptr_def pathof_def P2V_slot)
  then show ?thesis using s3 u by (auto simp: has_pt_def pathof_def)
qed

lemma present_or: "present (x OR PTE_P)"
proof -
  have "(x OR PTE_P) AND PTE_P = PTE_P" by (simp add: bit.conj_disj_distrib2 PTE_P_def)
  then show ?thesis by (simp add: present_def PTE_P_def)
qed

lemma one_page:
  assumes "pg_aligned u"
  shows "unat ((PGROUNDDOWN (u + PGSIZE - 1) - PGROUNDDOWN u) div PGSIZE) = 0"
proof -
  have "PGSIZE - 1 < PGSIZE" by (simp add: PGSIZE_def word_less_nat_alt)
  from page_offset [OF assms this] have "PGROUNDDOWN (u + PGSIZE - 1) = u" by (simp add: algebra_simps)
  then show ?thesis using assms by simp
qed

lemma mappages_run:
  assumes g: "grown K s0 L0 (V2P d) s L E F" and u: "upage u" "E u = None"
    and P: "paths (phys s) (V2P d) \<subseteq> P" "finite P" "card P + card (dom F) \<le> length L0"
    and uP: "[PMX u] \<in> P" "[PMX u, PDPX u] \<in> P" "[PMX u, PDPX u, PDX u] \<in> P"
    and pa: "pg_aligned pa" "pa \<in> dom F" "perm AND NOT 4095 = 0" and new: "\<And>w e'. E w = Some e' \<Longrightarrow> PTE_ADDR e' \<noteq> pa"
  shows "\<exists>s' L'. mappages s d u PGSIZE pa perm = Inr (0, s')
    \<and> grown K s0 L0 (V2P d) s' L' (E(u \<mapsto> pa OR perm OR PTE_P)) F \<and> paths (phys s') (V2P d) \<subseteq> P"
proof -
  obtain s1 L1 where s1: "walkpgdir s d u True = Inr (pte_ptr s1 (V2P d) u, s1)" "grown K s0 L0 (V2P d) s1 L1 E F"
    "has_pt s1 (V2P d) u" "paths (phys s1) (V2P d) \<subseteq> P"
    using walk_alloc [OF g u(1) P uP] by blast
  note ok = grown_pt_ok [OF s1(2)]
  let ?e = "pa OR perm OR PTE_P"
  have al: "pg_aligned u" "PGROUNDDOWN u = u" using u(1) by (simp_all add: upage_def)
  have "(perm OR PTE_P) AND NOT 4095 = 0" using pa(3) by (simp add: bit.conj_disj_distrib2 PTE_P_def)
  then have ad: "PTE_ADDR ?e = pa" using PTE_ADDR_or [OF pa(1), of "perm OR PTE_P"] by (simp add: or.assoc)
  obtain e0 where e0: "pte_of (phys s1) (V2P d) u = Some e0"
    using s1(3) by (auto simp: has_pt_def pte_of_def pte_slot_def)
  then have "\<not> present e0" using grownD(9) [OF s1(2) u(1)] u(2) by (simp add: entry_def split: if_splits)
  then have np: "e0 AND PTE_P = 0" by (simp add: present_def)
  have "mappages s d u PGSIZE pa perm = Inr (0, put_pte s1 (V2P d) u ?e)"
    using s1(1) pte_ptr_nonnull [OF ok s1(3)] get_pte_ptr [OF ok s1(3)] e0 np set_pte_ptr [OF ok s1(3)]
    by (simp add: mappages_def Let_def one_page [OF al(1), unfolded al(2)] al(2))
  moreover have "grown K s0 L0 (V2P d) (put_pte s1 (V2P d) u ?e) L1 (E(u \<mapsto> ?e)) F"
    by (rule grown_put [OF s1(2,3)]) (use ad pa(2) new present_or [of "pa OR perm"] in \<open>auto simp: or.assoc\<close>)
  moreover have "paths (phys (put_pte s1 (V2P d) u ?e)) (V2P d) \<subseteq> P"
    using same_tbl_paths [OF put_pte_same_tbl [OF ok s1(3)]] s1(4) by simp
  ultimately show ?thesis by blast
qed

section \<open>The other address space does not change\<close>

lemma grown_other:
  assumes as: "aspace s0 L0 t ext" and g: "grown K s0 L0 c s L E F"
  shows "aspace s L t ext" "upage u \<Longrightarrow> pte_of (phys s) t u = pte_of (phys s0) t u"
    "upage u \<Longrightarrow> entry (phys s0) t u = Some e \<Longrightarrow> k < PGSIZE \<Longrightarrow> phys s (PTE_ADDR e + k) = phys s0 (PTE_ADDR e + k)"
    "mappers (phys s) t f = mappers (phys s0) t f"
proof -
  note f = grownD [OF g]
  have tb: "kernel_page s0 (P2V x)" "P2V x \<notin> set L0" if "x \<in> tables (phys s0) t" for x
    using as that by (auto simp: aspace_def)
  have inj: "pt_inj (phys s0) t" using as by (simp add: aspace_def)
  have out: "phys s x = phys s0 x" if "PGROUNDDOWN x \<in> tables (phys s0) t" for x
    using f(6) tb(2) [OF that] by blast
  note st = outside_same_tbl [OF inj out]
  show pte: "pte_of (phys s) t u = pte_of (phys s0) t u" if "upage u" for u
    by (rule outside_pte [OF inj out that])
  then show mp: "mappers (phys s) t f = mappers (phys s0) t f" for f
    unfolding mappers_def by (rule_tac Collect_cong) auto
  have fr: "frame_ok s0 L0 t (PTE_ADDR e)"
    "page_refs s0 (P2V (PTE_ADDR e)) = card (mappers (phys s0) t (PTE_ADDR e)) + ext (PTE_ADDR e)"
    if "upage u" "pte_of (phys s0) t u = Some e" "present e" for u e
    using as that unfolding aspace_def by blast+
  show "phys s (PTE_ADDR e + k) = phys s0 (PTE_ADDR e + k)" if "upage u" "entry (phys s0) t u = Some e" "k < PGSIZE"
    using fr(1) [of u e] that f(6) [of "PTE_ADDR e + k"] page_offset [of "PTE_ADDR e" k] by (auto simp: frame_ok_def entry_Some)
  show "aspace s L t ext"
    unfolding aspace_def
  proof (intro conjI allI impI ballI)
    show "kmem_inv s L" "pt_inj (phys s) t" using f(2) same_tbl_inj [OF st inj] by auto
    show "kernel_page s (P2V x)" "P2V x \<notin> set L" if "x \<in> tables (phys s) t" for x
      using that tb [of x] same_tbl_tables [OF st] f(3,4) by auto
    fix u e assume e: "upage u" "pte_of (phys s) t u = Some e" "present e"
    note fe = fr [OF e(1) e(2) [unfolded pte [OF e(1)]] e(3)]
    show "frame_ok s L t (PTE_ADDR e)"
      using fe(1) f(3,4) same_tbl_tables [OF st] by (auto simp: frame_ok_def)
    show "page_refs s (P2V (PTE_ADDR e)) = card (mappers (phys s) t (PTE_ADDR e)) + ext (PTE_ADDR e)"
      using fe f(5) [of "P2V (PTE_ADDR e)"] mp by (simp add: frame_ok_def)
  qed
qed

section \<open>Copying an address space\<close>

text \<open>The tables that translate the pages \<open>U\<close>, named by the indices that lead to them.\<close>

definition table_paths :: "u64 set \<Rightarrow> u64 list set" where
  "table_paths U = insert [] (\<Union>u\<in>U. {[PMX u], [PMX u, PDPX u], [PMX u, PDPX u, PDX u]})"

definition copy_of :: "memory \<Rightarrow> u64 \<Rightarrow> (u64 \<rightharpoonup> u64) \<Rightarrow> (u64 \<rightharpoonup> (u64 \<Rightarrow> u8)) \<Rightarrow> bool" where
  "copy_of m t E F \<longleftrightarrow> (\<forall>u e'. E u = Some e' \<longrightarrow> (\<exists>e b. entry m t u = Some e \<and> PTE_FLAGS e' = PTE_FLAGS e
     \<and> F (PTE_ADDR e') = Some b \<and> (\<forall>k<PGSIZE. b k = m (PTE_ADDR e + k))))"

lemma present_flags:
  assumes "present e"
  shows "PTE_FLAGS e OR PTE_P = PTE_FLAGS e" "PTE_FLAGS e AND NOT 4095 = 0"
proof -
  have "PTE_FLAGS e AND PTE_P = e AND PTE_P" by (simp add: PTE_FLAGS_def PTE_P_def and.assoc)
  then have "PTE_FLAGS e AND 2 ^ 0 \<noteq> 0" using assms by (simp add: present_def PTE_P_def)
  from flag_absorb [OF this] show "PTE_FLAGS e OR PTE_P = PTE_FLAGS e" by (simp add: PTE_P_def)
  show "PTE_FLAGS e AND NOT 4095 = 0" by (simp add: PTE_FLAGS_def and.assoc)
qed

lemma finite_table_paths: "finite U \<Longrightarrow> finite (table_paths U)"
  by (simp add: table_paths_def)

text \<open>One page of the copy: its frame is filled before it is mapped.\<close>

lemma copy_page:
  assumes as: "aspace s0 L0 (V2P pgdir) ext" and g: "grown K s0 L0 (V2P d) s (v # L) E F"
    and u: "upage u" "E u = None" "entry (phys s0) (V2P pgdir) u = Some e"
    and P: "paths (phys s) (V2P d) \<subseteq> P" "finite P" "card P + card (dom F) < length L0" "table_paths {u} \<subseteq> P"
    and cp: "copy_of (phys s0) (V2P pgdir) E F"
  shows "\<exists>s' L' e' F'. copyuvm_loop (u # us) pgdir d s = copyuvm_loop us pgdir d s'
    \<and> grown K s0 L0 (V2P d) s' L' (E(u \<mapsto> e')) F' \<and> card (dom F') = Suc (card (dom F))
    \<and> paths (phys s') (V2P d) \<subseteq> P \<and> copy_of (phys s0) (V2P pgdir) (E(u \<mapsto> e')) F'"
proof -
  let ?t = "V2P pgdir" and ?f = "PTE_ADDR e"
  note oth = grown_other [OF as g] and h = grown_head [OF g]
  have e: "pte_of (phys s) ?t u = Some e" "present e" using u(3) oth(2) [OF u(1)] by (simp_all add: entry_Some)
  then have hp: "has_pt s ?t u" using u(1) by (auto simp: has_pt_def pte_of_def pte_slot_def)
  note ok = aspace_pt_ok [OF oth(1)]
  have fk: "?f < PHYSTOP"
    using as u(1,3) by (auto simp: aspace_def frame_ok_def entry_Some kernel_page_def valid_page_def)
  define m where "m = memmove (phys s) (V2P v) ?f (ucast PGSIZE)"
  have mc: "m = copy_bytes (phys s) (V2P v) ?f PGSIZE"
    unfolding m_def by (rule memmove_page) (use fk h(7) in \<open>auto simp: kernel_page_def valid_page_def\<close>)
  have mo: "m x = phys s x" if "PGROUNDDOWN x \<noteq> V2P v" for x
    using in_range_page [of "V2P v" x] h(5) that unfolding mc by (simp add: copy_bytes_def)
  have mb: "m (V2P v + k) = phys s0 (?f + k)" if "k < PGSIZE" for k
    using that oth(3) [OF u(1,3) that] unfolding mc by (simp add: copy_bytes_def in_range_def)
  obtain s1 where s1: "kalloc s = Inr (v, s1)" "phys s1 = phys s"
    "grown K s0 L0 (V2P d) (s1\<lparr>phys := m\<rparr>) L E (F(V2P v \<mapsto> (\<lambda>k. m (V2P v + k))))"
    "paths m (V2P d) = paths (phys s) (V2P d)"
    using grown_frame [OF g mo] by blast
  let ?F = "F(V2P v \<mapsto> (\<lambda>k. m (V2P v + k)))" and ?e = "V2P v OR PTE_FLAGS e OR PTE_P"
  have cF: "card (dom ?F) = Suc (card (dom F))" using h(4) grownD(13) [OF g] by simp
  have new: "PTE_ADDR e' \<noteq> V2P v" if "E w = Some e'" for w e' using grownD(11) [OF g that] h(4) by auto
  note fl = present_flags [OF e(2)]
  obtain s2 L2 where s2: "mappages (s1\<lparr>phys := m\<rparr>) d u PGSIZE (V2P v) (PTE_FLAGS e) = Inr (0, s2)"
    "grown K s0 L0 (V2P d) s2 L2 (E(u \<mapsto> ?e)) ?F" "paths (phys s2) (V2P d) \<subseteq> P"
    using mappages_run [OF s1(3) u(1,2), of P "V2P v" "PTE_FLAGS e"] P cF h(5) new fl(2) s1(4)
    by (auto simp: table_paths_def)
  have ee: "?e = V2P v OR PTE_FLAGS e" using fl(1) by (simp add: or.assoc)
  have "copyuvm_loop (u # us) pgdir d s = copyuvm_loop us pgdir d s2"
    using walk_ptr [OF ok hp] pte_ptr_nonnull [OF ok hp] get_pte_ptr [OF ok hp] e s1(1,2) h(6) s2(1)
    by (simp add: present_def m_def)
  moreover have "copy_of (phys s0) ?t (E(u \<mapsto> ?e)) ?F"
    unfolding copy_of_def
  proof (intro allI impI)
    fix w e' assume w: "(E(u \<mapsto> ?e)) w = Some e'"
    show "\<exists>e b. entry (phys s0) ?t w = Some e \<and> PTE_FLAGS e' = PTE_FLAGS e \<and> ?F (PTE_ADDR e') = Some b
      \<and> (\<forall>k<PGSIZE. b k = phys s0 (PTE_ADDR e + k))"
    proof (cases "w = u")
      case True
      then have "PTE_FLAGS e' = PTE_FLAGS e" "PTE_ADDR e' = V2P v"
        using w PTE_FLAGS_or [of "V2P v" "PTE_FLAGS e"] PTE_ADDR_or [of "V2P v" "PTE_FLAGS e"] h(5) fl(2) unfolding ee by auto
      then show ?thesis using True u(3) mb by auto
    next
      case False
      then have E: "E w = Some e'" using w by simp
      then show ?thesis using cp new [OF E] unfolding copy_of_def by fastforce
    qed
  qed
  ultimately show ?thesis using s2(2,3) cF by blast
qed

lemma pages_upto_spec:
  "pg_aligned a \<Longrightarrow> unat lim \<le> 2 ^ 47 \<Longrightarrow>
    set (pages_upto a lim) = {u. upage u \<and> a \<le> u \<and> u < lim} \<and> distinct (pages_upto a lim)"
proof (induction a lim rule: pages_upto.induct)
  case (1 a lim)
  have up: "upage u" if "pg_aligned u" "u < lim" for u using that 1(3) by (auto simp: upage_def word_less_nat_alt)
  show ?case
  proof (cases "a < lim")
    case False
    then show ?thesis by (auto simp: pages_upto.simps [of a lim])
  next
    case True
    then have nw: "a < a + PGSIZE" using up [OF 1(2)] by (simp add: upage_def PGSIZE_def word_less_nat_alt unat_add_no_wrap)
    have IH: "set (pages_upto (a + PGSIZE) lim) = {u. upage u \<and> a + PGSIZE \<le> u \<and> u < lim}" "distinct (pages_upto (a + PGSIZE) lim)"
      using 1(1) [OF conjI [OF True nw]] pg_aligned_add [OF 1(2), of PGSIZE] 1(3) by simp_all
    have "u = a \<or> a + PGSIZE \<le> u" if "upage u" "a \<le> u" for u
      using aligned_next [of u a] that nw 1(2) by (auto simp: upage_def)
    moreover have "a \<le> u" if "a + PGSIZE \<le> u" for u using that nw by simp
    moreover have "\<not> a + PGSIZE \<le> a" using nw by simp
    ultimately show ?thesis
      using True nw IH up [OF 1(2)] by (auto simp: pages_upto.simps [of a lim])
  qed
qed

lemma copyuvm_loop_run:
  assumes "aspace s0 L0 (V2P pgdir) ext" and "grown K s0 L0 (V2P d) s L E F" and "distinct us"
    and "\<And>u. u \<in> set us \<Longrightarrow> upage u \<and> E u = None \<and> entry (phys s0) (V2P pgdir) u \<noteq> None"
    and "paths (phys s) (V2P d) \<subseteq> P" "finite P" "card P + card (dom F) + length us \<le> length L0" "table_paths (set us) \<subseteq> P"
    and "copy_of (phys s0) (V2P pgdir) E F"
  shows "\<exists>s' L' E' F'. copyuvm_loop us pgdir d s = Inr (True, s') \<and> grown K s0 L0 (V2P d) s' L' E' F'
    \<and> dom E' = dom E \<union> set us \<and> copy_of (phys s0) (V2P pgdir) E' F'"
  using assms(2-)
proof (induction us arbitrary: s L E F)
  case Nil
  then show ?case by (auto simp del: fun_upd_apply)
next
  case (Cons u us)
  note g = Cons.prems(1)
  have "card (paths (phys s) (V2P d)) \<le> card P" using Cons.prems(4,5) by (intro card_mono)
  then have "L \<noteq> []" using grownD(15) [OF g] Cons.prems(6) by auto
  then obtain v L1 where L: "L = v # L1" by (cases L) auto
  obtain e where u: "upage u" "E u = None" "entry (phys s0) (V2P pgdir) u = Some e" using Cons.prems(3) [of u] by auto
  obtain s1 L2 e' F1 where s1: "copyuvm_loop (u # us) pgdir d s = copyuvm_loop us pgdir d s1"
    "grown K s0 L0 (V2P d) s1 L2 (E(u \<mapsto> e')) F1" "card (dom F1) = Suc (card (dom F))"
    "paths (phys s1) (V2P d) \<subseteq> P" "copy_of (phys s0) (V2P pgdir) (E(u \<mapsto> e')) F1"
    using copy_page [OF assms(1) g [unfolded L] u Cons.prems(4,5) _ _ Cons.prems(8), of us] Cons.prems(6,7)
    by (auto simp: table_paths_def)
  have "\<exists>s' L' E' F'. copyuvm_loop us pgdir d s1 = Inr (True, s') \<and> grown K s0 L0 (V2P d) s' L' E' F'
    \<and> dom E' = dom (E(u \<mapsto> e')) \<union> set us \<and> copy_of (phys s0) (V2P pgdir) E' F'"
    by (rule Cons.IH [OF s1(2) _ _ s1(4) Cons.prems(5) _ _ s1(5)])
      (use Cons.prems(2,3,6,7) s1(3) in \<open>auto simp: table_paths_def\<close>)
  then show ?case using s1(1) by auto
qed

text \<open>A new root has no tables below its user half, and one entry in the kernel's half.\<close>

definition kernel_half :: "u64 \<Rightarrow> u64 \<Rightarrow> u64" where
  "kernel_half kpdpt i = (if i = 256 then V2P kpdpt OR PTE_P OR PTE_W else 0)"

lemma setupkvm_run:
  assumes inv: "kmem_inv s0 (d # L)"
  shows "\<exists>s. setupkvm s0 kpdpt = Inr (d, s) \<and> d \<noteq> 0
    \<and> grown (kernel_half kpdpt) s0 (d # L) (V2P d) s L Map.empty Map.empty \<and> paths (phys s) (V2P d) = {[]}"
proof -
  obtain s1 where s1: "kalloc s0 = Inr (d, s1)" "kmem_inv s1 L" "kernel_page s1 = kernel_page s0"
    "\<And>u. kernel_page s0 u \<Longrightarrow> u \<noteq> d \<Longrightarrow> page_refs s1 u = page_refs s0 u" "\<And>u. page_byte s1 u = page_byte s0 u"
    using kpages.alloc_spec [OF inv] by auto
  have ph: "phys s1 x = phys s0 x" for x
    using s1(5) [of "P2V x"] by (auto simp: page_byte_def fun_eq_iff dest: spec [of _ 0])
  have d: "kernel_page s0 d" "d \<notin> set L" "d \<noteq> 0" "pg_aligned (V2P d)"
    using kpages.inv_page [OF inv, of d] kpages.inv_distinct [OF inv] kernel_page_nonnull [OF inv, of d]
    by (auto simp: kernel_page_def valid_page_def)
  define m where "m = store64 (fill (phys s1) (V2P d) 0 PGSIZE) (slot (V2P d) 256) (V2P kpdpt OR PTE_P OR PTE_W)"
  have run: "setupkvm s0 kpdpt = Inr (d, s1\<lparr>phys := m\<rparr>)"
    using s1(1) d(3) V2P_slot [of d 256] by (simp add: setupkvm_def m_def memset_fill Let_def)
  have out: "m x = phys s0 x" if "PGROUNDDOWN x \<noteq> V2P d" for x
    using store_leaf_byte [OF d(4) _ that, of 256] in_range_page [OF d(4), of x] that ph
    by (simp add: m_def fill_def)
  have ld: "load64 m (slot (V2P d) i) = kernel_half kpdpt i" if "unat i < 512" for i
    using load64_store64_slot [of 256 i "fill (phys s1) (V2P d) 0 PGSIZE" "V2P d"] that load64_fill_zero_page [of i]
    by (auto simp: m_def kernel_half_def)
  have zero: "next_tbl m (V2P d) i = None" if "unat i < 256" for i
    using ld [of i] that by (auto simp: next_tbl_def kernel_half_def)
  have tbl: "tbl m (V2P d) p = (if p = [] then Some (V2P d) else None)" if "upath p" for p
    using that zero [of "hd p"] by (cases p) (auto simp: upath_def)
  have ti: "tables m (V2P d) = {V2P d}" "pt_inj m (V2P d)" "paths m (V2P d) = {[]}"
    using tbl d(4) upath_nil by (auto simp: tables_def pt_inj_def paths_def split: if_splits intro: exI [of _ "[]"])
  have en: "entry m (V2P d) u = None" if "upage u" for u
    using tbl [OF upath_pathof_upage [OF that]] by (simp add: entry_def pte_of_def pte_slot_def pathof_def)
  have "kmem_inv (s1\<lparr>phys := m\<rparr>) L"
    by (rule kmem_inv_phys [OF s1(2)]) (use out ph d(2) in \<open>metis P2V_V2P\<close>)
  moreover have "m x = phys s0 x" if "P2V (PGROUNDDOWN x) \<noteq> d" for x using out [of x] that by fastforce
  ultimately have "grown (kernel_half kpdpt) s0 (d # L) (V2P d) (s1\<lparr>phys := m\<rparr>) L Map.empty Map.empty"
    using inv ti en s1(3,4) d(2) ld by (auto simp: grown_def kernel_page_def page_refs_def fun_eq_iff)
  then show ?thesis using run d(3) ti(3) by auto
qed

lemma grown_mappers:
  assumes "grown K s0 L0 t s L E F"
  shows "u \<in> mappers (phys s) t f \<longleftrightarrow> (\<exists>e. E u = Some e \<and> PTE_ADDR e = f)"
    "u \<in> mappers (phys s) t f \<Longrightarrow> mappers (phys s) t f = {u}"
proof -
  note f = grownD [OF assms]
  have iff: "u \<in> mappers (phys s) t f \<longleftrightarrow> (\<exists>e. E u = Some e \<and> PTE_ADDR e = f)" for u
    using f(9) [of u] f(11) [of u] entry_Some [of "phys s" t u] by (auto simp: mappers_def)
  then show "u \<in> mappers (phys s) t f \<longleftrightarrow> (\<exists>e. E u = Some e \<and> PTE_ADDR e = f)" .
  assume "u \<in> mappers (phys s) t f"
  then show "mappers (phys s) t f = {u}" using iff f(12) by blast
qed

lemma grown_aspace:
  assumes "grown K s0 L0 t s L E F"
  shows "aspace s L t (\<lambda>_. 0)"
  unfolding aspace_def
proof (intro conjI allI impI ballI)
  note f = grownD [OF assms]
  show "kmem_inv s L" "pt_inj (phys s) t" by (rule f(2), rule f(7))
  show "kernel_page s (P2V x)" "P2V x \<notin> set L" if "x \<in> tables (phys s) t" for x
    using f(8) [OF that] f(16) f(4) by auto
  fix u e assume e: "upage u" "pte_of (phys s) t u = Some e" "present e"
  then have E: "E u = Some e" using f(9) [OF e(1)] entry_Some [of "phys s" t u e] by simp
  then obtain b where b: "F (PTE_ADDR e) = Some b" using f(11) by blast
  show "frame_ok s L t (PTE_ADDR e)" using f(10) [OF b] f(16) f(4) by (auto simp: frame_ok_def)
  have "mappers (phys s) t (PTE_ADDR e) = {u}" using grown_mappers [OF assms, of u "PTE_ADDR e"] E by blast
  then show "page_refs s (P2V (PTE_ADDR e)) = card (mappers (phys s) t (PTE_ADDR e)) + 0"
    using f(10) [OF b] by simp
qed

text \<open>The pages that \<^verbatim>\<open>copyuvm\<close> copies: those of the process except its first.\<close>

definition user_pages :: "u32 \<Rightarrow> u64 set" where
  "user_pages sz = {u. upage u \<and> PGSIZE \<le> u \<and> u < ucast sz}"

lemma user_pages_list:
  "set (pages_upto PGSIZE (ucast sz)) = user_pages sz" "distinct (pages_upto PGSIZE (ucast sz))"
  "length (pages_upto PGSIZE (ucast sz)) = card (user_pages sz)" "finite (user_pages sz)"
proof -
  have "unat (ucast sz :: u64) \<le> 2 ^ 47"
    using unsigned_less [of sz, where 'a = nat] by (simp add: unsigned_ucast_eq take_bit_nat_eq_self)
  from pages_upto_spec [OF _ this, of PGSIZE]
  show *: "set (pages_upto PGSIZE (ucast sz)) = user_pages sz" "distinct (pages_upto PGSIZE (ucast sz))"
    by (auto simp: user_pages_def)
  from distinct_card [OF *(2)] show "length (pages_upto PGSIZE (ucast sz)) = card (user_pages sz)" unfolding *(1) by simp
  show "finite (user_pages sz)" unfolding *(1) [symmetric] by simp
qed

lemma copyuvm_built:
  assumes as: "aspace s (d # L) (V2P pgdir) ext"
    and pages: "\<And>u. u \<in> user_pages sz \<Longrightarrow> entry (phys s) (V2P pgdir) u \<noteq> None"
    and room: "card (table_paths (user_pages sz)) + card (user_pages sz) \<le> Suc (length L)"
  shows "\<exists>s' L' E F. copyuvm s kpdpt pgdir sz = Inr (d, s') \<and> d \<noteq> 0
    \<and> grown (kernel_half kpdpt) s (d # L) (V2P d) s' L' E F
    \<and> dom E = user_pages sz \<and> copy_of (phys s) (V2P pgdir) E F"
proof -
  let ?us = "pages_upto PGSIZE (ucast sz)"
  note us = user_pages_list [of sz]
  have "kmem_inv s (d # L)" using as by (simp add: aspace_def)
  from setupkvm_run [OF this, of kpdpt] obtain s1 where s1: "setupkvm s kpdpt = Inr (d, s1)" "d \<noteq> 0"
    "grown (kernel_half kpdpt) s (d # L) (V2P d) s1 L Map.empty Map.empty" "paths (phys s1) (V2P d) = {[]}" by blast
  have "\<exists>s' L' E' F'. copyuvm_loop ?us pgdir d s1 = Inr (True, s')
    \<and> grown (kernel_half kpdpt) s (d # L) (V2P d) s' L' E' F'
    \<and> dom E' = dom (Map.empty :: u64 \<rightharpoonup> u64) \<union> set ?us \<and> copy_of (phys s) (V2P pgdir) E' F'"
  proof (rule copyuvm_loop_run [OF as s1(3) us(2)])
    show "upage u \<and> Map.empty u = None \<and> entry (phys s) (V2P pgdir) u \<noteq> None" if "u \<in> set ?us" for u
      using that pages [of u] us(1) by (simp add: user_pages_def)
    show "paths (phys s1) (V2P d) \<subseteq> table_paths (user_pages sz)" using s1(4) by (simp add: table_paths_def)
    show "finite (table_paths (user_pages sz))" by (rule finite_table_paths [OF us(4)])
    show "card (table_paths (user_pages sz)) + card (dom (Map.empty :: u64 \<rightharpoonup> u64 \<Rightarrow> u8)) + length ?us \<le> length (d # L)"
      using room us(3) by simp
  qed (simp_all add: us(1) copy_of_def)
  then obtain s' L' E F where s': "copyuvm_loop ?us pgdir d s1 = Inr (True, s')"
    "grown (kernel_half kpdpt) s (d # L) (V2P d) s' L' E F" "dom E = user_pages sz" "copy_of (phys s) (V2P pgdir) E F"
    unfolding us(1) by auto
  have "copyuvm s kpdpt pgdir sz = Inr (d, s')" using s1(1,2) s'(1) by (simp add: copyuvm_def)
  then show ?thesis using s1(2) s' by blast
qed

lemma user_byte_entry:
  "user_byte m t va = (case entry m t (PGROUNDDOWN va) of None \<Rightarrow> None
     | Some e \<Rightarrow> if e AND PTE_U \<noteq> 0 then Some (m (PTE_ADDR e + (va AND 0xFFF))) else None)"
  by (auto simp: user_byte_def entry_def split: option.splits)

lemma page_of_user: "unat va < 2 ^ 47 \<Longrightarrow> upage (PGROUNDDOWN va)"
  by (rule upage_PGROUNDDOWN)

lemma offset_less: "(va :: u64) AND 0xFFF < PGSIZE"
  by (simp add: PGSIZE_def word_less_nat_alt unat_and_4095)

lemma flags_U: "PTE_FLAGS e AND PTE_U = e AND PTE_U"
  by (simp add: PTE_FLAGS_def PTE_U_def and.assoc)

text \<open>What \<^verbatim>\<open>copyuvm\<close> makes of the address space \<open>t\<close> with \<open>sz\<close> bytes: in the address space \<open>c\<close> every
  address from the second page to the last has the byte it has in \<open>t\<close>, with the same permissions, and no
  other address is mapped.\<close>

definition copies :: "memory \<Rightarrow> u64 \<Rightarrow> u32 \<Rightarrow> memory \<Rightarrow> u64 \<Rightarrow> bool" where
  "copies m t sz m' c \<longleftrightarrow> (\<forall>va. unat va < 2 ^ 47 \<longrightarrow>
     user_byte m' c va = (if PGROUNDDOWN va \<in> user_pages sz then user_byte m t va else None)
     \<and> map_option PTE_FLAGS (entry m' c (PGROUNDDOWN va))
         = (if PGROUNDDOWN va \<in> user_pages sz then map_option PTE_FLAGS (entry m t (PGROUNDDOWN va)) else None))"

lemma built_copies:
  assumes g: "grown K s0 L0 c s L E F" and E: "dom E = user_pages sz" and cp: "copy_of m t E F"
  shows "copies m t sz (phys s) c"
  unfolding copies_def
proof (intro allI impI)
  fix va :: u64 assume "unat va < 2 ^ 47"
  then have en: "entry (phys s) c (PGROUNDDOWN va) = E (PGROUNDDOWN va)" using grownD(9) [OF g page_of_user] by blast
  show "user_byte (phys s) c va = (if PGROUNDDOWN va \<in> user_pages sz then user_byte m t va else None)
     \<and> map_option PTE_FLAGS (entry (phys s) c (PGROUNDDOWN va))
         = (if PGROUNDDOWN va \<in> user_pages sz then map_option PTE_FLAGS (entry m t (PGROUNDDOWN va)) else None)"
  proof (cases "E (PGROUNDDOWN va)")
    case None
    then have "PGROUNDDOWN va \<notin> user_pages sz" using E by auto
    then show ?thesis using None en by (simp add: user_byte_entry)
  next
    case (Some e')
    then obtain e b where e: "entry m t (PGROUNDDOWN va) = Some e" "PTE_FLAGS e' = PTE_FLAGS e"
      "F (PTE_ADDR e') = Some b" "\<forall>k<PGSIZE. b k = m (PTE_ADDR e + k)"
      using cp unfolding copy_of_def by blast
    have "phys s (PTE_ADDR e' + (va AND 0xFFF)) = m (PTE_ADDR e + (va AND 0xFFF))"
      using grownD(10) [OF g e(3)] e(4) offset_less [of va] by auto
    moreover have "e' AND PTE_U = e AND PTE_U" using flags_U [of e'] flags_U [of e] e(2) by simp
    moreover have "PGROUNDDOWN va \<in> user_pages sz" using Some E by auto
    ultimately show ?thesis using Some en e(1,2) by (simp add: user_byte_entry)
  qed
qed

lemma copyuvm_run:
  assumes as: "aspace s L (V2P pgdir) ext"
    and pages: "\<And>u. u \<in> user_pages sz \<Longrightarrow> entry (phys s) (V2P pgdir) u \<noteq> None"
    and room: "card (table_paths (user_pages sz)) + card (user_pages sz) \<le> length L"
  shows "\<exists>d s' L'. copyuvm s kpdpt pgdir sz = Inr (d, s') \<and> d \<noteq> 0
    \<and> aspace s' L' (V2P pgdir) ext \<and> aspace s' L' (V2P d) (\<lambda>_. 0)
    \<and> same_view (phys s) (phys s') (V2P pgdir) \<and> copies (phys s) (V2P pgdir) sz (phys s') (V2P d)
    \<and> (\<forall>f. mappers (phys s') (V2P d) f = {} \<or> mappers (phys s') (V2P pgdir) f = {})
    \<and> load64 (phys s') (slot (V2P d) 256) = V2P kpdpt OR PTE_P OR PTE_W"
proof -
  have "finite (table_paths (user_pages sz))" "table_paths (user_pages sz) \<noteq> {}"
    using finite_table_paths [OF user_pages_list(4)] by (auto simp: table_paths_def)
  then have "0 < card (table_paths (user_pages sz))" by (simp add: card_gt_0_iff)
  then obtain d L1 where L: "L = d # L1" using room by (cases L) auto
  obtain s' L' E F where s': "copyuvm s kpdpt pgdir sz = Inr (d, s')" "d \<noteq> 0"
    "grown (kernel_half kpdpt) s (d # L1) (V2P d) s' L' E F" "dom E = user_pages sz" "copy_of (phys s) (V2P pgdir) E F"
    using copyuvm_built [where sz = sz and kpdpt = kpdpt, OF as [unfolded L]] pages room L by auto
  note g = s'(3) and oth = grown_other [OF as [unfolded L] s'(3)]
  have dj: "mappers (phys s') (V2P d) f = {} \<or> mappers (phys s') (V2P pgdir) f = {}" for f
  proof (rule ccontr)
    assume "\<not> ?thesis"
    then obtain u w where u: "u \<in> mappers (phys s') (V2P d) f" and w: "w \<in> mappers (phys s) (V2P pgdir) f"
      using oth(4) by blast
    obtain e b where "E u = Some e" "PTE_ADDR e = f" "F f = Some b"
      using u grown_mappers(1) [OF g, of u f] grownD(11) [OF g] by blast
    then have "P2V f \<in> set (d # L1)" using grownD(10) [OF g] by blast
    moreover have "P2V f \<notin> set (d # L1)" using aspace_count(2) [OF as [unfolded L] w] by (simp add: frame_ok_def)
    ultimately show False by blast
  qed
  have sv: "same_view (phys s) (phys s') (V2P pgdir)"
    unfolding same_view_def
  proof (intro allI impI)
    fix va :: u64 assume va: "unat va < 2 ^ 47"
    then have u: "upage (PGROUNDDOWN va)" by (rule page_of_user)
    have "entry (phys s') (V2P pgdir) (PGROUNDDOWN va) = entry (phys s) (V2P pgdir) (PGROUNDDOWN va)"
      using oth(2) [OF u] by (simp add: entry_def)
    then show "user_byte (phys s') (V2P pgdir) va = user_byte (phys s) (V2P pgdir) va"
      using oth(3) [OF u _ offset_less] by (auto simp: user_byte_entry split: option.splits)
  qed
  have "load64 (phys s') (slot (V2P d) 256) = V2P kpdpt OR PTE_P OR PTE_W"
    using grownD(17) [OF g, of 256] by (simp add: kernel_half_def)
  then show ?thesis using s'(1,2) oth(1) grown_aspace [OF g] sv built_copies [OF g s'(4,5)] dj by blast
qed

lemma kalloc_aspace:
  assumes as: "aspace s (k # L) t ext"
  shows "\<exists>s1. kalloc s = Inr (k, s1) \<and> k \<noteq> 0 \<and> phys s1 = phys s \<and> aspace s1 L t ext"
proof -
  obtain s1 where s1: "kalloc s = Inr (k, s1)" "sim s t s1 L (pte_of (phys s) t) ((page_refs s)(k := 1)) {}" "phys s1 = phys s"
    using sim_alloc [OF sim_refl [OF as]] by blast
  note f = simD [OF s1(2)]
  have "k \<noteq> 0" using as kernel_page_nonnull [of s "k # L" k] kpages.inv_page [of s "k # L" k] by (auto simp: aspace_def)
  moreover have "aspace s1 L t ext"
    unfolding aspace_def
  proof (intro conjI allI impI ballI)
    show "kmem_inv s1 L" "pt_inj (phys s1) t" using f(1,2) by (auto simp: pt_ok_def)
    show "kernel_page s1 (P2V x)" "P2V x \<notin> set L" if "x \<in> tables (phys s1) t" for x
      using f(1,6) that s1(3) by (auto simp: pt_ok_def)
    fix u e assume e: "upage u" "pte_of (phys s1) t u = Some e" "present e"
    then have fr: "frame_ok s (k # L) t (PTE_ADDR e)"
      "page_refs s (P2V (PTE_ADDR e)) = card (mappers (phys s) t (PTE_ADDR e)) + ext (PTE_ADDR e)"
      using as s1(3) unfolding aspace_def by auto
    then show "frame_ok s1 L t (PTE_ADDR e)" using f(3) s1(3) by (simp add: frame_ok_def)
    show "page_refs s1 (P2V (PTE_ADDR e)) = card (mappers (phys s1) t (PTE_ADDR e)) + ext (PTE_ADDR e)"
      using fr f(8) [of "P2V (PTE_ADDR e)"] s1(3) by (auto simp: frame_ok_def)
  qed
  ultimately show ?thesis using s1 by blast
qed

end
