(* ===== verification/Fifo.thy ===== *)
theory Fifo
  imports Prelude
begin

text \<open>
  Bounded first-in-first-out buffers: the contract that the kernel's ring buffers keep, and
  the loops that fill and drain one, proved once against the contract.
\<close>

fun fill_buf :: "('s \<Rightarrow> bool) \<Rightarrow> ('a \<Rightarrow> 's \<Rightarrow> 's) \<Rightarrow> 's \<Rightarrow> 'a list \<Rightarrow> 's \<times> 'a list" where
  "fill_buf is_full put s [] = (s, [])"
| "fill_buf is_full put s (x # xs) = (if is_full s then (s, x # xs) else fill_buf is_full put (put x s) xs)"

fun drain_buf :: "('s \<Rightarrow> bool) \<Rightarrow> ('s \<Rightarrow> 'a \<times> 's) \<Rightarrow> 's \<Rightarrow> nat \<Rightarrow> 'a list \<times> 's" where
  "drain_buf is_empty get s 0 = ([], s)"
| "drain_buf is_empty get s (Suc n) =
     (if is_empty s then ([], s)
      else let (x, s') = get s; (xs, s'') = drain_buf is_empty get s' n in (x # xs, s''))"

locale bounded_fifo =
  fixes contents :: "'s \<Rightarrow> 'a list"
    and inv :: "'s \<Rightarrow> bool"
    and capacity :: nat
    and is_full :: "'s \<Rightarrow> bool"
    and is_empty :: "'s \<Rightarrow> bool"
    and put :: "'a \<Rightarrow> 's \<Rightarrow> 's"
    and get :: "'s \<Rightarrow> 'a \<times> 's"
  assumes inv_capacity: "inv s \<Longrightarrow> length (contents s) \<le> capacity"
    and full_spec: "inv s \<Longrightarrow> is_full s \<longleftrightarrow> length (contents s) = capacity"
    and empty_law: "inv s \<Longrightarrow> is_empty s \<longleftrightarrow> contents s = []"
    and put_spec: "inv s \<Longrightarrow> \<not> is_full s \<Longrightarrow> inv (put x s) \<and> contents (put x s) = contents s @ [x]"
    and get_spec: "inv s \<Longrightarrow> \<not> is_empty s \<Longrightarrow> get s = (x, s') \<Longrightarrow> inv s' \<and> contents s = x # contents s'"
begin

lemma fill_buf_spec:
  assumes "inv s" and "fill_buf is_full put s xs = (s', rest)"
  shows "inv s' \<and> contents s' @ rest = contents s @ xs \<and> (rest = [] \<or> is_full s')"
  using assms
proof (induction xs arbitrary: s)
  case (Cons x xs)
  then show ?case using put_spec [of s x] by (cases "is_full s") fastforce+
qed auto

lemma fill_buf_progress:
  assumes "inv s" and "\<not> is_full s" and "fill_buf is_full put s (x # xs) = (s', rest)"
  shows "length rest < length (x # xs)"
proof -
  have "length r \<le> length ys" if "fill_buf is_full put t ys = (t', r)" for t t' ys r
    using that by (induction ys arbitrary: t) (auto split: if_splits simp: le_SucI)
  from this [of "put x s" xs s' rest] show ?thesis using assms(2,3) by simp
qed

lemma drain_buf_spec:
  assumes "inv s" and "drain_buf is_empty get s n = (ys, s')"
  shows "inv s' \<and> ys @ contents s' = contents s \<and> length ys = min n (length (contents s))"
  using assms
proof (induction n arbitrary: s ys s')
  case (Suc n)
  show ?case
  proof (cases "is_empty s")
    case True
    then show ?thesis using Suc.prems empty_law by simp
  next
    case False
    obtain x s1 where g: "get s = (x, s1)" by (cases "get s")
    obtain zs s2 where d: "drain_buf is_empty get s1 n = (zs, s2)" by (cases "drain_buf is_empty get s1 n")
    have "inv s1 \<and> contents s = x # contents s1" using get_spec [OF Suc.prems(1) False g] .
    then show ?thesis using Suc.IH [OF _ d] Suc.prems(2) False g d by auto
  qed
qed auto

end

end
