(* ===== verification/Pipe.thy ===== *)
theory Pipe
  imports Fifo
begin

text \<open>
  Pipes (\<^verbatim>\<open>pipe.c\<close>): a ring buffer of \<^verbatim>\<open>PIPESIZE\<close> bytes indexed by two counters that run
  freely and wrap at the width of \<^verbatim>\<open>uint\<close>. A call runs under the pipe's lock until it
  returns or sleeps; the model's functions return which of the two happened. The creation
  and closing of pipes, which need the file table and the page allocator, are in the theory
  of files.
\<close>

definition PIPESIZE :: nat where "PIPESIZE = 512"

record pipe =
  data :: "u8 list"
  nread :: u32
  nwrite :: u32
  readopen :: bool
  writeopen :: bool

datatype outcome = Returns int | Sleeps

definition pipe_full :: "pipe \<Rightarrow> bool" where
  "pipe_full p \<longleftrightarrow> nwrite p = nread p + of_nat PIPESIZE"

definition pipe_empty :: "pipe \<Rightarrow> bool" where
  "pipe_empty p \<longleftrightarrow> nread p = nwrite p"

definition pipe_put :: "u8 \<Rightarrow> pipe \<Rightarrow> pipe" where
  "pipe_put b p = p\<lparr>data := (data p)[unat (nwrite p) mod PIPESIZE := b], nwrite := nwrite p + 1\<rparr>"

definition pipe_get :: "pipe \<Rightarrow> u8 \<times> pipe" where
  "pipe_get p = (data p ! (unat (nread p) mod PIPESIZE), p\<lparr>nread := nread p + 1\<rparr>)"

text \<open>
  \<^verbatim>\<open>pipewrite\<close> from loop index \<open>i\<close> on, with \<open>bs\<close> the bytes \<^verbatim>\<open>addr[i..n-1]\<close>: the pipe, the bytes
  not yet written and the outcome. A sleeping writer resumes here with what is left.
\<close>

fun pipewrite_loop :: "bool \<Rightarrow> int \<Rightarrow> pipe \<Rightarrow> u8 list \<Rightarrow> pipe \<times> u8 list \<times> outcome" where
  "pipewrite_loop killed n p [] = (p, [], Returns n)"
| "pipewrite_loop killed n p (b # bs) =
     (if pipe_full p
      then if \<not> readopen p \<or> killed then (p, b # bs, Returns (-1)) else (p, b # bs, Sleeps)
      else pipewrite_loop killed n (pipe_put b p) bs)"

definition pipewrite :: "bool \<Rightarrow> pipe \<Rightarrow> u8 list \<Rightarrow> pipe \<times> u8 list \<times> outcome" where
  "pipewrite killed p bs = pipewrite_loop killed (int (length bs)) p bs"

fun piperead_loop :: "pipe \<Rightarrow> nat \<Rightarrow> u8 list \<times> pipe" where
  "piperead_loop p 0 = ([], p)"
| "piperead_loop p (Suc n) =
     (if pipe_empty p then ([], p)
      else let (b, p) = pipe_get p; (bs, p) = piperead_loop p n in (b # bs, p))"

definition piperead :: "bool \<Rightarrow> pipe \<Rightarrow> int \<Rightarrow> u8 list \<times> pipe \<times> outcome" where
  "piperead killed p n =
     (if pipe_empty p \<and> writeopen p
      then if killed then ([], p, Returns (-1)) else ([], p, Sleeps)
      else let (bs, p) = piperead_loop p (nat n) in (bs, p, Returns (int (length bs))))"

text \<open>The initial pipe of \<^verbatim>\<open>pipealloc\<close>; the page it lives in comes from \<^verbatim>\<open>kalloc\<close> uncleared.\<close>

definition new_pipe :: "u8 list \<Rightarrow> pipe" where
  "new_pipe junk = \<lparr>data = junk, nread = 0, nwrite = 0, readopen = True, writeopen = True\<rparr>"

definition close_end :: "bool \<Rightarrow> pipe \<Rightarrow> pipe" where
  "close_end writable p = (if writable then p\<lparr>writeopen := False\<rparr> else p\<lparr>readopen := False\<rparr>)"

section \<open>The ring buffer is a bounded queue\<close>

definition pipe_count :: "pipe \<Rightarrow> nat" where
  "pipe_count p = unat (nwrite p - nread p)"

definition pipe_bytes :: "pipe \<Rightarrow> u8 list" where
  "pipe_bytes p = map (\<lambda>i. data p ! ((unat (nread p) + i) mod PIPESIZE)) [0..<pipe_count p]"

definition pipe_inv :: "pipe \<Rightarrow> bool" where
  "pipe_inv p \<longleftrightarrow> length (data p) = PIPESIZE \<and> pipe_count p \<le> PIPESIZE"

lemma unat_u32_less: "unat (a :: u32) < 2 ^ 32"
  using unsigned_less [of a] by simp

text \<open>The size of the buffer divides \<open>2 ^ 32\<close>, so wrapping counters do not disturb the index.\<close>

lemma ring_index: "unat (a + b :: u32) mod PIPESIZE = (unat a + unat b) mod PIPESIZE"
  by (simp add: unat_word_ariths PIPESIZE_def mod_mod_cancel)

lemma ring_nwrite: "unat (nwrite p) mod PIPESIZE = (unat (nread p) + pipe_count p) mod PIPESIZE"
  using ring_index [of "nread p" "nwrite p - nread p"] by (simp add: pipe_count_def)

lemma ring_distinct:
  assumes "i < n" and "n < PIPESIZE"
  shows "(r + i) mod PIPESIZE \<noteq> (r + n) mod PIPESIZE"
proof
  assume "(r + i) mod PIPESIZE = (r + n) mod PIPESIZE"
  then have "PIPESIZE dvd (r + n) - (r + i)"
    using mod_eq_dvd_iff_nat [of "r + i" "r + n" PIPESIZE] assms(1) by simp
  then show False using assms by (auto dest: dvd_imp_le)
qed

lemma pipe_full_count: "pipe_full p \<longleftrightarrow> pipe_count p = PIPESIZE"
proof -
  have "pipe_full p \<longleftrightarrow> nwrite p - nread p = of_nat PIPESIZE"
    unfolding pipe_full_def by (metis add_diff_cancel_left' diff_add_cancel add.commute)
  also have "\<dots> \<longleftrightarrow> pipe_count p = PIPESIZE"
    by (simp add: pipe_count_def word_unat_eq_iff unat_of_nat PIPESIZE_def)
  finally show ?thesis .
qed

lemma pipe_fields:
  "nwrite (pipe_put b p) = nwrite p + 1" "nread (pipe_put b p) = nread p"
  "nwrite (snd (pipe_get p)) = nwrite p" "nread (snd (pipe_get p)) = nread p + 1"
  by (simp_all add: pipe_put_def pipe_get_def)

lemma pipe_put_count:
  assumes "pipe_count p < PIPESIZE"
  shows "pipe_count (pipe_put b p) = Suc (pipe_count p)"
proof -
  have "nwrite p + 1 - nread p = (nwrite p - nread p) + 1" by (simp only: diff_add_eq)
  moreover have "unat ((nwrite p - nread p) + 1) = Suc (unat (nwrite p - nread p))"
    using assms by (simp add: pipe_count_def PIPESIZE_def unat_word_ariths)
  ultimately show ?thesis by (simp only: pipe_count_def pipe_fields)
qed

lemma pipe_get_count:
  assumes "\<not> pipe_empty p"
  shows "pipe_count p = Suc (pipe_count (snd (pipe_get p)))"
proof -
  have "nwrite p - (nread p + 1) = (nwrite p - nread p) - 1" by (simp only: diff_diff_eq)
  moreover have "nwrite p - nread p \<noteq> 0" using assms by (simp add: pipe_empty_def)
  then have "unat (nwrite p - nread p - 1) = unat (nwrite p - nread p) - 1" "unat (nwrite p - nread p) \<noteq> 0"
    by (simp_all add: unat_minus_one unat_eq_0)
  ultimately have "unat (nwrite p - nread p) = Suc (unat (nwrite p - (nread p + 1)))" by (simp only:)
  then show ?thesis by (simp only: pipe_count_def pipe_fields)
qed

interpretation ring: bounded_fifo pipe_bytes pipe_inv PIPESIZE pipe_full pipe_empty pipe_put pipe_get
proof (unfold_locales, goal_cases)
  case (1 p)
  then show ?case by (simp add: pipe_bytes_def pipe_inv_def)
next
  case (2 p)
  then show ?case by (simp add: pipe_bytes_def pipe_full_count)
next
  case (3 p)
  then show ?case by (auto simp: pipe_bytes_def pipe_empty_def pipe_count_def unat_eq_0)
next
  case (4 p b)
  then have lt: "pipe_count p < PIPESIZE" using pipe_full_count [of p] by (simp add: pipe_inv_def)
  have len: "length (data p) = PIPESIZE" using 4 by (simp add: pipe_inv_def)
  have "pipe_bytes (pipe_put b p) = pipe_bytes p @ [b]"
    unfolding pipe_bytes_def pipe_put_count [OF lt]
    using len ring_nwrite [of p] ring_distinct [OF _ lt, of _ "unat (nread p)"]
    by (auto simp: pipe_put_def PIPESIZE_def nth_list_update_neq [OF not_sym])
  then show ?case using pipe_put_count [OF lt, of b] lt len by (simp add: pipe_inv_def pipe_put_def)
next
  case (5 p b p')
  have n: "pipe_count p = Suc (pipe_count p')" and p': "p' = p\<lparr>nread := nread p + 1\<rparr>"
    and b: "b = data p ! (unat (nread p) mod PIPESIZE)"
    using pipe_get_count [OF 5(2)] 5(3) by (simp_all add: pipe_get_def)
  have "(unat (nread p + 1) + i) mod PIPESIZE = (unat (nread p) + Suc i) mod PIPESIZE" for i
    using ring_index [of "nread p" 1] mod_add_left_eq [of "unat (nread p + 1)" PIPESIZE i]
      mod_add_left_eq [of "unat (nread p) + 1" PIPESIZE i] by simp
  then have "pipe_bytes p = b # pipe_bytes p'"
    unfolding pipe_bytes_def n upt_conv_Cons [OF zero_less_Suc] by (simp add: p' b map_Suc_upt [symmetric] del: map_Suc_upt upt_Suc)
  then show ?case using 5(1) n by (auto simp: pipe_inv_def p')
qed

lemma pipe_put_open [simp]: "readopen (pipe_put b p) = readopen p" "writeopen (pipe_put b p) = writeopen p"
  by (simp_all add: pipe_put_def)

lemma pipewrite_loop_fill:
  "pipewrite_loop killed n p bs =
    (let (p', rest) = fill_buf pipe_full pipe_put p bs
     in (p', rest, if rest = [] then Returns n else if \<not> readopen p \<or> killed then Returns (-1) else Sleeps))"
  by (induction bs arbitrary: p) (auto split: prod.split)

lemma piperead_loop_drain: "piperead_loop p n = drain_buf pipe_empty pipe_get p n"
  by (induction p n rule: piperead_loop.induct) (auto split: prod.split)

lemma pipewrite_loop_spec:
  assumes "pipe_inv p" and "pipewrite_loop killed n p bs = (p', rest, r)"
  shows "pipe_inv p'" "pipe_bytes p' @ rest = pipe_bytes p @ bs" "rest \<noteq> [] \<longrightarrow> pipe_full p'"
    "r = (if rest = [] then Returns n else if \<not> readopen p \<or> killed then Returns (-1) else Sleeps)"
proof -
  obtain p1 r1 where f: "fill_buf pipe_full pipe_put p bs = (p1, r1)" by (cases "fill_buf pipe_full pipe_put p bs")
  then have eq: "p' = p1" "rest = r1"
    and r: "r = (if rest = [] then Returns n else if \<not> readopen p \<or> killed then Returns (-1) else Sleeps)"
    using assms(2) by (auto simp: pipewrite_loop_fill)
  from ring.fill_buf_spec [OF assms(1) f]
  show "pipe_inv p'" "pipe_bytes p' @ rest = pipe_bytes p @ bs" "rest \<noteq> [] \<longrightarrow> pipe_full p'"
    unfolding eq by auto
  show "r = (if rest = [] then Returns n else if \<not> readopen p \<or> killed then Returns (-1) else Sleeps)" by (rule r)
qed

lemma piperead_spec:
  assumes "pipe_inv p" and "piperead killed p n = (bs, p', r)"
  shows "pipe_inv p'" "bs @ pipe_bytes p' = pipe_bytes p"
    "r = (if pipe_bytes p = [] \<and> writeopen p then if killed then Returns (-1) else Sleeps
          else Returns (int (min (nat n) (length (pipe_bytes p)))))"
proof -
  obtain b1 p1 where d: "piperead_loop p (nat n) = (b1, p1)" by (cases "piperead_loop p (nat n)")
  note sp = ring.drain_buf_spec [OF assms(1) d [unfolded piperead_loop_drain]]
  show "pipe_inv p'" "bs @ pipe_bytes p' = pipe_bytes p"
    "r = (if pipe_bytes p = [] \<and> writeopen p then if killed then Returns (-1) else Sleeps
          else Returns (int (min (nat n) (length (pipe_bytes p)))))"
    using assms sp ring.empty_law [OF assms(1)] by (auto simp: piperead_def d split: if_splits)
qed

section \<open>Writers and readers\<close>

text \<open>
  A pipe with the bytes \<open>todo\<close> that its writers have still to write, in order, and the bytes
  \<open>got\<close> that its readers have returned. Every call of \<^verbatim>\<open>write\<close> or \<^verbatim>\<open>read\<close>, or part of a call up to
  where it sleeps, is one step; either end may be closed at any time.
\<close>

record pipe_sys =
  pp :: pipe
  todo :: "u8 list"
  got :: "u8 list"

inductive pipe_step :: "pipe_sys \<Rightarrow> pipe_sys \<Rightarrow> bool" where
  ps_write: "todo s = bs @ later \<Longrightarrow> pipewrite_loop killed n (pp s) bs = (p', rest, r) \<Longrightarrow>
    pipe_step s (s\<lparr>pp := p', todo := rest @ later\<rparr>)"
| ps_read: "piperead killed (pp s) n = (bs, p', r) \<Longrightarrow> pipe_step s (s\<lparr>pp := p', got := got s @ bs\<rparr>)"
| ps_close: "pipe_step s (s\<lparr>pp := close_end w (pp s)\<rparr>)"

lemma close_end_inv: "pipe_inv p \<Longrightarrow> pipe_inv (close_end w p) \<and> pipe_bytes (close_end w p) = pipe_bytes p"
  by (simp add: close_end_def pipe_inv_def pipe_bytes_def pipe_count_def)

lemma pipe_step_inv:
  assumes "pipe_step s s'" and "pipe_inv (pp s)" and "got s @ pipe_bytes (pp s) @ todo s = xs"
  shows "pipe_inv (pp s') \<and> got s' @ pipe_bytes (pp s') @ todo s' = xs"
  using assms
proof cases
  case (ps_write bs later killed n p' rest r)
  then show ?thesis using pipewrite_loop_spec(1,2) [OF assms(2) ps_write(3)] assms(3)
    by (simp flip: append_assoc)
next
  case (ps_read killed n bs p' r)
  then show ?thesis
    using piperead_spec(1) [OF assms(2) ps_read(2)] piperead_spec(2) [OF assms(2) ps_read(2), symmetric] assms(3)
    by simp
next
  case (ps_close w)
  then show ?thesis using close_end_inv [OF assms(2)] assms(3) by simp
qed

lemma pipe_steps_inv:
  "pipe_step\<^sup>*\<^sup>* s s' \<Longrightarrow> pipe_inv (pp s) \<Longrightarrow> got s @ pipe_bytes (pp s) @ todo s = xs
    \<Longrightarrow> pipe_inv (pp s') \<and> got s' @ pipe_bytes (pp s') @ todo s' = xs"
  by (induction rule: rtranclp_induct) (auto dest: pipe_step_inv)

lemma new_pipe_inv: "length junk = PIPESIZE \<Longrightarrow> pipe_inv (new_pipe junk) \<and> pipe_bytes (new_pipe junk) = []"
  by (simp add: new_pipe_def pipe_inv_def pipe_count_def pipe_bytes_def)

section \<open>The properties\<close>

text \<open>
  C12. A pipe is a byte stream: however the calls of writers and readers interleave, and
  however often the counters have wrapped round, what the readers have got, followed by the
  bytes in the buffer and the bytes still to be written, is the sequence the writers set out
  to write. Nothing is lost, duplicated or reordered, and the buffer never holds more than
  \<^verbatim>\<open>PIPESIZE\<close> bytes.
\<close>

theorem pipe_stream:
  assumes "length junk = PIPESIZE"
    and "pipe_step\<^sup>*\<^sup>* \<lparr>pp = new_pipe junk, todo = xs, got = []\<rparr> s"
  shows "got s @ pipe_bytes (pp s) @ todo s = xs \<and> length (pipe_bytes (pp s)) \<le> PIPESIZE"
  using pipe_steps_inv [OF assms(2), of xs] new_pipe_inv [OF assms(1)] ring.inv_capacity by simp

theorem pipe_stream_witness:
  "let s = \<lparr>pp = (new_pipe ((replicate 512 0)[0 := 7, 1 := 8]))\<lparr>nread := 1, nwrite := 2\<rparr>, todo = [], got = [7]\<rparr>
   in got s @ pipe_bytes (pp s) @ todo s = [7, 8] \<and> length (pipe_bytes (pp s)) \<le> PIPESIZE"
proof -
  let ?p0 = "new_pipe (replicate 512 0)"
  let ?p1 = "(new_pipe ((replicate 512 0)[0 := 7, 1 := 8]))\<lparr>nwrite := 2\<rparr>"
  have w: "pipewrite_loop False 2 ?p0 [7, 8] = (?p1, [], Returns 2)"
    by (simp add: new_pipe_def pipe_full_def pipe_put_def PIPESIZE_def)
  have r: "piperead False ?p1 1 = ([7], ?p1\<lparr>nread := 1\<rparr>, Returns 1)"
    by (simp add: piperead_def new_pipe_def pipe_empty_def pipe_get_def PIPESIZE_def)
  let ?s0 = "\<lparr>pp = ?p0, todo = [7, 8], got = []\<rparr>"
  let ?s1 = "\<lparr>pp = ?p1, todo = [], got = []\<rparr>"
  have "pipe_step ?s0 ?s1" using ps_write [of ?s0 "[7, 8]" "[]"] w by simp
  moreover have "pipe_step ?s1 \<lparr>pp = ?p1\<lparr>nread := 1\<rparr>, todo = [], got = [7]\<rparr>"
    using ps_read [of False ?s1 1] r by simp
  ultimately have "pipe_step\<^sup>*\<^sup>* ?s0 \<lparr>pp = ?p1\<lparr>nread := 1\<rparr>, todo = [], got = [7]\<rparr>"
    by (meson r_into_rtranclp rtranclp_trans)
  from pipe_stream [OF _ this] show ?thesis by (simp add: Let_def PIPESIZE_def new_pipe_def)
qed



end
