(* ===== verification/Spinlock.thy ===== *)
theory Spinlock
  imports Prelude
begin

text \<open>
  Spin locks and sleep locks (\<^verbatim>\<open>spinlock.c\<close>, \<^verbatim>\<open>sleeplock.c\<close>). The functions are modelled
  twice: as functions on the state of one CPU, which the components use, and, for the
  locking itself, as step relations in which the CPUs (or processes) interleave between any
  two accesses to the lock. Memory is sequentially consistent; the debugging fields
  \<^verbatim>\<open>name\<close> and \<^verbatim>\<open>pcs\<close> of a lock are left out.
\<close>

section \<open>Disabling interrupts\<close>

record cpu =
  ncli :: int
  intena :: bool
  if_flag :: bool \<comment> \<open>\<^verbatim>\<open>FL_IF\<close> in the CPU's flags register\<close>

definition pushcli :: "cpu \<Rightarrow> cpu" where
  "pushcli c =
     (let eflags = if_flag c; c = c\<lparr>if_flag := False\<rparr>;
          c = (if ncli c = 0 then c\<lparr>intena := eflags\<rparr> else c)
      in c\<lparr>ncli := ncli c + 1\<rparr>)"

definition popcli :: "cpu \<Rightarrow> cpu res" where
  "popcli c =
     (if if_flag c then Inl (Panic ''popcli - interruptible'')
      else let c = c\<lparr>ncli := ncli c - 1\<rparr>
        in if ncli c < 0 then Inl (Panic ''popcli'')
           else if ncli c = 0 \<and> intena c then Inr (c\<lparr>if_flag := True\<rparr>) else Inr c)"

datatype cli_op = Push | Pop

fun run_cli :: "cli_op list \<Rightarrow> cpu \<Rightarrow> cpu res" where
  "run_cli [] c = Inr c"
| "run_cli (Push # ops) c = run_cli ops (pushcli c)"
| "run_cli (Pop # ops) c = bnd (popcli c) (run_cli ops)"

text \<open>Matched sequences: every \<^verbatim>\<open>popcli\<close> undoes an earlier \<^verbatim>\<open>pushcli\<close>.\<close>

inductive matched :: "cli_op list \<Rightarrow> bool" where
  matched_Nil: "matched []"
| matched_Push: "matched a \<Longrightarrow> matched b \<Longrightarrow> matched (Push # a @ Pop # b)"

definition cpu_ok :: "cpu \<Rightarrow> bool" where
  "cpu_ok c \<longleftrightarrow> 0 \<le> ncli c \<and> (0 < ncli c \<longrightarrow> \<not> if_flag c)"

lemma run_cli_append: "run_cli (a @ b) c = bnd (run_cli a c) (run_cli b)"
proof (induction a arbitrary: c)
  case (Cons x a)
  then show ?case by (cases x; cases "popcli c") auto
qed simp

text \<open>The flag \<^verbatim>\<open>intena\<close> is only ever changed by an outermost \<^verbatim>\<open>pushcli\<close>.\<close>

lemma run_cli_matched:
  assumes "matched ops"
  shows "cpu_ok c \<Longrightarrow> \<exists>c'. run_cli ops c = Inr c' \<and> ncli c' = ncli c \<and> if_flag c' = if_flag c
    \<and> (0 < ncli c \<longrightarrow> intena c' = intena c)"
  using assms
proof (induction ops arbitrary: c rule: matched.induct)
  case matched_Nil
  then show ?case by simp
next
  case (matched_Push a b)
  let ?c = "pushcli c"
  have c1: "cpu_ok ?c" "ncli ?c = ncli c + 1" "\<not> if_flag ?c"
    "intena ?c = (if ncli c = 0 then if_flag c else intena c)"
    using matched_Push.prems by (auto simp: cpu_ok_def pushcli_def Let_def)
  obtain c2 where c2: "run_cli a ?c = Inr c2" "ncli c2 = ncli c + 1" "\<not> if_flag c2" "intena c2 = intena ?c"
    using matched_Push.IH(1) [OF c1(1)] c1 matched_Push.prems by (auto simp: cpu_ok_def)
  let ?c3 = "if ncli c = 0 \<and> if_flag c then c2\<lparr>ncli := ncli c, if_flag := True\<rparr> else c2\<lparr>ncli := ncli c\<rparr>"
  have "popcli c2 = Inr ?c3"
    using c2 c1(4) matched_Push.prems by (auto simp: popcli_def cpu_ok_def Let_def)
  then obtain c3 where c3: "popcli c2 = Inr c3" "ncli c3 = ncli c" "if_flag c3 = if_flag c"
    "0 < ncli c \<longrightarrow> intena c3 = intena c"
    using c1(4) c2 matched_Push.prems by (auto simp: cpu_ok_def)
  then have "cpu_ok c3" using matched_Push.prems by (simp add: cpu_ok_def)
  from matched_Push.IH(2) [OF this] show ?case
    using c2 c3 by (auto simp: run_cli_append)
qed

section \<open>The lock\<close>

record spinlock =
  locked :: bool
  lk_cpu :: "nat option" \<comment> \<open>the CPU holding the lock\<close>

definition initlock :: spinlock where
  "initlock = \<lparr>locked = False, lk_cpu = None\<rparr>"

definition holding :: "spinlock \<Rightarrow> nat \<Rightarrow> bool" where
  "holding lk me \<longleftrightarrow> locked lk \<and> lk_cpu lk = Some me"

text \<open>
  \<^verbatim>\<open>acquire\<close> and \<^verbatim>\<open>release\<close> run by CPU \<open>me\<close> alone. A lock that another CPU holds makes
  \<^verbatim>\<open>acquire\<close> spin; with no other CPU to release it the loop never ends, which is the error
  \<open>Deadlock\<close>.
\<close>

definition acquire :: "nat \<Rightarrow> spinlock \<Rightarrow> cpu \<Rightarrow> (spinlock \<times> cpu) res" where
  "acquire me lk c =
     (let c = pushcli c
      in if holding lk me then Inl (Panic ''acquire'')
         else if locked lk then Inl Deadlock
         else Inr (lk\<lparr>locked := True, lk_cpu := Some me\<rparr>, c))"

definition release :: "nat \<Rightarrow> spinlock \<Rightarrow> cpu \<Rightarrow> (spinlock \<times> cpu) res" where
  "release me lk c =
     (if \<not> holding lk me then Inl (Panic ''release'')
      else let lk = lk\<lparr>lk_cpu := None\<rparr>; lk = lk\<lparr>locked := False\<rparr>
        in bnd (popcli c) (\<lambda>c. Inr (lk, c)))"

section \<open>Interleaved execution\<close>

text \<open>
  Where a CPU is: outside, in the \<^verbatim>\<open>xchg\<close> loop, after a successful \<^verbatim>\<open>xchg\<close> but before
  \<^verbatim>\<open>lk->cpu = cpu\<close>, in the critical section, or in \<^verbatim>\<open>release\<close> after \<^verbatim>\<open>lk->cpu = 0\<close>; \<open>Panicked\<close>
  if one of the two checks failed.
\<close>

datatype lk_pc = Outside | Spinning | Got | Critical | Leaving | Panicked

record lk_state =
  lock :: spinlock
  cpus :: "nat \<Rightarrow> cpu"
  lpc :: "nat \<Rightarrow> lk_pc"

definition lk_init :: "(nat \<Rightarrow> cpu) \<Rightarrow> lk_state" where
  "lk_init cs = \<lparr>lock = initlock, cpus = cs, lpc = (\<lambda>_. Outside)\<rparr>"

inductive lk_step :: "lk_state \<Rightarrow> lk_state \<Rightarrow> bool" where
  acq_enter: "lpc s i = Outside \<Longrightarrow>
    lk_step s (s\<lparr>cpus := (cpus s)(i := pushcli (cpus s i)),
                 lpc := (lpc s)(i := if holding (lock s) i then Panicked else Spinning)\<rparr>)"
| acq_xchg: "lpc s i = Spinning \<Longrightarrow>
    lk_step s (s\<lparr>lock := (lock s)\<lparr>locked := True\<rparr>,
                 lpc := (lpc s)(i := if locked (lock s) then Spinning else Got)\<rparr>)"
| acq_owner: "lpc s i = Got \<Longrightarrow>
    lk_step s (s\<lparr>lock := (lock s)\<lparr>lk_cpu := Some i\<rparr>, lpc := (lpc s)(i := Critical)\<rparr>)"
| rel_check: "lpc s i = Critical \<Longrightarrow>
    lk_step s (if holding (lock s) i
               then s\<lparr>lock := (lock s)\<lparr>lk_cpu := None\<rparr>, lpc := (lpc s)(i := Leaving)\<rparr>
               else s\<lparr>lpc := (lpc s)(i := Panicked)\<rparr>)"
| rel_unlock: "lpc s i = Leaving \<Longrightarrow> popcli (cpus s i) = Inr c \<Longrightarrow>
    lk_step s (s\<lparr>lock := (lock s)\<lparr>locked := False\<rparr>, cpus := (cpus s)(i := c), lpc := (lpc s)(i := Outside)\<rparr>)"
| rel_panic: "lpc s i = Leaving \<Longrightarrow> popcli (cpus s i) = Inl e \<Longrightarrow>
    lk_step s (s\<lparr>lock := (lock s)\<lparr>locked := False\<rparr>, lpc := (lpc s)(i := Panicked)\<rparr>)"

inductive_cases lk_stepE: "lk_step s s'"

fun owns :: "lk_pc \<Rightarrow> bool" where
  "owns Got = True" | "owns Critical = True" | "owns Leaving = True" | "owns p = False"

definition lk_inv :: "lk_state \<Rightarrow> nat option \<Rightarrow> bool" where
  "lk_inv s ow \<longleftrightarrow>
     (\<forall>i. lpc s i \<noteq> Panicked) \<and> (\<forall>i. owns (lpc s i) \<longleftrightarrow> ow = Some i)
     \<and> (locked (lock s) \<longleftrightarrow> ow \<noteq> None)
     \<and> (\<forall>i. lk_cpu (lock s) = Some i \<longleftrightarrow> lpc s i = Critical)
     \<and> (\<forall>i. cpu_ok (cpus s i) \<and> (lpc s i \<noteq> Outside \<longrightarrow> 0 < ncli (cpus s i)))"

lemma pushcli_ok: "cpu_ok c \<Longrightarrow> cpu_ok (pushcli c) \<and> 0 < ncli (pushcli c)"
  by (auto simp: cpu_ok_def pushcli_def Let_def)

lemma popcli_ok: "cpu_ok c \<Longrightarrow> 0 < ncli c \<Longrightarrow> \<exists>c'. popcli c = Inr c' \<and> cpu_ok c'"
  by (auto simp: cpu_ok_def popcli_def Let_def)

lemma lk_inv_init: "(\<And>i. cpu_ok (cs i)) \<Longrightarrow> lk_inv (lk_init cs) None"
  by (simp add: lk_inv_def lk_init_def initlock_def)

lemma lk_inv_step:
  assumes st: "lk_step s s'" and inv: "lk_inv s ow"
  shows "\<exists>ow'. lk_inv s' ow'"
  using st
proof cases
  case (acq_enter i)
  then have "\<not> owns (lpc s i)" by simp
  then have "ow \<noteq> Some i" using inv unfolding lk_inv_def by blast
  then have "lk_inv s' ow"
    using acq_enter inv pushcli_ok [of "cpus s i"] by (auto simp: lk_inv_def holding_def)
  then show ?thesis ..
next
  case (acq_xchg i)
  then have "\<not> owns (lpc s i)" by simp
  then have "ow \<noteq> Some i" using inv unfolding lk_inv_def by blast
  then have "lk_inv s' (if locked (lock s) then ow else Some i)"
    using acq_xchg inv by (auto simp: lk_inv_def)
  then show ?thesis ..
next
  case (acq_owner i)
  then have "owns (lpc s i)" by simp
  then have ow: "ow = Some i" using inv unfolding lk_inv_def by blast
  then have "lpc s j \<noteq> Critical" if "j \<noteq> i" for j
    using inv that unfolding lk_inv_def by (metis option.inject owns.simps(2))
  then have "lk_inv s' ow" using acq_owner inv by (auto simp: lk_inv_def)
  then show ?thesis ..
next
  case (rel_check i)
  then have "owns (lpc s i)" by simp
  then have ow: "ow = Some i" using inv unfolding lk_inv_def by blast
  then have h: "holding (lock s) i" using inv rel_check by (auto simp: lk_inv_def holding_def)
  have "lpc s j \<noteq> Critical" if "j \<noteq> i" for j
    using inv ow that unfolding lk_inv_def by (metis option.inject owns.simps(2))
  then have "lk_inv s' ow" using rel_check inv h ow by (auto simp: lk_inv_def)
  then show ?thesis ..
next
  case (rel_unlock i c)
  then have "owns (lpc s i)" and cs: "cpu_ok (cpus s i)" "0 < ncli (cpus s i)" using inv by (auto simp: lk_inv_def)
  then have ow: "ow = Some i" using inv unfolding lk_inv_def by blast
  have "cpu_ok c" using popcli_ok [OF cs] rel_unlock by auto
  then have "lk_inv s' None" using rel_unlock inv ow by (auto simp: lk_inv_def)
  then show ?thesis ..
next
  case (rel_panic i e)
  then show ?thesis using inv popcli_ok [of "cpus s i"] by (fastforce simp: lk_inv_def)
qed

lemma lk_inv_reachable: "lk_step\<^sup>*\<^sup>* s s' \<Longrightarrow> \<exists>ow. lk_inv s ow \<Longrightarrow> \<exists>ow. lk_inv s' ow"
  by (induction rule: rtranclp_induct) (auto intro: lk_inv_step)

section \<open>Sleep locks\<close>

record sleeplock =
  slocked :: bool
  lk_pid :: nat

definition initsleeplock :: sleeplock where
  "initsleeplock = \<lparr>slocked = False, lk_pid = 0\<rparr>"

text \<open>
  As for spin locks, \<^verbatim>\<open>acquiresleep\<close> on a taken lock with no other process to run never
  returns. \<^verbatim>\<open>holdingsleep\<close> asks only whether the lock is taken, not by whom.
\<close>

definition acquiresleep :: "nat \<Rightarrow> sleeplock \<Rightarrow> sleeplock res" where
  "acquiresleep pid lk = (if slocked lk then Inl Deadlock else Inr (lk\<lparr>slocked := True, lk_pid := pid\<rparr>))"

definition releasesleep :: "sleeplock \<Rightarrow> sleeplock" where
  "releasesleep lk = lk\<lparr>slocked := False, lk_pid := 0\<rparr>"

definition holdingsleep :: "sleeplock \<Rightarrow> bool" where
  "holdingsleep lk = slocked lk"

text \<open>
  Interleaved execution: between \<^verbatim>\<open>acquire(&lk->lk)\<close> and the next \<^verbatim>\<open>sleep\<close> or \<^verbatim>\<open>release\<close> a
  process runs alone (the lock inside is a spin lock, and \<^verbatim>\<open>sleep\<close> gives it up and goes to
  sleep in one step); \<^verbatim>\<open>wakeup\<close> lets every process sleeping on the lock test it again.
\<close>

datatype sl_pc = Idle | Testing | Asleep | Holding

record sl_state =
  slock :: sleeplock
  spc :: "nat \<Rightarrow> sl_pc"

definition sl_init :: sl_state where
  "sl_init = \<lparr>slock = initsleeplock, spc = (\<lambda>_. Idle)\<rparr>"

inductive sl_step :: "sl_state \<Rightarrow> sl_state \<Rightarrow> bool" where
  sl_call: "spc s i = Idle \<Longrightarrow> sl_step s (s\<lparr>spc := (spc s)(i := Testing)\<rparr>)"
| sl_sleep: "spc s i = Testing \<Longrightarrow> acquiresleep i (slock s) = Inl Deadlock \<Longrightarrow>
    sl_step s (s\<lparr>spc := (spc s)(i := Asleep)\<rparr>)"
| sl_take: "spc s i = Testing \<Longrightarrow> acquiresleep i (slock s) = Inr lk \<Longrightarrow>
    sl_step s (s\<lparr>slock := lk, spc := (spc s)(i := Holding)\<rparr>)"
| sl_release: "spc s i = Holding \<Longrightarrow>
    sl_step s (s\<lparr>slock := releasesleep (slock s),
      spc := (\<lambda>j. if j = i then Idle else if spc s j = Asleep then Testing else spc s j)\<rparr>)"

definition sl_inv :: "sl_state \<Rightarrow> bool" where
  "sl_inv s \<longleftrightarrow> (slocked (slock s) \<longleftrightarrow> (\<exists>i. spc s i = Holding))
     \<and> (\<forall>i. spc s i = Holding \<longrightarrow> lk_pid (slock s) = i)
     \<and> ((\<exists>i. spc s i = Asleep) \<longrightarrow> slocked (slock s))"

lemma sl_inv_step: "sl_step s s' \<Longrightarrow> sl_inv s \<Longrightarrow> sl_inv s'"
proof (induction rule: sl_step.induct)
  case (sl_call s i)
  then show ?case by (auto simp: sl_inv_def) (metis sl_pc.distinct)+
next
  case (sl_sleep s i)
  then have "slocked (slock s)" by (auto simp: acquiresleep_def split: if_splits)
  with sl_sleep show ?case by (auto simp: sl_inv_def) (metis sl_pc.distinct)+
next
  case (sl_take s i lk)
  then have "\<not> slocked (slock s)" "lk = (slock s)\<lparr>slocked := True, lk_pid := i\<rparr>"
    by (auto simp: acquiresleep_def split: if_splits)
  with sl_take show ?case by (auto simp: sl_inv_def)
next
  case (sl_release s i)
  then show ?case by (auto simp: sl_inv_def releasesleep_def)
qed

lemma sl_inv_reachable: "sl_step\<^sup>*\<^sup>* s s' \<Longrightarrow> sl_inv s \<Longrightarrow> sl_inv s'"
  by (induction rule: rtranclp_induct) (auto intro: sl_inv_step)

section \<open>The properties\<close>

text \<open>
  C13. Spin locks give mutual exclusion under every interleaving of the CPUs' accesses to
  the lock: in every state reached from an unlocked lock at most one CPU is in its critical
  section, \<^verbatim>\<open>holding\<close> tells exactly that CPU that it is, its interrupts are off, and neither
  of the checks in \<^verbatim>\<open>acquire\<close> and \<^verbatim>\<open>release\<close> has failed.
\<close>

theorem spinlock_mutual_exclusion:
  assumes "\<And>i. cpu_ok (cs i)" and "lk_step\<^sup>*\<^sup>* (lk_init cs) s"
  shows "(\<forall>i j. lpc s i = Critical \<and> lpc s j = Critical \<longrightarrow> i = j)
    \<and> (\<forall>i. holding (lock s) i \<longleftrightarrow> lpc s i = Critical)
    \<and> (\<forall>i. lpc s i = Critical \<longrightarrow> \<not> if_flag (cpus s i))
    \<and> (\<forall>i. lpc s i \<noteq> Panicked)"
proof -
  obtain ow where inv: "lk_inv s ow"
    using lk_inv_reachable [OF assms(2)] lk_inv_init [of cs] assms(1) by blast
  have crit: "ow = Some i" if "lpc s i = Critical" for i
    using inv that unfolding lk_inv_def by (metis owns.simps(2))
  then show ?thesis
    using inv by (auto simp: lk_inv_def holding_def cpu_ok_def)
qed

definition demo_cpus :: "nat \<Rightarrow> cpu" where
  "demo_cpus = (\<lambda>_. \<lparr>ncli = 0, intena = False, if_flag = True\<rparr>)"

definition demo_locked :: lk_state where
  "demo_locked = \<lparr>lock = \<lparr>locked = True, lk_cpu = Some 0\<rparr>,
     cpus = demo_cpus(0 := \<lparr>ncli = 1, intena = True, if_flag = False\<rparr>), lpc = (\<lambda>_. Outside)(0 := Critical)\<rparr>"

lemma demo_locked_reachable: "lk_step\<^sup>*\<^sup>* (lk_init demo_cpus) demo_locked"
proof -
  let ?c = "demo_cpus(0 := \<lparr>ncli = 1, intena = True, if_flag = False\<rparr>)"
  let ?s1 = "\<lparr>lock = initlock, cpus = ?c, lpc = (\<lambda>_. Outside)(0 := Spinning)\<rparr>"
  let ?s2 = "\<lparr>lock = initlock\<lparr>locked := True\<rparr>, cpus = ?c, lpc = (\<lambda>_. Outside)(0 := Got)\<rparr>"
  have "lk_step (lk_init demo_cpus) ?s1"
    using lk_step.acq_enter [of "lk_init demo_cpus" 0]
    by (simp add: lk_init_def holding_def initlock_def pushcli_def demo_cpus_def Let_def)
  moreover have "lk_step ?s1 ?s2"
    using lk_step.acq_xchg [of ?s1 0] by (simp add: initlock_def)
  moreover have "lk_step ?s2 demo_locked"
    using lk_step.acq_owner [of ?s2 0] by (simp add: initlock_def demo_locked_def)
  ultimately show ?thesis by (meson r_into_rtranclp rtranclp_trans)
qed

theorem spinlock_mutual_exclusion_witness:
  "lpc demo_locked 0 = Critical \<and> holding (lock demo_locked) 0 \<and> \<not> if_flag (cpus demo_locked 0)
    \<and> \<not> holding (lock demo_locked) 1 \<and> lpc demo_locked 0 \<noteq> Panicked"
proof -
  have "lpc demo_locked 0 = Critical" "lpc demo_locked 1 \<noteq> Critical" by (simp_all add: demo_locked_def)
  then show ?thesis
    using spinlock_mutual_exclusion [OF _ demo_locked_reachable] by (simp add: demo_cpus_def cpu_ok_def)
qed

text \<open>
  C34. \<^verbatim>\<open>pushcli\<close> and \<^verbatim>\<open>popcli\<close> nest: any matched sequence of them, run on a CPU in a
  consistent state, ends without a panic and leaves the nesting depth and the interrupt flag
  as they were, so interrupts that were off before stay off.
\<close>

theorem pushcli_popcli_nest:
  assumes "matched ops" and "cpu_ok c"
  shows "\<exists>c'. run_cli ops c = Inr c' \<and> ncli c' = ncli c \<and> if_flag c' = if_flag c"
  using run_cli_matched [OF assms] by blast

theorem pushcli_popcli_nest_witness:
  "\<exists>c'. run_cli [Push, Push, Pop, Push, Pop, Pop] (demo_cpus 0) = Inr c'
    \<and> ncli c' = ncli (demo_cpus 0) \<and> if_flag c' = if_flag (demo_cpus 0)"
proof (rule pushcli_popcli_nest)
  have pp: "matched [Push, Pop]" using matched_Push [OF matched_Nil matched_Nil] by simp
  have "matched [Push, Pop, Push, Pop]" using matched_Push [OF matched_Nil pp] by simp
  then show "matched [Push, Push, Pop, Push, Pop, Pop]"
    using matched_Push [OF _ matched_Nil, of "[Push, Pop, Push, Pop]"] by simp
qed (simp add: demo_cpus_def cpu_ok_def)

text \<open>
  C31. Sleep locks: under every interleaving at most one process holds the lock and the lock
  records its pid, and no wakeup is lost, that is, whenever the lock is free no process is
  asleep waiting for it.
\<close>

theorem sleeplock_exclusion:
  assumes "sl_step\<^sup>*\<^sup>* sl_init s"
  shows "(\<forall>i j. spc s i = Holding \<and> spc s j = Holding \<longrightarrow> i = j)
    \<and> (\<forall>i. spc s i = Holding \<longrightarrow> holdingsleep (slock s) \<and> lk_pid (slock s) = i)
    \<and> (\<not> slocked (slock s) \<longrightarrow> (\<forall>i. spc s i \<noteq> Asleep))"
proof -
  have "sl_inv s"
    by (rule sl_inv_reachable [OF assms]) (simp add: sl_inv_def sl_init_def initsleeplock_def)
  then show ?thesis by (auto simp: sl_inv_def holdingsleep_def)
qed

definition demo_sleep :: sl_state where
  "demo_sleep = \<lparr>slock = \<lparr>slocked = True, lk_pid = 3\<rparr>, spc = (\<lambda>_. Idle)(3 := Holding, 4 := Asleep)\<rparr>"

lemma demo_sleep_reachable: "sl_step\<^sup>*\<^sup>* sl_init demo_sleep"
proof -
  let ?s1 = "\<lparr>slock = initsleeplock, spc = (\<lambda>_. Idle)(3 := Testing)\<rparr>"
  let ?lk = "\<lparr>slocked = True, lk_pid = 3\<rparr>"
  let ?s2 = "\<lparr>slock = ?lk, spc = (\<lambda>_. Idle)(3 := Holding)\<rparr>"
  let ?s3 = "\<lparr>slock = ?lk, spc = (\<lambda>_. Idle)(3 := Holding, 4 := Testing)\<rparr>"
  have "sl_step sl_init ?s1" using sl_call [of sl_init 3] by (simp add: sl_init_def)
  moreover have "sl_step ?s1 ?s2"
    using sl_take [of ?s1 3 ?lk] by (simp add: acquiresleep_def initsleeplock_def)
  moreover have "sl_step ?s2 ?s3" using sl_call [of ?s2 4] by simp
  moreover have "sl_step ?s3 demo_sleep"
    using sl_sleep [of ?s3 4] by (simp add: acquiresleep_def demo_sleep_def)
  ultimately show ?thesis by (meson r_into_rtranclp rtranclp_trans)
qed

theorem sleeplock_exclusion_witness:
  "spc demo_sleep 3 = Holding \<and> spc demo_sleep 4 = Asleep \<and> holdingsleep (slock demo_sleep)
    \<and> lk_pid (slock demo_sleep) = 3"
proof -
  have "spc demo_sleep 3 = Holding" "spc demo_sleep 4 = Asleep" by (simp_all add: demo_sleep_def)
  then show ?thesis using sleeplock_exclusion [OF demo_sleep_reachable] by simp
qed

end
