(* ===== verification/Bio.thy ===== *)
theory Bio
  imports Spinlock
begin

text \<open>
  The disk driver's request queue (\<^verbatim>\<open>ide.c\<close>) and the buffer cache (\<^verbatim>\<open>bio.c\<close>). Buffers are
  named by their index in \<^verbatim>\<open>bcache.buf\<close>; the circular list through \<^verbatim>\<open>prev\<close> and \<^verbatim>\<open>next\<close> is the
  list \<open>mru\<close> of indices from \<^verbatim>\<open>head.next\<close> to \<^verbatim>\<open>head.prev\<close>. The hardware is a map from drive
  and block number to block contents; a write reaches it when its request is started, a read
  when its interrupt is handled, and the disk reports no errors. \<open>written\<close> is a history of the
  writes to the disk. A process that waits for the disk lets interrupts be handled until its
  own request is done.
\<close>

type_synonym block = "u8 list"

definition BSIZE :: nat where "BSIZE = 512"
definition NBUF :: nat where "NBUF = 30"
definition FSSIZE :: u32 where "FSSIZE = 1000"

record buf =
  b_valid :: bool
  b_dirty :: bool
  b_dev :: u32
  b_blockno :: u32
  b_lock :: sleeplock
  b_refcnt :: u32
  b_data :: block

record bio =
  bufs :: "buf list"
  mru :: "nat list"
  idequeue :: "nat list"
  havedisk1 :: bool
  disk :: "u32 \<Rightarrow> u32 \<Rightarrow> block"
  written :: "(u32 \<times> u32 \<times> block) list"
  cur_pid :: nat

definition upd_buf :: "nat \<Rightarrow> (buf \<Rightarrow> buf) \<Rightarrow> 'a bio_scheme \<Rightarrow> 'a bio_scheme" where
  "upd_buf i f s = s\<lparr>bufs := (bufs s)[i := f (bufs s ! i)]\<rparr>"

section \<open>The disk driver\<close>

definition idestart :: "nat \<Rightarrow> 'a bio_scheme \<Rightarrow> 'a bio_scheme res" where
  "idestart i s =
     (let b = bufs s ! i; drive = b_dev b AND 1
      in if b_blockno b \<ge> FSSIZE then Inl (Panic ''incorrect blockno'')
         else if b_dirty b
         then Inr (s\<lparr>disk := (disk s)(drive := (disk s drive)(b_blockno b := b_data b)),
                     written := written s @ [(drive, b_blockno b, b_data b)]\<rparr>)
         else Inr s)"

definition ideintr :: "'a bio_scheme \<Rightarrow> 'a bio_scheme res" where
  "ideintr s =
     (case idequeue s of [] \<Rightarrow> Inr s
      | i # q \<Rightarrow>
        let s = s\<lparr>idequeue := q\<rparr>; b = bufs s ! i;
            s = (if \<not> b_dirty b then upd_buf i (\<lambda>b. b\<lparr>b_data := disk s (b_dev b AND 1) (b_blockno b)\<rparr>) s else s);
            s = upd_buf i (\<lambda>b. b\<lparr>b_valid := True, b_dirty := False\<rparr>) s
        in case q of [] \<Rightarrow> Inr s | j # _ \<Rightarrow> idestart j s)"

text \<open>\<^verbatim>\<open>while((b->flags & (B_VALID|B_DIRTY)) != B_VALID) sleep(b, &idelock)\<close>, with at most \<open>n\<close> interrupts.\<close>

primrec ide_wait :: "nat \<Rightarrow> nat \<Rightarrow> 'a bio_scheme \<Rightarrow> 'a bio_scheme res" where
  "ide_wait 0 i s = (if b_valid (bufs s ! i) \<and> \<not> b_dirty (bufs s ! i) then Inr s else Inl Deadlock)"
| "ide_wait (Suc n) i s =
     (if b_valid (bufs s ! i) \<and> \<not> b_dirty (bufs s ! i) then Inr s else bnd (ideintr s) (ide_wait n i))"

definition iderw :: "nat \<Rightarrow> 'a bio_scheme \<Rightarrow> 'a bio_scheme res" where
  "iderw i s =
     (let b = bufs s ! i
      in if \<not> holdingsleep (b_lock b) then Inl (Panic ''iderw: buf not locked'')
         else if b_valid b \<and> \<not> b_dirty b then Inl (Panic ''iderw: nothing to do'')
         else if b_dev b \<noteq> 0 \<and> \<not> havedisk1 s then Inl (Panic ''iderw: ide disk 1 not present'')
         else let q = idequeue s; s = s\<lparr>idequeue := q @ [i]\<rparr>
           in bnd (if q = [] then idestart i s else Inr s) (\<lambda>s. ide_wait (Suc (length q)) i s))"

section \<open>The cache\<close>

definition empty_buf :: buf where
  "empty_buf = \<lparr>b_valid = False, b_dirty = False, b_dev = 0, b_blockno = 0, b_lock = initsleeplock,
     b_refcnt = 0, b_data = replicate BSIZE 0\<rparr>"

definition binit :: "'a bio_scheme \<Rightarrow> 'a bio_scheme" where
  "binit s = s\<lparr>bufs := replicate NBUF empty_buf, mru := rev [0..<NBUF]\<rparr>"

definition lock_buf :: "nat \<Rightarrow> 'a bio_scheme \<Rightarrow> (nat \<times> 'a bio_scheme) res" where
  "lock_buf i s =
     bnd (acquiresleep (cur_pid s) (b_lock (bufs s ! i)))
       (\<lambda>lk. Inr (i, upd_buf i (\<lambda>b. b\<lparr>b_lock := lk\<rparr>) s))"

definition bget :: "u32 \<Rightarrow> u32 \<Rightarrow> 'a bio_scheme \<Rightarrow> (nat \<times> 'a bio_scheme) res" where
  "bget dev blockno s =
     (case List.find (\<lambda>i. b_dev (bufs s ! i) = dev \<and> b_blockno (bufs s ! i) = blockno) (mru s) of
        Some i \<Rightarrow> lock_buf i (upd_buf i (\<lambda>b. b\<lparr>b_refcnt := b_refcnt b + 1\<rparr>) s)
      | None \<Rightarrow>
        (case List.find (\<lambda>i. b_refcnt (bufs s ! i) = 0 \<and> \<not> b_dirty (bufs s ! i)) (rev (mru s)) of
           Some i \<Rightarrow> lock_buf i (upd_buf i
             (\<lambda>b. b\<lparr>b_dev := dev, b_blockno := blockno, b_valid := False, b_dirty := False, b_refcnt := 1\<rparr>) s)
         | None \<Rightarrow> Inl (Panic ''bget: no buffers'')))"

definition bread :: "u32 \<Rightarrow> u32 \<Rightarrow> 'a bio_scheme \<Rightarrow> (nat \<times> 'a bio_scheme) res" where
  "bread dev blockno s =
     bnd (bget dev blockno s) (\<lambda>(b, s).
       if \<not> b_valid (bufs s ! b) then bnd (iderw b s) (\<lambda>s. Inr (b, s)) else Inr (b, s))"

definition bwrite :: "nat \<Rightarrow> 'a bio_scheme \<Rightarrow> 'a bio_scheme res" where
  "bwrite b s =
     (if \<not> holdingsleep (b_lock (bufs s ! b)) then Inl (Panic ''bwrite'')
      else iderw b (upd_buf b (\<lambda>b. b\<lparr>b_dirty := True\<rparr>) s))"

definition brelse :: "nat \<Rightarrow> 'a bio_scheme \<Rightarrow> 'a bio_scheme res" where
  "brelse b s =
     (if \<not> holdingsleep (b_lock (bufs s ! b)) then Inl (Panic ''brelse'')
      else let s = upd_buf b (\<lambda>b. b\<lparr>b_lock := releasesleep (b_lock b)\<rparr>) s;
               s = upd_buf b (\<lambda>b. b\<lparr>b_refcnt := b_refcnt b - 1\<rparr>) s
        in if b_refcnt (bufs s ! b) = 0 then Inr (s\<lparr>mru := b # remove1 b (mru s)\<rparr>) else Inr s)"

text \<open>What the users of the cache do with a buffer they hold: read it, or store into it.\<close>

definition buf_data :: "nat \<Rightarrow> 'a bio_scheme \<Rightarrow> block" where
  "buf_data b s = b_data (bufs s ! b)"

definition set_data :: "nat \<Rightarrow> block \<Rightarrow> 'a bio_scheme \<Rightarrow> 'a bio_scheme" where
  "set_data b d s = upd_buf b (\<lambda>b. b\<lparr>b_data := d\<rparr>) s"

section \<open>What the cache represents\<close>

text \<open>
  \<open>cache s V H P\<close>: the users of the cache see the blocks \<open>V\<close> of device 1; the blocks \<open>H\<close> are held,
  each in the buffer that \<open>H\<close> gives, and the blocks \<open>P\<close> are pinned by \<^verbatim>\<open>B_DIRTY\<close>. A block that
  is neither held nor pinned is on the disk as the users see it, and no block is in two
  buffers.
\<close>

definition held :: "(u32 \<Rightarrow> nat option) \<Rightarrow> nat \<Rightarrow> buf \<Rightarrow> bool" where
  "held H i b \<longleftrightarrow> b_dev b = 1 \<and> H (b_blockno b) = Some i"

definition buf_ok :: "(u32 \<Rightarrow> block) \<Rightarrow> (u32 \<Rightarrow> nat option) \<Rightarrow> u32 set \<Rightarrow> nat \<Rightarrow> buf \<Rightarrow> bool" where
  "buf_ok V H P i b \<longleftrightarrow>
     (b_dev b = 1 \<and> b_blockno b < FSSIZE \<or> b_dev b = 0)
     \<and> (slocked (b_lock b) \<longleftrightarrow> held H i b) \<and> b_refcnt b = (if held H i b then 1 else 0)
     \<and> (b_dirty b \<longleftrightarrow> b_dev b = 1 \<and> b_blockno b \<in> P) \<and> (held H i b \<or> b_dirty b \<longrightarrow> b_valid b)
     \<and> (b_dev b = 1 \<and> b_valid b \<longrightarrow> b_data b = V (b_blockno b))"

definition has_block :: "'a bio_scheme \<Rightarrow> u32 \<Rightarrow> nat \<Rightarrow> bool" where
  "has_block s n i \<longleftrightarrow> i < NBUF \<and> b_dev (bufs s ! i) = 1 \<and> b_blockno (bufs s ! i) = n"

definition cache ::
  "'a bio_scheme \<Rightarrow> (u32 \<Rightarrow> block) \<Rightarrow> (u32 \<Rightarrow> nat option) \<Rightarrow> u32 set \<Rightarrow> bool" where
  "cache s V H P \<longleftrightarrow> length (bufs s) = NBUF \<and> distinct (mru s) \<and> set (mru s) = {..<NBUF}
     \<and> idequeue s = [] \<and> havedisk1 s
     \<and> (\<forall>i<NBUF. buf_ok V H P i (bufs s ! i))
     \<and> (\<forall>n i j. has_block s n i \<longrightarrow> has_block s n j \<longrightarrow> i = j)
     \<and> (\<forall>n i. H n = Some i \<longrightarrow> has_block s n i) \<and> (\<forall>n\<in>P. \<exists>i. has_block s n i)
     \<and> (\<forall>n. n \<notin> P \<longrightarrow> H n = None \<longrightarrow> V n = disk s 1 n)"

text \<open>Changing one buffer, and what has to be checked.\<close>

lemma upd_buf_fields [simp]:
  "mru (upd_buf i f s) = mru s" "idequeue (upd_buf i f s) = idequeue s" "disk (upd_buf i f s) = disk s"
  "havedisk1 (upd_buf i f s) = havedisk1 s" "written (upd_buf i f s) = written s"
  "cur_pid (upd_buf i f s) = cur_pid s" "bio.more (upd_buf i f s) = bio.more s"
  "length (bufs (upd_buf i f s)) = length (bufs s)"
  "i < length (bufs s) \<Longrightarrow> bufs (upd_buf i f s) ! j = (if j = i then f (bufs s ! i) else bufs s ! j)"
  by (simp_all add: upd_buf_def)

lemma upd_buf_upd_buf: "i < length (bufs s) \<Longrightarrow> upd_buf i f (upd_buf i g s) = upd_buf i (\<lambda>b. f (g b)) s"
  by (simp add: upd_buf_def)

lemma cacheD:
  assumes "cache s V H P"
  shows "length (bufs s) = NBUF" "distinct (mru s)" "set (mru s) = {..<NBUF}" "idequeue s = []" "havedisk1 s"
    "i < NBUF \<Longrightarrow> buf_ok V H P i (bufs s ! i)" "has_block s n i \<Longrightarrow> has_block s n j \<Longrightarrow> i = j"
    "H n = Some i \<Longrightarrow> has_block s n i" "n \<in> P \<Longrightarrow> \<exists>i. has_block s n i"
    "n \<notin> P \<Longrightarrow> H n = None \<Longrightarrow> V n = disk s 1 n"
  using assms unfolding cache_def by blast+

lemma cache_held:
  assumes "cache s V H P" and "H n = Some i"
  shows "i < NBUF" "i < length (bufs s)" "b_dev (bufs s ! i) = 1" "b_blockno (bufs s ! i) = n"
    "slocked (b_lock (bufs s ! i))" "b_refcnt (bufs s ! i) = 1" "b_valid (bufs s ! i)"
    "b_data (bufs s ! i) = V n" "b_dirty (bufs s ! i) \<longleftrightarrow> n \<in> P" "n < FSSIZE"
  using cacheD(8) [OF assms] cacheD(1) [OF assms(1)] cacheD(6) [OF assms(1), of i] assms(2)
  by (auto simp: has_block_def buf_ok_def held_def)

text \<open>A change to one buffer that keeps the block it caches.\<close>

lemma cache_upd:
  assumes c: "cache s V H P" and i: "has_block s n i"
    and f: "b_dev (f (bufs s ! i)) = 1" "b_blockno (f (bufs s ! i)) = n"
    and s': "length (bufs s') = NBUF" "\<And>j. j < NBUF \<Longrightarrow> bufs s' ! j = (if j = i then f (bufs s ! i) else bufs s ! j)"
      "distinct (mru s')" "set (mru s') = {..<NBUF}" "idequeue s' = []" "havedisk1 s'"
    and ok: "buf_ok V' H' P' i (f (bufs s ! i))"
    and same: "\<And>m. m \<noteq> n \<Longrightarrow> V' m = V m \<and> H' m = H m \<and> (m \<in> P' \<longleftrightarrow> m \<in> P) \<and> disk s' 1 m = disk s 1 m"
    and Hn: "\<And>j. H' n = Some j \<Longrightarrow> j = i" and co: "n \<notin> P' \<Longrightarrow> H' n = None \<Longrightarrow> V' n = disk s' 1 n"
  shows "cache s' V' H' P'"
proof -
  note d = cacheD [OF c]
  have hb: "has_block s' m j \<longleftrightarrow> has_block s m j" for m j
    using i f s'(2) by (cases "j = i") (auto simp: has_block_def)
  have "buf_ok V' H' P' j (bufs s' ! j)" if "j < NBUF" for j
  proof (cases "j = i")
    case False
    have "b_dev (bufs s ! j) = 1 \<Longrightarrow> b_blockno (bufs s ! j) \<noteq> n"
      using d(7) [OF i, of j] that False by (auto simp: has_block_def)
    then show ?thesis
      using d(6) [OF that] same [of "b_blockno (bufs s ! j)"] s'(2) [OF that] False
      by (auto simp: buf_ok_def held_def)
  qed (use ok s'(2) that in simp)
  moreover have "has_block s' m j" if "H' m = Some j" for m j
    using that same [of m] Hn i d(8) hb by (cases "m = n") auto
  moreover have "\<exists>j. has_block s' m j" if "m \<in> P'" for m
    using that same [of m] i d(9) [of m] hb by (cases "m = n") auto
  moreover have "V' m = disk s' 1 m" if "m \<notin> P'" "H' m = None" for m
    using that same [of m] co d(10) [of m] by (cases "m = n") auto
  ultimately show ?thesis unfolding cache_def using s' d(7) hb by blast
qed

lemma cache_set_data:
  assumes "cache s V H P" and "H n = Some i"
  shows "cache (set_data i d s) (V(n := d)) H P" "buf_data i (set_data i d s) = d"
proof -
  note h = cache_held [OF assms] and c = cacheD [OF assms(1)]
  show "cache (set_data i d s) (V(n := d)) H P"
    by (rule cache_upd [OF assms(1) c(8) [OF assms(2)], where f = "\<lambda>b. b\<lparr>b_data := d\<rparr>"])
      (use h c assms in \<open>auto simp: set_data_def buf_ok_def held_def\<close>)
  show "buf_data i (set_data i d s) = d" using h(2) by (simp add: buf_data_def set_data_def)
qed

lemma cache_pin:
  assumes "cache s V H P" and "H n = Some i"
  shows "cache (upd_buf i (\<lambda>b. b\<lparr>b_dirty := True\<rparr>) s) V H (insert n P)"
proof -
  note h = cache_held [OF assms] and c = cacheD [OF assms(1)]
  show ?thesis
    by (rule cache_upd [OF assms(1) c(8) [OF assms(2)], where f = "\<lambda>b. b\<lparr>b_dirty := True\<rparr>"])
      (use h c assms in \<open>auto simp: buf_ok_def held_def\<close>)
qed

lemma cache_bwrite:
  assumes "cache s V H P" and "H n = Some i"
  shows "\<exists>s'. bwrite i s = Inr s' \<and> cache s' V H (P - {n})
    \<and> disk s' = (disk s)(1 := (disk s 1)(n := V n)) \<and> written s' = written s @ [(1, n, V n)]
    \<and> bio.more s' = bio.more s"
proof -
  note h = cache_held [OF assms] and c = cacheD [OF assms(1)]
  let ?s1 = "upd_buf i (\<lambda>b. b\<lparr>b_dirty := True\<rparr>) s"
  let ?s2 = "?s1\<lparr>idequeue := [i], disk := (disk s)(1 := (disk s 1)(n := V n)), written := written s @ [(1, n, V n)]\<rparr>"
  let ?s3 = "upd_buf i (\<lambda>b. b\<lparr>b_valid := True, b_dirty := False\<rparr>) (?s2\<lparr>idequeue := []\<rparr>)"
  have "bwrite i s = Inr ?s3"
    using h c(4,5) by (simp add: bwrite_def holdingsleep_def iderw_def idestart_def ideintr_def Let_def not_le)
  moreover have "cache ?s3 V H (P - {n})"
    by (rule cache_upd [OF assms(1) c(8) [OF assms(2)], where f = "\<lambda>b. b\<lparr>b_valid := True, b_dirty := False\<rparr>"])
      (use h c assms in \<open>auto simp: buf_ok_def held_def\<close>)
  ultimately show ?thesis by simp
qed

lemma cache_brelse:
  assumes "cache s V H P" and "H n = Some i" and "n \<in> P \<or> V n = disk s 1 n"
  shows "\<exists>s'. brelse i s = Inr s' \<and> cache s' V (H(n := None)) P
    \<and> disk s' = disk s \<and> written s' = written s \<and> bio.more s' = bio.more s"
proof -
  note h = cache_held [OF assms(1,2)] and c = cacheD [OF assms(1)]
  let ?f = "\<lambda>b. b\<lparr>b_lock := releasesleep (b_lock b), b_refcnt := b_refcnt b - 1\<rparr>"
  let ?s = "(upd_buf i ?f s)\<lparr>mru := i # remove1 i (mru s)\<rparr>"
  have "brelse i s = Inr ?s"
    using h by (simp add: brelse_def holdingsleep_def Let_def upd_buf_upd_buf)
  moreover have "cache ?s V (H(n := None)) P"
    by (rule cache_upd [OF assms(1) c(8) [OF assms(2)], where f = ?f])
      (use h c assms in \<open>auto simp: buf_ok_def held_def releasesleep_def\<close>)
  ultimately show ?thesis by simp
qed

section \<open>Reading a block\<close>

lemma iderw_read:
  fixes s :: "'a bio_scheme"
  assumes "i < length (bufs s)" and "slocked (b_lock (bufs s ! i))" and "\<not> b_valid (bufs s ! i)"
    and "\<not> b_dirty (bufs s ! i)" and "b_dev (bufs s ! i) = 1" and "b_blockno (bufs s ! i) < FSSIZE"
    and "idequeue s = []" and "havedisk1 s"
  shows "iderw i s = Inr (upd_buf i (\<lambda>b. b\<lparr>b_data := disk s 1 (b_blockno b), b_valid := True, b_dirty := False\<rparr>) s)"
proof -
  have q: "s\<lparr>idequeue := []\<rparr> = s" using assms(7) by (cases s) simp
  show ?thesis
    using assms q
    by (simp add: iderw_def holdingsleep_def idestart_def ideintr_def Let_def not_le upd_buf_upd_buf)
      (simp add: upd_buf_def)
qed

lemma upd_buf_cong: "f (bufs s ! i) = g (bufs s ! i) \<Longrightarrow> upd_buf i f s = upd_buf i g s"
  by (simp add: upd_buf_def)

lemma find_unique: "i \<in> set xs \<Longrightarrow> Q i \<Longrightarrow> (\<And>j. j \<in> set xs \<Longrightarrow> Q j \<Longrightarrow> j = i) \<Longrightarrow> List.find Q xs = Some i"
proof (induction xs)
  case (Cons x xs)
  show ?case
  proof (cases "Q x")
    case True
    then have "x = i" by (rule Cons.prems(3) [OF list.set_intros(1)])
    then show ?thesis using True by simp
  next
    case False
    then have "i \<in> set xs" using Cons.prems(1,2) by auto
    then have "List.find Q xs = Some i" using Cons.prems(2,3) by (intro Cons.IH) (simp_all only: list.set_intros)
    then show ?thesis using False by simp
  qed
qed simp

definition got_buf :: "block \<Rightarrow> u32 \<Rightarrow> nat \<Rightarrow> buf \<Rightarrow> buf" where
  "got_buf d n pid b = b\<lparr>b_data := d, b_valid := True, b_dev := 1, b_blockno := n, b_refcnt := 1,
     b_lock := (b_lock b)\<lparr>slocked := True, lk_pid := pid\<rparr>\<rparr>"

lemma bread_hit:
  assumes c: "cache s V H P" and n: "H n = None" and i: "has_block s n i"
  shows "bread 1 n s = Inr (i, upd_buf i (got_buf (V n) n (cur_pid s)) s)"
proof -
  note d = cacheD [OF c]
  have il: "i < NBUF" "i < length (bufs s)" "b_dev (bufs s ! i) = 1" "b_blockno (bufs s ! i) = n"
    using i d(1) by (auto simp: has_block_def)
  have ok: "buf_ok V H P i (bufs s ! i)" using d(6) il by blast
  have nh: "\<not> held H i (bufs s ! i)" using n il by (simp add: held_def)
  have fnd: "List.find (\<lambda>i. b_dev (bufs s ! i) = 1 \<and> b_blockno (bufs s ! i) = n) (mru s) = Some i"
  proof (rule find_unique)
    show "i \<in> set (mru s)" using d(3) il by simp
    show "j = i" if "j \<in> set (mru s)" "b_dev (bufs s ! j) = 1 \<and> b_blockno (bufs s ! j) = n" for j
      using d(7) [OF i, of j] that d(3) by (auto simp: has_block_def)
  qed (use il in simp)
  let ?b = "bufs s ! i"
  let ?f = "\<lambda>b. b\<lparr>b_refcnt := b_refcnt b + 1, b_lock := (b_lock b)\<lparr>slocked := True, lk_pid := cur_pid s\<rparr>\<rparr>"
  have get: "bget 1 n s = Inr (i, upd_buf i ?f s)"
    using fnd il ok nh
    by (simp add: bget_def lock_buf_def acquiresleep_def buf_ok_def upd_buf_upd_buf)
      (simp add: upd_buf_def)
  show ?thesis
  proof (cases "b_valid ?b")
    case True
    then have "?f ?b = got_buf (V n) n (cur_pid s) ?b"
      using ok nh il by (cases ?b) (simp add: got_buf_def buf_ok_def)
    then have "upd_buf i ?f s = upd_buf i (got_buf (V n) n (cur_pid s)) s" by (rule upd_buf_cong)
    then show ?thesis using get True il by (simp add: bread_def got_buf_def)
  next
    case False
    then have "V n = disk s 1 n" "\<not> b_dirty ?b"
      using ok nh il d(10) [OF _ n] by (auto simp: buf_ok_def)
    moreover have "n < FSSIZE" using ok il by (simp add: buf_ok_def)
    ultimately have "iderw i (upd_buf i ?f s) = Inr (upd_buf i (got_buf (V n) n (cur_pid s)) s)"
      using il False nh ok d(4,5)
      by (subst iderw_read)
        (simp_all add: upd_buf_upd_buf, intro upd_buf_cong, cases "bufs s ! i", simp add: got_buf_def buf_ok_def)
    then show ?thesis using get False il by (simp add: bread_def)
  qed
qed

lemma bread_miss:
  assumes c: "cache s V H P" and n: "H n = None" "n < FSSIZE" and no: "\<And>i. \<not> has_block s n i"
    and free: "\<exists>i<NBUF. b_refcnt (bufs s ! i) = 0 \<and> \<not> b_dirty (bufs s ! i)"
  shows "\<exists>i<NBUF. b_refcnt (bufs s ! i) = 0 \<and> \<not> b_dirty (bufs s ! i)
    \<and> bread 1 n s = Inr (i, upd_buf i (got_buf (V n) n (cur_pid s)) s)"
proof -
  note d = cacheD [OF c]
  have nf: "List.find (\<lambda>i. b_dev (bufs s ! i) = 1 \<and> b_blockno (bufs s ! i) = n) (mru s) = None"
    using no d(3) by (auto simp: find_None_iff has_block_def)
  have "List.find (\<lambda>i. b_refcnt (bufs s ! i) = 0 \<and> \<not> b_dirty (bufs s ! i)) (rev (mru s)) \<noteq> None"
    using free d(3) by (auto simp: find_None_iff)
  then obtain i where fi: "List.find (\<lambda>i. b_refcnt (bufs s ! i) = 0 \<and> \<not> b_dirty (bufs s ! i)) (rev (mru s)) = Some i"
    by blast
  then have "i \<in> set (rev (mru s))" and i: "b_refcnt (bufs s ! i) = 0" "\<not> b_dirty (bufs s ! i)"
    by (auto simp: find_Some_iff) (metis nth_mem length_rev set_rev)
  then have il: "i < NBUF" "i < length (bufs s)" using d(1,3) by auto
  have ok: "buf_ok V H P i (bufs s ! i)" using d(6) il by blast
  have lk: "\<not> slocked (b_lock (bufs s ! i))" using ok i by (auto simp: buf_ok_def split: if_splits)
  have "n \<notin> P" using no d(9) by blast
  then have vd: "V n = disk s 1 n" using d(10) n by blast
  let ?f = "\<lambda>b. b\<lparr>b_dev := 1, b_blockno := n, b_valid := False, b_dirty := False, b_refcnt := 1,
      b_lock := (b_lock b)\<lparr>slocked := True, lk_pid := cur_pid s\<rparr>\<rparr>"
  have get: "bget 1 n s = Inr (i, upd_buf i ?f s)"
    using nf fi il lk by (simp add: bget_def lock_buf_def acquiresleep_def upd_buf_upd_buf) (simp add: upd_buf_def)
  have "iderw i (upd_buf i ?f s) = Inr (upd_buf i (got_buf (V n) n (cur_pid s)) s)"
    using il n d(4,5) vd i
    by (subst iderw_read)
      (simp_all add: upd_buf_upd_buf, intro upd_buf_cong, cases "bufs s ! i", simp add: got_buf_def)
  then show ?thesis using get il i by (auto simp: bread_def)
qed

lemma free_buffer:
  assumes c: "cache s V H P" and few: "finite (dom H \<union> P)" "card (dom H \<union> P) < NBUF"
  shows "\<exists>i<NBUF. b_refcnt (bufs s ! i) = 0 \<and> \<not> b_dirty (bufs s ! i)"
proof (rule ccontr)
  assume "\<not> ?thesis"
  then have busy: "b_dev (bufs s ! i) = 1 \<and> b_blockno (bufs s ! i) \<in> dom H \<union> P" if "i < NBUF" for i
    using cacheD(6) [OF c that] that by (auto simp: buf_ok_def held_def split: if_splits)
  have "inj_on (\<lambda>i. b_blockno (bufs s ! i)) {..<NBUF}"
    using busy cacheD(7) [OF c] by (auto simp: inj_on_def has_block_def)
  moreover have "(\<lambda>i. b_blockno (bufs s ! i)) ` {..<NBUF} \<subseteq> dom H \<union> P" using busy by auto
  ultimately have "card {..<NBUF} \<le> card (dom H \<union> P)" using few(1) card_inj_on_le by blast
  then show False using few(2) by simp
qed

text \<open>A free buffer takes on a block that was not cached.\<close>

lemma cache_recycle:
  assumes c: "cache s V H P" and n: "H n = None" "n < FSSIZE"
    and i: "i < NBUF" "b_refcnt (bufs s ! i) = 0" "\<not> b_dirty (bufs s ! i)"
    and no: "\<And>j. \<not> has_block s n j" "n \<notin> P"
    and f: "b_dev (f (bufs s ! i)) = 1" "b_blockno (f (bufs s ! i)) = n" "slocked (b_lock (f (bufs s ! i)))"
      "b_refcnt (f (bufs s ! i)) = 1" "\<not> b_dirty (f (bufs s ! i))" "b_valid (f (bufs s ! i))"
      "b_data (f (bufs s ! i)) = V n"
  shows "cache (upd_buf i f s) V (H(n \<mapsto> i)) P"
proof -
  note d = cacheD [OF c]
  have il: "i < length (bufs s)" using i(1) d(1) by simp
  let ?s = "upd_buf i f s"
  have hb: "has_block ?s m j \<longleftrightarrow> (if j = i then m = n else has_block s m j)" for m j
    using il i(1) f(1,2) by (auto simp: has_block_def)
  have unused: "\<not> held H i (bufs s ! i)" "b_dev (bufs s ! i) = 1 \<Longrightarrow> b_blockno (bufs s ! i) \<notin> P"
    using d(6) [OF i(1)] i by (auto simp: buf_ok_def split: if_splits)
  have "buf_ok V (H(n \<mapsto> i)) P j (bufs ?s ! j)" if "j < NBUF" for j
  proof (cases "j = i")
    case False
    have "b_dev (bufs s ! j) = 1 \<Longrightarrow> b_blockno (bufs s ! j) \<noteq> n" using no that by (auto simp: has_block_def)
    then show ?thesis using d(6) [OF that] il False by (auto simp: buf_ok_def held_def)
  qed (use il f n no(2) in \<open>simp add: buf_ok_def held_def\<close>)
  moreover have "has_block ?s m j" if "(H(n \<mapsto> i)) m = Some j" for m j
    using that d(8) [of m j] unused(1) hb by (auto simp: held_def has_block_def split: if_splits)
  moreover have "\<exists>j. has_block ?s m j" if m: "m \<in> P" for m
  proof -
    obtain j where j: "has_block s m j" using d(9) [OF m] by blast
    then have "j \<noteq> i" using unused(2) m by (auto simp: has_block_def)
    then show ?thesis using j hb by auto
  qed
  moreover have "j = k" if "has_block ?s m j" "has_block ?s m k" for m j k
    using that d(7) no(1) hb by (auto split: if_splits)
  moreover have "V m = disk ?s 1 m" if "m \<notin> P" "(H(n \<mapsto> i)) m = None" for m
    using that d(10) [of m] by (auto split: if_splits)
  moreover have "length (bufs ?s) = NBUF" "distinct (mru ?s)" "set (mru ?s) = {..<NBUF}" "idequeue ?s = []"
    "havedisk1 ?s" using d(1-5) by simp_all
  ultimately show ?thesis unfolding cache_def by blast
qed

lemma cache_bread:
  assumes c: "cache s V H P" and n: "H n = None" "n < FSSIZE"
    and few: "finite (dom H \<union> P)" "n \<in> P \<or> card (dom H \<union> P) < NBUF"
  shows "\<exists>i s'. bread 1 n s = Inr (i, s') \<and> cache s' V (H(n \<mapsto> i)) P \<and> buf_data i s' = V n
    \<and> disk s' = disk s \<and> written s' = written s \<and> bio.more s' = bio.more s"
proof (cases "\<exists>i. has_block s n i")
  case True
  then obtain i where i: "has_block s n i" by blast
  note d = cacheD [OF c]
  have il: "i < length (bufs s)" using i d(1) by (simp add: has_block_def)
  have "cache (upd_buf i (got_buf (V n) n (cur_pid s)) s) V (H(n \<mapsto> i)) P"
    by (rule cache_upd [OF c i, where f = "got_buf (V n) n (cur_pid s)"])
      (use d(1-5) il i n(1) d(6) [of i] in \<open>auto simp: got_buf_def buf_ok_def held_def has_block_def\<close>)
  then show ?thesis using bread_hit [OF c n(1) i] il by (simp add: buf_data_def got_buf_def)
next
  case False
  note d = cacheD [OF c]
  have "n \<notin> P" using False d(9) by blast
  then obtain i where i: "i < NBUF" "b_refcnt (bufs s ! i) = 0" "\<not> b_dirty (bufs s ! i)"
    and br: "bread 1 n s = Inr (i, upd_buf i (got_buf (V n) n (cur_pid s)) s)"
    using bread_miss [OF c n] False free_buffer [OF c] few by blast
  have il: "i < length (bufs s)" using i d(1) by simp
  have "cache (upd_buf i (got_buf (V n) n (cur_pid s)) s) V (H(n \<mapsto> i)) P"
    by (rule cache_recycle [OF c n i]) (use False \<open>n \<notin> P\<close> i in \<open>auto simp: got_buf_def\<close>)
  then show ?thesis using br il by (auto simp: buf_data_def got_buf_def)
qed

section \<open>The properties\<close>

text \<open>
  A client of the cache that reads and writes whole blocks, and the same operations on a
  plain array of blocks.
\<close>

datatype bop = ReadB u32 | WriteB u32 block

fun bop_block :: "bop \<Rightarrow> u32" where
  "bop_block (ReadB n) = n" | "bop_block (WriteB n d) = n"

fun run_bop :: "bop \<Rightarrow> 'a bio_scheme \<Rightarrow> (block \<times> 'a bio_scheme) res" where
  "run_bop (ReadB n) s = bnd (bread 1 n s) (\<lambda>(b, s). bnd (brelse b s) (\<lambda>s'. Inr (buf_data b s, s')))"
| "run_bop (WriteB n d) s =
     bnd (bread 1 n s) (\<lambda>(b, s). bnd (bwrite b (set_data b d s)) (\<lambda>s. bnd (brelse b s) (\<lambda>s. Inr (d, s))))"

fun run_bops :: "bop list \<Rightarrow> 'a bio_scheme \<Rightarrow> (block list \<times> 'a bio_scheme) res" where
  "run_bops [] s = Inr ([], s)"
| "run_bops (p # ps) s = bnd (run_bop p s) (\<lambda>(d, s). bnd (run_bops ps s) (\<lambda>(ds, s). Inr (d # ds, s)))"

fun array_bop :: "bop \<Rightarrow> (u32 \<Rightarrow> block) \<Rightarrow> block \<times> (u32 \<Rightarrow> block)" where
  "array_bop (ReadB n) a = (a n, a)" | "array_bop (WriteB n d) a = (d, a(n := d))"

fun array_bops :: "bop list \<Rightarrow> (u32 \<Rightarrow> block) \<Rightarrow> block list \<times> (u32 \<Rightarrow> block)" where
  "array_bops [] a = ([], a)"
| "array_bops (p # ps) a = (let (d, a) = array_bop p a; (ds, a) = array_bops ps a in (d # ds, a))"

lemma cache_disk: "cache s V Map.empty {} \<Longrightarrow> V n = disk s 1 n"
  using cacheD(10) [of s V Map.empty "{}" n] by simp

lemma run_bop_array:
  assumes c: "cache s V Map.empty {}" and n: "bop_block p < FSSIZE"
  shows "\<exists>s'. run_bop p s = Inr (fst (array_bop p V), s') \<and> cache s' (snd (array_bop p V)) Map.empty {}"
proof -
  obtain i s1 where s1: "bread 1 (bop_block p) s = Inr (i, s1)" "buf_data i s1 = V (bop_block p)" "disk s1 = disk s"
    and c1: "cache s1 V [bop_block p \<mapsto> i] {}"
    using cache_bread [OF c _ n] by (auto simp: NBUF_def)
  have emp: "[bop_block p \<mapsto> i](bop_block p := None) = Map.empty" by simp
  show ?thesis
  proof (cases p)
    case (ReadB m)
    obtain s2 where "brelse i s1 = Inr s2" "cache s2 V Map.empty {}"
      using cache_brelse [OF c1, of "bop_block p" i] cache_disk [OF c] s1(3) emp by auto
    then show ?thesis using ReadB s1 by simp
  next
    case (WriteB m d)
    note c2 = cache_set_data(1) [OF c1, of m i d]
    obtain s3 where s3: "bwrite i (set_data i d s1) = Inr s3" "cache s3 (V(m := d)) [m \<mapsto> i] {}" "disk s3 1 m = d"
      using cache_bwrite [OF c2, of m i] WriteB by auto
    obtain s4 where "brelse i s3 = Inr s4" "cache s4 (V(m := d)) Map.empty {}"
      using cache_brelse [OF s3(2), of m i] s3(3) WriteB emp by auto
    then show ?thesis using WriteB s1 s3 by simp
  qed
qed

text \<open>
  C10. The buffer cache is transparent: any sequence of block reads and writes on device 1,
  issued through a cache that holds no buffers, runs without a panic, returns what the same
  sequence would return on a plain array of blocks, and leaves the disk equal to that array.
\<close>

theorem buffer_cache_transparent:
  assumes "cache s V Map.empty {}" and "\<forall>p\<in>set ps. bop_block p < FSSIZE"
  shows "\<exists>s'. run_bops ps s = Inr (fst (array_bops ps V), s')
    \<and> cache s' (snd (array_bops ps V)) Map.empty {} \<and> disk s' 1 = snd (array_bops ps V)"
  using assms
proof (induction ps arbitrary: s V)
  case Nil
  then show ?case using cache_disk by fastforce
next
  case (Cons p ps)
  obtain s1 where s1: "run_bop p s = Inr (fst (array_bop p V), s1)" "cache s1 (snd (array_bop p V)) Map.empty {}"
    using run_bop_array Cons.prems by (metis list.set_intros(1))
  then show ?case using Cons.IH [OF s1(2)] Cons.prems(2) by (auto split: prod.split)
qed

definition demo_disk :: bio where
  "demo_disk = binit \<lparr>bufs = [], mru = [], idequeue = [], havedisk1 = True, disk = (\<lambda>_ _. replicate BSIZE 0),
     written = [], cur_pid = 1\<rparr>"

lemma binit_cache:
  assumes "idequeue s = []" and "havedisk1 s"
  shows "cache (binit s) (disk s 1) Map.empty {}"
  using assms
  by (auto simp: cache_def binit_def buf_ok_def held_def has_block_def empty_buf_def initsleeplock_def)

theorem buffer_cache_transparent_witness:
  "let ps = [WriteB 5 (replicate BSIZE 7), ReadB 5, ReadB 6]; V = (\<lambda>_. replicate BSIZE 0)
   in \<exists>s'. run_bops ps demo_disk = Inr (fst (array_bops ps V), s')
     \<and> cache s' (snd (array_bops ps V)) Map.empty {} \<and> disk s' 1 = snd (array_bops ps V)"
  unfolding Let_def
proof (rule buffer_cache_transparent)
  show "cache demo_disk (\<lambda>_. replicate BSIZE 0) Map.empty {}"
    unfolding demo_disk_def
    using binit_cache [of "\<lparr>bufs = [], mru = [], idequeue = [], havedisk1 = True,
        disk = (\<lambda>_ _. replicate BSIZE 0), written = [], cur_pid = 1\<rparr>"] by simp
qed (simp add: FSSIZE_def)

end
