(* ===== verification/Layout.thy ===== *)
theory Layout
  imports Bio
begin

text \<open>
  The on-disk format (\<^verbatim>\<open>fs.h\<close>, \<^verbatim>\<open>stat.h\<close>): little-endian fields of a block, the super block,
  inodes, directory entries, and where they are.
\<close>

section \<open>Little-endian fields of a block\<close>

definition get16 :: "block \<Rightarrow> nat \<Rightarrow> u16" where
  "get16 d k = ucast (d ! k) OR push_bit 8 (ucast (d ! (k + 1)))"

definition put16 :: "block \<Rightarrow> nat \<Rightarrow> u16 \<Rightarrow> block" where
  "put16 d k v = d[k := ucast v, k + 1 := ucast (drop_bit 8 v)]"

definition get32 :: "block \<Rightarrow> nat \<Rightarrow> u32" where
  "get32 d k = ucast (get16 d k) OR push_bit 16 (ucast (get16 d (k + 2)))"

definition put32 :: "block \<Rightarrow> nat \<Rightarrow> u32 \<Rightarrow> block" where
  "put32 d k v = put16 (put16 d k (ucast v)) (k + 2) (ucast (drop_bit 16 v))"

lemma length_put [simp]: "length (put16 d k v) = length d" "length (put32 d k w) = length d"
  by (simp_all add: put16_def put32_def)

lemma get16_put16 [simp]:
  assumes "k + 1 < length d"
  shows "get16 (put16 d k v) k = v"
  using assms unfolding get16_def put16_def
  by (intro bit_word_eqI) (auto simp: bit_or_iff bit_push_bit_iff bit_unsigned_iff bit_drop_bit_eq bit_imp_le_length)

lemma get16_put16_other:
  assumes "j + 2 \<le> k \<or> k + 2 \<le> j"
  shows "get16 (put16 d k v) j = get16 d j"
  using assms by (auto simp: get16_def put16_def)

lemma get32_put32 [simp]:
  assumes "k + 3 < length d"
  shows "get32 (put32 d k v) k = v"
proof -
  have "get16 (put32 d k v) k = ucast v" "get16 (put32 d k v) (k + 2) = ucast (drop_bit 16 v)"
    using assms by (simp_all add: put32_def get16_put16_other)
  then show ?thesis
    unfolding get32_def
    by (intro bit_word_eqI) (auto simp: bit_or_iff bit_push_bit_iff bit_unsigned_iff bit_drop_bit_eq bit_imp_le_length)
qed

lemma get16_put32_other: "j + 2 \<le> k \<or> k + 4 \<le> j \<Longrightarrow> get16 (put32 d k v) j = get16 d j"
  by (auto simp: put32_def get16_put16_other)

lemma get32_put16_other: "j + 4 \<le> k \<or> k + 2 \<le> j \<Longrightarrow> get32 (put16 d k v) j = get32 d j"
  by (auto simp: get32_def get16_put16_other)

lemma get32_put32_other: "j + 4 \<le> k \<or> k + 4 \<le> j \<Longrightarrow> get32 (put32 d k v) j = get32 d j"
  by (auto simp: get32_def get16_put32_other)

text \<open>An array of 32-bit words at offset \<open>k\<close>.\<close>

fun put_array :: "block \<Rightarrow> nat \<Rightarrow> u32 list \<Rightarrow> block" where
  "put_array d k [] = d"
| "put_array d k (v # vs) = put_array (put32 d k v) (k + 4) vs"

definition get_array :: "block \<Rightarrow> nat \<Rightarrow> nat \<Rightarrow> u32 list" where
  "get_array d k n = map (\<lambda>i. get32 d (k + 4 * i)) [0..<n]"

lemma length_put_array [simp]: "length (put_array d k vs) = length d"
  by (induction d k vs rule: put_array.induct) simp_all

lemma get32_put_array_other:
  "j + 4 \<le> k \<or> k + 4 * length vs \<le> j \<Longrightarrow> get32 (put_array d k vs) j = get32 d j"
  by (induction d k vs rule: put_array.induct) (auto simp: get32_put32_other)

lemma get16_put_array_other:
  "j + 2 \<le> k \<or> k + 4 * length vs \<le> j \<Longrightarrow> get16 (put_array d k vs) j = get16 d j"
  by (induction d k vs rule: put_array.induct) (auto simp: get16_put32_other)

lemma get32_put_array:
  "k + 4 * length vs \<le> length d \<Longrightarrow> i < length vs \<Longrightarrow> get32 (put_array d k vs) (k + 4 * i) = vs ! i"
proof (induction d k vs arbitrary: i rule: put_array.induct)
  case (2 d k v vs)
  show ?case
  proof (cases i)
    case 0
    then show ?thesis using 2 by (simp add: get32_put_array_other)
  next
    case (Suc j)
    then show ?thesis using 2 by (simp add: add.assoc [symmetric])
  qed
qed simp

lemma get_array_put_array [simp]:
  "k + 4 * length vs \<le> length d \<Longrightarrow> n = length vs \<Longrightarrow> get_array (put_array d k vs) k n = vs"
  by (intro nth_equalityI) (simp_all add: get_array_def get32_put_array)

section \<open>The super block\<close>

record superblock =
  sb_size :: u32
  sb_nblocks :: u32
  sb_ninodes :: u32
  sb_nlog :: u32
  sb_logstart :: u32
  sb_inodestart :: u32
  sb_bmapstart :: u32

definition sb_of_block :: "block \<Rightarrow> superblock" where
  "sb_of_block d = \<lparr>sb_size = get32 d 0, sb_nblocks = get32 d 4, sb_ninodes = get32 d 8, sb_nlog = get32 d 12,
     sb_logstart = get32 d 16, sb_inodestart = get32 d 20, sb_bmapstart = get32 d 24\<rparr>"

section \<open>Inodes\<close>

definition NDIRECT :: nat where "NDIRECT = 12"
definition NINDIRECT :: nat where "NINDIRECT = 128"
definition MAXFILE :: nat where "MAXFILE = NDIRECT + NINDIRECT"

record dinode =
  di_type :: u16
  di_major :: u16
  di_minor :: u16
  di_nlink :: u16
  di_size :: u32
  di_addrs :: "u32 list"

definition DINODE_SIZE :: nat where "DINODE_SIZE = 64"
definition IPB :: nat where "IPB = 8"
definition BPB :: nat where "BPB = 4096"

definition get_dinode :: "block \<Rightarrow> nat \<Rightarrow> dinode" where
  "get_dinode d i =
     (let k = DINODE_SIZE * i
      in \<lparr>di_type = get16 d k, di_major = get16 d (k + 2), di_minor = get16 d (k + 4), di_nlink = get16 d (k + 6),
          di_size = get32 d (k + 8), di_addrs = get_array d (k + 12) (NDIRECT + 1)\<rparr>)"

definition put_dinode :: "block \<Rightarrow> nat \<Rightarrow> dinode \<Rightarrow> block" where
  "put_dinode d i di =
     (let k = DINODE_SIZE * i; d = put16 d k (di_type di); d = put16 d (k + 2) (di_major di);
          d = put16 d (k + 4) (di_minor di); d = put16 d (k + 6) (di_nlink di); d = put32 d (k + 8) (di_size di)
      in put_array d (k + 12) (di_addrs di))"

definition IBLOCK :: "u32 \<Rightarrow> superblock \<Rightarrow> u32" where
  "IBLOCK i sb = i div of_nat IPB + sb_inodestart sb"

definition BBLOCK :: "u32 \<Rightarrow> superblock \<Rightarrow> u32" where
  "BBLOCK b sb = b div of_nat BPB + sb_bmapstart sb"

lemma length_put_dinode [simp]: "length (put_dinode d i di) = length d"
  by (simp add: put_dinode_def Let_def)

lemmas field_other = get16_put16_other get16_put32_other get32_put16_other get32_put32_other
  get16_put_array_other get32_put_array_other

lemma get_dinode_put_dinode:
  assumes "length (di_addrs di) = NDIRECT + 1" and "DINODE_SIZE * (i + 1) \<le> length d"
  shows "get_dinode (put_dinode d i di) i = di"
  using assms by (simp add: get_dinode_def put_dinode_def Let_def DINODE_SIZE_def NDIRECT_def field_other)

lemma get_array_other:
  assumes "\<And>m. k \<le> m \<Longrightarrow> m + 4 \<le> k + 4 * n \<Longrightarrow> get32 d' m = get32 d m"
  shows "get_array d' k n = get_array d k n"
  unfolding get_array_def by (intro map_cong refl assms) auto

lemma get_dinode_put_other:
  assumes "i \<noteq> j" and "length (di_addrs di) = NDIRECT + 1"
  shows "get_dinode (put_dinode d i di) j = get_dinode d j"
proof -
  have far: "j < i \<or> i < j" using assms(1) by auto
  have f16: "get16 (put_dinode d i di) (64 * j + m) = get16 d (64 * j + m)" if "m + 2 \<le> 64" for m
    using far assms(2) that
    by (auto simp: put_dinode_def Let_def DINODE_SIZE_def NDIRECT_def field_other)
  have f32: "get32 (put_dinode d i di) (64 * j + m) = get32 d (64 * j + m)" if "m + 4 \<le> 64" for m
    using f16 [of m] f16 [of "m + 2"] that by (simp add: get32_def add.assoc)
  have "get_array (put_dinode d i di) (64 * j + 12) 13 = get_array d (64 * j + 12) 13"
  proof (rule get_array_other)
    fix m assume "64 * j + 12 \<le> m" "m + 4 \<le> 64 * j + 12 + 4 * 13"
    then show "get32 (put_dinode d i di) m = get32 d m" using f32 [of "m - 64 * j"] by simp
  qed
  then show ?thesis
    using f16 [of 0] f16 [of 2] f16 [of 4] f16 [of 6] f32 [of 8]
    by (simp add: get_dinode_def Let_def DINODE_SIZE_def NDIRECT_def)
qed

section \<open>Directory entries\<close>

definition DIRSIZ :: nat where "DIRSIZ = 14"
definition DIRENT_SIZE :: nat where "DIRENT_SIZE = 16"

record dirent =
  de_inum :: u16
  de_name :: "u8 list"

definition dirent_of_bytes :: "u8 list \<Rightarrow> dirent" where
  "dirent_of_bytes d = \<lparr>de_inum = get16 d 0, de_name = take DIRSIZ (drop 2 d)\<rparr>"

definition bytes_of_dirent :: "dirent \<Rightarrow> u8 list" where
  "bytes_of_dirent de = put16 [0, 0] 0 (de_inum de) @ de_name de"

lemma dirent_round_trip:
  assumes "length (de_name de) = DIRSIZ"
  shows "dirent_of_bytes (bytes_of_dirent de) = de" "length (bytes_of_dirent de) = DIRENT_SIZE"
proof -
  have "get16 (put16 [0, 0] 0 (de_inum de) @ de_name de) 0 = get16 (put16 [0, 0] 0 (de_inum de)) 0"
    by (simp add: get16_def nth_append)
  then show "dirent_of_bytes (bytes_of_dirent de) = de"
    using assms by (simp add: dirent_of_bytes_def bytes_of_dirent_def)
  show "length (bytes_of_dirent de) = DIRENT_SIZE"
    using assms by (simp add: bytes_of_dirent_def DIRSIZ_def DIRENT_SIZE_def)
qed

definition T_DIR :: u16 where "T_DIR = 1"
definition T_FILE :: u16 where "T_FILE = 2"
definition T_DEV :: u16 where "T_DEV = 3"

end
