(* ===== verification/Log.thy ===== *)
theory Log
  imports Layout
begin

text \<open>
  The write-ahead log (\<^verbatim>\<open>log.c\<close>). The functions are those of one process; where they would
  sleep for another one the model's result is the error \<open>Deadlock\<close>. A disk block is written
  atomically; a crash keeps the disk and loses everything else.
\<close>

definition LOGSIZE :: nat where "LOGSIZE = 30"
definition MAXOPBLOCKS :: nat where "MAXOPBLOCKS = 10"

record log =
  l_start :: int
  l_size :: int
  l_outstanding :: int
  l_committing :: bool
  l_dev :: u32
  lh_n :: int
  lh_block :: "u32 list"

record logsys = bio +
  lg :: log

definition upd_log :: "(log \<Rightarrow> log) \<Rightarrow> 'a logsys_scheme \<Rightarrow> 'a logsys_scheme" where
  "upd_log f s = s\<lparr>lg := f (lg s)\<rparr>"

definition readsb :: "u32 \<Rightarrow> 'a bio_scheme \<Rightarrow> (superblock \<times> 'a bio_scheme) res" where
  "readsb dev s = bnd (bread dev 1 s) (\<lambda>(bp, s).
     bnd (brelse bp s) (\<lambda>s'. Inr (sb_of_block (buf_data bp s), s')))"

text \<open>Block \<open>tail\<close> of the log, and the home of the \<open>tail\<close>-th logged block.\<close>

definition log_block :: "'a logsys_scheme \<Rightarrow> nat \<Rightarrow> u32" where
  "log_block s tail = of_int (l_start (lg s) + int tail + 1)"

definition home_block :: "'a logsys_scheme \<Rightarrow> nat \<Rightarrow> u32 res" where
  "home_block s tail = (if tail < LOGSIZE then Inr (lh_block (lg s) ! tail) else Inl OutOfBounds)"

text \<open>The body shared by \<^verbatim>\<open>install_trans\<close> and \<^verbatim>\<open>write_log\<close>: copy one block through the cache.\<close>

definition install_one :: "nat \<Rightarrow> 'a logsys_scheme \<Rightarrow> 'a logsys_scheme res" where
  "install_one tail s =
     bnd (bread (l_dev (lg s)) (log_block s tail) s) (\<lambda>(lbuf, s).
     bnd (home_block s tail) (\<lambda>home.
     bnd (bread (l_dev (lg s)) home s) (\<lambda>(dbuf, s).
     bnd (bwrite dbuf (set_data dbuf (buf_data lbuf s) s)) (\<lambda>s.
     bnd (brelse lbuf s) (\<lambda>s. brelse dbuf s)))))"

definition install_trans :: "'a logsys_scheme \<Rightarrow> 'a logsys_scheme res" where
  "install_trans s = for_each [0..<nat (lh_n (lg s))] install_one s"

fun read_blocks :: "block \<Rightarrow> nat list \<Rightarrow> u32 list \<Rightarrow> u32 list res" where
  "read_blocks d [] bs = Inr bs"
| "read_blocks d (i # is) bs =
     (if i < LOGSIZE then read_blocks d is (bs[i := get32 d (4 + 4 * i)]) else Inl OutOfBounds)"

definition read_head :: "'a logsys_scheme \<Rightarrow> 'a logsys_scheme res" where
  "read_head s =
     bnd (bread (l_dev (lg s)) (of_int (l_start (lg s))) s) (\<lambda>(buf, s).
       let d = buf_data buf s; s = upd_log (\<lambda>l. l\<lparr>lh_n := sint (get32 d 0)\<rparr>) s
       in bnd (read_blocks d [0..<nat (lh_n (lg s))] (lh_block (lg s))) (\<lambda>bs.
            brelse buf (upd_log (\<lambda>l. l\<lparr>lh_block := bs\<rparr>) s)))"

definition write_head :: "'a logsys_scheme \<Rightarrow> 'a logsys_scheme res" where
  "write_head s =
     bnd (bread (l_dev (lg s)) (of_int (l_start (lg s))) s) (\<lambda>(buf, s).
       let n = lh_n (lg s); d = put32 (buf_data buf s) 0 (of_int n)
       in if nat n \<le> LOGSIZE
          then bnd (bwrite buf (set_data buf (put_array d 4 (take (nat n) (lh_block (lg s)))) s)) (\<lambda>s. brelse buf s)
          else Inl OutOfBounds)"

definition recover_from_log :: "'a logsys_scheme \<Rightarrow> 'a logsys_scheme res" where
  "recover_from_log s =
     bnd (read_head s) (\<lambda>s. bnd (install_trans s) (\<lambda>s. write_head (upd_log (\<lambda>l. l\<lparr>lh_n := 0\<rparr>) s)))"

definition initlog :: "u32 \<Rightarrow> 'a logsys_scheme \<Rightarrow> 'a logsys_scheme res" where
  "initlog dev s =
     bnd (readsb dev s) (\<lambda>(sb, s).
       recover_from_log (upd_log (\<lambda>l. l\<lparr>l_start := sint (sb_logstart sb), l_size := sint (sb_nlog sb), l_dev := dev\<rparr>) s))"

definition begin_op :: "'a logsys_scheme \<Rightarrow> 'a logsys_scheme res" where
  "begin_op s =
     (if l_committing (lg s) then Inl Deadlock
      else if lh_n (lg s) + (l_outstanding (lg s) + 1) * int MAXOPBLOCKS > int LOGSIZE then Inl Deadlock
      else Inr (upd_log (\<lambda>l. l\<lparr>l_outstanding := l_outstanding l + 1\<rparr>) s))"

definition write_one :: "nat \<Rightarrow> 'a logsys_scheme \<Rightarrow> 'a logsys_scheme res" where
  "write_one tail s =
     bnd (bread (l_dev (lg s)) (log_block s tail) s) (\<lambda>(to, s).
     bnd (home_block s tail) (\<lambda>home.
     bnd (bread (l_dev (lg s)) home s) (\<lambda>(from, s).
     bnd (bwrite to (set_data to (buf_data from s) s)) (\<lambda>s.
     bnd (brelse from s) (\<lambda>s. brelse to s)))))"

definition write_log :: "'a logsys_scheme \<Rightarrow> 'a logsys_scheme res" where
  "write_log s = for_each [0..<nat (lh_n (lg s))] write_one s"

definition commit :: "'a logsys_scheme \<Rightarrow> 'a logsys_scheme res" where
  "commit s =
     (if lh_n (lg s) > 0
      then bnd (write_log s) (\<lambda>s. bnd (write_head s) (\<lambda>s. bnd (install_trans s) (\<lambda>s.
             write_head (upd_log (\<lambda>l. l\<lparr>lh_n := 0\<rparr>) s))))
      else Inr s)"

definition end_op :: "'a logsys_scheme \<Rightarrow> 'a logsys_scheme res" where
  "end_op s =
     (let s = upd_log (\<lambda>l. l\<lparr>l_outstanding := l_outstanding l - 1\<rparr>) s
      in if l_committing (lg s) then Inl (Panic ''log.committing'')
         else if l_outstanding (lg s) = 0
         then bnd (commit (upd_log (\<lambda>l. l\<lparr>l_committing := True\<rparr>) s)) (\<lambda>s.
                Inr (upd_log (\<lambda>l. l\<lparr>l_committing := False\<rparr>) s))
         else Inr s)"

text \<open>The search for \<open>b\<close> among the first \<open>n\<close> logged blocks; \<open>n\<close> if it is not there.\<close>

definition log_slot :: "nat \<Rightarrow> u32 list \<Rightarrow> u32 \<Rightarrow> nat" where
  "log_slot n bs b = length (takeWhile (\<lambda>x. x \<noteq> b) (take n bs))"

definition log_write :: "nat \<Rightarrow> 'a logsys_scheme \<Rightarrow> 'a logsys_scheme res" where
  "log_write b s =
     (let l = lg s
      in if lh_n l \<ge> int LOGSIZE \<or> lh_n l \<ge> l_size l - 1 then Inl (Panic ''too big a transaction'')
         else if l_outstanding l < 1 then Inl (Panic ''log_write outside of trans'')
         else let n = nat (lh_n l); blockno = b_blockno (bufs s ! b); i = log_slot n (lh_block l) blockno;
                s = upd_log (\<lambda>l. l\<lparr>lh_block := (lh_block l)[i := blockno], lh_n := (if i = n then lh_n l + 1 else lh_n l)\<rparr>) s
           in Inr (upd_buf b (\<lambda>b. b\<lparr>b_dirty := True\<rparr>) s))"

section \<open>Running the log over the cache\<close>

lemma LOGSIZE_pos [simp]: "0 < LOGSIZE"
  by (simp add: LOGSIZE_def)

lemma upd_log_fields [simp]:
  "bufs (upd_log f s) = bufs s" "mru (upd_log f s) = mru s" "idequeue (upd_log f s) = idequeue s"
  "havedisk1 (upd_log f s) = havedisk1 s" "disk (upd_log f s) = disk s" "written (upd_log f s) = written s"
  "lg (upd_log f s) = f (lg s)"
  by (simp_all add: upd_log_def)

lemma cache_upd_log [simp]: "cache (upd_log f s) = cache s"
  by (simp add: fun_eq_iff cache_def has_block_def)

lemma more_lg: "bio.more s' = bio.more s \<Longrightarrow> lg s' = lg s"
  by (cases s; cases s') simp

text \<open>
  The parameters of a transaction: the log starts at block \<open>a\<close>, the blocks \<open>bs\<close> are logged, and
  they lie outside the log and on the disk.
\<close>

definition log_blk :: "nat \<Rightarrow> nat \<Rightarrow> u32" where
  "log_blk a i = of_nat (a + i + 1)"

definition log_area :: "nat \<Rightarrow> u32 set" where
  "log_area a = of_nat ` {a..<a + LOGSIZE}"

definition logged :: "'a logsys_scheme \<Rightarrow> nat \<Rightarrow> u32 list \<Rightarrow> bool" where
  "logged s a bs \<longleftrightarrow> l_dev (lg s) = 1 \<and> l_start (lg s) = int a \<and> a + LOGSIZE < unat FSSIZE
     \<and> lh_n (lg s) = int (length bs) \<and> length bs < LOGSIZE \<and> length (lh_block (lg s)) = LOGSIZE
     \<and> take (length bs) (lh_block (lg s)) = bs
     \<and> distinct bs \<and> (\<forall>b\<in>set bs. b < FSSIZE \<and> b \<notin> log_area a)"

lemma logged_more: "bio.more s' = bio.more s \<Longrightarrow> logged s' a bs = logged s a bs"
  using more_lg [of s' s] by (simp add: logged_def)

lemma unat_of_nat_u32: "k < 2 ^ 32 \<Longrightarrow> unat (of_nat k :: u32) = k"
  by (simp add: unat_of_nat)

lemma log_blk_facts:
  assumes "a + LOGSIZE < unat FSSIZE" and "i + 1 < LOGSIZE"
  shows "log_blk a i < FSSIZE" "log_blk a i \<in> log_area a" "unat (log_blk a i) = a + i + 1"
    "log_blk a i \<noteq> of_nat a"
proof -
  have lt: "a + i + 1 < 2 ^ 32" using assms by (simp add: FSSIZE_def LOGSIZE_def)
  then show u: "unat (log_blk a i) = a + i + 1" unfolding log_blk_def by (rule unat_of_nat_u32)
  show "log_blk a i < FSSIZE" using u assms by (simp add: word_less_nat_alt)
  show "log_blk a i \<in> log_area a" unfolding log_blk_def log_area_def using assms(2) by (intro imageI) simp
  have "unat (of_nat a :: u32) = a" using lt by (intro unat_of_nat_u32) simp
  then show "log_blk a i \<noteq> of_nat a" using u by (auto simp: word_unat_eq_iff)
qed

lemma log_block_eq: "logged s a bs \<Longrightarrow> log_block s i = log_blk a i"
  by (simp add: logged_def log_block_def log_blk_def flip: of_nat_add of_nat_Suc) (simp add: add.commute)

lemma home_block_eq: "logged s a bs \<Longrightarrow> i < length bs \<Longrightarrow> home_block s i = Inr (bs ! i)"
  by (auto simp: logged_def home_block_def) (metis nth_take)

text \<open>A sequence of block writes applied to the blocks of a device.\<close>

definition apply_writes :: "(u32 \<times> block) list \<Rightarrow> (u32 \<Rightarrow> block) \<Rightarrow> (u32 \<Rightarrow> block)" where
  "apply_writes W D = foldl (\<lambda>D (n, d). D(n := d)) D W"

lemma apply_writes_simps [simp]:
  "apply_writes [] D = D" "apply_writes ((n, d) # W) D = apply_writes W (D(n := d))"
  "apply_writes (W @ W') D = apply_writes W' (apply_writes W D)"
  by (simp_all add: apply_writes_def)

lemma apply_writes_other: "m \<notin> fst ` set W \<Longrightarrow> apply_writes W D m = D m"
  by (induction W arbitrary: D) auto

lemma apply_writes_nth:
  "distinct (map fst W) \<Longrightarrow> (n, d) \<in> set W \<Longrightarrow> apply_writes W D n = d"
proof (induction W arbitrary: D)
  case (Cons w W)
  show ?case
  proof (cases "w = (n, d)")
    case True
    then show ?thesis using Cons.prems apply_writes_other [of n W] by simp
  next
    case False
    then show ?thesis using Cons by (cases w) auto
  qed
qed simp

text \<open>
  One step of the system, in terms of the cache: the users' view goes from \<open>V\<close> to \<open>V'\<close>, the pinned
  blocks from \<open>P\<close> to \<open>P'\<close>, and the writes \<open>W\<close> are issued. No buffer is held before or after.
\<close>

definition logs :: "'a logsys_scheme \<Rightarrow> (u32 \<Rightarrow> block) \<Rightarrow> u32 set \<Rightarrow> 'a logsys_scheme \<Rightarrow> (u32 \<Rightarrow> block) \<Rightarrow> u32 set
    \<Rightarrow> (u32 \<times> block) list \<Rightarrow> bool" where
  "logs s V P s' V' P' W \<longleftrightarrow> cache s' V' Map.empty P' \<and> disk s' 1 = apply_writes W (disk s 1)
     \<and> written s' = written s @ map (Pair 1) W \<and> bio.more s' = bio.more s \<and> V' = apply_writes W V"

lemma logs_trans:
  "logs s V P s1 V1 P1 W1 \<Longrightarrow> logs s1 V1 P1 s2 V2 P2 W2 \<Longrightarrow> logs s V P s2 V2 P2 (W1 @ W2)"
  by (auto simp: logs_def)

lemma write_one_run:
  assumes c: "cache s V Map.empty P" and l: "logged s a bs" and i: "i < length bs"
    and P: "finite P" "card P < NBUF" "set bs \<subseteq> P" "P \<inter> log_area a = {}"
  shows "\<exists>s'. write_one i s = Inr s' \<and> logs s V P s' (V(log_blk a i := V (bs ! i))) P [(log_blk a i, V (bs ! i))]"
proof -
  let ?t = "log_blk a i" and ?b = "bs ! i"
  have il: "i + 1 < LOGSIZE" and b: "?b < FSSIZE" "?b \<notin> log_area a" and bP: "?b \<in> P" and dev: "l_dev (lg s) = 1"
    using l i P(3) by (auto simp: logged_def)
  note tf = log_blk_facts [of a i]
  have t: "?t < FSSIZE" "?t \<in> log_area a" using tf l il by (auto simp: logged_def)
  then have ne: "?t \<noteq> ?b" "?t \<notin> P" using b(2) P(4) by auto
  obtain j s1 where s1: "bread 1 ?t s = Inr (j, s1)" "disk s1 = disk s" "written s1 = written s" "bio.more s1 = bio.more s"
    and c1: "cache s1 V [?t \<mapsto> j] P"
    using cache_bread [OF c, of ?t] t P by auto
  obtain k s2 where s2: "bread 1 ?b s1 = Inr (k, s2)" "buf_data k s2 = V ?b" "disk s2 = disk s1" "written s2 = written s1"
    "bio.more s2 = bio.more s1" and c2: "cache s2 V [?t \<mapsto> j, ?b \<mapsto> k] P"
    using cache_bread [OF c1, of ?b] b bP P(1) ne by auto
  note c3 = cache_set_data(1) [OF c2, of ?t j "V ?b"]
  obtain s4 where s4: "bwrite j (set_data j (V ?b) s2) = Inr s4" "bio.more s4 = bio.more s2"
    "disk s4 = (disk s)(1 := (disk s 1)(?t := V ?b))" "written s4 = written s @ [(1, ?t, V ?b)]"
    and c4: "cache s4 (V(?t := V ?b)) [?t \<mapsto> j, ?b \<mapsto> k] P"
    using cache_bwrite [OF c3, of ?t j] ne s1 s2 by (auto simp: set_data_def)
  obtain s5 where s5: "brelse k s4 = Inr s5" "bio.more s5 = bio.more s4" "disk s5 = disk s4" "written s5 = written s4"
    and c5: "cache s5 (V(?t := V ?b)) [?t \<mapsto> j] P"
    using cache_brelse [OF c4, of ?b k] bP ne by (auto simp: fun_upd_twist)
  obtain s6 where s6: "brelse j s5 = Inr s6" "bio.more s6 = bio.more s5" "disk s6 = disk s5" "written s6 = written s5"
    and c6: "cache s6 (V(?t := V ?b)) Map.empty P"
    using cache_brelse [OF c5, of ?t j] s5 s4 by auto
  have dv: "l_dev (lg s1) = 1" "home_block s1 i = Inr ?b" "log_block s i = ?t"
    using more_lg [OF s1(4)] dev log_block_eq [OF l] home_block_eq [of s1 a bs i] logged_more [OF s1(4)] l i by auto
  have "write_one i s = Inr s6"
    using s1 s2 s4 s5 s6 dv dev by (simp add: write_one_def)
  then show ?thesis using s1 s2 s4 s5 s6 c6 by (auto simp: logs_def)
qed

lemma install_one_run:
  assumes c: "cache s V Map.empty P" and l: "logged s a bs" and i: "i < length bs"
    and P: "finite P" "P \<inter> log_area a = {}" "card P < NBUF" "bs ! i \<in> P \<or> card P + 1 < NBUF"
  shows "\<exists>s'. install_one i s = Inr s'
    \<and> logs s V P s' (V(bs ! i := V (log_blk a i))) (P - {bs ! i}) [(bs ! i, V (log_blk a i))]"
proof -
  let ?t = "log_blk a i" and ?b = "bs ! i"
  have il: "i + 1 < LOGSIZE" and b: "?b < FSSIZE" "?b \<notin> log_area a" and dev: "l_dev (lg s) = 1"
    using l i by (auto simp: logged_def)
  note tf = log_blk_facts [of a i]
  have t: "?t < FSSIZE" "?t \<in> log_area a" using tf l il by (auto simp: logged_def)
  then have ne: "?t \<noteq> ?b" "?t \<notin> P" using b(2) P(2) by auto
  have vt: "V ?t = disk s 1 ?t" using cacheD(10) [OF c ne(2)] by simp
  obtain j s1 where s1: "bread 1 ?t s = Inr (j, s1)" "disk s1 = disk s" "written s1 = written s" "bio.more s1 = bio.more s"
    and c1: "cache s1 V [?t \<mapsto> j] P"
    using cache_bread [OF c, of ?t] t P by auto
  have few: "?b \<in> P \<or> card (dom [?t \<mapsto> j] \<union> P) < NBUF" using P(1,4) ne(2) by auto
  obtain k s2 where s2: "bread 1 ?b s1 = Inr (k, s2)" "disk s2 = disk s1" "written s2 = written s1"
    "bio.more s2 = bio.more s1" and c2: "cache s2 V [?t \<mapsto> j, ?b \<mapsto> k] P"
    using cache_bread [OF c1 _ b(1) _ few] P(1) ne by auto
  have lbuf: "buf_data j s2 = V ?t" using cache_held(8) [OF c2, of ?t j] ne by (simp add: buf_data_def)
  note c3 = cache_set_data(1) [OF c2, of ?b k "V ?t"]
  obtain s4 where s4: "bwrite k (set_data k (V ?t) s2) = Inr s4" "bio.more s4 = bio.more s2"
    "disk s4 = (disk s)(1 := (disk s 1)(?b := V ?t))" "written s4 = written s @ [(1, ?b, V ?t)]"
    and c4: "cache s4 (V(?b := V ?t)) [?t \<mapsto> j, ?b \<mapsto> k] (P - {?b})"
    using cache_bwrite [OF c3, of ?b k] ne s1 s2 by (auto simp: set_data_def)
  obtain s5 where s5: "brelse j s4 = Inr s5" "bio.more s5 = bio.more s4" "disk s5 = disk s4" "written s5 = written s4"
    and c5: "cache s5 (V(?b := V ?t)) [?b \<mapsto> k] (P - {?b})"
    using cache_brelse [OF c4, of ?t j] ne vt s4 by auto
  obtain s6 where s6: "brelse k s5 = Inr s6" "bio.more s6 = bio.more s5" "disk s6 = disk s5" "written s6 = written s5"
    and c6: "cache s6 (V(?b := V ?t)) Map.empty (P - {?b})"
    using cache_brelse [OF c5, of ?b k] s5 s4 by auto
  have dv: "l_dev (lg s1) = 1" "home_block s1 i = Inr ?b" "log_block s i = ?t"
    using more_lg [OF s1(4)] dev log_block_eq [OF l] home_block_eq [of s1 a bs i] logged_more [OF s1(4)] l i by auto
  have "install_one i s = Inr s6"
    using s1 s2 s4 s5 s6 dv dev lbuf by (simp add: install_one_def)
  then show ?thesis using s1 s2 s4 s5 s6 c6 by (auto simp: logs_def)
qed

text \<open>The two loops.\<close>

lemma distinct_take_nth: "distinct xs \<Longrightarrow> m < length xs \<Longrightarrow> xs ! m \<notin> set (take m xs)"
  by (auto simp: in_set_conv_nth nth_eq_iff_index_eq)

lemma write_log_run:
  assumes c: "cache s V Map.empty P" and l: "logged s a bs"
    and P: "finite P" "card P < NBUF" "set bs \<subseteq> P" "P \<inter> log_area a = {}"
    and W: "W = map (\<lambda>i. (log_blk a i, V (bs ! i))) [0..<length bs]"
  shows "\<exists>s'. write_log s = Inr s' \<and> logs s V P s' (apply_writes W V) P W"
proof -
  have "\<exists>s'. for_each [0..<m] write_one s = Inr s' \<and> logs s V P s' (apply_writes (take m W) V) P (take m W)"
    if "m \<le> length bs" for m
    using that
  proof (induction m)
    case 0
    then show ?case using c by (auto simp: logs_def)
  next
    case (Suc m)
    then obtain s1 where s1: "for_each [0..<m] write_one s = Inr s1"
      and l1: "logs s V P s1 (apply_writes (take m W) V) P (take m W)" by auto
    have m: "m < length bs" using Suc.prems by simp
    let ?V = "apply_writes (take m W) V"
    have c1: "cache s1 ?V Map.empty P" and lg1: "logged s1 a bs"
      using l1 l logged_more by (auto simp: logs_def)
    have "bs ! m \<notin> fst ` set (take m W)"
    proof
      assume "bs ! m \<in> fst ` set (take m W)"
      then obtain i where "i < length bs" "bs ! m = log_blk a i"
        by (auto simp: W take_map image_iff dest!: in_set_takeD)
      then show False using log_blk_facts(2) [of a i] l nth_mem [OF m] by (auto simp: logged_def)
    qed
    then have same: "?V (bs ! m) = V (bs ! m)" by (rule apply_writes_other)
    obtain s2 where s2: "write_one m s1 = Inr s2"
      "logs s1 ?V P s2 (?V(log_blk a m := ?V (bs ! m))) P [(log_blk a m, ?V (bs ! m))]"
      using write_one_run [OF c1 lg1 m P] by blast
    have tk: "take (Suc m) W = take m W @ [(log_blk a m, V (bs ! m))]"
      using m by (simp add: W take_Suc_conv_app_nth)
    have "logs s V P s2 (apply_writes (take (Suc m) W) V) P (take (Suc m) W)"
      using logs_trans [OF l1 s2(2)] unfolding tk same by simp
    then show ?case using s1 s2(1) by (auto simp: for_each_append)
  qed
  from this [of "length bs"] show ?thesis using l by (simp add: write_log_def logged_def W)
qed

lemma install_trans_run:
  assumes c: "cache s V Map.empty P" and l: "logged s a bs"
    and P: "finite P" "P \<inter> log_area a = {}" "card P < NBUF" "set bs \<subseteq> P \<or> card P + 1 < NBUF"
    and W: "W = map (\<lambda>i. (bs ! i, V (log_blk a i))) [0..<length bs]"
  shows "\<exists>s'. install_trans s = Inr s' \<and> logs s V P s' (apply_writes W V) (P - set bs) W"
proof -
  have "\<exists>s'. for_each [0..<m] install_one s = Inr s'
      \<and> logs s V P s' (apply_writes (take m W) V) (P - set (take m bs)) (take m W)"
    if "m \<le> length bs" for m
    using that
  proof (induction m)
    case 0
    then show ?case using c by (auto simp: logs_def)
  next
    case (Suc m)
    let ?P = "P - set (take m bs)"
    obtain s1 where s1: "for_each [0..<m] install_one s = Inr s1"
      and l1: "logs s V P s1 (apply_writes (take m W) V) ?P (take m W)" using Suc by auto
    have m: "m < length bs" using Suc.prems by simp
    let ?V = "apply_writes (take m W) V"
    have c1: "cache s1 ?V Map.empty ?P" and lg1: "logged s1 a bs"
      using l1 l logged_more by (auto simp: logs_def)
    have "log_blk a m \<notin> fst ` set (take m W)"
    proof
      assume "log_blk a m \<in> fst ` set (take m W)"
      then obtain i where "i < length bs" "log_blk a m = bs ! i"
        by (auto simp: W take_map image_iff dest!: in_set_takeD)
      then show False using log_blk_facts(2) [of a m] l m by (auto simp: logged_def)
    qed
    then have same: "?V (log_blk a m) = V (log_blk a m)" by (rule apply_writes_other)
    have disj: "?P \<inter> log_area a = {}" using P(2) by auto
    have "card ?P \<le> card P" using P(1) by (intro card_mono) auto
    moreover have "bs ! m \<in> ?P" if "set bs \<subseteq> P"
      using that m l distinct_take_nth [of bs m] by (auto simp: logged_def)
    ultimately obtain s2 where s2: "install_one m s1 = Inr s2"
      "logs s1 ?V ?P s2 (?V(bs ! m := ?V (log_blk a m))) (?P - {bs ! m}) [(bs ! m, ?V (log_blk a m))]"
      using install_one_run [OF c1 lg1 m _ disj] P by auto
    have tk: "take (Suc m) W = take m W @ [(bs ! m, V (log_blk a m))]" "take (Suc m) bs = take m bs @ [bs ! m]"
      using m by (simp_all add: W take_Suc_conv_app_nth)
    have "?P - {bs ! m} = P - set (take (Suc m) bs)" unfolding tk by auto
    then have "logs s V P s2 (apply_writes (take (Suc m) W) V) (P - set (take (Suc m) bs)) (take (Suc m) W)"
      using logs_trans [OF l1 s2(2)] unfolding tk(1) same by simp
    then show ?case using s1 s2(1) by (auto simp: for_each_append)
  qed
  from this [of "length bs"] show ?thesis using l by (simp add: install_trans_def logged_def W)
qed

section \<open>The header\<close>

definition head :: "block \<Rightarrow> u32 list \<Rightarrow> block" where
  "head d bs = put_array (put32 d 0 (of_nat (length bs))) 4 bs"

text \<open>The header block \<open>d\<close> says that the blocks \<open>bs\<close> are committed.\<close>

definition heads :: "block \<Rightarrow> u32 list \<Rightarrow> bool" where
  "heads d bs \<longleftrightarrow> get32 d 0 = of_nat (length bs) \<and> get_array d 4 (length bs) = bs \<and> length bs < LOGSIZE"

lemma heads_head: "length d = BSIZE \<Longrightarrow> length bs < LOGSIZE \<Longrightarrow> heads (head d bs) bs"
  by (simp add: heads_def head_def get32_put_array_other BSIZE_def LOGSIZE_def)

lemma header_block:
  assumes "logged s a bs"
  shows "of_int (l_start (lg s)) = (of_nat a :: u32)" "(of_nat a :: u32) < FSSIZE" "of_nat a \<in> log_area a"
  using assms by (auto simp: logged_def log_area_def word_less_nat_alt unat_of_nat_u32 FSSIZE_def)

lemma write_head_run:
  assumes c: "cache s V Map.empty P" and l: "logged s a bs"
    and P: "finite P" "card P < NBUF" "P \<inter> log_area a = {}"
  shows "\<exists>s'. write_head s = Inr s' \<and> logs s V P s' (V(of_nat a := head (V (of_nat a)) bs)) P
    [(of_nat a, head (V (of_nat a)) bs)]"
proof -
  let ?t = "of_nat a :: u32"
  note h = header_block [OF l]
  have tP: "?t \<notin> P" using h(3) P(3) by auto
  obtain j s1 where s1: "bread 1 ?t s = Inr (j, s1)" "buf_data j s1 = V ?t" "disk s1 = disk s" "written s1 = written s"
    "bio.more s1 = bio.more s" and c1: "cache s1 V [?t \<mapsto> j] P"
    using cache_bread [OF c _ h(2)] P by auto
  note c2 = cache_set_data(1) [OF c1, of ?t j "head (V ?t) bs"]
  obtain s3 where s3: "bwrite j (set_data j (head (V ?t) bs) s1) = Inr s3" "bio.more s3 = bio.more s1"
    "disk s3 = (disk s)(1 := (disk s 1)(?t := head (V ?t) bs))" "written s3 = written s @ [(1, ?t, head (V ?t) bs)]"
    and c3: "cache s3 (V(?t := head (V ?t) bs)) [?t \<mapsto> j] P"
    using cache_bwrite [OF c2, of ?t j] tP s1 by (auto simp: set_data_def)
  obtain s4 where s4: "brelse j s3 = Inr s4" "bio.more s4 = bio.more s3" "disk s4 = disk s3" "written s4 = written s3"
    and c4: "cache s4 (V(?t := head (V ?t) bs)) Map.empty P"
    using cache_brelse [OF c3, of ?t j] s3 by auto
  have "lg s1 = lg s" by (rule more_lg [OF s1(5)])
  then have "write_head s = Inr s4"
    using s1 s3 s4 l h(1) by (simp add: write_head_def logged_def Let_def head_def)
  then show ?thesis using s1 s3 s4 c4 by (auto simp: logs_def)
qed

lemma read_blocks_ok:
  assumes "k + n \<le> LOGSIZE" and "length bs = LOGSIZE"
  shows "\<exists>bs'. read_blocks d [k..<k + n] bs = Inr bs' \<and> length bs' = LOGSIZE
    \<and> (\<forall>i. bs' ! i = (if k \<le> i \<and> i < k + n then get32 d (4 + 4 * i) else bs ! i))"
  using assms
proof (induction n arbitrary: k bs)
  case (Suc n)
  have "[k..<k + Suc n] = k # [Suc k..<Suc k + n]" by (simp add: upt_conv_Cons)
  moreover obtain bs' where "read_blocks d [Suc k..<Suc k + n] (bs[k := get32 d (4 + 4 * k)]) = Inr bs'"
    "length bs' = LOGSIZE"
    "\<forall>i. bs' ! i = (if Suc k \<le> i \<and> i < Suc k + n then get32 d (4 + 4 * i) else bs[k := get32 d (4 + 4 * k)] ! i)"
    using Suc.IH [of "Suc k" "bs[k := get32 d (4 + 4 * k)]"] Suc.prems by auto
  ultimately show ?case using Suc.prems by (auto simp: nth_list_update)
qed auto

lemma read_head_run:
  assumes c: "cache s V Map.empty {}" and l: "logged s a []" and hd: "heads (V (of_nat a)) bs"
    and bs: "distinct bs" "\<forall>b\<in>set bs. b < FSSIZE \<and> b \<notin> log_area a"
  shows "\<exists>s'. read_head s = Inr s' \<and> cache s' V Map.empty {} \<and> disk s' = disk s \<and> logged s' a bs"
proof -
  let ?t = "of_nat a :: u32" and ?d = "V (of_nat a)" and ?n = "length bs"
  note h = header_block [OF l]
  obtain j s1 where s1: "bread 1 ?t s = Inr (j, s1)" "buf_data j s1 = ?d" "disk s1 = disk s"
    "bio.more s1 = bio.more s" and c1: "cache s1 V [?t \<mapsto> j] {}"
    using cache_bread [OF c _ h(2)] by (auto simp: NBUF_def)
  have lg1: "lg s1 = lg s" by (rule more_lg [OF s1(4)])
  have n: "sint (get32 ?d 0) = int ?n"
    using hd by (simp add: heads_def LOGSIZE_def signed_of_nat signed_take_bit_int_eq_self)
  obtain bs' where bs': "read_blocks ?d [0..<?n] (lh_block (lg s)) = Inr bs'" "length bs' = LOGSIZE"
    "\<And>i. i < ?n \<Longrightarrow> bs' ! i = get32 ?d (4 + 4 * i)"
    using read_blocks_ok [of 0 ?n "lh_block (lg s)" ?d] hd l by (auto simp: heads_def logged_def)
  have "get_array ?d 4 ?n ! i = get32 ?d (4 + 4 * i)" if "i < ?n" for i
    using that by (simp add: get_array_def)
  then have "bs ! i = bs' ! i" if "i < ?n" for i
    using that bs'(3) hd by (simp add: heads_def)
  then have tk: "take ?n bs' = bs"
    using bs'(2) hd by (intro nth_equalityI) (simp_all add: heads_def)
  let ?s2 = "upd_log (\<lambda>l. l\<lparr>lh_block := bs'\<rparr>) (upd_log (\<lambda>l. l\<lparr>lh_n := sint (get32 ?d 0)\<rparr>) s1)"
  have c2: "cache ?s2 V [?t \<mapsto> j] {}" using c1 by simp
  obtain s3 where s3: "brelse j ?s2 = Inr s3" "cache s3 V Map.empty {}" "disk s3 = disk s" "bio.more s3 = bio.more ?s2"
    using cache_brelse [OF c2, of ?t j] cache_disk [OF c, of ?t] s1(3) by auto
  have "logged s3 a bs"
    unfolding logged_more [OF s3(4)] using l bs tk bs'(2) n lg1 hd by (simp add: logged_def heads_def)
  moreover have "read_head s = Inr s3"
    using s1 s3(1) bs'(1) n lg1 l h(1) by (simp add: read_head_def logged_def Let_def)
  ultimately show ?thesis using s3 by blast
qed

lemma logged_clear: "logged s a bs \<Longrightarrow> logged (upd_log (\<lambda>l. l\<lparr>lh_n := 0\<rparr>) s) a []"
  by (simp add: logged_def)

section \<open>Recovery\<close>

text \<open>
  A crash and reboot: memory starts out zero, \<^verbatim>\<open>binit\<close> sets up the cache, and of the old state
  only the blocks \<open>D\<close> on the disk remain.
\<close>

definition zero_log :: log where
  "zero_log = \<lparr>l_start = 0, l_size = 0, l_outstanding = 0, l_committing = False, l_dev = 0, lh_n = 0,
     lh_block = replicate LOGSIZE 0\<rparr>"

definition reboot :: "'a logsys_scheme \<Rightarrow> (u32 \<Rightarrow> block) \<Rightarrow> 'a logsys_scheme" where
  "reboot s D = binit (s\<lparr>idequeue := [], disk := (disk s)(1 := D), lg := zero_log\<rparr>)"

lemma recover_run:
  assumes c: "cache s V Map.empty {}" and l: "logged s a []" and hd: "heads (V (of_nat a)) bs"
    and bs: "distinct bs" "\<forall>b\<in>set bs. b < FSSIZE \<and> b \<notin> log_area a"
  shows "\<exists>s'. recover_from_log s = Inr s' \<and> (\<forall>m. m \<notin> log_area a \<longrightarrow>
    disk s' 1 m = apply_writes (map (\<lambda>i. (bs ! i, V (log_blk a i))) [0..<length bs]) V m)"
proof -
  let ?W = "map (\<lambda>i. (bs ! i, V (log_blk a i))) [0..<length bs]"
  obtain s1 where s1: "read_head s = Inr s1" "cache s1 V Map.empty {}" "logged s1 a bs"
    using read_head_run [OF c l hd bs] by blast
  obtain s2 where s2: "install_trans s1 = Inr s2" and l2: "logs s1 V {} s2 (apply_writes ?W V) {} ?W"
    using install_trans_run [OF s1(2,3) _ _ _ _ refl] by (auto simp: NBUF_def)
  let ?s3 = "upd_log (\<lambda>l. l\<lparr>lh_n := 0\<rparr>) s2"
  have c3: "cache ?s3 (apply_writes ?W V) Map.empty {}" and lg3: "logged ?s3 a []"
    using l2 logged_clear [of s2 a bs] logged_more [of s2 s1 a bs] s1(3) by (auto simp: logs_def)
  obtain s4 where s4: "write_head ?s3 = Inr s4" and l4: "logs ?s3 (apply_writes ?W V) {} s4
      ((apply_writes ?W V)(of_nat a := head (apply_writes ?W V (of_nat a)) [])) {}
      [(of_nat a, head (apply_writes ?W V (of_nat a)) [])]"
    using write_head_run [OF c3 lg3] by (auto simp: NBUF_def)
  have "disk s4 1 m = apply_writes ?W V m" if "m \<notin> log_area a" for m
    using cache_disk [of s4 _ m] l4 that header_block(3) [OF l] by (auto simp: logs_def)
  then show ?thesis using s1 s2 s4 by (auto simp: recover_from_log_def)
qed

lemma initlog_run:
  fixes s :: "'a logsys_scheme"
  assumes dsk: "havedisk1 s" and a: "a + LOGSIZE < unat FSSIZE" and sb: "sb_logstart (sb_of_block (D 1)) = of_nat a"
    and hd: "heads (D (of_nat a)) bs" and bs: "distinct bs" "\<forall>b\<in>set bs. b < FSSIZE \<and> b \<notin> log_area a"
  shows "\<exists>r. initlog 1 (reboot s D) = Inr r \<and> (\<forall>m. m \<notin> log_area a \<longrightarrow>
    disk r 1 m = apply_writes (map (\<lambda>i. (bs ! i, D (log_blk a i))) [0..<length bs]) D m)"
proof -
  have c: "cache (reboot s D) D Map.empty {}"
    unfolding reboot_def using binit_cache [of "s\<lparr>idequeue := [], disk := (disk s)(1 := D), lg := zero_log\<rparr>"] dsk by simp
  obtain j s1 where s1: "bread 1 1 (reboot s D) = Inr (j, s1)" "buf_data j s1 = D 1" "disk s1 = disk (reboot s D)"
    "bio.more s1 = bio.more (reboot s D)" and c1: "cache s1 D [1 \<mapsto> j] {}"
    using cache_bread [OF c, of 1] by (auto simp: NBUF_def FSSIZE_def)
  obtain s2 where s2: "brelse j s1 = Inr s2" "cache s2 D Map.empty {}" "bio.more s2 = bio.more s1"
    using cache_brelse [OF c1, of 1 j] cache_disk [OF c, of 1] s1(3) by auto
  let ?sb = "sb_of_block (D 1)"
  let ?s3 = "upd_log (\<lambda>l. l\<lparr>l_start := sint (sb_logstart ?sb), l_size := sint (sb_nlog ?sb), l_dev := 1\<rparr>) s2"
  have rd: "readsb 1 (reboot s D) = Inr (?sb, s2)" using s1 s2 by (simp add: readsb_def)
  have "lg s2 = zero_log"
    using more_lg [of s2 "reboot s D"] s1(4) s2(3) by (simp add: reboot_def binit_def)
  moreover have "sint (of_nat a :: u32) = int a"
    using a by (simp add: FSSIZE_def LOGSIZE_def signed_of_nat signed_take_bit_int_eq_self)
  ultimately have l3: "logged ?s3 a []" using a sb by (simp add: logged_def zero_log_def)
  show ?thesis
    using recover_run [of ?s3 D, OF _ l3 hd bs] s2(2) rd by (simp add: initlog_def)
qed

section \<open>Commit\<close>

definition commit_writes :: "nat \<Rightarrow> (u32 \<Rightarrow> block) \<Rightarrow> u32 list \<Rightarrow> (u32 \<times> block) list" where
  "commit_writes a V bs =
     (let n = length bs; h = head (V (of_nat a)) bs
      in map (\<lambda>i. (log_blk a i, V (bs ! i))) [0..<n] @ [(of_nat a, h)]
         @ map (\<lambda>i. (bs ! i, V (bs ! i))) [0..<n] @ [(of_nat a, head h [])])"

lemma log_blk_inj:
  assumes "a + LOGSIZE < unat FSSIZE" and "i + 1 < LOGSIZE" and "j + 1 < LOGSIZE"
  shows "log_blk a i = log_blk a j \<longleftrightarrow> i = j"
  using log_blk_facts(3) [OF assms(1,2)] log_blk_facts(3) [OF assms(1,3)] by (metis add_left_cancel add_right_cancel)

lemma log_writes_nth:
  assumes l: "logged s a bs" and i: "i < length bs"
  shows "apply_writes (map (\<lambda>i. (log_blk a i, f i)) [0..<length bs]) D (log_blk a i) = f i"
proof (rule apply_writes_nth)
  show "distinct (map fst (map (\<lambda>i. (log_blk a i, f i)) [0..<length bs]))"
    using l log_blk_inj [of a] by (auto simp: distinct_map inj_on_def logged_def comp_def)
qed (use i in auto)

lemma home_writes_nth:
  assumes "distinct bs"
  shows "apply_writes (map (\<lambda>i. (bs ! i, V (bs ! i))) [0..<length bs]) D m = (if m \<in> set bs then V m else D m)"
proof -
  have eq: "map (\<lambda>i. (bs ! i, V (bs ! i))) [0..<length bs] = map (\<lambda>b. (b, V b)) bs"
    by (rule nth_equalityI) auto
  have "distinct (map fst (map (\<lambda>b. (b, V b)) bs))" using assms by (simp add: comp_def)
  then show ?thesis
    unfolding eq using apply_writes_nth [of "map (\<lambda>b. (b, V b)) bs" m "V m" D]
      apply_writes_other [of m "map (\<lambda>b. (b, V b)) bs" D] by (auto simp: image_image)
qed

lemma commit_run:
  assumes c: "cache s V Map.empty (set bs)" and l: "logged s a bs" and bs: "bs \<noteq> []" "length bs < NBUF"
  shows "\<exists>s'. commit s = Inr s' \<and> disk s' 1 = apply_writes (commit_writes a V bs) (disk s 1)
    \<and> written s' = written s @ map (Pair 1) (commit_writes a V bs)
    \<and> cache s' (apply_writes (commit_writes a V bs) V) Map.empty {} \<and> logged s' a [] \<and> lg s' = (lg s)\<lparr>lh_n := 0\<rparr>"
proof -
  let ?n = "length bs" and ?t = "of_nat a :: u32" and ?h = "head (V (of_nat a)) bs"
  let ?W1 = "map (\<lambda>i. (log_blk a i, V (bs ! i))) [0..<?n]"
  let ?W3 = "map (\<lambda>i. (bs ! i, V (bs ! i))) [0..<?n]"
  have P: "finite (set bs)" "card (set bs) < NBUF" "set bs \<inter> log_area a = {}"
    using bs(2) card_length [of bs] l by (auto simp: logged_def)
  have notl: "log_blk a i \<notin> set bs" "log_blk a i \<noteq> ?t" if "i < ?n" for i
    using log_blk_facts(2,4) [of a i] l that by (auto simp: logged_def)
  have nott: "?t \<notin> set bs" using header_block(3) [OF l] P(3) by auto
  obtain s1 where s1: "write_log s = Inr s1" "logs s V (set bs) s1 (apply_writes ?W1 V) (set bs) ?W1"
    using write_log_run [OF c l P(1,2) _ P(3) refl] by auto
  let ?V1 = "apply_writes ?W1 V"
  have t1: "?V1 ?t = V ?t" by (rule apply_writes_other) (use notl in force)
  obtain s2 where s2: "write_head s1 = Inr s2" "logs s1 ?V1 (set bs) s2 (?V1(?t := ?h)) (set bs) [(?t, ?h)]"
    using write_head_run [of s1 ?V1 "set bs" a bs] s1(2) P l logged_more [of s1 s] t1 by (auto simp: logs_def)
  let ?V2 = "?V1(?t := ?h)"
  have W3: "?W3 = map (\<lambda>i. (bs ! i, ?V2 (log_blk a i))) [0..<?n]"
    using notl(2) log_writes_nth [OF l, of _ "\<lambda>i. V (bs ! i)"] by simp
  have c2: "cache s2 ?V2 Map.empty (set bs)" using s2(2) unfolding logs_def by blast
  have l2: "logged s2 a bs"
    using s1(2) s2(2) l logged_more [of s1 s] logged_more [of s2 s1] by (simp add: logs_def)
  obtain s3 where s3: "install_trans s2 = Inr s3" "logs s2 ?V2 (set bs) s3 (apply_writes ?W3 ?V2) {} ?W3"
    using install_trans_run [OF c2 l2 P(1,3,2) _ W3] unfolding Diff_cancel by blast
  let ?s3 = "upd_log (\<lambda>l. l\<lparr>lh_n := 0\<rparr>) s3" and ?V3 = "apply_writes ?W3 ?V2"
  have t3: "?V3 ?t = ?h" using nott home_writes_nth [of bs] l by (simp add: logged_def)
  have mr: "logged s3 a bs"
    using s3(2) l2 logged_more [of s3 s2] by (simp add: logs_def)
  note l3 = logged_clear [OF mr]
  obtain s4 where s4: "write_head ?s3 = Inr s4" "logs ?s3 ?V3 {} s4 (?V3(?t := head ?h [])) {} [(?t, head ?h [])]"
    using write_head_run [OF _ l3, of ?V3 "{}"] s3(2) t3 by (auto simp: logs_def NBUF_def)
  have "commit s = Inr s4" using s1 s2 s3 s4 bs(1) l by (simp add: commit_def logged_def)
  moreover have "logged s4 a []" using s4(2) l3 logged_more [of s4 ?s3] by (auto simp: logs_def)
  moreover have "lg s4 = (lg s)\<lparr>lh_n := 0\<rparr>"
    using s1(2) s2(2) s3(2) s4(2) more_lg [of s1 s] more_lg [of s2 s1] more_lg [of s3 s2] more_lg [of s4 ?s3]
    by (simp add: logs_def)
  ultimately show ?thesis
    using s1(2) s2(2) s3(2) s4(2) by (auto simp: logs_def commit_writes_def Let_def)
qed

section \<open>Transactions\<close>

text \<open>
  The way the file system uses the log: modify a cached block and hand it to \<^verbatim>\<open>log_write\<close>, any
  number of times, between \<^verbatim>\<open>begin_op\<close> and \<^verbatim>\<open>end_op\<close>.
\<close>

definition tx_write :: "u32 \<times> block \<Rightarrow> 'a logsys_scheme \<Rightarrow> 'a logsys_scheme res" where
  "tx_write nd s =
     bnd (bread 1 (fst nd) s) (\<lambda>(bp, s). bnd (log_write bp (set_data bp (snd nd) s)) (\<lambda>s. brelse bp s))"

definition run_tx :: "(u32 \<times> block) list \<Rightarrow> 'a logsys_scheme \<Rightarrow> 'a logsys_scheme res" where
  "run_tx ws s = bnd (begin_op s) (\<lambda>s. bnd (for_each ws tx_write s) end_op)"

lemma log_slot_bound: "log_slot n bs b \<le> n"
  by (simp add: log_slot_def) (metis length_take length_takeWhile_le min.bounded_iff)

lemma takeWhile_shorter: "b \<in> set xs \<Longrightarrow> length (takeWhile (\<lambda>x. x \<noteq> b) xs) < length xs"
  by (induction xs) auto

lemma log_slot_in:
  assumes "b \<in> set (take n bs)"
  shows "log_slot n bs b < n" "bs[log_slot n bs b := b] = bs"
proof -
  let ?i = "log_slot n bs b"
  have lt: "?i < length (take n bs)"
    unfolding log_slot_def using assms by (rule takeWhile_shorter)
  then have "take n bs ! ?i = b"
    unfolding log_slot_def using nth_length_takeWhile by blast
  then show "?i < n" "bs[?i := b] = bs" using lt by auto (metis list_update_id)
qed

lemma log_slot_out: "b \<notin> set (take n bs) \<Longrightarrow> n \<le> length bs \<Longrightarrow> log_slot n bs b = n"
  unfolding log_slot_def by (subst takeWhile_eq_all_conv [THEN iffD2]) auto

definition add_block :: "u32 \<Rightarrow> u32 list \<Rightarrow> u32 list" where
  "add_block n bs = (if n \<in> set bs then bs else bs @ [n])"

lemma set_add_block [simp]: "set (add_block n bs) = insert n (set bs)"
  by (auto simp: add_block_def)

text \<open>\<^verbatim>\<open>log_write\<close> records the block once and pins its buffer.\<close>

lemma log_write_run:
  assumes c: "cache s V H P" and H: "H n = Some b" and l: "logged s a bs" and n: "n < FSSIZE" "n \<notin> log_area a"
    and room: "length bs + 1 < LOGSIZE" "int (length bs) < l_size (lg s) - 1" "0 < l_outstanding (lg s)"
  shows "\<exists>s'. log_write b s = Inr s' \<and> cache s' V H (insert n P) \<and> logged s' a (add_block n bs)
    \<and> disk s' = disk s \<and> written s' = written s \<and> l_outstanding (lg s') = l_outstanding (lg s)
    \<and> l_committing (lg s') = l_committing (lg s) \<and> l_size (lg s') = l_size (lg s)"
proof -
  let ?l = "lg s" and ?n = "length bs"
  have hb: "b_blockno (bufs s ! b) = n" using cacheD(8) [OF c H] by (simp add: has_block_def)
  have l': "lh_n ?l = int ?n" "take ?n (lh_block ?l) = bs" "length (lh_block ?l) = LOGSIZE" "distinct bs"
    using l by (auto simp: logged_def)
  let ?i = "log_slot ?n (lh_block ?l) n"
  let ?s = "upd_log (\<lambda>l. l\<lparr>lh_block := (lh_block l)[?i := n], lh_n := (if ?i = ?n then lh_n l + 1 else lh_n l)\<rparr>) s"
  let ?s' = "upd_buf b (\<lambda>b. b\<lparr>b_dirty := True\<rparr>) ?s"
  have run: "log_write b s = Inr ?s'" using room l'(1) hb by (simp add: log_write_def Let_def)
  have "logged ?s a (add_block n bs)"
  proof (cases "n \<in> set bs")
    case True
    then show ?thesis using l log_slot_in [of n ?n "lh_block ?l"] l'(2) by (simp add: logged_def add_block_def)
  next
    case False
    then have "?i = ?n" using log_slot_out [of n ?n "lh_block ?l"] l' room(1) by simp
    then show ?thesis using l l' False room(1) n
      by (auto simp: logged_def add_block_def take_Suc_conv_app_nth)
  qed
  moreover have "cache ?s' V H (insert n P)" by (rule cache_pin [where s = ?s and H = H, OF _ H]) (use c in simp)
  moreover have "lg ?s' = lg ?s" by (rule more_lg) simp
  ultimately show ?thesis using run logged_more [of ?s' ?s] by simp
qed

lemma tx_write_run:
  assumes c: "cache s V Map.empty (set bs)" and l: "logged s a bs" and n: "n < FSSIZE" "n \<notin> log_area a"
    and room: "length bs + 1 < LOGSIZE" "l_size (lg s) = int LOGSIZE" "0 < l_outstanding (lg s)"
  shows "\<exists>s'. tx_write (n, d) s = Inr s' \<and> cache s' (V(n := d)) Map.empty (set (add_block n bs))
    \<and> logged s' a (add_block n bs) \<and> disk s' = disk s \<and> written s' = written s
    \<and> l_outstanding (lg s') = l_outstanding (lg s) \<and> l_committing (lg s') = l_committing (lg s)
    \<and> l_size (lg s') = l_size (lg s)"
proof -
  have few: "card (set bs) < NBUF" using room(1) card_length [of bs] by (simp add: NBUF_def LOGSIZE_def)
  obtain b s1 where s1: "bread 1 n s = Inr (b, s1)" "disk s1 = disk s" "written s1 = written s" "bio.more s1 = bio.more s"
    and c1: "cache s1 V [n \<mapsto> b] (set bs)"
    using cache_bread [OF c, of n] n few by auto
  let ?s = "set_data b d s1"
  have c2: "cache ?s (V(n := d)) [n \<mapsto> b] (set bs)" using cache_set_data(1) [OF c1, of n b d] by simp
  have m2: "bio.more ?s = bio.more s" "disk ?s = disk s" "written ?s = written s"
    using s1 by (simp_all add: set_data_def)
  have l2: "logged ?s a bs" using l logged_more [OF m2(1)] by simp
  have r2: "length bs + 1 < LOGSIZE" "int (length bs) < l_size (lg ?s) - 1" "0 < l_outstanding (lg ?s)"
    using room more_lg [OF m2(1)] by (simp_all add: LOGSIZE_def MAXOPBLOCKS_def)
  have "[n \<mapsto> b] n = Some b" by simp
  from log_write_run [OF c2 this l2 n r2] obtain s3
    where s3: "log_write b ?s = Inr s3" "logged s3 a (add_block n bs)" "disk s3 = disk s" "written s3 = written s"
      "l_outstanding (lg s3) = l_outstanding (lg s)" "l_committing (lg s3) = l_committing (lg s)" "l_size (lg s3) = l_size (lg s)"
      and c3: "cache s3 (V(n := d)) [n \<mapsto> b] (insert n (set bs))"
    unfolding m2 more_lg [OF m2(1)] by blast
  obtain s4 where s4: "brelse b s3 = Inr s4" "disk s4 = disk s" "written s4 = written s" "bio.more s4 = bio.more s3"
    and c4: "cache s4 (V(n := d)) Map.empty (insert n (set bs))"
    using cache_brelse [OF c3, of n b] s3 by auto
  show ?thesis
    using s1(1) s3 s4 c4 more_lg [OF s4(4)] logged_more [OF s4(4)] by (simp add: tx_write_def)
qed

lemma tx_writes_run:
  assumes c: "cache s V Map.empty (set bs)" and l: "logged s a bs" and ws: "\<forall>n\<in>fst ` set ws. n < FSSIZE \<and> n \<notin> log_area a"
    and room: "\<forall>k<length ws. card (set bs \<union> fst ` set (take k ws)) + 1 < LOGSIZE" "l_size (lg s) = int LOGSIZE"
      "0 < l_outstanding (lg s)"
  shows "\<exists>s' bs'. for_each ws tx_write s = Inr s' \<and> cache s' (apply_writes ws V) Map.empty (set bs')
    \<and> logged s' a bs' \<and> set bs' = set bs \<union> fst ` set ws \<and> disk s' = disk s \<and> written s' = written s
    \<and> l_outstanding (lg s') = l_outstanding (lg s) \<and> l_committing (lg s') = l_committing (lg s)
    \<and> l_size (lg s') = l_size (lg s)"
  using assms
proof (induction ws arbitrary: s V bs)
  case (Cons w ws)
  obtain n d where w: "w = (n, d)" by (cases w)
  have len: "length bs + 1 < LOGSIZE"
    using Cons.prems(2,4) distinct_card [of bs] by (auto simp: logged_def dest: spec [of _ 0])
  have n: "n < FSSIZE" "n \<notin> log_area a" using Cons.prems(3) w by auto
  obtain s1 where s1: "tx_write (n, d) s = Inr s1" "logged s1 a (add_block n bs)" "disk s1 = disk s" "written s1 = written s"
    "l_outstanding (lg s1) = l_outstanding (lg s)" "l_committing (lg s1) = l_committing (lg s)" "l_size (lg s1) = l_size (lg s)"
    and c1: "cache s1 (V(n := d)) Map.empty (set (add_block n bs))"
    using tx_write_run [OF Cons.prems(1,2) n len Cons.prems(5,6)] by blast
  have "card (set (add_block n bs) \<union> fst ` set (take k ws)) + 1 < LOGSIZE" if "k < length ws" for k
    using Cons.prems(4) [rule_format, of "Suc k"] that w by (simp add: Un_commute)
  then show ?case
    using Cons.IH [OF c1 s1(2)] Cons.prems(3,5,6) s1 w by (simp add: s1 fun_upd_def)
qed auto

text \<open>The state between two transactions: nothing pinned, nothing logged, an empty header on disk.\<close>

definition log_idle :: "'a logsys_scheme \<Rightarrow> nat \<Rightarrow> bool" where
  "log_idle s a \<longleftrightarrow> cache s (disk s 1) Map.empty {} \<and> logged s a [] \<and> l_outstanding (lg s) = 0
     \<and> \<not> l_committing (lg s) \<and> l_size (lg s) = int LOGSIZE \<and> heads (disk s 1 (of_nat a)) []
     \<and> length (disk s 1 (of_nat a)) = BSIZE \<and> sb_logstart (sb_of_block (disk s 1 1)) = of_nat a \<and> 1 \<notin> log_area a"

text \<open>The disk after the first \<open>k\<close> of the block writes that led from \<open>s\<close> to \<open>s'\<close>.\<close>

definition crash_disk :: "'a logsys_scheme \<Rightarrow> 'a logsys_scheme \<Rightarrow> nat \<Rightarrow> u32 \<Rightarrow> block" where
  "crash_disk s s' k = apply_writes (map snd (take k (drop (length (written s)) (written s')))) (disk s 1)"

lemma crash_recovers:
  assumes DV: "\<forall>m. m \<notin> set bs \<longrightarrow> D m = V m" and hD: "heads (D (of_nat a)) []" "length (V (of_nat a)) = BSIZE"
    and l: "logged s a bs" and one: "1 \<notin> set bs" "1 \<notin> log_area a"
    and sb: "sb_logstart (sb_of_block (D 1)) = of_nat a" and dsk: "havedisk1 s'"
  shows "\<exists>r. initlog 1 (reboot s' (apply_writes (take k (commit_writes a V bs)) D)) = Inr r
    \<and> (\<forall>m. m \<notin> log_area a \<longrightarrow> disk r 1 m = (if k \<le> length bs then D m else V m))"
proof -
  let ?n = "length bs" and ?t = "of_nat a :: u32" and ?h = "head (V (of_nat a)) bs"
  let ?W1 = "map (\<lambda>i. (log_blk a i, V (bs ! i))) [0..<?n]"
  let ?W3 = "map (\<lambda>i. (bs ! i, V (bs ! i))) [0..<?n]"
  let ?D = "apply_writes (take k (commit_writes a V bs)) D"
  have lb: "a + LOGSIZE < unat FSSIZE" "?n < LOGSIZE" "distinct bs" "\<forall>b\<in>set bs. b < FSSIZE \<and> b \<notin> log_area a"
    using l by (auto simp: logged_def)
  have lin: "log_blk a i \<in> log_area a" "log_blk a i \<noteq> ?t" if "i < ?n" for i
    using log_blk_facts(2,4) [of a i] lb that by auto
  note tin = header_block(3) [OF l]
  have out: "fst ` set (commit_writes a V bs) \<subseteq> log_area a \<union> set bs"
    using lin tin by (auto simp: commit_writes_def Let_def)
  have D1: "?D 1 = D 1"
    by (rule apply_writes_other) (use out one set_take_subset [of k "commit_writes a V bs"] in auto)
  have old: "m \<noteq> ?t" "apply_writes ?W1 D m = D m" if "m \<notin> log_area a" for m
    using that tin lin(1) by (auto intro!: apply_writes_other)
  consider (old) "k \<le> ?n" | (mid) "?n < k" "k \<le> 2 * ?n + 1" | (new) "2 * ?n + 1 < k" by linarith
  then show ?thesis
  proof cases
    case old
    then have Dk: "?D = apply_writes (take k ?W1) D" by (simp add: commit_writes_def Let_def)
    have w: "fst ` set (take k ?W1) \<subseteq> log_area a - {?t}" using lin set_take_subset [of k ?W1] by force
    then have "?D ?t = D ?t" unfolding Dk by (intro apply_writes_other) auto
    moreover have "?D m = D m" if "m \<notin> log_area a" for m unfolding Dk by (rule apply_writes_other) (use w that in auto)
    ultimately show ?thesis
      using initlog_run [OF dsk lb(1), of ?D "[]"] D1 sb hD old by simp
  next
    case mid
    then have "take k (commit_writes a V bs) = ?W1 @ [(?t, ?h)] @ take (k - ?n - 1) ?W3"
      by (simp add: commit_writes_def Let_def take_Cons' not_le)
    then have Dk: "?D = apply_writes (take (k - ?n - 1) ?W3) ((apply_writes ?W1 D)(?t := ?h))" by simp
    have w: "fst ` set (take (k - ?n - 1) ?W3) \<subseteq> set bs" using set_take_subset [of "k - ?n - 1" ?W3] by force
    have log: "?D m = ((apply_writes ?W1 D)(?t := ?h)) m" if "m \<notin> set bs" for m
      unfolding Dk by (rule apply_writes_other) (use w that in auto)
    have hb: "heads (?D ?t) bs" using log [of ?t] tin lb heads_head [OF hD(2)] by auto
    have "?D (log_blk a i) = V (bs ! i)" if "i < ?n" for i
      using log [of "log_blk a i"] lin [OF that] lb log_writes_nth [OF l that, of "\<lambda>i. V (bs ! i)"] by auto
    then have mp: "map (\<lambda>i. (bs ! i, ?D (log_blk a i))) [0..<?n] = ?W3" by simp
    have sbD: "sb_logstart (sb_of_block (?D 1)) = of_nat a" by (simp only: D1 sb)
    obtain r where r: "initlog 1 (reboot s' ?D) = Inr r"
      "\<forall>m. m \<notin> log_area a \<longrightarrow> disk r 1 m = apply_writes ?W3 ?D m"
      using initlog_run [where D = ?D, OF dsk lb(1) sbD hb lb(3,4)] unfolding mp by blast
    have "?D m = V m" if "m \<notin> log_area a" "m \<notin> set bs" for m
      using log [OF that(2)] old [OF that(1)] DV that(2) by simp
    then show ?thesis using r mid(1) home_writes_nth [OF lb(3), of V ?D] by simp
  next
    case new
    then have "take k (commit_writes a V bs) = commit_writes a V bs" by (simp add: commit_writes_def Let_def)
    then have Dk: "?D = (apply_writes ?W3 ((apply_writes ?W1 D)(?t := ?h)))(?t := head ?h [])"
      by (simp add: commit_writes_def Let_def)
    have "heads (?D ?t) []" unfolding Dk using heads_head [of ?h "[]"] hD(2) by (simp add: head_def)
    moreover have "?D m = V m" if "m \<notin> log_area a" for m
      unfolding Dk using old [OF that] DV home_writes_nth [OF lb(3), of V] by simp
    ultimately show ?thesis
      using initlog_run [OF dsk lb(1), of ?D "[]"] D1 sb new by simp
  qed
qed

lemma end_op_last:
  assumes "l_outstanding (lg s) = 1" and "\<not> l_committing (lg s)"
  shows "end_op s = bnd (commit (upd_log (\<lambda>l. l\<lparr>l_outstanding := 0, l_committing := True\<rparr>) s))
    (\<lambda>s. Inr (upd_log (\<lambda>l. l\<lparr>l_committing := False\<rparr>) s))"
  using assms by (simp add: end_op_def Let_def upd_log_def)

lemma logged_flags [simp]:
  "logged (upd_log (\<lambda>l. l\<lparr>l_committing := b\<rparr>) s) a bs = logged s a bs"
  "logged (upd_log (\<lambda>l. l\<lparr>l_outstanding := k, l_committing := b\<rparr>) s) a bs = logged s a bs"
  "logged (upd_log (\<lambda>l. l\<lparr>l_outstanding := l_outstanding l + 1\<rparr>) s) a bs = logged s a bs"
  by (simp_all add: logged_def)

lemma begin_idle:
  "log_idle s a \<Longrightarrow> begin_op s = Inr (upd_log (\<lambda>l. l\<lparr>l_outstanding := l_outstanding l + 1\<rparr>) s)"
  by (simp add: begin_op_def log_idle_def logged_def MAXOPBLOCKS_def LOGSIZE_def)

lemma run_tx_commits:
  fixes s :: "'a logsys_scheme"
  assumes idle: "log_idle s a" and ws: "\<forall>n\<in>fst ` set ws. n < FSSIZE \<and> n \<notin> log_area a"
    and few: "card (fst ` set ws) \<le> MAXOPBLOCKS" and some: "ws \<noteq> []" and V: "V = apply_writes ws (disk s 1)"
  shows "\<exists>s' (s1 :: 'a logsys_scheme) bs. run_tx ws s = Inr s' \<and> logged s1 a bs \<and> set bs = fst ` set ws
    \<and> written s' = written s @ map (Pair 1) (commit_writes a V bs)
    \<and> disk s' 1 = apply_writes (commit_writes a V bs) (disk s 1)
    \<and> cache s' (apply_writes (commit_writes a V bs) V) Map.empty {} \<and> logged s' a []
    \<and> l_outstanding (lg s') = 0 \<and> \<not> l_committing (lg s') \<and> l_size (lg s') = l_size (lg s)"
proof -
  let ?s0 = "upd_log (\<lambda>l. l\<lparr>l_outstanding := l_outstanding l + 1\<rparr>) s"
  have i: "cache s (disk s 1) Map.empty {}" "logged s a []" "l_outstanding (lg s) = 0" "\<not> l_committing (lg s)"
    "l_size (lg s) = int LOGSIZE" using idle by (simp_all add: log_idle_def)
  have few': "card (fst ` set (take k ws)) + 1 < LOGSIZE" for k
    using few card_mono [of "fst ` set ws" "fst ` set (take k ws)"] set_take_subset [of k ws]
    by (force simp: LOGSIZE_def MAXOPBLOCKS_def)
  obtain s1 bs where s1: "for_each ws tx_write ?s0 = Inr s1" "logged s1 a bs" "set bs = fst ` set ws" "disk s1 = disk s"
    "written s1 = written s" "l_outstanding (lg s1) = 1" "\<not> l_committing (lg s1)" "l_size (lg s1) = l_size (lg s)"
    and c1: "cache s1 V Map.empty (set bs)"
    using tx_writes_run [of ?s0 "disk s 1" "[]" a ws] i ws few' V by auto
  let ?s1 = "upd_log (\<lambda>l. l\<lparr>l_outstanding := 0, l_committing := True\<rparr>) s1"
  have "length bs = card (set bs)" using s1(2) by (simp add: logged_def distinct_card)
  then have bs: "bs \<noteq> []" "length bs < NBUF" using s1(3) some few by (auto simp: NBUF_def MAXOPBLOCKS_def)
  obtain s2 where s2: "commit ?s1 = Inr s2" "disk s2 1 = apply_writes (commit_writes a V bs) (disk s 1)"
    "written s2 = written s @ map (Pair 1) (commit_writes a V bs)"
    "cache s2 (apply_writes (commit_writes a V bs) V) Map.empty {}" "logged s2 a []" "lg s2 = (lg ?s1)\<lparr>lh_n := 0\<rparr>"
    using commit_run [of ?s1 V bs a] c1 s1 bs by auto
  have "run_tx ws s = Inr (upd_log (\<lambda>l. l\<lparr>l_committing := False\<rparr>) s2)"
    using s1 s2(1) begin_idle [OF idle] end_op_last [OF s1(6,7)] by (simp add: run_tx_def)
  then show ?thesis
    using s1 s2 by - (rule exI [of _ "upd_log (\<lambda>l. l\<lparr>l_committing := False\<rparr>) s2"], rule exI [of _ s1], rule exI [of _ bs], simp)
qed

lemma commit_writes_disk:
  assumes l: "logged s a bs" and D: "\<forall>m. m \<notin> set bs \<longrightarrow> D m = V m"
  shows "m \<notin> log_area a \<Longrightarrow> apply_writes (commit_writes a V bs) D m = V m"
    "apply_writes (commit_writes a V bs) D (of_nat a) = head (head (V (of_nat a)) bs) []"
proof -
  let ?W1 = "map (\<lambda>i. (log_blk a i, V (bs ! i))) [0..<length bs]"
  have lb: "distinct bs" "\<And>i. i < length bs \<Longrightarrow> log_blk a i \<in> log_area a"
    using log_blk_facts(2) [of a] l by (auto simp: logged_def)
  show "apply_writes (commit_writes a V bs) D (of_nat a) = head (head (V (of_nat a)) bs) []"
    by (simp add: commit_writes_def Let_def)
  show "apply_writes (commit_writes a V bs) D m = V m" if m: "m \<notin> log_area a"
  proof -
    have "m \<noteq> of_nat a" using m header_block(3) [OF l] by auto
    moreover have "apply_writes ?W1 D m = D m" using m lb(2) by (auto intro!: apply_writes_other)
    ultimately show ?thesis
      using home_writes_nth [OF lb(1), of V] D by (simp add: commit_writes_def Let_def)
  qed
qed

text \<open>
  C5. Crash atomicity of the log. A transaction that modifies at most \<^verbatim>\<open>MAXOPBLOCKS\<close> distinct blocks
  (none of them in the log or the super block) commits, leaving an idle log and exactly its writes on
  the disk outside the log. If the machine stops after any number \<open>k\<close> of the disk writes it makes and
  is rebooted, recovery succeeds and leaves, outside the log, either none of the transaction (\<open>k\<close>
  below the commit point \<open>c\<close>) or all of it (from \<open>c\<close> on).
\<close>

theorem log_transaction_atomic:
  fixes s :: "'a logsys_scheme"
  assumes "log_idle s a" and "\<forall>n\<in>fst ` set ws. n < FSSIZE \<and> n \<notin> log_area a \<and> n \<noteq> 1"
    and "card (fst ` set ws) \<le> MAXOPBLOCKS"
  shows "\<exists>s' c. run_tx ws s = Inr s' \<and> log_idle s' a
    \<and> (\<forall>m. m \<notin> log_area a \<longrightarrow> disk s' 1 m = apply_writes ws (disk s 1) m)
    \<and> c \<le> length (written s') - length (written s)
    \<and> (\<forall>k. \<exists>r. initlog 1 (reboot s' (crash_disk s s' k)) = Inr r \<and> (\<forall>m. m \<notin> log_area a \<longrightarrow>
         disk r 1 m = (if k < c then disk s 1 m else apply_writes ws (disk s 1) m)))"
proof (cases "ws = []")
  case True
  let ?s' = "upd_log (\<lambda>l. l\<lparr>l_outstanding := 0, l_committing := False\<rparr>) s"
  have "run_tx ws s = Inr ?s'"
    using True begin_idle [OF assms(1)] assms(1)
    by (simp add: run_tx_def log_idle_def logged_def commit_def end_op_last) (simp add: upd_log_def)
  moreover have "log_idle ?s' a" using assms(1) by (simp add: log_idle_def)
  moreover have "\<exists>r. initlog 1 (reboot ?s' (disk s 1)) = Inr r \<and> (\<forall>m. m \<notin> log_area a \<longrightarrow> disk r 1 m = disk s 1 m)"
    using initlog_run [of ?s' a "disk s 1" "[]"] assms(1) cacheD(5) [of s "disk s 1" Map.empty "{}"] by (simp add: log_idle_def logged_def)
  ultimately show ?thesis using True by (intro exI [of _ ?s'] exI [of _ 0]) (simp add: crash_disk_def)
next
  case False
  let ?V = "apply_writes ws (disk s 1)"
  have ws: "\<forall>n\<in>fst ` set ws. n < FSSIZE \<and> n \<notin> log_area a" "1 \<notin> fst ` set ws" using assms(2) by auto
  obtain s' and s1 :: "'a logsys_scheme" and bs where r: "run_tx ws s = Inr s'" "logged s1 a bs" "set bs = fst ` set ws"
    "written s' = written s @ map (Pair 1) (commit_writes a ?V bs)"
    "disk s' 1 = apply_writes (commit_writes a ?V bs) (disk s 1)"
    "cache s' (apply_writes (commit_writes a ?V bs) ?V) Map.empty {}" "logged s' a []"
    "l_outstanding (lg s') = 0" "\<not> l_committing (lg s')" "l_size (lg s') = l_size (lg s)"
    using run_tx_commits [OF assms(1) ws(1) assms(3) False refl] by blast
  have DV: "\<forall>m. m \<notin> set bs \<longrightarrow> disk s 1 m = ?V m" using r(3) apply_writes_other [of _ ws "disk s 1"] by auto
  have i: "heads (disk s 1 (of_nat a)) []" "length (disk s 1 (of_nat a)) = BSIZE"
    "sb_logstart (sb_of_block (disk s 1 1)) = of_nat a" "1 \<notin> log_area a"
    using assms(1) by (simp_all add: log_idle_def)
  have aV: "?V (of_nat a) = disk s 1 (of_nat a)" "?V 1 = disk s 1 1"
    using ws header_block(3) [OF r(2)] by (auto intro!: apply_writes_other)
  note d = commit_writes_disk [OF r(2) DV, folded r(5)]
  have "apply_writes (commit_writes a ?V bs) ?V = disk s' 1" using cache_disk [OF r(6)] by auto
  then have "log_idle s' a"
    using r(6-) d(1) [OF i(4)] d(2) aV i assms(1) heads_head [of "head (disk s 1 (of_nat a)) bs" "[]"]
    by (simp add: log_idle_def head_def)
  moreover have "crash_disk s s' k = apply_writes (take k (commit_writes a ?V bs)) (disk s 1)" for k
    using r(4) by (simp add: crash_disk_def take_map comp_def)
  ultimately show ?thesis
    using r(1,4) d(1) crash_recovers [OF DV i(1) _ r(2) _ i(4,3), of s'] aV i(2) ws(2) r(3) cacheD(5) [OF r(6)]
    by (intro exI [of _ s'] exI [of _ "Suc (length bs)"]) (simp add: commit_writes_def Let_def less_Suc_eq_le)
qed

definition demo_log :: logsys where
  "demo_log = binit \<lparr>bufs = [], mru = [], idequeue = [], havedisk1 = True,
     disk = (\<lambda>_ n. if n = 1 then put32 (replicate BSIZE 0) 16 2 else replicate BSIZE 0), written = [], cur_pid = 1,
     lg = zero_log\<lparr>l_start := 2, l_size := int LOGSIZE, l_dev := 1\<rparr>\<rparr>"

lemma log_area_small: "a + LOGSIZE < 2 ^ 32 \<Longrightarrow> m \<in> log_area a \<longleftrightarrow> a \<le> unat m \<and> unat m < a + LOGSIZE"
  by (auto simp: log_area_def unat_of_nat_u32 intro!: image_eqI [of _ _ "unat m"])

lemma demo_log_idle: "log_idle demo_log 2"
proof -
  have "disk demo_log = (\<lambda>_ n. if n = 1 then put32 (replicate BSIZE 0) 16 2 else replicate BSIZE 0)"
    by (simp add: demo_log_def binit_def)
  moreover have "cache demo_log (\<lambda>n. if n = 1 then put32 (replicate BSIZE 0) 16 2 else replicate BSIZE 0) Map.empty {}"
    unfolding demo_log_def using binit_cache [of "\<lparr>bufs = [], mru = [], idequeue = [], havedisk1 = True,
     disk = (\<lambda>_ n. if n = 1 then put32 (replicate BSIZE 0) 16 2 else replicate BSIZE 0), written = [], cur_pid = 1,
     lg = zero_log\<lparr>l_start := 2, l_size := int LOGSIZE, l_dev := 1\<rparr>\<rparr>"] by simp
  moreover have "get32 (replicate BSIZE 0) 0 = 0" by (simp add: get32_def get16_def BSIZE_def)
  ultimately show ?thesis
    by (simp add: log_idle_def) (simp add: demo_log_def binit_def logged_def zero_log_def heads_def sb_of_block_def
        log_area_small get_array_def FSSIZE_def LOGSIZE_def BSIZE_def)
qed

theorem log_transaction_atomic_witness:
  "let ws = [(40, replicate BSIZE 7), (41, replicate BSIZE 8), (40, replicate BSIZE 9)]; s = demo_log
   in \<exists>s' c. run_tx ws s = Inr s' \<and> log_idle s' 2
    \<and> (\<forall>m. m \<notin> log_area 2 \<longrightarrow> disk s' 1 m = apply_writes ws (disk s 1) m)
    \<and> c \<le> length (written s') - length (written s)
    \<and> (\<forall>k. \<exists>r. initlog 1 (reboot s' (crash_disk s s' k)) = Inr r \<and> (\<forall>m. m \<notin> log_area 2 \<longrightarrow>
         disk r 1 m = (if k < c then disk s 1 m else apply_writes ws (disk s 1) m)))"
  unfolding Let_def
  by (rule log_transaction_atomic [OF demo_log_idle])
    (auto simp: FSSIZE_def log_area_small MAXOPBLOCKS_def LOGSIZE_def card_insert_if)

lemma begin_op_open:
  assumes "\<not> l_committing (lg s)" and "lh_n (lg s) = 0" and "l_outstanding (lg s) \<le> 2"
  shows "begin_op s = Inr (upd_log (\<lambda>l. l\<lparr>l_outstanding := l_outstanding l + 1\<rparr>) s)"
  using assms by (simp add: begin_op_def MAXOPBLOCKS_def LOGSIZE_def)

lemma tx_write_full:
  assumes c: "cache s V Map.empty (set bs)" and l: "logged s a bs" and n: "n < FSSIZE"
    and full: "length bs + 1 = LOGSIZE" "l_size (lg s) = int LOGSIZE"
  shows "tx_write (n, d) s = Inl (Panic ''too big a transaction'')"
proof -
  have few: "card (set bs) < NBUF" using full(1) card_length [of bs] by (simp add: NBUF_def LOGSIZE_def)
  obtain b s1 where s1: "bread 1 n s = Inr (b, s1)" "bio.more s1 = bio.more s"
    using cache_bread [OF c, of n] n few by auto
  have "lg (set_data b d s1) = lg s" using more_lg [of "set_data b d s1" s] s1(2) by (simp add: set_data_def)
  then have "log_write b (set_data b d s1) = Inl (Panic ''too big a transaction'')"
    using full l by (simp add: log_write_def Let_def logged_def)
  then show ?thesis using s1(1) by (simp add: tx_write_def)
qed

text \<open>
  C40. The admission test of \<^verbatim>\<open>begin_op\<close> is one block too generous. It admits three concurrent
  operations on an idle log, since each may write \<^verbatim>\<open>MAXOPBLOCKS\<close> = 10 blocks and the log holds
  \<^verbatim>\<open>LOGSIZE\<close> = 30; but one block of the log is its header, so when the three together modify 30
  distinct blocks, 10 each, the last \<^verbatim>\<open>log_write\<close> panics.
\<close>

theorem log_reservation_overflow:
  assumes "log_idle s a" and "\<forall>n\<in>fst ` set ws. n < FSSIZE \<and> n \<notin> log_area a"
    and "distinct (map fst ws)" and "length ws = 3 * MAXOPBLOCKS"
  shows "bnd (begin_op s) (\<lambda>s. bnd (begin_op s) (\<lambda>s. bnd (begin_op s) (for_each ws tx_write)))
    = Inl (Panic ''too big a transaction'')"
proof -
  let ?b = "upd_log (\<lambda>l. l\<lparr>l_outstanding := l_outstanding l + 1\<rparr>)"
  let ?s = "?b (?b (?b s))" and ?ws = "take 29 ws"
  have i: "cache s (disk s 1) Map.empty {}" "logged s a []" "l_outstanding (lg s) = 0" "\<not> l_committing (lg s)"
    "l_size (lg s) = int LOGSIZE" "lh_n (lg s) = 0" using assms(1) by (simp_all add: log_idle_def logged_def)
  have ops: "begin_op s = Inr (?b s)" "begin_op (?b s) = Inr (?b (?b s))" "begin_op (?b (?b s)) = Inr ?s"
    by (rule begin_op_open; use i in simp)+
  have len: "length ws = 30" using assms(4) by (simp add: MAXOPBLOCKS_def)
  have split: "ws = ?ws @ [ws ! 29]" using len take_Suc_conv_app_nth [of 29 ws] by simp
  have ok: "\<forall>n\<in>fst ` set ?ws. n < FSSIZE \<and> n \<notin> log_area a" "fst (ws ! 29) < FSSIZE"
    using assms(2) set_take_subset [of 29 ws] len by (auto simp: image_iff)
  have card: "card (fst ` set (take k ?ws)) \<le> k" for k
    using card_image_le [of "set (take k ?ws)" fst] card_length [of "take k ?ws"] by force
  then obtain s' bs where s': "for_each ?ws tx_write ?s = Inr s'" "logged s' a bs" "set bs = fst ` set ?ws"
    "l_size (lg s') = int LOGSIZE" and c': "cache s' (apply_writes ?ws (disk s 1)) Map.empty (set bs)"
    using tx_writes_run [of ?s "disk s 1" "[]" a ?ws] i ok(1) le_less_trans [OF card] by (force simp: LOGSIZE_def)
  have "distinct (map fst ?ws)" using assms(3) by (metis distinct_take take_map)
  then have "length bs = 29"
    using s'(2,3) distinct_card [of "map fst ?ws"] distinct_card [of bs] len
    by (simp add: logged_def flip: set_map)
  then have "tx_write (ws ! 29) s' = Inl (Panic ''too big a transaction'')"
    using tx_write_full [OF c' s'(2) ok(2), of "snd (ws ! 29)"] s'(4) by (simp add: LOGSIZE_def)
  then show ?thesis
    using ops s'(1) by (subst split) (simp add: for_each_append)
qed

theorem log_reservation_overflow_witness:
  "bnd (begin_op demo_log) (\<lambda>s. bnd (begin_op s) (\<lambda>s. bnd (begin_op s)
     (for_each (map (\<lambda>i. (of_nat (40 + i), replicate BSIZE 0)) [0..<30]) tx_write)))
   = Inl (Panic ''too big a transaction'')"
proof (rule log_reservation_overflow [OF demo_log_idle])
  have u: "unat (of_nat (40 + i) :: u32) = 40 + i" if "i < 30" for i by (rule unat_of_nat_u32) (use that in simp)
  have "inj_on (\<lambda>i. of_nat (40 + i) :: u32) {0..<30}"
    by (rule inj_onI) (metis u add_left_cancel atLeastLessThan_iff)
  then show "distinct (map fst (map (\<lambda>i. (of_nat (40 + i) :: u32, replicate BSIZE 0 :: block)) [0..<30]))"
    by (simp add: comp_def distinct_map)
  show "\<forall>n\<in>fst ` set (map (\<lambda>i. (of_nat (40 + i), replicate BSIZE 0)) [0..<30]). n < FSSIZE \<and> n \<notin> log_area 2"
    using u by (auto simp: image_image word_less_nat_alt log_area_small FSSIZE_def LOGSIZE_def simp del: of_nat_add)
qed (simp add: MAXOPBLOCKS_def)

end
