(* ===== verification/Fs.thy ===== *)
theory Fs
  imports Log
begin

text \<open>
  The file system below the system calls (\<^verbatim>\<open>fs.c\<close>): the block allocator, inodes and their cache,
  file contents, directories and path names. An inode pointer is the index of the entry in
  \<^verbatim>\<open>icache.inode\<close>. A buffer and its length are one list of bytes; a C string is the list of its
  bytes, with a zero byte wherever the list has ended. The device table \<^verbatim>\<open>devsw\<close> is an argument of
  the operations that call through it.
\<close>

definition NINODE :: nat where "NINODE = 50"
definition NDEV :: nat where "NDEV = 10"
definition ROOTDEV :: u32 where "ROOTDEV = 1"
definition ROOTINO :: u32 where "ROOTINO = 1"

record inode =
  i_dev :: u32
  i_inum :: u32
  i_ref :: int
  i_lock :: sleeplock
  i_valid :: bool
  i_type :: u16
  i_major :: u16
  i_minor :: u16
  i_nlink :: u16
  i_size :: u32
  i_addrs :: "u32 list"

record fsys = logsys +
  sb :: superblock
  icache :: "inode list"

definition upd_inode :: "nat \<Rightarrow> (inode \<Rightarrow> inode) \<Rightarrow> 'a fsys_scheme \<Rightarrow> 'a fsys_scheme" where
  "upd_inode i f s = s\<lparr>icache := (icache s)[i := f (icache s ! i)]\<rparr>"

section \<open>Blocks\<close>

text \<open>\<^verbatim>\<open>bread\<close>, change the data, \<^verbatim>\<open>log_write\<close>, \<^verbatim>\<open>brelse\<close>.\<close>

definition update_block :: "u32 \<Rightarrow> u32 \<Rightarrow> (block \<Rightarrow> block) \<Rightarrow> 'a logsys_scheme \<Rightarrow> 'a logsys_scheme res" where
  "update_block dev n f s =
     bnd (bread dev n s) (\<lambda>(bp, s). bnd (log_write bp (set_data bp (f (buf_data bp s)) s)) (\<lambda>s. brelse bp s))"

definition bzero :: "u32 \<Rightarrow> u32 \<Rightarrow> 'a logsys_scheme \<Rightarrow> 'a logsys_scheme res" where
  "bzero dev bno s = update_block dev bno (\<lambda>_. replicate BSIZE 0) s"

definition bit_mask :: "nat \<Rightarrow> u8" where
  "bit_mask bi = push_bit (bi mod 8) 1"

definition bit_free :: "block \<Rightarrow> nat \<Rightarrow> bool" where
  "bit_free d bi \<longleftrightarrow> (d ! (bi div 8)) AND bit_mask bi = 0"

definition mark_used :: "nat \<Rightarrow> block \<Rightarrow> block" where
  "mark_used bi d = d[bi div 8 := (d ! (bi div 8)) OR bit_mask bi]"

definition mark_free :: "nat \<Rightarrow> block \<Rightarrow> block" where
  "mark_free bi d = d[bi div 8 := (d ! (bi div 8)) AND NOT (bit_mask bi)]"

text \<open>The body of the outer loop for each \<open>b\<close>, and the values \<open>b\<close> takes.\<close>

fun balloc_loop :: "u32 \<Rightarrow> nat list \<Rightarrow> 'a fsys_scheme \<Rightarrow> (u32 \<times> 'a fsys_scheme) res" where
  "balloc_loop dev [] s = Inl (Panic ''balloc: out of blocks'')"
| "balloc_loop dev (b # bs) s =
     bnd (bread dev (BBLOCK (of_nat b) (sb s)) s) (\<lambda>(bp, s).
       case List.find (bit_free (buf_data bp s)) [0..<min BPB (unat (sb_size (sb s)) - b)] of
         Some bi \<Rightarrow>
           bnd (log_write bp (set_data bp (mark_used bi (buf_data bp s)) s)) (\<lambda>s.
           bnd (brelse bp s) (\<lambda>s.
           bnd (bzero dev (of_nat (b + bi)) s) (\<lambda>s. Inr (of_nat (b + bi), s))))
       | None \<Rightarrow> bnd (brelse bp s) (balloc_loop dev bs))"

definition bitmap_starts :: "u32 \<Rightarrow> nat list" where
  "bitmap_starts sz = map (\<lambda>k. k * BPB) [0..<(unat sz + BPB - 1) div BPB]"

definition balloc :: "u32 \<Rightarrow> 'a fsys_scheme \<Rightarrow> (u32 \<times> 'a fsys_scheme) res" where
  "balloc dev s = balloc_loop dev (bitmap_starts (sb_size (sb s))) s"

definition bfree :: "u32 \<Rightarrow> u32 \<Rightarrow> 'a fsys_scheme \<Rightarrow> 'a fsys_scheme res" where
  "bfree dev b s =
     bnd (readsb dev s) (\<lambda>(sb', s).
       let s = s\<lparr>sb := sb'\<rparr>
       in bnd (bread dev (BBLOCK b (sb s)) s) (\<lambda>(bp, s).
         let bi = unat b mod BPB
         in if bit_free (buf_data bp s) bi then Inl (Panic ''freeing free block'')
            else bnd (log_write bp (set_data bp (mark_free bi (buf_data bp s)) s)) (\<lambda>s. brelse bp s)))"

section \<open>Inodes\<close>

definition iinit :: "u32 \<Rightarrow> 'a fsys_scheme \<Rightarrow> 'a fsys_scheme res" where
  "iinit dev s =
     bnd (readsb dev (s\<lparr>icache := map (\<lambda>ip. ip\<lparr>i_lock := initsleeplock\<rparr>) (icache s)\<rparr>)) (\<lambda>(sb', s).
       Inr (s\<lparr>sb := sb'\<rparr>))"

definition iget :: "u32 \<Rightarrow> u32 \<Rightarrow> 'a fsys_scheme \<Rightarrow> (nat \<times> 'a fsys_scheme) res" where
  "iget dev inum s =
     (case List.find (\<lambda>i. i_ref (icache s ! i) > 0 \<and> i_dev (icache s ! i) = dev \<and> i_inum (icache s ! i) = inum)
             [0..<NINODE] of
        Some i \<Rightarrow> Inr (i, upd_inode i (\<lambda>ip. ip\<lparr>i_ref := i_ref ip + 1\<rparr>) s)
      | None \<Rightarrow>
        (case List.find (\<lambda>i. i_ref (icache s ! i) = 0) [0..<NINODE] of
           None \<Rightarrow> Inl (Panic ''iget: no inodes'')
         | Some i \<Rightarrow>
             Inr (i, upd_inode i (\<lambda>ip. ip\<lparr>i_dev := dev, i_inum := inum, i_ref := 1, i_valid := False\<rparr>) s)))"

text \<open>\<^verbatim>\<open>memset(dip, 0, sizeof(*dip)); dip->type = type\<close>.\<close>

definition fresh_dinode :: "u16 \<Rightarrow> dinode" where
  "fresh_dinode type = \<lparr>di_type = type, di_major = 0, di_minor = 0, di_nlink = 0, di_size = 0,
     di_addrs = replicate (NDIRECT + 1) 0\<rparr>"

fun ialloc_loop :: "u32 \<Rightarrow> u16 \<Rightarrow> nat list \<Rightarrow> 'a fsys_scheme \<Rightarrow> (nat \<times> 'a fsys_scheme) res" where
  "ialloc_loop dev type [] s = Inl (Panic ''ialloc: no inodes'')"
| "ialloc_loop dev type (inum # inums) s =
     bnd (bread dev (IBLOCK (of_nat inum) (sb s)) s) (\<lambda>(bp, s).
       if di_type (get_dinode (buf_data bp s) (inum mod IPB)) = 0
       then bnd (log_write bp (set_data bp (put_dinode (buf_data bp s) (inum mod IPB) (fresh_dinode type)) s)) (\<lambda>s.
            bnd (brelse bp s) (iget dev (of_nat inum)))
       else bnd (brelse bp s) (ialloc_loop dev type inums))"

definition ialloc :: "u32 \<Rightarrow> u16 \<Rightarrow> 'a fsys_scheme \<Rightarrow> (nat \<times> 'a fsys_scheme) res" where
  "ialloc dev type s = ialloc_loop dev type [1..<unat (sb_ninodes (sb s))] s"

definition dinode_of :: "inode \<Rightarrow> dinode" where
  "dinode_of ip = \<lparr>di_type = i_type ip, di_major = i_major ip, di_minor = i_minor ip, di_nlink = i_nlink ip,
     di_size = i_size ip, di_addrs = i_addrs ip\<rparr>"

definition iupdate :: "nat \<Rightarrow> 'a fsys_scheme \<Rightarrow> 'a fsys_scheme res" where
  "iupdate i s =
     (let ip = icache s ! i
      in update_block (i_dev ip) (IBLOCK (i_inum ip) (sb s))
           (\<lambda>d. put_dinode d (unat (i_inum ip) mod IPB) (dinode_of ip)) s)"

definition idup :: "nat \<Rightarrow> 'a fsys_scheme \<Rightarrow> 'a fsys_scheme" where
  "idup i s = upd_inode i (\<lambda>ip. ip\<lparr>i_ref := i_ref ip + 1\<rparr>) s"

definition load_dinode :: "dinode \<Rightarrow> inode \<Rightarrow> inode" where
  "load_dinode di ip = ip\<lparr>i_type := di_type di, i_major := di_major di, i_minor := di_minor di,
     i_nlink := di_nlink di, i_size := di_size di, i_addrs := di_addrs di, i_valid := True\<rparr>"

definition ilock :: "nat \<Rightarrow> 'a fsys_scheme \<Rightarrow> 'a fsys_scheme res" where
  "ilock i s =
     (if i_ref (icache s ! i) < 1 then Inl (Panic ''ilock'')
      else bnd (acquiresleep (cur_pid s) (i_lock (icache s ! i))) (\<lambda>lk.
        let s = upd_inode i (\<lambda>ip. ip\<lparr>i_lock := lk\<rparr>) s; ip = icache s ! i
        in if i_valid ip then Inr s
           else bnd (bread (i_dev ip) (IBLOCK (i_inum ip) (sb s)) s) (\<lambda>(bp, s).
             let di = get_dinode (buf_data bp s) (unat (i_inum ip) mod IPB)
             in bnd (brelse bp (upd_inode i (load_dinode di) s)) (\<lambda>s.
                  if di_type di = 0 then Inl (Panic ''ilock: no type'') else Inr s))))"

definition iunlock :: "nat \<Rightarrow> 'a fsys_scheme \<Rightarrow> 'a fsys_scheme res" where
  "iunlock i s =
     (if \<not> holdingsleep (i_lock (icache s ! i)) \<or> i_ref (icache s ! i) < 1 then Inl (Panic ''iunlock'')
      else Inr (upd_inode i (\<lambda>ip. ip\<lparr>i_lock := releasesleep (i_lock ip)\<rparr>) s))"

section \<open>Inode contents\<close>

definition bmap :: "nat \<Rightarrow> nat \<Rightarrow> 'a fsys_scheme \<Rightarrow> (u32 \<times> 'a fsys_scheme) res" where
  "bmap i bn s =
     (let ip = icache s ! i; dev = i_dev ip
      in if bn < NDIRECT
         then if i_addrs ip ! bn = 0
              then bnd (balloc dev s) (\<lambda>(addr, s).
                     Inr (addr, upd_inode i (\<lambda>ip. ip\<lparr>i_addrs := (i_addrs ip)[bn := addr]\<rparr>) s))
              else Inr (i_addrs ip ! bn, s)
         else let bn = bn - NDIRECT
           in if bn < NINDIRECT
              then bnd (if i_addrs ip ! NDIRECT = 0
                        then bnd (balloc dev s) (\<lambda>(addr, s).
                               Inr (addr, upd_inode i (\<lambda>ip. ip\<lparr>i_addrs := (i_addrs ip)[NDIRECT := addr]\<rparr>) s))
                        else Inr (i_addrs ip ! NDIRECT, s)) (\<lambda>(addr, s).
                   bnd (bread dev addr s) (\<lambda>(bp, s).
                     if get32 (buf_data bp s) (4 * bn) = 0
                     then bnd (balloc dev s) (\<lambda>(addr, s).
                          bnd (log_write bp (set_data bp (put32 (buf_data bp s) (4 * bn) addr) s)) (\<lambda>s.
                          bnd (brelse bp s) (\<lambda>s. Inr (addr, s))))
                     else bnd (brelse bp s) (\<lambda>s'. Inr (get32 (buf_data bp s) (4 * bn), s'))))
              else Inl (Panic ''bmap: out of range''))"

definition trunc_direct :: "nat \<Rightarrow> nat \<Rightarrow> 'a fsys_scheme \<Rightarrow> 'a fsys_scheme res" where
  "trunc_direct i k s =
     (let ip = icache s ! i
      in if i_addrs ip ! k \<noteq> 0
         then bnd (bfree (i_dev ip) (i_addrs ip ! k) s) (\<lambda>s.
                Inr (upd_inode i (\<lambda>ip. ip\<lparr>i_addrs := (i_addrs ip)[k := 0]\<rparr>) s))
         else Inr s)"

definition itrunc :: "nat \<Rightarrow> 'a fsys_scheme \<Rightarrow> 'a fsys_scheme res" where
  "itrunc i s =
     bnd (for_each [0..<NDIRECT] (trunc_direct i) s) (\<lambda>s.
       let ip = icache s ! i; dev = i_dev ip; addr = i_addrs ip ! NDIRECT
       in bnd (if addr \<noteq> 0
               then bnd (bread dev addr s) (\<lambda>(bp, s).
                    bnd (for_each [0..<NINDIRECT]
                           (\<lambda>j s. let a = get32 (buf_data bp s) (4 * j) in if a \<noteq> 0 then bfree dev a s else Inr s) s) (\<lambda>s.
                    bnd (brelse bp s) (\<lambda>s.
                    bnd (bfree dev addr s) (\<lambda>s.
                    Inr (upd_inode i (\<lambda>ip. ip\<lparr>i_addrs := (i_addrs ip)[NDIRECT := 0]\<rparr>) s)))))
               else Inr s) (\<lambda>s. iupdate i (upd_inode i (\<lambda>ip. ip\<lparr>i_size := 0\<rparr>) s)))"

definition iput :: "nat \<Rightarrow> 'a fsys_scheme \<Rightarrow> 'a fsys_scheme res" where
  "iput i s =
     (let ip = icache s ! i
      in bnd (if i_ref ip = 1 \<and> i_valid ip \<and> i_nlink ip = 0
              then bnd (itrunc i s) (\<lambda>s.
                   bnd (iupdate i (upd_inode i (\<lambda>ip. ip\<lparr>i_type := 0\<rparr>) s)) (\<lambda>s.
                   Inr (upd_inode i (\<lambda>ip. ip\<lparr>i_valid := False\<rparr>) s)))
              else Inr s) (\<lambda>s. Inr (upd_inode i (\<lambda>ip. ip\<lparr>i_ref := i_ref ip - 1\<rparr>) s)))"

definition iunlockput :: "nat \<Rightarrow> 'a fsys_scheme \<Rightarrow> 'a fsys_scheme res" where
  "iunlockput i s = bnd (iunlock i s) (iput i)"

record stat =
  st_type :: u16
  st_dev :: u32
  st_ino :: u32
  st_nlink :: u16
  st_size :: u32

definition stati :: "nat \<Rightarrow> 'a fsys_scheme \<Rightarrow> stat" where
  "stati i s =
     (let ip = icache s ! i
      in \<lparr>st_type = i_type ip, st_dev = i_dev ip, st_ino = i_inum ip, st_nlink = i_nlink ip, st_size = i_size ip\<rparr>)"

text \<open>A device's functions: read at most \<open>n\<close> bytes, write the bytes given.\<close>

record 's devsw =
  dev_read :: "(nat \<Rightarrow> u32 \<Rightarrow> u32 \<Rightarrow> 's \<Rightarrow> (int \<times> u8 list \<times> 's) res) option"
  dev_write :: "(nat \<Rightarrow> u32 \<Rightarrow> u8 list \<Rightarrow> 's \<Rightarrow> (int \<times> 's) res) option"

definition dev_entry :: "(nat \<Rightarrow> 's devsw) \<Rightarrow> u16 \<Rightarrow> 's devsw option" where
  "dev_entry devsw major =
     (if sint major < 0 \<or> sint major \<ge> int NDEV then None else Some (devsw (unat major)))"

text \<open>The number of bytes that one round of the copying loops moves.\<close>

definition chunk :: "u32 \<Rightarrow> nat \<Rightarrow> nat" where
  "chunk off left = min left (BSIZE - unat off mod BSIZE)"

lemma chunk_pos: "0 < left \<Longrightarrow> 0 < chunk off left"
  by (simp add: chunk_def BSIZE_def)

function readi_loop :: "nat \<Rightarrow> u32 \<Rightarrow> nat \<Rightarrow> 'a fsys_scheme \<Rightarrow> (u8 list \<times> 'a fsys_scheme) res" where
  "readi_loop i off left s =
     (if left = 0 then Inr ([], s)
      else bnd (bmap i (unat off div BSIZE) s) (\<lambda>(addr, s).
           bnd (bread (i_dev (icache s ! i)) addr s) (\<lambda>(bp, s).
             let m = chunk off left; bytes = take m (drop (unat off mod BSIZE) (buf_data bp s))
             in bnd (brelse bp s) (\<lambda>s.
                bnd (readi_loop i (off + of_nat m) (left - m) s) (\<lambda>(rest, s). Inr (bytes @ rest, s))))))"
  by pat_completeness auto
termination
  by (relation "measure (\<lambda>(i, off, left, s). left)") (auto simp: chunk_pos)

declare readi_loop.simps [simp del]

definition readi :: "(nat \<Rightarrow> 'a fsys_scheme devsw) \<Rightarrow> nat \<Rightarrow> u32 \<Rightarrow> u32 \<Rightarrow> 'a fsys_scheme
    \<Rightarrow> (int \<times> u8 list \<times> 'a fsys_scheme) res" where
  "readi devsw i off n s =
     (let ip = icache s ! i
      in if i_type ip = T_DEV
         then case Option.bind (dev_entry devsw (i_major ip)) dev_read of
                None \<Rightarrow> Inr (-1, [], s) | Some read \<Rightarrow> read i off n s
         else if off > i_size ip \<or> off + n < off then Inr (-1, [], s)
         else let n = (if off + n > i_size ip then i_size ip - off else n)
           in bnd (readi_loop i off (unat n) s) (\<lambda>(bytes, s). Inr (sint n, bytes, s)))"

definition overwrite :: "block \<Rightarrow> nat \<Rightarrow> u8 list \<Rightarrow> block" where
  "overwrite d k bytes = take k d @ bytes @ drop (k + length bytes) d"

function writei_loop :: "nat \<Rightarrow> u32 \<Rightarrow> u8 list \<Rightarrow> 'a fsys_scheme \<Rightarrow> (u32 \<times> 'a fsys_scheme) res" where
  "writei_loop i off src s =
     (if src = [] then Inr (off, s)
      else bnd (bmap i (unat off div BSIZE) s) (\<lambda>(addr, s).
             let m = chunk off (length src)
             in bnd (update_block (i_dev (icache s ! i)) addr (\<lambda>d. overwrite d (unat off mod BSIZE) (take m src)) s) (\<lambda>s.
                writei_loop i (off + of_nat m) (drop m src) s)))"
  by pat_completeness auto
termination
  by (relation "measure (\<lambda>(i, off, src, s). length src)") (auto simp: chunk_pos)

declare writei_loop.simps [simp del]

definition writei :: "(nat \<Rightarrow> 'a fsys_scheme devsw) \<Rightarrow> nat \<Rightarrow> u8 list \<Rightarrow> u32 \<Rightarrow> 'a fsys_scheme
    \<Rightarrow> (int \<times> 'a fsys_scheme) res" where
  "writei devsw i src off s =
     (let ip = icache s ! i; n = of_nat (length src)
      in if i_type ip = T_DEV
         then case Option.bind (dev_entry devsw (i_major ip)) dev_write of
                None \<Rightarrow> Inr (-1, s) | Some write \<Rightarrow> write i off src s
         else if off > i_size ip \<or> off + n < off then Inr (-1, s)
         else if unat (off + n) > MAXFILE * BSIZE then Inr (-1, s)
         else bnd (writei_loop i off src s) (\<lambda>(off, s).
                bnd (if n > 0 \<and> off > i_size (icache s ! i)
                     then iupdate i (upd_inode i (\<lambda>ip. ip\<lparr>i_size := off\<rparr>) s) else Inr s) (\<lambda>s.
                Inr (sint n, s))))"

section \<open>Directories\<close>

definition chr0 :: "u8 list \<Rightarrow> u8" where
  "chr0 p = (case p of [] \<Rightarrow> 0 | c # _ \<Rightarrow> c)"

primrec strncmp0 :: "nat \<Rightarrow> u8 list \<Rightarrow> u8 list \<Rightarrow> int" where
  "strncmp0 0 p q = 0"
| "strncmp0 (Suc n) p q =
     (if chr0 p \<noteq> 0 \<and> chr0 p = chr0 q then strncmp0 n (tl p) (tl q) else int (unat (chr0 p)) - int (unat (chr0 q)))"

primrec strncpy0 :: "nat \<Rightarrow> u8 list \<Rightarrow> u8 list" where
  "strncpy0 0 t = []"
| "strncpy0 (Suc n) t = (if chr0 t \<noteq> 0 then chr0 t # strncpy0 n (tl t) else replicate (Suc n) 0)"

definition namecmp :: "u8 list \<Rightarrow> u8 list \<Rightarrow> int" where
  "namecmp s t = strncmp0 DIRSIZ s t"

definition dirent_offsets :: "u32 \<Rightarrow> nat list" where
  "dirent_offsets sz = map (\<lambda>k. k * DIRENT_SIZE) [0..<(unat sz + DIRENT_SIZE - 1) div DIRENT_SIZE]"

definition read_dirent :: "string \<Rightarrow> (nat \<Rightarrow> 'a fsys_scheme devsw) \<Rightarrow> nat \<Rightarrow> nat \<Rightarrow> 'a fsys_scheme
    \<Rightarrow> (dirent \<times> 'a fsys_scheme) res" where
  "read_dirent msg devsw dp off s =
     bnd (readi devsw dp (of_nat off) (of_nat DIRENT_SIZE) s) (\<lambda>(r, bytes, s).
       if r \<noteq> int DIRENT_SIZE then Inl (Panic msg) else Inr (dirent_of_bytes bytes, s))"

fun dirlookup_loop :: "(nat \<Rightarrow> 'a fsys_scheme devsw) \<Rightarrow> nat \<Rightarrow> u8 list \<Rightarrow> nat list \<Rightarrow> 'a fsys_scheme
    \<Rightarrow> ((nat \<times> u32) option \<times> 'a fsys_scheme) res" where
  "dirlookup_loop devsw dp name [] s = Inr (None, s)"
| "dirlookup_loop devsw dp name (off # offs) s =
     bnd (read_dirent ''dirlookup read'' devsw dp off s) (\<lambda>(de, s).
       if de_inum de \<noteq> 0 \<and> namecmp name (de_name de) = 0
       then bnd (iget (i_dev (icache s ! dp)) (ucast (de_inum de)) s) (\<lambda>(ip, s). Inr (Some (ip, of_nat off), s))
       else dirlookup_loop devsw dp name offs s)"

definition dirlookup :: "(nat \<Rightarrow> 'a fsys_scheme devsw) \<Rightarrow> nat \<Rightarrow> u8 list \<Rightarrow> 'a fsys_scheme
    \<Rightarrow> ((nat \<times> u32) option \<times> 'a fsys_scheme) res" where
  "dirlookup devsw dp name s =
     (if i_type (icache s ! dp) \<noteq> T_DIR then Inl (Panic ''dirlookup not DIR'')
      else dirlookup_loop devsw dp name (dirent_offsets (i_size (icache s ! dp))) s)"

text \<open>The offset of the first empty entry, or the one after the last.\<close>

fun empty_dirent :: "(nat \<Rightarrow> 'a fsys_scheme devsw) \<Rightarrow> nat \<Rightarrow> nat list \<Rightarrow> nat \<Rightarrow> 'a fsys_scheme
    \<Rightarrow> (nat \<times> 'a fsys_scheme) res" where
  "empty_dirent devsw dp [] after s = Inr (after, s)"
| "empty_dirent devsw dp (off # offs) after s =
     bnd (read_dirent ''dirlink read'' devsw dp off s) (\<lambda>(de, s).
       if de_inum de = 0 then Inr (off, s) else empty_dirent devsw dp offs (off + DIRENT_SIZE) s)"

definition dirlink :: "(nat \<Rightarrow> 'a fsys_scheme devsw) \<Rightarrow> nat \<Rightarrow> u8 list \<Rightarrow> u32 \<Rightarrow> 'a fsys_scheme
    \<Rightarrow> (int \<times> 'a fsys_scheme) res" where
  "dirlink devsw dp name inum s =
     bnd (dirlookup devsw dp name s) (\<lambda>(found, s).
       case found of
         Some (ip, _) \<Rightarrow> bnd (iput ip s) (\<lambda>s. Inr (-1, s))
       | None \<Rightarrow>
           bnd (empty_dirent devsw dp (dirent_offsets (i_size (icache s ! dp))) 0 s) (\<lambda>(off, s).
           bnd (writei devsw dp (bytes_of_dirent \<lparr>de_inum = ucast inum, de_name = strncpy0 DIRSIZ name\<rparr>) (of_nat off) s)
             (\<lambda>(r, s). if r \<noteq> int DIRENT_SIZE then Inl (Panic ''dirlink'') else Inr (0, s))))"

section \<open>Paths\<close>

definition slash :: u8 where "slash = 47"

definition skipelem :: "u8 list \<Rightarrow> u8 list \<Rightarrow> (u8 list \<times> u8 list) option" where
  "skipelem path name =
     (let path = dropWhile (\<lambda>c. c = slash) path
      in if chr0 path = 0 then None
         else let s = takeWhile (\<lambda>c. c \<noteq> slash \<and> c \<noteq> 0) path; path = drop (length s) path; len = length s;
                  name = (if len \<ge> DIRSIZ then overwrite name 0 (take DIRSIZ s) else overwrite name 0 (s @ [0]))
           in Some (dropWhile (\<lambda>c. c = slash) path, name))"

lemma skipelem_shorter:
  assumes "skipelem path name = Some (path', name')"
  shows "length path' < length path"
proof -
  let ?p = "dropWhile (\<lambda>c. c = slash) path" and ?s = "takeWhile (\<lambda>c. c \<noteq> slash \<and> c \<noteq> 0)"
  have ne: "chr0 ?p \<noteq> 0" and p': "path' = dropWhile (\<lambda>c. c = slash) (drop (length (?s ?p)) ?p)"
    using assms by (auto simp: skipelem_def Let_def split: if_splits)
  then obtain c r where c: "?p = c # r" by (cases ?p) (auto simp: chr0_def)
  then have "c \<noteq> slash" using hd_dropWhile [of "\<lambda>c. c = slash" path] by auto
  then have pos: "0 < length (?s ?p)" using c ne by (simp add: chr0_def)
  have "length path' \<le> length ?p - length (?s ?p)"
    using p' length_dropWhile_le [of "\<lambda>c. c = slash" "drop (length (?s ?p)) ?p"] by (simp only: length_drop)
  moreover have "0 < length ?p" using c by simp
  ultimately have "length path' < length ?p" using pos by linarith
  then show ?thesis using length_dropWhile_le [of "\<lambda>c. c = slash" path] by linarith
qed

function namex_loop :: "(nat \<Rightarrow> 'a fsys_scheme devsw) \<Rightarrow> bool \<Rightarrow> nat \<Rightarrow> u8 list \<Rightarrow> u8 list \<Rightarrow> 'a fsys_scheme
    \<Rightarrow> (nat option \<times> u8 list \<times> 'a fsys_scheme) res" where
  "namex_loop devsw parent ip path name s =
     (case skipelem path name of
        None \<Rightarrow> if parent then bnd (iput ip s) (\<lambda>s. Inr (None, name, s)) else Inr (Some ip, name, s)
      | Some (path, name) \<Rightarrow>
          bnd (ilock ip s) (\<lambda>s.
            if i_type (icache s ! ip) \<noteq> T_DIR then bnd (iunlockput ip s) (\<lambda>s. Inr (None, name, s))
            else if parent \<and> chr0 path = 0 then bnd (iunlock ip s) (\<lambda>s. Inr (Some ip, name, s))
            else bnd (dirlookup devsw ip name s) (\<lambda>(found, s).
                 bnd (iunlockput ip s) (\<lambda>s.
                   case found of None \<Rightarrow> Inr (None, name, s)
                   | Some (next, _) \<Rightarrow> namex_loop devsw parent next path name s))))"
  by pat_completeness auto
termination
  by (relation "measure (\<lambda>(devsw, parent, ip, path, name, s). length path)") (auto dest: skipelem_shorter)

declare namex_loop.simps [simp del]

definition namex :: "(nat \<Rightarrow> 'a fsys_scheme devsw) \<Rightarrow> nat \<Rightarrow> u8 list \<Rightarrow> bool \<Rightarrow> u8 list \<Rightarrow> 'a fsys_scheme
    \<Rightarrow> (nat option \<times> u8 list \<times> 'a fsys_scheme) res" where
  "namex devsw cwd path parent name s =
     (if chr0 path = slash
      then bnd (iget ROOTDEV ROOTINO s) (\<lambda>(ip, s). namex_loop devsw parent ip path name s)
      else namex_loop devsw parent cwd path name (idup cwd s))"

definition namei :: "(nat \<Rightarrow> 'a fsys_scheme devsw) \<Rightarrow> nat \<Rightarrow> u8 list \<Rightarrow> 'a fsys_scheme
    \<Rightarrow> (nat option \<times> 'a fsys_scheme) res" where
  "namei devsw cwd path s =
     bnd (namex devsw cwd path False (replicate DIRSIZ 0) s) (\<lambda>(ip, _, s). Inr (ip, s))"

definition nameiparent :: "(nat \<Rightarrow> 'a fsys_scheme devsw) \<Rightarrow> nat \<Rightarrow> u8 list \<Rightarrow> u8 list \<Rightarrow> 'a fsys_scheme
    \<Rightarrow> (nat option \<times> u8 list \<times> 'a fsys_scheme) res" where
  "nameiparent devsw cwd path name s = namex devsw cwd path True name s"

end
