(* ===== verification/Fsblock.thy ===== *)
theory Fsblock
  imports Fs
begin

text \<open>
  The block allocator inside a transaction. \<open>txn s a V H bs\<close> is the view that the file system has
  of the layers below it: the blocks of the disk are \<open>V\<close>, the blocks \<open>H\<close> are held, and the
  transaction has logged the blocks \<open>bs\<close> so far.
\<close>

section \<open>The view of a transaction\<close>

definition txn :: "'a logsys_scheme \<Rightarrow> nat \<Rightarrow> (u32 \<Rightarrow> block) \<Rightarrow> (u32 \<Rightarrow> nat option) \<Rightarrow> u32 list \<Rightarrow> bool" where
  "txn s a V H bs \<longleftrightarrow> cache s V H (set bs) \<and> logged s a bs \<and> l_size (lg s) = int LOGSIZE
     \<and> 0 < l_outstanding (lg s) \<and> finite (dom H) \<and> (\<forall>n. n \<notin> set bs \<longrightarrow> V n = disk s 1 n)"

text \<open>There is room for \<open>k\<close> more blocks in the log and in the cache.\<close>

definition room :: "nat \<Rightarrow> (u32 \<Rightarrow> nat option) \<Rightarrow> u32 list \<Rightarrow> bool" where
  "room k H bs \<longleftrightarrow> length bs + card (dom H) + k < LOGSIZE"

lemma room_mono: "room k H bs \<Longrightarrow> j \<le> k \<Longrightarrow> room j H bs"
  by (simp add: room_def)

lemma room_add: "room (Suc k) H bs \<Longrightarrow> room k H (add_block n bs)"
  by (simp add: room_def add_block_def)

lemma room_hold: "room (Suc k) H bs \<Longrightarrow> finite (dom H) \<Longrightarrow> room k (H(n \<mapsto> i)) bs"
  using card_insert_le_m1 [of "Suc (card (dom H))" "dom H" n] by (auto simp: room_def card_insert_if)

lemma more_logsys: "bio.more s' = bio.more s \<Longrightarrow> logsys.more s' = logsys.more s"
  by (cases s; cases s') simp

lemma more_upd [simp]: "logsys.more (upd_log f s) = logsys.more s" "logsys.more (upd_buf i g s) = logsys.more s"
  "logsys.more (set_data i d s) = logsys.more s"
  by (simp_all add: upd_log_def upd_buf_def set_data_def)

lemma log_write_more: "log_write b s = Inr s' \<Longrightarrow> logsys.more s' = logsys.more s"
  by (auto simp: log_write_def Let_def split: if_splits)

lemma txn_bread:
  assumes t: "txn s a V H bs" and n: "H n = None" "n < FSSIZE" and r: "room 0 H bs"
  shows "\<exists>i s'. bread 1 n s = Inr (i, s') \<and> txn s' a V (H(n \<mapsto> i)) bs \<and> buf_data i s' = V n
    \<and> logsys.more s' = logsys.more s"
proof -
  have c: "cache s V H (set bs)" "finite (dom H)" using t by (simp_all add: txn_def)
  have "card (dom H \<union> set bs) \<le> card (dom H) + length bs"
    using card_Un_le [of "dom H" "set bs"] card_length [of bs] by linarith
  then have "card (dom H \<union> set bs) < NBUF" using r by (simp add: room_def LOGSIZE_def NBUF_def)
  then obtain i s' where "bread 1 n s = Inr (i, s')" "cache s' V (H(n \<mapsto> i)) (set bs)" "buf_data i s' = V n"
    "disk s' = disk s" "bio.more s' = bio.more s"
    using cache_bread [OF c(1) n] c(2) by auto
  then show ?thesis
    using t logged_more [of s' s] more_lg [of s' s] more_logsys [of s' s] by (simp add: txn_def)
qed

lemma txn_brelse:
  assumes t: "txn s a V H bs" and n: "H n = Some i"
  shows "\<exists>s'. brelse i s = Inr s' \<and> txn s' a V (H(n := None)) bs \<and> logsys.more s' = logsys.more s"
proof -
  have c: "cache s V H (set bs)" "n \<in> set bs \<or> V n = disk s 1 n" using t by (auto simp: txn_def)
  obtain s' where "brelse i s = Inr s'" "cache s' V (H(n := None)) (set bs)" "disk s' = disk s" "bio.more s' = bio.more s"
    using cache_brelse [OF c(1) n c(2)] by blast
  then show ?thesis
    using t logged_more [of s' s] more_lg [of s' s] more_logsys [of s' s] by (simp add: txn_def)
qed

lemma txn_held: "txn s a V H bs \<Longrightarrow> H n = Some i \<Longrightarrow> buf_data i s = V n"
  using cache_held [of s V H "set bs" n i] by (simp add: txn_def buf_data_def)

lemma txn_log_write:
  assumes t: "txn s a V H bs" and n: "H n = Some i" "n < FSSIZE" "n \<notin> log_area a" and r: "room 0 H bs"
  shows "\<exists>s'. log_write i (set_data i d s) = Inr s' \<and> txn s' a (V(n := d)) H (add_block n bs)
    \<and> logsys.more s' = logsys.more s"
proof -
  let ?s = "set_data i d s"
  have tt: "cache s V H (set bs)" "logged s a bs" "l_size (lg s) = int LOGSIZE" "0 < l_outstanding (lg s)" "finite (dom H)"
    using t by (simp_all add: txn_def)
  have m: "bio.more ?s = bio.more s" "disk ?s = disk s" by (simp_all add: set_data_def)
  have "0 < card (dom H)" using n(1) tt(5) by (auto simp: card_gt_0_iff)
  then have r': "length bs + 1 < LOGSIZE" "int (length bs) < l_size (lg ?s) - 1" "0 < l_outstanding (lg ?s)"
    using r tt more_lg [OF m(1)] by (simp_all add: room_def)
  obtain s' where s': "log_write i ?s = Inr s'" "cache s' (V(n := d)) H (insert n (set bs))" "logged s' a (add_block n bs)"
    "disk s' = disk s" "l_outstanding (lg s') = l_outstanding (lg s)" "l_size (lg s') = l_size (lg s)"
    using log_write_run [OF cache_set_data(1) [OF tt(1) n(1), of d] n(1) _ n(2,3) r'] tt(2)
      logged_more [OF m(1)] more_lg [OF m(1)] m(2) by auto
  then show ?thesis using t log_write_more [OF s'(1)] by (auto simp: txn_def)
qed

lemma txn_update:
  assumes t: "txn s a V H bs" and n: "H n = None" "n < FSSIZE" "n \<notin> log_area a" and r: "room 1 H bs"
  shows "\<exists>s'. update_block 1 n f s = Inr s' \<and> txn s' a (V(n := f (V n))) H (add_block n bs)
    \<and> logsys.more s' = logsys.more s"
proof -
  have fin: "finite (dom H)" using t by (simp add: txn_def)
  obtain i s1 where s1: "bread 1 n s = Inr (i, s1)" "txn s1 a V (H(n \<mapsto> i)) bs" "buf_data i s1 = V n"
    "logsys.more s1 = logsys.more s"
    using txn_bread [OF t n(1,2) room_mono [OF r]] by auto
  have "room 0 (H(n \<mapsto> i)) bs" using room_hold [OF _ fin] r by simp
  then obtain s2 where s2: "log_write i (set_data i (f (V n)) s1) = Inr s2"
    "txn s2 a (V(n := f (V n))) (H(n \<mapsto> i)) (add_block n bs)" "logsys.more s2 = logsys.more s1"
    using txn_log_write [OF s1(2) _ n(2,3), of i "f (V n)"] by auto
  have "(H(n \<mapsto> i))(n := None) = H" using n(1) by auto
  then obtain s3 where "brelse i s2 = Inr s3" "txn s3 a (V(n := f (V n))) H (add_block n bs)" "logsys.more s3 = logsys.more s2"
    using txn_brelse [OF s2(2), of n i] by auto
  then show ?thesis using s1 s2 by (simp add: update_block_def)
qed

lemma txn_readsb:
  assumes t: "txn s a V H bs" and n: "H 1 = None" and r: "room 0 H bs"
  shows "\<exists>s'. readsb 1 s = Inr (sb_of_block (V 1), s') \<and> txn s' a V H bs \<and> logsys.more s' = logsys.more s"
proof -
  obtain i s1 where s1: "bread 1 1 s = Inr (i, s1)" "txn s1 a V (H(1 \<mapsto> i)) bs" "buf_data i s1 = V 1"
    "logsys.more s1 = logsys.more s"
    using txn_bread [OF t n _ r] by (auto simp: FSSIZE_def)
  have "(H(1 \<mapsto> i))(1 := None) = H" using n by auto
  then obtain s2 where "brelse i s1 = Inr s2" "txn s2 a V H bs" "logsys.more s2 = logsys.more s1"
    using txn_brelse [OF s1(2), of 1 i] by auto
  then show ?thesis using s1 by (simp add: readsb_def)
qed

section \<open>The free map\<close>

lemma bit_mask_bit: "bit (bit_mask bi) k \<longleftrightarrow> k = bi mod 8"
proof -
  have "bi mod 8 < 8" by simp
  then show ?thesis unfolding bit_mask_def by (auto simp: bit_exp_iff)
qed

lemma bit_free_iff: "bit_free d bi \<longleftrightarrow> \<not> bit (d ! (bi div 8)) (bi mod 8)"
proof
  assume "bit_free d bi"
  then have "bit ((d ! (bi div 8)) AND bit_mask bi) (bi mod 8) = bit (0 :: u8) (bi mod 8)" by (simp add: bit_free_def)
  then show "\<not> bit (d ! (bi div 8)) (bi mod 8)" by (simp add: bit_and_iff bit_mask_bit)
next
  assume "\<not> bit (d ! (bi div 8)) (bi mod 8)"
  then show "bit_free d bi" unfolding bit_free_def by (intro bit_word_eqI) (auto simp: bit_and_iff bit_mask_bit)
qed

lemma length_mark [simp]: "length (mark_used bi d) = length d" "length (mark_free bi d) = length d"
  by (simp_all add: mark_used_def mark_free_def)

lemma same_bit: "(bi :: nat) div 8 = bj div 8 \<Longrightarrow> bi mod 8 = bj mod 8 \<Longrightarrow> bi = bj"
  by (metis div_mult_mod_eq)

lemma bit_free_mark_used:
  assumes "bi < 8 * length d"
  shows "bit_free (mark_used bi d) bj \<longleftrightarrow> bj \<noteq> bi \<and> bit_free d bj"
proof -
  have "bi div 8 < length d" using assms by simp
  then show ?thesis
    using same_bit [of bi bj]
    by (cases "bi div 8 = bj div 8") (auto simp: bit_free_iff mark_used_def bit_or_iff bit_mask_bit)
qed

lemma bit_free_mark_free:
  assumes "bi < 8 * length d"
  shows "bit_free (mark_free bi d) bj \<longleftrightarrow> bj = bi \<or> bit_free d bj"
proof -
  have "bi div 8 < length d" using assms by simp
  moreover have "bj mod 8 < 8" by simp
  ultimately show ?thesis
    using same_bit [of bi bj]
    by (cases "bi div 8 = bj div 8") (auto simp: bit_free_iff mark_free_def bit_and_iff bit_not_iff bit_mask_bit)
qed

lemma mark_free_mark_used:
  assumes "bi < 8 * length d" and "bit_free d bi"
  shows "mark_free bi (mark_used bi d) = d"
proof -
  let ?c = "d ! (bi div 8)"
  have lt: "bi div 8 < length d" using assms(1) by simp
  have "(?c OR bit_mask bi) AND NOT (bit_mask bi) = ?c"
    by (rule bit_word_eqI) (use assms(2) in \<open>auto simp: bit_free_iff bit_and_iff bit_or_iff bit_not_iff bit_mask_bit\<close>)
  then show ?thesis using lt by (simp add: mark_free_def mark_used_def)
qed

text \<open>The first clear bit below \<open>n\<close>.\<close>

definition first_free :: "block \<Rightarrow> nat \<Rightarrow> nat option" where
  "first_free d n = List.find (bit_free d) [0..<n]"

lemma first_free_Some: "first_free d n = Some b \<Longrightarrow> b < n \<and> bit_free d b \<and> (\<forall>j<b. \<not> bit_free d j)"
  by (auto simp: first_free_def find_Some_iff)

lemma first_free_None: "first_free d n = None \<longleftrightarrow> (\<forall>j<n. \<not> bit_free d j)"
  by (auto simp: first_free_def find_None_iff)

section \<open>Allocating and freeing blocks\<close>

text \<open>
  A disk whose super block is \<open>S\<close> and whose log starts at \<open>a\<close>: its size is at most \<^verbatim>\<open>FSSIZE\<close>, so
  that one block holds the free map. The blocks that are never data: the boot and super blocks,
  the log, the inodes and the free map.
\<close>

definition geometry :: "superblock \<Rightarrow> nat \<Rightarrow> bool" where
  "geometry S a \<longleftrightarrow> 0 < sb_size S \<and> sb_size S \<le> FSSIZE \<and> sb_bmapstart S < sb_size S \<and> sb_bmapstart S \<notin> log_area a
     \<and> 1 < sb_inodestart S \<and> sb_inodestart S \<le> sb_bmapstart S \<and> 1 \<notin> log_area a"

definition meta :: "superblock \<Rightarrow> nat \<Rightarrow> u32 set" where
  "meta S a = {0, 1} \<union> log_area a \<union> {b. sb_inodestart S \<le> b \<and> b \<le> sb_bmapstart S}"

definition used :: "superblock \<Rightarrow> (u32 \<Rightarrow> block) \<Rightarrow> u32 \<Rightarrow> bool" where
  "used S V b \<longleftrightarrow> \<not> bit_free (V (sb_bmapstart S)) (unat b)"

definition bitmap_ok :: "superblock \<Rightarrow> nat \<Rightarrow> (u32 \<Rightarrow> block) \<Rightarrow> bool" where
  "bitmap_ok S a V \<longleftrightarrow> geometry S a \<and> length (V (sb_bmapstart S)) = BSIZE \<and> sb_of_block (V 1) = S
     \<and> (\<forall>b\<in>meta S a. b < sb_size S \<longrightarrow> used S V b)"

lemma more_fsys: "logsys.more s' = logsys.more s \<Longrightarrow> sb s' = sb s \<and> icache s' = icache s"
  by (cases s; cases s') simp

lemma size_nat: "geometry S a \<Longrightarrow> unat (sb_size S) \<le> 1000"
  by (simp add: geometry_def word_le_nat_alt FSSIZE_def)

lemma one_bitmap_block: "geometry S a \<Longrightarrow> bitmap_starts (sb_size S) = [0]"
  "geometry S a \<Longrightarrow> b < sb_size S \<Longrightarrow> BBLOCK b S = sb_bmapstart S"
proof -
  assume g: "geometry S a"
  then have "0 < unat (sb_size S)" using word_less_nat_alt [of 0 "sb_size S"] by (simp add: geometry_def)
  then have "(unat (sb_size S) + BPB - 1) div BPB = 1"
    using size_nat [OF g] by (intro div_nat_eqI) (simp_all add: BPB_def)
  then show "bitmap_starts (sb_size S) = [0]" by (simp add: bitmap_starts_def)
  assume "b < sb_size S"
  then have "unat b < 4096" using size_nat [OF g] by (simp add: word_less_nat_alt)
  then have "b div 4096 = 0" by (simp add: word_arith_nat_div)
  then show "BBLOCK b S = sb_bmapstart S" by (simp add: BBLOCK_def BPB_def)
qed

lemma bmap_block:
  assumes "bitmap_ok S a V"
  shows "sb_bmapstart S < FSSIZE" "sb_bmapstart S \<notin> log_area a" "sb_bmapstart S \<noteq> 1" "sb_bmapstart S \<noteq> 0"
    "sb_bmapstart S \<in> meta S a"
  using assms by (auto simp: bitmap_ok_def geometry_def meta_def)

lemma free_not_meta:
  assumes "bitmap_ok S a V" and "first_free (V (sb_bmapstart S)) (unat (sb_size S)) = Some b"
  shows "(of_nat b :: u32) < sb_size S" "unat (of_nat b :: u32) = b" "\<not> used S V (of_nat b)" "of_nat b \<notin> meta S a"
    "b < 8 * BSIZE"
proof -
  note f = first_free_Some [OF assms(2)]
  have g: "geometry S a" using assms(1) by (simp add: bitmap_ok_def)
  show u: "unat (of_nat b :: u32) = b" by (rule unat_of_nat_u32) (use f size_nat [OF g] in simp)
  then show lt: "(of_nat b :: u32) < sb_size S" using f by (simp add: word_less_nat_alt)
  show nu: "\<not> used S V (of_nat b)" using f u by (simp add: used_def)
  then show "of_nat b \<notin> meta S a" using assms(1) lt by (auto simp: bitmap_ok_def)
  show "b < 8 * BSIZE" using f size_nat [OF g] by (simp add: BSIZE_def)
qed

lemma balloc_run:
  fixes s :: "'a fsys_scheme"
  assumes t: "txn s a V H bs" and S: "sb s = S" and ok: "bitmap_ok S a V" and m: "m = sb_bmapstart S"
    and f: "first_free (V m) (unat (sb_size S)) = Some b"
    and H: "H m = None" "H (of_nat b) = None" and r: "room 2 H bs"
  shows "\<exists>s'. balloc 1 s = Inr (of_nat b, s')
    \<and> txn s' a (V(m := mark_used b (V m), of_nat b := replicate BSIZE 0)) H (add_block (of_nat b) (add_block m bs))
    \<and> logsys.more s' = logsys.more s"
proof -
  note bm = bmap_block [OF ok, folded m] and fr = free_not_meta [OF ok f [unfolded m]]
  have g: "geometry S a" and fin: "finite (dom H)" using ok t by (simp_all add: bitmap_ok_def txn_def)
  have bm2: "of_nat b \<noteq> m" "(of_nat b :: u32) \<notin> log_area a" "(of_nat b :: u32) < FSSIZE"
    using fr bm(5) g by (auto simp: meta_def geometry_def)
  obtain i s1 where s1: "bread 1 m s = Inr (i, s1)" "txn s1 a V (H(m \<mapsto> i)) bs" "buf_data i s1 = V m"
    "logsys.more s1 = logsys.more s"
    using txn_bread [OF t H(1) bm(1)] room_mono [OF r] by auto
  have "room 0 (H(m \<mapsto> i)) bs" using room_hold [OF _ fin] room_mono [OF r, of 1] by simp
  then obtain s2 where s2: "log_write i (set_data i (mark_used b (V m)) s1) = Inr s2"
    "txn s2 a (V(m := mark_used b (V m))) (H(m \<mapsto> i)) (add_block m bs)" "logsys.more s2 = logsys.more s1"
    using txn_log_write [OF s1(2) _ bm(1,2), of i "mark_used b (V m)"] by auto
  have "(H(m \<mapsto> i))(m := None) = H" using H(1) by auto
  then obtain s3 where s3: "brelse i s2 = Inr s3" "txn s3 a (V(m := mark_used b (V m))) H (add_block m bs)"
    "logsys.more s3 = logsys.more s2"
    using txn_brelse [OF s2(2), of m i] by auto
  have "room 1 H (add_block m bs)" using room_add r by (simp add: numeral_2_eq_2)
  then obtain s4 where s4: "bzero 1 (of_nat b) s3 = Inr s4" "logsys.more s4 = logsys.more s3"
    "txn s4 a (V(m := mark_used b (V m), of_nat b := replicate BSIZE 0)) H (add_block (of_nat b) (add_block m bs))"
    using txn_update [OF s3(2) H(2) bm2(3,2), of "\<lambda>_. replicate BSIZE 0"] by (auto simp: bzero_def)
  have "sb s1 = S" using more_fsys [OF s1(4)] S by simp
  moreover have "min BPB (unat (sb_size S) - 0) = unat (sb_size S)" using size_nat [OF g] by (simp add: BPB_def)
  moreover have "BBLOCK (of_nat 0) S = m" using one_bitmap_block(2) [OF g, of 0] g m by (simp add: geometry_def)
  ultimately have "balloc 1 s = Inr (of_nat b, s4)"
    using s1 s2 s3 s4 f by (simp add: balloc_def S one_bitmap_block(1) [OF g] first_free_def)
  then show ?thesis using s1 s2 s3 s4 by auto
qed

lemma balloc_full:
  fixes s :: "'a fsys_scheme"
  assumes t: "txn s a V H bs" and S: "sb s = S" and ok: "bitmap_ok S a V"
    and f: "first_free (V (sb_bmapstart S)) (unat (sb_size S)) = None"
    and H: "H (sb_bmapstart S) = None" and r: "room 0 H bs"
  shows "balloc 1 s = Inl (Panic ''balloc: out of blocks'')"
proof -
  let ?m = "sb_bmapstart S"
  note bm = bmap_block [OF ok]
  have g: "geometry S a" using ok by (simp add: bitmap_ok_def)
  obtain i s1 where s1: "bread 1 ?m s = Inr (i, s1)" "txn s1 a V (H(?m \<mapsto> i)) bs" "buf_data i s1 = V ?m"
    "logsys.more s1 = logsys.more s"
    using txn_bread [OF t H bm(1) r] by auto
  obtain s2 where s2: "brelse i s1 = Inr s2" using txn_brelse [OF s1(2), of ?m i] by auto
  have "sb s1 = S" using more_fsys [OF s1(4)] S by simp
  moreover have "min BPB (unat (sb_size S) - 0) = unat (sb_size S)" using size_nat [OF g] by (simp add: BPB_def)
  moreover have "BBLOCK (of_nat 0) S = ?m" using one_bitmap_block(2) [OF g, of 0] g by (simp add: geometry_def)
  ultimately show ?thesis
    using s1 s2 f by (simp add: balloc_def S one_bitmap_block(1) [OF g] first_free_def)
qed

lemma bfree_run:
  fixes s :: "'a fsys_scheme"
  assumes t: "txn s a V H bs" and ok: "bitmap_ok S a V" and m: "m = sb_bmapstart S"
    and b: "b < sb_size S" and H: "H m = None" "H 1 = None" and r: "room 1 H bs"
  shows "used S V b \<Longrightarrow> \<exists>s'. bfree 1 b s = Inr s' \<and> txn s' a (V(m := mark_free (unat b) (V m))) H (add_block m bs)
      \<and> sb s' = S \<and> icache s' = icache s"
    "\<not> used S V b \<Longrightarrow> bfree 1 b s = Inl (Panic ''freeing free block'')"
proof -
  note bm = bmap_block [OF ok, folded m]
  have g: "geometry S a" and fin: "finite (dom H)" and S: "sb_of_block (V 1) = S"
    using ok t by (simp_all add: bitmap_ok_def txn_def)
  obtain s1 where s1: "readsb 1 s = Inr (S, s1)" "txn s1 a V H bs" "logsys.more s1 = logsys.more s"
    using txn_readsb [OF t H(2) room_mono [OF r]] S by auto
  let ?s = "s1\<lparr>sb := S\<rparr>"
  have t': "txn ?s a V H bs" using s1(2) by (simp add: txn_def cache_def has_block_def logged_def)
  obtain i s2 where s2: "bread 1 m ?s = Inr (i, s2)" "txn s2 a V (H(m \<mapsto> i)) bs" "buf_data i s2 = V m"
    "logsys.more s2 = logsys.more ?s"
    using txn_bread [OF t' H(1) bm(1) room_mono [OF r]] by auto
  have bi: "unat b mod BPB = unat b" "BBLOCK b S = m"
    using one_bitmap_block(2) [OF g b] b size_nat [OF g] m by (simp_all add: BPB_def word_less_nat_alt)
  show "bfree 1 b s = Inl (Panic ''freeing free block'')" if "\<not> used S V b"
    using s1 s2 bi that m by (simp add: bfree_def Let_def used_def)
  assume u: "used S V b"
  have "room 0 (H(m \<mapsto> i)) bs" using room_hold [OF _ fin] r by simp
  then obtain s3 where s3: "log_write i (set_data i (mark_free (unat b) (V m)) s2) = Inr s3"
    "txn s3 a (V(m := mark_free (unat b) (V m))) (H(m \<mapsto> i)) (add_block m bs)" "logsys.more s3 = logsys.more s2"
    using txn_log_write [OF s2(2) _ bm(1,2), of i "mark_free (unat b) (V m)"] by auto
  have "(H(m \<mapsto> i))(m := None) = H" using H(1) by auto
  then obtain s4 where s4: "brelse i s3 = Inr s4" "txn s4 a (V(m := mark_free (unat b) (V m))) H (add_block m bs)"
    "logsys.more s4 = logsys.more s3"
    using txn_brelse [OF s3(2), of m i] by auto
  then show "\<exists>s'. bfree 1 b s = Inr s' \<and> txn s' a (V(m := mark_free (unat b) (V m))) H (add_block m bs)
      \<and> sb s' = S \<and> icache s' = icache s"
    using s1 s2 s3 bi u m more_fsys [of s4 ?s] more_fsys [of s1 s] by (simp add: bfree_def Let_def used_def)
qed

text \<open>
  C15. The block allocator. In a transaction on a disk whose metadata blocks are all marked in use,
  \<^verbatim>\<open>balloc\<close> returns the lowest free block; it is not a metadata block, it is marked and zeroed, and
  no other block changes. \<^verbatim>\<open>bfree\<close> of that block restores the free map bit for bit, and freeing it
  a second time panics. With no free block \<^verbatim>\<open>balloc\<close> panics.
\<close>

theorem balloc_bfree:
  fixes s :: "'a fsys_scheme"
  assumes "txn s a V Map.empty bs" and "bitmap_ok (sb s) a V" and "length bs + 3 < LOGSIZE"
  shows "case first_free (V (sb_bmapstart (sb s))) (unat (sb_size (sb s))) of
      None \<Rightarrow> balloc 1 s = Inl (Panic ''balloc: out of blocks'')
    | Some b \<Rightarrow> of_nat b \<notin> meta (sb s) a \<and> (\<exists>s1 s2 bs1 bs2. let m = sb_bmapstart (sb s) in
          balloc 1 s = Inr (of_nat b, s1)
        \<and> txn s1 a (V(m := mark_used b (V m), of_nat b := replicate BSIZE 0)) Map.empty bs1
        \<and> bfree 1 (of_nat b) s1 = Inr s2 \<and> txn s2 a (V(of_nat b := replicate BSIZE 0)) Map.empty bs2
        \<and> bfree 1 (of_nat b) s2 = Inl (Panic ''freeing free block''))"
proof (cases "first_free (V (sb_bmapstart (sb s))) (unat (sb_size (sb s)))")
  case None
  then show ?thesis using balloc_full [OF assms(1) refl assms(2) None] assms(3) by (simp add: room_def)
next
  case (Some b)
  let ?S = "sb s" and ?m = "sb_bmapstart (sb s)" and ?b = "of_nat b :: u32"
  note fr = free_not_meta [OF assms(2) Some] and bm = bmap_block [OF assms(2)]
  have ne: "?b \<noteq> ?m" "?b \<noteq> 1" "?m \<noteq> 1" using fr(4) bm(3,5) by (auto simp: meta_def)
  have len: "length (V ?m) = BSIZE" and used: "\<forall>x\<in>meta ?S a. x < sb_size ?S \<longrightarrow> used ?S V x"
    using assms(2) by (simp_all add: bitmap_ok_def)
  let ?V1 = "V(?m := mark_used b (V ?m), ?b := replicate BSIZE 0)"
  have "room 2 Map.empty bs" using assms(3) by (simp add: room_def)
  then obtain s1 where s1: "balloc 1 s = Inr (?b, s1)" "logsys.more s1 = logsys.more s"
    and t1: "txn s1 a ?V1 Map.empty (add_block ?b (add_block ?m bs))"
    using balloc_run [OF assms(1) refl assms(2) refl Some] by auto
  have bits: "bit_free (mark_used b (V ?m)) j \<longleftrightarrow> j \<noteq> b \<and> bit_free (V ?m) j" for j
    using bit_free_mark_used [of b "V ?m"] fr(5) len by simp
  have ok1: "bitmap_ok ?S a ?V1" and u1: "used ?S ?V1 ?b"
    using assms(2) ne used bits fr(2) by (auto simp: bitmap_ok_def used_def)
  have V2: "?V1(?m := mark_free (unat ?b) (?V1 ?m)) = V(?b := replicate BSIZE 0)"
    using mark_free_mark_used [of b "V ?m"] fr(2,5) first_free_Some [OF Some] len ne by auto
  have r1: "room 1 Map.empty (add_block ?b (add_block ?m bs))" using assms(3) by (auto simp: room_def add_block_def)
  then obtain s2 where s2: "bfree 1 ?b s1 = Inr s2" "sb s2 = ?S"
    and t2: "txn s2 a (V(?b := replicate BSIZE 0)) Map.empty (add_block ?m (add_block ?b (add_block ?m bs)))"
    using bfree_run(1) [OF t1 ok1 refl fr(1)] u1 unfolding V2 by auto
  have "bitmap_ok ?S a (V(?b := replicate BSIZE 0))" "\<not> used ?S (V(?b := replicate BSIZE 0)) ?b"
    using assms(2) ne fr(3) by (auto simp: bitmap_ok_def used_def)
  moreover have "room 1 Map.empty (add_block ?m (add_block ?b (add_block ?m bs)))" using r1 by (simp add: room_def add_block_def)
  ultimately have "bfree 1 ?b s2 = Inl (Panic ''freeing free block'')"
    using bfree_run(2) [OF t2 _ refl fr(1)] by simp
  then show ?thesis using Some s1 s2 t1 t2 fr(4) unfolding Let_def by (simp only: option.case) blast
qed

text \<open>A small disk: the log in blocks 2 to 31, inodes from 32, the free map in block 58, data from 59 to 99.\<close>

definition demo_sb :: superblock where
  "demo_sb = \<lparr>sb_size = 100, sb_nblocks = 41, sb_ninodes = 200, sb_nlog = 30, sb_logstart = 2, sb_inodestart = 32,
     sb_bmapstart = 58\<rparr>"

definition demo_sb_block :: block where
  "demo_sb_block = put32 (put32 (put32 (put32 (put32 (put32 (put32 (replicate BSIZE 0) 0 100) 4 41) 8 200) 12 30) 16 2) 20 32) 24 58"

definition demo_bitmap :: block where
  "demo_bitmap = replicate 7 255 @ [7] @ replicate 504 0"

definition demo_blocks :: "u32 \<Rightarrow> block" where
  "demo_blocks = (\<lambda>_. replicate BSIZE 0)(1 := demo_sb_block, 58 := demo_bitmap)"

definition demo_inode :: inode where
  "demo_inode = \<lparr>i_dev = 0, i_inum = 0, i_ref = 0, i_lock = initsleeplock, i_valid = False, i_type = 0, i_major = 0,
     i_minor = 0, i_nlink = 0, i_size = 0, i_addrs = replicate 13 0\<rparr>"

definition demo_fs :: fsys where
  "demo_fs = binit \<lparr>bufs = [], mru = [], idequeue = [], havedisk1 = True, disk = (\<lambda>_. demo_blocks), written = [],
     cur_pid = 1, lg = zero_log\<lparr>l_start := 2, l_size := int LOGSIZE, l_dev := 1, l_outstanding := 1\<rparr>,
     sb = demo_sb, icache = replicate NINODE demo_inode\<rparr>"

lemma demo_fs_txn: "txn demo_fs 2 demo_blocks Map.empty []"
proof -
  have "cache demo_fs demo_blocks Map.empty {}"
    unfolding demo_fs_def
    using binit_cache [of "\<lparr>bufs = [], mru = [], idequeue = [], havedisk1 = True, disk = (\<lambda>_. demo_blocks), written = [],
     cur_pid = 1, lg = zero_log\<lparr>l_start := 2, l_size := int LOGSIZE, l_dev := 1, l_outstanding := 1\<rparr>,
     sb = demo_sb, icache = replicate NINODE demo_inode\<rparr>"] by simp
  then show ?thesis
    by (simp add: txn_def) (simp add: demo_fs_def binit_def logged_def zero_log_def FSSIZE_def LOGSIZE_def)
qed

lemma demo_first_free: "first_free demo_bitmap 100 = Some 59"
  by code_simp

lemma demo_bitmap_ok: "bitmap_ok demo_sb 2 demo_blocks" "sb demo_fs = demo_sb"
proof -
  have "sb_of_block demo_sb_block = demo_sb"
    by (simp add: sb_of_block_def demo_sb_block_def demo_sb_def get32_put32_other BSIZE_def)
  moreover have "used demo_sb demo_blocks b" if "unat b \<le> 58" for b
    using first_free_Some [OF demo_first_free] that by (simp add: used_def demo_sb_def demo_blocks_def)
  moreover have "unat b \<le> 58" if "b \<in> meta demo_sb 2" for b
    using that log_area_small [of 2 b] by (auto simp: meta_def demo_sb_def LOGSIZE_def word_le_nat_alt)
  ultimately show "bitmap_ok demo_sb 2 demo_blocks"
    by (auto simp: bitmap_ok_def geometry_def demo_sb_def demo_blocks_def demo_bitmap_def BSIZE_def FSSIZE_def
        log_area_small LOGSIZE_def)
  show "sb demo_fs = demo_sb" by (simp add: demo_fs_def binit_def)
qed

theorem balloc_bfree_witness:
  "\<exists>s1 s2 bs1 bs2. balloc 1 demo_fs = Inr (59, s1)
    \<and> txn s1 2 (demo_blocks(58 := mark_used 59 (demo_blocks 58), 59 := replicate BSIZE 0)) Map.empty bs1
    \<and> bfree 1 59 s1 = Inr s2 \<and> txn s2 2 (demo_blocks(59 := replicate BSIZE 0)) Map.empty bs2
    \<and> bfree 1 59 s2 = Inl (Panic ''freeing free block'')"
proof -
  have "length ([] :: u32 list) + 3 < LOGSIZE" by (simp add: LOGSIZE_def)
  moreover have "first_free (demo_blocks (sb_bmapstart demo_sb)) (unat (sb_size demo_sb)) = Some 59"
    using demo_first_free by (simp add: demo_sb_def demo_blocks_def)
  ultimately show ?thesis
    using balloc_bfree [OF demo_fs_txn] demo_bitmap_ok by (simp add: Let_def demo_sb_def)
qed

end
