(* ===== verification/Icache.thy ===== *)
theory Icache
  imports Fsblock
begin

text \<open>
  The inode cache as a reference-counted table: what the operations of \<^verbatim>\<open>fs.c\<close> do to the identity
  and the reference count of every entry, whatever else they do to the disk, the log and the
  contents of inodes.
\<close>

section \<open>What the lower layers leave alone\<close>

lemma idestart_more: "idestart i s = Inr s' \<Longrightarrow> bio.more s' = bio.more s"
  by (auto simp: idestart_def Let_def split: if_splits)

lemma ideintr_more: "ideintr s = Inr s' \<Longrightarrow> bio.more s' = bio.more s"
  by (auto simp: ideintr_def Let_def split: list.splits if_splits dest!: idestart_more)

lemma ide_wait_more: "ide_wait n i s = Inr s' \<Longrightarrow> bio.more s' = bio.more s"
  by (induction n arbitrary: s) (auto split: if_splits dest!: ideintr_more)

lemma iderw_more: "iderw i s = Inr s' \<Longrightarrow> bio.more s' = bio.more s"
  by (auto simp: iderw_def Let_def simp del: ide_wait.simps split: if_splits dest!: idestart_more ide_wait_more)

lemma bget_more: "bget dev n s = Inr (i, s') \<Longrightarrow> bio.more s' = bio.more s"
  by (auto simp: bget_def lock_buf_def split: option.splits)

lemma bread_more: "bread dev n s = Inr (i, s') \<Longrightarrow> bio.more s' = bio.more s"
  by (auto simp: bread_def bnd_eq_Inr split: if_splits dest!: bget_more iderw_more)

lemma brelse_more: "brelse i s = Inr s' \<Longrightarrow> bio.more s' = bio.more s"
  by (auto simp: brelse_def Let_def split: if_splits)

lemma bread_logsys: "bread dev n s = Inr (i, s') \<Longrightarrow> logsys.more s' = logsys.more s"
  by (rule more_logsys) (rule bread_more)

lemma brelse_logsys: "brelse i s = Inr s' \<Longrightarrow> logsys.more s' = logsys.more s"
  by (rule more_logsys) (rule brelse_more)

text \<open>The identity and count of every entry.\<close>

definition idents :: "'a fsys_scheme \<Rightarrow> (u32 \<times> u32 \<times> int) list" where
  "idents s = map (\<lambda>ip. (i_dev ip, i_inum ip, i_ref ip)) (icache s)"

lemma idents_more: "logsys.more s' = logsys.more s \<Longrightarrow> idents s' = idents s"
  using more_fsys [of s' s] by (simp add: idents_def)

lemma idents_sb [simp]: "idents (s\<lparr>sb := x\<rparr>) = idents s"
  by (simp add: idents_def)

lemma idents_upd [simp]:
  assumes "\<And>ip. (i_dev (f ip), i_inum (f ip), i_ref (f ip)) = (i_dev ip, i_inum ip, i_ref ip)"
  shows "idents (upd_inode i f s) = idents s"
proof (rule nth_equalityI)
  fix j assume "j < length (idents (upd_inode i f s))"
  then show "idents (upd_inode i f s) ! j = idents s ! j"
    using assms by (cases "i = j") (auto simp: idents_def upd_inode_def)
qed (simp add: idents_def upd_inode_def)

lemma idents_set_data [simp]: "idents (set_data i d s) = idents s"
  by (rule idents_more) simp

lemma update_block_idents: "update_block dev n f s = Inr s' \<Longrightarrow> idents s' = idents s"
  by (auto simp: update_block_def bnd_eq_Inr dest!: bread_logsys brelse_logsys log_write_more intro!: idents_more)

lemma bfree_idents: "bfree dev b s = Inr s' \<Longrightarrow> idents s' = idents s"
  by (auto simp: bfree_def readsb_def bnd_eq_Inr Let_def split: if_splits
      dest!: bread_logsys [THEN idents_more] brelse_logsys [THEN idents_more] log_write_more [THEN idents_more])

lemma iupdate_idents: "iupdate i s = Inr s' \<Longrightarrow> idents s' = idents s"
  by (auto simp: iupdate_def Let_def dest: update_block_idents)

lemma trunc_direct_idents: "trunc_direct i k s = Inr s' \<Longrightarrow> idents s' = idents s"
  by (auto simp: trunc_direct_def Let_def split: if_splits dest!: bfree_idents)

lemma itrunc_idents: "itrunc i s = Inr s' \<Longrightarrow> idents s' = idents s"
proof -
  assume "itrunc i s = Inr s'"
  then obtain s1 where s1: "for_each [0..<NDIRECT] (trunc_direct i) s = Inr s1" and
    s2: "bnd (if i_addrs (icache s1 ! i) ! NDIRECT \<noteq> 0
              then bnd (bread (i_dev (icache s1 ! i)) (i_addrs (icache s1 ! i) ! NDIRECT) s1) (\<lambda>(bp, s).
                   bnd (for_each [0..<NINDIRECT] (\<lambda>j s. let a = get32 (buf_data bp s) (4 * j)
                          in if a \<noteq> 0 then bfree (i_dev (icache s1 ! i)) a s else Inr s) s) (\<lambda>s.
                   bnd (brelse bp s) (\<lambda>s.
                   bnd (bfree (i_dev (icache s1 ! i)) (i_addrs (icache s1 ! i) ! NDIRECT) s) (\<lambda>s.
                   Inr (upd_inode i (\<lambda>ip. ip\<lparr>i_addrs := (i_addrs ip)[NDIRECT := 0]\<rparr>) s)))))
              else Inr s1) (\<lambda>s. iupdate i (upd_inode i (\<lambda>ip. ip\<lparr>i_size := 0\<rparr>) s)) = Inr s'"
    by (auto simp: itrunc_def Let_def bnd_eq_Inr)
  have loop: "idents t' = idents t"
    if "for_each [0..<NINDIRECT] (\<lambda>j s. let a = get32 (buf_data bp s) (4 * j) in if a \<noteq> 0 then bfree dev a s else Inr s) t = Inr t'"
    for bp dev and t t' :: "'a fsys_scheme"
    by (rule for_each_keep [where g = idents, OF _ that]) (auto simp: Let_def split: if_splits dest: bfree_idents)
  have "idents s1 = idents s" by (rule for_each_keep [where g = idents, OF _ s1]) (rule trunc_direct_idents)
  then show ?thesis using s2
    by (auto simp: bnd_eq_Inr split: if_splits
        dest!: iupdate_idents bfree_idents loop bread_logsys [THEN idents_more] brelse_logsys [THEN idents_more])
qed

lemma idents_nth:
  "i < length (icache s) \<Longrightarrow> idents s ! i = (i_dev (icache s ! i), i_inum (icache s ! i), i_ref (icache s ! i))"
  "length (idents s) = length (icache s)"
  by (simp_all add: idents_def)

lemma iput_idents:
  assumes "iput i s = Inr s'" and "i < length (idents s)"
  shows "idents s' = (idents s)[i := (\<lambda>(d, n, r). (d, n, r - 1)) (idents s ! i)]"
proof -
  obtain s1 where r: "(if i_ref (icache s ! i) = 1 \<and> i_valid (icache s ! i) \<and> i_nlink (icache s ! i) = 0
      then bnd (itrunc i s) (\<lambda>s. bnd (iupdate i (upd_inode i (\<lambda>ip. ip\<lparr>i_type := 0\<rparr>) s))
        (\<lambda>s. Inr (upd_inode i (\<lambda>ip. ip\<lparr>i_valid := False\<rparr>) s))) else Inr s) = Inr s1"
    and s': "s' = upd_inode i (\<lambda>ip. ip\<lparr>i_ref := i_ref ip - 1\<rparr>) s1"
    using assms(1) by (auto simp only: iput_def Let_def bnd_eq_Inr Inr_inject)
  have s1: "idents s1 = idents s"
    using r by (auto simp: bnd_eq_Inr split: if_splits dest!: itrunc_idents iupdate_idents)
  have "i < length (icache s1)" using s1 assms(2) idents_nth(2) [of s1] by simp
  then have "idents s' = (idents s1)[i := (\<lambda>(d, n, r). (d, n, r - 1)) (idents s1 ! i)]"
    unfolding s' by (simp add: idents_def upd_inode_def map_update)
  then show ?thesis by (simp only: s1)
qed

lemma ilock_idents: "ilock i s = Inr s' \<Longrightarrow> idents s' = idents s"
  by (auto simp: ilock_def Let_def load_dinode_def bnd_eq_Inr split: if_splits
      dest!: bread_logsys [THEN idents_more] brelse_logsys [THEN idents_more])

lemma iunlock_idents: "iunlock i s = Inr s' \<Longrightarrow> idents s' = idents s"
  by (auto simp: iunlock_def split: if_splits)

section \<open>References\<close>

text \<open>
  The kernel and the references it holds: a list of the pointers that \<^verbatim>\<open>iget\<close> and \<^verbatim>\<open>idup\<close> have
  returned and \<^verbatim>\<open>iput\<close> has not yet given back, each with the device and inode number it was asked
  for. Every operation is applied to a pointer that is held.
\<close>

type_synonym handle = "nat \<times> u32 \<times> u32"

inductive ic_step :: "'a fsys_scheme \<times> handle list \<Rightarrow> 'a fsys_scheme \<times> handle list \<Rightarrow> bool" where
  ic_get: "iget d n s = Inr (i, s') \<Longrightarrow> ic_step (s, L) (s', (i, d, n) # L)"
| ic_dup: "(i, d, n) \<in> set L \<Longrightarrow> ic_step (s, L) (idup i s, (i, d, n) # L)"
| ic_put: "(i, d, n) \<in> set L \<Longrightarrow> iput i s = Inr s' \<Longrightarrow> ic_step (s, L) (s', remove1 (i, d, n) L)"
| ic_lock: "(i, d, n) \<in> set L \<Longrightarrow> ilock i s = Inr s' \<Longrightarrow> ic_step (s, L) (s', L)"
| ic_unlock: "(i, d, n) \<in> set L \<Longrightarrow> iunlock i s = Inr s' \<Longrightarrow> ic_step (s, L) (s', L)"
| ic_update: "(i, d, n) \<in> set L \<Longrightarrow> iupdate i s = Inr s' \<Longrightarrow> ic_step (s, L) (s', L)"

definition handles :: "nat \<Rightarrow> handle list \<Rightarrow> nat" where
  "handles i L = length (filter (\<lambda>h. fst h = i) L)"

lemma handles_simps [simp]: "handles i [] = 0" "handles i (h # L) = (if fst h = i then Suc (handles i L) else handles i L)"
  by (simp_all add: handles_def)

lemma handles_remove1: "h \<in> set L \<Longrightarrow> handles i (remove1 h L) = (if fst h = i then handles i L - 1 else handles i L)"
  by (auto simp: handles_def filter_remove1 length_remove1)

lemma handles_pos: "0 < handles i L \<longleftrightarrow> (\<exists>d n. (i, d, n) \<in> set L)"
  by (induction L) auto

definition ic_inv :: "(u32 \<times> u32 \<times> int) list \<Rightarrow> handle list \<Rightarrow> bool" where
  "ic_inv t L \<longleftrightarrow> length t = NINODE \<and> (\<forall>i<NINODE. snd (snd (t ! i)) = int (handles i L))
     \<and> (\<forall>i d n. (i, d, n) \<in> set L \<longrightarrow> i < NINODE \<and> (\<exists>r. t ! i = (d, n, r)))
     \<and> (\<forall>i j x. (i, x) \<in> set L \<longrightarrow> (j, x) \<in> set L \<longrightarrow> i = j)"

lemma ic_inv_add:
  assumes inv: "ic_inv t L" and i: "i < NINODE"
    and new: "t ! i = (d, n, r) \<and> 0 < r \<or> snd (snd (t ! i)) = 0 \<and> (\<forall>j<NINODE. 0 < snd (snd (t ! j)) \<longrightarrow> (\<forall>r. t ! j \<noteq> (d, n, r)))"
  shows "ic_inv (t[i := (d, n, snd (snd (t ! i)) + 1)]) ((i, d, n) # L)"
proof -
  have len: "length t = NINODE" and cnt: "\<And>j. j < NINODE \<Longrightarrow> snd (snd (t ! j)) = int (handles j L)"
    and idn: "\<And>j d n. (j, d, n) \<in> set L \<Longrightarrow> j < NINODE \<and> (\<exists>r. t ! j = (d, n, r))"
    and uniq: "\<And>j k x. (j, x) \<in> set L \<Longrightarrow> (k, x) \<in> set L \<Longrightarrow> j = k"
    using inv unfolding ic_inv_def by blast+
  have pos: "0 < snd (snd (t ! j))" if "(j, d', n') \<in> set L" for j d' n'
    using that idn [OF that] cnt [of j] handles_pos [of j L] by auto
  have same: "j = i" if "(j, d, n) \<in> set L" for j
  proof (cases "t ! i = (d, n, r) \<and> 0 < r")
    case True
    then obtain d' n' where h: "(i, d', n') \<in> set L" using handles_pos [of i L] cnt [OF i] by auto
    then show ?thesis using uniq that True idn [OF h] by auto
  next
    case False
    then show ?thesis using new pos [OF that] idn [OF that] by blast
  qed
  have keep: "(d', n') = (d, n)" if "(i, d', n') \<in> set L" for d' n'
    using new pos [OF that] idn [OF that] by auto
  let ?t = "t[i := (d, n, snd (snd (t ! i)) + 1)]" and ?L = "(i, d, n) # L"
  have "snd (snd (?t ! j)) = int (handles j ?L)" if "j < NINODE" for j
    using cnt [OF that] len i by (auto simp: nth_list_update)
  moreover have "j < NINODE \<and> (\<exists>r'. ?t ! j = (d', n', r'))" if "(j, d', n') \<in> set ?L" for j d' n'
    using that idn [of j d' n'] keep [of d' n'] len i by (cases "j = i") auto
  moreover have "j = k" if "(j, x) \<in> set ?L" "(k, x) \<in> set ?L" for j k x
    using that same uniq [of j x k] by auto
  ultimately show ?thesis using len by (simp add: ic_inv_def)
qed

lemma ic_inv_remove:
  assumes inv: "ic_inv t L" and h: "(i, d, n) \<in> set L"
  shows "ic_inv (t[i := (\<lambda>(d, n, r). (d, n, r - 1)) (t ! i)]) (remove1 (i, d, n) L)"
proof -
  let ?L = "remove1 (i, d, n) L"
  have len: "length t = NINODE" and cnt: "\<And>j. j < NINODE \<Longrightarrow> snd (snd (t ! j)) = int (handles j L)"
    and idn: "\<And>j d n. (j, d, n) \<in> set L \<Longrightarrow> j < NINODE \<and> (\<exists>r. t ! j = (d, n, r))"
    and uniq: "\<And>j k x. (j, x) \<in> set L \<Longrightarrow> (k, x) \<in> set L \<Longrightarrow> j = k"
    using inv unfolding ic_inv_def by blast+
  obtain r where r: "i < NINODE" "t ! i = (d, n, r)" using idn [OF h] by auto
  have "0 < handles i L" using h handles_pos [of i L] by auto
  then have "snd (snd (t[i := (d, n, r - 1)] ! j)) = int (handles j ?L)" if "j < NINODE" for j
    using cnt [OF that] cnt [OF r(1)] r h len by (auto simp: nth_list_update handles_remove1)
  moreover have "j < NINODE \<and> (\<exists>r'. t[i := (d, n, r - 1)] ! j = (d', n', r'))" if "(j, d', n') \<in> set ?L" for j d' n'
    using idn [OF subsetD [OF set_remove1_subset that]] r len by (auto simp: nth_list_update)
  moreover have "j = k" if "(j, x) \<in> set ?L" "(k, x) \<in> set ?L" for j k x
    using uniq that set_remove1_subset [of "(i, d, n)" L] by blast
  ultimately have "ic_inv (t[i := (d, n, r - 1)]) ?L"
    unfolding ic_inv_def using len by (simp only: length_list_update) blast
  then show ?thesis by (simp only: r(2) prod.case)
qed

lemma upd_ref_idents:
  assumes "i < length (icache s)" and "\<And>ip. i_dev (f ip) = i_dev ip \<and> i_inum (f ip) = i_inum ip \<and> i_ref (f ip) = i_ref ip + 1"
  shows "idents (upd_inode i f s) = (idents s)[i := (i_dev (icache s ! i), i_inum (icache s ! i), i_ref (icache s ! i) + 1)]"
  using assms by (simp add: idents_def upd_inode_def map_update)

lemma iget_inv:
  assumes r: "iget d n s = Inr (i, s')" and inv: "ic_inv (idents s) L"
  shows "ic_inv (idents s') ((i, d, n) # L)"
proof -
  have len: "length (icache s) = NINODE" using inv by (simp add: ic_inv_def idents_nth(2))
  let ?P = "\<lambda>i. 0 < i_ref (icache s ! i) \<and> i_dev (icache s ! i) = d \<and> i_inum (icache s ! i) = n"
  show ?thesis
  proof (cases "List.find ?P [0..<NINODE]")
    case (Some j)
    then have j: "j < NINODE" "?P j" by (auto simp: find_Some_iff)
    have e: "i = j" "s' = upd_inode j (\<lambda>ip. ip\<lparr>i_ref := i_ref ip + 1\<rparr>) s" using r Some by (auto simp: iget_def)
    have "idents s' = (idents s)[j := (d, n, snd (snd (idents s ! j)) + 1)]"
      unfolding e(2) using j len by (subst upd_ref_idents) (simp_all add: idents_nth)
    then show ?thesis
      using ic_inv_add [OF inv j(1), of d n "i_ref (icache s ! j)"] j len e(1) by (simp add: idents_nth)
  next
    case None
    then obtain j where f: "List.find (\<lambda>i. i_ref (icache s ! i) = 0) [0..<NINODE] = Some j"
      and e: "i = j" "s' = upd_inode j (\<lambda>ip. ip\<lparr>i_dev := d, i_inum := n, i_ref := 1, i_valid := False\<rparr>) s"
      using r by (auto simp: iget_def split: option.splits)
    then have j: "j < NINODE" "i_ref (icache s ! j) = 0" by (auto simp: find_Some_iff)
    have "idents s' = (idents s)[j := (d, n, snd (snd (idents s ! j)) + 1)]"
      unfolding e(2) using j len by (simp add: idents_def upd_inode_def map_update)
    moreover have "\<forall>k<NINODE. 0 < snd (snd (idents s ! k)) \<longrightarrow> (\<forall>r. idents s ! k \<noteq> (d, n, r))"
      using None len by (auto simp: find_None_iff idents_nth)
    ultimately show ?thesis
      using ic_inv_add [OF inv j(1), of d n 0] j len e(1) by (simp add: idents_nth)
  qed
qed

lemma ic_step_inv:
  assumes "ic_step x y" and "ic_inv (idents (fst x)) (snd x)"
  shows "ic_inv (idents (fst y)) (snd y)"
  using assms
proof (cases rule: ic_step.cases)
  case (ic_dup i d n L s)
  then have inv: "ic_inv (idents s) L" using assms(2) by simp
  then have i: "i < NINODE" "length (icache s) = NINODE" "\<exists>r. idents s ! i = (d, n, r)"
    using ic_dup(3) unfolding ic_inv_def by (auto simp: idents_nth(2))
  then obtain r where r: "idents s ! i = (d, n, r)" by blast
  have "0 < r" using inv ic_dup(3) i(1) r handles_pos [of i L] unfolding ic_inv_def by force
  moreover have "idents (idup i s) = (idents s)[i := (d, n, snd (snd (idents s ! i)) + 1)]"
    unfolding idup_def using i r by (subst upd_ref_idents) (simp_all add: idents_nth)
  ultimately show ?thesis using ic_dup ic_inv_add [OF inv i(1), of d n r] r by simp
next
  case (ic_put i d n L s s')
  then have inv: "ic_inv (idents s) L" using assms(2) by simp
  then have "i < length (idents s)" using ic_put(3) unfolding ic_inv_def by auto
  then show ?thesis using ic_put ic_inv_remove [OF inv ic_put(3)] iput_idents [OF ic_put(4)] by simp
qed (auto dest: iget_inv ilock_idents iunlock_idents iupdate_idents)

lemma ic_steps_inv:
  assumes "ic_step\<^sup>*\<^sup>* x y" and "ic_inv (idents (fst x)) (snd x)"
  shows "ic_inv (idents (fst y)) (snd y)"
  using assms by (induction rule: rtranclp_induct) (auto intro: ic_step_inv)

text \<open>
  C17. References to inodes. Start from an inode cache without references and perform any sequence of
  \<^verbatim>\<open>iget\<close>, \<^verbatim>\<open>idup\<close>, \<^verbatim>\<open>iput\<close>, \<^verbatim>\<open>ilock\<close>, \<^verbatim>\<open>iunlock\<close> and \<^verbatim>\<open>iupdate\<close>, the latter five on pointers that
  are held, including every \<^verbatim>\<open>iput\<close> that truncates and frees the inode. Then the count of every
  entry is the number of pointers held to it, every pointer held still denotes the inode it was
  obtained for, and two pointers to the same inode are equal, so that its lock protects it.
\<close>

theorem icache_references:
  fixes s0 :: "'a fsys_scheme"
  assumes "length (icache s0) = NINODE" and "\<forall>ip\<in>set (icache s0). i_ref ip = 0" and "ic_step\<^sup>*\<^sup>* (s0, []) (s, L)"
  shows "(\<forall>i<NINODE. i_ref (icache s ! i) = int (length (filter (\<lambda>h. fst h = i) L)))
    \<and> (\<forall>(i, d, n)\<in>set L. i < NINODE \<and> i_dev (icache s ! i) = d \<and> i_inum (icache s ! i) = n)
    \<and> (\<forall>i j x. (i, x) \<in> set L \<and> (j, x) \<in> set L \<longrightarrow> i = j)"
proof -
  have "ic_inv (idents s0) []" using assms(1,2) by (simp add: ic_inv_def idents_def)
  then have inv: "ic_inv (idents s) L" using ic_steps_inv [OF assms(3)] by simp
  then have len: "length (icache s) = NINODE" by (simp add: ic_inv_def idents_nth(2))
  have idn: "i < NINODE \<and> i_dev (icache s ! i) = d \<and> i_inum (icache s ! i) = n" if "(i, d, n) \<in> set L" for i d n
    using inv that len idents_nth(1) [of i s] unfolding ic_inv_def by fastforce
  show ?thesis
    using inv len unfolding ic_inv_def handles_def [symmetric] by (auto simp: idents_nth dest: idn)
qed

theorem icache_references_witness:
  "let s = snd (projr (iget 1 5 demo_fs)); s' = snd (projr (iget 1 7 (idup 0 s))) in
   i_ref (icache s' ! 0) = 2 \<and> i_ref (icache s' ! 1) = 1 \<and> i_inum (icache s' ! 1) = 7"
proof -
  have up: "[0..<NINODE] = 0 # 1 # [2..<50]" by (simp add: NINODE_def upt_conv_Cons)
  have ic: "icache demo_fs = replicate 50 demo_inode" by (simp add: demo_fs_def binit_def NINODE_def)
  have nf: "List.find (\<lambda>i. 0 < i_ref (replicate 50 demo_inode ! i) \<and> P i) [0..<NINODE] = None" for P
    by (auto simp: find_None_iff NINODE_def demo_inode_def)
  obtain s1 where g1: "iget 1 5 demo_fs = Inr (0, s1)" and
    s1: "icache s1 = (replicate 50 demo_inode)[0 := demo_inode\<lparr>i_dev := 1, i_inum := 5, i_ref := 1, i_valid := False\<rparr>]"
    unfolding iget_def ic nf by (simp add: up demo_inode_def upd_inode_def ic)
  let ?c = "(replicate 50 demo_inode)[0 := demo_inode\<lparr>i_dev := 1, i_inum := 5, i_ref := 2, i_valid := False\<rparr>]"
  have s2: "icache (idup 0 s1) = ?c" using s1 by (simp add: idup_def upd_inode_def demo_inode_def)
  have nf2: "List.find (\<lambda>i. 0 < i_ref (?c ! i) \<and> i_dev (?c ! i) = 1 \<and> i_inum (?c ! i) = 7) [0..<NINODE] = None"
    by (auto simp: find_None_iff NINODE_def demo_inode_def nth_list_update)
  obtain s3 where g2: "iget 1 7 (idup 0 s1) = Inr (1, s3)"
    unfolding iget_def s2 nf2 by (simp add: up demo_inode_def)
  have "ic_step\<^sup>*\<^sup>* (demo_fs, []) (s3, [(1, 1, 7), (0, 1, 5), (0, 1, 5)])"
    by (rule converse_rtranclp_into_rtranclp, rule ic_get [OF g1], rule converse_rtranclp_into_rtranclp,
        rule ic_dup [of 0 1 5], simp, rule r_into_rtranclp, rule ic_get [OF g2])
  note r = icache_references [OF _ _ this]
  have "length (icache demo_fs) = NINODE" "\<forall>ip\<in>set (icache demo_fs). i_ref ip = 0"
    by (simp_all add: ic NINODE_def demo_inode_def)
  note r = r [OF this]
  have "i_ref (icache s3 ! 0) = 2" "i_ref (icache s3 ! 1) = 1"
    using r [THEN conjunct1, rule_format, of 0] r [THEN conjunct1, rule_format, of 1] by (simp_all add: NINODE_def)
  moreover have "i_inum (icache s3 ! 1) = 7" using r [THEN conjunct2, THEN conjunct1] by simp
  ultimately show ?thesis unfolding Let_def g1 g2 sum.sel snd_conv by (intro conjI)
qed

end
