(* ===== verification/File.thy ===== *)
theory File
  imports Pipe Icache
begin

text \<open>
  Open files (\<^verbatim>\<open>file.c\<close>) and the ends of pipes (\<^verbatim>\<open>pipealloc\<close> and \<^verbatim>\<open>pipeclose\<close> of \<^verbatim>\<open>pipe.c\<close>). A file
  pointer is the index of the entry in \<^verbatim>\<open>ftable.file\<close>; a pipe pointer is the address of its page. The
  page that \<^verbatim>\<open>kalloc\<close> returns for a new pipe is an argument of \<open>pipealloc\<close>; giving it back removes
  the pipe. A read or write that would sleep on a pipe is the error \<open>Deadlock\<close>.
\<close>

definition NFILE :: nat where "NFILE = 100"

datatype fdtype = FD_NONE | FD_PIPE | FD_INODE

record file_t =
  f_type :: fdtype
  f_ref :: int
  f_readable :: bool
  f_writable :: bool
  f_pipe :: u64
  f_ip :: nat
  f_off :: u32

record filesys = fsys +
  ftable :: "file_t list"
  pipes :: "u64 \<Rightarrow> pipe option"

definition upd_file :: "nat \<Rightarrow> (file_t \<Rightarrow> file_t) \<Rightarrow> 'a filesys_scheme \<Rightarrow> 'a filesys_scheme" where
  "upd_file f g s = s\<lparr>ftable := (ftable s)[f := g (ftable s ! f)]\<rparr>"

definition filealloc :: "'a filesys_scheme \<Rightarrow> nat option \<times> 'a filesys_scheme" where
  "filealloc s =
     (case List.find (\<lambda>f. f_ref (ftable s ! f) = 0) [0..<NFILE] of
        None \<Rightarrow> (None, s) | Some f \<Rightarrow> (Some f, upd_file f (\<lambda>x. x\<lparr>f_ref := 1\<rparr>) s))"

definition filedup :: "nat \<Rightarrow> 'a filesys_scheme \<Rightarrow> 'a filesys_scheme res" where
  "filedup f s =
     (if f_ref (ftable s ! f) < 1 then Inl (Panic ''filedup'')
      else Inr (upd_file f (\<lambda>x. x\<lparr>f_ref := f_ref x + 1\<rparr>) s))"

definition pipeclose :: "u64 \<Rightarrow> bool \<Rightarrow> 'a filesys_scheme \<Rightarrow> 'a filesys_scheme res" where
  "pipeclose p writable s =
     (case pipes s p of None \<Rightarrow> Inl Fault
      | Some q \<Rightarrow>
          let q = close_end writable q
          in Inr (s\<lparr>pipes := (pipes s)(p := (if \<not> readopen q \<and> \<not> writeopen q then None else Some q))\<rparr>))"

definition fileclose :: "nat \<Rightarrow> 'a filesys_scheme \<Rightarrow> 'a filesys_scheme res" where
  "fileclose f s =
     (if f_ref (ftable s ! f) < 1 then Inl (Panic ''fileclose'')
      else let s = upd_file f (\<lambda>x. x\<lparr>f_ref := f_ref x - 1\<rparr>) s
        in if f_ref (ftable s ! f) > 0 then Inr s
           else let ff = ftable s ! f; s = upd_file f (\<lambda>x. x\<lparr>f_ref := 0, f_type := FD_NONE\<rparr>) s
             in case f_type ff of
                  FD_PIPE \<Rightarrow> pipeclose (f_pipe ff) (f_writable ff) s
                | FD_INODE \<Rightarrow> bnd (begin_op s) (\<lambda>s. bnd (iput (f_ip ff) s) end_op)
                | FD_NONE \<Rightarrow> Inr s)"

definition filestat :: "nat \<Rightarrow> 'a filesys_scheme \<Rightarrow> (stat option \<times> 'a filesys_scheme) res" where
  "filestat f s =
     (if f_type (ftable s ! f) = FD_INODE
      then let ip = f_ip (ftable s ! f)
        in bnd (ilock ip s) (\<lambda>s. bnd (iunlock ip s) (\<lambda>s'. Inr (Some (stati ip s), s')))
      else Inr (None, s))"

definition fileread :: "(nat \<Rightarrow> 'a filesys_scheme devsw) \<Rightarrow> bool \<Rightarrow> nat \<Rightarrow> int \<Rightarrow> 'a filesys_scheme
    \<Rightarrow> (int \<times> u8 list \<times> 'a filesys_scheme) res" where
  "fileread devsw killed f n s =
     (let ff = ftable s ! f
      in if \<not> f_readable ff then Inr (-1, [], s)
         else case f_type ff of
           FD_PIPE \<Rightarrow>
             (case pipes s (f_pipe ff) of None \<Rightarrow> Inl Fault
              | Some q \<Rightarrow>
                  (case piperead killed q n of
                     (bytes, q, Returns r) \<Rightarrow> Inr (r, bytes, s\<lparr>pipes := (pipes s)(f_pipe ff \<mapsto> q)\<rparr>)
                   | (_, _, Sleeps) \<Rightarrow> Inl Deadlock))
         | FD_INODE \<Rightarrow>
             bnd (ilock (f_ip ff) s) (\<lambda>s.
             bnd (readi devsw (f_ip ff) (f_off ff) (of_int n) s) (\<lambda>(r, bytes, s).
             bnd (iunlock (f_ip ff) (if r > 0 then upd_file f (\<lambda>x. x\<lparr>f_off := f_off x + of_int r\<rparr>) s else s)) (\<lambda>s.
             Inr (r, bytes, s))))
         | FD_NONE \<Rightarrow> Inl (Panic ''fileread''))"

text \<open>The number of bytes that one transaction writes.\<close>

definition max_write :: nat where
  "max_write = (LOGSIZE - 1 - 1 - 2) div 2 * 512"

function filewrite_loop :: "(nat \<Rightarrow> 'a filesys_scheme devsw) \<Rightarrow> nat \<Rightarrow> u8 list \<Rightarrow> 'a filesys_scheme
    \<Rightarrow> (bool \<times> 'a filesys_scheme) res" where
  "filewrite_loop devsw f src s =
     (if src = [] then Inr (True, s)
      else let n1 = min (length src) max_write; ip = f_ip (ftable s ! f)
        in bnd (begin_op s) (\<lambda>s.
           bnd (ilock ip s) (\<lambda>s.
           bnd (writei devsw ip (take n1 src) (f_off (ftable s ! f)) s) (\<lambda>(r, s).
           bnd (iunlock ip (if r > 0 then upd_file f (\<lambda>x. x\<lparr>f_off := f_off x + of_int r\<rparr>) s else s)) (\<lambda>s.
           bnd (end_op s) (\<lambda>s.
             if r < 0 then Inr (False, s)
             else if r \<noteq> int n1 then Inl (Panic ''short filewrite'')
             else filewrite_loop devsw f (drop n1 src) s))))))"
  by pat_completeness auto
termination
  by (relation "measure (\<lambda>(devsw, f, src, s). length src)") (auto simp: max_write_def LOGSIZE_def)

declare filewrite_loop.simps [simp del]

definition filewrite :: "(nat \<Rightarrow> 'a filesys_scheme devsw) \<Rightarrow> bool \<Rightarrow> nat \<Rightarrow> u8 list \<Rightarrow> 'a filesys_scheme
    \<Rightarrow> (int \<times> 'a filesys_scheme) res" where
  "filewrite devsw killed f src s =
     (let ff = ftable s ! f
      in if \<not> f_writable ff then Inr (-1, s)
         else case f_type ff of
           FD_PIPE \<Rightarrow>
             (case pipes s (f_pipe ff) of None \<Rightarrow> Inl Fault
              | Some q \<Rightarrow>
                  (case pipewrite killed q src of
                     (q, _, Returns r) \<Rightarrow> Inr (r, s\<lparr>pipes := (pipes s)(f_pipe ff \<mapsto> q)\<rparr>)
                   | (_, _, Sleeps) \<Rightarrow> Inl Deadlock))
         | FD_INODE \<Rightarrow> bnd (filewrite_loop devsw f src s) (\<lambda>(ok, s). Inr (if ok then int (length src) else -1, s))
         | FD_NONE \<Rightarrow> Inl (Panic ''filewrite''))"

text \<open>
  \<^verbatim>\<open>goto bad\<close> of \<^verbatim>\<open>pipealloc\<close>: close the files obtained so far. The contents \<open>junk\<close> of the new page
  are those \<^verbatim>\<open>kalloc\<close> left in it.
\<close>

definition close_opt :: "nat option \<Rightarrow> 'a filesys_scheme \<Rightarrow> 'a filesys_scheme res" where
  "close_opt f s = (case f of None \<Rightarrow> Inr s | Some f \<Rightarrow> fileclose f s)"

definition pipealloc :: "u64 option \<Rightarrow> u8 list \<Rightarrow> 'a filesys_scheme
    \<Rightarrow> ((nat \<times> nat) option \<times> 'a filesys_scheme) res" where
  "pipealloc page junk s =
     (let (f0, s) = filealloc s; (f1, s) = (if f0 = None then (None, s) else filealloc s)
      in case (f0, f1, page) of
           (Some r, Some w, Some p) \<Rightarrow>
             let s = s\<lparr>pipes := (pipes s)(p \<mapsto> new_pipe junk)\<rparr>;
                 s = upd_file r (\<lambda>x. x\<lparr>f_type := FD_PIPE, f_readable := True, f_writable := False, f_pipe := p\<rparr>) s;
                 s = upd_file w (\<lambda>x. x\<lparr>f_type := FD_PIPE, f_readable := False, f_writable := True, f_pipe := p\<rparr>) s
             in Inr (Some (r, w), s)
         | _ \<Rightarrow> bnd (close_opt f0 s) (\<lambda>s. bnd (close_opt f1 s) (\<lambda>s. Inr (None, s))))"

section \<open>What the file system leaves alone\<close>

lemma more_fs: "logsys.more s' = logsys.more s \<Longrightarrow> fsys.more s' = fsys.more s"
  by (cases s; cases s') simp

lemma fsys_upd [simp]: "fsys.more (upd_inode i f s) = fsys.more s" "fsys.more (s\<lparr>sb := x\<rparr>) = fsys.more s"
  "fsys.more (set_data b d s) = fsys.more s" "fsys.more (upd_log g s) = fsys.more s"
  by (simp_all add: upd_inode_def set_data_def upd_buf_def upd_log_def)

lemmas block_fs = bread_logsys [THEN more_fs] brelse_logsys [THEN more_fs] log_write_more [THEN more_fs]

lemma bwrite_more: "bwrite b s = Inr s' \<Longrightarrow> bio.more s' = bio.more s"
  by (auto simp: bwrite_def split: if_splits dest: iderw_more)

lemma set_data_more [simp]: "bio.more (set_data b d s) = bio.more s"
  by (simp add: set_data_def)

lemma install_one_more: "install_one k s = Inr s' \<Longrightarrow> bio.more s' = bio.more s"
  by (auto simp: install_one_def bnd_eq_Inr dest!: bread_more bwrite_more brelse_more)

lemma write_one_more: "write_one k s = Inr s' \<Longrightarrow> bio.more s' = bio.more s"
  by (auto simp: write_one_def bnd_eq_Inr dest!: bread_more bwrite_more brelse_more)

lemma write_head_more: "write_head s = Inr s' \<Longrightarrow> bio.more s' = bio.more s"
  by (auto simp: write_head_def bnd_eq_Inr Let_def split: if_splits dest!: bread_more bwrite_more brelse_more)

lemma write_log_more: "write_log s = Inr s' \<Longrightarrow> bio.more s' = bio.more s"
  unfolding write_log_def by (erule for_each_keep [where g = bio.more, rotated]) (rule write_one_more)

lemma install_trans_more: "install_trans s = Inr s' \<Longrightarrow> bio.more s' = bio.more s"
  unfolding install_trans_def by (erule for_each_keep [where g = bio.more, rotated]) (rule install_one_more)

lemma commit_fs: "commit s = Inr s' \<Longrightarrow> logsys.more s' = logsys.more s"
  by (auto simp: commit_def bnd_eq_Inr split: if_splits
      dest!: write_head_more [THEN more_logsys] write_log_more [THEN more_logsys] install_trans_more [THEN more_logsys])

lemma end_op_fs: "end_op s = Inr s' \<Longrightarrow> fsys.more s' = fsys.more s"
  by (auto simp: end_op_def Let_def bnd_eq_Inr split: if_splits dest!: commit_fs [THEN more_fs])

lemma begin_op_fs: "begin_op s = Inr s' \<Longrightarrow> fsys.more s' = fsys.more s"
  by (auto simp: begin_op_def split: if_splits)

lemma update_block_fs: "update_block dev n f s = Inr s' \<Longrightarrow> fsys.more s' = fsys.more s"
  by (auto simp: update_block_def bnd_eq_Inr dest!: block_fs)

lemma bfree_fs: "bfree dev b s = Inr s' \<Longrightarrow> fsys.more s' = fsys.more s"
  by (auto simp: bfree_def readsb_def bnd_eq_Inr Let_def split: if_splits dest!: block_fs)

lemma balloc_loop_fs: "balloc_loop dev bs s = Inr (b, s') \<Longrightarrow> fsys.more s' = fsys.more s"
  by (induction bs arbitrary: s) (auto simp: bzero_def bnd_eq_Inr split: option.splits dest!: block_fs update_block_fs)

lemma balloc_fs: "balloc dev s = Inr (b, s') \<Longrightarrow> fsys.more s' = fsys.more s"
  by (auto simp: balloc_def dest: balloc_loop_fs)

lemma iupdate_fs: "iupdate i s = Inr s' \<Longrightarrow> fsys.more s' = fsys.more s"
  by (auto simp: iupdate_def Let_def dest: update_block_fs)

lemma trunc_direct_fs: "trunc_direct i k s = Inr s' \<Longrightarrow> fsys.more s' = fsys.more s"
  by (auto simp: trunc_direct_def Let_def split: if_splits dest!: bfree_fs)

lemma trunc_indirect_fs:
  "for_each js (\<lambda>j s. let a = get32 (buf_data bp s) (4 * j) in if a \<noteq> 0 then bfree dev a s else Inr s) s = Inr s'
    \<Longrightarrow> fsys.more s' = fsys.more s"
  by (erule for_each_keep [where g = fsys.more, rotated]) (auto simp: Let_def split: if_splits dest: bfree_fs)

lemma trunc_directs_fs: "for_each ks (trunc_direct i) s = Inr s' \<Longrightarrow> fsys.more s' = fsys.more s"
  by (erule for_each_keep [where g = fsys.more, rotated]) (rule trunc_direct_fs)

lemma itrunc_fs: "itrunc i s = Inr s' \<Longrightarrow> fsys.more s' = fsys.more s"
  by (auto simp: itrunc_def Let_def bnd_eq_Inr split: if_splits
      dest!: trunc_directs_fs iupdate_fs bfree_fs block_fs trunc_indirect_fs [unfolded Let_def])

lemma iput_fs: "iput i s = Inr s' \<Longrightarrow> fsys.more s' = fsys.more s"
  by (auto simp: iput_def Let_def bnd_eq_Inr split: if_splits dest!: itrunc_fs iupdate_fs)

lemma ilock_fs: "ilock i s = Inr s' \<Longrightarrow> fsys.more s' = fsys.more s"
  by (auto simp: ilock_def Let_def bnd_eq_Inr split: if_splits dest!: block_fs)

lemma iunlock_fs: "iunlock i s = Inr s' \<Longrightarrow> fsys.more s' = fsys.more s"
  by (auto simp: iunlock_def split: if_splits)

lemma bmap_fs: "bmap i bn s = Inr (b, s') \<Longrightarrow> fsys.more s' = fsys.more s"
  by (auto simp: bmap_def Let_def bnd_eq_Inr split: if_splits dest!: balloc_fs block_fs)

lemma readi_loop_fs: "readi_loop i off left s = Inr (bytes, s') \<Longrightarrow> fsys.more s' = fsys.more s"
proof (induction left arbitrary: off s bytes s' rule: less_induct)
  case (less left)
  have "left = 0 \<or> left - chunk off left < left" using chunk_pos [of left off] by (cases "left = 0") (simp_all add: diff_less)
  then show ?case
    using less.prems by (subst (asm) readi_loop.simps)
      (auto simp: bnd_eq_Inr Let_def split: if_splits dest!: bmap_fs block_fs less.IH)
qed

lemma writei_loop_fs: "writei_loop i off src s = Inr (off', s') \<Longrightarrow> fsys.more s' = fsys.more s"
proof (induction "length src" arbitrary: off src s rule: less_induct)
  case less
  have "src = [] \<or> length (drop (chunk off (length src)) src) < length src" using chunk_pos [of "length src" off] by (cases "src = []") (simp_all add: diff_less)
  then show ?case
    using less.prems by (subst (asm) writei_loop.simps)
      (auto simp: bnd_eq_Inr Let_def split: if_splits dest!: bmap_fs update_block_fs less.hyps [rotated])
qed

section \<open>Pipes and the files that refer to them\<close>

text \<open>
  \<open>pipe_end s p w f\<close>: file \<open>f\<close> is open and is the writing (\<open>w\<close>) or the reading end of the pipe at \<open>p\<close>.
\<close>

definition pipe_end :: "'a filesys_scheme \<Rightarrow> u64 \<Rightarrow> bool \<Rightarrow> nat \<Rightarrow> bool" where
  "pipe_end s p w f \<longleftrightarrow> f < NFILE \<and> f_type (ftable s ! f) = FD_PIPE \<and> f_pipe (ftable s ! f) = p
     \<and> f_writable (ftable s ! f) = w"

text \<open>
  \<open>files_ok s h\<close>: every file has as many references as there are holders \<open>h\<close> of it, a file without
  references has no type, a pipe exists exactly as long as one of its ends is open, and its flags
  \<^verbatim>\<open>readopen\<close> and \<^verbatim>\<open>writeopen\<close> say which.
\<close>

definition files_ok :: "'a filesys_scheme \<Rightarrow> (nat \<Rightarrow> nat) \<Rightarrow> bool" where
  "files_ok s h \<longleftrightarrow> length (ftable s) = NFILE
     \<and> (\<forall>f<NFILE. f_ref (ftable s ! f) = int (h f)) \<and> (\<forall>f<NFILE. h f = 0 \<longrightarrow> f_type (ftable s ! f) = FD_NONE)
     \<and> (\<forall>p w f g. pipe_end s p w f \<longrightarrow> pipe_end s p w g \<longrightarrow> f = g)
     \<and> (\<forall>p. case pipes s p of
          None \<Rightarrow> (\<forall>w f. \<not> pipe_end s p w f)
        | Some q \<Rightarrow> (readopen q \<or> writeopen q) \<and> (readopen q \<longleftrightarrow> (\<exists>f. pipe_end s p False f))
            \<and> (writeopen q \<longleftrightarrow> (\<exists>f. pipe_end s p True f)))"

lemma more_files: "fsys.more s' = fsys.more s \<Longrightarrow> ftable s' = ftable s \<and> pipes s' = pipes s"
  by (cases s; cases s') simp

lemma files_ok_cong: "ftable s' = ftable s \<Longrightarrow> pipes s' = pipes s \<Longrightarrow> files_ok s' h = files_ok s h"
proof -
  assume a: "ftable s' = ftable s" "pipes s' = pipes s"
  then have e: "pipe_end s' = pipe_end s" by (simp add: fun_eq_iff pipe_end_def)
  show ?thesis unfolding files_ok_def a e ..
qed

lemma upd_file_nth [simp]:
  "f < length (ftable s) \<Longrightarrow> ftable (upd_file f g s) ! j = (if j = f then g (ftable s ! f) else ftable s ! j)"
  "length (ftable (upd_file f g s)) = length (ftable s)" "pipes (upd_file f g s) = pipes s"
  by (simp_all add: upd_file_def)

lemma files_okD:
  assumes "files_ok s h"
  shows "length (ftable s) = NFILE" "f < NFILE \<Longrightarrow> f_ref (ftable s ! f) = int (h f)"
    "f < NFILE \<Longrightarrow> h f = 0 \<Longrightarrow> f_type (ftable s ! f) = FD_NONE"
    "pipe_end s p w f \<Longrightarrow> pipe_end s p w g \<Longrightarrow> f = g"
    "pipes s p = None \<Longrightarrow> \<not> pipe_end s p w f"
    "pipes s p = Some q \<Longrightarrow> (readopen q \<or> writeopen q) \<and> (readopen q \<longleftrightarrow> (\<exists>f. pipe_end s p False f))
       \<and> (writeopen q \<longleftrightarrow> (\<exists>f. pipe_end s p True f))"
  using assms unfolding files_ok_def by (auto dest!: spec [of _ p] split: option.splits)

text \<open>Changes that do not affect which files are ends of pipes.\<close>

lemma files_ok_same_ends:
  assumes ok: "files_ok s h" and p: "pipes s' = pipes s" and l: "length (ftable s') = NFILE"
    and r: "\<And>f. f < NFILE \<Longrightarrow> f_ref (ftable s' ! f) = int (h' f)"
    and z: "\<And>f. f < NFILE \<Longrightarrow> h' f = 0 \<Longrightarrow> f_type (ftable s' ! f) = FD_NONE"
    and e: "\<And>p w f. pipe_end s' p w f = pipe_end s p w f"
  shows "files_ok s' h'"
  using ok unfolding files_ok_def p e by (simp add: l r z)

lemma filedup_ok:
  assumes ok: "files_ok s h" and f: "f < NFILE" and r: "filedup f s = Inr s'"
  shows "files_ok s' (h(f := h f + 1))"
proof (rule files_ok_same_ends [OF ok])
  have s': "s' = upd_file f (\<lambda>x. x\<lparr>f_ref := f_ref x + 1\<rparr>) s" using r by (auto simp: filedup_def split: if_splits)
  note d = files_okD [OF ok]
  show "pipes s' = pipes s" "length (ftable s') = NFILE" using d(1) by (simp_all add: s')
  show "f_ref (ftable s' ! g) = int ((h(f := h f + 1)) g)" if "g < NFILE" for g
    using d(1) d(2) [OF that] f by (auto simp: s')
  show "f_type (ftable s' ! g) = FD_NONE" if "g < NFILE" "(h(f := h f + 1)) g = 0" for g
    using d(1) d(3) [OF that(1)] that(2) f by (auto simp: s' split: if_splits)
  show "pipe_end s' p w g = pipe_end s p w g" for p w g using d(1) f by (auto simp: pipe_end_def s')
qed

lemma files_ok_off:
  assumes ok: "files_ok s h" and f: "f < NFILE"
  shows "files_ok (upd_file f (\<lambda>x. x\<lparr>f_off := k x\<rparr>) s) h"
  by (rule files_ok_same_ends [OF ok]) (use files_okD(1-3) [OF ok] f in \<open>auto simp: pipe_end_def\<close>)

lemma pipe_end_upd:
  assumes "length (ftable s) = NFILE" and "f < NFILE"
  shows "pipe_end (upd_file f g s) p w j \<longleftrightarrow> (if j = f then f_type (g (ftable s ! f)) = FD_PIPE
      \<and> f_pipe (g (ftable s ! f)) = p \<and> f_writable (g (ftable s ! f)) = w else pipe_end s p w j)"
  using assms by (auto simp: pipe_end_def)

text \<open>Dropping the last reference: the file loses its type, and its end of the pipe is closed.\<close>

lemma pipeclose_ok:
  assumes ok: "files_ok s h" and f: "f < NFILE" "h f = 1" "f_type (ftable s ! f) = FD_PIPE"
    and s1: "s1 = upd_file f (\<lambda>x. x\<lparr>f_ref := 0, f_type := FD_NONE\<rparr>) s"
    and r: "pipeclose (f_pipe (ftable s ! f)) (f_writable (ftable s ! f)) s1 = Inr s'"
  shows "files_ok s' (h(f := 0))"
proof -
  let ?p = "f_pipe (ftable s ! f)" and ?w = "f_writable (ftable s ! f)"
  note d = files_okD [OF ok]
  have me: "pipe_end s ?p ?w f" using f by (simp add: pipe_end_def)
  obtain q where q: "pipes s ?p = Some q" using d(5) [of ?p ?w f] me by (cases "pipes s ?p") auto
  note dq = d(6) [OF q]
  let ?q = "close_end ?w q"
  have s': "s' = s1\<lparr>pipes := (pipes s)(?p := (if \<not> readopen ?q \<and> \<not> writeopen ?q then None else Some ?q))\<rparr>"
    using r q by (simp add: pipeclose_def s1 Let_def)
  then have hp: "pipes s' = (pipes s)(?p := (if \<not> readopen ?q \<and> \<not> writeopen ?q then None else Some ?q))" by simp
  have e: "pipe_end s' p w g \<longleftrightarrow> g \<noteq> f \<and> pipe_end s p w g" for p w g
    using pipe_end_upd [OF d(1) f(1), of "\<lambda>x. x\<lparr>f_ref := 0, f_type := FD_NONE\<rparr>"] by (simp add: s' s1 pipe_end_def)
  have other: "\<not> pipe_end s p w f" if "p \<noteq> ?p \<or> w \<noteq> ?w" for p w using that by (auto simp: pipe_end_def)
  have none: "\<not> pipe_end s' ?p ?w g" for g using d(4) [OF me, of g] by (auto simp: e)
  have "case pipes s' p of None \<Rightarrow> (\<forall>w f. \<not> pipe_end s' p w f)
      | Some q \<Rightarrow> (readopen q \<or> writeopen q) \<and> (readopen q \<longleftrightarrow> (\<exists>f. pipe_end s' p False f))
          \<and> (writeopen q \<longleftrightarrow> (\<exists>f. pipe_end s' p True f))" for p
  proof (cases "p = ?p")
    case True
    have "(\<exists>g. pipe_end s' ?p (\<not> ?w) g) \<longleftrightarrow> (\<exists>g. pipe_end s ?p (\<not> ?w) g)"
      using other [of ?p "\<not> ?w"] by (auto simp: e)
    then show ?thesis
      using True none dq hp by (cases ?w) (auto simp: close_end_def all_bool_eq)
  next
    case False
    then have "pipe_end s' p = pipe_end s p" using other [of p] by (auto simp: e fun_eq_iff)
    moreover have "pipes s' p = pipes s p" using False hp by simp
    ultimately show ?thesis using d(5) [of p] d(6) [of p] by (cases "pipes s p") auto
  qed
  moreover have "f_ref (ftable s' ! g) = int ((h(f := 0)) g)" if "g < NFILE" for g
    using d(1) d(2) [OF that] f by (simp add: s' s1)
  moreover have "f_type (ftable s' ! g) = FD_NONE" if "g < NFILE" "(h(f := 0)) g = 0" for g
    using d(1) d(3) [OF that(1)] that(2) f by (simp add: s' s1 split: if_splits)
  moreover have "length (ftable s') = NFILE" using d(1) by (simp add: s' s1)
  moreover have "g = g'" if "pipe_end s' p w g" "pipe_end s' p w g'" for p w g g' using d(4) that by (auto simp: e)
  ultimately show ?thesis unfolding files_ok_def by blast
qed

lemma fileclose_ok:
  assumes ok: "files_ok s h" and f: "f < NFILE" "0 < h f" and r: "fileclose f s = Inr s'"
  shows "files_ok s' (h(f := h f - 1))"
proof (cases "h f = 1")
  case False
  note d = files_okD [OF ok]
  have s': "s' = upd_file f (\<lambda>x. x\<lparr>f_ref := f_ref x - 1\<rparr>) s"
    using r d(1) d(2) [OF f(1)] f False by (auto simp: fileclose_def Let_def split: if_splits)
  show ?thesis
    by (rule files_ok_same_ends [OF ok]) (use d(1-3) f False in \<open>auto simp: s' pipe_end_def split: if_splits\<close>)
next
  case True
  note d = files_okD [OF ok]
  let ?ff = "ftable s ! f" and ?s1 = "upd_file f (\<lambda>x. x\<lparr>f_ref := 0, f_type := FD_NONE\<rparr>) s"
  have up: "upd_file f (\<lambda>x. x\<lparr>f_ref := 0, f_type := FD_NONE\<rparr>) (upd_file f (\<lambda>x. x\<lparr>f_ref := f_ref x - 1\<rparr>) s) = ?s1"
    using d(1) f by (simp add: upd_file_def)
  have run: "(case f_type ?ff of FD_PIPE \<Rightarrow> pipeclose (f_pipe ?ff) (f_writable ?ff) ?s1
      | FD_INODE \<Rightarrow> bnd (begin_op ?s1) (\<lambda>s. bnd (iput (f_ip ?ff) s) end_op) | FD_NONE \<Rightarrow> Inr ?s1) = Inr s'"
    using r d(1) d(2) [OF f(1)] f True by (simp add: fileclose_def Let_def up cong: fdtype.case_cong)
  show ?thesis
  proof (cases "f_type ?ff = FD_PIPE")
    case pipe: True
    then show ?thesis using pipeclose_ok [OF ok f(1) True pipe refl] run True by simp
  next
    case False
    then have "fsys.more s' = fsys.more ?s1"
      using run by (cases "f_type ?ff") (auto simp: bnd_eq_Inr dest!: begin_op_fs iput_fs end_op_fs)
    then have "ftable s' = ftable ?s1" "pipes s' = pipes ?s1" using more_files by blast+
    then show ?thesis
      by (intro files_ok_same_ends [OF ok]) (use d(1-3) f True False in \<open>auto simp: pipe_end_def split: if_splits\<close>)
  qed
qed

lemma filealloc_spec:
  assumes "filealloc s = (Some f, s')"
  shows "f < NFILE" "f_ref (ftable s ! f) = 0" "s' = upd_file f (\<lambda>x. x\<lparr>f_ref := 1\<rparr>) s"
  using assms by (auto simp: filealloc_def find_Some_iff split: option.splits)

lemma filealloc_ok:
  assumes ok: "files_ok s h" and a: "filealloc s = (Some f, s')"
  shows "files_ok s' (h(f := 1))" "h f = 0" "f < NFILE"
proof -
  note d = files_okD [OF ok] and sp = filealloc_spec [OF a]
  show "h f = 0" "f < NFILE" using d(2) [OF sp(1)] sp by auto
  show "files_ok s' (h(f := 1))"
    by (rule files_ok_same_ends [OF ok]) (use d(1-3) sp(1) in \<open>auto simp: sp(3) pipe_end_def split: if_splits\<close>)
qed

text \<open>An open file without a type is given one.\<close>

lemma open_inode_ok:
  assumes ok: "files_ok s h" and f: "f < NFILE" "h f \<noteq> 0" "f_type (ftable s ! f) = FD_NONE"
  shows "files_ok (upd_file f (\<lambda>x. x\<lparr>f_type := FD_INODE, f_ip := ip, f_off := 0, f_readable := r, f_writable := w\<rparr>) s) h"
  by (rule files_ok_same_ends [OF ok]) (use files_okD(1-3) [OF ok] f in \<open>auto simp: pipe_end_def split: if_splits\<close>)

lemma new_pipe_ok:
  assumes ok: "files_ok s h" and r: "r < NFILE" "h r \<noteq> 0" "f_type (ftable s ! r) = FD_NONE"
    and w: "w < NFILE" "h w \<noteq> 0" "f_type (ftable s ! w) = FD_NONE" and rw: "r \<noteq> w" and p: "pipes s p = None"
    and s': "s' = upd_file w (\<lambda>x. x\<lparr>f_type := FD_PIPE, f_readable := False, f_writable := True, f_pipe := p\<rparr>)
      (upd_file r (\<lambda>x. x\<lparr>f_type := FD_PIPE, f_readable := True, f_writable := False, f_pipe := p\<rparr>)
      (s\<lparr>pipes := (pipes s)(p \<mapsto> new_pipe junk)\<rparr>))"
  shows "files_ok s' h"
proof -
  note d = files_okD [OF ok]
  have ft: "ftable s' ! g = (if g = w then (ftable s ! w)\<lparr>f_type := FD_PIPE, f_readable := False, f_writable := True, f_pipe := p\<rparr>
      else if g = r then (ftable s ! r)\<lparr>f_type := FD_PIPE, f_readable := True, f_writable := False, f_pipe := p\<rparr>
      else ftable s ! g)" for g
    using d(1) r(1) w(1) rw by (simp add: s')
  have e: "pipe_end s' p' b g \<longleftrightarrow> (if g = w then p' = p \<and> b else if g = r then p' = p \<and> \<not> b else pipe_end s p' b g)" for p' b g
    using r(1) w(1) by (auto simp: pipe_end_def ft)
  have no: "\<not> pipe_end s p b g" for b g by (rule d(5) [OF p])
  have nw: "\<not> pipe_end s p' b w" "\<not> pipe_end s p' b r" for p' b using r w by (simp_all add: pipe_end_def)
  have "case pipes s' p' of None \<Rightarrow> (\<forall>w f. \<not> pipe_end s' p' w f)
      | Some q \<Rightarrow> (readopen q \<or> writeopen q) \<and> (readopen q \<longleftrightarrow> (\<exists>f. pipe_end s' p' False f))
          \<and> (writeopen q \<longleftrightarrow> (\<exists>f. pipe_end s' p' True f))" for p'
  proof (cases "p' = p")
    case True
    then have "pipe_end s' p' True w" "pipe_end s' p' False r" using rw by (simp_all add: e)
    then show ?thesis using True by (auto simp: s' new_pipe_def)
  next
    case False
    then have "pipe_end s' p' = pipe_end s p'" using nw by (auto simp: e fun_eq_iff)
    moreover have "pipes s' p' = pipes s p'" using False by (simp add: s')
    ultimately show ?thesis using d(5) [of p'] d(6) [of p'] by (cases "pipes s p'") auto
  qed
  moreover have "g = g'" if "pipe_end s' p' b g" "pipe_end s' p' b g'" for p' b g g'
    using that d(4) [of p' b g g'] no [of b] by (auto simp: e split: if_splits)
  moreover have "f_ref (ftable s' ! g) = int (h g)" "h g = 0 \<longrightarrow> f_type (ftable s' ! g) = FD_NONE" if "g < NFILE" for g
    using d(2,3) [OF that] r(2) w(2) by (auto simp: ft)
  moreover have "length (ftable s') = NFILE" using d(1) by (simp add: s')
  ultimately show ?thesis unfolding files_ok_def by blast
qed

section \<open>The life of an open file\<close>

text \<open>Device functions that touch neither the table of open files nor the pipes.\<close>

definition devs_ok :: "(nat \<Rightarrow> 'a filesys_scheme devsw) \<Rightarrow> bool" where
  "devs_ok devsw \<longleftrightarrow> (\<forall>d.
     (\<forall>rd i off n s r bytes s'. dev_read (devsw d) = Some rd \<longrightarrow> rd i off n s = Inr (r, bytes, s') \<longrightarrow> fsys.more s' = fsys.more s)
   \<and> (\<forall>wr i off src s r s'. dev_write (devsw d) = Some wr \<longrightarrow> wr i off src s = Inr (r, s') \<longrightarrow> fsys.more s' = fsys.more s))"

lemma readi_fs: "devs_ok devsw \<Longrightarrow> readi devsw i off n s = Inr (r, bytes, s') \<Longrightarrow> fsys.more s' = fsys.more s"
  by (auto simp: readi_def Let_def dev_entry_def bnd_eq_Inr devs_ok_def split: if_splits option.splits bind_splits
      dest!: readi_loop_fs)

lemma writei_fs: "devs_ok devsw \<Longrightarrow> writei devsw i src off s = Inr (r, s') \<Longrightarrow> fsys.more s' = fsys.more s"
  by (auto simp: writei_def Let_def dev_entry_def bnd_eq_Inr devs_ok_def split: if_splits option.splits bind_splits
      dest!: writei_loop_fs iupdate_fs)

lemma files_ok_fs: "fsys.more s' = fsys.more s \<Longrightarrow> files_ok s' h = files_ok s h"
  using files_ok_cong more_files by blast

lemma files_ok_pipe:
  assumes ok: "files_ok s h" and q: "pipes s p = Some q" "readopen q' = readopen q" "writeopen q' = writeopen q"
  shows "files_ok (s\<lparr>pipes := (pipes s)(p \<mapsto> q')\<rparr>) h"
proof -
  have e: "pipe_end (s\<lparr>pipes := (pipes s)(p \<mapsto> q')\<rparr>) = pipe_end s" by (simp add: fun_eq_iff pipe_end_def)
  show ?thesis
    unfolding files_ok_def e using files_okD [OF ok] q by (auto split: option.splits; blast)
qed

lemma pipewrite_loop_flags:
  "pipewrite_loop k n q src = (q', rest, out) \<Longrightarrow> readopen q' = readopen q \<and> writeopen q' = writeopen q"
  by (induction k n q src rule: pipewrite_loop.induct) (auto simp: pipe_put_def split: if_splits)

lemma piperead_loop_flags:
  "piperead_loop q n = (bytes, q') \<Longrightarrow> readopen q' = readopen q \<and> writeopen q' = writeopen q"
  by (induction q n arbitrary: bytes rule: piperead_loop.induct) (auto simp: pipe_get_def split: if_splits prod.splits)

lemma fileread_ok:
  assumes ok: "files_ok s h" and f: "f < NFILE" and dv: "devs_ok devsw" and r: "fileread devsw k f n s = Inr (x, bytes, s')"
  shows "files_ok s' h"
proof (cases "f_type (ftable s ! f)")
  case FD_PIPE
  then show ?thesis
    using r files_ok_pipe [OF ok]
    by (auto simp: fileread_def Let_def piperead_def split: if_splits option.splits prod.splits outcome.splits
        dest!: piperead_loop_flags) (use ok in simp)
next
  case FD_INODE
  show ?thesis
  proof (cases "f_readable (ftable s ! f)")
    case True
    then obtain s1 s2 b where l: "ilock (f_ip (ftable s ! f)) s = Inr s1"
      and rd: "readi devsw (f_ip (ftable s ! f)) (f_off (ftable s ! f)) (of_int n) s1 = Inr (x, b, s2)"
      and s': "iunlock (f_ip (ftable s ! f)) (if x > 0 then upd_file f (\<lambda>y. y\<lparr>f_off := f_off y + of_int x\<rparr>) s2 else s2) = Inr s'"
      using r FD_INODE by (auto simp: fileread_def Let_def bnd_eq_Inr)
    have "fsys.more s2 = fsys.more s" using ilock_fs [OF l] readi_fs [OF dv rd] by simp
    then have "files_ok s2 h" using files_ok_fs [of s2 s h] ok by simp
    then show ?thesis using files_ok_off [OF _ f] files_ok_fs [OF iunlock_fs [OF s']] by auto
  qed (use r FD_INODE ok in \<open>simp add: fileread_def Let_def\<close>)
qed (use r ok in \<open>auto simp: fileread_def Let_def split: if_splits\<close>)


lemma filewrite_loop_ok:
  assumes "files_ok s h" and f: "f < NFILE" and dv: "devs_ok devsw" and "filewrite_loop devsw f src s = Inr (b, s')"
  shows "files_ok s' h"
  using assms(1,4)
proof (induction "length src" arbitrary: src s rule: less_induct)
  case less
  show ?case
  proof (cases "src = []")
    case True
    then show ?thesis using less.prems by (simp add: filewrite_loop.simps)
  next
    case False
    let ?n = "min (length src) max_write" and ?ip = "f_ip (ftable s ! f)"
    obtain s1 s2 x s3 s4 s5 where s1: "begin_op s = Inr s1" and s2: "ilock ?ip s1 = Inr s2"
      and s3: "writei devsw ?ip (take ?n src) (f_off (ftable s2 ! f)) s2 = Inr (x, s3)"
      and s4: "iunlock ?ip (if x > 0 then upd_file f (\<lambda>y. y\<lparr>f_off := f_off y + of_int x\<rparr>) s3 else s3) = Inr s4"
      and s5: "end_op s4 = Inr s5"
      and rest: "(if x < 0 then Inr (False, s5) else if x \<noteq> int ?n then Inl (Panic ''short filewrite'')
        else filewrite_loop devsw f (drop ?n src) s5) = Inr (b, s')"
      using less.prems(2) False by (subst (asm) filewrite_loop.simps) (auto simp: Let_def bnd_eq_Inr)
    have "fsys.more s3 = fsys.more s" using begin_op_fs [OF s1] ilock_fs [OF s2] writei_fs [OF dv s3] by simp
    then have "files_ok s3 h" using files_ok_fs [of s3 s h] less.prems(1) by simp
    then have "files_ok s4 h" using files_ok_off [OF _ f] files_ok_fs [OF iunlock_fs [OF s4]] by auto
    then have ok5: "files_ok s5 h" using files_ok_fs [OF end_op_fs [OF s5]] by simp
    have "length (drop ?n src) < length src" using False by (simp add: max_write_def LOGSIZE_def)
    from less.hyps [OF this ok5] show ?thesis using rest ok5 by (auto split: if_splits)
  qed
qed

lemma filewrite_ok:
  assumes ok: "files_ok s h" and f: "f < NFILE" and dv: "devs_ok devsw" and r: "filewrite devsw k f src s = Inr (x, s')"
  shows "files_ok s' h"
proof (cases "f_type (ftable s ! f)")
  case FD_PIPE
  then show ?thesis
    using r ok files_ok_pipe [OF ok]
    by (auto simp: filewrite_def Let_def pipewrite_def split: if_splits option.splits prod.splits outcome.splits
        dest!: pipewrite_loop_flags)
next
  case FD_INODE
  then show ?thesis
    using r ok filewrite_loop_ok [OF ok f dv] by (auto simp: filewrite_def Let_def bnd_eq_Inr split: if_splits)
qed (use r ok in \<open>auto simp: filewrite_def Let_def split: if_splits\<close>)

lemma filealloc_type:
  assumes ok: "files_ok s h" and a: "filealloc s = (Some f, s')"
  shows "f_type (ftable s' ! g) = f_type (ftable s ! g)" "f_type (ftable s' ! f) = FD_NONE" "pipes s' = pipes s"
  using files_okD(1) [OF ok] files_okD(3) [OF ok] filealloc_ok(2,3) [OF ok a] filealloc_spec [OF a] by auto

lemma close_new_ok:
  assumes ok: "files_ok s h" and f: "f < NFILE" "h f = 1" and c: "close_opt (Some f) s = Inr s'"
  shows "files_ok s' (h(f := 0))"
  using fileclose_ok [OF ok f(1)] f(2) c by (simp add: close_opt_def)

lemma pipealloc_ok:
  assumes ok: "files_ok s h" and r: "pipealloc page junk s = Inr (res, s')" and p: "\<And>p. page = Some p \<Longrightarrow> pipes s p = None"
  shows "case res of None \<Rightarrow> files_ok s' h | Some (f, g) \<Rightarrow> files_ok s' (h(f := 1, g := 1)) \<and> h f = 0 \<and> h g = 0"
proof (cases "filealloc s")
  case (Pair f0 s0)
  show ?thesis
  proof (cases f0)
    case None
    then have "s0 = s" using Pair by (auto simp: filealloc_def split: option.splits)
    then show ?thesis using r Pair None ok by (simp add: pipealloc_def close_opt_def)
  next
    case (Some f)
    note ok0 = filealloc_ok [OF ok Pair [unfolded Some]] and ty0 = filealloc_type [OF ok Pair [unfolded Some]]
    obtain f1 s1 where a1: "filealloc s0 = (f1, s1)" by (cases "filealloc s0")
    show ?thesis
    proof (cases f1)
      case None
      then have "s1 = s0" using a1 by (auto simp: filealloc_def split: option.splits)
      then have c: "close_opt (Some f) s0 = Inr s'" "res = None"
        using r Pair Some None a1 by (auto simp: pipealloc_def bnd_eq_Inr close_opt_def)
      then show ?thesis using close_new_ok [OF ok0(1) ok0(3) _ c(1)] ok0(2) by (simp add: fun_upd_idem)
    next
      case (Some g)
      note ok1 = filealloc_ok [OF ok0(1) a1 [unfolded Some]] and ty1 = filealloc_type [OF ok0(1) a1 [unfolded Some]]
      have ne: "g \<noteq> f" and hg: "h g = 0" using ok1(2) by (auto split: if_splits)
      show ?thesis
      proof (cases page)
        case None
        then obtain s2 where c: "close_opt (Some f) s1 = Inr s2" "close_opt (Some g) s2 = Inr s'" "res = None"
          using r Pair \<open>f0 = Some f\<close> Some a1 by (auto simp: pipealloc_def bnd_eq_Inr)
        have "files_ok s2 (h(f := 0, g := 1))" using close_new_ok [OF ok1(1) ok0(3) _ c(1)] ne by (simp add: fun_upd_twist)
        then show ?thesis
          using close_new_ok [OF _ ok1(3) _ c(2), of "h(f := 0, g := 1)"] ok0(2) hg c(3) by (simp add: fun_upd_idem)
      next
        case (Some p)
        have "files_ok s' (h(f := 1, g := 1))"
          by (rule new_pipe_ok [OF ok1(1) ok0(3) _ _ ok1(3), where p = p and junk = junk])
            (use r Pair \<open>f0 = Some f\<close> \<open>f1 = Some g\<close> a1 Some ty0 ty1 ne assms(3) in \<open>auto simp: pipealloc_def Let_def\<close>)
        moreover have "res = Some (f, g)" using r Pair \<open>f0 = Some f\<close> \<open>f1 = Some g\<close> a1 Some by (simp add: pipealloc_def Let_def)
        ultimately show ?thesis using ok0(2) hg by simp
      qed
    qed
  qed
qed

text \<open>
  The kernel and the references \<open>h\<close> it holds to open files: \<^verbatim>\<open>sys_open\<close> types a file it has just
  allocated, \<^verbatim>\<open>pipealloc\<close> is given a page that holds no pipe, and the other calls are made on files
  that are held.
\<close>

inductive file_step :: "(nat \<Rightarrow> 'a filesys_scheme devsw) \<Rightarrow> 'a filesys_scheme \<times> (nat \<Rightarrow> nat)
    \<Rightarrow> 'a filesys_scheme \<times> (nat \<Rightarrow> nat) \<Rightarrow> bool" for devsw where
  fs_open: "filealloc s = (Some f, s1) \<Longrightarrow>
     file_step devsw (s, h) (upd_file f (\<lambda>x. x\<lparr>f_type := FD_INODE, f_ip := ip, f_off := 0, f_readable := r, f_writable := w\<rparr>) s1,
       h(f := 1))"
| fs_pipe: "pipes s p = None \<Longrightarrow> pipealloc (Some p) junk s = Inr (Some (f, g), s') \<Longrightarrow>
     file_step devsw (s, h) (s', h(f := 1, g := 1))"
| fs_nopipe: "(\<And>p. page = Some p \<Longrightarrow> pipes s p = None) \<Longrightarrow> pipealloc page junk s = Inr (None, s') \<Longrightarrow>
     file_step devsw (s, h) (s', h)"
| fs_dup: "f < NFILE \<Longrightarrow> 0 < h f \<Longrightarrow> filedup f s = Inr s' \<Longrightarrow> file_step devsw (s, h) (s', h(f := h f + 1))"
| fs_close: "f < NFILE \<Longrightarrow> 0 < h f \<Longrightarrow> fileclose f s = Inr s' \<Longrightarrow> file_step devsw (s, h) (s', h(f := h f - 1))"
| fs_read: "f < NFILE \<Longrightarrow> 0 < h f \<Longrightarrow> fileread devsw k f n s = Inr (x, bytes, s') \<Longrightarrow> file_step devsw (s, h) (s', h)"
| fs_write: "f < NFILE \<Longrightarrow> 0 < h f \<Longrightarrow> filewrite devsw k f src s = Inr (x, s') \<Longrightarrow> file_step devsw (s, h) (s', h)"

lemma file_step_ok:
  assumes "file_step devsw x y" and "files_ok (fst x) (snd x)" and dv: "devs_ok devsw"
  shows "files_ok (fst y) (snd y)"
  using assms(1,2)
proof (cases rule: file_step.cases)
  case (fs_open s f s1 h ip r w)
  then have ok: "files_ok s h" using assms(2) by simp
  note o = filealloc_ok [OF ok fs_open(3)]
  show ?thesis
    using open_inode_ok [OF o(1,3) _ filealloc_type(2) [OF ok fs_open(3)]] fs_open by simp
next
  case (fs_pipe s p junk f g s' h)
  then show ?thesis using pipealloc_ok [of s h "Some p" junk "Some (f, g)" s'] assms(2) by simp
next
  case (fs_nopipe page s junk s' h)
  then show ?thesis using pipealloc_ok [of s h page junk None s'] assms(2) by simp
qed (use assms(2) dv in \<open>auto dest: filedup_ok fileclose_ok fileread_ok filewrite_ok\<close>)

lemma file_steps_ok:
  assumes "(file_step devsw)\<^sup>*\<^sup>* x y" and "files_ok (fst x) (snd x)" and "devs_ok devsw"
  shows "files_ok (fst y) (snd y)"
  using assms by (induction rule: rtranclp_induct) (auto intro: file_step_ok)

text \<open>
  C19. Open files and pipes. Start with a table of unused files and no pipes and open inodes, create
  pipes, duplicate, close, read and write files in any order, always on files that are held, with
  devices that leave the tables alone. Then every file's count is the number of its holders, and a
  file that is an end of a pipe refers to a pipe that still exists and whose flag for that end is
  set, so that no operation on it uses freed memory; conversely, a pipe whose two ends have been
  closed is gone.
\<close>

theorem file_pipe_lifetime:
  fixes s0 :: "'a filesys_scheme"
  assumes "length (ftable s0) = NFILE" and "\<forall>x\<in>set (ftable s0). f_ref x = 0 \<and> f_type x = FD_NONE" and "\<forall>p. pipes s0 p = None"
    and "devs_ok devsw" and "(file_step devsw)\<^sup>*\<^sup>* (s0, \<lambda>_. 0) (s, h)"
  shows "(\<forall>f<NFILE. f_ref (ftable s ! f) = int (h f))
    \<and> (\<forall>f<NFILE. f_type (ftable s ! f) = FD_PIPE \<longrightarrow>
         (\<exists>q. pipes s (f_pipe (ftable s ! f)) = Some q \<and> (if f_writable (ftable s ! f) then writeopen q else readopen q)))
    \<and> (\<forall>p q. pipes s p = Some q \<longrightarrow> (\<exists>f<NFILE. 0 < h f \<and> f_type (ftable s ! f) = FD_PIPE \<and> f_pipe (ftable s ! f) = p))"
proof -
  have "files_ok s0 (\<lambda>_. 0)" using assms(1-3) by (auto simp: files_ok_def pipe_end_def)
  then have ok: "files_ok s h" using file_steps_ok [OF assms(5)] assms(4) by simp
  note d = files_okD [OF ok]
  have ends: "\<exists>q. pipes s (f_pipe (ftable s ! f)) = Some q \<and> (if f_writable (ftable s ! f) then writeopen q else readopen q)"
    if "f < NFILE" "f_type (ftable s ! f) = FD_PIPE" for f
  proof -
    let ?p = "f_pipe (ftable s ! f)"
    have me: "pipe_end s ?p (f_writable (ftable s ! f)) f" using that by (simp add: pipe_end_def)
    then obtain q where "pipes s ?p = Some q" using d(5) by (cases "pipes s ?p") auto
    then show ?thesis using d(6) [of ?p q] me by (auto split: if_splits)
  qed
  have "\<exists>f<NFILE. 0 < h f \<and> f_type (ftable s ! f) = FD_PIPE \<and> f_pipe (ftable s ! f) = p" if pq: "pipes s p = Some q" for p q
  proof -
    obtain w f where "pipe_end s p w f" using d(6) [OF pq] by auto
    then have "f < NFILE" "f_type (ftable s ! f) = FD_PIPE" "f_pipe (ftable s ! f) = p" by (simp_all add: pipe_end_def)
    then show ?thesis using d(3) [of f] by auto
  qed
  then show ?thesis using d(2) ends by auto
qed


definition demo_nofile :: file_t where
  "demo_nofile = \<lparr>f_type = FD_NONE, f_ref = 0, f_readable = False, f_writable = False, f_pipe = 0, f_ip = 0, f_off = 0\<rparr>"

definition demo_files :: filesys where
  "demo_files = fsys.extend demo_fs (filesys.fields (replicate NFILE demo_nofile) (\<lambda>_. None))"

definition demo_devs :: "nat \<Rightarrow> 's devsw" where
  "demo_devs = (\<lambda>_. \<lparr>dev_read = None, dev_write = None\<rparr>)"

theorem file_pipe_lifetime_witness:
  "\<exists>s h q. (file_step demo_devs)\<^sup>*\<^sup>* (demo_files, \<lambda>_. 0) (s, h) \<and> f_ref (ftable s ! 0) = 1 \<and> f_ref (ftable s ! 1) = 1
    \<and> f_type (ftable s ! 0) = FD_PIPE \<and> pipes s (f_pipe (ftable s ! 0)) = Some q \<and> readopen q"
proof -
  have up: "[0..<NFILE] = 0 # 1 # [2..<100]" by (simp add: NFILE_def upt_conv_Cons)
  have ft: "ftable demo_files = replicate 100 demo_nofile" and pp: "pipes demo_files = (\<lambda>_. None)"
    by (simp_all add: demo_files_def fsys.defs filesys.defs NFILE_def)
  have a0: "filealloc demo_files = (Some 0, upd_file 0 (\<lambda>x. x\<lparr>f_ref := 1\<rparr>) demo_files)"
    by (simp add: filealloc_def up ft demo_nofile_def)
  have a1: "filealloc (upd_file 0 (\<lambda>x. x\<lparr>f_ref := 1\<rparr>) demo_files)
      = (Some 1, upd_file 1 (\<lambda>x. x\<lparr>f_ref := 1\<rparr>) (upd_file 0 (\<lambda>x. x\<lparr>f_ref := 1\<rparr>) demo_files))"
    by (simp add: filealloc_def up ft demo_nofile_def)
  obtain s where s: "pipealloc (Some 4096) (replicate 512 0) demo_files = Inr (Some (0, 1), s)"
    and f0: "f_type (ftable s ! 0) = FD_PIPE" "f_writable (ftable s ! 0) = False"
    by (simp add: pipealloc_def a0 a1 ft)
  have st: "(file_step demo_devs)\<^sup>*\<^sup>* (demo_files, \<lambda>_. 0) (s, (\<lambda>_. 0)(0 := 1, 1 := 1))"
    by (rule r_into_rtranclp, rule fs_pipe [where p = 4096]) (use s pp in simp_all)
  have dv: "devs_ok (demo_devs :: nat \<Rightarrow> filesys devsw)" by (simp add: devs_ok_def demo_devs_def)
  note r = file_pipe_lifetime [OF _ _ _ dv st]
  have "length (ftable demo_files) = NFILE" "\<forall>x\<in>set (ftable demo_files). f_ref x = 0 \<and> f_type x = FD_NONE"
    "\<forall>p. pipes demo_files p = None" by (simp_all add: ft pp NFILE_def demo_nofile_def)
  note r = r [OF this]
  have "f_ref (ftable s ! 0) = 1" "f_ref (ftable s ! 1) = 1"
    using r [THEN conjunct1, rule_format, of 0] r [THEN conjunct1, rule_format, of 1] by (simp_all add: NFILE_def)
  moreover obtain q where "pipes s (f_pipe (ftable s ! 0)) = Some q" "readopen q"
    using r [THEN conjunct2, THEN conjunct1, rule_format, of 0] f0 by (auto simp: NFILE_def)
  ultimately show ?thesis using st f0(1) by blast
qed

end
