(* ===== verification/Proc.thy ===== *)
theory Proc
  imports File Pagetable
begin

text \<open>
  Processes (\<^verbatim>\<open>proc.h\<close>, \<^verbatim>\<open>proc.c\<close>): the process table, creation, exit and reaping, sleep and wakeup,
  and the scheduler. A process pointer is the index of the entry in \<^verbatim>\<open>ptable.proc\<close>. The contents of a
  trap frame are part of the process. Of a saved kernel context only the place where it resumes is
  kept. A function that calls \<^verbatim>\<open>sched\<close> ends, in the model, at the switch to the scheduler.
\<close>

section \<open>The state of the kernel\<close>

definition NPROC :: nat where "NPROC = 64"
definition NOFILE :: nat where "NOFILE = 16"
definition KSTACKSIZE :: u64 where "KSTACKSIZE = 4096"
definition FL_IF :: u64 where "FL_IF = 0x200"

record trapframe =
  tf_rax :: u64
  tf_rbx :: u64
  tf_rcx :: u64
  tf_rdx :: u64
  tf_rbp :: u64
  tf_rsi :: u64
  tf_rdi :: u64
  tf_r8 :: u64
  tf_r9 :: u64
  tf_r10 :: u64
  tf_r11 :: u64
  tf_r12 :: u64
  tf_r13 :: u64
  tf_r14 :: u64
  tf_r15 :: u64
  tf_trapno :: u64
  tf_err :: u64
  tf_rip :: u64
  tf_cs :: u64
  tf_rflags :: u64
  tf_rsp :: u64
  tf_ss :: u64

datatype procstate = UNUSED | EMBRYO | SLEEPING | RUNNABLE | RUNNING | ZOMBIE

datatype chan = NoChan | AtProc nat | AtTicks | AtAddr u64

datatype resume = AtForkret | InSched

record proc =
  p_sz :: u64
  p_pgdir :: u64
  p_kstack :: u64
  p_state :: procstate
  p_pid :: int
  p_parent :: "nat option"
  p_tf :: trapframe
  p_context :: resume
  p_chan :: chan
  p_killed :: bool
  p_ofile :: "nat option list"
  p_cwd :: "nat option"
  p_name :: "u8 list"

record kern = filesys +
  km :: kmem
  kpdpt :: u64
  ptable :: "proc list"
  cur :: nat
  initproc :: nat
  nextpid :: int
  ticks :: u32

definition upd_proc :: "nat \<Rightarrow> (proc \<Rightarrow> proc) \<Rightarrow> 'a kern_scheme \<Rightarrow> 'a kern_scheme" where
  "upd_proc i f s = s\<lparr>ptable := (ptable s)[i := f (ptable s ! i)]\<rparr>"

text \<open>The variable \<^verbatim>\<open>proc\<close>: the process running on this processor.\<close>

definition me :: "'a kern_scheme \<Rightarrow> proc" where
  "me s = ptable s ! cur s"

definition upd_me :: "(proc \<Rightarrow> proc) \<Rightarrow> 'a kern_scheme \<Rightarrow> 'a kern_scheme" where
  "upd_me f s = upd_proc (cur s) f s"

text \<open>An operation on kernel memory as an operation on the kernel's state.\<close>

definition on_mem :: "(kmem \<Rightarrow> ('b \<times> kmem) res) \<Rightarrow> 'a kern_scheme \<Rightarrow> ('b \<times> 'a kern_scheme) res" where
  "on_mem f s = bnd (f (km s)) (\<lambda>(x, m). Inr (x, s\<lparr>km := m\<rparr>))"

definition do_mem :: "(kmem \<Rightarrow> kmem res) \<Rightarrow> 'a kern_scheme \<Rightarrow> 'a kern_scheme res" where
  "do_mem f s = bnd (f (km s)) (\<lambda>m. Inr (s\<lparr>km := m\<rparr>))"

section \<open>Creating processes\<close>

definition allocproc :: "'a kern_scheme \<Rightarrow> (nat option \<times> 'a kern_scheme) res" where
  "allocproc s =
     (case List.find (\<lambda>i. p_state (ptable s ! i) = UNUSED) [0..<NPROC] of
        None \<Rightarrow> Inr (None, s)
      | Some i \<Rightarrow>
          let s = upd_proc i (\<lambda>p. p\<lparr>p_state := EMBRYO, p_pid := nextpid s\<rparr>) s; s = s\<lparr>nextpid := nextpid s + 1\<rparr>
          in bnd (on_mem kalloc s) (\<lambda>(k, s).
               let s = upd_proc i (\<lambda>p. p\<lparr>p_kstack := k\<rparr>) s
               in if k = 0 then Inr (None, upd_proc i (\<lambda>p. p\<lparr>p_state := UNUSED\<rparr>) s)
                  else Inr (Some i, upd_proc i (\<lambda>p. p\<lparr>p_context := AtForkret\<rparr>) s)))"

definition zero_tf :: trapframe where
  "zero_tf = \<lparr>tf_rax = 0, tf_rbx = 0, tf_rcx = 0, tf_rdx = 0, tf_rbp = 0, tf_rsi = 0, tf_rdi = 0, tf_r8 = 0, tf_r9 = 0,
     tf_r10 = 0, tf_r11 = 0, tf_r12 = 0, tf_r13 = 0, tf_r14 = 0, tf_r15 = 0, tf_trapno = 0, tf_err = 0, tf_rip = 0,
     tf_cs = 0, tf_rflags = 0, tf_rsp = 0, tf_ss = 0\<rparr>"

text \<open>\<^verbatim>\<open>safestrcpy(p->name, s, sizeof(p->name))\<close>: at most 15 bytes and a zero byte.\<close>

definition proc_name :: "u8 list \<Rightarrow> u8 list" where
  "proc_name t = takeWhile (\<lambda>c. c \<noteq> 0) (take 15 t)"

definition initcode_name :: "u8 list" where
  "initcode_name = [105, 110, 105, 116, 99, 111, 100, 101]"

text \<open>
  The image of \<^verbatim>\<open>initcode.S\<close> lies at address \<open>initcode\<close> and has \<open>codesize\<close> bytes. The path is absolute,
  so that the current directory given to \<open>namei\<close> is not used.
\<close>

definition userinit :: "(nat \<Rightarrow> 'a kern_scheme devsw) \<Rightarrow> u64 \<Rightarrow> u32 \<Rightarrow> 'a kern_scheme \<Rightarrow> 'a kern_scheme res" where
  "userinit devsw initcode codesize s =
     bnd (allocproc s) (\<lambda>(np, s).
       case np of None \<Rightarrow> Inl Fault
       | Some i \<Rightarrow>
         let s = s\<lparr>initproc := i\<rparr>
         in bnd (on_mem (\<lambda>m. setupkvm m (kpdpt s)) s) (\<lambda>(pgdir, s).
              let s = upd_proc i (\<lambda>p. p\<lparr>p_pgdir := pgdir\<rparr>) s
              in if pgdir = 0 then Inl (Panic ''userinit: out of memory?'')
                 else bnd (do_mem (\<lambda>m. inituvm m pgdir initcode codesize) s) (\<lambda>s.
                      bnd (namei devsw 0 [slash] (upd_proc i (\<lambda>p. p\<lparr>p_sz := PGSIZE * 2,
                             p_tf := zero_tf\<lparr>tf_r11 := FL_IF, tf_rsp := PGSIZE * 2, tf_rcx := PGSIZE\<rparr>,
                             p_name := proc_name initcode_name\<rparr>) s)) (\<lambda>(ip, s).
                      Inr (upd_proc i (\<lambda>p. p\<lparr>p_cwd := ip, p_state := RUNNABLE\<rparr>) s)))))"

definition growproc :: "64 word \<Rightarrow> 'a kern_scheme \<Rightarrow> (int \<times> 'a kern_scheme) res" where
  "growproc n s =
     (let sz = p_sz (me s); pgdir = p_pgdir (me s)
      in bnd (if sint n > 0 then on_mem (\<lambda>m. allocuvm m pgdir sz (sz + n)) s
              else if sint n < 0 then on_mem (\<lambda>m. deallocuvm m pgdir sz (sz + n)) s
              else Inr (sz, s)) (\<lambda>(sz', s).
           if sint n \<noteq> 0 \<and> sz' = 0 then Inr (-1, s)
           else Inr (0, upd_me (\<lambda>p. p\<lparr>p_sz := sz'\<rparr>) s)))"

text \<open>Duplicating the parent's open files into the child \<open>i\<close>.\<close>

definition dup_fd :: "nat \<Rightarrow> nat \<Rightarrow> 'a kern_scheme \<Rightarrow> 'a kern_scheme res" where
  "dup_fd i fd s =
     (case p_ofile (me s) ! fd of None \<Rightarrow> Inr s
      | Some f \<Rightarrow> bnd (filedup f s) (\<lambda>s. Inr (upd_proc i (\<lambda>p. p\<lparr>p_ofile := (p_ofile p)[fd := Some f]\<rparr>) s)))"

definition fork :: "'a kern_scheme \<Rightarrow> (int \<times> 'a kern_scheme) res" where
  "fork s =
     bnd (allocproc s) (\<lambda>(np, s).
       case np of None \<Rightarrow> Inr (-1, s)
       | Some i \<Rightarrow>
         bnd (on_mem (\<lambda>m. copyuvm m (kpdpt s) (p_pgdir (me s)) (ucast (p_sz (me s)))) s) (\<lambda>(pgdir, s).
           let s = upd_proc i (\<lambda>p. p\<lparr>p_pgdir := pgdir\<rparr>) s
           in if pgdir = 0
              then bnd (do_mem (\<lambda>m. krelease m (p_kstack (ptable s ! i))) s) (\<lambda>s.
                     Inr (-1, upd_proc i (\<lambda>p. p\<lparr>p_kstack := 0, p_state := UNUSED\<rparr>) s))
              else let s = upd_proc i (\<lambda>p. p\<lparr>p_sz := p_sz (me s), p_parent := Some (cur s),
                             p_tf := (p_tf (me s))\<lparr>tf_rax := 0\<rparr>\<rparr>) s
                in bnd (for_each [0..<NOFILE] (dup_fd i) s) (\<lambda>s.
                     case p_cwd (me s) of None \<Rightarrow> Inl Fault
                     | Some c \<Rightarrow>
                       let s = upd_proc i (\<lambda>p. p\<lparr>p_cwd := Some c, p_name := proc_name (p_name (me s))\<rparr>) (idup c s)
                       in Inr (p_pid (ptable s ! i), upd_proc i (\<lambda>p. p\<lparr>p_state := RUNNABLE\<rparr>) s))))"

section \<open>Sleep, wakeup and kill\<close>

definition wake :: "chan \<Rightarrow> proc \<Rightarrow> proc" where
  "wake ch p = (if p_state p = SLEEPING \<and> p_chan p = ch then p\<lparr>p_state := RUNNABLE\<rparr> else p)"

definition wakeup1 :: "chan \<Rightarrow> 'a kern_scheme \<Rightarrow> 'a kern_scheme" where
  "wakeup1 ch s = s\<lparr>ptable := map (wake ch) (ptable s)\<rparr>"

definition wakeup :: "chan \<Rightarrow> 'a kern_scheme \<Rightarrow> 'a kern_scheme" where
  "wakeup ch s = wakeup1 ch s"

text \<open>Up to the switch in \<^verbatim>\<open>sched\<close>, and from there.\<close>

definition sleep_enter :: "chan \<Rightarrow> 'a kern_scheme \<Rightarrow> 'a kern_scheme" where
  "sleep_enter ch s = upd_me (\<lambda>p. p\<lparr>p_chan := ch, p_state := SLEEPING, p_context := InSched\<rparr>) s"

definition sleep_leave :: "'a kern_scheme \<Rightarrow> 'a kern_scheme" where
  "sleep_leave s = upd_me (\<lambda>p. p\<lparr>p_chan := NoChan\<rparr>) s"

definition yield :: "'a kern_scheme \<Rightarrow> 'a kern_scheme" where
  "yield s = upd_me (\<lambda>p. p\<lparr>p_state := RUNNABLE, p_context := InSched\<rparr>) s"

definition kill :: "int \<Rightarrow> 'a kern_scheme \<Rightarrow> int \<times> 'a kern_scheme" where
  "kill pid s =
     (case List.find (\<lambda>i. p_pid (ptable s ! i) = pid) [0..<NPROC] of
        None \<Rightarrow> (-1, s)
      | Some i \<Rightarrow>
          (0, upd_proc i (\<lambda>p. p\<lparr>p_killed := True, p_state := (if p_state p = SLEEPING then RUNNABLE else p_state p)\<rparr>) s))"

text \<open>The checks of \<^verbatim>\<open>sched\<close>: the locks held and the interrupt state of the processor.\<close>

definition sched :: "nat \<Rightarrow> spinlock \<Rightarrow> cpu \<Rightarrow> 'a kern_scheme \<Rightarrow> 'a kern_scheme res" where
  "sched i lk c s =
     (if \<not> holding lk i then Inl (Panic ''sched ptable.lock'')
      else if ncli c \<noteq> 1 then Inl (Panic ''sched locks'')
      else if p_state (me s) = RUNNING then Inl (Panic ''sched running'')
      else if if_flag c then Inl (Panic ''sched interruptible'')
      else Inr (upd_me (\<lambda>p. p\<lparr>p_context := InSched\<rparr>) s))"

section \<open>Exit and wait\<close>

text \<open>\<^verbatim>\<open>fileclose\<close>, with the page of a pipe both of whose ends are closed given back to the allocator.\<close>

definition kclose :: "nat \<Rightarrow> 'a kern_scheme \<Rightarrow> 'a kern_scheme res" where
  "kclose f s =
     (let ff = ftable s ! f
      in bnd (fileclose f s) (\<lambda>s.
           if f_ref ff = 1 \<and> f_type ff = FD_PIPE \<and> pipes s (f_pipe ff) = None
           then do_mem (\<lambda>m. krelease m (f_pipe ff)) s else Inr s))"

definition close_fd :: "nat \<Rightarrow> 'a kern_scheme \<Rightarrow> 'a kern_scheme res" where
  "close_fd fd s =
     (case p_ofile (me s) ! fd of None \<Rightarrow> Inr s
      | Some f \<Rightarrow> bnd (kclose f s) (\<lambda>s. Inr (upd_me (\<lambda>p. p\<lparr>p_ofile := (p_ofile p)[fd := None]\<rparr>) s)))"

definition reparent :: "nat \<Rightarrow> 'a kern_scheme \<Rightarrow> 'a kern_scheme" where
  "reparent i s =
     (if p_parent (ptable s ! i) = Some (cur s)
      then let s = upd_proc i (\<lambda>p. p\<lparr>p_parent := Some (initproc s)\<rparr>) s
        in if p_state (ptable s ! i) = ZOMBIE then wakeup1 (AtProc (initproc s)) s else s
      else s)"

definition parent_chan :: "nat option \<Rightarrow> chan" where
  "parent_chan p = (case p of None \<Rightarrow> NoChan | Some i \<Rightarrow> AtProc i)"

definition exit :: "'a kern_scheme \<Rightarrow> 'a kern_scheme res" where
  "exit s =
     (if cur s = initproc s then Inl (Panic ''init exiting'')
      else bnd (for_each [0..<NOFILE] close_fd s) (\<lambda>s.
           bnd (begin_op s) (\<lambda>s.
           case p_cwd (me s) of None \<Rightarrow> Inl Fault
           | Some c \<Rightarrow>
             bnd (iput c s) (\<lambda>s.
             bnd (end_op s) (\<lambda>s.
               let s = upd_me (\<lambda>p. p\<lparr>p_cwd := None\<rparr>) s;
                   s = wakeup1 (parent_chan (p_parent (me s))) s;
                   s = fold reparent [0..<NPROC] s
               in Inr (upd_me (\<lambda>p. p\<lparr>p_state := ZOMBIE\<rparr>) s))))))"

datatype wait_result = Reaped int | NoChildren | MustSleep

definition reap :: "nat \<Rightarrow> 'a kern_scheme \<Rightarrow> (wait_result \<times> 'a kern_scheme) res" where
  "reap i s =
     (let p = ptable s ! i
      in bnd (do_mem (\<lambda>m. krelease m (p_kstack p)) s) (\<lambda>s.
         bnd (do_mem (\<lambda>m. freevm m (p_pgdir p)) s) (\<lambda>s.
         Inr (Reaped (p_pid p), upd_proc i (\<lambda>p. p\<lparr>p_kstack := 0, p_pid := 0, p_parent := None, p_name := [], p_killed := False,
                p_state := UNUSED\<rparr>) s))))"

text \<open>One scan of \<^verbatim>\<open>wait\<close>; when it has to sleep it is called again after the wakeup.\<close>

definition wait_scan :: "'a kern_scheme \<Rightarrow> (wait_result \<times> 'a kern_scheme) res" where
  "wait_scan s =
     (let child = (\<lambda>i. p_parent (ptable s ! i) = Some (cur s))
      in case List.find (\<lambda>i. child i \<and> p_state (ptable s ! i) = ZOMBIE) [0..<NPROC] of
           Some i \<Rightarrow> reap i s
         | None \<Rightarrow>
             if (\<forall>i\<in>set [0..<NPROC]. \<not> child i) \<or> p_killed (me s) then Inr (NoChildren, s)
             else Inr (MustSleep, sleep_enter (AtProc (cur s)) s))"

section \<open>The scheduler\<close>

text \<open>
  One pass over the table. \<open>run\<close> is what happens from the switch to the chosen process until it
  switches back.
\<close>

definition sched_slot :: "('a kern_scheme \<Rightarrow> 'a kern_scheme) \<Rightarrow> nat \<Rightarrow> 'a kern_scheme \<Rightarrow> 'a kern_scheme" where
  "sched_slot run i s =
     (if p_state (ptable s ! i) \<noteq> RUNNABLE then s
      else run (upd_proc i (\<lambda>p. p\<lparr>p_state := RUNNING\<rparr>) (s\<lparr>cur := i\<rparr>)))"

definition scheduler_pass :: "('a kern_scheme \<Rightarrow> 'a kern_scheme) \<Rightarrow> 'a kern_scheme \<Rightarrow> 'a kern_scheme" where
  "scheduler_pass run s = fold (sched_slot run) [0..<NPROC] s"

text \<open>The first process to run after a fork returns through \<^verbatim>\<open>forkret\<close>; \<open>first\<close> is its static variable.\<close>

definition forkret :: "bool \<Rightarrow> 'a kern_scheme \<Rightarrow> (bool \<times> 'a kern_scheme) res" where
  "forkret first s =
     (if first then bnd (iinit ROOTDEV s) (\<lambda>s. bnd (initlog ROOTDEV s) (\<lambda>s. Inr (False, s))) else Inr (False, s))"

section \<open>What the file system leaves alone\<close>

lemma more_kern: "filesys.more s' = filesys.more s \<Longrightarrow>
    km s' = km s \<and> kpdpt s' = kpdpt s \<and> ptable s' = ptable s \<and> cur s' = cur s \<and> initproc s' = initproc s \<and> nextpid s' = nextpid s"
  by (cases s; cases s') simp

lemma more_filesys: "fsys.more s' = fsys.more s \<Longrightarrow> filesys.more s' = filesys.more s"
  by (cases s; cases s') simp

lemma fileclose_kern: "fileclose f s = Inr s' \<Longrightarrow> filesys.more s' = filesys.more s"
  by (auto simp: fileclose_def pipeclose_def upd_file_def Let_def bnd_eq_Inr
      split: if_splits fdtype.splits option.splits dest!: begin_op_fs iput_fs end_op_fs more_filesys)

lemma kclose_kern: "kclose f s = Inr s' \<Longrightarrow>
    kpdpt s' = kpdpt s \<and> ptable s' = ptable s \<and> cur s' = cur s \<and> initproc s' = initproc s \<and> nextpid s' = nextpid s"
  by (auto simp: kclose_def do_mem_def bnd_eq_Inr Let_def split: if_splits dest!: fileclose_kern more_kern)

lemma filedup_kern: "filedup f s = Inr s' \<Longrightarrow> filesys.more s' = filesys.more s"
  by (auto simp: filedup_def upd_file_def split: if_splits)

lemmas log_kern = begin_op_fs [THEN more_filesys, THEN more_kern] end_op_fs [THEN more_filesys, THEN more_kern]
  iput_fs [THEN more_filesys, THEN more_kern]

lemma upd_proc_simps [simp]:
  "i < length (ptable s) \<Longrightarrow> ptable (upd_proc i f s) ! j = (if j = i then f (ptable s ! i) else ptable s ! j)"
  "length (ptable (upd_proc i f s)) = length (ptable s)" "cur (upd_proc i f s) = cur s"
  "initproc (upd_proc i f s) = initproc s" "nextpid (upd_proc i f s) = nextpid s" "km (upd_proc i f s) = km s"
  by (simp_all add: upd_proc_def)

lemma upd_me_simps [simp]:
  "cur s < length (ptable s) \<Longrightarrow> ptable (upd_me f s) ! j = (if j = cur s then f (me s) else ptable s ! j)"
  "length (ptable (upd_me f s)) = length (ptable s)" "cur (upd_me f s) = cur s"
  "initproc (upd_me f s) = initproc s" "nextpid (upd_me f s) = nextpid s" "km (upd_me f s) = km s"
  by (simp_all add: upd_me_def me_def)

lemma wakeup1_simps [simp]:
  "i < length (ptable s) \<Longrightarrow> ptable (wakeup1 ch s) ! i = wake ch (ptable s ! i)"
  "length (ptable (wakeup1 ch s)) = length (ptable s)" "cur (wakeup1 ch s) = cur s"
  "initproc (wakeup1 ch s) = initproc s" "nextpid (wakeup1 ch s) = nextpid s"
  by (simp_all add: wakeup1_def)

lemma wake_fields [simp]: "p_parent (wake ch p) = p_parent p" "p_pid (wake ch p) = p_pid p" "p_ofile (wake ch p) = p_ofile p"
  "p_cwd (wake ch p) = p_cwd p" "p_chan (wake ch p) = p_chan p" "p_killed (wake ch p) = p_killed p"
  "p_state (wake ch p) = (if p_state p = SLEEPING \<and> p_chan p = ch then RUNNABLE else p_state p)"
  by (simp_all add: wake_def)

section \<open>Exit and wait\<close>

text \<open>The files are closed one by one; nothing else of the process table changes.\<close>

lemma close_fd_spec:
  assumes "close_fd fd s = Inr s'" and "cur s < length (ptable s)"
  shows "cur s' = cur s" "initproc s' = initproc s" "length (ptable s') = length (ptable s)"
    "ptable s' = (ptable s)[cur s := (me s)\<lparr>p_ofile := (p_ofile (me s))[fd := None]\<rparr>]"
proof -
  have "(p_ofile (me s))[fd := None] = p_ofile (me s)" if "p_ofile (me s) ! fd = None"
    using that by (metis list_update_id)
  moreover have "(ptable s)[cur s := me s] = ptable s" by (simp add: me_def)
  ultimately show "cur s' = cur s" "initproc s' = initproc s" "length (ptable s') = length (ptable s)"
    "ptable s' = (ptable s)[cur s := (me s)\<lparr>p_ofile := (p_ofile (me s))[fd := None]\<rparr>]"
    using assms by (auto simp: close_fd_def bnd_eq_Inr upd_me_def upd_proc_def me_def split: option.splits dest!: kclose_kern)
qed

lemma close_fds_spec:
  assumes "for_each fds close_fd s = Inr s'" and "cur s < length (ptable s)"
  shows "cur s' = cur s \<and> initproc s' = initproc s \<and> length (ptable s') = length (ptable s)
    \<and> (\<forall>i. i \<noteq> cur s \<longrightarrow> ptable s' ! i = ptable s ! i) \<and> (\<exists>fs. me s' = (me s)\<lparr>p_ofile := fs\<rparr> \<and> length fs = length (p_ofile (me s))
      \<and> (\<forall>fd<length fs. fs ! fd = (if fd \<in> set fds then None else p_ofile (me s) ! fd)))"
  using assms
proof (induction fds arbitrary: s)
  case Nil
  then show ?case by (auto intro!: exI [of _ "p_ofile (me s)"])
next
  case (Cons fd fds)
  then obtain s1 where s1: "close_fd fd s = Inr s1" and rest: "for_each fds close_fd s1 = Inr s'" by (auto simp: bnd_eq_Inr)
  note c = close_fd_spec [OF s1 Cons.prems(2)]
  have me1: "me s1 = (me s)\<lparr>p_ofile := (p_ofile (me s))[fd := None]\<rparr>" using c Cons.prems(2) by (simp add: me_def)
  have lt: "cur s1 < length (ptable s1)" using c Cons.prems(2) by simp
  from Cons.IH [OF rest lt] show ?case
    using c(1-3) me1 by (auto simp: c(4) nth_list_update)
qed

text \<open>Handing the children to \<^verbatim>\<open>initproc\<close>.\<close>

definition adopted :: "'a kern_scheme \<Rightarrow> nat set \<Rightarrow> 'a kern_scheme \<Rightarrow> bool" where
  "adopted s A s' \<longleftrightarrow> cur s' = cur s \<and> initproc s' = initproc s \<and> length (ptable s') = length (ptable s)
     \<and> (\<forall>i<length (ptable s). p_parent (ptable s' ! i)
          = (if i \<in> A \<and> p_parent (ptable s ! i) = Some (cur s) then Some (initproc s) else p_parent (ptable s ! i))
        \<and> p_pid (ptable s' ! i) = p_pid (ptable s ! i) \<and> p_chan (ptable s' ! i) = p_chan (ptable s ! i)
        \<and> p_ofile (ptable s' ! i) = p_ofile (ptable s ! i) \<and> p_cwd (ptable s' ! i) = p_cwd (ptable s ! i)
        \<and> p_state (ptable s' ! i) = (if p_state (ptable s ! i) = SLEEPING \<and> p_chan (ptable s ! i) = AtProc (initproc s)
            \<and> (\<exists>j\<in>A. j < length (ptable s) \<and> p_parent (ptable s ! j) = Some (cur s) \<and> p_state (ptable s ! j) = ZOMBIE)
            then RUNNABLE else p_state (ptable s ! i)))"

lemma reparent_fold:
  assumes "cur s \<noteq> initproc s" and "set xs \<subseteq> {..<length (ptable s)}" and "distinct xs"
  shows "adopted s (set xs) (fold reparent xs s)"
  using assms
proof (induction xs rule: rev_induct)
  case Nil
  then show ?case by (simp add: adopted_def)
next
  case (snoc x xs)
  let ?t = "fold reparent xs s"
  have IH: "adopted s (set xs) ?t" using snoc by auto
  then have len: "length (ptable ?t) = length (ptable s)" "cur ?t = cur s" "initproc ?t = initproc s" by (simp_all add: adopted_def)
  have x: "x < length (ptable s)" "x \<notin> set xs" using snoc.prems by auto
  have px: "p_parent (ptable ?t ! x) = p_parent (ptable s ! x)" "p_state (ptable ?t ! x) = ZOMBIE \<longleftrightarrow> p_state (ptable s ! x) = ZOMBIE"
    using IH x by (auto simp: adopted_def)
  show ?case
    using IH x px len snoc.prems(1) unfolding adopted_def by (simp add: reparent_def Let_def)
qed


lemma exit_spec:
  assumes r: "exit s = Inr s'" and len: "length (ptable s) = NPROC" and c: "cur s < NPROC"
  obtains t where "cur s \<noteq> initproc s" "cur t = cur s" "initproc t = initproc s" "length (ptable t) = NPROC"
    "\<And>i. i < NPROC \<Longrightarrow> i \<noteq> cur s \<Longrightarrow> ptable t ! i = wake (parent_chan (p_parent (me s))) (ptable s ! i)"
    "p_parent (me t) = p_parent (me s)" "p_pid (me t) = p_pid (me s)" "p_cwd (me t) = None"
    "length (p_ofile (me t)) = length (p_ofile (me s))" "\<And>fd. fd < NOFILE \<Longrightarrow> fd < length (p_ofile (me s)) \<Longrightarrow> p_ofile (me t) ! fd = None"
    "s' = upd_me (\<lambda>p. p\<lparr>p_state := ZOMBIE\<rparr>) (fold reparent [0..<NPROC] t)"
proof -
  obtain s1 s4 where ni: "cur s \<noteq> initproc s" and s1: "for_each [0..<NOFILE] close_fd s = Inr s1"
    and s4: "ptable s4 = ptable s1" "cur s4 = cur s1" "initproc s4 = initproc s1"
    and s': "s' = upd_me (\<lambda>p. p\<lparr>p_state := ZOMBIE\<rparr>) (fold reparent [0..<NPROC]
       (wakeup1 (parent_chan (p_parent (me (upd_me (\<lambda>p. p\<lparr>p_cwd := None\<rparr>) s4)))) (upd_me (\<lambda>p. p\<lparr>p_cwd := None\<rparr>) s4)))"
    using r by (auto simp: exit_def bnd_eq_Inr Let_def split: if_splits option.splits dest!: log_kern)
  obtain fs where f: "cur s1 = cur s" "initproc s1 = initproc s" "length (ptable s1) = NPROC"
    "\<And>i. i \<noteq> cur s \<Longrightarrow> ptable s1 ! i = ptable s ! i" "me s1 = (me s)\<lparr>p_ofile := fs\<rparr>" "length fs = length (p_ofile (me s))"
    "\<And>fd. fd < length fs \<Longrightarrow> fs ! fd = (if fd \<in> set [0..<NOFILE] then None else p_ofile (me s) ! fd)"
    using close_fds_spec [OF s1] c len by auto
  have m4: "me s4 = (me s)\<lparr>p_ofile := fs\<rparr>" using f(5) s4 by (simp add: me_def)
  let ?u = "upd_me (\<lambda>p. p\<lparr>p_cwd := None\<rparr>) s4"
  have u: "me ?u = (me s)\<lparr>p_ofile := fs, p_cwd := None\<rparr>" using m4 f s4 c by (simp add: me_def [of ?u])
  have s'': "s' = upd_me (\<lambda>p. p\<lparr>p_state := ZOMBIE\<rparr>) (fold reparent [0..<NPROC] (wakeup1 (parent_chan (p_parent (me s))) ?u))"
    unfolding s' u by simp
  have mt: "me (wakeup1 ch ?u) = wake ch (me ?u)" for ch using f s4 c by (simp add: me_def [of "wakeup1 ch ?u"]) (simp add: me_def)
  show thesis
    by (rule that [OF ni _ _ _ _ _ _ _ _ _ s'']) (use f s4 c u mt in \<open>auto simp: s4(1)\<close>)
qed

text \<open>
  C21. \<^verbatim>\<open>exit\<close> and \<^verbatim>\<open>wait\<close> meet. After \<^verbatim>\<open>exit\<close> the process is a zombie without open files or current
  directory, each of its children has \<^verbatim>\<open>initproc\<close> as its parent and no other parent has changed; a
  parent that was asleep in \<^verbatim>\<open>wait\<close> is runnable again and its next scan finds a zombie to reap; and
  \<^verbatim>\<open>initproc\<close>, if it was asleep in \<^verbatim>\<open>wait\<close>, is runnable if it has been given a zombie.
\<close>

theorem exit_wakes_wait:
  assumes "exit s = Inr s'" and "length (ptable s) = NPROC" and "cur s < NPROC" and "length (p_ofile (me s)) = NOFILE"
    and "initproc s < NPROC"
  shows "p_state (me s') = ZOMBIE \<and> p_ofile (me s') = replicate NOFILE None \<and> p_cwd (me s') = None
    \<and> (\<forall>i<NPROC. p_parent (ptable s' ! i)
         = (if p_parent (ptable s ! i) = Some (cur s) then Some (initproc s) else p_parent (ptable s ! i)))
    \<and> (\<forall>q<NPROC. q \<noteq> cur s \<and> p_parent (me s) = Some q \<and> p_state (ptable s ! q) = SLEEPING \<and> p_chan (ptable s ! q) = AtProc q
         \<longrightarrow> p_state (ptable s' ! q) = RUNNABLE
           \<and> (\<exists>i<NPROC. p_parent (ptable s' ! i) = Some q \<and> p_state (ptable s' ! i) = ZOMBIE
                \<and> wait_scan (s'\<lparr>cur := q\<rparr>) = reap i (s'\<lparr>cur := q\<rparr>)))
    \<and> ((\<exists>j<NPROC. j \<noteq> cur s \<and> p_parent (ptable s ! j) = Some (cur s) \<and> p_state (ptable s ! j) = ZOMBIE)
         \<and> p_state (ptable s ! initproc s) = SLEEPING \<and> p_chan (ptable s ! initproc s) = AtProc (initproc s)
         \<longrightarrow> p_state (ptable s' ! initproc s) = RUNNABLE)"
proof -
  obtain t where t: "cur s \<noteq> initproc s" "cur t = cur s" "initproc t = initproc s" "length (ptable t) = NPROC"
    and other: "\<And>i. i < NPROC \<Longrightarrow> i \<noteq> cur s \<Longrightarrow> ptable t ! i = wake (parent_chan (p_parent (me s))) (ptable s ! i)"
    and mine: "p_parent (me t) = p_parent (me s)" "p_cwd (me t) = None" "length (p_ofile (me t)) = NOFILE"
      "\<And>fd. fd < NOFILE \<Longrightarrow> p_ofile (me t) ! fd = None"
    and s': "s' = upd_me (\<lambda>p. p\<lparr>p_state := ZOMBIE\<rparr>) (fold reparent [0..<NPROC] t)"
    using exit_spec [OF assms(1-3)] assms(4) by metis
  let ?u = "fold reparent [0..<NPROC] t"
  have "adopted t (set [0..<NPROC]) ?u" using t by (intro reparent_fold) auto
  then have u: "cur ?u = cur s" "initproc ?u = initproc s" "length (ptable ?u) = NPROC"
    and ad: "\<And>i. i < NPROC \<Longrightarrow> p_parent (ptable ?u ! i) = (if p_parent (ptable t ! i) = Some (cur s) then Some (initproc s) else p_parent (ptable t ! i))"
      "\<And>i. i < NPROC \<Longrightarrow> p_ofile (ptable ?u ! i) = p_ofile (ptable t ! i) \<and> p_cwd (ptable ?u ! i) = p_cwd (ptable t ! i)"
      "\<And>i. i < NPROC \<Longrightarrow> p_state (ptable ?u ! i) = (if p_state (ptable t ! i) = SLEEPING \<and> p_chan (ptable t ! i) = AtProc (initproc s)
            \<and> (\<exists>j<NPROC. p_parent (ptable t ! j) = Some (cur s) \<and> p_state (ptable t ! j) = ZOMBIE)
            then RUNNABLE else p_state (ptable t ! i))"
    using t unfolding adopted_def by auto
  have pt: "ptable s' ! i = (if i = cur s then (me ?u)\<lparr>p_state := ZOMBIE\<rparr> else ptable ?u ! i)" for i
    using u assms(3) by (simp add: s')
  have mt: "me t = ptable t ! cur s" "me ?u = ptable ?u ! cur s" "me s' = ptable s' ! cur s" "me s = ptable s ! cur s"
    using t(2) u(1) by (simp_all add: me_def s')
  have par: "p_parent (ptable t ! i) = p_parent (ptable s ! i)" if "i < NPROC" for i
    using other [OF that] mine(1) mt by (cases "i = cur s") auto
  have zomb: "p_state (ptable s' ! i) = ZOMBIE" if "i < NPROC" "p_state (ptable s ! i) = ZOMBIE" "i \<noteq> cur s" for i
    using that other [OF that(1,3)] ad(3) [OF that(1)] by (simp add: pt)
  have parent: "p_parent (ptable s' ! i) = (if p_parent (ptable s ! i) = Some (cur s) then Some (initproc s) else p_parent (ptable s ! i))"
    if "i < NPROC" for i using ad(1) [OF that] par [OF that] mt by (cases "i = cur s") (simp_all add: pt)
  have me': "p_state (me s') = ZOMBIE" "p_cwd (me s') = None" "p_ofile (me s') = p_ofile (me t)"
    using ad(2) [OF assms(3)] mine(2) mt by (simp_all add: pt)
  have "p_ofile (me s') = replicate NOFILE None" by (rule nth_equalityI) (use me'(3) mine in auto)
  moreover have "p_state (ptable s' ! q) = RUNNABLE
      \<and> (\<exists>i<NPROC. p_parent (ptable s' ! i) = Some q \<and> p_state (ptable s' ! i) = ZOMBIE \<and> wait_scan (s'\<lparr>cur := q\<rparr>) = reap i (s'\<lparr>cur := q\<rparr>))"
    if q: "q < NPROC" "q \<noteq> cur s" "p_parent (me s) = Some q" "p_state (ptable s ! q) = SLEEPING" "p_chan (ptable s ! q) = AtProc q" for q
  proof -
    let ?P = "\<lambda>i. p_parent (ptable s' ! i) = Some q \<and> p_state (ptable s' ! i) = ZOMBIE"
    have run: "p_state (ptable s' ! q) = RUNNABLE"
      using q other [OF q(1,2)] ad(3) [OF q(1)] by (simp add: pt parent_chan_def)
    have "?P (cur s)" using parent [OF assms(3)] q me' mt by auto
    then obtain i where i: "List.find ?P [0..<NPROC] = Some i"
      using assms(3) by (cases "List.find ?P [0..<NPROC]") (auto simp: find_None_iff)
    then have "i < NPROC" "?P i" by (auto simp: find_Some_iff)
    moreover have "wait_scan (s'\<lparr>cur := q\<rparr>) = reap i (s'\<lparr>cur := q\<rparr>)" using i by (simp add: wait_scan_def Let_def)
    ultimately show ?thesis using run by blast
  qed
  moreover have "p_state (ptable s' ! initproc s) = RUNNABLE"
    if j: "j < NPROC" "j \<noteq> cur s" "p_parent (ptable s ! j) = Some (cur s)" "p_state (ptable s ! j) = ZOMBIE"
      "p_state (ptable s ! initproc s) = SLEEPING" "p_chan (ptable s ! initproc s) = AtProc (initproc s)" for j
    using ad(3) [OF assms(5)] other [OF assms(5)] t(1) other [OF j(1,2)] par [OF j(1)] j by (auto simp: pt intro!: exI [of _ j])
  ultimately show ?thesis using me' parent by blast
qed

text \<open>A kernel with three processes: init (0) asleep in \<^verbatim>\<open>wait\<close>, its running child 1, and a zombie child of the latter.\<close>

definition demo_proc :: proc where
  "demo_proc = \<lparr>p_sz = 0, p_pgdir = 0, p_kstack = 0, p_state = UNUSED, p_pid = 0, p_parent = None, p_tf = zero_tf,
     p_context = InSched, p_chan = NoChan, p_killed = False, p_ofile = replicate NOFILE None, p_cwd = None, p_name = []\<rparr>"

definition demo_procs :: "proc list" where
  "demo_procs = [demo_proc\<lparr>p_state := SLEEPING, p_pid := 1, p_chan := AtProc 0, p_cwd := Some 0\<rparr>,
     demo_proc\<lparr>p_state := RUNNING, p_pid := 2, p_parent := Some 0, p_cwd := Some 0\<rparr>,
     demo_proc\<lparr>p_state := ZOMBIE, p_pid := 3, p_parent := Some 1\<rparr>] @ replicate 61 demo_proc"

definition demo_mem0 :: kmem where
  "demo_mem0 = \<lparr>phys = (\<lambda>_. 0), freelist = 0, use_lock = False, finfo = (\<lambda>_. \<lparr>refs = 0, checksum = 0\<rparr>), kend = KERNBASE\<rparr>"

definition demo_kern :: kern where
  "demo_kern = filesys.extend (demo_files\<lparr>lg := zero_log\<lparr>l_start := 2, l_size := int LOGSIZE, l_dev := 1\<rparr>,
     icache := (icache demo_files)[0 := demo_inode\<lparr>i_dev := 1, i_inum := 1, i_ref := 2, i_valid := True, i_type := T_DIR, i_nlink := 1\<rparr>]\<rparr>)
     (kern.fields demo_mem0 0 demo_procs 1 0 4 0)"

lemma demo_kern_fields [simp]:
  "ptable demo_kern = demo_procs" "cur demo_kern = 1" "initproc demo_kern = 0" "nextpid demo_kern = 4" "kpdpt demo_kern = 0"
  "lg demo_kern = zero_log\<lparr>l_start := 2, l_size := int LOGSIZE, l_dev := 1\<rparr>"
  "icache demo_kern = (replicate NINODE demo_inode)
     [0 := demo_inode\<lparr>i_dev := 1, i_inum := 1, i_ref := 2, i_valid := True, i_type := T_DIR, i_nlink := 1\<rparr>]"
  by (simp_all add: demo_kern_def filesys.defs kern.defs demo_files_def fsys.defs demo_fs_def binit_def)

lemma demo_exit: "\<exists>s'. exit demo_kern = Inr s'"
proof -
  let ?b = "upd_log (\<lambda>l. l\<lparr>l_outstanding := l_outstanding l + 1\<rparr>) demo_kern"
  have me: "me demo_kern = demo_proc\<lparr>p_state := RUNNING, p_pid := 2, p_parent := Some 0, p_cwd := Some 0\<rparr>"
    by (simp add: me_def demo_procs_def)
  have cl: "for_each fds close_fd demo_kern = Inr demo_kern" if "\<forall>fd\<in>set fds. fd < NOFILE" for fds
    using that by (induction fds) (auto simp: close_fd_def me demo_proc_def)
  have bg: "begin_op demo_kern = Inr ?b"
    by (simp add: begin_op_def zero_log_def LOGSIZE_def MAXOPBLOCKS_def)
  have "me ?b = me demo_kern" by (simp add: me_def upd_log_def)
  moreover have ip: "iput 0 ?b = Inr (upd_inode 0 (\<lambda>ip. ip\<lparr>i_ref := i_ref ip - 1\<rparr>) ?b)"
    by (simp add: iput_def Let_def upd_log_def NINODE_def)
  moreover have "\<exists>s. end_op (upd_inode 0 (\<lambda>ip. ip\<lparr>i_ref := i_ref ip - 1\<rparr>) ?b) = Inr s"
    by (simp add: end_op_def Let_def commit_def upd_inode_def upd_log_def zero_log_def)
  ultimately show ?thesis
    using cl [of "[0..<NOFILE]"] bg me by (auto simp: exit_def Let_def)
qed

theorem exit_wakes_wait_witness:
  "\<exists>s'. exit demo_kern = Inr s' \<and> p_state (me s') = ZOMBIE \<and> p_parent (ptable s' ! 2) = Some 0
    \<and> p_state (ptable s' ! 0) = RUNNABLE \<and> (\<exists>i<NPROC. wait_scan (s'\<lparr>cur := 0\<rparr>) = reap i (s'\<lparr>cur := 0\<rparr>))"
proof -
  obtain s' where s': "exit demo_kern = Inr s'" using demo_exit by blast
  have "length (ptable demo_kern) = NPROC" "cur demo_kern < NPROC" "length (p_ofile (me demo_kern)) = NOFILE" "initproc demo_kern < NPROC"
    by (simp_all add: demo_procs_def NPROC_def me_def demo_proc_def)
  note r = exit_wakes_wait [OF s' this]
  have "p_parent (ptable s' ! 2) = Some 0"
    using r [THEN conjunct2, THEN conjunct2, THEN conjunct2, THEN conjunct1, rule_format, of 2] by (simp add: NPROC_def demo_procs_def)
  moreover have "p_state (ptable s' ! 0) = RUNNABLE \<and> (\<exists>i<NPROC. wait_scan (s'\<lparr>cur := 0\<rparr>) = reap i (s'\<lparr>cur := 0\<rparr>))"
    using r [THEN conjunct2, THEN conjunct2, THEN conjunct2, THEN conjunct2, THEN conjunct1, rule_format, of 0]
    by (auto simp: NPROC_def demo_procs_def me_def)
  ultimately show ?thesis using s' r [THEN conjunct1] by blast
qed

section \<open>The scheduler's pass\<close>

text \<open>The processes that a pass over the slots \<open>xs\<close> runs, in order.\<close>

primrec scheduled :: "('a kern_scheme \<Rightarrow> 'a kern_scheme) \<Rightarrow> nat list \<Rightarrow> 'a kern_scheme \<Rightarrow> nat list" where
  "scheduled run [] s = []"
| "scheduled run (i # is) s =
     (if p_state (ptable s ! i) = RUNNABLE then i # scheduled run is (sched_slot run i s) else scheduled run is (sched_slot run i s))"

text \<open>
  What the scheduler needs to know of the processes it runs: while one runs, the process table keeps
  its length and no other process that is runnable ceases to be so.
\<close>

locale kernel_thread =
  fixes run :: "'a kern_scheme \<Rightarrow> 'a kern_scheme"
  assumes run_length: "length (ptable (run s)) = length (ptable s)"
    and run_others: "i \<noteq> cur s \<Longrightarrow> i < length (ptable s) \<Longrightarrow> p_state (ptable s ! i) = RUNNABLE
      \<Longrightarrow> p_state (ptable (run s) ! i) = RUNNABLE"
begin

lemma slot_keeps:
  assumes "i \<noteq> j" and "i < length (ptable s)" and "j < length (ptable s)" and "p_state (ptable s ! i) = RUNNABLE"
  shows "p_state (ptable (sched_slot run j s) ! i) = RUNNABLE" "length (ptable (sched_slot run j s)) = length (ptable s)"
  using assms run_others [of i "upd_proc j (\<lambda>p. p\<lparr>p_state := RUNNING\<rparr>) (s\<lparr>cur := j\<rparr>)"]
  by (auto simp: sched_slot_def run_length)

lemma pass_runs:
  assumes "i < length (ptable s)" and "p_state (ptable s ! i) = RUNNABLE" and "i \<in> set xs" and "set xs \<subseteq> {..<length (ptable s)}"
  shows "i \<in> set (scheduled run xs s)"
  using assms
proof (induction xs arbitrary: s)
  case (Cons x xs)
  show ?case
  proof (cases "x = i")
    case False
    note k = slot_keeps [OF not_sym [OF False] Cons.prems(1) _ Cons.prems(2)]
    have "x < length (ptable s)" using Cons.prems(4) by simp
    then show ?thesis using Cons.IH [of "sched_slot run x s"] Cons.prems False k by simp
  qed (use Cons.prems in simp)
qed simp

lemma pass_once: "distinct xs \<Longrightarrow> distinct (scheduled run xs s) \<and> set (scheduled run xs s) \<subseteq> set xs"
proof (induction xs arbitrary: s)
  case (Cons x xs)
  then show ?case using Cons.IH [of "sched_slot run x s"] by auto
qed simp

end

lemma yield_state: "length (ptable (yield s)) = length (ptable s)"
    "i \<noteq> cur s \<Longrightarrow> ptable (yield s) ! i = ptable s ! i"
  by (simp_all add: yield_def upd_me_def upd_proc_def)

interpretation yielding: kernel_thread yield
  by unfold_locales (simp_all add: yield_state)

interpretation sleeping: kernel_thread "sleep_enter ch" for ch
  by unfold_locales (simp_all add: sleep_enter_def upd_me_def upd_proc_def)

interpretation waking: kernel_thread "\<lambda>s. yield (wakeup ch s)" for ch
  by unfold_locales (simp_all add: yield_state wakeup_def)



section \<open>Process identifiers\<close>

lemma allocproc_spec:
  assumes "allocproc s = Inr (r, s')" and "length (ptable s) = NPROC"
  shows "case r of
      Some i \<Rightarrow> i < NPROC \<and> p_state (ptable s ! i) = UNUSED \<and> (\<forall>j<i. p_state (ptable s ! j) \<noteq> UNUSED) \<and> nextpid s' = nextpid s + 1
        \<and> cur s' = cur s \<and> (\<exists>k. ptable s' = (ptable s)[i := (ptable s ! i)\<lparr>p_state := EMBRYO, p_pid := nextpid s, p_kstack := k, p_context := AtForkret\<rparr>])
    | None \<Rightarrow> cur s' = cur s \<and> (ptable s' = ptable s \<and> nextpid s' = nextpid s
        \<or> (\<exists>i<NPROC. p_state (ptable s ! i) = UNUSED \<and> nextpid s' = nextpid s + 1
             \<and> (\<exists>k. ptable s' = (ptable s)[i := (ptable s ! i)\<lparr>p_pid := nextpid s, p_kstack := k\<rparr>])))"
proof (cases "List.find (\<lambda>i. p_state (ptable s ! i) = UNUSED) [0..<NPROC]")
  case None
  then show ?thesis using assms(1) by (auto simp: allocproc_def)
next
  case (Some i)
  then have i: "i < NPROC" "p_state (ptable s ! i) = UNUSED" "\<forall>j<i. p_state (ptable s ! j) \<noteq> UNUSED"
    by (auto simp: find_Some_iff)
  then have un: "(ptable s ! i)\<lparr>p_pid := a, p_kstack := b, p_state := UNUSED\<rparr> = (ptable s ! i)\<lparr>p_pid := a, p_kstack := b\<rparr>" for a b
    by (cases "ptable s ! i") simp
  show ?thesis
    using assms Some i by (auto simp: allocproc_def Let_def on_mem_def bnd_eq_Inr upd_proc_def un split: if_splits)
      (rule exI [of _ i], simp, rule exI [of _ 0], simp)
qed

text \<open>
  C39. \<^verbatim>\<open>kill\<close> accepts the identifier 0, which no process has but every unused entry of the process table
  does. The entry is marked as killed, \<^verbatim>\<open>allocproc\<close> does not clear the mark, and the next process
  that is created in the entry is born killed.
\<close>

theorem kill_zero_dooms_next:
  assumes "length (ptable s) = NPROC" and "i < NPROC" and "p_state (ptable s ! i) = UNUSED" and "p_pid (ptable s ! i) = 0"
    and "\<forall>j<i. p_state (ptable s ! j) \<noteq> UNUSED \<and> p_pid (ptable s ! j) \<noteq> 0"
  shows "fst (kill 0 s) = 0 \<and> (\<forall>np s'. allocproc (snd (kill 0 s)) = Inr (Some np, s') \<longrightarrow> np = i \<and> p_killed (ptable s' ! np))"
proof -
  have k: "List.find (\<lambda>j. p_pid (ptable s ! j) = 0) [0..<NPROC] = Some i"
    using assms by (auto simp: find_Some_iff intro!: exI [of _ i])
  let ?s = "upd_proc i (\<lambda>p. p\<lparr>p_killed := True, p_state := (if p_state p = SLEEPING then RUNNABLE else p_state p)\<rparr>) s"
  have kill: "kill 0 s = (0, ?s)" using k by (simp add: kill_def)
  have len: "length (ptable ?s) = NPROC" and st: "p_state (ptable ?s ! j) = UNUSED \<longleftrightarrow> p_state (ptable s ! j) = UNUSED"
    and kd: "p_killed (ptable ?s ! i)" for j using assms(1-3) by auto
  have "np = i \<and> p_killed (ptable s' ! np)" if "allocproc ?s = Inr (Some np, s')" for np s'
  proof -
    note sp = allocproc_spec [OF that len]
    have "\<not> np < i" "\<not> i < np" using sp assms(3,5) by (auto simp: st simp del: upd_proc_simps)
    then have "np = i" by simp
    then show ?thesis using sp kd assms(1) by (auto simp del: upd_proc_simps(1))
  qed
  then show ?thesis by (simp add: kill)
qed


lemma demo_kill: "\<exists>s'. allocproc (snd (kill 0 (demo_kern\<lparr>km := demo_mem0\<lparr>freelist := KERNBASE + 4096\<rparr>\<rparr>))) = Inr (Some 3, s')"
proof -
  let ?m = "demo_mem0\<lparr>freelist := KERNBASE + 4096\<rparr>"
  have up: "[0..<NPROC] = 0 # 1 # 2 # 3 # [4..<64]" by (simp add: NPROC_def upt_conv_Cons)
  have "kalloc ?m = Inr (KERNBASE + 4096, set_refs (?m\<lparr>freelist := load64 (phys ?m) (V2P (KERNBASE + 4096))\<rparr>) 1 1)"
    by (simp add: kalloc_def Let_def demo_mem0_def KERNBASE_def V2P_def frame_ix_def PGINDEX_def PGSIZE_def NFRAMES_def)
  moreover have "KERNBASE + 4096 \<noteq> 0" by (simp add: KERNBASE_def)
  ultimately show ?thesis
    by (simp add: kill_def allocproc_def up demo_procs_def demo_proc_def upd_proc_def on_mem_def Let_def)
qed

theorem kill_zero_dooms_next_witness:
  "\<exists>s'. fst (kill 0 (demo_kern\<lparr>km := demo_mem0\<lparr>freelist := KERNBASE + 4096\<rparr>\<rparr>)) = 0
    \<and> allocproc (snd (kill 0 (demo_kern\<lparr>km := demo_mem0\<lparr>freelist := KERNBASE + 4096\<rparr>\<rparr>))) = Inr (Some 3, s')
    \<and> p_killed (ptable s' ! 3)"
proof -
  have j: "(j :: nat) = 0 \<or> j = 1 \<or> j = 2" if "j < 3" for j using that by linarith
  have "fst (kill 0 s) = 0 \<and> (\<forall>np s'. allocproc (snd (kill 0 s)) = Inr (Some np, s') \<longrightarrow> np = 3 \<and> p_killed (ptable s' ! np))"
    if "s = demo_kern\<lparr>km := demo_mem0\<lparr>freelist := KERNBASE + 4096\<rparr>\<rparr>" for s
    by (rule kill_zero_dooms_next) (auto simp: that demo_procs_def demo_proc_def NPROC_def dest!: j)
  then show ?thesis using demo_kill by blast
qed

end
