(* ===== verification/Fork.thy ===== *)
theory Fork
  imports Uvm Proc
begin

text \<open>
  Creating a process: what \<^verbatim>\<open>fork\<close> of \<^verbatim>\<open>proc.c\<close> gives to the child, with the copy of the address space
  made by \<^verbatim>\<open>copyuvm\<close>.
\<close>

section \<open>Duplicating descriptors\<close>

definition users :: "nat option list \<Rightarrow> nat \<Rightarrow> nat \<Rightarrow> nat" where
  "users fds n f = card {fd. fd < n \<and> fds ! fd = Some f}"

lemma users_simps [simp]:
  "users fds 0 f = 0" "users fds (Suc n) f = users fds n f + (if fds ! n = Some f then 1 else 0)"
proof -
  have *: "{fd. fd < Suc n \<and> fds ! fd = Some f}
      = (if fds ! n = Some f then insert n {fd. fd < n \<and> fds ! fd = Some f} else {fd. fd < n \<and> fds ! fd = Some f})"
    by (auto simp: less_Suc_eq)
  show "users fds (Suc n) f = users fds n f + (if fds ! n = Some f then 1 else 0)"
    unfolding users_def * by simp
qed (simp add: users_def)

lemma dup_fds:
  fixes s :: "'a kern_scheme"
  assumes i: "i < length (ptable s)" "i \<noteq> cur s" and n: "n \<le> length (p_ofile (me s))" "length (p_ofile (ptable s ! i)) = length (p_ofile (me s))"
    and none: "\<forall>fd<n. p_ofile (ptable s ! i) ! fd = None"
    and files: "\<forall>fd<n. \<forall>f. p_ofile (me s) ! fd = Some f \<longrightarrow> f < length (ftable s) \<and> 1 \<le> f_ref (ftable s ! f)"
  shows "\<exists>s'. for_each [0..<n] (dup_fd i) s = Inr s'
    \<and> ptable s' = (ptable s)[i := (ptable s ! i)\<lparr>p_ofile := take n (p_ofile (me s)) @ drop n (p_ofile (ptable s ! i))\<rparr>]
    \<and> km s' = km s \<and> cur s' = cur s \<and> icache s' = icache s \<and> length (ftable s') = length (ftable s)
    \<and> (\<forall>f<length (ftable s). ftable s' ! f = (ftable s ! f)\<lparr>f_ref := f_ref (ftable s ! f) + int (users (p_ofile (me s)) n f)\<rparr>)"
  using n(1) none files
proof (induction n)
  case 0
  then show ?case using i by (auto simp: list_update_id)
next
  case (Suc n)
  let ?me = "p_ofile (me s)" and ?ch = "p_ofile (ptable s ! i)"
  have pre: "n \<le> length ?me" "\<forall>fd<n. ?ch ! fd = None"
    "\<forall>fd<n. \<forall>f. ?me ! fd = Some f \<longrightarrow> f < length (ftable s) \<and> 1 \<le> f_ref (ftable s ! f)"
    using Suc.prems less_SucI [of _ n] by (simp, blast, blast)
  obtain t where t: "for_each [0..<n] (dup_fd i) s = Inr t"
    "ptable t = (ptable s)[i := (ptable s ! i)\<lparr>p_ofile := take n ?me @ drop n ?ch\<rparr>]"
    "km t = km s" "cur t = cur s" "icache t = icache s" "length (ftable t) = length (ftable s)"
    "\<And>f. f < length (ftable s) \<Longrightarrow> ftable t ! f = (ftable s ! f)\<lparr>f_ref := f_ref (ftable s ! f) + int (users ?me n f)\<rparr>"
    using Suc.IH [OF pre] by blast
  have me: "me t = me s" using t(2,4) i by (simp add: me_def)
  have ex: "take n ?me @ drop n ?ch = take n ?me @ None # drop (Suc n) ?ch"
    using Cons_nth_drop_Suc [of n ?ch] Suc.prems(1,2) n(2) by simp
  have nx: "take (Suc n) ?me = take n ?me @ [?me ! n]" using Suc.prems(1) by (simp add: take_Suc_conv_app_nth)
  show ?case
  proof (cases "?me ! n")
    case None
    then have "dup_fd i n t = Inr t" by (simp add: dup_fd_def me)
    then show ?thesis using t None nx ex by (simp add: for_each_append)
  next
    case (Some f)
    then have f: "f < length (ftable s)" "1 \<le> f_ref (ftable s ! f)" using Suc.prems(3) by auto
    let ?t = "upd_file f (\<lambda>x. x\<lparr>f_ref := f_ref x + 1\<rparr>) t"
    have "filedup f t = Inr ?t" using t(7) [OF f(1)] f(2) by (simp add: filedup_def)
    then have run: "dup_fd i n t = Inr (upd_proc i (\<lambda>p. p\<lparr>p_ofile := (p_ofile p)[n := Some f]\<rparr>) ?t)"
      using Some by (simp add: dup_fd_def me)
    have up: "(take n ?me @ drop n ?ch)[n := Some f] = take (Suc n) ?me @ drop (Suc n) ?ch"
      unfolding ex nx using Suc.prems(1) Some by (simp add: list_update_append)
    show ?thesis
      using t run Some f up i
      by (auto simp: for_each_append upd_proc_def upd_file_def nth_list_update)
  qed
qed

section \<open>fork\<close>

lemma allocproc_run:
  fixes s :: "'a kern_scheme"
  assumes "i < NPROC" and "p_state (ptable s ! i) = UNUSED" and "\<forall>j<i. p_state (ptable s ! j) \<noteq> UNUSED"
    and "length (ptable s) = NPROC" and "kalloc (km s) = Inr (k, m)" and "k \<noteq> 0"
  shows "\<exists>t. allocproc s = Inr (Some i, t) \<and> km t = m \<and> cur t = cur s \<and> kpdpt t = kpdpt s \<and> ftable t = ftable s \<and> icache t = icache s
    \<and> ptable t = (ptable s)[i := (ptable s ! i)\<lparr>p_state := EMBRYO, p_pid := nextpid s, p_kstack := k, p_context := AtForkret\<rparr>]"
proof -
  have "List.find (\<lambda>i. p_state (ptable s ! i) = UNUSED) [0..<NPROC] = Some i"
    using assms by (auto simp: find_Some_iff intro!: exI [of _ i])
  then show ?thesis using assms by (simp add: allocproc_def Let_def on_mem_def upd_proc_def)
qed

lemma fork_run:
  fixes s :: "'a kern_scheme"
  defines "p \<equiv> me s"
  assumes i: "i < NPROC" "p_state (ptable s ! i) = UNUSED" "\<forall>j<i. p_state (ptable s ! j) \<noteq> UNUSED"
    and len: "length (ptable s) = NPROC" "length (p_ofile p) = NOFILE" "p_ofile (ptable s ! i) = replicate NOFILE None"
    and me: "i \<noteq> cur s" "p_cwd p = Some c"
    and files: "\<forall>fd<NOFILE. \<forall>f. p_ofile p ! fd = Some f \<longrightarrow> f < length (ftable s) \<and> 1 \<le> f_ref (ftable s ! f)"
    and mem: "kalloc (km s) = Inr (k, m)" "k \<noteq> 0" "copyuvm m (kpdpt s) (p_pgdir p) (ucast (p_sz p)) = Inr (d, m')" "d \<noteq> 0"
  shows "\<exists>s'. fork s = Inr (nextpid s, s') \<and> km s' = m'
    \<and> ptable s' = (ptable s)[i := (ptable s ! i)\<lparr>p_pid := nextpid s, p_kstack := k, p_context := AtForkret,
        p_pgdir := d, p_sz := p_sz p, p_parent := Some (cur s), p_tf := (p_tf p)\<lparr>tf_rax := 0\<rparr>, p_ofile := p_ofile p,
        p_cwd := Some c, p_name := proc_name (p_name p), p_state := RUNNABLE\<rparr>]
    \<and> icache s' = (icache s)[c := (icache s ! c)\<lparr>i_ref := i_ref (icache s ! c) + 1\<rparr>]
    \<and> (\<forall>f<length (ftable s). ftable s' ! f = (ftable s ! f)\<lparr>f_ref := f_ref (ftable s ! f) + int (users (p_ofile p) NOFILE f)\<rparr>)"
proof -
  obtain t where t: "allocproc s = Inr (Some i, t)" "km t = m" "cur t = cur s" "kpdpt t = kpdpt s" "ftable t = ftable s" "icache t = icache s"
    "ptable t = (ptable s)[i := (ptable s ! i)\<lparr>p_state := EMBRYO, p_pid := nextpid s, p_kstack := k, p_context := AtForkret\<rparr>]"
    using allocproc_run [OF i len(1) mem(1,2)] by blast
  have met: "me t = p" using t(3,7) me(1) by (simp add: me_def p_def)
  let ?t1 = "upd_proc i (\<lambda>q. q\<lparr>p_pgdir := d\<rparr>) (t\<lparr>km := m'\<rparr>)"
  have m1: "me ?t1 = p" using met me(1) t(3,7) i len by (simp add: me_def upd_proc_def)
  define t2 where "t2 = upd_proc i (\<lambda>q. q\<lparr>p_sz := p_sz p, p_parent := Some (cur s), p_tf := (p_tf p)\<lparr>tf_rax := 0\<rparr>\<rparr>) ?t1"
  have t2: "km t2 = m'" "cur t2 = cur s" "ftable t2 = ftable s" "icache t2 = icache s"
    "ptable t2 = (ptable s)[i := (ptable s ! i)\<lparr>p_state := EMBRYO, p_pid := nextpid s, p_kstack := k, p_context := AtForkret,
        p_pgdir := d, p_sz := p_sz p, p_parent := Some (cur s), p_tf := (p_tf p)\<lparr>tf_rax := 0\<rparr>\<rparr>]"
    using t i len by (simp_all add: t2_def upd_proc_def)
  have m2: "me t2 = p" using t2(2,5) me(1) by (simp add: me_def p_def)
  have "\<exists>u. for_each [0..<NOFILE] (dup_fd i) t2 = Inr u
    \<and> ptable u = (ptable t2)[i := (ptable t2 ! i)\<lparr>p_ofile := take NOFILE (p_ofile (me t2)) @ drop NOFILE (p_ofile (ptable t2 ! i))\<rparr>]
    \<and> km u = km t2 \<and> cur u = cur t2 \<and> icache u = icache t2 \<and> length (ftable u) = length (ftable t2)
    \<and> (\<forall>f<length (ftable t2). ftable u ! f = (ftable t2 ! f)\<lparr>f_ref := f_ref (ftable t2 ! f) + int (users (p_ofile (me t2)) NOFILE f)\<rparr>)"
    by (rule dup_fds) (use t2 m2 i len me files in auto)
  then obtain u where u: "for_each [0..<NOFILE] (dup_fd i) t2 = Inr u" "km u = m'" "cur u = cur s" "icache u = icache s"
    "ptable u = (ptable s)[i := (ptable s ! i)\<lparr>p_state := EMBRYO, p_pid := nextpid s, p_kstack := k, p_context := AtForkret,
        p_pgdir := d, p_sz := p_sz p, p_parent := Some (cur s), p_tf := (p_tf p)\<lparr>tf_rax := 0\<rparr>, p_ofile := p_ofile p\<rparr>]"
    "\<forall>f<length (ftable s). ftable u ! f = (ftable s ! f)\<lparr>f_ref := f_ref (ftable s ! f) + int (users (p_ofile p) NOFILE f)\<rparr>"
    using t2 m2 i len by auto
  have mu: "me u = p" using u(3,5) me(1) by (simp add: me_def p_def)
  let ?v = "upd_proc i (\<lambda>q. q\<lparr>p_state := RUNNABLE\<rparr>) (upd_proc i (\<lambda>q. q\<lparr>p_cwd := Some c, p_name := proc_name (p_name p)\<rparr>) (idup c u))"
  have pi: "ptable (idup c u) = ptable u" by (simp add: idup_def upd_inode_def)
  have "fork s = Inr (nextpid s, ?v)"
    using t(1-4) mem(3,4) met m1 u(1,5) mu pi me(2) i len
    by (simp add: fork_def on_mem_def Let_def t2_def [symmetric])
  moreover have "icache ?v = (icache s)[c := (icache s ! c)\<lparr>i_ref := i_ref (icache s ! c) + 1\<rparr>]" "ftable ?v = ftable u" "km ?v = m'"
    using u(2,4) by (simp_all add: upd_proc_def idup_def upd_inode_def)
  moreover have "ptable ?v = (ptable s)[i := (ptable s ! i)\<lparr>p_pid := nextpid s, p_kstack := k, p_context := AtForkret,
        p_pgdir := d, p_sz := p_sz p, p_parent := Some (cur s), p_tf := (p_tf p)\<lparr>tf_rax := 0\<rparr>, p_ofile := p_ofile p,
        p_cwd := Some c, p_name := proc_name (p_name p), p_state := RUNNABLE\<rparr>]"
    using u(5) i len by (simp add: upd_proc_def idup_def upd_inode_def)
  ultimately show ?thesis using u(6) by auto
qed


section \<open>A process that forks\<close>

text \<open>The small address space with six more free pages.\<close>

definition free_page :: "kmem \<Rightarrow> u64 \<Rightarrow> kmem" where
  "free_page s v = s\<lparr>phys := store64 (fill (phys s) (V2P v) 1 PGSIZE) (V2P v) (freelist s), freelist := v\<rparr>"

lemma free_page_kfree:
  assumes "valid_page (kend s) v"
  shows "kfree s v = Inr (free_page s v)"
  using assms by (auto simp: kfree_def valid_page_def pg_aligned_def free_page_def memset_fill Let_def not_less not_le)

lemma free_page_aspace:
  assumes as: "aspace s L t ext" and v: "valid_page (kend s) v" "v \<notin> set L" "V2P v \<notin> tables (phys s) t"
    and un: "\<And>u e. upage u \<Longrightarrow> entry (phys s) t u = Some e \<Longrightarrow> PTE_ADDR e \<noteq> V2P v"
  shows "aspace (free_page s v) (v # L) t ext \<and> kend (free_page s v) = kend s
    \<and> tables (phys (free_page s v)) t = tables (phys s) t
    \<and> (\<forall>u. upage u \<longrightarrow> entry (phys (free_page s v)) t u = entry (phys s) t u)"
proof -
  let ?s = "free_page s v"
  have inv: "kmem_inv s L" "pt_inj (phys s) t" using as by (auto simp: aspace_def)
  have s': "kmem_inv ?s (v # L)" "finfo ?s = finfo s" "kend ?s = kend s" "\<And>x. PGROUNDDOWN x \<noteq> V2P v \<Longrightarrow> phys ?s x = phys s x"
    using kfree_ok [OF inv(1) v(1,2)] free_page_kfree [OF v(1)] by auto
  have out: "phys ?s x = phys s x" if "PGROUNDDOWN x \<in> tables (phys s) t" for x
    using s'(4) [of x] v(3) that by (cases "PGROUNDDOWN x = V2P v") auto
  note st = outside_same_tbl [OF inv(2) out]
  have pte: "pte_of (phys ?s) t u = pte_of (phys s) t u" if "upage u" for u by (rule outside_pte [OF inv(2) out that])
  then have mp: "mappers (phys ?s) t f = mappers (phys s) t f" for f unfolding mappers_def by (rule_tac Collect_cong) auto
  have kp: "kernel_page ?s = kernel_page s" "page_refs ?s = page_refs s" using s'(2,3) by (simp_all add: fun_eq_iff kernel_page_def page_refs_def)
  have "aspace ?s (v # L) t ext"
    unfolding aspace_def
  proof (intro conjI allI impI ballI)
    show "kmem_inv ?s (v # L)" "pt_inj (phys ?s) t" using s'(1) same_tbl_inj [OF st inv(2)] by auto
    fix x assume "x \<in> tables (phys ?s) t"
    then have x: "x \<in> tables (phys s) t" using same_tbl_tables [OF st] by simp
    then show "kernel_page ?s (P2V x)" "P2V x \<notin> set (v # L)" using as v(3) kp by (auto simp: aspace_def)
  next
    fix u e assume e: "upage u" "pte_of (phys ?s) t u = Some e" "present e"
    have e0: "pte_of (phys s) t u = Some e" using e(2) pte [OF e(1)] by simp
    then have ne: "PTE_ADDR e \<noteq> V2P v" using un [OF e(1)] e(3) by (simp add: entry_Some)
    have fr: "frame_ok s L t (PTE_ADDR e)"
      "page_refs s (P2V (PTE_ADDR e)) = card (mappers (phys s) t (PTE_ADDR e)) + ext (PTE_ADDR e)"
      using as e(1,3) e0 unfolding aspace_def by blast+
    show "frame_ok ?s (v # L) t (PTE_ADDR e)"
    proof -
      have "P2V (PTE_ADDR e) \<noteq> v" using ne by auto
      then show ?thesis using fr(1) kp same_tbl_tables [OF st] by (simp add: frame_ok_def)
    qed
    show "page_refs ?s (P2V (PTE_ADDR e)) = card (mappers (phys ?s) t (PTE_ADDR e)) + ext (PTE_ADDR e)"
      using fr(2) kp mp by simp
  qed
  then show ?thesis using s'(3) same_tbl_tables [OF st] pte by (auto simp: entry_def)
qed

definition demo_pool :: "u64 list \<Rightarrow> kmem" where
  "demo_pool vs = fold (\<lambda>v s. free_page s v) vs demo_dup"

definition demo_frees :: "u64 list" where
  "demo_frees = map P2V [0x108000, 0x109000, 0x10A000, 0x10B000, 0x10C000, 0x10D000]"

lemma demo_dup_entry:
  assumes "upage u" and "entry (phys demo_dup) 0x100000 u = Some e"
  shows "PTE_ADDR e \<in> {0x104000, 0x105000, 0x106000}"
  using demo3_pte [OF assms(1), of "\<lambda>_. 1" "0x104007" "0x105007" "0x106007" e] assms(2)
  by (auto simp: demo_dup_def entry_Some PTE_ADDR_def)

lemma demo_dup_tables: "tables (phys demo_dup) 0x100000 \<subseteq> {0x100000, 0x101000, 0x102000, 0x103000}" "kend demo_dup = P2V 0x100000"
  using simD(5) [OF demo3_sim [of "\<lambda>_. 1" "0x104007" "0x105007" "0x106007"]] demo_tables
  by (auto simp: demo_dup_def) (simp add: demo3_def demo_def)

lemma demo_pool_ok:
  assumes "set vs \<subseteq> set demo_frees" and "distinct vs"
  shows "aspace (demo_pool vs) (rev vs @ [P2V 0x107000]) 0x100000 (\<lambda>_. 0) \<and> kend (demo_pool vs) = P2V 0x100000
    \<and> tables (phys (demo_pool vs)) 0x100000 = tables (phys demo_dup) 0x100000
    \<and> (\<forall>u. upage u \<longrightarrow> entry (phys (demo_pool vs)) 0x100000 u = entry (phys demo_dup) 0x100000 u)"
  using assms
proof (induction vs rule: rev_induct)
  case Nil
  show ?case using demo_dup_ok(1) demo_dup_tables(2) by (simp add: demo_pool_def)
next
  case (snoc v vs)
  have "distinct vs" using snoc.prems(2) by simp
  note IH = snoc.IH [OF _ this]
  have v: "v \<in> set demo_frees" "v \<notin> set vs" using snoc.prems by auto
  then have vp: "valid_page (P2V 0x100000) v" "v \<noteq> P2V 0x107000"
    "V2P v \<notin> {0x100000, 0x101000, 0x102000, 0x103000, 0x104000, 0x105000, 0x106000}"
    by (auto simp: demo_frees_def valid_page_def pg_aligned_def PGSIZE_def P2V_def V2P_def KERNBASE_def PHYSTOP_def)
  have pool: "demo_pool (vs @ [v]) = free_page (demo_pool vs) v" by (simp add: demo_pool_def)
  have "aspace (free_page (demo_pool vs) v) (v # rev vs @ [P2V 0x107000]) 0x100000 (\<lambda>_. 0)
    \<and> kend (free_page (demo_pool vs) v) = kend (demo_pool vs)
    \<and> tables (phys (free_page (demo_pool vs) v)) 0x100000 = tables (phys (demo_pool vs)) 0x100000
    \<and> (\<forall>u. upage u \<longrightarrow> entry (phys (free_page (demo_pool vs) v)) 0x100000 u = entry (phys (demo_pool vs)) 0x100000 u)"
  proof (rule free_page_aspace)
    show "aspace (demo_pool vs) (rev vs @ [P2V 0x107000]) 0x100000 (\<lambda>_. 0)" using IH snoc.prems(1) by simp
    show "valid_page (kend (demo_pool vs)) v" using IH snoc.prems(1) vp(1) by simp
    show "v \<notin> set (rev vs @ [P2V 0x107000])" using v(2) vp(2) by simp
    show "V2P v \<notin> tables (phys (demo_pool vs)) 0x100000" using IH snoc.prems(1) demo_dup_tables(1) vp(3) by auto
    fix u e assume "upage u" "entry (phys (demo_pool vs)) 0x100000 u = Some e"
    then have "PTE_ADDR e \<in> {0x104000, 0x105000, 0x106000}" using IH snoc.prems(1) demo_dup_entry [of u e] by simp
    then show "PTE_ADDR e \<noteq> V2P v" using vp(3) by auto
  qed
  then show ?case using IH snoc.prems(1) by (simp add: pool)
qed

lemma demo_user_pages: "user_pages 0x3000 = {0x1000, 0x2000}" (is "?l = ?r")
proof
  show "?l \<subseteq> ?r"
  proof
    fix u assume "u \<in> ?l"
    then have u: "upage u" "u < 0x3000" "0x1000 \<le> u" by (auto simp: user_pages_def PGSIZE_def)
    from demo_pages_range [OF u(1,2)] u(3) show "u \<in> ?r" by auto
  qed
  show "?r \<subseteq> ?l"
    using demo_path(1) by (auto simp: user_pages_def PGSIZE_def)
qed

lemma demo_table_paths: "card (table_paths (user_pages 0x3000)) = 4" "card (user_pages 0x3000) = 2"
proof -
  have "table_paths (user_pages 0x3000) = {[], [0], [0, 0], [0, 0, 0]}"
    unfolding demo_user_pages by (auto simp: table_paths_def PMX_def PDPX_def PDX_def mmu_defs)
  then show "card (table_paths (user_pages 0x3000)) = 4" by simp
  show "card (user_pages 0x3000) = 2" unfolding demo_user_pages by simp
qed

definition demo_fork :: kern where
  "demo_fork = demo_kern\<lparr>km := demo_pool demo_frees,
     ptable := demo_procs[1 := (demo_procs ! 1)\<lparr>p_sz := 0x3000, p_pgdir := P2V 0x100000\<rparr>]\<rparr>"


end
