(* ===== verification/Path.thy ===== *)
theory Path
  imports Fs
begin

text \<open>
  Path names: the elements that \<^verbatim>\<open>skipelem\<close> delivers one by one are the words between the slashes
  of the path, cut to \<^verbatim>\<open>DIRSIZ\<close> bytes; names in directory entries.
\<close>

section \<open>The words of a path\<close>

fun split_slash :: "u8 list \<Rightarrow> u8 list list" where
  "split_slash [] = [[]]"
| "split_slash (c # cs) = (if c = slash then [] # split_slash cs else (c # hd (split_slash cs)) # tl (split_slash cs))"

definition path_words :: "u8 list \<Rightarrow> u8 list list" where
  "path_words p = filter (\<lambda>w. w \<noteq> []) (split_slash (takeWhile (\<lambda>c. c \<noteq> 0) p))"

text \<open>The C string in a buffer of \<^verbatim>\<open>DIRSIZ\<close> bytes.\<close>

definition name_of :: "u8 list \<Rightarrow> u8 list" where
  "name_of b = takeWhile (\<lambda>c. c \<noteq> 0) (take DIRSIZ b)"

function path_elems :: "u8 list \<Rightarrow> u8 list \<Rightarrow> u8 list list" where
  "path_elems path name =
     (case skipelem path name of None \<Rightarrow> [] | Some (path', name') \<Rightarrow> name_of name' # path_elems path' name')"
  by pat_completeness auto
termination
  by (relation "measure (\<lambda>(path, name). length path)") (auto dest: skipelem_shorter)

declare path_elems.simps [simp del]

lemma split_slash_word: "slash \<notin> set u \<Longrightarrow> split_slash (u @ v) = (u @ hd (split_slash v)) # tl (split_slash v)"
proof (induction u)
  case Nil
  show ?case by (cases v) auto
qed auto

lemma path_words_slashes: "path_words (dropWhile (\<lambda>c. c = slash) p) = path_words p"
  by (induction p) (auto simp: path_words_def slash_def)

lemma path_words_empty: "chr0 p = 0 \<Longrightarrow> path_words p = []"
  by (cases p) (auto simp: chr0_def path_words_def)

lemma path_words_word:
  assumes "u \<noteq> []" and "slash \<notin> set u" and "0 \<notin> set u" and "v = [] \<or> hd v = slash \<or> hd v = 0"
  shows "path_words (u @ v) = u # path_words v"
proof -
  have "takeWhile (\<lambda>c. c \<noteq> 0) (u @ v) = u @ takeWhile (\<lambda>c. c \<noteq> 0) v" by (intro takeWhile_append2) (use assms(3) in auto)
  moreover obtain T where "split_slash (takeWhile (\<lambda>c. c \<noteq> 0) v) = [] # T"
    using assms(4) by (cases v) (auto simp: slash_def)
  ultimately show ?thesis
    using assms(1,2) split_slash_word [of u "takeWhile (\<lambda>c. c \<noteq> 0) v"] by (simp add: path_words_def)
qed

lemma name_of_overwrite:
  assumes "0 \<notin> set s" and "length name = DIRSIZ"
  shows "name_of (if DIRSIZ \<le> length s then overwrite name 0 (take DIRSIZ s) else overwrite name 0 (s @ [0])) = take DIRSIZ s"
    "length (if DIRSIZ \<le> length s then overwrite name 0 (take DIRSIZ s) else overwrite name 0 (s @ [0])) = DIRSIZ"
proof -
  have "takeWhile (\<lambda>c. c \<noteq> 0) (s @ 0 # r) = s" for r by (subst takeWhile_append2) (use assms(1) in auto)
  then show "name_of (if DIRSIZ \<le> length s then overwrite name 0 (take DIRSIZ s) else overwrite name 0 (s @ [0])) = take DIRSIZ s"
    using assms set_take_subset [of DIRSIZ s] by (auto simp: name_of_def overwrite_def takeWhile_eq_all_conv)
  show "length (if DIRSIZ \<le> length s then overwrite name 0 (take DIRSIZ s) else overwrite name 0 (s @ [0])) = DIRSIZ"
    using assms by (simp add: overwrite_def)
qed

lemma skipelem_spec:
  assumes "length name = DIRSIZ"
  shows "skipelem path name = None \<Longrightarrow> path_words path = []"
    "skipelem path name = Some (path', name') \<Longrightarrow>
       length name' = DIRSIZ \<and> (\<exists>w. path_words path = w # path_words path' \<and> name_of name' = take DIRSIZ w)"
proof -
  let ?p = "dropWhile (\<lambda>c. c = slash) path" and ?Q = "\<lambda>c. c \<noteq> slash \<and> c \<noteq> (0 :: u8)"
  let ?s = "takeWhile ?Q ?p"
  note eq = path_words_slashes [of path]
  assume "skipelem path name = None"
  then have "chr0 ?p = 0" by (auto simp: skipelem_def Let_def split: if_splits)
  then show "path_words path = []" unfolding eq [symmetric] by (rule path_words_empty)
next
  let ?p = "dropWhile (\<lambda>c. c = slash) path" and ?Q = "\<lambda>c. c \<noteq> slash \<and> c \<noteq> (0 :: u8)"
  let ?s = "takeWhile ?Q ?p"
  assume r: "skipelem path name = Some (path', name')"
  have ne: "chr0 ?p \<noteq> 0" and p': "path' = dropWhile (\<lambda>c. c = slash) (dropWhile ?Q ?p)"
    and n': "name' = (if DIRSIZ \<le> length ?s then overwrite name 0 (take DIRSIZ ?s) else overwrite name 0 (?s @ [0]))"
    using r by (auto simp: skipelem_def Let_def dropWhile_eq_drop split: if_splits)
  obtain c q where c: "?p = c # q" using ne by (cases ?p) (auto simp: chr0_def)
  then have "?Q c" using ne hd_dropWhile [of "\<lambda>c. c = slash" path] by (auto simp: chr0_def)
  then have s: "?s \<noteq> []" using c by simp
  have s0: "slash \<notin> set ?s" "0 \<notin> set ?s" by (auto dest: set_takeWhileD)
  have v: "dropWhile ?Q ?p = [] \<or> hd (dropWhile ?Q ?p) = slash \<or> hd (dropWhile ?Q ?p) = 0"
    using hd_dropWhile [of ?Q ?p] by auto
  have "path_words path = path_words (?s @ dropWhile ?Q ?p)" using path_words_slashes [of path] by simp
  also have "\<dots> = ?s # path_words (dropWhile ?Q ?p)" by (rule path_words_word [OF s s0 v])
  also have "path_words (dropWhile ?Q ?p) = path_words path'" unfolding p' by (rule path_words_slashes [symmetric])
  finally show "length name' = DIRSIZ \<and> (\<exists>w. path_words path = w # path_words path' \<and> name_of name' = take DIRSIZ w)"
    using name_of_overwrite [OF s0(2) assms] n' by auto
qed

text \<open>
  C25. Parsing of path names. Calling \<^verbatim>\<open>skipelem\<close> until it returns 0 terminates and delivers, in order,
  exactly the non-empty words between slashes of the path up to its terminating zero byte, each cut
  to its first \<^verbatim>\<open>DIRSIZ\<close> bytes; leading, trailing and repeated slashes make no difference.
\<close>

theorem skipelem_words:
  assumes "length name = DIRSIZ"
  shows "path_elems path name = map (take DIRSIZ) (path_words path)"
  using assms
proof (induction path name rule: path_elems.induct)
  case (1 path name)
  show ?case
  proof (cases "skipelem path name")
    case None
    then show ?thesis using skipelem_spec(1) [OF 1(2)] by (simp add: path_elems.simps)
  next
    case (Some pn)
    then obtain p' n' where pn: "skipelem path name = Some (p', n')" by (cases pn) simp
    from skipelem_spec(2) [OF 1(2) pn] show ?thesis
      using 1(1) [OF pn refl] pn by (auto simp: path_elems.simps [of path])
  qed
qed

theorem skipelem_words_witness:
  "path_elems [47, 47, 97, 47, 47, 98, 98, 47, 0, 99] (replicate 14 1) = [[97], [98, 98]]"
proof -
  have "path_words [47, 47, 97, 47, 47, 98, 98, 47, 0, 99] = [[97], [98, 98]]"
    by (simp add: path_words_def slash_def)
  then show ?thesis using skipelem_words [of "replicate 14 1"] by (simp add: DIRSIZ_def)
qed

end
