(* ===== verification/Syscall.thy ===== *)
theory Syscall
  imports Proc
begin

text \<open>
  Access to the memory of the running process and the arguments of system calls (\<^verbatim>\<open>syscall.c\<close>). The
  kernel reaches user memory through the process's page table and kernel addresses through the direct
  map; a store to a page that is not writable traps, \<^verbatim>\<open>trap\<close> calls \<^verbatim>\<open>copyonwrite\<close>, and the store is
  tried again.
\<close>

section \<open>Memory as the running process's page table shows it\<close>

text \<open>
  Kernel addresses are direct-mapped in the first four gigabytes. An address between the two halves
  is not canonical. Of a user page the kernel needs only that it is present, and \<^verbatim>\<open>PTE_W\<close> to store.
\<close>

definition page_entry :: "'a kern_scheme \<Rightarrow> u64 \<Rightarrow> u64 option" where
  "page_entry s va =
     (if va < 0x800000000000
      then case pte_of (phys (km s)) (V2P (p_pgdir (me s))) va of None \<Rightarrow> None | Some e \<Rightarrow> if present e then Some e else None
      else None)"

definition translate :: "'a kern_scheme \<Rightarrow> u64 \<Rightarrow> u64 option" where
  "translate s va =
     (if va \<ge> KERNBASE then if V2P va < 0x100000000 then Some (V2P va) else None
      else map_option (\<lambda>e. PTE_ADDR e + (va AND 0xFFF)) (page_entry s va))"

definition may_write :: "'a kern_scheme \<Rightarrow> u64 \<Rightarrow> bool" where
  "may_write s va \<longleftrightarrow>
     va \<ge> KERNBASE \<or> (case page_entry s va of None \<Rightarrow> False | Some e \<Rightarrow> e AND PTE_W \<noteq> 0)"

definition uload :: "u64 \<Rightarrow> 'a kern_scheme \<Rightarrow> u8 res" where
  "uload va s = (case translate s va of None \<Rightarrow> Inl (Panic ''trap'') | Some pa \<Rightarrow> Inr (phys (km s) pa))"

definition ustore1 :: "u64 \<Rightarrow> u8 \<Rightarrow> 'a kern_scheme \<Rightarrow> 'a kern_scheme option" where
  "ustore1 va b s =
     (if may_write s va
      then map_option (\<lambda>pa. s\<lparr>km := (km s)\<lparr>phys := (phys (km s))(pa := b)\<rparr>\<rparr>) (translate s va) else None)"

text \<open>
  A store that faults below the kernel is tried again after \<^verbatim>\<open>copyonwrite\<close>; one that still faults
  keeps trapping.
\<close>

definition ustore :: "u64 \<Rightarrow> u8 \<Rightarrow> 'a kern_scheme \<Rightarrow> 'a kern_scheme res" where
  "ustore va b s =
     (case ustore1 va b s of Some s \<Rightarrow> Inr s
      | None \<Rightarrow>
          if va \<ge> 0x800000000000 then Inl (Panic ''trap'')
          else bnd (on_mem (\<lambda>m. copyonwrite m (p_pgdir (me s)) va) s) (\<lambda>(_, s).
            case ustore1 va b s of Some s \<Rightarrow> Inr s | None \<Rightarrow> Inl Deadlock))"

fun uload_bytes :: "u64 \<Rightarrow> nat \<Rightarrow> 'a kern_scheme \<Rightarrow> u8 list res" where
  "uload_bytes va 0 s = Inr []"
| "uload_bytes va (Suc n) s = bnd (uload va s) (\<lambda>b. bnd (uload_bytes (va + 1) n s) (\<lambda>bs. Inr (b # bs)))"

fun ustore_bytes :: "u64 \<Rightarrow> u8 list \<Rightarrow> 'a kern_scheme \<Rightarrow> 'a kern_scheme res" where
  "ustore_bytes va [] s = Inr s"
| "ustore_bytes va (b # bs) s = bnd (ustore va b s) (ustore_bytes (va + 1) bs)"

section \<open>Arguments\<close>

definition word_bytes :: "nat \<Rightarrow> u64 \<Rightarrow> u8 list" where
  "word_bytes n v = map (\<lambda>i. ucast (drop_bit (8 * i) v)) [0..<n]"

definition bytes_word :: "u8 list \<Rightarrow> u64" where
  "bytes_word bs = foldr (\<lambda>b v. ucast b OR push_bit 8 v) bs 0"

definition fetchint :: "u64 \<Rightarrow> 'a kern_scheme \<Rightarrow> u32 option res" where
  "fetchint addr s =
     (if addr \<ge> p_sz (me s) \<or> addr + 4 > p_sz (me s) then Inr None
      else bnd (uload_bytes addr 4 s) (\<lambda>bs. Inr (Some (ucast (bytes_word bs)))))"

definition fetchaddr :: "u64 \<Rightarrow> 'a kern_scheme \<Rightarrow> u64 option res" where
  "fetchaddr addr s =
     (if addr \<ge> p_sz (me s) \<or> addr + 8 > p_sz (me s) then Inr None
      else bnd (uload_bytes addr 8 s) (\<lambda>bs. Inr (Some (bytes_word bs))))"

text \<open>The search for the terminating zero byte; the result is the string without it.\<close>

fun string_at :: "u64 \<Rightarrow> nat \<Rightarrow> 'a kern_scheme \<Rightarrow> u8 list option res" where
  "string_at va 0 s = Inr None"
| "string_at va (Suc n) s =
     bnd (uload va s) (\<lambda>b. if b = 0 then Inr (Some [])
       else bnd (string_at (va + 1) n s) (\<lambda>r. Inr (map_option ((#) b) r)))"

definition fetchstr :: "u64 \<Rightarrow> 'a kern_scheme \<Rightarrow> u8 list option res" where
  "fetchstr addr s =
     (if addr \<ge> p_sz (me s) then Inr None else string_at addr (unat (p_sz (me s) - addr)) s)"

definition fetcharg :: "nat \<Rightarrow> 'a kern_scheme \<Rightarrow> u64 res" where
  "fetcharg n s =
     (let tf = p_tf (me s)
      in if n = 0 then Inr (tf_rdi tf) else if n = 1 then Inr (tf_rsi tf) else if n = 2 then Inr (tf_rdx tf)
         else if n = 3 then Inr (tf_r10 tf) else if n = 4 then Inr (tf_r8 tf) else if n = 5 then Inr (tf_r9 tf)
         else Inl (Panic ''failed fetch''))"

definition argint :: "nat \<Rightarrow> 'a kern_scheme \<Rightarrow> u32 res" where
  "argint n s = bnd (fetcharg n s) (\<lambda>v. Inr (ucast v))"

definition argaddr :: "nat \<Rightarrow> 'a kern_scheme \<Rightarrow> u64 res" where
  "argaddr n s = fetcharg n s"

definition argptr :: "nat \<Rightarrow> u32 \<Rightarrow> 'a kern_scheme \<Rightarrow> u64 option res" where
  "argptr n sz s =
     bnd (argaddr n s) (\<lambda>i.
       let lo = (ucast i :: u32)
       in if sint sz < 0 \<or> ucast lo \<ge> p_sz (me s) \<or> ucast (lo + sz) > p_sz (me s) then Inr None else Inr (Some i))"

definition argstr :: "nat \<Rightarrow> 'a kern_scheme \<Rightarrow> u8 list option res" where
  "argstr n s = bnd (argint n s) (\<lambda>a. fetchstr (scast a) s)"

section \<open>What the checks guarantee\<close>

lemma uload_bytes_length: "uload_bytes va n s = Inr bs \<Longrightarrow> length bs = n"
  by (induction n arbitrary: va bs) (auto simp: bnd_eq_Inr)

lemma all_Suc_less: "(\<forall>k<Suc n. P k) \<longleftrightarrow> P 0 \<and> (\<forall>k<n. P (Suc k))"
  using less_Suc_eq_0_disj by auto

lemma string_at_bytes:
  "string_at va n s = Inr (Some bs) \<Longrightarrow>
     length bs < n \<and> 0 \<notin> set bs \<and> (\<forall>k<length bs. uload (va + of_nat k) s = Inr (bs ! k)) \<and> uload (va + of_nat (length bs)) s = Inr 0"
proof (induction n arbitrary: va bs)
  case (Suc n)
  then obtain b where b: "uload va s = Inr b" by (auto simp: bnd_eq_Inr)
  show ?case
  proof (cases "b = 0")
    case True
    then show ?thesis using Suc.prems b by auto
  next
    case False
    then obtain r where r: "string_at (va + 1) n s = Inr (Some r)" "bs = b # r" using Suc.prems b by (auto simp: bnd_eq_Inr)
    then show ?thesis using Suc.IH [OF r(1)] b False by (auto simp: all_Suc_less nth_Cons' add.assoc)
  qed
qed simp

section \<open>Pointers passed by the user\<close>

lemma sint_nonneg_unat:
  fixes w :: u32
  assumes "0 \<le> sint w"
  shows "unat w < 2 ^ 31"
proof (rule ccontr)
  assume "\<not> unat w < 2 ^ 31"
  then have "int (2 ^ 31) \<le> uint w" unfolding uint_nat [of w] by (simp only: of_nat_le_iff not_less)
  then have "2 ^ 31 \<le> uint w" by simp
  moreover have "uint w < 2 ^ 32" using uint_bounded [of w] by simp
  ultimately have "uint w div 2 ^ 31 = 1" by (intro int_div_pos_eq [of _ _ _ "uint w - 2 ^ 31"]) simp_all
  then have "bit (uint w) 31" by (simp add: bit_iff_odd)
  then show False using assms bit_last_iff [of w] by (simp add: bit_uint_iff)
qed

lemma argptr_word:
  fixes p q :: u64 and sz :: u32
  assumes q: "q \<le> 0x80000000" and sz: "0 \<le> sint sz"
  shows "\<not> (sint sz < 0 \<or> ucast (ucast p :: u32) \<ge> q \<or> ucast ((ucast p :: u32) + sz) > q)
    \<longleftrightarrow> unat p mod 2 ^ 32 < unat q \<and> unat p mod 2 ^ 32 + unat sz \<le> unat q"
proof -
  have lo: "unat (ucast p :: u32) = unat p mod 2 ^ 32" by (simp add: unsigned_ucast_eq take_bit_eq_mod)
  have q31: "unat q \<le> 2 ^ 31" using q by (simp add: word_le_nat_alt)
  have up: "unat (ucast x :: u64) = unat x" for x :: u32
    using unsigned_less [of x, where ?'a = nat] by (simp add: unsigned_ucast_eq take_bit_nat_eq_self)
  show ?thesis using sz sint_nonneg_unat [OF sz] lo q31 by (auto simp: word_le_nat_alt word_less_nat_alt up unat_word_ariths)
qed

lemma argptr_iff:
  assumes "fetcharg n s = Inr p" and "p_sz (me s) \<le> 0x80000000" and "0 \<le> sint sz"
  shows "argptr n sz s = Inr (if unat p mod 2 ^ 32 < unat (p_sz (me s)) \<and> unat p mod 2 ^ 32 + unat sz \<le> unat (p_sz (me s))
    then Some p else None)"
  using argptr_word [OF assms(2,3), of p] assms(1) by (simp add: argptr_def argaddr_def Let_def)

text \<open>The direct map: kernel addresses are always writable.\<close>

lemma ustore_kernel:
  assumes "KERNBASE \<le> va" and "V2P va < 0x100000000"
  shows "ustore va b s = Inr (s\<lparr>km := (km s)\<lparr>phys := (phys (km s))(V2P va := b)\<rparr>\<rparr>)"
  using assms by (simp add: ustore_def ustore1_def may_write_def translate_def)

lemma KERNBASE_plus:
  assumes "unat a < 0x100000000"
  shows "KERNBASE \<le> KERNBASE + a" and "V2P (KERNBASE + a) = a" and "a < 0x100000000"
proof -
  show "V2P (KERNBASE + a) = a" by (simp add: V2P_def)
  show "a < 0x100000000" using assms by (simp add: word_less_nat_alt)
  have "unat KERNBASE + unat a < 2 ^ LENGTH(64)" using assms by (simp add: KERNBASE_def)
  then show "KERNBASE \<le> KERNBASE + a" by (simp add: word_le_nat_alt unat_word_ariths)
qed

lemma ustore_bytes_kernel:
  assumes "unat a + length bs < 0x100000000"
  shows "\<exists>s'. ustore_bytes (KERNBASE + a) bs s = Inr s' \<and> ptable s' = ptable s \<and> cur s' = cur s
    \<and> (\<forall>i<length bs. phys (km s') (a + of_nat i) = bs ! i)
    \<and> (\<forall>x. (\<forall>i<length bs. x \<noteq> a + of_nat i) \<longrightarrow> phys (km s') x = phys (km s) x)"
  using assms
proof (induction bs arbitrary: a s)
  case (Cons b bs)
  let ?t = "s\<lparr>km := (km s)\<lparr>phys := (phys (km s))(a := b)\<rparr>\<rparr>"
  have a: "unat a < 0x100000000" and a1: "unat (a + 1) = unat a + 1" using Cons.prems by (simp_all add: unat_word_ariths)
  have st: "ustore (KERNBASE + a) b s = Inr ?t" using ustore_kernel [OF KERNBASE_plus(1) [OF a]] KERNBASE_plus(2,3) [OF a] by simp
  have "unat (a + 1) + length bs < 0x100000000" using Cons.prems a1 by simp
  from Cons.IH [OF this, of ?t] obtain s' where s': "ustore_bytes (KERNBASE + (a + 1)) bs ?t = Inr s'"
    "ptable s' = ptable s" "cur s' = cur s" "\<And>i. i < length bs \<Longrightarrow> phys (km s') (a + 1 + of_nat i) = bs ! i"
    "\<And>x. (\<And>i. i < length bs \<Longrightarrow> x \<noteq> a + 1 + of_nat i) \<Longrightarrow> phys (km s') x = ((phys (km s))(a := b)) x"
    by auto
  have ne: "a \<noteq> a + 1 + of_nat i" if "i < length bs" for i
  proof -
    have "unat (a + 1 + of_nat i) = unat a + 1 + i"
      using Cons.prems a1 that by (simp add: unat_word_ariths unat_of_nat)
    then show ?thesis by (metis add.assoc add_cancel_right_right one_neq_zero add_is_0)
  qed
  have "ustore_bytes (KERNBASE + a) (b # bs) s = Inr s'" using st s'(1) by (simp add: add.assoc)
  moreover have "phys (km s') a = b" using s'(5) [OF ne] by simp
  ultimately show ?case
    using s'(2-4) s'(5) by (intro exI [of _ s']) (auto simp: all_Suc_less add.assoc)
qed simp

text \<open>
  C37. \<^verbatim>\<open>argptr\<close> compares only the low 32 bits of a pointer with the size of the process. For a
  pointer below four gigabytes it accepts exactly the buffers that lie inside the process. The
  address \<open>KERNBASE + a\<close>, however, is accepted whenever \<open>a\<close> is, and storing there overwrites the
  physical memory at \<open>a\<close>, whatever the page table of the process says.
\<close>

theorem argptr_checks_low_half:
  assumes "p_sz (me s) \<le> 0x80000000" and "0 \<le> sint n" and "0 < unat n"
    and "fetcharg k s = Inr p"
  shows "(unat p < 2 ^ 32 \<longrightarrow> (argptr k n s = Inr (Some p) \<longleftrightarrow> unat p + unat n \<le> unat (p_sz (me s))))
    \<and> (\<forall>a bs. p = KERNBASE + a \<longrightarrow> unat a + unat n \<le> unat (p_sz (me s)) \<longrightarrow> length bs = unat n \<longrightarrow>
         argptr k n s = Inr (Some p)
         \<and> (\<exists>s'. ustore_bytes p bs s = Inr s' \<and> ptable s' = ptable s
              \<and> (\<forall>i<length bs. phys (km s') (a + of_nat i) = bs ! i)))"
proof (intro conjI impI allI)
  note iff = argptr_iff [OF assms(4,1,2)]
  show "argptr k n s = Inr (Some p) \<longleftrightarrow> unat p + unat n \<le> unat (p_sz (me s))" if "unat p < 2 ^ 32"
    using that assms(3) unfolding iff by auto
  fix a and bs :: "u8 list"
  assume p: "p = KERNBASE + a" and fit: "unat a + unat n \<le> unat (p_sz (me s))" and len: "length bs = unat n"
  have sz: "unat (p_sz (me s)) \<le> 0x80000000" using assms(1) by (simp add: word_le_nat_alt)
  have "unat p = unat a + 4294934528 * 2 ^ 32" using fit sz unfolding p by (simp add: KERNBASE_def unat_word_ariths)
  then have "unat p mod 2 ^ 32 = unat a mod 2 ^ 32" by (simp only: mod_mult_self1)
  then have "unat p mod 2 ^ 32 = unat a" using fit sz by simp
  then show "argptr k n s = Inr (Some p)" using fit assms(3) unfolding iff by simp
  show "\<exists>s'. ustore_bytes p bs s = Inr s' \<and> ptable s' = ptable s \<and> (\<forall>i<length bs. phys (km s') (a + of_nat i) = bs ! i)"
    using ustore_bytes_kernel [of a bs s] fit sz len unfolding p by auto
qed


definition demo_call :: "u64 \<Rightarrow> kern" where
  "demo_call p = demo_kern\<lparr>cur := 1, ptable := [demo_proc, demo_proc\<lparr>p_sz := 8192, p_tf := zero_tf\<lparr>tf_rsi := p\<rparr>\<rparr>]\<rparr>"

text \<open>A process of two pages passes the address of a byte of physical memory.\<close>

theorem argptr_checks_low_half_witness:
  "argptr 1 4 (demo_call 0xFFFF800000000010) = Inr (Some 0xFFFF800000000010)
   \<and> (\<exists>s'. ustore_bytes 0xFFFF800000000010 [1, 2, 3, 4] (demo_call 0xFFFF800000000010) = Inr s' \<and> phys (km s') 0x11 = 2)
   \<and> argptr 1 4 (demo_call 0x2000) \<noteq> Inr (Some 0x2000)"
proof -
  have sz: "p_sz (me (demo_call p)) = 8192" "fetcharg 1 (demo_call p) = Inr p" for p
    by (simp_all add: demo_call_def me_def fetcharg_def Let_def)
  have n: "0 \<le> sint (4 :: u32)" "0 < unat (4 :: u32)" by simp_all
  note t = argptr_checks_low_half [OF _ n sz(2), unfolded sz(1)]
  let ?p = "0xFFFF800000000010 :: u64" and ?bs = "[1, 2, 3, 4] :: u8 list"
  have k: "?p = KERNBASE + 0x10" by (simp add: KERNBASE_def)
  have "argptr 1 4 (demo_call ?p) = Inr (Some ?p) \<and> (\<exists>s'. ustore_bytes ?p ?bs (demo_call ?p) = Inr s'
      \<and> ptable s' = ptable (demo_call ?p) \<and> (\<forall>i<length ?bs. phys (km s') (0x10 + of_nat i) = ?bs ! i))"
    by (rule t [THEN conjunct2, rule_format]) (simp_all add: k)
  moreover have "argptr 1 4 (demo_call 0x2000) \<noteq> Inr (Some 0x2000)" using argptr_checks_low_half [OF _ n sz(2) [of "0x2000"], unfolded sz(1)] by simp
  moreover have "phys m 0x11 = 2" if "\<forall>i<length ?bs. phys m (0x10 + of_nat i) = ?bs ! i" for m :: kmem
    using that [rule_format, of 1] by simp
  ultimately show ?thesis by blast
qed

end
