(* ===== verification/Exec.thy ===== *)
theory Exec
  imports Syscall
begin

text \<open>
  Replacing the image of the running process (\<^verbatim>\<open>exec.c\<close>, \<^verbatim>\<open>elf.h\<close> and \<^verbatim>\<open>loaduvm\<close> of \<^verbatim>\<open>vm.c\<close>).
\<close>

section \<open>Executable files\<close>

definition ELF_MAGIC :: u64 where "ELF_MAGIC = 0x464C457F"
definition ELF_PROG_LOAD :: u64 where "ELF_PROG_LOAD = 1"
definition MAXARG :: nat where "MAXARG = 32"

definition field :: "u8 list \<Rightarrow> nat \<Rightarrow> nat \<Rightarrow> u64" where
  "field bs off n = bytes_word (take n (drop off bs))"

text \<open>Of the two headers, the fields that \<^verbatim>\<open>exec\<close> reads.\<close>

record elfhdr =
  eh_magic :: u64
  eh_entry :: u64
  eh_phoff :: u64
  eh_phnum :: u64

record proghdr =
  ph_type :: u64
  ph_off :: u64
  ph_vaddr :: u64
  ph_filesz :: u64
  ph_memsz :: u64

definition ELFHDR_SIZE :: nat where "ELFHDR_SIZE = 64"
definition PROGHDR_SIZE :: nat where "PROGHDR_SIZE = 56"

definition elfhdr_of :: "u8 list \<Rightarrow> elfhdr" where
  "elfhdr_of bs = \<lparr>eh_magic = field bs 0 4, eh_entry = field bs 24 8, eh_phoff = field bs 32 8, eh_phnum = field bs 56 2\<rparr>"

definition proghdr_of :: "u8 list \<Rightarrow> proghdr" where
  "proghdr_of bs = \<lparr>ph_type = field bs 0 4, ph_off = field bs 8 8, ph_vaddr = field bs 16 8, ph_filesz = field bs 32 8,
     ph_memsz = field bs 40 8\<rparr>"

section \<open>Loading\<close>

text \<open>The page at \<open>addr + i\<close> gets the bytes of the file from \<open>offset + i\<close>.\<close>

definition load_page :: "(nat \<Rightarrow> 'a kern_scheme devsw) \<Rightarrow> u64 \<Rightarrow> u64 \<Rightarrow> nat \<Rightarrow> u32 \<Rightarrow> u32 \<Rightarrow> u32 \<Rightarrow> 'a kern_scheme
    \<Rightarrow> (bool \<times> 'a kern_scheme) res" where
  "load_page devsw pgdir addr ip offset sz i s =
     bnd (on_mem (\<lambda>m. walkpgdir m pgdir (addr + ucast i) False) s) (\<lambda>(pte, s).
       if pte = 0 then Inl (Panic ''loaduvm: address should exist'')
       else bnd (get_pte (km s) pte) (\<lambda>e.
         let n = (if sz - i < ucast PGSIZE then sz - i else ucast PGSIZE)
         in bnd (readi devsw ip (offset + i) n s) (\<lambda>(r, bytes, s).
              Inr (r = int (unat n), s\<lparr>km := (km s)\<lparr>phys := write_bytes (phys (km s)) (PTE_ADDR e) bytes\<rparr>\<rparr>))))"

fun loaduvm_loop :: "(nat \<Rightarrow> 'a kern_scheme devsw) \<Rightarrow> u64 \<Rightarrow> u64 \<Rightarrow> nat \<Rightarrow> u32 \<Rightarrow> u32 \<Rightarrow> u32 list \<Rightarrow> 'a kern_scheme
    \<Rightarrow> (int \<times> 'a kern_scheme) res" where
  "loaduvm_loop devsw pgdir addr ip offset sz [] s = Inr (0, s)"
| "loaduvm_loop devsw pgdir addr ip offset sz (i # is) s =
     bnd (load_page devsw pgdir addr ip offset sz i s) (\<lambda>(ok, s).
       if ok then loaduvm_loop devsw pgdir addr ip offset sz is s else Inr (-1, s))"

definition loaduvm :: "(nat \<Rightarrow> 'a kern_scheme devsw) \<Rightarrow> u64 \<Rightarrow> u64 \<Rightarrow> nat \<Rightarrow> u32 \<Rightarrow> u32 \<Rightarrow> 'a kern_scheme
    \<Rightarrow> (int \<times> 'a kern_scheme) res" where
  "loaduvm devsw pgdir addr ip offset sz s =
     (if addr mod PGSIZE \<noteq> 0 then Inl (Panic ''loaduvm: addr must be page aligned'')
      else loaduvm_loop devsw pgdir addr ip offset sz (map (\<lambda>k. of_nat (4096 * k)) [0..<(unat sz + 4095) div 4096]) s)"

text \<open>The program headers, one after the other; the result is the new size, or \<open>None\<close> for \<^verbatim>\<open>goto bad\<close>.\<close>

fun load_segments :: "(nat \<Rightarrow> 'a kern_scheme devsw) \<Rightarrow> u64 \<Rightarrow> nat \<Rightarrow> nat \<Rightarrow> u32 \<Rightarrow> u64 \<Rightarrow> 'a kern_scheme
    \<Rightarrow> (u64 option \<times> 'a kern_scheme) res" where
  "load_segments devsw pgdir ip 0 off sz s = Inr (Some sz, s)"
| "load_segments devsw pgdir ip (Suc n) off sz s =
     bnd (readi devsw ip off (of_nat PROGHDR_SIZE) s) (\<lambda>(r, bytes, s).
       let ph = proghdr_of bytes; off' = off + of_nat PROGHDR_SIZE
       in if r \<noteq> int PROGHDR_SIZE then Inr (None, s)
          else if ph_type ph \<noteq> ELF_PROG_LOAD then load_segments devsw pgdir ip n off' sz s
          else if ph_memsz ph < ph_filesz ph then Inr (None, s)
          else if ph_vaddr ph + ph_memsz ph < ph_vaddr ph then Inr (None, s)
          else bnd (on_mem (\<lambda>m. allocuvm m pgdir sz (ph_vaddr ph + ph_memsz ph)) s) (\<lambda>(sz, s).
            if sz = 0 then Inr (None, s)
            else if ph_vaddr ph mod PGSIZE \<noteq> 0 then Inr (None, s)
            else bnd (loaduvm devsw pgdir (ph_vaddr ph) ip (ucast (ph_off ph)) (ucast (ph_filesz ph)) s) (\<lambda>(r, s).
              if r < 0 then Inr (None, s) else load_segments devsw pgdir ip n off' sz s)))"

section \<open>The stack of the new image\<close>

text \<open>
  The argument strings below \<open>sp\<close>, each with its terminating zero and aligned to eight bytes; the
  result is the final \<open>sp\<close> and the addresses of the strings, or \<open>None\<close> for \<^verbatim>\<open>goto bad\<close>.
\<close>

fun push_args :: "u64 \<Rightarrow> u8 list list \<Rightarrow> nat \<Rightarrow> u64 \<Rightarrow> 'a kern_scheme \<Rightarrow> ((u64 \<times> u64 list) option \<times> 'a kern_scheme) res" where
  "push_args pgdir [] argc sp s = Inr (Some (sp, []), s)"
| "push_args pgdir (a # argv) argc sp s =
     (if argc \<ge> MAXARG then Inr (None, s)
      else let sp = (sp - of_nat (length a + 1)) AND NOT 7
        in bnd (on_mem (\<lambda>m. copyout m pgdir sp (a @ [0])) s) (\<lambda>(r, s).
             if r < 0 then Inr (None, s)
             else bnd (push_args pgdir argv (argc + 1) sp s) (\<lambda>(res, s).
               Inr (map_option (\<lambda>(sp', as). (sp', sp # as)) res, s))))"

definition ustack :: "u64 \<Rightarrow> u64 list \<Rightarrow> u64 list" where
  "ustack sp as = [0xFFFFFFFF, of_nat (length as), sp - of_nat ((length as + 1) * 8)] @ as @ [0]"

definition last_elem :: "u8 list \<Rightarrow> u8 list" where
  "last_elem path = rev (takeWhile (\<lambda>c. c \<noteq> slash) (rev path))"

text \<open>\<^verbatim>\<open>bad:\<close>, with the inode while it is still held.\<close>

definition exec_bad :: "u64 \<Rightarrow> nat option \<Rightarrow> 'a kern_scheme \<Rightarrow> (int \<times> 'a kern_scheme) res" where
  "exec_bad pgdir ip s =
     bnd (if pgdir \<noteq> 0 then do_mem (\<lambda>m. freevm m pgdir) s else Inr s) (\<lambda>s.
       case ip of None \<Rightarrow> Inr (-1, s) | Some ip \<Rightarrow> bnd (iunlockput ip s) (\<lambda>s. bnd (end_op s) (\<lambda>s. Inr (-1, s))))"

text \<open>From the argument strings on: the rest of the stack and the commit to the new image.\<close>

definition exec_commit :: "u8 list \<Rightarrow> u64 \<Rightarrow> u64 \<Rightarrow> u64 \<Rightarrow> u64 \<Rightarrow> u64 list \<Rightarrow> 'a kern_scheme \<Rightarrow> (int \<times> 'a kern_scheme) res" where
  "exec_commit path entry pgdir sz sp as s =
     (let oldpgdir = p_pgdir (me s); argc = length as; arg = sp - of_nat ((argc + 1) * 8);
          s = upd_me (\<lambda>p. p\<lparr>p_tf := (p_tf p)\<lparr>tf_rdi := of_nat argc, tf_rsi := arg\<rparr>\<rparr>) s;
          sp' = sp - of_nat ((3 + argc + 1) * 8)
      in bnd (on_mem (\<lambda>m. copyout m pgdir sp' (concat (map (word_bytes 8) (ustack sp as)))) s) (\<lambda>(r, s).
           if r < 0 then exec_bad pgdir None s
           else let s = upd_me (\<lambda>p. p\<lparr>p_name := proc_name (last_elem path), p_pgdir := pgdir, p_sz := sz,
                      p_tf := (p_tf p)\<lparr>tf_rip := entry, tf_rcx := entry, tf_rsp := sp'\<rparr>\<rparr>) s
             in bnd (do_mem (\<lambda>m. freevm m oldpgdir) s) (\<lambda>s. Inr (0, s))))"

text \<open>From the two pages of the stack on.\<close>

definition exec_stack :: "u8 list \<Rightarrow> u8 list list \<Rightarrow> u64 \<Rightarrow> u64 \<Rightarrow> u64 \<Rightarrow> 'a kern_scheme \<Rightarrow> (int \<times> 'a kern_scheme) res" where
  "exec_stack path argv entry pgdir sz s =
     (let sz = PGROUNDUP sz
      in bnd (on_mem (\<lambda>m. allocuvm m pgdir sz (sz + 2 * PGSIZE)) s) (\<lambda>(sz, s).
         if sz = 0 then exec_bad pgdir None s
         else bnd (do_mem (\<lambda>m. clearpteu m pgdir (sz - 2 * PGSIZE)) s) (\<lambda>s.
              bnd (push_args pgdir argv 0 sz s) (\<lambda>(res, s).
                case res of None \<Rightarrow> exec_bad pgdir None s | Some (sp, as) \<Rightarrow> exec_commit path entry pgdir sz sp as s))))"

text \<open>\<^verbatim>\<open>namei\<close> and \<^verbatim>\<open>nameiparent\<close> start a relative path in the directory of the running process.\<close>

definition with_cwd :: "u8 list \<Rightarrow> (nat \<Rightarrow> 'a kern_scheme \<Rightarrow> 'b res) \<Rightarrow> 'a kern_scheme \<Rightarrow> 'b res" where
  "with_cwd path f s =
     (case p_cwd (me s) of Some c \<Rightarrow> f c s | None \<Rightarrow> if chr0 path = slash then f 0 s else Inl Fault)"

definition exec :: "(nat \<Rightarrow> 'a kern_scheme devsw) \<Rightarrow> u8 list \<Rightarrow> u8 list list \<Rightarrow> 'a kern_scheme \<Rightarrow> (int \<times> 'a kern_scheme) res" where
  "exec devsw path argv s =
     bnd (begin_op s) (\<lambda>s.
     bnd (with_cwd path (\<lambda>c. namei devsw c path) s) (\<lambda>(ip, s).
     case ip of None \<Rightarrow> bnd (end_op s) (\<lambda>s. Inr (-1, s))
     | Some ip \<Rightarrow>
       bnd (ilock ip s) (\<lambda>s.
       bnd (readi devsw ip 0 (of_nat ELFHDR_SIZE) s) (\<lambda>(r, bytes, s).
         let elf = elfhdr_of bytes
         in if r \<noteq> int ELFHDR_SIZE \<or> eh_magic elf \<noteq> ELF_MAGIC then exec_bad 0 (Some ip) s
            else bnd (on_mem (\<lambda>m. setupkvm m (kpdpt s)) s) (\<lambda>(pgdir, s).
              if pgdir = 0 then exec_bad 0 (Some ip) s
              else bnd (load_segments devsw pgdir ip (unat (eh_phnum elf)) (ucast (eh_phoff elf)) PGSIZE s) (\<lambda>(res, s).
                case res of None \<Rightarrow> exec_bad pgdir (Some ip) s
                | Some sz \<Rightarrow> bnd (iunlockput ip s) (\<lambda>s. bnd (end_op s)
                    (exec_stack path argv (eh_entry elf) pgdir sz))))))))"

end
