(* ===== verification/Sysfile.thy ===== *)
theory Sysfile
  imports Exec
begin

text \<open>
  The system calls on files and directories (\<^verbatim>\<open>sysfile.c\<close>). Each takes its arguments from the trap
  frame of the running process and returns the value for \<^verbatim>\<open>rax\<close> with the new state of the kernel.
\<close>

type_synonym 'a call = "'a kern_scheme \<Rightarrow> (int \<times> 'a kern_scheme) res"

definition O_RDONLY :: u32 where "O_RDONLY = 0"
definition O_WRONLY :: u32 where "O_WRONLY = 1"
definition O_RDWR :: u32 where "O_RDWR = 2"
definition O_CREATE :: u32 where "O_CREATE = 0x200"

section \<open>Descriptors\<close>

definition argfd :: "nat \<Rightarrow> 'a kern_scheme \<Rightarrow> (nat \<times> nat) option res" where
  "argfd n s =
     bnd (argint n s) (\<lambda>fd.
       if sint fd < 0 \<or> sint fd \<ge> int NOFILE then Inr None
       else Inr (map_option (\<lambda>f. (unat fd, f)) (p_ofile (me s) ! unat fd)))"

definition fdalloc :: "nat \<Rightarrow> 'a kern_scheme \<Rightarrow> nat option \<times> 'a kern_scheme" where
  "fdalloc f s =
     (case List.find (\<lambda>fd. p_ofile (me s) ! fd = None) [0..<NOFILE] of
        None \<Rightarrow> (None, s)
      | Some fd \<Rightarrow> (Some fd, upd_me (\<lambda>p. p\<lparr>p_ofile := (p_ofile p)[fd := Some f]\<rparr>) s))"

definition sys_dup :: "'a call" where
  "sys_dup s =
     bnd (argfd 0 s) (\<lambda>a. case a of None \<Rightarrow> Inr (-1, s)
       | Some (_, f) \<Rightarrow>
           (case fdalloc f s of (None, s) \<Rightarrow> Inr (-1, s)
            | (Some fd, s) \<Rightarrow> bnd (filedup f s) (\<lambda>s. Inr (int fd, s))))"

definition sys_read :: "(nat \<Rightarrow> 'a kern_scheme devsw) \<Rightarrow> 'a call" where
  "sys_read devsw s =
     bnd (argfd 0 s) (\<lambda>a. case a of None \<Rightarrow> Inr (-1, s)
       | Some (_, f) \<Rightarrow>
           bnd (argint 2 s) (\<lambda>n. bnd (argptr 1 n s) (\<lambda>p. case p of None \<Rightarrow> Inr (-1, s)
             | Some p \<Rightarrow>
                 bnd (fileread devsw (p_killed (me s)) f (sint n) s) (\<lambda>(r, bytes, s).
                 bnd (ustore_bytes p bytes s) (\<lambda>s. Inr (r, s))))))"

definition sys_write :: "(nat \<Rightarrow> 'a kern_scheme devsw) \<Rightarrow> 'a call" where
  "sys_write devsw s =
     bnd (argfd 0 s) (\<lambda>a. case a of None \<Rightarrow> Inr (-1, s)
       | Some (_, f) \<Rightarrow>
           bnd (argint 2 s) (\<lambda>n. bnd (argptr 1 n s) (\<lambda>p. case p of None \<Rightarrow> Inr (-1, s)
             | Some p \<Rightarrow>
                 bnd (uload_bytes p (unat n) s) (\<lambda>bytes. filewrite devsw (p_killed (me s)) f bytes s))))"

definition sys_close :: "'a call" where
  "sys_close s =
     bnd (argfd 0 s) (\<lambda>a. case a of None \<Rightarrow> Inr (-1, s)
       | Some (fd, f) \<Rightarrow>
           bnd (kclose f (upd_me (\<lambda>p. p\<lparr>p_ofile := (p_ofile p)[fd := None]\<rparr>) s)) (\<lambda>s. Inr (0, s)))"

text \<open>The fields of \<^verbatim>\<open>struct stat\<close> at their offsets.\<close>

definition STAT_SIZE :: u32 where "STAT_SIZE = 20"

definition store_stat :: "u64 \<Rightarrow> stat \<Rightarrow> 'a kern_scheme \<Rightarrow> 'a kern_scheme res" where
  "store_stat p st s =
     bnd (ustore_bytes p (word_bytes 2 (ucast (st_type st))) s) (\<lambda>s.
     bnd (ustore_bytes (p + 4) (word_bytes 4 (ucast (st_dev st))) s) (\<lambda>s.
     bnd (ustore_bytes (p + 8) (word_bytes 4 (ucast (st_ino st))) s) (\<lambda>s.
     bnd (ustore_bytes (p + 12) (word_bytes 2 (ucast (st_nlink st))) s) (\<lambda>s.
     ustore_bytes (p + 16) (word_bytes 4 (ucast (st_size st))) s))))"

definition sys_fstat :: "'a call" where
  "sys_fstat s =
     bnd (argfd 0 s) (\<lambda>a. case a of None \<Rightarrow> Inr (-1, s)
       | Some (_, f) \<Rightarrow>
           bnd (argptr 1 STAT_SIZE s) (\<lambda>p. case p of None \<Rightarrow> Inr (-1, s)
             | Some p \<Rightarrow>
                 bnd (filestat f s) (\<lambda>(st, s).
                   case st of None \<Rightarrow> Inr (-1, s) | Some st \<Rightarrow> bnd (store_stat p st s) (\<lambda>s. Inr (0, s)))))"

section \<open>Directories\<close>

fun isdirempty_loop :: "(nat \<Rightarrow> 'a kern_scheme devsw) \<Rightarrow> nat \<Rightarrow> nat list \<Rightarrow> 'a kern_scheme \<Rightarrow> (bool \<times> 'a kern_scheme) res" where
  "isdirempty_loop devsw dp [] s = Inr (True, s)"
| "isdirempty_loop devsw dp (off # offs) s =
     bnd (read_dirent ''isdirempty: readi'' devsw dp off s) (\<lambda>(de, s).
       if de_inum de \<noteq> 0 then Inr (False, s) else isdirempty_loop devsw dp offs s)"

definition isdirempty :: "(nat \<Rightarrow> 'a kern_scheme devsw) \<Rightarrow> nat \<Rightarrow> 'a kern_scheme \<Rightarrow> (bool \<times> 'a kern_scheme) res" where
  "isdirempty devsw dp s = isdirempty_loop devsw dp (drop 2 (dirent_offsets (i_size (icache s ! dp)))) s"

text \<open>The variable \<^verbatim>\<open>name\<close> of the callers of \<^verbatim>\<open>nameiparent\<close>; its initial contents are not used.\<close>

definition name_buf :: "u8 list" where
  "name_buf = replicate DIRSIZ 0"

definition add_nlink :: "nat \<Rightarrow> u16 \<Rightarrow> 'a kern_scheme \<Rightarrow> 'a kern_scheme res" where
  "add_nlink ip d s = iupdate ip (upd_inode ip (\<lambda>x. x\<lparr>i_nlink := i_nlink x + d\<rparr>) s)"

definition link_bad :: "nat \<Rightarrow> 'a call" where
  "link_bad ip s =
     bnd (ilock ip s) (\<lambda>s. bnd (add_nlink ip (-1) s) (\<lambda>s. bnd (iunlockput ip s) (\<lambda>s. bnd (end_op s) (\<lambda>s. Inr (-1, s)))))"

definition do_link :: "(nat \<Rightarrow> 'a kern_scheme devsw) \<Rightarrow> u8 list \<Rightarrow> u8 list \<Rightarrow> 'a call" where
  "do_link devsw old new s =
     bnd (begin_op s) (\<lambda>s.
     bnd (with_cwd old (\<lambda>c. namei devsw c old) s) (\<lambda>(ip, s).
     case ip of None \<Rightarrow> bnd (end_op s) (\<lambda>s. Inr (-1, s))
     | Some ip \<Rightarrow>
       bnd (ilock ip s) (\<lambda>s.
         if i_type (icache s ! ip) = T_DIR then bnd (iunlockput ip s) (\<lambda>s. bnd (end_op s) (\<lambda>s. Inr (-1, s)))
         else bnd (add_nlink ip 1 s) (\<lambda>s. bnd (iunlock ip s) (\<lambda>s.
              bnd (with_cwd new (\<lambda>c. nameiparent devsw c new name_buf) s) (\<lambda>(dp, name, s).
              case dp of None \<Rightarrow> link_bad ip s
              | Some dp \<Rightarrow>
                bnd (ilock dp s) (\<lambda>s.
                bnd (if i_dev (icache s ! dp) \<noteq> i_dev (icache s ! ip) then Inr (-1, s)
                     else dirlink devsw dp name (i_inum (icache s ! ip)) s) (\<lambda>(r, s).
                bnd (iunlockput dp s) (\<lambda>s.
                  if r < 0 then link_bad ip s
                  else bnd (iput ip s) (\<lambda>s. bnd (end_op s) (\<lambda>s. Inr (0, s))))))))))))"

definition sys_link :: "(nat \<Rightarrow> 'a kern_scheme devsw) \<Rightarrow> 'a call" where
  "sys_link devsw s =
     bnd (argstr 0 s) (\<lambda>old. bnd (if old = None then Inr None else argstr 1 s) (\<lambda>new.
       case (old, new) of (Some old, Some new) \<Rightarrow> do_link devsw old new s | _ \<Rightarrow> Inr (-1, s)))"

definition dot :: "u8 list" where "dot = [46]"
definition dotdot :: "u8 list" where "dotdot = [46, 46]"

definition unlink_bad :: "nat \<Rightarrow> 'a call" where
  "unlink_bad dp s = bnd (iunlockput dp s) (\<lambda>s. bnd (end_op s) (\<lambda>s. Inr (-1, s)))"

text \<open>From the entry of \<open>ip\<close>, at offset \<open>off\<close> of \<open>dp\<close>; both inodes are locked.\<close>

definition unlink_entry :: "(nat \<Rightarrow> 'a kern_scheme devsw) \<Rightarrow> nat \<Rightarrow> nat \<Rightarrow> u32 \<Rightarrow> 'a call" where
  "unlink_entry devsw dp ip off s =
     bnd (writei devsw dp (replicate DIRENT_SIZE 0) off s) (\<lambda>(r, s).
       if r \<noteq> int DIRENT_SIZE then Inl (Panic ''unlink: writei'')
       else bnd (if i_type (icache s ! ip) = T_DIR then add_nlink dp (-1) s else Inr s) (\<lambda>s.
            bnd (iunlockput dp s) (\<lambda>s.
            bnd (add_nlink ip (-1) s) (\<lambda>s.
            bnd (iunlockput ip s) (\<lambda>s. bnd (end_op s) (\<lambda>s. Inr (0, s)))))))"

definition do_unlink :: "(nat \<Rightarrow> 'a kern_scheme devsw) \<Rightarrow> u8 list \<Rightarrow> 'a call" where
  "do_unlink devsw path s =
     bnd (begin_op s) (\<lambda>s.
     bnd (with_cwd path (\<lambda>c. nameiparent devsw c path name_buf) s) (\<lambda>(dp, name, s).
     case dp of None \<Rightarrow> bnd (end_op s) (\<lambda>s. Inr (-1, s))
     | Some dp \<Rightarrow>
       bnd (ilock dp s) (\<lambda>s.
         if namecmp name dot = 0 \<or> namecmp name dotdot = 0 then unlink_bad dp s
         else bnd (dirlookup devsw dp name s) (\<lambda>(found, s).
           case found of None \<Rightarrow> unlink_bad dp s
           | Some (ip, off) \<Rightarrow>
             bnd (ilock ip s) (\<lambda>s.
               if sint (i_nlink (icache s ! ip)) < 1 then Inl (Panic ''unlink: nlink < 1'')
               else bnd (if i_type (icache s ! ip) = T_DIR then isdirempty devsw ip s else Inr (True, s)) (\<lambda>(empty, s).
                 if \<not> empty then bnd (iunlockput ip s) (unlink_bad dp)
                 else unlink_entry devsw dp ip off s))))))"

definition sys_unlink :: "(nat \<Rightarrow> 'a kern_scheme devsw) \<Rightarrow> 'a call" where
  "sys_unlink devsw s = bnd (argstr 0 s) (\<lambda>path. case path of None \<Rightarrow> Inr (-1, s) | Some path \<Rightarrow> do_unlink devsw path s)"

text \<open>A new inode \<open>ip\<close> in the locked directory \<open>dp\<close>; the result is locked.\<close>

definition create_new :: "(nat \<Rightarrow> 'a kern_scheme devsw) \<Rightarrow> nat \<Rightarrow> u8 list \<Rightarrow> u16 \<Rightarrow> u16 \<Rightarrow> u16 \<Rightarrow> 'a kern_scheme
    \<Rightarrow> (nat option \<times> 'a kern_scheme) res" where
  "create_new devsw dp name type major minor s =
     bnd (ialloc (i_dev (icache s ! dp)) type s) (\<lambda>(ip, s).
     bnd (ilock ip s) (\<lambda>s.
     bnd (iupdate ip (upd_inode ip (\<lambda>x. x\<lparr>i_major := major, i_minor := minor, i_nlink := 1\<rparr>) s)) (\<lambda>s.
     bnd (if type \<noteq> T_DIR then Inr s
          else bnd (add_nlink dp 1 s) (\<lambda>s.
               bnd (dirlink devsw ip dot (i_inum (icache s ! ip)) s) (\<lambda>(r, s).
               if r < 0 then Inl (Panic ''create dots'')
               else bnd (dirlink devsw ip dotdot (i_inum (icache s ! dp)) s) (\<lambda>(r, s).
                 if r < 0 then Inl (Panic ''create dots'') else Inr s)))) (\<lambda>s.
     bnd (dirlink devsw dp name (i_inum (icache s ! ip)) s) (\<lambda>(r, s).
       if r < 0 then Inl (Panic ''create: dirlink'')
       else bnd (iunlockput dp s) (\<lambda>s. Inr (Some ip, s)))))))"

definition create :: "(nat \<Rightarrow> 'a kern_scheme devsw) \<Rightarrow> u8 list \<Rightarrow> u16 \<Rightarrow> u16 \<Rightarrow> u16 \<Rightarrow> 'a kern_scheme
    \<Rightarrow> (nat option \<times> 'a kern_scheme) res" where
  "create devsw path type major minor s =
     bnd (with_cwd path (\<lambda>c. nameiparent devsw c path name_buf) s) (\<lambda>(dp, name, s).
     case dp of None \<Rightarrow> Inr (None, s)
     | Some dp \<Rightarrow>
       bnd (ilock dp s) (\<lambda>s.
       bnd (dirlookup devsw dp name s) (\<lambda>(found, s).
         case found of
           Some (ip, _) \<Rightarrow>
             bnd (iunlockput dp s) (\<lambda>s. bnd (ilock ip s) (\<lambda>s.
               if type = T_FILE \<and> i_type (icache s ! ip) = T_FILE then Inr (Some ip, s)
               else bnd (iunlockput ip s) (\<lambda>s. Inr (None, s))))
         | None \<Rightarrow> create_new devsw dp name type major minor s)))"

text \<open>\<^verbatim>\<open>filealloc\<close> and \<^verbatim>\<open>fdalloc\<close> in \<^verbatim>\<open>sys_open\<close>.\<close>

definition open_file :: "'a kern_scheme \<Rightarrow> ((nat \<times> nat) option \<times> 'a kern_scheme) res" where
  "open_file s =
     (case filealloc s of (None, s) \<Rightarrow> Inr (None, s)
      | (Some f, s) \<Rightarrow>
          (case fdalloc f s of (Some fd, s) \<Rightarrow> Inr (Some (f, fd), s)
           | (None, s) \<Rightarrow> bnd (kclose f s) (\<lambda>s. Inr (None, s))))"

text \<open>From the locked inode \<open>ip\<close> on.\<close>

definition open_inode :: "nat \<Rightarrow> u32 \<Rightarrow> 'a call" where
  "open_inode ip omode s =
     bnd (open_file s) (\<lambda>(r, s).
       case r of None \<Rightarrow> bnd (iunlockput ip s) (\<lambda>s. bnd (end_op s) (\<lambda>s. Inr (-1, s)))
       | Some (f, fd) \<Rightarrow>
         bnd (iunlock ip s) (\<lambda>s. bnd (end_op s) (\<lambda>s.
           Inr (int fd, upd_file f (\<lambda>x. x\<lparr>f_type := FD_INODE, f_ip := ip, f_off := 0,
             f_readable := (omode AND O_WRONLY = 0),
             f_writable := (omode AND O_WRONLY \<noteq> 0 \<or> omode AND O_RDWR \<noteq> 0)\<rparr>) s))))"

definition do_open :: "(nat \<Rightarrow> 'a kern_scheme devsw) \<Rightarrow> u8 list \<Rightarrow> u32 \<Rightarrow> 'a call" where
  "do_open devsw path omode s =
     bnd (begin_op s) (\<lambda>s.
       if omode AND O_CREATE \<noteq> 0
       then bnd (create devsw path T_FILE 0 0 s) (\<lambda>(ip, s).
         case ip of None \<Rightarrow> bnd (end_op s) (\<lambda>s. Inr (-1, s)) | Some ip \<Rightarrow> open_inode ip omode s)
       else bnd (with_cwd path (\<lambda>c. namei devsw c path) s) (\<lambda>(ip, s).
         case ip of None \<Rightarrow> bnd (end_op s) (\<lambda>s. Inr (-1, s))
         | Some ip \<Rightarrow>
           bnd (ilock ip s) (\<lambda>s.
             if i_type (icache s ! ip) = T_DIR \<and> omode \<noteq> O_RDONLY
             then bnd (iunlockput ip s) (\<lambda>s. bnd (end_op s) (\<lambda>s. Inr (-1, s)))
             else open_inode ip omode s)))"

definition sys_open :: "(nat \<Rightarrow> 'a kern_scheme devsw) \<Rightarrow> 'a call" where
  "sys_open devsw s =
     bnd (argstr 0 s) (\<lambda>path. case path of None \<Rightarrow> Inr (-1, s)
       | Some path \<Rightarrow> bnd (argint 1 s) (\<lambda>omode. do_open devsw path omode s))"

text \<open>The end of \<^verbatim>\<open>sys_mkdir\<close> and \<^verbatim>\<open>sys_mknod\<close>.\<close>

definition put_created :: "nat option \<Rightarrow> 'a call" where
  "put_created ip s =
     (case ip of None \<Rightarrow> bnd (end_op s) (\<lambda>s. Inr (-1, s))
      | Some ip \<Rightarrow> bnd (iunlockput ip s) (\<lambda>s. bnd (end_op s) (\<lambda>s. Inr (0, s))))"

definition sys_mkdir :: "(nat \<Rightarrow> 'a kern_scheme devsw) \<Rightarrow> 'a call" where
  "sys_mkdir devsw s =
     bnd (begin_op s) (\<lambda>s.
     bnd (argstr 0 s) (\<lambda>path.
     bnd (case path of None \<Rightarrow> Inr (None, s) | Some path \<Rightarrow> create devsw path T_DIR 0 0 s) (\<lambda>(ip, s). put_created ip s)))"

definition sys_mknod :: "(nat \<Rightarrow> 'a kern_scheme devsw) \<Rightarrow> 'a call" where
  "sys_mknod devsw s =
     bnd (begin_op s) (\<lambda>s.
     bnd (argstr 0 s) (\<lambda>path.
     bnd (case path of None \<Rightarrow> Inr (None, s)
          | Some path \<Rightarrow> bnd (argint 1 s) (\<lambda>major. bnd (argint 2 s) (\<lambda>minor.
              create devsw path T_DEV (ucast major) (ucast minor) s))) (\<lambda>(ip, s). put_created ip s)))"

definition sys_chdir :: "(nat \<Rightarrow> 'a kern_scheme devsw) \<Rightarrow> 'a call" where
  "sys_chdir devsw s =
     bnd (begin_op s) (\<lambda>s.
     bnd (argstr 0 s) (\<lambda>path.
     bnd (case path of None \<Rightarrow> Inr (None, s) | Some path \<Rightarrow> with_cwd path (\<lambda>c. namei devsw c path) s) (\<lambda>(ip, s).
     case ip of None \<Rightarrow> bnd (end_op s) (\<lambda>s. Inr (-1, s))
     | Some ip \<Rightarrow>
       bnd (ilock ip s) (\<lambda>s.
         if i_type (icache s ! ip) \<noteq> T_DIR then bnd (iunlockput ip s) (\<lambda>s. bnd (end_op s) (\<lambda>s. Inr (-1, s)))
         else bnd (iunlock ip s) (\<lambda>s.
              case p_cwd (me s) of None \<Rightarrow> Inl Fault
              | Some c \<Rightarrow>
                bnd (iput c s) (\<lambda>s. bnd (end_op s) (\<lambda>s. Inr (0, upd_me (\<lambda>p. p\<lparr>p_cwd := Some ip\<rparr>) s))))))))"

section \<open>Programs and pipes\<close>

text \<open>The vector of arguments, fetched up to the null pointer; \<open>n\<close> entries are left.\<close>

fun fetch_argv :: "u64 \<Rightarrow> nat \<Rightarrow> 'a kern_scheme \<Rightarrow> u8 list list option res" where
  "fetch_argv uargv 0 s = Inr None"
| "fetch_argv uargv (Suc n) s =
     bnd (fetchaddr uargv s) (\<lambda>uarg.
       case uarg of None \<Rightarrow> Inr None
       | Some uarg \<Rightarrow>
         if uarg = 0 then Inr (Some [])
         else bnd (fetchstr uarg s) (\<lambda>a.
           case a of None \<Rightarrow> Inr None
           | Some a \<Rightarrow> bnd (fetch_argv (uargv + 8) n s) (\<lambda>r. Inr (map_option ((#) a) r))))"

definition sys_exec :: "(nat \<Rightarrow> 'a kern_scheme devsw) \<Rightarrow> 'a call" where
  "sys_exec devsw s =
     bnd (argstr 0 s) (\<lambda>path. case path of None \<Rightarrow> Inr (-1, s)
       | Some path \<Rightarrow>
         bnd (argaddr 1 s) (\<lambda>uargv.
         bnd (fetch_argv uargv MAXARG s) (\<lambda>argv.
           case argv of None \<Rightarrow> Inr (-1, s) | Some argv \<Rightarrow> exec devsw path argv s)))"

text \<open>\<^verbatim>\<open>pipealloc\<close> with its page from the allocator, which is asked only when two files are free.
  The array \<^verbatim>\<open>data\<close> follows the 104 bytes of the pipe's lock.\<close>

definition kpipealloc :: "'a kern_scheme \<Rightarrow> ((nat \<times> nat) option \<times> 'a kern_scheme) res" where
  "kpipealloc s =
     (if length (filter (\<lambda>f. f_ref (ftable s ! f) = 0) [0..<NFILE]) < 2 then pipealloc None [] s
      else bnd (on_mem kalloc s) (\<lambda>(k, s).
        if k = 0 then pipealloc None [] s
        else pipealloc (Some k) (map (\<lambda>i. phys (km s) (V2P k + of_nat (104 + i))) [0..<PIPESIZE]) s))"

definition sys_pipe :: "'a call" where
  "sys_pipe s =
     bnd (argptr 0 8 s) (\<lambda>p. case p of None \<Rightarrow> Inr (-1, s)
       | Some p \<Rightarrow>
         bnd (kpipealloc s) (\<lambda>(fs, s).
         case fs of None \<Rightarrow> Inr (-1, s)
         | Some (rf1, wf1) \<Rightarrow>
           let (fd0, s) = fdalloc rf1 s; (fd1, s) = (if fd0 = None then (None, s) else fdalloc wf1 s)
           in case (fd0, fd1) of
                (Some fd0, Some fd1) \<Rightarrow>
                  bnd (ustore_bytes p (word_bytes 4 (of_nat fd0)) s) (\<lambda>s.
                  bnd (ustore_bytes (p + 4) (word_bytes 4 (of_nat fd1)) s) (\<lambda>s. Inr (0, s)))
              | _ \<Rightarrow>
                  let s = (case fd0 of None \<Rightarrow> s | Some fd0 \<Rightarrow> upd_me (\<lambda>q. q\<lparr>p_ofile := (p_ofile q)[fd0 := None]\<rparr>) s)
                  in bnd (kclose rf1 s) (\<lambda>s. bnd (kclose wf1 s) (\<lambda>s. Inr (-1, s)))))"

end
