(* ===== verification/Trap.thy ===== *)
theory Trap
  imports Sysfile
begin

text \<open>
  The system calls on processes (\<^verbatim>\<open>sysproc.c\<close>), the dispatch of system calls (\<^verbatim>\<open>syscall\<close> of
  \<^verbatim>\<open>syscall.c\<close>) and the handler of traps and interrupts (\<^verbatim>\<open>trap.c\<close>). A call that gives up the
  processor ends, in the model, at the switch; its outcome says whether it has to be resumed.
\<close>

section \<open>System calls on processes\<close>

datatype sys_end = Ret u64 | Asleep | Gone

type_synonym 'a sysproc = "'a kern_scheme \<Rightarrow> (sys_end \<times> 'a kern_scheme) res"

definition ret :: "'a call \<Rightarrow> 'a sysproc" where
  "ret f s = bnd (f s) (\<lambda>(r, s). Inr (Ret (of_int r), s))"

definition sys_fork :: "'a call" where
  "sys_fork s = fork s"

definition sys_exit :: "'a sysproc" where
  "sys_exit s = bnd (exit s) (\<lambda>s. Inr (Gone, s))"

definition sys_wait :: "'a sysproc" where
  "sys_wait s =
     bnd (wait_scan s) (\<lambda>(r, s).
       Inr (case r of Reaped pid \<Rightarrow> Ret (of_int pid) | NoChildren \<Rightarrow> Ret (-1) | MustSleep \<Rightarrow> Asleep, s))"

definition sys_kill :: "'a call" where
  "sys_kill s = bnd (argint 0 s) (\<lambda>pid. Inr (kill (sint pid) s))"

definition sys_getpid :: "'a call" where
  "sys_getpid s = Inr (p_pid (me s), s)"

definition sys_sbrk :: "'a sysproc" where
  "sys_sbrk s =
     bnd (argaddr 0 s) (\<lambda>n.
       let addr = p_sz (me s)
       in bnd (growproc n s) (\<lambda>(r, s). Inr (Ret (if r < 0 then -1 else addr), s)))"

text \<open>
  The test of the loop of \<^verbatim>\<open>sys_sleep\<close>, made when the call starts and after every wakeup; \<open>ticks0\<close> is
  the number of ticks when the call started. The comparison is between unsigned numbers.
\<close>

definition sleep_test :: "u32 \<Rightarrow> u32 \<Rightarrow> 'a sysproc" where
  "sleep_test ticks0 n s =
     (if ticks s - ticks0 < n
      then if p_killed (me s) then Inr (Ret (-1), s) else Inr (Asleep, sleep_enter AtTicks s)
      else Inr (Ret 0, s))"

definition sys_sleep :: "'a sysproc" where
  "sys_sleep s = bnd (argint 0 s) (\<lambda>n. sleep_test (ticks s) n s)"

definition sys_uptime :: "'a call" where
  "sys_uptime s = Inr (sint (ticks s), s)"

definition sys_dedup :: "'a call" where
  "sys_dedup s = bnd (do_mem (\<lambda>m. dedup m (p_pgdir (me s)) 0 (p_sz (me s))) s) (\<lambda>s. Inr (0, s))"

text \<open>The walk over a free list that has a cycle does not end.\<close>

definition sys_freepages :: "'a call" where
  "sys_freepages s = (case kfreepagecount (km s) of None \<Rightarrow> Inl Deadlock | Some n \<Rightarrow> Inr (sint n, s))"

section \<open>Dispatch\<close>

definition syscalls :: "(nat \<Rightarrow> 'a kern_scheme devsw) \<Rightarrow> (nat \<times> 'a sysproc) list" where
  "syscalls devsw =
     [(1, ret sys_fork), (2, sys_exit), (3, sys_wait), (4, ret sys_pipe), (5, ret (sys_read devsw)), (6, ret sys_kill),
      (7, ret (sys_exec devsw)), (8, ret sys_fstat), (9, ret (sys_chdir devsw)), (10, ret sys_dup), (11, ret sys_getpid),
      (12, sys_sbrk), (13, sys_sleep), (14, ret sys_uptime), (15, ret (sys_open devsw)), (16, ret (sys_write devsw)),
      (17, ret (sys_mknod devsw)), (18, ret (sys_unlink devsw)), (19, ret (sys_link devsw)), (20, ret (sys_mkdir devsw)),
      (21, ret sys_close), (22, ret sys_dedup), (23, ret sys_freepages)]"

definition set_rax :: "u64 \<Rightarrow> 'a kern_scheme \<Rightarrow> 'a kern_scheme" where
  "set_rax v s = upd_me (\<lambda>p. p\<lparr>p_tf := (p_tf p)\<lparr>tf_rax := v\<rparr>\<rparr>) s"

text \<open>The test of \<^verbatim>\<open>killed\<close> before and after a call.\<close>

definition exit_if_killed :: "'a kern_scheme \<Rightarrow> ('a kern_scheme \<Rightarrow> (sys_end \<times> 'a kern_scheme) res) \<Rightarrow> (sys_end \<times> 'a kern_scheme) res" where
  "exit_if_killed s k = (if p_killed (me s) then bnd (exit s) (\<lambda>s. Inr (Gone, s)) else k s)"

definition syscall :: "(nat \<Rightarrow> 'a kern_scheme devsw) \<Rightarrow> trapframe \<Rightarrow> 'a sysproc" where
  "syscall devsw tf s =
     exit_if_killed s (\<lambda>s.
       let s = upd_me (\<lambda>p. p\<lparr>p_tf := tf\<rparr>) s
       in bnd (case map_of (syscalls devsw) (unat (tf_rax tf)) of
                 Some f \<Rightarrow> f s | None \<Rightarrow> Inr (Ret (-1), s)) (\<lambda>(out, s).
            case out of
              Ret v \<Rightarrow> exit_if_killed (set_rax v s) (\<lambda>s. Inr (Ret v, s))
            | _ \<Rightarrow> Inr (out, s)))"

section \<open>Traps\<close>

definition T_IRQ0 :: u64 where "T_IRQ0 = 32"
definition IRQ_TIMER :: u64 where "IRQ_TIMER = 0"
definition IRQ_KBD :: u64 where "IRQ_KBD = 1"
definition IRQ_COM1 :: u64 where "IRQ_COM1 = 4"
definition IRQ_IDE :: u64 where "IRQ_IDE = 14"
definition IRQ_SPURIOUS :: u64 where "IRQ_SPURIOUS = 31"
definition T_PGFLT :: u64 where "T_PGFLT = 14"

text \<open>
  What the processor and the devices contribute to a trap: the number of the processor, the address
  that faulted, whether a process is running, and the handlers of the disk, the keyboard and the
  serial line.
\<close>

record 'a machine =
  cpunum :: nat
  cr2 :: u64
  has_proc :: bool
  ideintr_h :: "'a kern_scheme \<Rightarrow> 'a kern_scheme res"
  kbdintr_h :: "'a kern_scheme \<Rightarrow> 'a kern_scheme res"
  uartintr_h :: "'a kern_scheme \<Rightarrow> 'a kern_scheme res"

definition user_mode :: "trapframe \<Rightarrow> bool" where
  "user_mode tf \<longleftrightarrow> tf_cs tf AND 3 = 3"

definition unexpected :: "'a machine \<Rightarrow> trapframe \<Rightarrow> 'a kern_scheme \<Rightarrow> 'a kern_scheme res" where
  "unexpected mc tf s =
     (if \<not> has_proc mc \<or> tf_cs tf AND 3 = 0 then Inl (Panic ''trap'')
      else Inr (upd_me (\<lambda>p. p\<lparr>p_killed := True\<rparr>) s))"

definition trap_cause :: "'a machine \<Rightarrow> trapframe \<Rightarrow> 'a kern_scheme \<Rightarrow> 'a kern_scheme res" where
  "trap_cause mc tf s =
     (let n = tf_trapno tf
      in if n = T_IRQ0 + IRQ_TIMER
         then Inr (if cpunum mc = 0 then wakeup AtTicks (s\<lparr>ticks := ticks s + 1\<rparr>) else s)
         else if n = T_IRQ0 + IRQ_IDE then ideintr_h mc s
         else if n = T_IRQ0 + IRQ_IDE + 1 then Inr s
         else if n = T_IRQ0 + IRQ_KBD then kbdintr_h mc s
         else if n = T_IRQ0 + IRQ_COM1 then uartintr_h mc s
         else if n = T_IRQ0 + 7 \<or> n = T_IRQ0 + IRQ_SPURIOUS then Inr s
         else if n = T_PGFLT \<and> tf_err tf AND 2 \<noteq> 0
         then bnd (on_mem (\<lambda>m. copyonwrite m (p_pgdir (me s)) (cr2 mc)) s) (\<lambda>(r, s).
           if r \<noteq> 0 then Inr s else unexpected mc tf s)
         else unexpected mc tf s)"

text \<open>
  \<^verbatim>\<open>trap\<close> returns to the interrupted code (\<open>Ret\<close>), or the process yields (\<open>Asleep\<close>, to go on with
  \<open>trap_resume\<close>) or has exited.
\<close>

definition exit_if_doomed :: "'a machine \<Rightarrow> trapframe \<Rightarrow> 'a kern_scheme
    \<Rightarrow> ('a kern_scheme \<Rightarrow> (sys_end \<times> 'a kern_scheme) res) \<Rightarrow> (sys_end \<times> 'a kern_scheme) res" where
  "exit_if_doomed mc tf s k =
     (if has_proc mc \<and> p_killed (me s) \<and> user_mode tf then bnd (exit s) (\<lambda>s. Inr (Gone, s)) else k s)"

definition trap_resume :: "'a machine \<Rightarrow> trapframe \<Rightarrow> 'a sysproc" where
  "trap_resume mc tf s = exit_if_doomed mc tf s (\<lambda>s. Inr (Ret (tf_rax tf), s))"

definition trap :: "'a machine \<Rightarrow> trapframe \<Rightarrow> 'a sysproc" where
  "trap mc tf s =
     bnd (trap_cause mc tf s) (\<lambda>s.
       exit_if_doomed mc tf s (\<lambda>s.
         if has_proc mc \<and> p_state (me s) = RUNNING \<and> tf_trapno tf = T_IRQ0 + IRQ_TIMER
         then Inr (Asleep, yield s) else trap_resume mc tf s))"

section \<open>Killed processes\<close>

lemma exit_if_killed_Ret:
  "exit_if_killed s k = Inr (Ret v, s') \<longleftrightarrow> \<not> p_killed (me s) \<and> k s = Inr (Ret v, s')"
  by (auto simp: exit_if_killed_def bnd_eq_Inr)

lemma exit_if_doomed_Ret:
  "exit_if_doomed mc tf s k = Inr (Ret v, s') \<longleftrightarrow>
     \<not> (has_proc mc \<and> p_killed (me s) \<and> user_mode tf) \<and> k s = Inr (Ret v, s')"
  by (auto simp: exit_if_doomed_def bnd_eq_Inr)

text \<open>
  C26. A killed process does not get back to user space: no system call and no trap from user mode
  returns to a process whose \<^verbatim>\<open>killed\<close> flag is set, and a process that is already killed when it makes
  a call or resumes after a yield goes straight to \<^verbatim>\<open>exit\<close>.
\<close>

theorem killed_never_returns:
  shows "(syscall devsw tf s = Inr (Ret v, s') \<longrightarrow> \<not> p_killed (me s) \<and> \<not> p_killed (me s'))
    \<and> (has_proc mc \<longrightarrow> user_mode tf \<longrightarrow> trap mc tf s = Inr (Ret v, s') \<longrightarrow> \<not> p_killed (me s'))
    \<and> (p_killed (me s) \<longrightarrow> syscall devsw tf s = bnd (exit s) (\<lambda>s. Inr (Gone, s)))
    \<and> (p_killed (me s) \<longrightarrow> has_proc mc \<longrightarrow> user_mode tf \<longrightarrow> trap_resume mc tf s = bnd (exit s) (\<lambda>s. Inr (Gone, s)))"
proof (intro conjI impI)
  assume "syscall devsw tf s = Inr (Ret v, s')"
  then obtain out t where "\<not> p_killed (me s)"
      and "(case out of Ret v \<Rightarrow> exit_if_killed (set_rax v t) (\<lambda>s. Inr (Ret v, s)) | _ \<Rightarrow> Inr (out, t)) = Inr (Ret v, s')"
    unfolding syscall_def exit_if_killed_Ret Let_def bnd_eq_Inr by (auto simp del: sys_end.case)
  then show "\<not> p_killed (me s)" "\<not> p_killed (me s')"
    by (cases out; auto simp: exit_if_killed_Ret)+
next
  assume "has_proc mc" "user_mode tf" "trap mc tf s = Inr (Ret v, s')"
  then show "\<not> p_killed (me s')"
    by (auto simp: trap_def trap_resume_def bnd_eq_Inr exit_if_doomed_Ret split: if_splits)
qed (simp_all add: syscall_def exit_if_killed_def trap_resume_def exit_if_doomed_def)

theorem killed_never_returns_witness:
  "\<exists>v s'. syscall (\<lambda>_. \<lparr>dev_read = None, dev_write = None\<rparr>) (zero_tf\<lparr>tf_rax := 11\<rparr>) demo_kern = Inr (Ret v, s')
     \<and> v = 2 \<and> \<not> p_killed (me s')"
proof -
  let ?d = "\<lambda>_. \<lparr>dev_read = None, dev_write = None\<rparr> :: kern devsw" and ?tf = "zero_tf\<lparr>tf_rax := 11\<rparr>"
  have me: "me demo_kern = demo_proc\<lparr>p_state := RUNNING, p_pid := 2, p_parent := Some 0, p_cwd := Some 0\<rparr>"
    by (simp add: me_def demo_procs_def)
  let ?s = "upd_me (\<lambda>p. p\<lparr>p_tf := ?tf\<rparr>) demo_kern"
  have "me ?s = (me demo_kern)\<lparr>p_tf := ?tf\<rparr>" "me (set_rax 2 ?s) = (me demo_kern)\<lparr>p_tf := ?tf\<lparr>tf_rax := 2\<rparr>\<rparr>"
    by (simp_all add: set_rax_def me_def demo_procs_def upd_me_def upd_proc_def)
  then have r: "syscall ?d ?tf demo_kern = Inr (Ret 2, set_rax 2 ?s)"
    by (simp add: syscall_def exit_if_killed_def me demo_proc_def Let_def syscalls_def ret_def sys_getpid_def)
  then show ?thesis using killed_never_returns [of ?d ?tf demo_kern 2 "set_rax 2 ?s"] by blast
qed

section \<open>Faults of user programs\<close>


text \<open>A process whose tables exist, but which maps no page, writes to address \<open>0x800\<close>.\<close>

definition demo_tables :: memory where
  "demo_tables = (\<lambda>_. 0)(0x1000 := 7, 0x1001 := 0x20, 0x2000 := 7, 0x2001 := 0x30, 0x3000 := 7, 0x3001 := 0x40)"

definition demo_fault :: kern where
  "demo_fault = demo_kern\<lparr>km := demo_mem0\<lparr>phys := demo_tables\<rparr>,
     ptable := [demo_proc, demo_proc\<lparr>p_state := RUNNING, p_pgdir := P2V 0x1000\<rparr>]\<rparr>"

definition demo_machine :: "unit machine" where
  "demo_machine = \<lparr>cpunum = 0, cr2 = 0x800, has_proc = True, ideintr_h = Inr, kbdintr_h = Inr, uartintr_h = Inr\<rparr>"


section \<open>Sleeping for a number of ticks\<close>

text \<open>
  One tick of the clock as a process \<open>i\<close> asleep in \<^verbatim>\<open>sys_sleep\<close> lives it: the interrupt, the switch back to
  the process, and the test of its loop.
\<close>

definition tick_round :: "'a machine \<Rightarrow> trapframe \<Rightarrow> nat \<Rightarrow> u32 \<Rightarrow> u32 \<Rightarrow> 'a kern_scheme \<Rightarrow> (sys_end \<times> 'a kern_scheme) res" where
  "tick_round mc tf i ticks0 n s =
     bnd (trap_cause mc tf s) (\<lambda>s.
       if p_state (ptable s ! i) \<noteq> RUNNABLE then Inr (Asleep, s)
       else sleep_test ticks0 n (sleep_leave (upd_proc i (\<lambda>p. p\<lparr>p_state := RUNNING\<rparr>) (s\<lparr>cur := i\<rparr>))))"

fun tick_rounds :: "'a machine \<Rightarrow> trapframe \<Rightarrow> nat \<Rightarrow> u32 \<Rightarrow> u32 \<Rightarrow> nat \<Rightarrow> 'a kern_scheme \<Rightarrow> (sys_end \<times> 'a kern_scheme) res" where
  "tick_rounds mc tf i ticks0 n 0 s = Inr (Asleep, s)"
| "tick_rounds mc tf i ticks0 n (Suc k) s =
     bnd (tick_rounds mc tf i ticks0 n k s) (\<lambda>(out, s). if out = Asleep then tick_round mc tf i ticks0 n s else Inr (out, s))"

definition dozing :: "nat \<Rightarrow> 'a kern_scheme \<Rightarrow> bool" where
  "dozing i s \<longleftrightarrow> i < length (ptable s) \<and> p_state (ptable s ! i) = SLEEPING \<and> p_chan (ptable s ! i) = AtTicks
     \<and> \<not> p_killed (ptable s ! i)"

lemma tick_round_step:
  assumes "cpunum mc = 0" and "tf_trapno tf = T_IRQ0 + IRQ_TIMER" and "dozing i s"
  shows "\<exists>s'. ticks s' = ticks s + 1 \<and> (if ticks s + 1 - ticks0 < n
      then tick_round mc tf i ticks0 n s = Inr (Asleep, s') \<and> dozing i s'
      else tick_round mc tf i ticks0 n s = Inr (Ret 0, s'))"
proof -
  let ?w = "wakeup AtTicks (s\<lparr>ticks := ticks s + 1\<rparr>)"
  let ?u = "sleep_leave (upd_proc i (\<lambda>p. p\<lparr>p_state := RUNNING\<rparr>) (?w\<lparr>cur := i\<rparr>))"
  have "p_state (ptable ?w ! i) = RUNNABLE" "ticks ?w = ticks s + 1" "length (ptable ?w) = length (ptable s)"
    using assms(3) by (simp_all add: wakeup_def dozing_def)  (simp add: wakeup1_def)
  then have r: "tick_round mc tf i ticks0 n s = sleep_test ticks0 n ?u"
    using assms(1,2) by (simp add: tick_round_def trap_cause_def)
  have t: "ticks ?u = ticks s + 1" by (simp add: sleep_leave_def upd_me_def upd_proc_def wakeup_def wakeup1_def)
  have u: "cur ?u = i" "i < length (ptable ?u)" "\<not> p_killed (me ?u)"
    using assms(3) by (simp_all add: dozing_def sleep_leave_def wakeup_def me_def)
  have "dozing i (sleep_enter AtTicks ?u)" "ticks (sleep_enter AtTicks ?u) = ticks s + 1"
    using u t by (simp_all add: dozing_def sleep_enter_def) (simp add: upd_me_def upd_proc_def)
  then show ?thesis unfolding r sleep_test_def t using u(3) by (auto intro: exI [of _ ?u] simp: t)
qed

lemma tick_rounds_asleep:
  assumes "cpunum mc = 0" and "tf_trapno tf = T_IRQ0 + IRQ_TIMER" and "dozing i s" and "k < unat n"
  shows "\<exists>s'. tick_rounds mc tf i (ticks s) n k s = Inr (Asleep, s') \<and> dozing i s' \<and> ticks s' = ticks s + of_nat k"
  using assms(4)
proof (induction k)
  case 0
  then show ?case using assms(3) by simp
next
  case (Suc k)
  then obtain s1 where s1: "tick_rounds mc tf i (ticks s) n k s = Inr (Asleep, s1)" "dozing i s1" "ticks s1 = ticks s + of_nat k"
    by auto
  have "of_nat k + 1 < n"
    using Suc.prems unsigned_less [of n, where ?'a = nat] by (simp add: word_less_nat_alt unat_word_ariths unat_of_nat)
  then show ?case
    using tick_round_step [OF assms(1,2) s1(2), of "ticks s" n] s1 by (auto simp: add.assoc add.commute)
qed

text \<open>
  C29. \<^verbatim>\<open>sleep(n)\<close> lasts exactly \<open>n\<close> ticks. A process that is not killed goes to sleep, is still asleep
  after every smaller number of clock interrupts, and returns 0 at the \<open>n\<close>th, also when the counter of
  ticks wraps around in between.
\<close>

theorem sleep_lasts_n_ticks:
  assumes "cpunum mc = 0" and "tf_trapno tf = T_IRQ0 + IRQ_TIMER" and "argint 0 s = Inr n" and "0 < n"
    and "\<not> p_killed (me s)" and "cur s < length (ptable s)"
  shows "\<exists>s1. sys_sleep s = Inr (Asleep, s1)
    \<and> (\<forall>k<unat n. \<exists>s'. tick_rounds mc tf (cur s) (ticks s) n k s1 = Inr (Asleep, s'))
    \<and> (\<exists>s'. tick_rounds mc tf (cur s) (ticks s) n (unat n) s1 = Inr (Ret 0, s') \<and> ticks s' = ticks s + n)"
proof (rule exI [of _ "sleep_enter AtTicks s"], intro conjI allI impI)
  let ?s = "sleep_enter AtTicks s" and ?i = "cur s"
  show "sys_sleep s = Inr (Asleep, ?s)" using assms(3-5) by (simp add: sys_sleep_def sleep_test_def)
  have d: "dozing ?i ?s" and t: "ticks ?s = ticks s"
    using assms(5,6) by (simp_all add: dozing_def sleep_enter_def me_def) (simp add: upd_me_def upd_proc_def)
  note asleep = tick_rounds_asleep [OF assms(1,2) d, unfolded t]
  show "\<exists>s'. tick_rounds mc tf ?i (ticks s) n k ?s = Inr (Asleep, s')" if "k < unat n" for k
    using asleep [OF that] by blast
  obtain k where k: "unat n = Suc k" using assms(4) by (metis gr0_implies_Suc word_less_nat_alt unat_0)
  then obtain s1 where s1: "tick_rounds mc tf ?i (ticks s) n k ?s = Inr (Asleep, s1)" "dozing ?i s1" "ticks s1 = ticks s + of_nat k"
    using asleep [of k n] by auto
  have n: "of_nat k + 1 = n" using arg_cong [OF k, of "of_nat :: nat \<Rightarrow> u32"] by simp
  then have "ticks s1 + 1 - ticks s = n" "ticks s1 + 1 = ticks s + n" using s1(3) by (simp_all add: add.assoc)
  then show "\<exists>s'. tick_rounds mc tf ?i (ticks s) n (unat n) ?s = Inr (Ret 0, s') \<and> ticks s' = ticks s + n"
    using tick_round_step [OF assms(1,2) s1(2), of "ticks s" n] s1(1) by (auto simp: k)
qed

definition demo_sleep :: kern where
  "demo_sleep = demo_kern\<lparr>ptable := [demo_proc, demo_proc\<lparr>p_state := RUNNING, p_tf := zero_tf\<lparr>tf_rdi := 3\<rparr>\<rparr>], ticks := 0xFFFFFFFF\<rparr>"

theorem sleep_lasts_n_ticks_witness:
  "\<exists>s1. sys_sleep demo_sleep = Inr (Asleep, s1)
     \<and> (\<exists>s'. tick_rounds demo_machine (zero_tf\<lparr>tf_trapno := 32\<rparr>) 1 0xFFFFFFFF 3 2 s1 = Inr (Asleep, s'))
     \<and> (\<exists>s'. tick_rounds demo_machine (zero_tf\<lparr>tf_trapno := 32\<rparr>) 1 0xFFFFFFFF 3 3 s1 = Inr (Ret 0, s') \<and> ticks s' = 2)"
proof -
  have me: "me demo_sleep = demo_proc\<lparr>p_state := RUNNING, p_tf := zero_tf\<lparr>tf_rdi := 3\<rparr>\<rparr>"
    and c: "cur demo_sleep = 1" "ticks demo_sleep = 0xFFFFFFFF" "length (ptable demo_sleep) = 2"
    by (simp_all add: me_def demo_sleep_def)
  have "argint 0 demo_sleep = Inr 3" by (simp add: argint_def fetcharg_def me Let_def)
  moreover have "\<not> p_killed (me demo_sleep)" by (simp add: me demo_proc_def)
  moreover have "cpunum demo_machine = 0" "tf_trapno (zero_tf\<lparr>tf_trapno := 32\<rparr>) = T_IRQ0 + IRQ_TIMER"
    by (simp_all add: demo_machine_def T_IRQ0_def IRQ_TIMER_def)
  ultimately obtain s1 where "sys_sleep demo_sleep = Inr (Asleep, s1)"
    and b: "\<And>k. k < 3 \<Longrightarrow> \<exists>s'. tick_rounds demo_machine (zero_tf\<lparr>tf_trapno := 32\<rparr>) 1 0xFFFFFFFF 3 k s1 = Inr (Asleep, s')"
    and "\<exists>s'. tick_rounds demo_machine (zero_tf\<lparr>tf_trapno := 32\<rparr>) 1 0xFFFFFFFF 3 3 s1 = Inr (Ret 0, s') \<and> ticks s' = 2"
    using sleep_lasts_n_ticks [of demo_machine "zero_tf\<lparr>tf_trapno := 32\<rparr>" demo_sleep 3] unfolding c by auto
  then show ?thesis using b [of 2] by auto
qed

end
