(* ===== verification/Frames.thy ===== *)
theory Frames
  imports Trap
begin

text \<open>
  What the file system and the system calls leave alone. A view \<open>g\<close> of the state that depends only on
  what lies above the inode cache, and that the device functions keep, is kept by every operation on
  inodes, directories and paths. A view that moreover ignores kernel memory, file offsets and the
  contents of pipes is kept by the system calls that open and close nothing.
\<close>

section \<open>The file system\<close>

locale quiet_devices =
  fixes devsw :: "nat \<Rightarrow> 'a fsys_scheme devsw"
    and g :: "'a fsys_scheme \<Rightarrow> 'b"
  assumes more_g: "fsys.more s' = fsys.more s \<Longrightarrow> g s' = g s"
    and dev_read_g: "dev_read (devsw d) = Some rd \<Longrightarrow> rd i off n s = Inr (r, bytes, s') \<Longrightarrow> g s' = g s"
    and dev_write_g: "dev_write (devsw d) = Some wr \<Longrightarrow> wr i off src s = Inr (r', s') \<Longrightarrow> g s' = g s"
begin

lemmas inode_g = begin_op_fs [THEN more_g] end_op_fs [THEN more_g] iupdate_fs [THEN more_g] iput_fs [THEN more_g]
  ilock_fs [THEN more_g] iunlock_fs [THEN more_g] readi_loop_fs [THEN more_g] writei_loop_fs [THEN more_g] block_fs [THEN more_g]

lemma upd_inode_g [simp]: "g (upd_inode i f s) = g s" "g (set_data b d s) = g s"
  by (rule more_g, simp)+

lemma readi_g: "readi devsw i off n s = Inr (r, bytes, s') \<Longrightarrow> g s' = g s"
  by (auto simp: readi_def Let_def dev_entry_def bnd_eq_Inr split: if_splits option.splits bind_splits
      dest!: inode_g intro: dev_read_g)

lemma writei_g: "writei devsw i src off s = Inr (r, s') \<Longrightarrow> g s' = g s"
  by (auto simp: writei_def Let_def dev_entry_def bnd_eq_Inr split: if_splits option.splits bind_splits
      dest!: inode_g intro: dev_write_g)

lemma iget_g: "iget dev n s = Inr (i, s') \<Longrightarrow> g s' = g s"
  by (auto simp: iget_def Let_def split: option.splits if_splits)

lemma idup_g [simp]: "g (idup i s) = g s"
  by (simp add: idup_def)

lemma iunlockput_g: "iunlockput i s = Inr s' \<Longrightarrow> g s' = g s"
  by (auto simp: iunlockput_def bnd_eq_Inr dest!: inode_g)

lemma ialloc_loop_g: "ialloc_loop dev ty ns s = Inr (i, s') \<Longrightarrow> g s' = g s"
proof (induction ns arbitrary: s)
  case (Cons n ns)
  show ?case using Cons.prems by (auto simp: bnd_eq_Inr Let_def split: if_splits dest!: inode_g iget_g Cons.IH)
qed simp

lemma ialloc_g: "ialloc dev ty s = Inr (i, s') \<Longrightarrow> g s' = g s"
  by (auto simp: ialloc_def dest: ialloc_loop_g)

lemma read_dirent_g: "read_dirent msg devsw dp off s = Inr (de, s') \<Longrightarrow> g s' = g s"
  by (auto simp: read_dirent_def bnd_eq_Inr split: if_splits dest!: readi_g)

lemma dirlookup_loop_g: "dirlookup_loop devsw dp name offs s = Inr (r, s') \<Longrightarrow> g s' = g s"
proof (induction offs arbitrary: s)
  case (Cons off offs)
  show ?case using Cons.prems by (auto simp: bnd_eq_Inr split: if_splits dest!: read_dirent_g iget_g Cons.IH)
qed simp

lemma dirlookup_g: "dirlookup devsw dp name s = Inr (r, s') \<Longrightarrow> g s' = g s"
  by (auto simp: dirlookup_def split: if_splits dest: dirlookup_loop_g)

lemma empty_dirent_g: "empty_dirent devsw dp offs k s = Inr (r, s') \<Longrightarrow> g s' = g s"
proof (induction offs arbitrary: s k)
  case (Cons off offs)
  show ?case using Cons.prems by (auto simp: bnd_eq_Inr split: if_splits dest!: read_dirent_g Cons.IH)
qed simp

lemma dirlink_g: "dirlink devsw dp name n s = Inr (r, s') \<Longrightarrow> g s' = g s"
  by (auto simp: dirlink_def bnd_eq_Inr split: if_splits option.splits dest!: dirlookup_g inode_g empty_dirent_g writei_g)

lemma namex_loop_g: "namex_loop devsw par ip path name s = Inr (r, name', s') \<Longrightarrow> g s' = g s"
proof (induction "length path" arbitrary: path name ip s rule: less_induct)
  case less
  show ?case
  proof (cases "skipelem path name")
    case None
    then show ?thesis using less.prems by (subst (asm) namex_loop.simps) (auto simp: bnd_eq_Inr split: if_splits dest!: inode_g)
  next
    case (Some q)
    then obtain path' name1 where q: "skipelem path name = Some (path', name1)" by (cases q) auto
    note IH = less.hyps [OF skipelem_shorter [OF q]]
    show ?thesis using less.prems q by (subst (asm) namex_loop.simps)
      (auto simp: bnd_eq_Inr split: if_splits option.splits dest!: inode_g iunlockput_g dirlookup_g IH)
  qed
qed

lemma namex_g: "namex devsw c path par name s = Inr (r, name', s') \<Longrightarrow> g s' = g s"
  by (auto simp: namex_def bnd_eq_Inr split: if_splits dest!: iget_g namex_loop_g)

lemma namei_g: "namei devsw c path s = Inr (r, s') \<Longrightarrow> g s' = g s"
  by (auto simp: namei_def bnd_eq_Inr dest!: namex_g)

lemma nameiparent_g: "nameiparent devsw c path name s = Inr (r, name', s') \<Longrightarrow> g s' = g s"
  by (auto simp: nameiparent_def dest!: namex_g)

end

section \<open>System calls\<close>

locale quiet_calls = quiet_devices devsw g
  for devsw :: "nat \<Rightarrow> 'a kern_scheme devsw" and g :: "'a kern_scheme \<Rightarrow> 'b" +
  assumes km_g [simp]: "g (s\<lparr>km := m\<rparr>) = g s"
    and off_g [simp]: "g (upd_file f (\<lambda>x. x\<lparr>f_off := k x\<rparr>) s) = g s"
    and pipe_g [simp]: "g (s\<lparr>pipes := q\<rparr>) = g s"
begin

lemma on_mem_g: "on_mem f s = Inr (x, s') \<Longrightarrow> g s' = g s"
  by (auto simp: on_mem_def bnd_eq_Inr)

lemma do_mem_g: "do_mem f s = Inr s' \<Longrightarrow> g s' = g s"
  by (auto simp: do_mem_def bnd_eq_Inr)

lemma ustore_g: "ustore va b s = Inr s' \<Longrightarrow> g s' = g s"
  by (auto simp: ustore_def ustore1_def bnd_eq_Inr split: option.splits if_splits dest!: on_mem_g)

lemma ustore_bytes_g: "ustore_bytes va bs s = Inr s' \<Longrightarrow> g s' = g s"
proof (induction bs arbitrary: va s)
  case (Cons b bs)
  show ?case using Cons.prems by (auto simp: bnd_eq_Inr dest!: ustore_g Cons.IH)
qed simp

lemma fileread_g: "fileread devsw killed f n s = Inr (r, bytes, s') \<Longrightarrow> g s' = g s"
  by (auto simp: fileread_def Let_def bnd_eq_Inr split: if_splits fdtype.splits option.splits prod.splits outcome.splits
      dest!: inode_g readi_g)

lemma filewrite_loop_g: "filewrite_loop devsw f src s = Inr (ok, s') \<Longrightarrow> g s' = g s"
proof (induction "length src" arbitrary: src s rule: less_induct)
  case less
  have "src = [] \<or> length (drop (min (length src) max_write) src) < length src"
    by (cases "src = []") (simp_all add: max_write_def LOGSIZE_def MAXOPBLOCKS_def)
  then show ?case
    using less.prems by (subst (asm) filewrite_loop.simps)
      (auto simp: bnd_eq_Inr Let_def split: if_splits dest!: inode_g writei_g less.hyps [rotated])
qed

lemma filewrite_g: "filewrite devsw killed f src s = Inr (r, s') \<Longrightarrow> g s' = g s"
  by (auto simp: filewrite_def Let_def bnd_eq_Inr split: if_splits fdtype.splits option.splits prod.splits outcome.splits
      dest!: filewrite_loop_g)

lemma filestat_g: "filestat f s = Inr (st, s') \<Longrightarrow> g s' = g s"
  by (auto simp: filestat_def Let_def bnd_eq_Inr split: if_splits dest!: inode_g)

lemma sys_read_g: "sys_read devsw s = Inr (r, s') \<Longrightarrow> g s' = g s"
  by (auto simp: sys_read_def bnd_eq_Inr split: option.splits prod.splits dest!: fileread_g ustore_bytes_g)

lemma sys_write_g: "sys_write devsw s = Inr (r, s') \<Longrightarrow> g s' = g s"
  by (auto simp: sys_write_def bnd_eq_Inr split: option.splits prod.splits dest!: filewrite_g)

lemma sys_fstat_g: "sys_fstat s = Inr (r, s') \<Longrightarrow> g s' = g s"
  by (auto simp: sys_fstat_def store_stat_def bnd_eq_Inr split: option.splits prod.splits dest!: filestat_g ustore_bytes_g)

end

context quiet_calls
begin

lemma isdirempty_loop_g: "isdirempty_loop devsw dp offs s = Inr (b, s') \<Longrightarrow> g s' = g s"
proof (induction offs arbitrary: s)
  case (Cons off offs)
  show ?case using Cons.prems by (auto simp: bnd_eq_Inr split: if_splits dest!: read_dirent_g Cons.IH)
qed simp

lemma isdirempty_g: "isdirempty devsw dp s = Inr (b, s') \<Longrightarrow> g s' = g s"
  by (auto simp: isdirempty_def dest: isdirempty_loop_g)

lemma add_nlink_g: "add_nlink ip d s = Inr s' \<Longrightarrow> g s' = g s"
  by (auto simp: add_nlink_def dest!: inode_g)

lemma with_cwd_g:
  assumes "with_cwd path f s = Inr r" and "\<And>c. f c s = Inr r \<Longrightarrow> P"
  shows P
  using assms by (auto simp: with_cwd_def split: option.splits if_splits)

lemma namei_cwd_g: "with_cwd path (\<lambda>c. namei devsw c path) s = Inr (r, s') \<Longrightarrow> g s' = g s"
  by (erule with_cwd_g) (rule namei_g)

lemma nameiparent_cwd_g: "with_cwd path (\<lambda>c. nameiparent devsw c path name) s = Inr (r, name', s') \<Longrightarrow> g s' = g s"
  by (erule with_cwd_g) (rule nameiparent_g)

lemma link_bad_g: "link_bad ip s = Inr (r, s') \<Longrightarrow> g s' = g s"
  by (auto simp: link_bad_def bnd_eq_Inr dest!: inode_g add_nlink_g iunlockput_g)

lemma do_link_g: "do_link devsw old new s = Inr (r, s') \<Longrightarrow> g s' = g s"
  by (auto simp: do_link_def bnd_eq_Inr split: option.splits if_splits
      dest!: inode_g add_nlink_g iunlockput_g dirlink_g link_bad_g namei_cwd_g nameiparent_cwd_g)

lemma unlink_entry_g: "unlink_entry devsw dp ip off s = Inr (r, s') \<Longrightarrow> g s' = g s"
  by (auto simp: unlink_entry_def bnd_eq_Inr split: if_splits dest!: writei_g add_nlink_g iunlockput_g inode_g)

lemma unlink_bad_g: "unlink_bad dp s = Inr (r, s') \<Longrightarrow> g s' = g s"
  by (auto simp: unlink_bad_def bnd_eq_Inr dest!: iunlockput_g inode_g)

lemma do_unlink_g: "do_unlink devsw path s = Inr (r, s') \<Longrightarrow> g s' = g s"
  by (auto simp: do_unlink_def bnd_eq_Inr split: option.splits if_splits
      dest!: inode_g unlink_bad_g unlink_entry_g iunlockput_g dirlookup_g isdirempty_g nameiparent_cwd_g)

lemma create_new_g: "create_new devsw dp name ty ma mi s = Inr (r, s') \<Longrightarrow> g s' = g s"
  by (auto simp: create_new_def bnd_eq_Inr split: if_splits dest!: ialloc_g inode_g add_nlink_g dirlink_g iunlockput_g)

lemma create_g: "create devsw path ty ma mi s = Inr (r, s') \<Longrightarrow> g s' = g s"
  by (auto simp: create_def bnd_eq_Inr split: option.splits if_splits
      dest!: create_new_g inode_g iunlockput_g dirlookup_g nameiparent_cwd_g)

lemma sys_link_g: "sys_link devsw s = Inr (r, s') \<Longrightarrow> g s' = g s"
  by (auto simp: sys_link_def bnd_eq_Inr split: option.splits if_splits dest!: do_link_g)

lemma sys_unlink_g: "sys_unlink devsw s = Inr (r, s') \<Longrightarrow> g s' = g s"
  by (auto simp: sys_unlink_def bnd_eq_Inr split: option.splits dest!: do_unlink_g)

lemma put_created_g: "put_created ip s = Inr (r, s') \<Longrightarrow> g s' = g s"
  by (auto simp: put_created_def bnd_eq_Inr split: option.splits dest!: inode_g iunlockput_g)

lemma sys_mkdir_g: "sys_mkdir devsw s = Inr (r, s') \<Longrightarrow> g s' = g s"
  by (auto simp: sys_mkdir_def bnd_eq_Inr split: option.splits dest!: inode_g create_g put_created_g)

lemma sys_mknod_g: "sys_mknod devsw s = Inr (r, s') \<Longrightarrow> g s' = g s"
  by (auto simp: sys_mknod_def bnd_eq_Inr split: option.splits dest!: inode_g create_g put_created_g)

end

text \<open>A fallible step that, if it returns, returns a state with the same view as \<open>s\<close>.\<close>

definition kept :: "('s \<Rightarrow> 'b) \<Rightarrow> 's \<Rightarrow> ('r \<times> 's) res \<Rightarrow> bool" where
  "kept g s m \<longleftrightarrow> (\<forall>r s'. m = Inr (r, s') \<longrightarrow> g s' = g s)"

lemma kept_Inr: "g s' = g s \<Longrightarrow> kept g s (Inr (r, s'))"
  by (simp add: kept_def)

lemma kept_if: "(b \<Longrightarrow> kept g s m) \<Longrightarrow> (\<not> b \<Longrightarrow> kept g s n) \<Longrightarrow> kept g s (if b then m else n)"
  by simp

lemma kept_bnd:
  assumes "kept g s m" and "\<And>x s1. g s1 = g s \<Longrightarrow> kept g s (k (x, s1))"
  shows "kept g s (bnd m k)"
  unfolding kept_def bnd_eq_Inr
proof (intro allI impI, elim exE conjE)
  fix r s' y assume y: "m = Inr y" "k y = Inr (r, s')"
  obtain x s1 where "y = (x, s1)" by (cases y)
  moreover from this y(1) assms(1) have "g s1 = g s" by (simp add: kept_def)
  ultimately show "g s' = g s" using assms(2) [of s1 x] y(2) unfolding kept_def by blast
qed

context quiet_calls
begin

lemma load_page_g: "load_page devsw pgdir addr ip off sz i s = Inr (ok, s') \<Longrightarrow> g s' = g s"
  by (auto simp: load_page_def bnd_eq_Inr Let_def split: if_splits dest!: on_mem_g readi_g)

lemma loaduvm_loop_g: "loaduvm_loop devsw pgdir addr ip off sz js s = Inr (r, s') \<Longrightarrow> g s' = g s"
proof (induction js arbitrary: s)
  case (Cons j js)
  show ?case using Cons.prems by (auto simp: bnd_eq_Inr split: if_splits dest!: load_page_g Cons.IH)
qed simp

lemma loaduvm_g: "loaduvm devsw pgdir addr ip off sz s = Inr (r, s') \<Longrightarrow> g s' = g s"
  by (auto simp: loaduvm_def split: if_splits dest: loaduvm_loop_g)

lemma load_segments_g: "load_segments devsw pgdir ip n off sz s = Inr (r, s') \<Longrightarrow> g s' = g s"
proof -
  have "kept g t (load_segments devsw pgdir ip n off sz s)" if "g s = g t" for t :: "'a kern_scheme" and off sz s
    using that
  proof (induction n arbitrary: off sz s)
    case 0
    then show ?case by (simp add: kept_Inr)
  next
    case (Suc n)
    show ?case
    proof (cases "readi devsw ip off (of_nat PROGHDR_SIZE) s")
      case (Inr q)
      obtain k bytes s1 where q: "q = (k, bytes, s1)" by (cases q)
      have s1: "g s1 = g t" using readi_g Inr Suc.prems unfolding q by simp
      have alloc: "kept g t (on_mem f u)" and load: "kept g t (loaduvm devsw pgdir va ip off' n' u)" if "g u = g t" for f u va off' n'
        using on_mem_g [of f u] loaduvm_g [of pgdir va ip off' n' u] that unfolding kept_def by (blast intro: trans)+
      show ?thesis unfolding load_segments.simps Let_def Inr q bnd_Inr prod.case
        by (rule kept_if kept_Inr kept_bnd Suc.IH alloc load s1 | assumption | simp only: prod.case)+
    qed (simp add: kept_def)
  qed
  from this [of s s] show "load_segments devsw pgdir ip n off sz s = Inr (r, s') \<Longrightarrow> g s' = g s"
    by (auto simp: kept_def)
qed

lemma push_args_g: "push_args pgdir argv argc sp s = Inr (r, s') \<Longrightarrow> g s' = g s"
proof (induction argv arbitrary: argc sp s r)
  case (Cons a argv)
  show ?case using Cons.prems by (auto simp: bnd_eq_Inr Let_def split: if_splits dest!: on_mem_g Cons.IH)
qed simp

lemma exec_bad_g: "exec_bad pgdir ip s = Inr (r, s') \<Longrightarrow> g s' = g s \<and> r = -1"
  by (auto simp: exec_bad_def bnd_eq_Inr split: if_splits option.splits dest!: do_mem_g iunlockput_g inode_g)

end

end
