(* ===== verification/Ulib.thy ===== *)
theory Ulib
  imports Cstring
begin

text \<open>
  The library of user programs (\<^verbatim>\<open>ulib.c\<close>, \<^verbatim>\<open>printf.c\<close>): strings in byte-addressed memory, reading a
  line, conversion of numbers, and formatted output. The bytes that a program writes to a descriptor
  are the result of the function that writes them.
\<close>

section \<open>Strings\<close>

partial_function (option) u_strcpy :: "memory \<Rightarrow> u64 \<Rightarrow> u64 \<Rightarrow> memory option" where
  "u_strcpy m s t = (let c = m t; m' = m(s := c) in if c \<noteq> 0 then u_strcpy m' (s + 1) (t + 1) else Some m')"

partial_function (option) u_strcmp :: "memory \<Rightarrow> u64 \<Rightarrow> u64 \<Rightarrow> int option" where
  "u_strcmp m p q =
     (if m p \<noteq> 0 \<and> m p = m q then u_strcmp m (p + 1) (q + 1) else Some (int (unat (m p)) - int (unat (m q))))"

partial_function (option) u_strlen_loop :: "memory \<Rightarrow> u64 \<Rightarrow> nat \<Rightarrow> nat option" where
  "u_strlen_loop m s n = (if m (s + of_nat n) \<noteq> 0 then u_strlen_loop m s (Suc n) else Some n)"

definition u_strlen :: "memory \<Rightarrow> u64 \<Rightarrow> nat option" where
  "u_strlen m s = u_strlen_loop m s 0"

definition u_memset :: "memory \<Rightarrow> u64 \<Rightarrow> u32 \<Rightarrow> u32 \<Rightarrow> memory" where
  "u_memset m dst c n = stosb m dst (ucast c) (unat n)"

text \<open>The result 0 is the null pointer.\<close>

partial_function (option) u_strchr :: "memory \<Rightarrow> u64 \<Rightarrow> u8 \<Rightarrow> u64 option" where
  "u_strchr m s c = (if m s \<noteq> 0 then if m s = c then Some s else u_strchr m (s + 1) c else Some 0)"

definition u_memmove :: "memory \<Rightarrow> u64 \<Rightarrow> u64 \<Rightarrow> int \<Rightarrow> memory" where
  "u_memmove m dst src n = copy_fwd m dst src (nat n)"

partial_function (option) atoi_loop :: "memory \<Rightarrow> u64 \<Rightarrow> u32 \<Rightarrow> u32 option" where
  "atoi_loop m s n =
     (if 48 \<le> m s \<and> m s \<le> 57 then atoi_loop m (s + 1) (n * 10 + ucast (m s) - 48) else Some n)"

definition atoi :: "memory \<Rightarrow> u64 \<Rightarrow> u32 option" where
  "atoi m s = atoi_loop m s 0"

text \<open>
  \<^verbatim>\<open>gets\<close>: \<open>inp\<close> is what standard input still has to deliver, \<open>n\<close> the room for further characters; the
  result is the new memory and the rest of the input.
\<close>

fun gets_loop :: "memory \<Rightarrow> u64 \<Rightarrow> nat \<Rightarrow> u8 list \<Rightarrow> memory \<times> u8 list" where
  "gets_loop m p 0 inp = (m(p := 0), inp)"
| "gets_loop m p (Suc n) [] = (m(p := 0), [])"
| "gets_loop m p (Suc n) (c # inp) =
     (let m' = m(p := c)
      in if c = 10 \<or> c = 13 then (m'(p + 1 := 0), inp) else gets_loop m' (p + 1) n inp)"

definition gets :: "memory \<Rightarrow> u64 \<Rightarrow> int \<Rightarrow> u8 list \<Rightarrow> memory \<times> u8 list" where
  "gets m buf nmax inp = gets_loop m buf (nat (nmax - 1)) inp"

section \<open>Formatted output\<close>

definition digits :: "u8 list" where
  "digits = [48, 49, 50, 51, 52, 53, 54, 55, 56, 57, 97, 98, 99, 100, 101, 102]"

fun print_x64_loop :: "nat \<Rightarrow> u64 \<Rightarrow> u8 list" where
  "print_x64_loop 0 x = []"
| "print_x64_loop (Suc n) x = digits ! unat (drop_bit 60 x) # print_x64_loop n (push_bit 4 x)"

definition print_x64 :: "u64 \<Rightarrow> u8 list" where
  "print_x64 x = print_x64_loop 16 x"

fun print_x32_loop :: "nat \<Rightarrow> u32 \<Rightarrow> u8 list" where
  "print_x32_loop 0 x = []"
| "print_x32_loop (Suc n) x = digits ! unat (drop_bit 28 x) # print_x32_loop n (push_bit 4 x)"

definition print_x32 :: "u32 \<Rightarrow> u8 list" where
  "print_x32 x = print_x32_loop 8 x"

text \<open>
  The array \<^verbatim>\<open>buf\<close> of \<^verbatim>\<open>print_d\<close> as it is filled, least significant digit first. The 64-bit variable
  \<^verbatim>\<open>x\<close> holds the absolute value of any \<^verbatim>\<open>int\<close>.
\<close>

fun print_d_loop :: "nat \<Rightarrow> u8 list" where
  "print_d_loop x = digits ! (x mod 10) # (if x div 10 \<noteq> 0 then print_d_loop (x div 10) else [])"

declare print_d_loop.simps [simp del]

definition print_d :: "u32 \<Rightarrow> u8 list" where
  "print_d v = rev (print_d_loop (nat \<bar>sint v\<bar>) @ (if sint v < 0 then [45] else []))"

text \<open>The arguments after the format; a null string pointer is \<open>None\<close>.\<close>

datatype arg = ArgInt u32 | ArgAddr u64 | ArgStr "u8 list option"

definition null_text :: "u8 list" where
  "null_text = [40, 110, 117, 108, 108, 41]"

text \<open>One conversion; an argument that is missing or of another type has no defined value.\<close>

definition convert :: "u8 \<Rightarrow> arg list \<Rightarrow> (u8 list \<times> arg list) res" where
  "convert c as =
     (if c = 99 then case as of ArgInt v # as \<Rightarrow> Inr ([ucast v], as) | _ \<Rightarrow> Inl Fault
      else if c = 100 then case as of ArgInt v # as \<Rightarrow> Inr (print_d v, as) | _ \<Rightarrow> Inl Fault
      else if c = 120 then case as of ArgInt v # as \<Rightarrow> Inr (print_x32 v, as) | _ \<Rightarrow> Inl Fault
      else if c = 112 then case as of ArgAddr v # as \<Rightarrow> Inr (print_x64 v, as) | _ \<Rightarrow> Inl Fault
      else if c = 115
      then case as of ArgStr t # as \<Rightarrow> Inr (case t of None \<Rightarrow> null_text | Some t \<Rightarrow> takeWhile (\<lambda>x. x \<noteq> 0) t, as) | _ \<Rightarrow> Inl Fault
      else if c = 37 then Inr ([37], as)
      else Inr ([37, c], as))"

fun printf :: "u8 list \<Rightarrow> arg list \<Rightarrow> u8 list res" where
  "printf [] as = Inr []"
| "printf (c # fmt) as =
     (if c = 0 then Inr []
      else if c \<noteq> 37 then bnd (printf fmt as) (\<lambda>out. Inr (c # out))
      else case fmt of [] \<Rightarrow> Inr []
        | d # fmt \<Rightarrow>
            if d = 0 then Inr []
            else bnd (convert d as) (\<lambda>(out1, as). bnd (printf fmt as) (\<lambda>out. Inr (out1 @ out))))"

section \<open>Numbers printed and read back\<close>

definition is_digit :: "u8 \<Rightarrow> bool" where
  "is_digit c \<longleftrightarrow> 48 \<le> c \<and> c \<le> 57"

definition number :: "u8 list \<Rightarrow> nat" where
  "number ds = foldl (\<lambda>n c. n * 10 + (unat c - 48)) 0 ds"

lemma digits_nth: "d < 10 \<Longrightarrow> digits ! d = of_nat (48 + d)"
  by (auto simp: digits_def numeral_eq_Suc less_Suc_eq)

lemma print_d_loop_number:
  "number (rev (print_d_loop x)) = x \<and> (\<forall>c\<in>set (print_d_loop x). is_digit c)"
proof (induction x rule: print_d_loop.induct)
  case (1 x)
  have d: "x mod 10 < 10" by simp
  have u: "unat (digits ! (x mod 10)) = 48 + x mod 10" unfolding digits_nth [OF d] unat_of_nat using d by simp
  have c: "is_digit (digits ! (x mod 10))" "unat (digits ! (x mod 10)) - 48 = x mod 10"
    using d u by (simp_all add: is_digit_def word_le_nat_alt)
  show ?case
  proof (cases "x div 10 = 0")
    case True
    then show ?thesis using c by (subst (1 2) print_d_loop.simps) (simp add: number_def)
  next
    case False
    then show ?thesis using 1 c by (subst (1 2) print_d_loop.simps) (simp add: number_def)
  qed
qed

lemma print_d_loop_length: "x < 10 ^ Suc k \<Longrightarrow> length (print_d_loop x) \<le> Suc k"
proof (induction k arbitrary: x)
  case 0
  then show ?case by (subst print_d_loop.simps) simp
next
  case (Suc k)
  then have "x div 10 < 10 ^ Suc k" by (simp add: less_mult_imp_div_less mult.commute)
  from Suc.IH [OF this] show ?case by (subst print_d_loop.simps) simp
qed

lemma atoi_loop_digits:
  assumes "cstr m s xs" and "\<forall>c\<in>set xs. is_digit c"
  shows "atoi_loop m s n = Some (foldl (\<lambda>n c. n * 10 + ucast c - 48) n xs)"
  using assms
proof (induction xs arbitrary: s n)
  case Nil
  then show ?case by (subst atoi_loop.simps) simp
next
  case (Cons c xs)
  then show ?case by (subst atoi_loop.simps) (simp add: is_digit_def)
qed

lemma foldl_number:
  assumes "\<forall>c\<in>set xs. is_digit c"
  shows "foldl (\<lambda>n c. n * 10 + ucast c - 48) (of_nat k) xs = (of_nat (foldl (\<lambda>n c. n * 10 + (unat c - 48)) k xs) :: u32)"
  using assms
proof (induction xs arbitrary: k)
  case (Cons c xs)
  have "48 \<le> unat c" using Cons.prems by (simp add: is_digit_def word_le_nat_alt)
  then have "(ucast c :: u32) - 48 = of_nat (unat c - 48)" by (simp add: of_nat_diff)
  then have e: "of_nat k * 10 + ucast c - 48 = (of_nat (k * 10 + (unat c - 48)) :: u32)"
    by (simp only: add_diff_eq [symmetric] of_nat_add of_nat_mult of_nat_numeral)
  show ?case using Cons.IH [of "k * 10 + (unat c - 48)"] Cons.prems unfolding foldl.simps e by simp
qed simp

text \<open>
  C33. \<^verbatim>\<open>atoi\<close> reads back what \<^verbatim>\<open>printf\<close> prints for \<^verbatim>\<open>%d\<close>: a number that is not negative in full, a
  negative one, \<open>INT_MIN\<close> included, after its sign. The digits and the sign fit into the 16 bytes that
  \<^verbatim>\<open>print_d\<close> has for them.
\<close>

theorem print_d_atoi:
  "length (print_d v) \<le> 11 \<and> printf [37, 100] [ArgInt v] = Inr (print_d v)
   \<and> (0 \<le> sint v \<longrightarrow> cstr m s (print_d v) \<longrightarrow> atoi m s = Some v)
   \<and> (sint v < 0 \<longrightarrow> cstr m s (print_d v) \<longrightarrow> m s = 45 \<and> atoi m (s + 1) = Some (- v))"
proof -
  let ?x = "nat \<bar>sint v\<bar>" and ?d = "print_d_loop (nat \<bar>sint v\<bar>)"
  have b: "- (2 ^ 31) \<le> sint v" "sint v < 2 ^ 31" using sint_ge [of v] sint_lt [of v] by simp_all
  then have "?x < 10 ^ Suc 9" by simp
  from print_d_loop_length [OF this] have len: "length ?d \<le> 10" by simp
  have read: "atoi m a = Some (of_nat ?x)" if "cstr m a (rev ?d)" for a
  proof -
    have "\<forall>c\<in>set (rev ?d). is_digit c" "number (rev ?d) = ?x" using print_d_loop_number [of ?x] by simp_all
    then show ?thesis
      using atoi_loop_digits [OF that] foldl_number [of "rev ?d" 0] by (simp add: atoi_def number_def)
  qed
  have pos: "of_nat ?x = v" if "0 \<le> sint v" using that by (simp add: of_nat_nat)
  have neg: "of_nat ?x = - v" if "sint v < 0"
  proof -
    have "of_nat ?x = (of_int (- sint v) :: u32)" using that by (simp add: of_nat_nat)
    then show ?thesis by simp
  qed
  show ?thesis
    using len read [of s] read [of "s + 1"] pos neg by (auto simp: print_d_def convert_def)
qed

theorem print_d_atoi_witness:
  "print_d 0xFFFFFF85 = [45, 49, 50, 51] \<and> atoi ((\<lambda>_. 0)(0 := 45, 1 := 49, 2 := 50, 3 := 51)) 1 = Some 123"
proof -
  let ?m = "(\<lambda>_. 0)(0 := 45, 1 := 49, 2 := 50, 3 := 51) :: memory"
  have p: "print_d 0xFFFFFF85 = [45, 49, 50, 51]"
    by (simp add: print_d_def print_d_loop.simps digits_def)
  have "cstr ?m 0 (print_d 0xFFFFFF85)" by (simp add: p)
  then show ?thesis using print_d_atoi [of "0xFFFFFF85" ?m 0] p by simp
qed

end
