(* ===== verification/Console.thy ===== *)
theory Console
  imports Trap Ulib
begin

text \<open>
  The console (\<^verbatim>\<open>console.c\<close>): formatted output of the kernel, the screen and the serial line, the line
  discipline of its input, and the device functions for reading and writing. A character is a C
  \<^verbatim>\<open>int\<close>. Waiting for the serial port is not modelled; the bytes it has sent are part of the state.
\<close>

section \<open>State\<close>

definition INPUT_BUF :: nat where "INPUT_BUF = 128"

record input =
  in_buf :: "u8 list"
  in_r :: u32
  in_w :: u32
  in_e :: u32

record console = kern +
  con_panicked :: bool
  con_locking :: bool
  uart :: bool
  serial :: "u8 list"
  crt :: "u16 list"
  crt_pos :: nat
  input_of :: input

section \<open>Output\<close>

definition BACKSPACE :: int where "BACKSPACE = 0x100"

definition uartputc :: "int \<Rightarrow> 'a console_scheme \<Rightarrow> 'a console_scheme" where
  "uartputc c s = (if \<not> uart s then s else s\<lparr>serial := serial s @ [of_int c]\<rparr>)"

text \<open>The text screen has 25 rows of 80 cells; the last row is not written.\<close>

definition set_cell :: "nat \<Rightarrow> u16 \<Rightarrow> u16 list \<Rightarrow> u16 list res" where
  "set_cell pos v cells = (if pos < length cells then Inr (cells[pos := v]) else Inl OutOfBounds)"

definition scroll :: "nat \<Rightarrow> u16 list \<Rightarrow> nat \<times> u16 list" where
  "scroll pos cells =
     (if pos div 80 \<ge> 24
      then let cells = take (23 * 80) (drop 80 cells) @ drop (23 * 80) cells; pos = pos - 80
        in (pos, take pos cells @ replicate (24 * 80 - pos) 0 @ drop (24 * 80) cells)
      else (pos, cells))"

definition cgaputc :: "int \<Rightarrow> 'a console_scheme \<Rightarrow> 'a console_scheme res" where
  "cgaputc c s =
     (let pos = crt_pos s
      in bnd (if c = 10 then Inr (pos + (80 - pos mod 80), crt s)
              else if c = BACKSPACE then Inr (pos - 1, crt s)
              else bnd (set_cell pos (of_int c AND 0xFF OR 0x0700) (crt s)) (\<lambda>cells. Inr (pos + 1, cells))) (\<lambda>(pos, cells).
           let (pos, cells) = scroll pos cells
           in bnd (set_cell pos 0x0720 cells) (\<lambda>cells. Inr (s\<lparr>crt := cells, crt_pos := pos mod 2 ^ 16\<rparr>))))"

text \<open>After a panic every processor that prints stops here for ever.\<close>

definition consputc :: "int \<Rightarrow> 'a console_scheme \<Rightarrow> 'a console_scheme res" where
  "consputc c s =
     (if con_panicked s then Inl Deadlock
      else cgaputc c (if c = BACKSPACE then uartputc 8 (uartputc 32 (uartputc 8 s)) else uartputc c s))"

definition consputs :: "u8 list \<Rightarrow> 'a console_scheme \<Rightarrow> 'a console_scheme res" where
  "consputs bs s = for_each bs (\<lambda>b. consputc (int (unat b))) s"

text \<open>The conversions of \<^verbatim>\<open>cprintf\<close> are those of the user's \<^verbatim>\<open>printf\<close> without \<^verbatim>\<open>%c\<close>.\<close>

definition cconvert :: "u8 \<Rightarrow> arg list \<Rightarrow> (u8 list \<times> arg list) res" where
  "cconvert c as =
     (if c = 100 then case as of ArgInt v # as \<Rightarrow> Inr (print_d v, as) | _ \<Rightarrow> Inl Fault
      else if c = 120 then case as of ArgInt v # as \<Rightarrow> Inr (print_x32 v, as) | _ \<Rightarrow> Inl Fault
      else if c = 112 then case as of ArgAddr v # as \<Rightarrow> Inr (print_x64 v, as) | _ \<Rightarrow> Inl Fault
      else if c = 115
      then case as of ArgStr t # as \<Rightarrow> Inr (case t of None \<Rightarrow> null_text | Some t \<Rightarrow> takeWhile (\<lambda>x. x \<noteq> 0) t, as) | _ \<Rightarrow> Inl Fault
      else if c = 37 then Inr ([37], as)
      else Inr ([37, c], as))"

fun cprintf_loop :: "u8 list \<Rightarrow> arg list \<Rightarrow> 'a console_scheme \<Rightarrow> 'a console_scheme res" where
  "cprintf_loop [] as s = Inr s"
| "cprintf_loop (c # fmt) as s =
     (if c = 0 then Inr s
      else if c \<noteq> 37 then bnd (consputs [c] s) (cprintf_loop fmt as)
      else case fmt of [] \<Rightarrow> Inr s
        | d # fmt \<Rightarrow>
            if d = 0 then Inr s
            else bnd (cconvert d as) (\<lambda>(out, as). bnd (consputs out s) (cprintf_loop fmt as)))"

definition ascii :: "string \<Rightarrow> u8 list" where
  "ascii t = map (\<lambda>c. of_nat (of_char c)) t"

definition cprintf :: "u8 list option \<Rightarrow> arg list \<Rightarrow> 'a console_scheme \<Rightarrow> 'a console_scheme res" where
  "cprintf fmt as s = (case fmt of None \<Rightarrow> Inl (Panic ''null fmt'') | Some fmt \<Rightarrow> cprintf_loop fmt as s)"

text \<open>The state in which \<^verbatim>\<open>panic\<close> halts the processor \<open>cpu_id\<close>; \<open>pcs\<close> is the call stack it prints.\<close>

definition panic :: "u32 \<Rightarrow> u8 list \<Rightarrow> u64 list \<Rightarrow> 'a console_scheme \<Rightarrow> 'a console_scheme res" where
  "panic cpu_id msg pcs s =
     bnd (cprintf (Some (ascii ''cpu%d: panic: '')) [ArgInt cpu_id] (s\<lparr>con_locking := False\<rparr>)) (\<lambda>s.
     bnd (cprintf (Some msg) [] s) (\<lambda>s.
     bnd (cprintf (Some [10]) [] s) (\<lambda>s.
     bnd (for_each pcs (\<lambda>pc. cprintf (Some (ascii '' %p'' @ [10])) [ArgAddr pc]) s) (\<lambda>s.
     Inr (s\<lparr>con_panicked := True\<rparr>)))))"

section \<open>Listing the processes\<close>

definition state_name :: "procstate \<Rightarrow> u8 list" where
  "state_name st = ascii (case st of UNUSED \<Rightarrow> ''unused'' | EMBRYO \<Rightarrow> ''embryo'' | SLEEPING \<Rightarrow> ''sleep '' | RUNNABLE \<Rightarrow> ''runble''
     | RUNNING \<Rightarrow> ''run   '' | ZOMBIE \<Rightarrow> ''zombie'')"

text \<open>\<open>pcs\<close> gives the return addresses on the kernel stack of a sleeping process.\<close>

definition dump_proc :: "(proc \<Rightarrow> u64 list) \<Rightarrow> proc \<Rightarrow> 'a console_scheme \<Rightarrow> 'a console_scheme res" where
  "dump_proc pcs p s =
     (if p_state p = UNUSED then Inr s
      else bnd (cprintf (Some (ascii ''%d %s %s'')) [ArgInt (of_int (p_pid p)), ArgStr (Some (state_name (p_state p))), ArgStr (Some (p_name p))] s) (\<lambda>s.
           bnd (if p_state p = SLEEPING
                then for_each (takeWhile (\<lambda>pc. pc \<noteq> 0) (take 10 (pcs p))) (\<lambda>pc. cprintf (Some (ascii '' %p'')) [ArgAddr pc]) s
                else Inr s) (cprintf (Some [10]) [])))"

definition procdump :: "(proc \<Rightarrow> u64 list) \<Rightarrow> 'a console_scheme \<Rightarrow> 'a console_scheme res" where
  "procdump pcs s = for_each (take NPROC (ptable s)) (dump_proc pcs) s"

section \<open>Input\<close>

definition in_index :: "u32 \<Rightarrow> nat" where
  "in_index k = unat k mod INPUT_BUF"

definition upd_input :: "(input \<Rightarrow> input) \<Rightarrow> 'a console_scheme \<Rightarrow> 'a console_scheme" where
  "upd_input f s = s\<lparr>input_of := f (input_of s)\<rparr>"

text \<open>The channel \<^verbatim>\<open>&input.r\<close>.\<close>

definition input_chan :: chan where "input_chan = AtAddr 0"

text \<open>Control-U: \<open>n\<close> bounds the number of characters that can be erased.\<close>

fun kill_line :: "nat \<Rightarrow> 'a console_scheme \<Rightarrow> 'a console_scheme res" where
  "kill_line 0 s = Inr s"
| "kill_line (Suc n) s =
     (let i = input_of s
      in if in_e i \<noteq> in_w i \<and> in_buf i ! in_index (in_e i - 1) \<noteq> 10
         then bnd (consputc BACKSPACE (upd_input (\<lambda>i. i\<lparr>in_e := in_e i - 1\<rparr>) s)) (kill_line n)
         else Inr s)"

definition erase_char :: "'a console_scheme \<Rightarrow> 'a console_scheme res" where
  "erase_char s =
     (let i = input_of s
      in if in_e i \<noteq> in_w i then consputc BACKSPACE (upd_input (\<lambda>i. i\<lparr>in_e := in_e i - 1\<rparr>) s) else Inr s)"

definition add_char :: "int \<Rightarrow> 'a console_scheme \<Rightarrow> 'a console_scheme res" where
  "add_char c s =
     (let i = input_of s
      in if c \<noteq> 0 \<and> in_e i - in_r i < of_nat INPUT_BUF
         then let c = (if c = 13 then 10 else c);
                  s = upd_input (\<lambda>i. i\<lparr>in_buf := (in_buf i)[in_index (in_e i) := of_int c], in_e := in_e i + 1\<rparr>) s
           in bnd (consputc c s) (\<lambda>s.
                let i = input_of s
                in if c = 10 \<or> c = 4 \<or> in_e i = in_r i + of_nat INPUT_BUF
                   then Inr (wakeup input_chan (upd_input (\<lambda>i. i\<lparr>in_w := in_e i\<rparr>) s)) else Inr s)
         else Inr s)"

text \<open>
  One character of \<^verbatim>\<open>consoleintr\<close>. Control-Z loads an empty interrupt table, so that the processor
  resets at the next interrupt.
\<close>

definition console_key :: "(proc \<Rightarrow> u64 list) \<Rightarrow> int \<Rightarrow> 'a console_scheme \<Rightarrow> 'a console_scheme res" where
  "console_key pcs c s =
     (if c = 26 then Inl Fault
      else if c = 16 then procdump pcs s
      else if c = 21 then kill_line (unat (in_e (input_of s) - in_w (input_of s))) s
      else if c = 8 \<or> c = 0x7F then erase_char s
      else add_char c s)"

text \<open>The characters are those that \<^verbatim>\<open>getc\<close> returns before its first negative result.\<close>

definition consoleintr :: "(proc \<Rightarrow> u64 list) \<Rightarrow> int list \<Rightarrow> 'a console_scheme \<Rightarrow> 'a console_scheme res" where
  "consoleintr pcs cs s = for_each cs (console_key pcs) s"

section \<open>The device\<close>

datatype read_end = ReadDone | ReadKilled | ReadBlocked

text \<open>The loop of \<^verbatim>\<open>consoleread\<close>: \<open>n\<close> of \<open>target\<close> bytes are still wanted.\<close>

fun consoleread_loop :: "bool \<Rightarrow> nat \<Rightarrow> nat \<Rightarrow> input \<Rightarrow> u8 list \<times> input \<times> read_end" where
  "consoleread_loop killed target 0 i = ([], i, ReadDone)"
| "consoleread_loop killed target (Suc n) i =
     (if in_r i = in_w i then ([], i, if killed then ReadKilled else ReadBlocked)
      else let c = in_buf i ! in_index (in_r i); i' = i\<lparr>in_r := in_r i + 1\<rparr>
        in if c = 4 then ([], if Suc n < target then i else i', ReadDone)
           else if c = 10 then ([c], i', ReadDone)
           else let (bs, i', e) = consoleread_loop killed target n i' in (c # bs, i', e))"

definition consoleread :: "nat \<Rightarrow> u32 \<Rightarrow> u32 \<Rightarrow> 'a console_scheme \<Rightarrow> (int \<times> u8 list \<times> 'a console_scheme) res" where
  "consoleread ip off n s =
     bnd (iunlock ip s) (\<lambda>s.
       let target = nat (sint n); (bs, i, e) = consoleread_loop (p_killed (me s)) target target (input_of s);
           s = s\<lparr>input_of := i\<rparr>
       in case e of
            ReadDone \<Rightarrow> bnd (ilock ip s) (\<lambda>s. Inr (int (length bs), bs, s))
          | ReadKilled \<Rightarrow> bnd (ilock ip s) (\<lambda>s. Inr (-1, bs, s))
          | ReadBlocked \<Rightarrow> Inl Deadlock)"

definition consolewrite :: "nat \<Rightarrow> u32 \<Rightarrow> u8 list \<Rightarrow> 'a console_scheme \<Rightarrow> (int \<times> 'a console_scheme) res" where
  "consolewrite ip off src s =
     bnd (iunlock ip s) (\<lambda>s. bnd (consputs src s) (\<lambda>s. bnd (ilock ip s) (\<lambda>s. Inr (int (length src), s))))"

definition CONSOLE :: nat where "CONSOLE = 1"

definition console_devsw :: "nat \<Rightarrow> 'a console_scheme devsw" where
  "console_devsw d =
     (if d = CONSOLE then \<lparr>dev_read = Some consoleread, dev_write = Some consolewrite\<rparr>
      else \<lparr>dev_read = None, dev_write = None\<rparr>)"

definition consoleinit :: "'a console_scheme \<Rightarrow> 'a console_scheme" where
  "consoleinit s = s\<lparr>con_locking := True\<rparr>"

section \<open>The screen\<close>

definition screen_ok :: "'a console_scheme \<Rightarrow> bool" where
  "screen_ok s \<longleftrightarrow> length (crt s) = 25 * 80 \<and> crt_pos s < 24 * 80 \<and> \<not> con_panicked s"

definition sent :: "int \<Rightarrow> u8 list" where
  "sent c = (if c = BACKSPACE then [8, 32, 8] else [of_int c])"

lemma scroll_ok:
  assumes "length cells = 25 * 80" and "pos \<le> 24 * 80"
  shows "fst (scroll pos cells) < 24 * 80 \<and> length (snd (scroll pos cells)) = 25 * 80"
proof (cases "pos = 24 * 80")
  case True
  then show ?thesis using assms by (simp add: scroll_def Let_def)
next
  case False
  then have "pos < 24 * 80" using assms by simp
  then have "pos div 80 < 24" by (simp only: div_less_iff_less_mult)
  then show ?thesis using assms False by (simp add: scroll_def)
qed

lemma cgaputc_ok:
  assumes "screen_ok s"
  shows "\<exists>cells pos. cgaputc c s = Inr (s\<lparr>crt := cells, crt_pos := pos\<rparr>) \<and> length cells = 25 * 80 \<and> pos < 24 * 80"
proof -
  let ?p = "crt_pos s"
  have p: "?p < 24 * 80" "length (crt s) = 25 * 80" using assms by (simp_all add: screen_ok_def)
  have row: "?p + (80 - ?p mod 80) \<le> 24 * 80"
  proof -
    have "?p div 80 < 24" using p(1) by (simp only: div_less_iff_less_mult)
    then have "?p div 80 + 1 \<le> 24" by simp
    moreover have "a + (80 - m) = (q + 1) * 80" if "q * 80 + m = a" "m < 80" for a q m :: nat
      using that by simp
    from this [OF div_mult_mod_eq mod_less_divisor] have "?p + (80 - ?p mod 80) = (?p div 80 + 1) * 80" by simp
    ultimately show ?thesis by simp
  qed
  have fin: "\<exists>cs q. (let (pos, cells) = scroll pos cells
      in bnd (set_cell pos 0x0720 cells) (\<lambda>cells. Inr (s\<lparr>crt := cells, crt_pos := pos mod 2 ^ 16\<rparr>))) = Inr (s\<lparr>crt := cs, crt_pos := q\<rparr>)
      \<and> length cs = 25 * 80 \<and> q < 24 * 80"
    if "pos \<le> 24 * 80" "length cells = 25 * 80" for pos cells
  proof -
    obtain q cs where q: "scroll pos cells = (q, cs)" by (cases "scroll pos cells")
    then show ?thesis using scroll_ok [OF that(2,1)] by (intro exI [of _ "cs[q := 0x0720]"] exI [of _ q]) (simp add: set_cell_def)
  qed
  consider "c = 10" | "c \<noteq> 10" "c = BACKSPACE" | "c \<noteq> 10" "c \<noteq> BACKSPACE" by blast
  then show ?thesis
  proof cases
    case 1
    show ?thesis using fin [OF row p(2)] by (simp add: cgaputc_def 1 Let_def)
  next
    case 2
    show ?thesis using fin [OF _ p(2), of "?p - 1"] p(1) by (simp add: cgaputc_def 2 BACKSPACE_def Let_def)
  next
    case 3
    show ?thesis using fin [of "?p + 1"] p by (simp add: cgaputc_def 3 Let_def set_cell_def)
  qed
qed

lemma consputc_ok:
  assumes "screen_ok s"
  shows "\<exists>cells pos. consputc c s = Inr (s\<lparr>serial := serial s @ (if uart s then sent c else []), crt := cells, crt_pos := pos\<rparr>)
    \<and> length cells = 25 * 80 \<and> pos < 24 * 80"
proof -
  let ?s = "s\<lparr>serial := serial s @ (if uart s then sent c else [])\<rparr>"
  have "screen_ok ?s" using assms by (simp add: screen_ok_def)
  from cgaputc_ok [OF this, of c] obtain cells pos where
    "cgaputc c ?s = Inr (?s\<lparr>crt := cells, crt_pos := pos\<rparr>)" "length cells = 25 * 80" "pos < 24 * 80" by blast
  moreover have "consputc c s = cgaputc c ?s" using assms by (simp add: consputc_def screen_ok_def uartputc_def sent_def)
  ultimately show ?thesis by (intro exI [of _ cells] exI [of _ pos]) simp
qed

text \<open>Everything else of the state is left alone by output.\<close>

definition unprinted :: "'a console_scheme \<Rightarrow> 'a console_scheme" where
  "unprinted s = s\<lparr>serial := [], crt := [], crt_pos := 0\<rparr>"

lemma consputs_ok:
  assumes "screen_ok s"
  shows "\<exists>s'. consputs bs s = Inr s' \<and> screen_ok s' \<and> unprinted s' = unprinted s \<and> (uart s \<longrightarrow> serial s' = serial s @ bs)"
  using assms
proof (induction bs arbitrary: s)
  case Nil
  then show ?case by (simp add: consputs_def)
next
  case (Cons b bs)
  obtain cells pos where s1: "consputc (int (unat b)) s
      = Inr (s\<lparr>serial := serial s @ (if uart s then sent (int (unat b)) else []), crt := cells, crt_pos := pos\<rparr>)"
      (is "_ = Inr ?s1") and ok: "length cells = 25 * 80" "pos < 24 * 80"
    using consputc_ok [OF Cons.prems, of "int (unat b)"] by auto
  have "screen_ok ?s1" using ok Cons.prems by (simp add: screen_ok_def)
  moreover have "int (unat b) \<noteq> BACKSPACE" using uint_bounded [of b] by (simp add: BACKSPACE_def)
  then have "sent (int (unat b)) = [b]" by (simp add: sent_def)
  moreover have "unprinted ?s1 = unprinted s" by (simp add: unprinted_def)
  ultimately show ?case using Cons.IH [of ?s1] s1 by (auto simp: consputs_def)
qed

section \<open>Well-typed formats\<close>

text \<open>The conversions of the format and the arguments agree in number and type.\<close>

inductive typed_fmt :: "u8 list \<Rightarrow> arg list \<Rightarrow> bool" where
  typed_end: "typed_fmt [] as"
| typed_nul: "typed_fmt (0 # fmt) as"
| typed_char: "c \<notin> {0, 37} \<Longrightarrow> typed_fmt fmt as \<Longrightarrow> typed_fmt (c # fmt) as"
| typed_int: "d \<in> {100, 120} \<Longrightarrow> typed_fmt fmt as \<Longrightarrow> typed_fmt (37 # d # fmt) (ArgInt v # as)"
| typed_addr: "typed_fmt fmt as \<Longrightarrow> typed_fmt (37 # 112 # fmt) (ArgAddr v # as)"
| typed_str: "typed_fmt fmt as \<Longrightarrow> typed_fmt (37 # 115 # fmt) (ArgStr t # as)"
| typed_other: "d \<notin> {0, 99, 100, 112, 115, 120} \<Longrightarrow> typed_fmt fmt as \<Longrightarrow> typed_fmt (37 # d # fmt) as"

declare typed_fmt.intros [intro]

definition prints :: "u8 list \<Rightarrow> 'a console_scheme \<Rightarrow> 'a console_scheme \<Rightarrow> bool" where
  "prints out s s' \<longleftrightarrow> screen_ok s' \<and> unprinted s' = unprinted s \<and> (uart s \<longrightarrow> serial s' = serial s @ out)"

lemma unprinted_uart: "unprinted s' = unprinted s \<Longrightarrow> uart s' = uart s"
  by (cases s; cases s') (simp add: unprinted_def)

lemma prints_trans: "prints a s t \<Longrightarrow> prints b t u \<Longrightarrow> prints (a @ b) s u"
  by (auto simp: prints_def dest: unprinted_uart)

lemma consputs_prints: "screen_ok s \<Longrightarrow> \<exists>s'. consputs bs s = Inr s' \<and> prints bs s s'"
  unfolding prints_def by (rule consputs_ok)

lemma prints_then:
  assumes "screen_ok s" and "\<And>s'. prints a s s' \<Longrightarrow> \<exists>s''. k s' = Inr s'' \<and> prints b s' s''"
  shows "\<exists>s''. bnd (consputs a s) k = Inr s'' \<and> prints (a @ b) s s''"
proof -
  obtain s1 where s1: "consputs a s = Inr s1" "prints a s s1" using consputs_prints [OF assms(1)] by blast
  then show ?thesis using assms(2) [OF s1(2)] prints_trans by fastforce
qed

lemma prints_screen: "prints a s s' \<Longrightarrow> screen_ok s'"
  by (simp add: prints_def)

lemma cprintf_loop_prints:
  assumes "typed_fmt fmt as" and "screen_ok s"
  shows "\<exists>out. printf fmt as = Inr out \<and> (\<exists>s'. cprintf_loop fmt as s = Inr s' \<and> prints out s s')"
  using assms
proof (induction arbitrary: s rule: typed_fmt.induct)
  case (typed_char c fmt as)
  then obtain out where "printf fmt as = Inr out" by blast
  moreover have "\<exists>s''. bnd (consputs [c] s) (cprintf_loop fmt as) = Inr s'' \<and> prints ([c] @ out) s s''"
    by (rule prints_then) (use typed_char calculation prints_screen in force)+
  ultimately show ?case using typed_char.hyps(1) by auto
next
  case (typed_int d fmt as v)
  obtain out where o: "printf fmt as = Inr out" using typed_int by blast
  let ?t = "if d = 100 then print_d v else print_x32 v"
  have "\<exists>s''. bnd (consputs ?t s) (cprintf_loop fmt as) = Inr s'' \<and> prints (?t @ out) s s''"
    by (rule prints_then) (use typed_int o prints_screen in force)+
  then show ?case using typed_int.hyps(1) o by (auto simp: convert_def cconvert_def)
next
  case (typed_addr fmt as v)
  obtain out where o: "printf fmt as = Inr out" using typed_addr by blast
  have "\<exists>s''. bnd (consputs (print_x64 v) s) (cprintf_loop fmt as) = Inr s'' \<and> prints (print_x64 v @ out) s s''"
    by (rule prints_then) (use typed_addr o prints_screen in force)+
  then show ?case using o by (auto simp: convert_def cconvert_def)
next
  case (typed_str fmt as t)
  obtain out where o: "printf fmt as = Inr out" using typed_str by blast
  let ?t = "case t of None \<Rightarrow> null_text | Some t \<Rightarrow> takeWhile (\<lambda>x. x \<noteq> 0) t"
  have "\<exists>s''. bnd (consputs ?t s) (cprintf_loop fmt as) = Inr s'' \<and> prints (?t @ out) s s''"
    by (rule prints_then) (use typed_str o prints_screen in force)+
  then show ?case using o by (auto simp: convert_def cconvert_def)
next
  case (typed_other d fmt as)
  obtain out where o: "printf fmt as = Inr out" using typed_other by blast
  let ?t = "if d = 37 then [37] else [37, d]"
  have "\<exists>s''. bnd (consputs ?t s) (cprintf_loop fmt as) = Inr s'' \<and> prints (?t @ out) s s''"
    by (rule prints_then) (use typed_other o prints_screen in force)+
  then show ?case using typed_other.hyps(1) o by (auto simp: convert_def cconvert_def)
qed (auto simp: prints_def)

text \<open>
  C32. Type soundness of formatted output: if the format and the arguments agree, \<^verbatim>\<open>cprintf\<close> reads no
  argument that is not there, writes only inside the screen, changes nothing else of the kernel, and
  sends to the serial line exactly the text that the user's \<^verbatim>\<open>printf\<close> produces for the same format.
\<close>

theorem cprintf_type_sound:
  assumes "typed_fmt fmt as" and "screen_ok s"
  shows "\<exists>out s'. printf fmt as = Inr out \<and> cprintf (Some fmt) as s = Inr s' \<and> screen_ok s' \<and> unprinted s' = unprinted s
    \<and> (uart s \<longrightarrow> serial s' = serial s @ out)"
  using cprintf_loop_prints [OF assms] by (auto simp: cprintf_def prints_def)

definition demo_console :: console where
  "demo_console = kern.extend demo_kern \<lparr>con_panicked = False, con_locking = True, uart = True, serial = [], crt = replicate 2000 0,
     crt_pos = 1919, input_of = \<lparr>in_buf = replicate INPUT_BUF 0, in_r = 0, in_w = 0, in_e = 0\<rparr>\<rparr>"

lemma demo_console_fields [simp]:
  "con_panicked demo_console = False" "uart demo_console = True" "serial demo_console = []" "crt demo_console = replicate 2000 0"
  "crt_pos demo_console = 1919" "input_of demo_console = \<lparr>in_buf = replicate INPUT_BUF 0, in_r = 0, in_w = 0, in_e = 0\<rparr>"
  by (simp_all add: demo_console_def kern.defs)

theorem cprintf_type_sound_witness:
  "\<exists>s'. cprintf (Some [37, 100, 10]) [ArgInt 17] demo_console = Inr s' \<and> screen_ok s' \<and> serial s' = [49, 55, 10]"
proof -
  have "typed_fmt [37, 100, 10] [ArgInt 17]" by (intro typed_int typed_char typed_end) simp_all
  moreover have "screen_ok demo_console" by (simp add: screen_ok_def)
  moreover have "printf [37, 100, 10] [ArgInt 17] = Inr [49, 55, 10]"
    by (simp add: convert_def print_d_def print_d_loop.simps digits_def)
  ultimately show ?thesis using cprintf_type_sound [of "[37, 100, 10]" "[ArgInt 17]" demo_console] by auto
qed

section \<open>The line discipline\<close>

definition in_slice :: "u8 list \<Rightarrow> u32 \<Rightarrow> nat \<Rightarrow> u8 list" where
  "in_slice buf r n = map (\<lambda>k. buf ! ((unat r + k) mod INPUT_BUF)) [0..<n]"

text \<open>The characters that a reader may take, and those of the line that is still being edited.\<close>

definition ready :: "input \<Rightarrow> u8 list" where
  "ready i = in_slice (in_buf i) (in_r i) (unat (in_w i - in_r i))"

definition edit :: "input \<Rightarrow> u8 list" where
  "edit i = in_slice (in_buf i) (in_w i) (unat (in_e i - in_w i))"

definition in_inv :: "input \<Rightarrow> bool" where
  "in_inv i \<longleftrightarrow> length (in_buf i) = INPUT_BUF \<and> length (ready i) + length (edit i) \<le> INPUT_BUF \<and> 10 \<notin> set (edit i)"

lemma in_slice_length [simp]: "length (in_slice buf r n) = n"
  by (simp add: in_slice_def)

lemma in_slice_0 [simp]: "in_slice buf r 0 = []"
  by (simp add: in_slice_def)

lemma in_index_add: "unat (a + b :: u32) mod INPUT_BUF = (unat a + unat b) mod INPUT_BUF"
  by (simp add: unat_word_ariths INPUT_BUF_def mod_mod_cancel)

lemma in_slice_Suc: "in_slice buf r (Suc n) = buf ! in_index r # in_slice buf (r + 1) n"
proof -
  have "(unat (r + 1) + k) mod INPUT_BUF = (unat r + Suc k) mod INPUT_BUF" for k
    using in_index_add [of r 1] by (metis add.assoc mod_add_left_eq plus_1_eq_Suc unat_1)
  then show ?thesis by (simp add: in_slice_def in_index_def upt_conv_Cons map_Suc_upt [symmetric] del: upt_Suc)
qed

lemma in_slice_snoc: "in_slice buf r (Suc n) = in_slice buf r n @ [buf ! ((unat r + n) mod INPUT_BUF)]"
  by (simp add: in_slice_def)

lemma in_slice_append: "in_slice buf r (m + n) = in_slice buf r m @ in_slice buf (r + of_nat m) n"
  by (induction m arbitrary: r) (simp_all add: in_slice_Suc ac_simps)

text \<open>Storing a character behind the last one changes nothing before it.\<close>

lemma in_slice_update:
  assumes "n < INPUT_BUF"
  shows "in_slice (buf[(unat r + n) mod INPUT_BUF := x]) r n = in_slice buf r n"
proof -
  have "(unat r + n) mod INPUT_BUF \<noteq> (unat r + k) mod INPUT_BUF" if "k < n" for k
  proof
    assume "(unat r + n) mod INPUT_BUF = (unat r + k) mod INPUT_BUF"
    then have "INPUT_BUF dvd n - k" using mod_eq_dvd_iff_nat [of "unat r + k" "unat r + n" INPUT_BUF] that by simp
    then show False using that assms by (auto dest: dvd_imp_le)
  qed
  then show ?thesis by (simp add: in_slice_def)
qed

lemma unat_diff_Suc:
  fixes a b :: u32
  assumes "a \<noteq> b"
  shows "unat (a - b) = Suc (unat (a - 1 - b))" "unat (a - b) = Suc (unat (a - (b + 1)))"
proof -
  have "a - b \<noteq> 0" using assms by simp
  then have "unat (a - b - 1) = unat (a - b) - 1" "unat (a - b) \<noteq> 0" by (simp_all add: unat_minus_one unat_eq_0)
  then have "unat (a - b) = Suc (unat (a - b - 1))" by simp
  moreover have "a - b - 1 = a - 1 - b" "a - b - 1 = a - (b + 1)" by (simp_all add: diff_diff_eq ac_simps)
  ultimately show "unat (a - b) = Suc (unat (a - 1 - b))" "unat (a - b) = Suc (unat (a - (b + 1)))" by metis+
qed

text \<open>The read end moves forward by one.\<close>

lemma ready_step:
  assumes "in_r i \<noteq> in_w i"
  shows "ready i = in_buf i ! in_index (in_r i) # ready (i\<lparr>in_r := in_r i + 1\<rparr>)" "edit (i\<lparr>in_r := in_r i + 1\<rparr>) = edit i"
  using unat_diff_Suc(2) [of "in_w i" "in_r i"] assms by (simp_all add: ready_def edit_def in_slice_Suc)

lemma ready_empty: "ready i = [] \<longleftrightarrow> in_r i = in_w i"
  using unat_diff_Suc(2) [of "in_w i" "in_r i"] by (cases "in_r i = in_w i") (auto simp: ready_def in_slice_def)

text \<open>The edit end moves back by one.\<close>

lemma edit_back:
  assumes "in_e i \<noteq> in_w i"
  shows "edit (i\<lparr>in_e := in_e i - 1\<rparr>) = butlast (edit i)" "ready (i\<lparr>in_e := in_e i - 1\<rparr>) = ready i"
    "last (edit i) = in_buf i ! in_index (in_e i - 1)"
proof -
  let ?n = "unat (in_e i - 1 - in_w i)"
  have n: "unat (in_e i - in_w i) = Suc ?n" by (rule unat_diff_Suc(1) [OF assms])
  show "edit (i\<lparr>in_e := in_e i - 1\<rparr>) = butlast (edit i)" using n by (simp add: edit_def in_slice_snoc)
  show "ready (i\<lparr>in_e := in_e i - 1\<rparr>) = ready i" by (simp add: ready_def)
  have "in_index (in_e i - 1) = (unat (in_w i) + ?n) mod INPUT_BUF"
    using in_index_add [of "in_w i" "in_e i - 1 - in_w i"] by (simp add: in_index_def)
  then show "last (edit i) = in_buf i ! in_index (in_e i - 1)" using n by (simp add: edit_def in_slice_snoc)
qed

lemma edit_empty: "edit i = [] \<longleftrightarrow> in_e i = in_w i"
  using unat_diff_Suc(1) [of "in_e i" "in_w i"] by (cases "in_e i = in_w i") (auto simp: edit_def in_slice_def)

lemma consputc_keeps:
  assumes "screen_ok s"
  shows "\<exists>s'. consputc c s = Inr s' \<and> screen_ok s' \<and> unprinted s' = unprinted s"
  using consputc_ok [OF assms, of c] assms by (auto simp: screen_ok_def unprinted_def)

lemma unprinted_input: "unprinted s' = unprinted s \<Longrightarrow> input_of s' = input_of s"
  by (cases s; cases s') (simp add: unprinted_def)

lemma upd_input_simps [simp]: "input_of (upd_input f s) = f (input_of s)" "screen_ok (upd_input f s) = screen_ok s"
  by (simp_all add: upd_input_def screen_ok_def)

text \<open>What a key does to the two lines, for a screen that stays well-formed.\<close>

definition key_does :: "'a console_scheme res \<Rightarrow> u8 list \<Rightarrow> u8 list \<Rightarrow> bool" where
  "key_does r R E \<longleftrightarrow> (\<exists>s'. r = Inr s' \<and> screen_ok s' \<and> in_inv (input_of s') \<and> ready (input_of s') = R \<and> edit (input_of s') = E)"

lemma in_inv_back: "in_inv i \<Longrightarrow> in_e i \<noteq> in_w i \<Longrightarrow> in_inv (i\<lparr>in_e := in_e i - 1\<rparr>)"
  by (auto simp: in_inv_def edit_back dest: in_set_butlastD)

lemma erase_one:
  assumes "screen_ok s" and "in_inv (input_of s)" and "in_e (input_of s) \<noteq> in_w (input_of s)"
  shows "key_does (consputc BACKSPACE (upd_input (\<lambda>i. i\<lparr>in_e := in_e i - 1\<rparr>) s)) (ready (input_of s)) (butlast (edit (input_of s)))"
proof -
  let ?s = "upd_input (\<lambda>i. i\<lparr>in_e := in_e i - 1\<rparr>) s"
  obtain s' where "consputc BACKSPACE ?s = Inr s'" "screen_ok s'" "input_of s' = input_of ?s"
    using consputc_keeps [of ?s BACKSPACE] assms(1) by (auto dest: unprinted_input)
  then show ?thesis using in_inv_back [OF assms(2,3)] edit_back [OF assms(3)] by (auto simp: key_does_def)
qed

lemma erase_char_does:
  assumes "screen_ok s" and "in_inv (input_of s)"
  shows "key_does (erase_char s) (ready (input_of s)) (butlast (edit (input_of s)))"
proof (cases "in_e (input_of s) = in_w (input_of s)")
  case True
  then show ?thesis using assms edit_empty [of "input_of s"] by (simp add: erase_char_def key_does_def)
next
  case False
  then show ?thesis using erase_one [OF assms False] by (simp add: erase_char_def)
qed

lemma kill_line_does:
  assumes "screen_ok s" and "in_inv (input_of s)" and "length (edit (input_of s)) \<le> n"
  shows "key_does (kill_line n s) (ready (input_of s)) []"
  using assms
proof (induction n arbitrary: s)
  case 0
  then show ?case by (simp add: key_does_def)
next
  case (Suc n)
  let ?i = "input_of s"
  show ?case
  proof (cases "in_e ?i = in_w ?i")
    case True
    then show ?thesis using Suc.prems edit_empty [of ?i] by (simp add: key_does_def)
  next
    case False
    then have ne: "edit ?i \<noteq> []" by (simp add: edit_empty)
    have nl: "in_buf ?i ! in_index (in_e ?i - 1) \<noteq> 10"
      using Suc.prems(2) edit_back(3) [OF False] last_in_set [OF ne] by (auto simp: in_inv_def)
    obtain s1 where s1: "consputc BACKSPACE (upd_input (\<lambda>i. i\<lparr>in_e := in_e i - 1\<rparr>) s) = Inr s1"
      "screen_ok s1" "in_inv (input_of s1)" "ready (input_of s1) = ready ?i" "edit (input_of s1) = butlast (edit ?i)"
      using erase_one [OF Suc.prems(1,2) False] by (auto simp: key_does_def)
    have "length (edit (input_of s1)) \<le> n" using s1(5) Suc.prems(3) by simp
    from Suc.IH [OF s1(2,3) this] show ?thesis using s1(1,4) False nl by (simp add: Let_def)
  qed
qed

text \<open>Storing a character at the edit end.\<close>

lemma edit_put:
  assumes inv: "in_inv i" and room: "length (ready i) + length (edit i) < INPUT_BUF"
    and i': "i' = i\<lparr>in_buf := (in_buf i)[in_index (in_e i) := c], in_e := in_e i + 1\<rparr>"
  shows "ready i' = ready i" "edit i' = edit i @ [c]" "length (in_buf i') = INPUT_BUF"
    "in_slice (in_buf i') (in_r i) (length (ready i) + length (edit i) + 1) = ready i @ edit i @ [c]"
    "in_e i' - in_r i = of_nat (length (ready i) + length (edit i) + 1)"
proof -
  let ?m = "unat (in_w i - in_r i)" and ?n = "unat (in_e i - in_w i)"
  have mn: "?m + ?n < INPUT_BUF" using room by (simp add: ready_def edit_def)
  have w: "in_w i = in_r i + of_nat ?m" by simp
  have ixw: "in_index (in_e i) = (unat (in_w i) + ?n) mod INPUT_BUF"
    using in_index_add [of "in_w i" "in_e i - in_w i"] by (simp add: in_index_def)
  have "unat (in_w i) mod INPUT_BUF = (unat (in_r i) + ?m) mod INPUT_BUF"
    using in_index_add [of "in_r i" "in_w i - in_r i"] by simp
  then have ixr: "in_index (in_e i) = (unat (in_r i) + (?m + ?n)) mod INPUT_BUF"
    unfolding ixw by (metis add.assoc mod_add_left_eq)
  let ?b = "(in_buf i)[in_index (in_e i) := c]"
  have len: "length (in_buf i) = INPUT_BUF" using inv by (simp add: in_inv_def)
  have pos: "in_index (in_e i) < INPUT_BUF" by (simp add: in_index_def INPUT_BUF_def)
  have all: "in_slice ?b (in_r i) (?m + ?n) = in_slice (in_buf i) (in_r i) (?m + ?n)"
    unfolding ixr by (rule in_slice_update [OF mn])
  have "in_slice ?b (in_r i) ?m = in_slice (in_buf i) (in_r i) ?m \<and> in_slice ?b (in_w i) ?n = in_slice (in_buf i) (in_w i) ?n"
    using all unfolding in_slice_append w [symmetric] by (simp add: append_eq_append_conv)
  then have r: "in_slice ?b (in_r i) ?m = ready i" and ed: "in_slice ?b (in_w i) ?n = edit i" by (simp_all add: ready_def edit_def)
  show "ready i' = ready i" using r by (simp add: i' ready_def)
  have "in_e i + 1 - in_w i = (in_e i - in_w i) + 1" by simp
  moreover have "unat ((in_e i - in_w i) + 1) = Suc ?n" using mn by (simp add: unat_word_ariths INPUT_BUF_def)
  ultimately have n1: "unat (in_e i + 1 - in_w i) = Suc ?n" by metis
  have c: "?b ! ((unat (in_w i) + ?n) mod INPUT_BUF) = c" using len pos by (simp add: ixw [symmetric])
  show "edit i' = edit i @ [c]" using ed c by (simp add: i' edit_def n1 in_slice_snoc)
  show "length (in_buf i') = INPUT_BUF" using len by (simp add: i')
  have c': "?b ! (unat (in_e i) mod INPUT_BUF) = c" using len pos by (simp add: in_index_def)
  have "in_slice ?b (in_r i) (?m + ?n + 1) = ready i @ edit i @ [c]"
    using r ed c c' unfolding add.assoc in_slice_append w [symmetric] by (simp add: in_slice_snoc)
  then show "in_slice (in_buf i') (in_r i) (length (ready i) + length (edit i) + 1) = ready i @ edit i @ [c]"
    by (simp add: i' ready_def edit_def)
  show "in_e i' - in_r i = of_nat (length (ready i) + length (edit i) + 1)" by (simp add: i' ready_def edit_def)
qed

definition key_spec :: "int \<Rightarrow> u8 list \<times> u8 list \<Rightarrow> u8 list \<times> u8 list" where
  "key_spec c RE =
     (case RE of (R, E) \<Rightarrow>
        if c = 21 then (R, [])
        else if c = 8 \<or> c = 0x7F then (R, butlast E)
        else if c = 0 \<or> length R + length E \<ge> INPUT_BUF then (R, E)
        else let E' = E @ [if c = 13 then 10 else of_int c]
          in if c = 10 \<or> c = 13 \<or> c = 4 \<or> length R + length E' = INPUT_BUF then (R @ E', []) else (R, E'))"

lemma wakeup_console [simp]: "input_of (wakeup ch s) = input_of s" "screen_ok (wakeup ch s) = screen_ok s"
  by (simp_all add: wakeup_def wakeup1_def screen_ok_def)

lemma unat_of_nat_small: "k \<le> INPUT_BUF \<Longrightarrow> unat (of_nat k :: u32) = k"
  by (simp add: unat_of_nat INPUT_BUF_def)

lemma char_eq_newline:
  assumes "0 \<le> c" and "c < 256"
  shows "(of_int c :: u8) = 10 \<longleftrightarrow> c = 10"
proof
  assume "(of_int c :: u8) = 10"
  then have "uint (of_int c :: u8) = uint (10 :: u8)" by (rule arg_cong)
  then show "c = 10" using assms by (simp add: unsigned_of_int take_bit_int_eq_self)
qed simp

text \<open>Committing the line.\<close>

lemma commit_line:
  assumes inv: "in_inv i" and room: "length (ready i) + length (edit i) < INPUT_BUF"
    and i': "i' = i\<lparr>in_buf := (in_buf i)[in_index (in_e i) := c], in_e := in_e i + 1\<rparr>"
  shows "ready (i'\<lparr>in_w := in_e i'\<rparr>) = ready i @ edit i @ [c]" "edit (i'\<lparr>in_w := in_e i'\<rparr>) = []" "in_inv (i'\<lparr>in_w := in_e i'\<rparr>)"
proof -
  note p = edit_put [OF inv room i']
  let ?k = "length (ready i) + length (edit i) + 1"
  have "in_r i' = in_r i" by (simp add: i')
  then have "unat (in_e i' - in_r i') = ?k" using p(5) unat_of_nat_small [of ?k] room by simp
  then show r: "ready (i'\<lparr>in_w := in_e i'\<rparr>) = ready i @ edit i @ [c]" using p(4) \<open>in_r i' = in_r i\<close> unfolding ready_def [of "i'\<lparr>in_w := _\<rparr>"] by simp
  show e: "edit (i'\<lparr>in_w := in_e i'\<rparr>) = []" by (simp add: edit_empty)
  show "in_inv (i'\<lparr>in_w := in_e i'\<rparr>)" using r e p(3) room by (simp add: in_inv_def)
qed

lemma add_char_does:
  assumes ok: "screen_ok s" and inv: "in_inv (input_of s)" and c: "0 < c" "c < 256" "c \<notin> {8, 21, 0x7F}"
  shows "(case key_spec c (ready (input_of s), edit (input_of s)) of (R, E) \<Rightarrow> key_does (add_char c s) R E)"
proof -
  let ?i = "input_of s" and ?c = "if c = 13 then 10 else c"
  let ?R = "ready ?i" and ?E = "edit ?i"
  have dist: "in_e ?i - in_r ?i = of_nat (length ?R + length ?E)" by (simp add: ready_def edit_def)
  have le: "length ?R + length ?E \<le> INPUT_BUF" using inv by (simp add: in_inv_def)
  have guard: "in_e ?i - in_r ?i < of_nat INPUT_BUF \<longleftrightarrow> length ?R + length ?E < INPUT_BUF"
    unfolding dist word_less_nat_alt unat_of_nat_small [OF le] by (simp add: unat_of_nat_small)
  show ?thesis
  proof (cases "length ?R + length ?E < INPUT_BUF")
    case False
    then show ?thesis using ok inv c guard by (auto simp: key_spec_def add_char_def Let_def key_does_def)
  next
    case True
    let ?i' = "?i\<lparr>in_buf := (in_buf ?i)[in_index (in_e ?i) := of_int ?c], in_e := in_e ?i + 1\<rparr>"
    let ?s = "upd_input (\<lambda>i. i\<lparr>in_buf := (in_buf i)[in_index (in_e i) := of_int ?c], in_e := in_e i + 1\<rparr>) s"
    note p = edit_put [OF inv True refl, of "of_int ?c"] and w = commit_line [OF inv True refl, of "of_int ?c"]
    obtain s1 where s1: "consputc ?c ?s = Inr s1" "screen_ok s1" "input_of s1 = ?i'"
      using consputc_keeps [of ?s ?c] ok by (auto dest: unprinted_input)
    have full: "in_e ?i' = in_r ?i' + of_nat INPUT_BUF \<longleftrightarrow> length ?R + length ?E + 1 = INPUT_BUF"
    proof -
      have "in_e ?i' = in_r ?i' + of_nat INPUT_BUF \<longleftrightarrow> in_e ?i' - in_r ?i = of_nat INPUT_BUF"
        by (auto simp: algebra_simps)
      also have "\<dots> \<longleftrightarrow> length ?R + length ?E + 1 = INPUT_BUF"
        unfolding p(5) word_unat_eq_iff using True
        by (subst (1 2) unat_of_nat_small) simp_all
      finally show ?thesis .
    qed
    let ?commit = "?c = 10 \<or> ?c = 4 \<or> in_e ?i' = in_r ?i' + of_nat INPUT_BUF"
    have run: "add_char c s = (if ?commit then Inr (wakeup input_chan (upd_input (\<lambda>i. i\<lparr>in_w := in_e i\<rparr>) s1)) else Inr s1)"
      using guard True c(1) s1 by (simp add: add_char_def Let_def)
    have chr: "(of_int ?c :: u8) = (if c = 13 then 10 else of_int c)" by simp
    have nl: "(of_int ?c :: u8) = 10 \<longleftrightarrow> ?c = 10" by (rule char_eq_newline) (use c in auto)
    show ?thesis
    proof (cases ?commit)
      case True
      have "key_does (add_char c s) (?R @ ?E @ [of_int ?c]) []"
        using run True w s1 by (simp add: key_does_def)
      moreover have "key_spec c (?R, ?E) = (?R @ ?E @ [of_int ?c], [])"
        using True full \<open>length ?R + length ?E < INPUT_BUF\<close> c by (auto simp: key_spec_def Let_def split: if_splits)
      ultimately show ?thesis by simp
    next
      case False
      have "in_inv ?i'" using p(1-3) inv nl False \<open>length ?R + length ?E < INPUT_BUF\<close> by (auto simp: in_inv_def)
      then have "key_does (add_char c s) ?R (?E @ [of_int ?c])" using run False p(1,2) s1 by (auto simp: key_does_def)
      moreover have "key_spec c (?R, ?E) = (?R, ?E @ [of_int ?c])"
        using False full \<open>length ?R + length ?E < INPUT_BUF\<close> c by (auto simp: key_spec_def Let_def split: if_splits)
      ultimately show ?thesis by simp
    qed
  qed
qed

text \<open>
  What a read of \<open>n\<close> bytes takes from the lines that are ready: at most one line, up to its newline or
  Control-D. A Control-D ends the read and is taken only when it comes first. The last component says
  whether the read ends without waiting for more input.
\<close>

definition read_spec :: "nat \<Rightarrow> u8 list \<Rightarrow> u8 list \<times> u8 list \<times> bool" where
  "read_spec n R =
     (let k = length (takeWhile (\<lambda>c. c \<noteq> 10 \<and> c \<noteq> 4) R)
      in if n \<le> k then (take n R, drop n R, True)
         else if k = length R then (R, [], False)
         else if R ! k = 10 then (take (k + 1) R, drop (k + 1) R, True)
         else (take k R, if k = 0 then drop 1 R else drop k R, True))"

lemma read_loop_spec:
  assumes "n \<le> target" and "consoleread_loop killed target n i = (bs, i', e)"
  shows "edit i' = edit i \<and> in_buf i' = in_buf i \<and>
    (let R = ready i; k = length (takeWhile (\<lambda>c. c \<noteq> 10 \<and> c \<noteq> 4) R)
     in if n \<le> k then bs = take n R \<and> ready i' = drop n R \<and> e = ReadDone
        else if k = length R then bs = R \<and> ready i' = [] \<and> e \<noteq> ReadDone
        else if R ! k = 10 then bs = take (k + 1) R \<and> ready i' = drop (k + 1) R \<and> e = ReadDone
        else bs = take k R \<and> ready i' = (if k = 0 \<and> n = target then drop 1 R else drop k R) \<and> e = ReadDone)"
  using assms
proof (induction n arbitrary: i bs i' e)
  case 0
  then show ?case by simp
next
  case (Suc n)
  let ?c = "in_buf i ! in_index (in_r i)" and ?i = "i\<lparr>in_r := in_r i + 1\<rparr>"
  show ?case
  proof (cases "in_r i = in_w i")
    case True
    then have "ready i = []" by (simp add: ready_empty)
    then show ?thesis using Suc.prems True by (auto simp: Let_def split: if_splits)
  next
    case False
    note st = ready_step [OF False]
    show ?thesis
    proof (cases "?c = 10 \<or> ?c = 4")
      case True
      then show ?thesis using Suc.prems False st by (auto simp: Let_def split: if_splits)
    next
      case plain: False
      obtain bs' e' where r: "consoleread_loop killed target n ?i = (bs', i', e')" "bs = ?c # bs'" "e = e'"
        using Suc.prems(2) False plain by (auto simp: Let_def split: prod.splits)
      have "n \<le> target" "n \<noteq> target" using Suc.prems(1) by simp_all
      then show ?thesis using Suc.IH [OF _ r(1)] r(2,3) st plain by (auto simp: Let_def split: if_splits)
    qed
  qed
qed

lemma console_key_refines:
  assumes "screen_ok s" and "in_inv (input_of s)" and "0 \<le> c" "c < 256" "c \<noteq> 16" "c \<noteq> 26"
  shows "\<exists>s'. console_key pcs c s = Inr s' \<and> screen_ok s' \<and> in_inv (input_of s')
    \<and> (ready (input_of s'), edit (input_of s')) = key_spec c (ready (input_of s), edit (input_of s))"
proof -
  let ?i = "input_of s"
  have len: "unat (in_e ?i - in_w ?i) = length (edit ?i)" by (simp add: edit_def)
  consider "c = 21" | "c = 8 \<or> c = 0x7F" | "c = 0" | "0 < c" "c \<notin> {8, 21, 0x7F}" using assms(3) by fastforce
  then show ?thesis
  proof cases
    case 1
    then show ?thesis using kill_line_does [OF assms(1,2) order_refl] by (auto simp: console_key_def key_spec_def key_does_def len)
  next
    case 2
    then show ?thesis using erase_char_does [OF assms(1,2)] by (auto simp: console_key_def key_spec_def key_does_def)
  next
    case 3
    then show ?thesis using assms by (simp add: console_key_def key_spec_def add_char_def)
  next
    case 4
    then show ?thesis using add_char_does [OF assms(1,2) 4(1) assms(4) 4(2)] assms(5,6)
      by (auto simp: console_key_def key_does_def split: prod.splits)
  qed
qed

lemma consoleintr_refines:
  assumes "screen_ok s" and "in_inv (input_of s)" and "\<forall>c\<in>set cs. 0 \<le> c \<and> c < 256 \<and> c \<noteq> 16 \<and> c \<noteq> 26"
  shows "\<exists>s'. consoleintr pcs cs s = Inr s' \<and> screen_ok s' \<and> in_inv (input_of s')
    \<and> (ready (input_of s'), edit (input_of s')) = fold key_spec cs (ready (input_of s), edit (input_of s))"
  using assms
proof (induction cs arbitrary: s)
  case Nil
  then show ?case by (simp add: consoleintr_def)
next
  case (Cons c cs)
  obtain s1 where s1: "console_key pcs c s = Inr s1" "screen_ok s1" "in_inv (input_of s1)"
    "(ready (input_of s1), edit (input_of s1)) = key_spec c (ready (input_of s), edit (input_of s))"
    using console_key_refines [OF Cons.prems(1,2), of c pcs] Cons.prems(3) by auto
  show ?case using Cons.IH [OF s1(2,3)] Cons.prems(3) s1(1) by (simp add: consoleintr_def s1(4))
qed

text \<open>
  C20. The console refines a line editor. Whatever is typed, apart from the two keys that list the
  processes and reset the machine, the interrupt handler keeps the ring buffer and the screen
  well-formed and does to the finished lines and to the line being edited what \<open>key_spec\<close> says:
  erase, kill, append, or finish the line. A read returns at most one finished line and leaves the
  line being edited alone.
\<close>

theorem console_line_discipline:
  assumes "screen_ok s" and "in_inv (input_of s)" and "\<forall>c\<in>set cs. 0 \<le> c \<and> c < 256 \<and> c \<noteq> 16 \<and> c \<noteq> 26"
  shows "\<exists>s'. consoleintr pcs cs s = Inr s' \<and> screen_ok s' \<and> in_inv (input_of s')
    \<and> (ready (input_of s'), edit (input_of s')) = fold key_spec cs (ready (input_of s), edit (input_of s))
    \<and> (\<forall>killed n bs i' e. consoleread_loop killed n n (input_of s') = (bs, i', e) \<longrightarrow>
         in_inv i' \<and> edit i' = edit (input_of s') \<and> (bs, ready i', e = ReadDone) = read_spec n (ready (input_of s')))"
proof -
  obtain s' where s': "consoleintr pcs cs s = Inr s'" "screen_ok s'" "in_inv (input_of s')"
    "(ready (input_of s'), edit (input_of s')) = fold key_spec cs (ready (input_of s), edit (input_of s))"
    using consoleintr_refines [OF assms] by blast
  have "in_inv i' \<and> edit i' = edit (input_of s') \<and> (bs, ready i', e = ReadDone) = read_spec n (ready (input_of s'))"
    if "consoleread_loop killed n n (input_of s') = (bs, i', e)" for killed n bs i' e
    using read_loop_spec [OF order_refl that] s'(3)
    by (auto simp: in_inv_def read_spec_def Let_def split: if_splits)
  then show ?thesis using s' by blast
qed


theorem console_line_discipline_witness:
  "\<exists>s'. consoleintr (\<lambda>_. []) [97, 98, 8, 99, 13, 100] demo_console = Inr s' \<and> ready (input_of s') = [97, 99, 10] \<and> edit (input_of s') = [100]
     \<and> fst (consoleread_loop False 10 10 (input_of s')) = [97, 99, 10]"
proof -
  let ?cs = "[97, 98, 8, 99, 13, 100] :: int list"
  have "screen_ok demo_console" "in_inv (input_of demo_console)"
    by (simp_all add: screen_ok_def in_inv_def ready_def edit_def)
  from console_line_discipline [OF this, of ?cs "\<lambda>_. []"] obtain s' where s': "consoleintr (\<lambda>_. []) ?cs demo_console = Inr s'"
    "(ready (input_of s'), edit (input_of s')) = fold key_spec ?cs ([], [])"
    "\<And>killed n bs i' e. consoleread_loop killed n n (input_of s') = (bs, i', e) \<Longrightarrow> (bs, ready i', e = ReadDone) = read_spec n (ready (input_of s'))"
    by (auto simp: ready_def edit_def)
  have l: "ready (input_of s') = [97, 99, 10]" "edit (input_of s') = [100]"
    using s'(2) by (simp_all add: key_spec_def INPUT_BUF_def)
  obtain bs i' e where r: "consoleread_loop False 10 10 (input_of s') = (bs, i', e)"
    by (cases "consoleread_loop False 10 10 (input_of s')") auto
  from s'(3) [OF r] have "bs = [97, 99, 10]" by (simp add: l read_spec_def Let_def)
  then show ?thesis using s'(1) l r by auto
qed

end
