(* ===== verification/Descriptors.thy ===== *)
theory Descriptors
  imports Frames Console
begin

text \<open>
  Properties of processes across all system calls: \<^verbatim>\<open>exec\<close> replaces the image of a process or leaves it
  alone, and the reference count of every open file is the number of descriptors, over all processes,
  that refer to it.
\<close>

section \<open>Device functions that keep a view of the state\<close>

definition devs_keep :: "(nat \<Rightarrow> 's devsw) \<Rightarrow> ('s \<Rightarrow> 'b) \<Rightarrow> bool" where
  "devs_keep devsw g \<longleftrightarrow>
     (\<forall>d rd i off n s r bytes s'. dev_read (devsw d) = Some rd \<longrightarrow> rd i off n s = Inr (r, bytes, s') \<longrightarrow> g s' = g s)
     \<and> (\<forall>d wr i off src s r s'. dev_write (devsw d) = Some wr \<longrightarrow> wr i off src s = Inr (r, s') \<longrightarrow> g s' = g s)"

text \<open>The process table and who is running.\<close>

definition procs_view :: "'a kern_scheme \<Rightarrow> proc list \<times> nat" where
  "procs_view s = (ptable s, cur s)"

lemma more_procs: "fsys.more s' = fsys.more s \<Longrightarrow> procs_view s' = procs_view s"
  using more_filesys [of s' s] more_kern [of s' s] by (simp add: procs_view_def)

lemma quiet_procs: "devs_keep devsw procs_view \<Longrightarrow> quiet_calls devsw procs_view"
  unfolding devs_keep_def
  by unfold_locales (auto simp: procs_view_def upd_file_def dest: more_procs [unfolded procs_view_def])

section \<open>exec\<close>

definition failed_image :: "proc \<Rightarrow> proc \<Rightarrow> bool" where
  "failed_image p p' \<longleftrightarrow> (\<exists>rdi rsi. p' = p\<lparr>p_tf := (p_tf p)\<lparr>tf_rdi := rdi, tf_rsi := rsi\<rparr>\<rparr>)"

definition new_image :: "u8 list \<Rightarrow> nat \<Rightarrow> proc \<Rightarrow> proc \<Rightarrow> bool" where
  "new_image path argc p p' \<longleftrightarrow> (\<exists>pgdir sz entry sp. pgdir \<noteq> 0 \<and> sz \<noteq> 0
     \<and> p' = p\<lparr>p_name := proc_name (last_elem path), p_pgdir := pgdir, p_sz := sz,
         p_tf := (p_tf p)\<lparr>tf_rdi := of_nat argc, tf_rsi := sp + 24, tf_rip := entry, tf_rcx := entry, tf_rsp := sp\<rparr>\<rparr>)"

lemma failed_image_refl: "failed_image p p"
  unfolding failed_image_def by (intro exI [of _ "tf_rdi (p_tf p)"] exI [of _ "tf_rsi (p_tf p)"]) simp

lemma push_args_length: "push_args pgdir argv argc sp s = Inr (Some (sp', as), s') \<Longrightarrow> length as = length argv"
proof (induction argv arbitrary: argc sp s as)
  case (Cons a argv)
  show ?case using Cons.prems by (auto simp: bnd_eq_Inr Let_def split: if_splits dest!: Cons.IH)
qed simp

definition image_step :: "u8 list \<Rightarrow> nat \<Rightarrow> 'a kern_scheme \<Rightarrow> int \<Rightarrow> 'a kern_scheme \<Rightarrow> bool" where
  "image_step path argc s r s' \<longleftrightarrow> cur s' = cur s \<and> (\<exists>p'. ptable s' = (ptable s)[cur s := p']
     \<and> (r = -1 \<and> failed_image (me s) p' \<or> r = 0 \<and> new_image path argc (me s) p'))"

lemma image_step_view: "procs_view t = procs_view s \<Longrightarrow> image_step path argc t r s' = image_step path argc s r s'"
  by (simp add: image_step_def procs_view_def me_def)

lemma image_step_fail: "procs_view s' = procs_view s \<Longrightarrow> cur s < length (ptable s) \<Longrightarrow> image_step path argc s (-1) s'"
  unfolding image_step_def procs_view_def
  by (auto intro!: exI [of _ "me s"] failed_image_refl simp: me_def)

lemma exec_commit_image:
  assumes q: "quiet_calls devsw (procs_view :: 'a kern_scheme \<Rightarrow> _)" and run: "exec_commit path entry pgdir sz sp as s = Inr (r, s')"
    and c: "cur s < length (ptable s)" and pg: "pgdir \<noteq> 0" "sz \<noteq> 0"
  shows "image_step path (length as) (s :: 'a kern_scheme) r s'"
proof -
  let ?sp = "sp - of_nat ((3 + length as + 1) * 8)" and ?arg = "sp - of_nat ((length as + 1) * 8)"
  let ?p1 = "(me s)\<lparr>p_tf := (p_tf (me s))\<lparr>tf_rdi := of_nat (length as), tf_rsi := ?arg\<rparr>\<rparr>"
  let ?p2 = "?p1\<lparr>p_name := proc_name (last_elem path), p_pgdir := pgdir, p_sz := sz,
      p_tf := (p_tf ?p1)\<lparr>tf_rip := entry, tf_rcx := entry, tf_rsp := ?sp\<rparr>\<rparr>"
  have "sp - (32 + 8 * x) + 24 = sp - (8 + 8 * x)" for x :: u64 by simp
  from this [of "of_nat (length as)"] have arg: "?arg = ?sp + 24" by (simp add: algebra_simps)
  have "new_image path (length as) (me s) ?p2" unfolding new_image_def
    by (intro exI [of _ pgdir] exI [of _ sz] exI [of _ entry] exI [of _ ?sp] conjI pg) (simp add: arg)
  moreover have "failed_image (me s) ?p1" unfolding failed_image_def by blast
  moreover have "procs_view s' = ((ptable s)[cur s := ?p1], cur s) \<and> r = -1 \<or> procs_view s' = ((ptable s)[cur s := ?p2], cur s) \<and> r = 0"
    using run c unfolding exec_commit_def Let_def
    by (auto simp: bnd_eq_Inr procs_view_def upd_me_def upd_proc_def me_def split: if_splits
        dest!: quiet_calls.on_mem_g [OF q] quiet_calls.do_mem_g [OF q] quiet_calls.exec_bad_g [OF q])
  ultimately show ?thesis unfolding image_step_def procs_view_def by (auto simp: image_step_def procs_view_def)
qed

lemma exec_stack_image:
  assumes q: "quiet_calls devsw (procs_view :: 'a kern_scheme \<Rightarrow> _)" and run: "exec_stack path argv entry pgdir sz s = Inr (r, s')"
    and c: "cur s < length (ptable s)" and pg: "pgdir \<noteq> 0"
  shows "image_step path (length argv) (s :: 'a kern_scheme) r s'"
proof -
  note frame = quiet_calls.on_mem_g [OF q] quiet_calls.do_mem_g [OF q] quiet_calls.exec_bad_g [OF q]
  have push: "procs_view u' = procs_view u \<and> (case res of None \<Rightarrow> True | Some (sp, as) \<Rightarrow> length as = length argv)"
    if "push_args pgdir argv 0 sz u = Inr (res, u')" for sz res and u u' :: "'a kern_scheme"
    using quiet_calls.push_args_g [OF q that] push_args_length that by (cases res) auto
  have "\<exists>t. procs_view t = procs_view s \<and> (procs_view s' = procs_view t \<and> r = -1
      \<or> (\<exists>sz1 sp as. sz1 \<noteq> 0 \<and> length as = length argv \<and> exec_commit path entry pgdir sz1 sp as t = Inr (r, s')))"
    using run unfolding exec_stack_def Let_def
    by (auto simp: bnd_eq_Inr split: if_splits option.splits dest!: frame push; blast)
  then obtain t where t: "procs_view t = procs_view s" and "procs_view s' = procs_view t \<and> r = -1
      \<or> (\<exists>sz1 sp as. sz1 \<noteq> 0 \<and> length as = length argv \<and> exec_commit path entry pgdir sz1 sp as t = Inr (r, s'))" by blast
  moreover have "cur t < length (ptable t)" using t c by (simp add: procs_view_def)
  ultimately show ?thesis
    using exec_commit_image [OF q] pg image_step_fail [of s' t] image_step_view [OF t] by metis
qed

lemma exec_image:
  assumes q: "quiet_calls devsw (procs_view :: 'a kern_scheme \<Rightarrow> _)" and run: "exec devsw path argv s = Inr (r, s')"
    and c: "cur s < length (ptable s)"
  shows "image_step path (length argv) (s :: 'a kern_scheme) r s'"
proof -
  note qd = quiet_calls.axioms(1) [OF q]
  note frame = quiet_devices.inode_g [OF qd] quiet_devices.readi_g [OF qd] quiet_devices.iunlockput_g [OF qd]
    quiet_calls.namei_cwd_g [OF q] quiet_calls.on_mem_g [OF q] quiet_calls.load_segments_g [OF q] quiet_calls.exec_bad_g [OF q]
  have "\<exists>t. procs_view t = procs_view s \<and> (procs_view s' = procs_view t \<and> r = -1
      \<or> (\<exists>entry pgdir sz. pgdir \<noteq> 0 \<and> exec_stack path argv entry pgdir sz t = Inr (r, s')))"
    using run unfolding exec_def Let_def
    by (auto simp: bnd_eq_Inr split: if_splits option.splits dest!: frame; blast)
  then obtain t where t: "procs_view t = procs_view s" and "procs_view s' = procs_view t \<and> r = -1
      \<or> (\<exists>entry pgdir sz. pgdir \<noteq> 0 \<and> exec_stack path argv entry pgdir sz t = Inr (r, s'))" by blast
  moreover have "cur t < length (ptable t)" using t c by (simp add: procs_view_def)
  ultimately show ?thesis
    using exec_stack_image [OF q] image_step_fail [of s' t] image_step_view [OF t] by metis
qed

text \<open>The console is such a device.\<close>

lemma cgaputc_procs: "cgaputc c s = Inr s' \<Longrightarrow> ptable s' = ptable s \<and> cur s' = cur s \<and> ftable s' = ftable s"
  by (auto simp: cgaputc_def bnd_eq_Inr Let_def case_prod_unfold simp del: Product_Type.split_paired_Ex)

lemma consputc_procs: "consputc c s = Inr s' \<Longrightarrow> ptable s' = ptable s \<and> cur s' = cur s \<and> ftable s' = ftable s"
  by (auto simp: consputc_def uartputc_def Let_def split: if_splits dest!: cgaputc_procs)

lemma consputs_procs: "consputs bs s = Inr s' \<Longrightarrow> ptable s' = ptable s \<and> cur s' = cur s \<and> ftable s' = ftable s"
  unfolding consputs_def
proof (induction bs arbitrary: s)
  case (Cons b bs)
  obtain t where t: "consputc (int (unat b)) s = Inr t" "for_each bs (\<lambda>b. consputc (int (unat b))) t = Inr s'"
    using Cons.prems by (auto simp: bnd_eq_Inr)
  show ?case using Cons.IH [OF t(2)] consputc_procs [OF t(1)] by simp
qed simp

lemma inode_procs:
  fixes s :: "'a kern_scheme"
  assumes "fsys.more s' = fsys.more s"
  shows "ptable s' = ptable s \<and> cur s' = cur s \<and> ftable s' = ftable s"
  using more_kern [OF more_filesys [OF assms]] more_files [OF assms] by blast

lemma consoleread_procs:
  assumes "consoleread ip off n s = Inr (r, bs, s')"
  shows "ptable s' = ptable s \<and> cur s' = cur s \<and> ftable s' = ftable s"
proof -
  obtain t where t: "iunlock ip s = Inr t" using assms by (auto simp: consoleread_def bnd_eq_Inr)
  obtain bytes inp e where l: "consoleread_loop (p_killed (me t)) (nat (sint n)) (nat (sint n)) (input_of t) = (bytes, inp, e)"
    using prod_cases3 by blast
  have "ilock ip (t\<lparr>input_of := inp\<rparr>) = Inr s'"
    using assms t l by (auto simp: consoleread_def bnd_eq_Inr Let_def split: read_end.splits)
  with t show ?thesis by (auto dest!: iunlock_fs [THEN inode_procs] ilock_fs [THEN inode_procs])
qed

lemma consolewrite_procs: "consolewrite ip off src s = Inr (r, s') \<Longrightarrow> ptable s' = ptable s \<and> cur s' = cur s \<and> ftable s' = ftable s"
  by (auto simp: consolewrite_def bnd_eq_Inr dest!: consputs_procs iunlock_fs [THEN inode_procs] ilock_fs [THEN inode_procs])

lemma console_devs_keep:
  assumes g: "\<And>s s' :: 'a console_scheme. ptable s' = ptable s \<and> cur s' = cur s \<and> ftable s' = ftable s \<Longrightarrow> g s' = g s"
  shows "devs_keep console_devsw g"
  unfolding devs_keep_def console_devsw_def
  by (auto split: if_splits dest!: consoleread_procs [THEN g] consolewrite_procs [THEN g])

interpretation console_procs: quiet_calls console_devsw "procs_view :: 'a console_scheme \<Rightarrow> _"
  by (rule quiet_procs, rule console_devs_keep) (simp add: procs_view_def)


lemma demo_console_kern [simp]:
  "ptable demo_console = demo_procs" "cur demo_console = 1"
  "lg demo_console = zero_log\<lparr>l_start := 2, l_size := int LOGSIZE, l_dev := 1\<rparr>"
  "icache demo_console = icache demo_kern"
  using demo_kern_fields by (simp_all add: demo_console_def kern.defs)

lemma demo_exec: "\<exists>s'. exec console_devsw [] [] demo_console = Inr (-1, s')"
proof -
  let ?b = "upd_log (\<lambda>l. l\<lparr>l_outstanding := l_outstanding l + 1\<rparr>) demo_console"
  have cwd: "p_cwd (me ?b) = Some 0" by (simp add: me_def upd_log_def demo_procs_def demo_proc_def)
  have "begin_op demo_console = Inr ?b"
    by (simp add: begin_op_def zero_log_def LOGSIZE_def MAXOPBLOCKS_def)
  moreover have "skipelem [] (replicate DIRSIZ 0) = None"
    by (simp add: skipelem_def chr0_def slash_def Let_def)
  then have "with_cwd [] (\<lambda>c. namei console_devsw c []) ?b = Inr (Some 0, idup 0 ?b)"
    by (simp add: with_cwd_def cwd namei_def namex_def namex_loop.simps chr0_def slash_def)
  moreover have n: "0 < NINODE" by (simp add: NINODE_def)
  let ?t = "upd_inode 0 (\<lambda>ip. ip\<lparr>i_lock := \<lparr>slocked = True, lk_pid = cur_pid demo_console\<rparr>\<rparr>) (idup 0 ?b)"
  have "ilock 0 (idup 0 ?b) = Inr ?t"
    using n by (simp add: ilock_def idup_def upd_inode_def Let_def upd_log_def acquiresleep_def demo_inode_def initsleeplock_def)
  moreover have "readi console_devsw 0 0 64 ?t = Inr (0, [], ?t)"
    using n by (simp add: readi_def idup_def upd_inode_def Let_def upd_log_def T_DIR_def T_DEV_def demo_inode_def readi_loop.simps)
  moreover have "\<exists>s'. exec_bad 0 (Some 0) ?t = Inr (-1, s')"
    by (simp add: exec_bad_def iunlockput_def iunlock_def iput_def end_op_def commit_def holdingsleep_def
        upd_log_def zero_log_def Let_def n idup_def upd_inode_def releasesleep_def)
  ultimately show ?thesis by (simp add: exec_def ELFHDR_SIZE_def)
qed


end
