(* ===== verification/Fdcount.thy ===== *)
theory Fdcount
  imports Descriptors
begin

text \<open>
  The reference counts of open files. A view of the kernel holds what the descriptors are: the
  descriptor tables of all processes, which processes are dead, the counts in the file table, and who
  runs. The invariant says that each count is the number of descriptors that refer to the file; while
  a system call is under way a count may differ by the references the call holds itself.
\<close>

section \<open>The view and its invariant\<close>

record fdview =
  fv_ofiles :: "nat option list list"
  fv_dead :: "bool list"
  fv_refs :: "int list"
  fv_cur :: nat

definition dead :: "proc \<Rightarrow> bool" where
  "dead p \<longleftrightarrow> p_state p = UNUSED \<or> p_state p = ZOMBIE"

definition fd_view :: "'a kern_scheme \<Rightarrow> fdview" where
  "fd_view s = \<lparr>fv_ofiles = map p_ofile (ptable s), fv_dead = map dead (ptable s), fv_refs = map f_ref (ftable s), fv_cur = cur s\<rparr>"

text \<open>The number of descriptors that refer to the file \<open>f\<close>.\<close>

definition descriptors :: "nat \<Rightarrow> fdview \<Rightarrow> nat" where
  "descriptors f v = count_list (concat (fv_ofiles v)) (Some f)"

definition fd_ok :: "(nat \<Rightarrow> int) \<Rightarrow> fdview \<Rightarrow> bool" where
  "fd_ok h v \<longleftrightarrow> length (fv_ofiles v) = NPROC \<and> length (fv_dead v) = NPROC \<and> length (fv_refs v) = NFILE \<and> fv_cur v < NPROC
     \<and> (\<forall>i<NPROC. length (fv_ofiles v ! i) = NOFILE
          \<and> (\<forall>fd<NOFILE. \<forall>f. fv_ofiles v ! i ! fd = Some f \<longrightarrow> f < NFILE \<and> \<not> fv_dead v ! i))
     \<and> (\<forall>f<NFILE. fv_refs v ! f = int (descriptors f v) + h f)"

definition alive :: "fdview \<Rightarrow> bool" where
  "alive v \<longleftrightarrow> \<not> fv_dead v ! fv_cur v"

text \<open>What the operations do to the view: change an entry of a descriptor table, change a count.\<close>

definition put :: "nat \<Rightarrow> nat \<Rightarrow> nat option \<Rightarrow> fdview \<Rightarrow> fdview" where
  "put i fd x v = v\<lparr>fv_ofiles := (fv_ofiles v)[i := (fv_ofiles v ! i)[fd := x]]\<rparr>"

definition add_ref :: "nat \<Rightarrow> int \<Rightarrow> fdview \<Rightarrow> fdview" where
  "add_ref f d v = v\<lparr>fv_refs := (fv_refs v)[f := fv_refs v ! f + d]\<rparr>"

definition own :: "nat \<Rightarrow> int \<Rightarrow> (nat \<Rightarrow> int) \<Rightarrow> nat \<Rightarrow> int" where
  "own f d h = (\<lambda>g. h g + (if g = f then d else 0))"

lemma count_list_update:
  "i < length xs \<Longrightarrow> int (count_list (xs[i := x]) y) = int (count_list xs y) - of_bool (xs ! i = y) + of_bool (x = y)"
proof (induction xs arbitrary: i)
  case (Cons a xs)
  show ?case using Cons.prems Cons.IH [of "i - 1"] by (cases i) simp_all
qed simp

lemma count_list_concat_update:
  "i < length xss \<Longrightarrow> int (count_list (concat (xss[i := xs])) y) = int (count_list (concat xss) y) - int (count_list (xss ! i) y) + int (count_list xs y)"
  by (induction xss arbitrary: i) (auto split: nat.splits)

lemma descriptors_put:
  assumes "fd_ok h v" "i < NPROC" "fd < NOFILE"
  shows "int (descriptors f (put i fd x v)) = int (descriptors f v) - of_bool (fv_ofiles v ! i ! fd = Some f) + of_bool (x = Some f)"
proof -
  have "fd < length (fv_ofiles v ! i)" "i < length (fv_ofiles v)" using assms by (auto simp: fd_ok_def)
  then show ?thesis by (simp add: descriptors_def put_def count_list_concat_update count_list_update)
qed

lemma fd_ok_put:
  assumes ok: "fd_ok h v" and i: "i < NPROC" "fd < NOFILE" and x: "\<And>f. x = Some f \<Longrightarrow> f < NFILE \<and> \<not> fv_dead v ! i"
  shows "fd_ok (\<lambda>g. h g + of_bool (fv_ofiles v ! i ! fd = Some g) - of_bool (x = Some g)) (put i fd x v)"
proof -
  note d = descriptors_put [OF ok i, of _ x]
  have "fv_refs (put i fd x v) = fv_refs v" "fv_dead (put i fd x v) = fv_dead v" "fv_cur (put i fd x v) = fv_cur v"
    "fv_ofiles (put i fd x v) = (fv_ofiles v)[i := (fv_ofiles v ! i)[fd := x]]" by (simp_all add: put_def)
  then show ?thesis using ok i x unfolding fd_ok_def by (auto simp: d nth_list_update)
qed

text \<open>Freeing a descriptor passes its reference to the caller, filling a free one takes it from the caller.\<close>

lemma fd_ok_clear:
  assumes "fd_ok h v" "i < NPROC" "fd < NOFILE" "fv_ofiles v ! i ! fd = Some f"
  shows "fd_ok (own f 1 h) (put i fd None v)"
proof -
  have "own f 1 h = (\<lambda>g. h g + of_bool (fv_ofiles v ! i ! fd = Some g) - of_bool (None = Some g))"
    using assms(4) by (auto simp: own_def)
  then show ?thesis using fd_ok_put [OF assms(1-3), of None] by simp
qed

lemma fd_ok_fill:
  assumes "fd_ok h v" "i < NPROC" "fd < NOFILE" "fv_ofiles v ! i ! fd = None" "f < NFILE" "\<not> fv_dead v ! i"
  shows "fd_ok (own f (-1) h) (put i fd (Some f) v)"
proof -
  have "own f (-1) h = (\<lambda>g. h g + of_bool (fv_ofiles v ! i ! fd = Some g) - of_bool (Some f = Some g))"
    using assms(4) by (auto simp: own_def)
  then show ?thesis using fd_ok_put [OF assms(1-3), of "Some f"] assms(5,6) by simp
qed

lemma fd_ok_ref: "fd_ok h v \<Longrightarrow> fd_ok (own f d h) (add_ref f d v)"
  unfolding fd_ok_def by (auto simp: add_ref_def own_def descriptors_def nth_list_update)

lemma own_own [simp]: "own f d (own f e h) = own f (d + e) h" "own f 0 h = h"
  by (auto simp: own_def)

lemma own_swap: "own f d (own g e h) = own g e (own f d h)"
  by (auto simp: own_def)

lemma put_simps [simp]: "fv_dead (put i fd x v) = fv_dead v" "fv_cur (put i fd x v) = fv_cur v" "alive (put i fd x v) = alive v"
  "fv_dead (add_ref f d v) = fv_dead v" "fv_cur (add_ref f d v) = fv_cur v" "alive (add_ref f d v) = alive v"
  "fv_ofiles (add_ref f d v) = fv_ofiles v"
  by (simp_all add: put_def add_ref_def alive_def)

section \<open>The operations on the view\<close>

lemma fd_view_simps [simp]: "fv_cur (fd_view s) = cur s" "fv_ofiles (fd_view s) = map p_ofile (ptable s)"
  "fv_dead (fd_view s) = map dead (ptable s)" "fv_refs (fd_view s) = map f_ref (ftable s)"
  by (simp_all add: fd_view_def)

lemma fd_view_ok:
  assumes "fd_ok h (fd_view s)"
  shows "length (ptable s) = NPROC" "length (ftable s) = NFILE" "cur s < NPROC"
    "fd < NOFILE \<Longrightarrow> p_ofile (me s) ! fd = Some f \<Longrightarrow> f < NFILE"
    "i < NPROC \<Longrightarrow> dead (ptable s ! i) \<Longrightarrow> fd < NOFILE \<Longrightarrow> p_ofile (ptable s ! i) ! fd = None"
    "i < NPROC \<Longrightarrow> length (p_ofile (ptable s ! i)) = NOFILE"
  using assms not_None_eq [of "p_ofile (ptable s ! i) ! fd"] by (auto simp: fd_ok_def me_def)

lemma alive_view: "cur s < length (ptable s) \<Longrightarrow> alive (fd_view s) \<longleftrightarrow> \<not> dead (me s)"
  by (simp add: alive_def me_def)

lemma dead_simps [simp]: "dead (p\<lparr>p_ofile := x\<rparr>) = dead p" "dead (p\<lparr>p_tf := tf\<rparr>) = dead p" "dead (p\<lparr>p_cwd := c\<rparr>) = dead p"
  "dead (p\<lparr>p_sz := sz\<rparr>) = dead p" "dead (p\<lparr>p_pgdir := pg\<rparr>) = dead p" "dead (p\<lparr>p_name := n\<rparr>) = dead p"
  "dead (p\<lparr>p_kstack := k\<rparr>) = dead p" "dead (p\<lparr>p_pid := pid\<rparr>) = dead p" "dead (p\<lparr>p_parent := pa\<rparr>) = dead p"
  "dead (p\<lparr>p_context := cx\<rparr>) = dead p" "dead (p\<lparr>p_killed := kl\<rparr>) = dead p" "dead (p\<lparr>p_chan := ch\<rparr>) = dead p"
  "dead (p\<lparr>p_state := RUNNABLE\<rparr>) = False" "dead (p\<lparr>p_state := EMBRYO\<rparr>) = False" "dead (p\<lparr>p_state := SLEEPING\<rparr>) = False"
  "dead (p\<lparr>p_state := RUNNING\<rparr>) = False" "dead (p\<lparr>p_state := ZOMBIE\<rparr>) = True" "dead (p\<lparr>p_state := UNUSED\<rparr>) = True"
  "dead (wake ch p) = dead p"
  by (auto simp: dead_def)

lemma fd_view_upd_proc:
  "p_ofile (f (ptable s ! i)) = p_ofile (ptable s ! i) \<Longrightarrow> dead (f (ptable s ! i)) = dead (ptable s ! i) \<Longrightarrow> fd_view (upd_proc i f s) = fd_view s"
  by (cases "i < length (ptable s)") (simp_all add: fd_view_def upd_proc_def map_update list_update_beyond, metis list_update_id nth_map)

lemma fd_view_upd_me:
  "p_ofile (f (me s)) = p_ofile (me s) \<Longrightarrow> dead (f (me s)) = dead (me s) \<Longrightarrow> fd_view (upd_me f s) = fd_view s"
  unfolding upd_me_def me_def by (rule fd_view_upd_proc)

lemma fd_view_put:
  "i < length (ptable s) \<Longrightarrow> fd_view (upd_proc i (\<lambda>p. p\<lparr>p_ofile := (p_ofile p)[fd := x]\<rparr>) s) = put i fd x (fd_view s)"
  by (simp add: fd_view_def upd_proc_def put_def map_update) (metis list_update_id map_update nth_map dead_simps(1))

lemma fd_view_put_me:
  "cur s < length (ptable s) \<Longrightarrow> fd_view (upd_me (\<lambda>p. p\<lparr>p_ofile := (p_ofile p)[fd := x]\<rparr>) s) = put (cur s) fd x (fd_view s)"
  unfolding upd_me_def by (rule fd_view_put)

lemma fd_view_upd_file:
  "f < length (ftable s) \<Longrightarrow> f_ref (g (ftable s ! f)) = f_ref (ftable s ! f) + d \<Longrightarrow> fd_view (upd_file f g s) = add_ref f d (fd_view s)"
  by (simp add: fd_view_def upd_file_def add_ref_def map_update)

lemma fd_view_more: "fsys.more s' = fsys.more s \<Longrightarrow> fd_view s' = fd_view s"
  using inode_procs [of s' s] by (simp add: fd_view_def)

lemma fd_view_fields [simp]: "fd_view (s\<lparr>km := m\<rparr>) = fd_view s" "fd_view (s\<lparr>pipes := q\<rparr>) = fd_view s"
  "fd_view (s\<lparr>nextpid := n\<rparr>) = fd_view s"
  by (simp_all add: fd_view_def)

lemma fd_view_upd_inode [simp]: "fd_view (upd_inode i f s) = fd_view s" "fd_view (idup i s) = fd_view s"
  by (rule fd_view_more, simp add: idup_def)+

lemma add_ref_0 [simp]: "add_ref f 0 v = v" 
  by (simp add: add_ref_def)

lemma filedup_view: "filedup f s = Inr s' \<Longrightarrow> f < length (ftable s) \<Longrightarrow> fd_view s' = add_ref f 1 (fd_view s)"
  by (auto simp: filedup_def fd_view_upd_file split: if_splits)

lemma fileclose_view:
  assumes "fileclose f s = Inr s'" "f < length (ftable s)"
  shows "fd_view s' = add_ref f (-1) (fd_view s)"
proof -
  let ?s = "upd_file f (\<lambda>x. x\<lparr>f_ref := f_ref x - 1\<rparr>) s"
  have s: "fd_view ?s = add_ref f (-1) (fd_view s)" using assms(2) by (simp add: fd_view_upd_file)
  moreover have "fd_view (upd_file f (\<lambda>x. x\<lparr>f_ref := 0, f_type := FD_NONE\<rparr>) ?s) = fd_view ?s" if "f_ref (ftable s ! f) = 1"
    using that assms(2) by (subst fd_view_upd_file [where d = 0]) (simp_all add: upd_file_def)
  ultimately show ?thesis
    using assms by (auto simp: fileclose_def pipeclose_def Let_def bnd_eq_Inr upd_file_def
      split: if_splits fdtype.splits option.splits dest!: begin_op_fs [THEN fd_view_more] iput_fs [THEN fd_view_more] end_op_fs [THEN fd_view_more])
qed

lemma kclose_view: "kclose f s = Inr s' \<Longrightarrow> f < length (ftable s) \<Longrightarrow> fd_view s' = add_ref f (-1) (fd_view s)"
  by (auto simp: kclose_def do_mem_def bnd_eq_Inr Let_def split: if_splits dest!: fileclose_view)

lemma filealloc_view:
  assumes "filealloc s = (Some f, s')" "fd_ok h (fd_view s)"
  shows "f < NFILE \<and> fd_view s' = add_ref f 1 (fd_view s)"
  using assms fd_view_ok(2) [OF assms(2)]
  by (auto simp: filealloc_def find_Some_iff fd_view_upd_file split: option.splits)

section \<open>System calls on descriptors\<close>

text \<open>The invariant inside a call: the calling process is alive and the call holds the references \<open>h\<close>.\<close>

definition fd_inv :: "(nat \<Rightarrow> int) \<Rightarrow> 'a kern_scheme \<Rightarrow> bool" where
  "fd_inv h s \<longleftrightarrow> fd_ok h (fd_view s) \<and> \<not> dead (me s)"

lemma fd_inv_view: "fd_view s' = fd_view s \<Longrightarrow> fd_inv h s' \<longleftrightarrow> fd_inv h s"
  unfolding fd_inv_def using alive_view [of s] alive_view [of s'] fd_view_ok(1,3) [of h s] fd_view_ok(1,3) [of h s'] by auto

lemma fd_inv_ok:
  assumes "fd_inv h s"
  shows "length (ptable s) = NPROC" "length (ftable s) = NFILE" "cur s < NPROC" "fd_ok h (fd_view s)"
    "fd < NOFILE \<Longrightarrow> p_ofile (me s) ! fd = Some f \<Longrightarrow> f < NFILE"
  using assms fd_view_ok(1-4) [of h s] by (auto simp: fd_inv_def)

lemma sint_less_unat:
  assumes "0 \<le> sint w" "sint w < int n"
  shows "unat (w :: u32) < n"
proof -
  have "sint w < 2 ^ 32" using sint_lt [of w] by simp
  then have "uint (of_int (sint w) :: u32) = sint w" using assms(1) by (simp add: uint_word_of_int_eq take_bit_int_eq_self del: of_int_sint)
  then have "uint w = sint w" by simp
  then have "int (unat w) < int n" using assms(2) by (simp only: uint_nat [symmetric])
  then show ?thesis by (simp only: of_nat_less_iff)
qed

lemma argfd_Some: "argfd n s = Inr (Some (fd, f)) \<Longrightarrow> fd < NOFILE \<and> p_ofile (me s) ! fd = Some f"
  using sint_less_unat [of _ NOFILE] by (auto simp: argfd_def bnd_eq_Inr split: if_splits)

lemma fdalloc_inv:
  assumes inv: "fd_inv h s" and f: "f < NFILE" and run: "fdalloc f s = (Some fd, s')"
  shows "fd_inv (own f (-1) h) s' \<and> fd < NOFILE \<and> p_ofile (me s') ! fd = Some f"
proof -
  note ok = fd_inv_ok [OF inv]
  from run have fd: "fd < NOFILE" "p_ofile (me s) ! fd = None" and s': "s' = upd_me (\<lambda>p. p\<lparr>p_ofile := (p_ofile p)[fd := Some f]\<rparr>) s"
    by (auto simp: fdalloc_def find_Some_iff split: option.splits)
  have al: "\<not> dead (me s)" using inv by (simp add: fd_inv_def)
  have "fd_ok (own f (-1) h) (put (cur s) fd (Some f) (fd_view s))"
    by (rule fd_ok_fill) (use ok fd f al in \<open>auto simp: me_def\<close>)
  moreover have "length (p_ofile (me s)) = NOFILE" using fd_view_ok(6) [OF ok(4,3)] by (simp add: me_def)
  ultimately show ?thesis
    using ok(1,3) fd al by (simp add: fd_inv_def s' fd_view_put_me) (simp add: me_def upd_me_def upd_proc_def)
qed

lemma fdalloc_None: "fdalloc f s = (None, s') \<Longrightarrow> s' = s"
  by (auto simp: fdalloc_def split: option.splits)

lemma clear_inv:
  assumes inv: "fd_inv h s" and fd: "fd < NOFILE" "p_ofile (me s) ! fd = Some f"
  shows "fd_inv (own f 1 h) (upd_me (\<lambda>p. p\<lparr>p_ofile := (p_ofile p)[fd := None]\<rparr>) s)"
proof -
  note ok = fd_inv_ok [OF inv]
  have "fd_ok (own f 1 h) (put (cur s) fd None (fd_view s))"
    by (rule fd_ok_clear) (use ok fd in \<open>auto simp: me_def\<close>)
  then show ?thesis
    using ok(1,3) inv by (simp add: fd_inv_def fd_view_put_me) (simp add: me_def upd_me_def upd_proc_def)
qed

lemma add_ref_inv:
  assumes "fd_inv h s" "fd_view s' = add_ref f d (fd_view s)"
  shows "fd_inv (own f d h) s'"
proof -
  have ok: "fd_ok (own f d h) (fd_view s')" using fd_ok_ref assms by (simp add: fd_inv_def)
  have "alive (fd_view s') = alive (fd_view s)" by (simp add: assms(2))
  then show ?thesis using ok fd_view_ok [OF ok] fd_inv_ok [OF assms(1)] assms(1) by (simp add: fd_inv_def alive_view)
qed

lemma filedup_inv: "fd_inv h s \<Longrightarrow> f < NFILE \<Longrightarrow> filedup f s = Inr s' \<Longrightarrow> fd_inv (own f 1 h) s'"
  using add_ref_inv filedup_view fd_inv_ok(2) by metis

lemma kclose_inv: "fd_inv h s \<Longrightarrow> f < NFILE \<Longrightarrow> kclose f s = Inr s' \<Longrightarrow> fd_inv (own f (-1) h) s'"
  using add_ref_inv kclose_view fd_inv_ok(2) by metis

lemma fileclose_inv: "fd_inv h s \<Longrightarrow> f < NFILE \<Longrightarrow> fileclose f s = Inr s' \<Longrightarrow> fd_inv (own f (-1) h) s'"
  using add_ref_inv fileclose_view fd_inv_ok(2) by metis

lemma filealloc_inv: "fd_inv h s \<Longrightarrow> filealloc s = (Some f, s') \<Longrightarrow> fd_inv (own f 1 h) s' \<and> f < NFILE"
  using add_ref_inv filealloc_view fd_inv_ok(4) by metis

lemma filealloc_None: "filealloc s = (None, s') \<Longrightarrow> s' = s"
  by (auto simp: filealloc_def split: option.splits)

lemma sys_dup_inv:
  assumes inv: "fd_inv h s" and run: "sys_dup s = Inr (r, s')"
  shows "fd_inv h s'"
proof -
  from run obtain a where a: "argfd 0 s = Inr a" by (auto simp: sys_dup_def bnd_eq_Inr)
  show ?thesis
  proof (cases a)
    case (Some p)
    obtain fd f where p: "p = (fd, f)" by fastforce
    obtain x t where x: "fdalloc f s = (x, t)" by fastforce
    have f: "f < NFILE" using argfd_Some fd_inv_ok(5) [OF inv] a Some p by blast
    then show ?thesis
    proof (cases x)
      case None
      then show ?thesis using run a Some p x inv by (auto simp: sys_dup_def dest: fdalloc_None)
    next
      case (Some fd')
      then have "filedup f t = Inr s'" using run a \<open>a = Some p\<close> p x by (auto simp: sys_dup_def bnd_eq_Inr)
      then show ?thesis using filedup_inv [OF fdalloc_inv [OF inv f, THEN conjunct1] f] x Some by fastforce
    qed
  qed (use inv run a in \<open>simp add: sys_dup_def\<close>)
qed

lemma sys_close_inv:
  assumes inv: "fd_inv h s" and run: "sys_close s = Inr (r, s')"
  shows "fd_inv h s'"
proof -
  obtain a where a: "argfd 0 s = Inr a" using run by (auto simp: sys_close_def bnd_eq_Inr)
  show ?thesis
  proof (cases a)
    case (Some p)
    obtain fd f where p: "p = (fd, f)" by fastforce
    have fd: "fd < NOFILE" "p_ofile (me s) ! fd = Some f" "f < NFILE" using argfd_Some fd_inv_ok(5) [OF inv] a Some p by blast+
    have "kclose f (upd_me (\<lambda>p. p\<lparr>p_ofile := (p_ofile p)[fd := None]\<rparr>) s) = Inr s'"
      using run a Some p by (auto simp: sys_close_def bnd_eq_Inr)
    from kclose_inv [OF clear_inv [OF inv fd(1,2)] fd(3) this] show ?thesis by simp
  qed (use inv run a in \<open>simp add: sys_close_def\<close>)
qed

lemma fd_view_off [simp]: "fd_view (upd_file f (\<lambda>x. x\<lparr>f_off := k x\<rparr>) s) = fd_view s"
  by (cases "f < length (ftable s)") (simp_all add: fd_view_upd_file [where d = 0], simp add: upd_file_def list_update_beyond)

lemma quiet_fds: "devs_keep devsw fd_view \<Longrightarrow> quiet_calls devsw fd_view"
  unfolding devs_keep_def
  by unfold_locales (auto intro: fd_view_more)

interpretation console_fds: quiet_calls console_devsw "fd_view :: 'a console_scheme \<Rightarrow> _"
  by (rule quiet_fds, rule console_devs_keep) (simp add: fd_view_def)

lemmas inode_view = begin_op_fs [THEN fd_view_more] end_op_fs [THEN fd_view_more] iput_fs [THEN fd_view_more]
  ilock_fs [THEN fd_view_more] iunlock_fs [THEN fd_view_more]

lemma iunlockput_view: "iunlockput ip s = Inr s' \<Longrightarrow> fd_view s' = fd_view s"
  by (auto simp: iunlockput_def bnd_eq_Inr dest!: inode_view)

lemma open_file_inv:
  assumes inv: "fd_inv h s" and run: "open_file s = Inr (r, s')"
  shows "fd_inv h s' \<and> (\<forall>f fd. r = Some (f, fd) \<longrightarrow> f < NFILE)"
proof -
  obtain x t where x: "filealloc s = (x, t)" by fastforce
  show ?thesis
  proof (cases x)
    case None
    then show ?thesis using run x inv by (auto simp: open_file_def dest: filealloc_None)
  next
    case (Some f)
    note t = filealloc_inv [OF inv x [unfolded Some]]
    obtain y u where y: "fdalloc f t = (y, u)" by fastforce
    show ?thesis
    proof (cases y)
      case None
      then have "r = None" "kclose f t = Inr s'" using run x \<open>x = Some f\<close> y by (auto simp: open_file_def bnd_eq_Inr dest: fdalloc_None)
      then show ?thesis using kclose_inv [of _ t f] t by fastforce
    next
      case (Some fd)
      then show ?thesis using run x \<open>x = Some f\<close> y t fdalloc_inv [of _ t f fd u] by (fastforce simp: open_file_def)
    qed
  qed
qed

lemma upd_file_inv:
  "fd_inv h s \<Longrightarrow> f < NFILE \<Longrightarrow> f_ref (g (ftable s ! f)) = f_ref (ftable s ! f) \<Longrightarrow> fd_inv h (upd_file f g s)"
  using fd_view_upd_file [of f s g 0] fd_inv_view [of "upd_file f g s" s] fd_inv_ok(2) by fastforce

lemma open_inode_inv:
  assumes inv: "fd_inv h s" and run: "open_inode ip omode s = Inr (r, s')"
  shows "fd_inv h s'"
proof -
  obtain x t where x: "open_file s = Inr (x, t)" using run by (auto simp: open_inode_def bnd_eq_Inr)
  note t = open_file_inv [OF inv x]
  show ?thesis
  proof (cases x)
    case None
    then have "fd_view s' = fd_view t" using run x by (auto simp: open_inode_def bnd_eq_Inr dest!: iunlockput_view inode_view)
    then show ?thesis using t fd_inv_view by blast
  next
    case (Some p)
    obtain f fd where p: "p = (f, fd)" by fastforce
    then obtain u g where u: "fd_view u = fd_view t" and s': "s' = upd_file f g u" and g: "\<And>x. f_ref (g x) = f_ref x"
      using run x Some by (auto simp: open_inode_def bnd_eq_Inr dest!: inode_view)
    show ?thesis unfolding s' by (rule upd_file_inv) (use t u g Some p fd_inv_view in auto)
  qed
qed

lemma sys_open_inv:
  assumes q: "quiet_calls devsw fd_view" and inv: "fd_inv h s" and run: "sys_open devsw s = Inr (r, s')"
  shows "fd_inv h s'"
proof -
  note frame = quiet_calls.create_g [OF q] quiet_calls.namei_cwd_g [OF q] iunlockput_view inode_view
  have "fd_view s' = fd_view s \<or> (\<exists>t ip omode. fd_view t = fd_view s \<and> open_inode ip omode t = Inr (r, s'))"
    using run by (auto simp: sys_open_def do_open_def bnd_eq_Inr split: option.splits if_splits dest!: frame)
  then show ?thesis using inv open_inode_inv fd_inv_view by metis
qed

lemma pipealloc_inv:
  assumes inv: "fd_inv h s" and run: "pipealloc page junk s = Inr (r, s')"
  shows "case r of None \<Rightarrow> fd_inv h s' | Some (f0, f1) \<Rightarrow> f0 < NFILE \<and> f1 < NFILE \<and> fd_inv (own f0 1 (own f1 1 h)) s'"
proof -
  obtain x t where x: "filealloc s = (x, t)" by fastforce
  show ?thesis
  proof (cases x)
    case None
    then show ?thesis using run x inv by (auto simp: pipealloc_def close_opt_def dest: filealloc_None)
  next
    case (Some f0)
    note t = filealloc_inv [OF inv x [unfolded Some]]
    obtain y u where y: "filealloc t = (y, u)" by fastforce
    show ?thesis
    proof (cases y)
      case None
      then have "r = None" "fileclose f0 t = Inr s'"
        using run x y \<open>x = Some f0\<close> by (auto simp: pipealloc_def close_opt_def bnd_eq_Inr dest: filealloc_None)
      then show ?thesis using fileclose_inv [of _ t f0] t by fastforce
    next
      case (Some f1)
      note u = filealloc_inv [OF t [THEN conjunct1] y [unfolded Some]]
      show ?thesis
      proof (cases page)
        case None
        then obtain w where w: "r = None" "fileclose f0 u = Inr w" "fileclose f1 w = Inr s'"
          using run x y \<open>x = Some f0\<close> Some by (auto simp: pipealloc_def close_opt_def bnd_eq_Inr)
        have "fd_inv (own f1 1 h) w" using fileclose_inv [OF _ t [THEN conjunct2] w(2), of "own f1 1 (own f0 1 h)"] u by (simp add: own_swap [of f0])
        then show ?thesis using fileclose_inv [of _ w f1] u w by fastforce
      next
        case (Some p)
        have "fd_inv (own f0 1 (own f1 1 h)) (u\<lparr>pipes := q\<rparr>)" for q
          using u fd_inv_view [of "u\<lparr>pipes := q\<rparr>" u] by (simp add: own_swap)
        then show ?thesis
          using run x y \<open>x = Some f0\<close> \<open>y = Some f1\<close> Some t u by (auto simp: pipealloc_def Let_def intro!: upd_file_inv)
      qed
    qed
  qed
qed

lemma kpipealloc_inv:
  assumes inv: "fd_inv h s" and run: "kpipealloc s = Inr (r, s')"
  shows "case r of None \<Rightarrow> fd_inv h s' | Some (f0, f1) \<Rightarrow> f0 < NFILE \<and> f1 < NFILE \<and> fd_inv (own f0 1 (own f1 1 h)) s'"
proof -
  have "\<exists>t page junk. fd_view t = fd_view s \<and> pipealloc page junk t = Inr (r, s')"
    using run by (auto simp: kpipealloc_def on_mem_def bnd_eq_Inr split: if_splits)
      (rule exI, rule conjI [rotated], intro exI, assumption, simp)+
  then obtain t page junk where "fd_view t = fd_view s" "pipealloc page junk t = Inr (r, s')" by blast
  then show ?thesis using pipealloc_inv [of h t] inv fd_inv_view [of t s] by simp
qed

lemma ustore_view: "ustore va b s = Inr s' \<Longrightarrow> fd_view s' = fd_view s"
  by (auto simp: ustore_def ustore1_def on_mem_def bnd_eq_Inr split: option.splits if_splits)

lemma ustore_bytes_view: "ustore_bytes va bs s = Inr s' \<Longrightarrow> fd_view s' = fd_view s"
proof (induction bs arbitrary: va s)
  case (Cons b bs)
  show ?case using Cons.prems by (auto simp: bnd_eq_Inr dest!: ustore_view Cons.IH)
qed simp

lemma sys_pipe_inv:
  assumes inv: "fd_inv h s" and run: "sys_pipe s = Inr (r, s')"
  shows "fd_inv h s'"
proof (cases "s' = s")
  case False
  then obtain p fs t where p: "argptr 0 8 s = Inr (Some p)" and t: "kpipealloc s = Inr (fs, t)"
    using run by (auto simp: sys_pipe_def bnd_eq_Inr split: option.splits)
  note inv' = kpipealloc_inv [OF inv t]
  show ?thesis
  proof (cases fs)
    case None
    then show ?thesis using run p t inv' by (auto simp: sys_pipe_def)
  next
    case (Some rw)
    obtain rf wf where rw: "rw = (rf, wf)" by fastforce
    then have i1: "fd_inv (own rf 1 (own wf 1 h)) t" and rf: "rf < NFILE" and wf: "wf < NFILE" using inv' Some by auto
    obtain x u where x: "fdalloc rf t = (x, u)" by fastforce
    note run' = run p t Some rw x
    have close: "fd_inv h s'" if "fd_inv (own rf 1 (own wf 1 h)) v" "kclose rf v = Inr w" "kclose wf w = Inr s'" for v w
      using kclose_inv [OF kclose_inv [OF that(1) rf that(2)] wf that(3)] by (simp add: own_swap [of wf])
    show ?thesis
    proof (cases x)
      case None
      then show ?thesis using run' close i1 fdalloc_None [of rf t u] by (auto simp: sys_pipe_def bnd_eq_Inr Let_def)
    next
      case (Some fd0)
      note u = fdalloc_inv [OF i1 rf x [unfolded Some]]
      obtain y v where y: "fdalloc wf u = (y, v)" by fastforce
      show ?thesis
      proof (cases y)
        case None
        then show ?thesis using run' y Some fdalloc_None [of wf u v] clear_inv [of _ u fd0 rf] u close
          by (auto simp: sys_pipe_def bnd_eq_Inr Let_def)
      next
        case (Some fd1)
        have "fd_inv h v" using fdalloc_inv [OF u [THEN conjunct1] wf y [unfolded Some]] by simp
        moreover have "fd_view s' = fd_view v"
          using run' y \<open>x = Some fd0\<close> Some by (auto simp: sys_pipe_def bnd_eq_Inr Let_def dest!: ustore_bytes_view)
        ultimately show ?thesis using fd_inv_view by blast
      qed
    qed
  qed
qed (use inv in simp)

section \<open>System calls on processes\<close>

text \<open>A process may change in every way that keeps its descriptors; when it dies it must have none.\<close>

lemma proc_ok:
  assumes inv: "fd_inv h s" and i: "i < NPROC" and same: "p_ofile (f (ptable s ! i)) = p_ofile (ptable s ! i)"
    and bury: "dead (f (ptable s ! i)) \<Longrightarrow> \<forall>fd<NOFILE. p_ofile (ptable s ! i) ! fd = None"
  shows "fd_ok h (fd_view (upd_proc i f s))"
proof -
  note ok = fd_inv_ok [OF inv]
  have v: "fd_view (upd_proc i f s) = (fd_view s)\<lparr>fv_dead := (fv_dead (fd_view s))[i := dead (f (ptable s ! i))]\<rparr>"
    using same ok(1) i by (simp add: fd_view_def upd_proc_def map_update) (metis list_update_id nth_map)
  show ?thesis using ok i bury unfolding v fd_ok_def descriptors_def by (auto simp: nth_list_update)
qed

lemma proc_inv:
  assumes inv: "fd_inv h s" and i: "i < NPROC" and same: "p_ofile (f (ptable s ! i)) = p_ofile (ptable s ! i)"
    and bury: "dead (f (ptable s ! i)) \<Longrightarrow> \<forall>fd<NOFILE. p_ofile (ptable s ! i) ! fd = None" and me: "i = cur s \<Longrightarrow> \<not> dead (f (ptable s ! i))"
  shows "fd_inv h (upd_proc i f s)"
proof -
  have "\<not> dead (me (upd_proc i f s))" using inv me fd_inv_ok(1) [OF inv] i by (auto simp: fd_inv_def me_def)
  then show ?thesis using proc_ok [of h s i f, OF inv i same bury] by (simp add: fd_inv_def)
qed

lemma upd_proc_inv:
  "fd_inv h s \<Longrightarrow> p_ofile (f (ptable s ! i)) = p_ofile (ptable s ! i) \<Longrightarrow> dead (f (ptable s ! i)) = dead (ptable s ! i) \<Longrightarrow> fd_inv h (upd_proc i f s)"
  using fd_view_upd_proc [of f s i] fd_inv_view by blast

text \<open>The child that \<^verbatim>\<open>fork\<close> is making: a slot of its own without descriptors.\<close>

definition bare :: "nat \<Rightarrow> 'a kern_scheme \<Rightarrow> bool" where
  "bare i s \<longleftrightarrow> i < NPROC \<and> i \<noteq> cur s \<and> \<not> dead (ptable s ! i) \<and> (\<forall>fd<NOFILE. p_ofile (ptable s ! i) ! fd = None)"

lemma allocproc_inv:
  assumes inv: "fd_inv h s" and run: "allocproc s = Inr (np, s')"
  shows "fd_inv h s' \<and> (\<forall>i. np = Some i \<longrightarrow> bare i s')"
proof (cases "List.find (\<lambda>i. p_state (ptable s ! i) = UNUSED) [0..<NPROC]")
  case None
  then show ?thesis using run inv by (simp add: allocproc_def)
next
  case (Some i)
  then have i: "i < NPROC" "dead (ptable s ! i)" by (auto simp: find_Some_iff dead_def)
  note ok = fd_inv_ok [OF inv]
  have ne: "i \<noteq> cur s" using i inv by (auto simp: fd_inv_def me_def)
  have none: "\<forall>fd<NOFILE. p_ofile (ptable s ! i) ! fd = None" using fd_view_ok(5) [OF ok(4) i] by blast
  let ?s = "upd_proc i (\<lambda>p. p\<lparr>p_state := EMBRYO, p_pid := nextpid s\<rparr>) s"
  have e: "fd_inv h ?s" by (rule proc_inv) (use inv i in auto)
  have n: "fd_inv h (t\<lparr>nextpid := n\<rparr>\<lparr>km := m\<rparr>) = fd_inv h t" for t :: "'a kern_scheme" and m n
    by (rule fd_inv_view) simp
  obtain k m where m: "kalloc (km s) = Inr (k, m)"
    using run Some by (auto simp: allocproc_def on_mem_def bnd_eq_Inr Let_def)
  let ?t = "upd_proc i (\<lambda>p. p\<lparr>p_kstack := k\<rparr>) (?s\<lparr>nextpid := nextpid s + 1\<rparr>\<lparr>km := m\<rparr>)"
  have t: "fd_inv h ?t" by (rule upd_proc_inv) (use e n in auto)
  have "fd_inv h (upd_proc i (\<lambda>p. p\<lparr>p_context := AtForkret\<rparr>) ?t)" by (rule upd_proc_inv) (use t in auto)
  moreover have "fd_inv h (upd_proc i (\<lambda>p. p\<lparr>p_state := UNUSED\<rparr>) ?t)"
    by (rule proc_inv) (use t i ne none ok(1) in \<open>auto simp: upd_proc_def\<close>)
  ultimately show ?thesis
    using run Some m ne none i ok(1)
    by (auto simp: allocproc_def on_mem_def Let_def bare_def split: if_splits)
qed

lemma dup_fds_inv:
  assumes "for_each fds (dup_fd i) s = Inr s'" "fd_inv h s" "distinct fds" "i < NPROC" "i \<noteq> cur s" "\<not> dead (ptable s ! i)"
    "\<forall>fd\<in>set fds. fd < NOFILE \<and> p_ofile (ptable s ! i) ! fd = None"
  shows "fd_inv h s' \<and> cur s' = cur s \<and> \<not> dead (ptable s' ! i)"
  using assms
proof (induction fds arbitrary: s)
  case (Cons fd fds)
  obtain t where t: "dup_fd i fd s = Inr t" and rest: "for_each fds (dup_fd i) t = Inr s'" using Cons.prems by (auto simp: bnd_eq_Inr)
  note ok = fd_inv_ok [OF Cons.prems(2)]
  show ?case
  proof (cases "p_ofile (me s) ! fd")
    case None
    then show ?thesis using t rest Cons by (auto simp: dup_fd_def)
  next
    case (Some f)
    have f: "f < NFILE" using ok(5) Some Cons.prems(7) by auto
    obtain u where u: "filedup f s = Inr u" and t': "t = upd_proc i (\<lambda>p. p\<lparr>p_ofile := (p_ofile p)[fd := Some f]\<rparr>) u"
      using t Some by (auto simp: dup_fd_def bnd_eq_Inr)
    have k: "ptable u = ptable s" "cur u = cur s" using more_kern [OF filedup_kern [OF u]] by auto
    have iu: "fd_inv (own f 1 h) u" by (rule filedup_inv [OF Cons.prems(2) f u])
    have "fd_ok h (put i fd (Some f) (fd_view u))"
      using fd_ok_fill [OF fd_inv_ok(4) [OF iu] Cons.prems(4), of fd f] f Cons.prems(6,7) k ok(1) Cons.prems(4) by simp
    then have "fd_inv h t" using iu k ok(1,3) Cons.prems(4,5) by (simp add: fd_inv_def t' fd_view_put me_def)
    moreover have "i \<noteq> cur t" "cur t = cur s" "\<not> dead (ptable t ! i)" "\<forall>fd\<in>set fds. fd < NOFILE \<and> p_ofile (ptable t ! i) ! fd = None"
      using Cons.prems k ok(1) by (auto simp: t') (metis nth_list_update_neq)
    ultimately show ?thesis using Cons.IH [OF rest] Cons.prems(3,4) by simp
  qed
qed simp

lemma fork_inv:
  assumes inv: "fd_inv h s" and run: "fork s = Inr (r, s')"
  shows "fd_inv h s'"
proof -
  obtain np t where np: "allocproc s = Inr (np, t)" using run by (auto simp: fork_def bnd_eq_Inr)
  note a = allocproc_inv [OF inv np]
  show ?thesis
  proof (cases np)
    case None
    then show ?thesis using run np a by (simp add: fork_def)
  next
    case (Some i)
    then obtain pg m where m: "copyuvm (km t) (kpdpt t) (p_pgdir (me t)) (ucast (p_sz (me t))) = Inr (pg, m)"
      using run np by (auto simp: fork_def on_mem_def bnd_eq_Inr)
    have b: "bare i t" using a Some by blast
    then have i: "i < NPROC" "i \<noteq> cur t" "\<not> dead (ptable t ! i)" "\<And>fd. fd < NOFILE \<Longrightarrow> p_ofile (ptable t ! i) ! fd = None"
      by (auto simp: bare_def)
    let ?u = "upd_proc i (\<lambda>p. p\<lparr>p_pgdir := pg\<rparr>) (t\<lparr>km := m\<rparr>)"
    have len: "length (ptable t) = NPROC" using a fd_inv_ok(1) by blast
    have "fd_inv h (t\<lparr>km := m\<rparr>)" using a fd_inv_view [of "t\<lparr>km := m\<rparr>" t h] by simp
    then have u: "fd_inv h ?u" by (rule upd_proc_inv) simp_all
    show ?thesis
    proof (cases "pg = 0")
      case True
      then obtain m' where s': "s' = upd_proc i (\<lambda>p. p\<lparr>p_kstack := 0, p_state := UNUSED\<rparr>) (?u\<lparr>km := m'\<rparr>)"
        using run np Some m by (auto simp: fork_def on_mem_def do_mem_def bnd_eq_Inr Let_def)
      have "fd_inv h (?u\<lparr>km := m'\<rparr>)" using u fd_inv_view [of "?u\<lparr>km := m'\<rparr>" ?u h] by simp
      then show ?thesis unfolding s' by (rule proc_inv) (use i len in \<open>auto simp: upd_proc_def\<close>)
    next
      case False
      let ?w = "upd_proc i (\<lambda>p. p\<lparr>p_sz := p_sz (me ?u), p_parent := Some (cur t), p_tf := (p_tf (me ?u))\<lparr>tf_rax := 0\<rparr>\<rparr>) ?u"
      have w: "fd_inv h ?w" using u by (rule upd_proc_inv) simp_all
      obtain x c n where x: "for_each [0..<NOFILE] (dup_fd i) ?w = Inr x"
        and s': "s' = upd_proc i (\<lambda>p. p\<lparr>p_state := RUNNABLE\<rparr>) (upd_proc i (\<lambda>p. p\<lparr>p_cwd := Some c, p_name := n\<rparr>) (idup c x))"
        using run np Some m False by (auto simp: fork_def on_mem_def bnd_eq_Inr Let_def split: option.splits)
      have "fd_inv h x" using dup_fds_inv [OF x w] i len by auto
      then have "fd_inv h (idup c x)" using fd_inv_view [of "idup c x" x h] by simp
      then have z: "fd_inv h (upd_proc i (\<lambda>p. p\<lparr>p_cwd := Some c, p_name := n\<rparr>) (idup c x))" by (rule upd_proc_inv) simp_all
      show ?thesis unfolding s' by (rule proc_inv [OF z i(1)]) simp_all
    qed
  qed
qed

text \<open>\<^verbatim>\<open>exit\<close> releases each file before it clears the descriptor.\<close>

lemma close_fd_inv:
  assumes inv: "fd_inv h s" and fd: "fd < NOFILE" and run: "close_fd fd s = Inr s'"
  shows "fd_inv h s'"
proof (cases "p_ofile (me s) ! fd")
  case (Some f)
  then obtain t where t: "kclose f s = Inr t" and s': "s' = upd_me (\<lambda>p. p\<lparr>p_ofile := (p_ofile p)[fd := None]\<rparr>) t"
    using run by (auto simp: close_fd_def bnd_eq_Inr)
  have "me t = me s" using kclose_kern [OF t] by (simp add: me_def)
  then show ?thesis
    using clear_inv [OF kclose_inv [OF inv fd_inv_ok(5) [OF inv fd Some] t] fd, of f] Some by (simp add: s')
qed (use inv run in \<open>simp add: close_fd_def\<close>)

lemma close_fds_inv: "for_each fds close_fd s = Inr s' \<Longrightarrow> fd_inv h s \<Longrightarrow> \<forall>fd\<in>set fds. fd < NOFILE \<Longrightarrow> fd_inv h s'"
proof (induction fds arbitrary: s)
  case (Cons fd fds)
  then obtain t where t: "close_fd fd s = Inr t" "for_each fds close_fd t = Inr s'" by (auto simp: bnd_eq_Inr)
  show ?case using Cons.IH [OF t(2)] close_fd_inv [OF Cons.prems(2) _ t(1)] Cons.prems(3) by simp
qed simp

lemma wakeup1_view [simp]: "fd_view (wakeup1 ch s) = fd_view s"
  by (simp add: fd_view_def wakeup1_def)

lemma reparent_view [simp]: "fd_view (fold reparent is s) = fd_view s"
proof (induction "is" arbitrary: s)
  case (Cons i "is")
  have "fd_view (reparent i s) = fd_view s" by (simp add: reparent_def Let_def fd_view_upd_proc)
  then show ?case using Cons.IH by simp
qed simp

lemma exit_ok:
  assumes inv: "fd_inv h s" and run: "exit s = Inr s'"
  shows "fd_ok h (fd_view s')"
proof -
  obtain t where t: "for_each [0..<NOFILE] close_fd s = Inr t" using run by (auto simp: exit_def bnd_eq_Inr split: if_splits)
  have it: "fd_inv h t" by (rule close_fds_inv [OF t inv]) simp
  note ok = fd_inv_ok [OF inv] and okt = fd_inv_ok [OF it]
  have len: "length (p_ofile (me s)) = NOFILE" using fd_view_ok(6) [OF ok(4,3)] by (simp add: me_def)
  then have none: "\<forall>fd<NOFILE. p_ofile (me t) ! fd = None" using close_fds_spec [OF t] ok(1,3) by auto
  obtain w where w: "fd_view w = fd_view t" "s' = upd_me (\<lambda>p. p\<lparr>p_state := ZOMBIE\<rparr>) w"
  proof -
    obtain x where x: "fd_view x = fd_view t" and s': "s' = (let s = upd_me (\<lambda>p. p\<lparr>p_cwd := None\<rparr>) x;
        s = wakeup1 (parent_chan (p_parent (me s))) s; s = fold reparent [0..<NPROC] s in upd_me (\<lambda>p. p\<lparr>p_state := ZOMBIE\<rparr>) s)"
      using run t by (auto simp: exit_def bnd_eq_Inr Let_def split: if_splits option.splits dest!: inode_view)
    have "fd_view (upd_me (\<lambda>p. p\<lparr>p_cwd := None\<rparr>) x) = fd_view x" by (rule fd_view_upd_me) simp_all
    then show ?thesis using x by (intro that [OF _ s' [unfolded Let_def]]) simp
  qed
  have iw: "fd_inv h w" using it fd_inv_view [OF w(1)] by simp
  have "p_ofile (me w) = p_ofile (me t)" "cur w = cur t"
    using w(1) okt fd_inv_ok [OF iw] by (auto simp: fd_view_def me_def list_eq_iff_nth_eq [of "map p_ofile _"])
  then show ?thesis unfolding w(2) upd_me_def
    by (intro proc_ok) (use iw none fd_inv_ok [OF iw] in \<open>auto simp: me_def\<close>)
qed

lemma wait_inv:
  assumes inv: "fd_inv h s" and run: "wait_scan s = Inr (r, s')"
  shows "fd_inv h s'"
proof (cases "List.find (\<lambda>i. p_parent (ptable s ! i) = Some (cur s) \<and> p_state (ptable s ! i) = ZOMBIE) [0..<NPROC]")
  case None
  have "fd_view (sleep_enter ch s) = fd_view s" for ch
    unfolding sleep_enter_def by (rule fd_view_upd_me) (use inv in \<open>auto simp: fd_inv_def dead_def\<close>)
  then show ?thesis using run None inv fd_inv_view by (auto simp: wait_scan_def Let_def split: if_splits)
next
  case (Some i)
  then have "dead (ptable s ! i)" by (auto simp: find_Some_iff dead_def)
  then have "fd_view s' = fd_view s"
    using run Some by (auto simp: wait_scan_def reap_def do_mem_def bnd_eq_Inr Let_def fd_view_upd_proc)
  then show ?thesis using inv fd_inv_view by blast
qed

text \<open>The other calls leave the view alone.\<close>

lemma on_mem_view: "on_mem f s = Inr (x, s') \<Longrightarrow> fd_view s' = fd_view s"
  by (auto simp: on_mem_def bnd_eq_Inr)

lemma if_mem_view: "(if a then on_mem f s else if b then on_mem g s else Inr (x, s)) = Inr (y, s') \<Longrightarrow> fd_view s' = fd_view s"
  by (auto split: if_splits dest: on_mem_view)

lemma growproc_view:
  assumes "growproc n s = Inr (r, s')"
  shows "fd_view s' = fd_view s"
proof -
  have u: "fd_view (upd_me (\<lambda>p. p\<lparr>p_sz := c\<rparr>) t) = fd_view t" for c and t :: "'a kern_scheme" by (rule fd_view_upd_me) simp_all
  let ?m = "if sint n > 0 then on_mem (\<lambda>m. allocuvm m (p_pgdir (me s)) (p_sz (me s)) (p_sz (me s) + n)) s
    else if sint n < 0 then on_mem (\<lambda>m. deallocuvm m (p_pgdir (me s)) (p_sz (me s)) (p_sz (me s) + n)) s else Inr (p_sz (me s), s)"
  obtain sz' t where m: "?m = Inr (sz', t)"
    and r: "(if sint n \<noteq> 0 \<and> sz' = 0 then Inr (-1, t) else Inr (0, upd_me (\<lambda>p. p\<lparr>p_sz := sz'\<rparr>) t)) = (Inr (r, s') :: (int \<times> 'a kern_scheme) res)"
    using assms unfolding growproc_def Let_def bnd_eq_Inr split_paired_Ex prod.case by blast
  from m have "fd_view t = fd_view s" by (rule if_mem_view)
  then show ?thesis using r u by (metis prod.inject sum.inject(2))
qed

lemma kill_view: "fd_view (snd (kill pid s)) = fd_view s"
proof -
  have "dead (p\<lparr>p_killed := True, p_state := (if p_state p = SLEEPING then RUNNABLE else p_state p)\<rparr>) = dead p" for p
    by (simp add: dead_def)
  then show ?thesis unfolding kill_def by (simp add: fd_view_upd_proc split: option.split)
qed

lemma exec_view:
  assumes q: "quiet_calls devsw (fd_view :: 'a kern_scheme \<Rightarrow> _)" and run: "exec devsw path argv s = Inr (r, s')"
  shows "fd_view s' = fd_view s"
proof -
  note qd = quiet_calls.axioms(1) [OF q]
  note frame = quiet_devices.readi_g [OF qd] iunlockput_view inode_view quiet_calls.namei_cwd_g [OF q] quiet_calls.on_mem_g [OF q]
    quiet_calls.do_mem_g [OF q] quiet_calls.load_segments_g [OF q] quiet_calls.exec_bad_g [OF q] quiet_calls.push_args_g [OF q]
  have commit: "fd_view u = fd_view t" if "exec_commit path entry pgdir sz sp as t = Inr (r, u)" for path entry pgdir sz sp as r and t u :: "'a kern_scheme"
    using that by (auto simp: exec_commit_def Let_def bnd_eq_Inr fd_view_upd_me split: if_splits dest!: frame)
  have stack: "fd_view u = fd_view t" if "exec_stack path argv entry pgdir sz t = Inr (r, u)" for path argv entry pgdir sz r and t u :: "'a kern_scheme"
    using that by (auto simp: exec_stack_def Let_def bnd_eq_Inr split: if_splits option.splits dest!: frame commit)
  show ?thesis using run by (auto simp: exec_def Let_def bnd_eq_Inr split: if_splits option.splits dest!: frame stack)
qed

lemma sys_exec_view: "quiet_calls devsw fd_view \<Longrightarrow> sys_exec devsw s = Inr (r, s') \<Longrightarrow> fd_view s' = fd_view s"
  by (auto simp: sys_exec_def bnd_eq_Inr split: option.splits dest: exec_view)

lemma sys_chdir_view:
  assumes q: "quiet_calls devsw fd_view" and run: "sys_chdir devsw s = Inr (r, s')"
  shows "fd_view s' = fd_view s"
proof -
  have u: "fd_view (upd_me (\<lambda>p. p\<lparr>p_cwd := c\<rparr>) t) = fd_view t" for c and t :: "'a kern_scheme" by (rule fd_view_upd_me) simp_all
  note frame = quiet_calls.namei_cwd_g [OF q] inode_view iunlockput_view
  obtain t path where t: "begin_op s = Inr t" "argstr 0 t = Inr path" using run by (auto simp: sys_chdir_def bnd_eq_Inr)
  obtain ip x where x: "(case path of None \<Rightarrow> Inr (None, t) | Some path \<Rightarrow> with_cwd path (\<lambda>c. namei devsw c path) t) = Inr (ip, x)"
    using run t by (auto simp: sys_chdir_def bnd_eq_Inr)
  then have "fd_view x = fd_view s" using t by (auto split: option.splits dest!: frame)
  moreover have "fd_view s' = fd_view x"
    using run t x by (auto simp: sys_chdir_def bnd_eq_Inr u split: option.splits if_splits dest!: inode_view iunlockput_view)
  ultimately show ?thesis by simp
qed

section \<open>All system calls\<close>

definition keeps :: "'a sysproc \<Rightarrow> bool" where
  "keeps f \<longleftrightarrow> (\<forall>h s out s'. f s = Inr (out, s') \<longrightarrow> fd_inv h s \<longrightarrow> fd_ok h (fd_view s') \<and> (out = Gone \<or> \<not> dead (me s')))"

lemma keepsI:
  assumes "\<And>h s out s'. f s = Inr (out, s') \<Longrightarrow> fd_inv h s \<Longrightarrow> fd_inv h s' \<or> out = Gone \<and> fd_ok h (fd_view s')"
  shows "keeps f"
  unfolding keeps_def using assms unfolding fd_inv_def by blast

lemma keeps_ret:
  assumes "\<And>h s r s'. fd_inv h s \<Longrightarrow> f s = Inr (r, s') \<Longrightarrow> fd_inv h s'"
  shows "keeps (ret f)"
proof (rule keepsI)
  fix h s out s'
  assume "ret f s = Inr (out, s')" "fd_inv h s"
  moreover from this(1) obtain r where "f s = Inr (r, s')" unfolding ret_def bnd_eq_Inr by auto
  ultimately show "fd_inv h s' \<or> out = Gone \<and> fd_ok h (fd_view s')" using assms by blast
qed

lemma keeps_view:
  assumes "\<And>s r s'. f s = Inr (r, s') \<Longrightarrow> fd_view s' = fd_view s"
  shows "keeps (ret f)"
  by (rule keeps_ret) (use assms fd_inv_view in blast)

lemma keeps_sysproc: "keeps (sys_exit :: 'a sysproc)" "keeps (sys_wait :: 'a sysproc)" "keeps (sys_sbrk :: 'a sysproc)" "keeps (sys_sleep :: 'a sysproc)"
proof -
  show "keeps (sys_exit :: 'a sysproc)" by (rule keepsI) (auto simp: sys_exit_def bnd_eq_Inr dest: exit_ok [rotated])
  show "keeps (sys_wait :: 'a sysproc)" by (rule keepsI) (auto simp: sys_wait_def bnd_eq_Inr simp del: split_paired_Ex dest: wait_inv [rotated])
  show "keeps (sys_sbrk :: 'a sysproc)"
    by (rule keepsI) (auto simp: sys_sbrk_def bnd_eq_Inr Let_def simp del: split_paired_Ex dest!: growproc_view [THEN fd_inv_view])
  have "fd_view (sleep_enter ch s) = fd_view s" if "\<not> dead (me s)" for ch and s :: "'a kern_scheme"
    unfolding sleep_enter_def by (rule fd_view_upd_me) (use that in \<open>auto simp: dead_def\<close>)
  then have "fd_inv h (sleep_enter ch s)" if "fd_inv h s" for h ch and s :: "'a kern_scheme"
    using that fd_inv_view [of "sleep_enter ch s" s h] by (simp add: fd_inv_def)
  then show "keeps (sys_sleep :: 'a sysproc)"
    by (intro keepsI) (auto simp: sys_sleep_def sleep_test_def bnd_eq_Inr split: if_splits)
qed

lemma keeps_calls:
  assumes q: "quiet_calls devsw (fd_view :: 'a kern_scheme \<Rightarrow> _)"
  shows "\<forall>(n, f)\<in>set (syscalls devsw). keeps f"
proof -
  have k: "fd_view s' = fd_view s" if "kill pid s = (r, s')" for pid r and s s' :: "'a kern_scheme" using kill_view [of pid s] that by simp
  have p: "keeps (ret (sys_kill :: 'a call))" "keeps (ret (sys_getpid :: 'a call))" "keeps (ret (sys_uptime :: 'a call))" "keeps (ret (sys_dedup :: 'a call))" "keeps (ret (sys_freepages :: 'a call))"
    by (rule keeps_view, auto simp: sys_kill_def sys_getpid_def sys_uptime_def sys_dedup_def sys_freepages_def do_mem_def bnd_eq_Inr
      split: option.splits dest: k)+
  have v: "keeps (ret (sys_read devsw))" "keeps (ret (sys_exec devsw))" "keeps (ret (sys_fstat :: 'a call))" "keeps (ret (sys_chdir devsw))"
    "keeps (ret (sys_write devsw))" "keeps (ret (sys_mknod devsw))" "keeps (ret (sys_unlink devsw))" "keeps (ret (sys_link devsw))"
    "keeps (ret (sys_mkdir devsw))"
    using q by (blast intro: keeps_view quiet_calls.sys_read_g sys_exec_view quiet_calls.sys_fstat_g sys_chdir_view
      quiet_calls.sys_write_g quiet_calls.sys_mknod_g quiet_calls.sys_unlink_g quiet_calls.sys_link_g quiet_calls.sys_mkdir_g)+
  have d: "keeps (ret (sys_fork :: 'a call))" "keeps (ret (sys_pipe :: 'a call))" "keeps (ret (sys_dup :: 'a call))" "keeps (ret (sys_open devsw))" "keeps (ret (sys_close :: 'a call))"
    by (rule keeps_ret, auto simp: sys_fork_def intro: fork_inv sys_pipe_inv sys_dup_inv sys_open_inv [OF q] sys_close_inv)+
  show ?thesis by (simp add: syscalls_def p v d keeps_sysproc)
qed

lemma set_rax_inv: "fd_inv h (set_rax v s) = fd_inv h s"
  unfolding set_rax_def by (rule fd_inv_view, rule fd_view_upd_me) simp_all

lemma exit_if_killed_keeps:
  assumes "fd_inv h s" and "exit_if_killed s k = Inr (out, s')"
    and "k s = Inr (out, s') \<Longrightarrow> fd_ok h (fd_view s') \<and> (out = Gone \<or> \<not> dead (me s'))"
  shows "fd_ok h (fd_view s') \<and> (out = Gone \<or> \<not> dead (me s'))"
  using assms exit_ok [OF assms(1)] by (auto simp: exit_if_killed_def bnd_eq_Inr split: if_splits)

text \<open>
  C16. The reference count of every entry of the table of open files is the number of descriptors, in
  all processes together, that refer to it. Every system call keeps it so, on its error paths and when
  it ends in the exit of a killed process as well; in between no descriptor refers to an entry outside
  the table, and unused and zombie processes have no descriptors. Device drivers must not touch
  processes or open files.
\<close>

theorem open_files_counted:
  assumes "devs_keep devsw fd_view" and "fd_ok (\<lambda>_. 0) (fd_view s)" and "\<not> dead (me s)" and run: "syscall devsw tf s = Inr (out, s')"
  shows "fd_ok (\<lambda>_. 0) (fd_view s') \<and> (out = Gone \<or> \<not> dead (me s'))"
proof (rule exit_if_killed_keeps [OF _ run [unfolded syscall_def]])
  show inv: "fd_inv (\<lambda>_. 0) s" using assms by (simp add: fd_inv_def)
  let ?s = "upd_me (\<lambda>p. p\<lparr>p_tf := tf\<rparr>) s"
  have i: "fd_inv (\<lambda>_. 0) ?s" using inv fd_inv_view [of ?s s] by (simp add: fd_view_upd_me)
  assume "(let s = ?s in bnd (case map_of (syscalls devsw) (unat (tf_rax tf)) of None \<Rightarrow> Inr (Ret (- 1), s) | Some f \<Rightarrow> f s)
      (\<lambda>(out, s). case out of Ret v \<Rightarrow> exit_if_killed (set_rax v s) (\<lambda>s. Inr (Ret v, s)) | _ \<Rightarrow> Inr (out, s))) = Inr (out, s')"
  then obtain o1 t where t: "(case map_of (syscalls devsw) (unat (tf_rax tf)) of None \<Rightarrow> Inr (Ret (- 1), ?s) | Some f \<Rightarrow> f ?s) = Inr (o1, t)"
    and rest: "(case o1 of Ret v \<Rightarrow> exit_if_killed (set_rax v t) (\<lambda>s. Inr (Ret v, s)) | _ \<Rightarrow> Inr (o1, t)) = (Inr (out, s') :: (sys_end \<times> 'a kern_scheme) res)"
    unfolding Let_def bnd_eq_Inr split_paired_Ex prod.case by blast
  have k: "fd_ok (\<lambda>_. 0) (fd_view t) \<and> (o1 = Gone \<or> \<not> dead (me t))"
  proof (cases "map_of (syscalls devsw) (unat (tf_rax tf))")
    case None
    then show ?thesis using t i by (auto simp: fd_inv_def)
  next
    case (Some f)
    then have "keeps f" using keeps_calls [OF quiet_fds [OF assms(1)]] by (auto dest!: map_of_SomeD)
    then show ?thesis using t Some i by (auto simp: keeps_def)
  qed
  show "fd_ok (\<lambda>_. 0) (fd_view s') \<and> (out = Gone \<or> \<not> dead (me s'))"
  proof (cases o1)
    case (Ret v)
    then have "fd_inv (\<lambda>_. 0) (set_rax v t)" using k by (simp add: set_rax_inv) (simp add: fd_inv_def)
    then show ?thesis using rest Ret exit_if_killed_keeps by (fastforce simp: fd_inv_def)
  qed (use rest k in auto)
qed

text \<open>A process with one open file duplicates its descriptor.\<close>

definition demo_open :: console where
  "demo_open = upd_me (\<lambda>p. p\<lparr>p_ofile := (p_ofile p)[0 := Some 0]\<rparr>) (upd_file 0 (\<lambda>x. x\<lparr>f_ref := 1\<rparr>) demo_console)"

lemma demo_console_files [simp]: "ftable demo_console = replicate NFILE demo_nofile"
  by (simp add: demo_console_def kern.defs demo_kern_def filesys.defs fsys.defs demo_files_def)

lemma demo_open_ok: "fd_ok (\<lambda>_. 0) (fd_view demo_open)"
proof -
  have len: "length (ptable demo_console) = NPROC" "length (ftable demo_console) = NFILE" "cur demo_console = 1"
    by (simp_all add: demo_procs_def NPROC_def)
  have none: "p \<in> set (ptable demo_console) \<Longrightarrow> p_ofile p = replicate NOFILE None" for p
    by (auto simp: demo_procs_def demo_proc_def)
  then have "Some f \<notin> set (concat (map p_ofile (ptable demo_console)))" for f by auto
  then have z: "descriptors f (fd_view demo_console) = 0" for f by (simp add: descriptors_def count_list_0_iff)
  have r: "f < NFILE \<Longrightarrow> f_ref (ftable demo_console ! f) = 0" for f by (simp add: demo_nofile_def)
  have p: "i < NPROC \<Longrightarrow> p_ofile (ptable demo_console ! i) = replicate NOFILE None" for i using none len nth_mem by metis
  have "fd_ok (\<lambda>_. 0) (fd_view demo_console)" unfolding fd_ok_def using len r p z by (auto simp: NPROC_def)
  then have a: "fd_ok (own 0 1 (\<lambda>_. 0)) (add_ref 0 1 (fd_view demo_console))" by (rule fd_ok_ref)
  have "fd_ok (own 0 (-1) (own 0 1 (\<lambda>_. 0))) (put 1 0 (Some 0) (add_ref 0 1 (fd_view demo_console)))"
    by (rule fd_ok_fill [OF a]) (use p [of 1] len in \<open>auto simp: NPROC_def NOFILE_def NFILE_def demo_procs_def dead_def\<close>)
  moreover have "fd_view (upd_file 0 (\<lambda>x. x\<lparr>f_ref := 1\<rparr>) demo_console) = add_ref 0 1 (fd_view demo_console)"
    by (rule fd_view_upd_file) (use len r [of 0] in \<open>auto simp: NFILE_def\<close>)
  ultimately show ?thesis
    using len by (simp add: demo_open_def fd_view_put_me upd_file_def NPROC_def)
qed

theorem open_files_counted_witness:
  "let tf = zero_tf\<lparr>tf_rax := 10\<rparr>
   in \<exists>s'. syscall console_devsw tf demo_open = Inr (Ret 1, s') \<and> fd_ok (\<lambda>_. 0) (fd_view s') \<and> f_ref (ftable s' ! 0) = 2"
proof -
  let ?tf = "zero_tf\<lparr>tf_rax := 10\<rparr>" and ?s = "upd_me (\<lambda>p. p\<lparr>p_tf := zero_tf\<lparr>tf_rax := 10\<rparr>\<rparr>) demo_open"
  let ?t = "upd_file 0 (\<lambda>x. x\<lparr>f_ref := f_ref x + 1\<rparr>) (upd_me (\<lambda>p. p\<lparr>p_ofile := (p_ofile p)[1 := Some 0]\<rparr>) ?s)"
  have len: "length (ptable demo_open) = NPROC" "cur demo_open = 1" "1 < NPROC" "0 < NFILE"
    by (simp_all add: demo_open_def upd_file_def demo_procs_def NPROC_def NFILE_def)
  have me: "me demo_open = demo_proc\<lparr>p_state := RUNNING, p_pid := 2, p_parent := Some 0, p_cwd := Some 0, p_ofile := (replicate NOFILE None)[0 := Some 0]\<rparr>"
    by (simp add: demo_open_def me_def upd_me_def upd_proc_def upd_file_def demo_procs_def demo_proc_def)
  have mes: "me ?s = (me demo_open)\<lparr>p_tf := ?tf\<rparr>" using len by (simp add: me_def upd_me_def upd_proc_def)
  have ref: "f_ref (ftable demo_open ! 0) = 1" "length (ftable demo_open) = NFILE"
    using len by (simp_all add: demo_open_def upd_file_def upd_me_def upd_proc_def)
  have zero: "tf_rdi zero_tf = 0" by (simp add: zero_tf_def)
  have a: "argfd 0 ?s = Inr (Some (0, 0))" by (simp add: argfd_def argint_def fetcharg_def mes me zero NOFILE_def)
  have "[0..<NOFILE] = 0 # 1 # [2..<NOFILE]" by (simp add: NOFILE_def upt_conv_Cons)
  then have b: "fdalloc 0 ?s = (Some 1, upd_me (\<lambda>p. p\<lparr>p_ofile := (p_ofile p)[1 := Some 0]\<rparr>) ?s)"
    by (simp add: fdalloc_def mes me NOFILE_def)
  have "ftable (upd_me g u) = ftable u" for g and u :: console by (simp add: upd_me_def upd_proc_def)
  then have c: "sys_dup ?s = Inr (1, ?t)" using ref by (simp add: sys_dup_def a b filedup_def)
  have k: "\<not> p_killed (me demo_open)" "\<not> p_killed (me (set_rax 1 ?t))"
    using len me unfolding me_def by (simp_all add: demo_proc_def) (simp add: set_rax_def upd_me_def upd_proc_def upd_file_def)
  then have run: "syscall console_devsw ?tf demo_open = Inr (Ret 1, set_rax 1 ?t)"
    using c by (simp add: syscall_def exit_if_killed_def syscalls_def ret_def)
  have "devs_keep console_devsw (fd_view :: console \<Rightarrow> _)" by (rule console_devs_keep) (simp add: fd_view_def)
  moreover have "\<not> dead (me demo_open)" by (simp add: me dead_def)
  ultimately show ?thesis
    using run open_files_counted [OF _ demo_open_ok _ run] ref len by (simp add: set_rax_def upd_me_def upd_proc_def upd_file_def)
qed

end
