(* ===== verification/Kbd.thy ===== *)
theory Kbd
  imports Console
begin

text \<open>
  The keyboard (\<^verbatim>\<open>kbd.c\<close>, \<^verbatim>\<open>kbd.h\<close>) and the receiving side of the serial line (\<^verbatim>\<open>uart.c\<close>): from scan codes to
  the characters that the console is given. The bytes that wait at the port of a device are a list.
\<close>

section \<open>Key tables\<close>

definition SHIFT :: u8 where "SHIFT = 1"
definition CTL :: u8 where "CTL = 2"
definition ALT :: u8 where "ALT = 4"
definition CAPSLOCK :: u8 where "CAPSLOCK = 8"
definition NUMLOCK :: u8 where "NUMLOCK = 16"
definition SCROLLLOCK :: u8 where "SCROLLLOCK = 32"
definition E0ESC :: u8 where "E0ESC = 64"

text \<open>
  A table with the entries \<open>row\<close> from index 0 on and the entries \<open>special\<close> at their indices; everything
  else is \<^verbatim>\<open>NO\<close>, which is 0.
\<close>

definition key_table :: "u8 list \<Rightarrow> (u8 \<times> u8) list \<Rightarrow> u8 \<Rightarrow> u8" where
  "key_table row special d =
     (case map_of special d of Some c \<Rightarrow> c
      | None \<Rightarrow> if unat d < length row then row ! unat d else 0)"

definition codes :: "string \<Rightarrow> u8 list" where
  "codes t = map of_char t"

definition shiftcode :: "u8 \<Rightarrow> u8" where
  "shiftcode = key_table [] [(0x1D, CTL), (0x2A, SHIFT), (0x36, SHIFT), (0x38, ALT), (0x9D, CTL), (0xB8, ALT)]"

definition togglecode :: "u8 \<Rightarrow> u8" where
  "togglecode = key_table [] [(0x3A, CAPSLOCK), (0x45, NUMLOCK), (0x46, SCROLLLOCK)]"

text \<open>\<^verbatim>\<open>KEY_UP\<close>, \<^verbatim>\<open>KEY_DN\<close>, \<^verbatim>\<open>KEY_PGUP\<close>, \<^verbatim>\<open>KEY_PGDN\<close>, \<^verbatim>\<open>KEY_LF\<close>, \<^verbatim>\<open>KEY_RT\<close>, \<^verbatim>\<open>KEY_HOME\<close>, \<^verbatim>\<open>KEY_END\<close>, \<^verbatim>\<open>KEY_INS\<close>, \<^verbatim>\<open>KEY_DEL\<close>.\<close>

definition cursor_keys :: "(u8 \<times> u8) list" where
  "cursor_keys = [(0xC8, 0xE2), (0xD0, 0xE3), (0xC9, 0xE6), (0xD1, 0xE7), (0xCB, 0xE4), (0xCD, 0xE5),
     (0x97, 0xE0), (0xCF, 0xE1), (0xD2, 0xE8), (0xD3, 0xE9)]"

text \<open>The number pad, from index \<^verbatim>\<open>0x37\<close> to \<^verbatim>\<open>0x57\<close>.\<close>

definition keypad :: "u8 list" where
  "keypad = codes ''*'' @ [0] @ codes '' '' @ replicate 13 0 @ codes ''789-456+1230.'' @ replicate 4 0"

definition normalmap :: "u8 \<Rightarrow> u8" where
  "normalmap = key_table
     ([0, 0x1B] @ codes ''1234567890-='' @ [8, 9] @ codes ''qwertyuiop[]'' @ [10, 0] @ codes ''asdfghjkl;''
      @ [39, 96, 0, 92] @ codes ''zxcvbnm,./'' @ [0] @ keypad)
     ((0x9C, 10) # (0xB5, 47) # cursor_keys)"

definition shiftmap :: "u8 \<Rightarrow> u8" where
  "shiftmap = key_table
     ([0, 0x1B] @ codes ''!@#$%^&*()_+'' @ [8, 9] @ codes ''QWERTYUIOP{}'' @ [10, 0] @ codes ''ASDFGHJKL:''
      @ [34, 126, 0, 124] @ codes ''ZXCVBNM<>?'' @ [0] @ keypad)
     ((0x9C, 10) # (0xB5, 47) # cursor_keys)"

text \<open>\<^verbatim>\<open>C(x)\<close>, as an entry of a table of bytes.\<close>

definition ctl :: "u8 \<Rightarrow> u8" where
  "ctl x = x - 64"

definition ctlmap :: "u8 \<Rightarrow> u8" where
  "ctlmap = key_table
     (replicate 16 0 @ map ctl (codes ''QWERTYUIOP'') @ [0, 0, 13, 0] @ map ctl (codes ''ASDFGHJKL'')
      @ [0, 0, 0, 0, ctl 92] @ map ctl (codes ''ZXCVBNM'') @ [0, 0, ctl 47, 0, 0])
     ((0x9C, 13) # (0xB5, ctl 47) # cursor_keys)"

section \<open>Scan codes\<close>

text \<open>\<^verbatim>\<open>charcode[shift & (CTL | SHIFT)]\<close>.\<close>

definition charcode :: "u8 \<Rightarrow> u8 \<Rightarrow> u8" where
  "charcode shift =
     (if shift AND CTL \<noteq> 0 then ctlmap else if shift AND SHIFT \<noteq> 0 then shiftmap else normalmap)"

definition swap_case :: "u8 \<Rightarrow> u8" where
  "swap_case c = (if 97 \<le> c \<and> c \<le> 122 then c - 32 else if 65 \<le> c \<and> c \<le> 90 then c + 32 else c)"

text \<open>
  The scan code \<open>code\<close> with the modifiers \<open>shift\<close>, a static variable of \<^verbatim>\<open>kbdgetc\<close>. Only its low eight bits
  are ever set.
\<close>

definition key_press :: "u8 \<Rightarrow> u8 \<Rightarrow> u8 \<times> u8" where
  "key_press shift code =
     (let shift = (shift OR shiftcode code) XOR togglecode code;
          c = charcode shift code
      in (if shift AND CAPSLOCK \<noteq> 0 then swap_case c else c, shift))"

definition scan_code :: "u8 \<Rightarrow> u8 \<Rightarrow> u8 \<times> u8" where
  "scan_code shift code =
     (if code = 0xE0 then (0, shift OR E0ESC)
      else if code AND 0x80 \<noteq> 0
      then let code = (if shift AND E0ESC \<noteq> 0 then code else code AND 0x7F)
           in (0, shift AND NOT (shiftcode code OR E0ESC))
      else if shift AND E0ESC \<noteq> 0 then key_press (shift AND NOT E0ESC) (code OR 0x80)
      else key_press shift code)"

definition kbdgetc :: "u8 list \<Rightarrow> u8 \<Rightarrow> int \<times> u8 list \<times> u8" where
  "kbdgetc port shift =
     (case port of [] \<Rightarrow> (-1, [], shift)
      | code # port \<Rightarrow> let (c, shift) = scan_code shift code in (uint c, port, shift))"

definition uartgetc :: "bool \<Rightarrow> u8 list \<Rightarrow> int \<times> u8 list" where
  "uartgetc on port =
     (if \<not> on then (-1, port) else case port of [] \<Rightarrow> (-1, []) | c # port \<Rightarrow> (uint c, port))"

text \<open>The characters that \<^verbatim>\<open>consoleintr\<close> gets from \<^verbatim>\<open>kbdgetc\<close>, up to the first negative result.\<close>

function kbd_chars :: "u8 list \<Rightarrow> u8 \<Rightarrow> int list \<times> u8" where
  "kbd_chars port shift =
     (let (c, port', shift') = kbdgetc port shift
      in if c < 0 then ([], shift') else let (cs, shift') = kbd_chars port' shift' in (c # cs, shift'))"
  by pat_completeness auto
termination
  by (relation "measure (\<lambda>(port, shift). length port)") (auto simp: kbdgetc_def split: list.splits prod.splits)

declare kbd_chars.simps [simp del]

definition kbdintr :: "(proc \<Rightarrow> u64 list) \<Rightarrow> u8 list \<Rightarrow> u8 \<Rightarrow> 'a console_scheme \<Rightarrow> (u8 \<times> 'a console_scheme) res" where
  "kbdintr pcs port shift s =
     (let (cs, shift) = kbd_chars port shift in bnd (consoleintr pcs cs s) (\<lambda>s. Inr (shift, s)))"

function uart_chars :: "bool \<Rightarrow> u8 list \<Rightarrow> int list" where
  "uart_chars on port =
     (let (c, port') = uartgetc on port in if c < 0 then [] else c # uart_chars on port')"
  by pat_completeness auto
termination
  by (relation "measure (\<lambda>(on, port). length port)") (auto simp: uartgetc_def split: list.splits if_splits)

declare uart_chars.simps [simp del]

definition uartintr :: "(proc \<Rightarrow> u64 list) \<Rightarrow> u8 list \<Rightarrow> 'a console_scheme \<Rightarrow> 'a console_scheme res" where
  "uartintr pcs port s = consoleintr pcs (uart_chars (uart s) port) s"

text \<open>
  What \<^verbatim>\<open>uartearlyinit\<close> writes to the ports of the device, and what it does when the status register reads
  \<open>status\<close>.
\<close>

definition COM1 :: u16 where "COM1 = 0x3f8"

definition uart_setup :: "(u16 \<times> u8) list" where
  "uart_setup = [(COM1 + 2, 0), (COM1 + 3, 0x80), (COM1 + 0, 12), (COM1 + 1, 0), (COM1 + 3, 0x03), (COM1 + 4, 0), (COM1 + 1, 0x01)]"

definition uartearlyinit :: "u8 \<Rightarrow> 'a console_scheme \<Rightarrow> (u16 \<times> u8) list \<times> 'a console_scheme" where
  "uartearlyinit status s =
     (uart_setup,
      if status = 0xFF then s else fold uartputc (map of_char ''xv6...'' @ [10]) (s\<lparr>uart := True\<rparr>))"

section \<open>Typing\<close>

lemma kbd_chars_Nil [simp]: "kbd_chars [] shift = ([], shift)"
  by (simp add: kbd_chars.simps [of "[]"] kbdgetc_def)

lemma kbd_chars_Cons:
  "kbd_chars (d # port) shift =
     (let (c, shift') = scan_code shift d; (cs, shift'') = kbd_chars port shift' in (uint c # cs, shift''))"
  by (simp add: kbd_chars.simps [of "d # port"] kbdgetc_def Let_def split: prod.splits)

lemma kbd_chars_append:
  "kbd_chars (p @ q) shift =
     (let (cs, shift') = kbd_chars p shift; (ds, shift'') = kbd_chars q shift' in (cs @ ds, shift''))"
  by (induction p arbitrary: shift) (simp_all add: kbd_chars_Cons Let_def split: prod.splits)

lemma kbd_chars_range: "\<forall>c\<in>set (fst (kbd_chars port shift)). 0 \<le> c \<and> c < 256"
proof (induction port arbitrary: shift)
  case (Cons d port)
  obtain c sh where sc: "scan_code shift d = (c, sh)" by fastforce
  obtain cs sh' where ch: "kbd_chars port sh = (cs, sh')" by fastforce
  show ?case using Cons.IH [of sh] uint_bounded [of c] by (simp add: kbd_chars_Cons sc ch)
qed simp

lemma uart_chars_map: "uart_chars on port = (if on then map uint port else [])"
proof (induction port)
  case Nil
  then show ?case by (simp add: uart_chars.simps [of on "[]"] uartgetc_def)
next
  case (Cons c port)
  then show ?case by (cases on) (simp_all add: uart_chars.simps [of _ "c # port"] uartgetc_def)
qed

text \<open>
  The characters the console gets from the keyboard edit its line as if they had been typed one by one,
  whatever keys were pressed and released, apart from the two that list the processes and reset the machine.
\<close>

lemma kbdintr_refines:
  assumes "screen_ok s" and "in_inv (input_of s)" and "set (fst (kbd_chars port shift)) \<inter> {16, 26} = {}"
  shows "\<exists>s'. kbdintr pcs port shift s = Inr (snd (kbd_chars port shift), s') \<and> screen_ok s' \<and> in_inv (input_of s')
    \<and> (ready (input_of s'), edit (input_of s'))
        = fold key_spec (fst (kbd_chars port shift)) (ready (input_of s), edit (input_of s))"
proof -
  have "\<forall>c\<in>set (fst (kbd_chars port shift)). 0 \<le> c \<and> c < 256 \<and> c \<noteq> 16 \<and> c \<noteq> 26"
    using kbd_chars_range [of port shift] assms(3) by auto
  from consoleintr_refines [OF assms(1,2) this, of pcs] show ?thesis
    by (auto simp: kbdintr_def split: prod.splits)
qed

text \<open>
  A key that is pressed and released, alone or while the left shift key is down, gives the character of its
  table and leaves no modifier set; the other codes give 0, which the console ignores.
\<close>

lemma release_code:
  assumes "d AND 0x80 = (0 :: u8)"
  shows "(d OR 0x80) AND 0x7F = d" "(d OR 0x80) AND 0x80 \<noteq> 0"
proof -
  have "(0x80 OR 0x7F :: u8) = - 1" by simp
  then have "d = d AND (0x80 OR 0x7F)" by (simp only: bit.conj_one_right)
  also have "\<dots> = (d AND 0x80) OR (d AND 0x7F)" by (rule bit.conj_disj_distrib)
  finally have "d AND 0x7F = d" using assms by simp
  then show "(d OR 0x80) AND 0x7F = d" by (simp add: bit.conj_disj_distrib2)
  show "(d OR 0x80) AND 0x80 \<noteq> 0" by (simp add: bit.conj_disj_distrib2)
qed

definition plain_key :: "u8 \<Rightarrow> bool" where
  "plain_key d \<longleftrightarrow> d AND 0x80 = 0 \<and> d \<noteq> 0x60 \<and> shiftcode d = 0 \<and> togglecode d = 0"

lemma plain_key_codes:
  assumes "plain_key d"
  shows "d \<noteq> 0xE0" "d OR 0x80 \<noteq> 0xE0" "shiftcode ((d OR 0x80) AND 0x7F) = 0"
proof -
  note d = assms [unfolded plain_key_def]
  show "d \<noteq> 0xE0" using d by auto
  show "d OR 0x80 \<noteq> 0xE0"
  proof
    assume "d OR 0x80 = 0xE0"
    then have "(d OR 0x80) AND 0x7F = 0xE0 AND 0x7F" by simp
    then show False using release_code(1) [of d] d by simp
  qed
  show "shiftcode ((d OR 0x80) AND 0x7F) = 0" using release_code(1) [of d] d by simp
qed

lemma stroke:
  assumes "plain_key d"
  shows "kbd_chars [d, d OR 0x80] 0 = ([uint (normalmap d), 0], 0)"
    "kbd_chars [0x2A, d, d OR 0x80, 0xAA] 0 = ([0, uint (shiftmap d), 0, 0], 0)"
proof -
  note c = plain_key_codes [OF assms] release_code(2) [of d] and d = assms [unfolded plain_key_def]
  have p: "scan_code 0 d = (normalmap d, 0)" "scan_code 0 (d OR 0x80) = (0, 0)"
    using c d by (simp_all add: scan_code_def key_press_def charcode_def Let_def)
  show "kbd_chars [d, d OR 0x80] 0 = ([uint (normalmap d), 0], 0)" by (simp add: kbd_chars_Cons p)
  have q: "scan_code 0 0x2A = (0, 1)" "scan_code 1 d = (shiftmap d, 1)" "scan_code 1 (d OR 0x80) = (0, 1)" "scan_code 1 0xAA = (0, 0)"
    using c d
    by (simp_all add: scan_code_def key_press_def charcode_def Let_def shiftcode_def togglecode_def key_table_def shiftmap_def keypad_def
        codes_def cursor_keys_def SHIFT_def CTL_def CAPSLOCK_def E0ESC_def)
  show "kbd_chars [0x2A, d, d OR 0x80, 0xAA] 0 = ([0, uint (shiftmap d), 0, 0], 0)" by (simp add: kbd_chars_Cons q)
qed

end
