(* ===== verification/Textutils.thy ===== *)
theory Textutils
  imports Ulib
begin

text \<open>
  The user programs that work on text: \<^verbatim>\<open>grep\<close>, \<^verbatim>\<open>wc\<close>, \<^verbatim>\<open>cat\<close> and \<^verbatim>\<open>echo\<close>. What a descriptor
  delivers is a list of chunks, one per \<^verbatim>\<open>read\<close> that is large enough; \<open>None\<close> is a read that fails, an
  empty chunk or the end of the list the end of the file. A program returns the bytes it writes, each
  with the descriptor it writes them to.
\<close>

type_synonym source = "u8 list option list"
type_synonym writes = "(nat \<times> u8 list) list"

fun uread :: "nat \<Rightarrow> source \<Rightarrow> int \<times> u8 list \<times> source" where
  "uread n [] = (0, [], [])"
| "uread n (None # inp) = (-1, [], inp)"
| "uread n (Some c # inp) = (if length c \<le> n then (int (length c), c, inp) else (int n, take n c, Some (drop n c) # inp))"

definition ascii_bytes :: "string \<Rightarrow> u8 list" where
  "ascii_bytes t = map (\<lambda>c. of_char c) t"

definition left :: "source \<Rightarrow> nat" where
  "left inp = sum_list (map (\<lambda>c. case c of None \<Rightarrow> 0 | Some c \<Rightarrow> length c) inp)"

lemma uread_left: "uread n inp = (r, data, inp') \<Longrightarrow> 0 < r \<Longrightarrow> left inp' < left inp \<and> data \<noteq> []"
  by (induction n inp rule: uread.induct) (auto simp: left_def split: if_splits)

section \<open>The pattern matcher of grep\<close>

text \<open>
  Patterns and texts are the bytes of the strings without the final zero byte. \<^verbatim>\<open>*\<close> is 42, \<^verbatim>\<open>$\<close> is 36,
  \<^verbatim>\<open>.\<close> is 46 and \<^verbatim>\<open>^\<close> is 94.
\<close>

function matchhere :: "u8 list \<Rightarrow> u8 list \<Rightarrow> bool"
  and matchstar :: "u8 \<Rightarrow> u8 list \<Rightarrow> u8 list \<Rightarrow> bool" where
  "matchhere re text =
     (case re of [] \<Rightarrow> True
      | c # re' \<Rightarrow>
          if re' \<noteq> [] \<and> hd re' = 42 then matchstar c (tl re') text
          else if c = 36 \<and> re' = [] then text = []
          else if text \<noteq> [] \<and> (c = 46 \<or> c = hd text) then matchhere re' (tl text)
          else False)"
| "matchstar c re text =
     (if matchhere re text then True
      else if text \<noteq> [] \<and> (hd text = c \<or> c = 46) then matchstar c re (tl text)
      else False)"
  by pat_completeness auto
termination
  by (relation "measures [\<lambda>x. case x of Inl (re, text) \<Rightarrow> length re | Inr (c, re, text) \<Rightarrow> length re,
        \<lambda>x. case x of Inl (re, text) \<Rightarrow> 0 | Inr (c, re, text) \<Rightarrow> Suc (length text)]") (auto simp: neq_Nil_conv)

declare matchhere.simps [simp del] matchstar.simps [simp del]

fun match_from :: "u8 list \<Rightarrow> u8 list \<Rightarrow> bool" where
  "match_from re [] = matchhere re []"
| "match_from re (x # text) = (matchhere re (x # text) \<or> match_from re text)"

definition match :: "u8 list \<Rightarrow> u8 list \<Rightarrow> bool" where
  "match re text = (if re \<noteq> [] \<and> hd re = 94 then matchhere (tl re) text else match_from re text)"

section \<open>grep\<close>

text \<open>
  The lines in the buffer from \<^verbatim>\<open>p\<close> on: what is printed, and the bytes at the final \<^verbatim>\<open>p\<close>. A zero byte
  ends the search for a newline.
\<close>

lemma tl_drop_less: "\<not> length p \<le> k \<Longrightarrow> length (tl (drop k p)) < length p"
  by simp

function grep_lines :: "u8 list \<Rightarrow> u8 list \<Rightarrow> writes \<times> u8 list" where
  "grep_lines pat p =
     (let line = takeWhile (\<lambda>c. c \<noteq> 0 \<and> c \<noteq> 10) p; rest = drop (length line) p
      in if rest \<noteq> [] \<and> hd rest = 10
         then let (out, p') = grep_lines pat (tl rest)
           in (if match pat line then (1, line @ [10]) # out else out, p')
         else ([], p))"
  by pat_completeness auto
termination
  by (relation "measure (\<lambda>(pat, p). length p)") (auto intro!: tl_drop_less)

declare grep_lines.simps [simp del]

definition GREP_BUF :: nat where "GREP_BUF = 1024"

function grep_loop :: "u8 list \<Rightarrow> u8 list \<Rightarrow> source \<Rightarrow> writes" where
  "grep_loop pat b inp =
     (let (n, data, inp') = uread (GREP_BUF - length b - 1) inp
      in if n > 0
         then let (out, p) = grep_lines pat (b @ data)
           in out @ grep_loop pat (if length p = length (b @ data) then [] else p) inp'
         else [])"
  by pat_completeness auto
termination
  by (relation "measure (\<lambda>(pat, b, inp). left inp)") (auto dest: uread_left [OF sym])

declare grep_loop.simps [simp del]

definition grep :: "u8 list \<Rightarrow> source \<Rightarrow> writes" where
  "grep pat inp = grep_loop pat [] inp"
text \<open>
  The file argument number \<open>i\<close> and its contents, or the message about the first one that cannot be
  opened. \<open>run\<close> is the work on one file: what it writes, and whether the program goes on.
\<close>

fun each_file :: "(u8 list \<Rightarrow> source option) \<Rightarrow> u8 list \<Rightarrow> (u8 list \<Rightarrow> source \<Rightarrow> writes \<times> bool) \<Rightarrow> u8 list list \<Rightarrow> writes" where
  "each_file files msg run [] = []"
| "each_file files msg run (a # as) =
     (case files a of None \<Rightarrow> [(1, msg @ a @ [10])]
      | Some inp \<Rightarrow> (case run a inp of (out, ok) \<Rightarrow> out @ (if ok then each_file files msg run as else [])))"

definition grep_main :: "(u8 list \<Rightarrow> source option) \<Rightarrow> source \<Rightarrow> u8 list list \<Rightarrow> writes" where
  "grep_main files stdin argv =
     (if length argv \<le> 1 then [(2, ascii_bytes ''usage: grep pattern [file ...]'' @ [10])]
      else if length argv \<le> 2 then grep (argv ! 1) stdin
      else each_file files (ascii_bytes ''grep: cannot open '') (\<lambda>_ inp. (grep (argv ! 1) inp, True)) (drop 2 argv))"

section \<open>wc, cat and echo\<close>

record counts =
  wc_l :: int
  wc_w :: int
  wc_c :: int
  inword :: bool

definition is_space :: "u8 \<Rightarrow> bool" where
  "is_space c \<longleftrightarrow> c \<in> {32, 13, 9, 10, 11}"

definition wc_byte :: "u8 \<Rightarrow> counts \<Rightarrow> counts" where
  "wc_byte c k =
     (let k = k\<lparr>wc_c := wc_c k + 1\<rparr>; k = (if c = 10 then k\<lparr>wc_l := wc_l k + 1\<rparr> else k)
      in if is_space c then k\<lparr>inword := False\<rparr>
         else if \<not> inword k then k\<lparr>wc_w := wc_w k + 1, inword := True\<rparr> else k)"

definition WC_BUF :: nat where "WC_BUF = 512"

text \<open>The counts when the reads have come to an end, and whether they ended with an error.\<close>

function wc_loop :: "counts \<Rightarrow> source \<Rightarrow> counts \<times> bool" where
  "wc_loop k inp =
     (let (n, data, inp') = uread WC_BUF inp
      in if n > 0 then wc_loop (fold wc_byte data k) inp' else (k, n < 0))"
  by pat_completeness auto
termination
  by (relation "measure (\<lambda>(k, inp). left inp)") (auto dest: uread_left [OF sym])

declare wc_loop.simps [simp del]

definition wc :: "u8 list \<Rightarrow> source \<Rightarrow> writes \<times> bool" where
  "wc name inp =
     (case wc_loop \<lparr>wc_l = 0, wc_w = 0, wc_c = 0, inword = False\<rparr> inp of
        (k, True) \<Rightarrow> ([(1, ascii_bytes ''wc: read error'' @ [10])], False)
      | (k, False) \<Rightarrow>
          ([(1, print_d (of_int (wc_l k)) @ [32] @ print_d (of_int (wc_w k)) @ [32] @ print_d (of_int (wc_c k)) @ [32] @ name @ [10])], True))"

definition wc_main :: "(u8 list \<Rightarrow> source option) \<Rightarrow> source \<Rightarrow> u8 list list \<Rightarrow> writes" where
  "wc_main files stdin argv =
     (if length argv \<le> 1 then fst (wc [] stdin)
      else each_file files (ascii_bytes ''wc: cannot open '') wc (drop 1 argv))"

text \<open>\<open>wr\<close> is the value that \<^verbatim>\<open>write\<close> returns for the bytes it is given.\<close>

function cat :: "(u8 list \<Rightarrow> int) \<Rightarrow> source \<Rightarrow> writes \<times> bool" where
  "cat wr inp =
     (let (n, data, inp') = uread WC_BUF inp
      in if n > 0
         then if wr data \<noteq> n then ([(1, data), (1, ascii_bytes ''cat: write error'' @ [10])], False)
           else let (out, ok) = cat wr inp' in ((1, data) # out, ok)
         else if n < 0 then ([(1, ascii_bytes ''cat: read error'' @ [10])], False)
         else ([], True))"
  by pat_completeness auto
termination
  by (relation "measure (\<lambda>(wr, inp). left inp)") (auto dest: uread_left [OF sym])

declare cat.simps [simp del]

definition cat_main :: "(u8 list \<Rightarrow> int) \<Rightarrow> (u8 list \<Rightarrow> source option) \<Rightarrow> source \<Rightarrow> u8 list list \<Rightarrow> writes" where
  "cat_main wr files stdin argv =
     (if length argv \<le> 1 then fst (cat wr stdin)
      else each_file files (ascii_bytes ''cat: cannot open '') (\<lambda>_. cat wr) (drop 1 argv))"

definition echo_main :: "u8 list list \<Rightarrow> writes" where
  "echo_main argv = map (\<lambda>i. (1, argv ! i @ (if i + 1 < length argv then [32] else [10]))) [1..<length argv]"

section \<open>The language of a pattern\<close>

text \<open>
  A pattern is a sequence of items, each a character or a repetition of it, and perhaps a final \<^verbatim>\<open>$\<close>.
  The language of the items is the set of the strings they stand for.
\<close>

datatype item = One u8 | Many u8

fun items :: "u8 list \<Rightarrow> item list" where
  "items [] = []"
| "items [c] = (if c = 36 then [] else [One c])"
| "items (c # d # re) = (if d = 42 then Many c # items re else One c # items (d # re))"

fun at_end :: "u8 list \<Rightarrow> bool" where
  "at_end [] = False"
| "at_end [c] = (c = 36)"
| "at_end (c # d # re) = (if d = 42 then at_end re else at_end (d # re))"

definition stands_for :: "u8 \<Rightarrow> u8 \<Rightarrow> bool" where
  "stands_for c x \<longleftrightarrow> c = 46 \<or> c = x"

fun lang :: "item list \<Rightarrow> u8 list set" where
  "lang [] = {[]}"
| "lang (One c # its) = {x # w | x w. stands_for c x \<and> w \<in> lang its}"
| "lang (Many c # its) = {v @ w | v w. (\<forall>x\<in>set v. stands_for c x) \<and> w \<in> lang its}"

text \<open>The pattern stands for a part of the text, which has to reach its end if the pattern says so.\<close>

definition found :: "u8 list \<Rightarrow> u8 list \<Rightarrow> bool" where
  "found re tx \<longleftrightarrow>
     (let anchored = re \<noteq> [] \<and> hd re = 94; re = (if anchored then tl re else re)
      in \<exists>a w b. tx = a @ w @ b \<and> w \<in> lang (items re) \<and> (anchored \<longrightarrow> a = []) \<and> (at_end re \<longrightarrow> b = []))"

definition here :: "u8 list \<Rightarrow> u8 list \<Rightarrow> bool" where
  "here re tx \<longleftrightarrow> (\<exists>w b. tx = w @ b \<and> w \<in> lang (items re) \<and> (at_end re \<longrightarrow> b = []))"

lemma here_Nil: "here [] tx"
  by (simp add: here_def)

lemma here_end: "here [36] tx \<longleftrightarrow> tx = []"
  by (auto simp: here_def)

lemma here_one:
  assumes "re = [] \<longrightarrow> c \<noteq> 36" "re \<noteq> [] \<longrightarrow> hd re \<noteq> 42"
  shows "here (c # re) tx \<longleftrightarrow> tx \<noteq> [] \<and> stands_for c (hd tx) \<and> here re (tl tx)"
proof -
  have "items (c # re) = One c # items re" "at_end (c # re) = at_end re" using assms by (cases re; simp)+
  then show ?thesis unfolding here_def by (cases tx) (auto simp: Cons_eq_append_conv)
qed

lemma here_many: "here (c # 42 # re) tx \<longleftrightarrow> (\<exists>v w. tx = v @ w \<and> (\<forall>x\<in>set v. stands_for c x) \<and> here re w)"
proof -
  have "(\<exists>u b. tx = u @ b \<and> (\<exists>v w. u = v @ w \<and> P v \<and> Q w) \<and> R b) \<longleftrightarrow> (\<exists>v w. tx = v @ w \<and> P v \<and> (\<exists>w' b. w = w' @ b \<and> Q w' \<and> R b))" for P Q R
    by (metis append.assoc)
  then show ?thesis unfolding here_def by simp
qed

lemma many_unfold:
  "(\<exists>v w. tx = v @ w \<and> (\<forall>x\<in>set v. p x) \<and> q w) \<longleftrightarrow> q tx \<or> (tx \<noteq> [] \<and> p (hd tx) \<and> (\<exists>v w. tl tx = v @ w \<and> (\<forall>x\<in>set v. p x) \<and> q w))"
  (is "?l \<longleftrightarrow> ?r")
proof
  assume ?l
  then obtain v w where "tx = v @ w" "\<forall>x\<in>set v. p x" "q w" by blast
  then show ?r by (cases v) auto
next
  assume ?r
  then show ?l
  proof
    assume "q tx"
    then show ?l by (intro exI [of _ "[]"] exI [of _ tx]) simp
  next
    assume "tx \<noteq> [] \<and> p (hd tx) \<and> (\<exists>v w. tl tx = v @ w \<and> (\<forall>x\<in>set v. p x) \<and> q w)"
    then obtain v w where "tx \<noteq> []" "p (hd tx)" "tl tx = v @ w" "\<forall>x\<in>set v. p x" "q w" by blast
    then show ?l by (intro exI [of _ "hd tx # v"] exI [of _ w]) (cases tx, auto)
  qed
qed

lemma matcher_spec:
  "matchhere re tx \<longleftrightarrow> here re tx"
  "matchstar c re tx \<longleftrightarrow> here (c # 42 # re) tx"
proof (induction re tx and c re tx rule: matchhere_matchstar.induct)
  case (1 re tx)
  show ?case
  proof (cases re)
    case Nil
    then show ?thesis by (simp add: matchhere.simps here_Nil)
  next
    case (Cons c re')
    consider (many) "re' \<noteq> []" "hd re' = 42" | (last) "re' = []" "c = 36" | (one) "re' = [] \<longrightarrow> c \<noteq> 36" "re' \<noteq> [] \<longrightarrow> hd re' \<noteq> 42"
      by blast
    then show ?thesis
    proof cases
      case many
      then have "re = c # 42 # tl re'" using Cons by (simp add: list.expand)
      then show ?thesis using "1.IH"(1) [OF Cons] many Cons by (subst matchhere.simps) simp
    next
      case last
      then show ?thesis using Cons by (simp add: matchhere.simps here_end)
    next
      case one
      then show ?thesis using "1.IH"(2) [OF Cons] Cons here_one [OF one, of tx]
        by (subst matchhere.simps) (auto simp: stands_for_def)
    qed
  qed
next
  case (2 c re tx)
  show ?case
    using "2.IH" by (subst matchstar.simps, subst here_many, subst many_unfold) (auto simp: here_many stands_for_def)
qed

lemma match_found: "match re tx \<longleftrightarrow> found re tx"
proof -
  have *: "match_from re' t \<longleftrightarrow> (\<exists>a b. t = a @ b \<and> here re' b)" for re' t
  proof (induction t)
    case Nil
    show ?case by (simp add: matcher_spec)
  next
    case (Cons x t)
    have "(\<exists>a b. x # t = a @ b \<and> here re' b) \<longleftrightarrow> here re' (x # t) \<or> (\<exists>a b. t = a @ b \<and> here re' b)"
      by (auto simp: Cons_eq_append_conv)
    then show ?case using Cons.IH by (simp add: matcher_spec)
  qed
  show ?thesis by (auto simp: match_def found_def matcher_spec * here_def Let_def)
qed

section \<open>What grep prints\<close>

definition plain :: "u8 list \<Rightarrow> bool" where
  "plain l \<longleftrightarrow> 0 \<notin> set l \<and> 10 \<notin> set l"

definition unlines :: "u8 list list \<Rightarrow> u8 list" where
  "unlines ls = concat (map (\<lambda>l. l @ [10]) ls)"

definition shown :: "u8 list \<Rightarrow> u8 list list \<Rightarrow> writes" where
  "shown pat ls = map (\<lambda>l. (1, l @ [10])) (filter (match pat) ls)"

lemma unlines_simps [simp]: "unlines [] = []" "unlines (l # ls) = l @ 10 # unlines ls" "unlines (ls @ ls') = unlines ls @ unlines ls'"
  by (simp_all add: unlines_def)

lemma shown_simps [simp]: "shown pat [] = []" "shown pat (ls @ ls') = shown pat ls @ shown pat ls'"
  "shown pat (l # ls) = (if match pat l then [(1, l @ [10])] else []) @ shown pat ls"
  by (simp_all add: shown_def)

lemma plain_takeWhile:
  assumes "plain l" shows "takeWhile (\<lambda>c. c \<noteq> 0 \<and> c \<noteq> 10) (l @ 10 # r) = l" "takeWhile (\<lambda>c. c \<noteq> 0 \<and> c \<noteq> 10) l = l"
proof -
  have "\<And>c. c \<in> set l \<Longrightarrow> c \<noteq> 0 \<and> c \<noteq> 10" using assms by (auto simp: plain_def)
  then show "takeWhile (\<lambda>c. c \<noteq> 0 \<and> c \<noteq> 10) (l @ 10 # r) = l" "takeWhile (\<lambda>c. c \<noteq> 0 \<and> c \<noteq> 10) l = l"
    by (simp_all add: takeWhile_append takeWhile_eq_all_conv)
qed

lemma grep_lines_unlines: "\<forall>l\<in>set ls. plain l \<Longrightarrow> plain e \<Longrightarrow> grep_lines pat (unlines ls @ e) = (shown pat ls, e)"
proof (induction ls)
  case Nil
  then show ?case by (subst grep_lines.simps) (simp add: plain_takeWhile)
next
  case (Cons l ls)
  then show ?case by (subst grep_lines.simps) (simp add: plain_takeWhile)
qed

text \<open>The first \<open>k\<close> bytes of a text hold some complete lines and a part of the next.\<close>

lemma take_lines:
  assumes "\<forall>l\<in>set ls. plain l" "plain e"
  shows "\<exists>ls1 ls2 part. ls = ls1 @ ls2 \<and> take k (unlines ls @ e) = unlines ls1 @ part \<and> plain part
    \<and> part @ drop k (unlines ls @ e) = unlines ls2 @ e \<and> (ls \<noteq> [] \<longrightarrow> length (hd ls) < k \<longrightarrow> ls1 \<noteq> [])"
  using assms
proof (induction ls arbitrary: k)
  case Nil
  have "plain (take k e)" using Nil by (auto simp: plain_def dest: in_set_takeD)
  then show ?case by (intro exI [of _ "[]"] exI [of _ "take k e"]) simp
next
  case (Cons l ls)
  show ?case
  proof (cases "length l < k")
    case True
    then obtain j where k: "k = Suc (length l + j)" using less_imp_Suc_add by blast
    obtain ls1 ls2 part where "ls = ls1 @ ls2" "take j (unlines ls @ e) = unlines ls1 @ part" "plain part"
      "part @ drop j (unlines ls @ e) = unlines ls2 @ e" using Cons.IH [of j] Cons.prems by (metis list.set_intros(2))
    then show ?thesis by (intro exI [of _ "l # ls1"] exI [of _ ls2] exI [of _ part]) (simp add: k)
  next
    case False
    moreover have "plain (take k l)" using Cons.prems by (auto simp: plain_def dest: in_set_takeD)
    ultimately show ?thesis by (intro exI [of _ "[]"] exI [of _ "l # ls"] exI [of _ "take k l"]) simp
  qed
qed

lemma grep_loop_Nil: "grep_loop pat b [] = []"
  by (subst grep_loop.simps) simp

lemma grep_loop_lines:
  assumes "\<forall>l\<in>set ls. plain l \<and> length l < GREP_BUF - 1" "plain e" "b @ c = unlines ls @ e" "length b < GREP_BUF - 1" "10 \<notin> set b"
  shows "grep_loop pat b [Some c] = shown pat ls"
  using assms
proof (induction "length c" arbitrary: b c ls e rule: less_induct)
  case less
  let ?n = "GREP_BUF - length b - 1"
  have pl: "\<forall>l\<in>set ls. plain l" using less.prems by simp
  show ?case
  proof (cases "length c \<le> ?n")
    case True
    have "ls = []" if "c = []" using that less.prems(3,5) by (cases ls) auto
    then show ?thesis using True grep_lines_unlines [OF pl less.prems(2), of pat] less.prems(3)
      by (subst grep_loop.simps) (auto simp: grep_loop_Nil)
  next
    case False
    have n: "0 < ?n" "length b + ?n = GREP_BUF - 1" using less.prems(4) by auto
    have data: "b @ take ?n c = take (GREP_BUF - 1) (unlines ls @ e)" "drop ?n c = drop (GREP_BUF - 1) (unlines ls @ e)"
      using n by (simp_all flip: less.prems(3) n(2))
    obtain ls1 ls2 part where d: "ls = ls1 @ ls2" "take (GREP_BUF - 1) (unlines ls @ e) = unlines ls1 @ part" "plain part"
      "part @ drop (GREP_BUF - 1) (unlines ls @ e) = unlines ls2 @ e" "ls \<noteq> [] \<longrightarrow> length (hd ls) < GREP_BUF - 1 \<longrightarrow> ls1 \<noteq> []"
      using take_lines [OF pl less.prems(2), of "GREP_BUF - 1"] by blast
    have ne: "ls \<noteq> [] \<Longrightarrow> ls1 \<noteq> []" using d(5) less.prems(1) by (cases ls) auto
    have step: "grep_loop pat b [Some c] = shown pat ls1 @ grep_loop pat (if ls1 = [] then [] else part) [Some (drop ?n c)]"
    proof -
      have "grep_lines pat (b @ take ?n c) = (shown pat ls1, part)"
        unfolding data(1) d(2) using d(1,3) pl by (intro grep_lines_unlines) auto
      moreover have "length part = length (b @ take ?n c) \<longleftrightarrow> ls1 = []"
        unfolding data(1) d(2) by (cases ls1) auto
      ultimately show ?thesis using False n by (subst grep_loop.simps) simp
    qed
    have shorter: "length (drop ?n c) < length c" using False n by simp
    show ?thesis
    proof (cases "ls1 = []")
      case True
      then have ls: "ls = []" using ne by blast
      then have "plain (drop ?n c)" using less.prems(2,3) by (auto simp: plain_def dest: in_set_dropD)
      then have "grep_loop pat [] [Some (drop ?n c)] = shown pat []"
        using shorter by (intro less.hyps [where e = "drop ?n c"]) (auto simp: GREP_BUF_def)
      then show ?thesis using step True ls by simp
    next
      case False
      have "length part < GREP_BUF - 1"
      proof -
        have "length (unlines ls1 @ part) \<le> GREP_BUF - 1" using arg_cong [OF d(2), of length] by simp
        then show ?thesis using False by (cases ls1) auto
      qed
      then have "grep_loop pat part [Some (drop ?n c)] = shown pat ls2"
        using less.prems(1,2) d(1,3) d(4) [folded data(2)]
        by (intro less.hyps [OF shorter, where e = e]) (auto simp: plain_def)
      then show ?thesis using step False d(1) by simp
    qed
  qed
qed

text \<open>
  C24. On a file, whatever its size, \<^verbatim>\<open>grep\<close> writes exactly the lines in which the pattern is found, in
  their order and each once, where the pattern is read as a regular expression: its items stand for a
  part of the line, at its start after \<^verbatim>\<open>^\<close> and up to its end before \<^verbatim>\<open>$\<close>. The lines must have fewer
  than 1023 bytes and no zero bytes; a last line without newline is not printed.
\<close>

theorem grep_prints_matching_lines:
  assumes "\<forall>l\<in>set ls. plain l \<and> length l < GREP_BUF - 1" and "plain e"
  shows "grep pat [Some (unlines ls @ e)] = map (\<lambda>l. (1, l @ [10])) (filter (found pat) ls)"
proof -
  have "match pat = found pat" using match_found by blast
  then show ?thesis
    using grep_loop_lines [OF assms, of "[]" "unlines ls @ e" pat] by (simp add: grep_def shown_def GREP_BUF_def)
qed

text \<open>The pattern \<open>^a.*$\<close> on the lines \<open>abc\<close>, \<open>ba\<close> and \<open>a\<close>.\<close>

theorem grep_prints_matching_lines_witness:
  "grep [94, 97, 46, 42, 36] [Some (unlines [[97, 98, 99], [98, 97], [97]] @ [97])] = [(1, [97, 98, 99, 10]), (1, [97, 10])]"
proof -
  have "found [94, 97, 46, 42, 36] [97, 98, 99]" "\<not> found [94, 97, 46, 42, 36] [98, 97]" "found [94, 97, 46, 42, 36] [97]"
    unfolding match_found [symmetric] by (simp_all add: match_def matchhere.simps matchstar.simps)
  then show ?thesis
    using grep_prints_matching_lines [of "[[97, 98, 99], [98, 97], [97]]" "[97]" "[94, 97, 46, 42, 36]"]
    by (simp add: plain_def GREP_BUF_def)
qed

text \<open>Data that arrives in parts, from a pipe or the console, loses a line that has no newline in the first part.\<close>

lemma grep_drops_partial_line:
  "grep [97, 98] [Some [97, 98, 10]] = [(1, [97, 98, 10])] \<and> grep [97, 98] [Some [97], Some [98, 10]] = []"
  by (simp add: grep_def grep_loop.simps grep_lines.simps match_def matchhere.simps GREP_BUF_def)

section \<open>What wc counts\<close>

text \<open>A word starts at every byte that is no space and comes first or after a space.\<close>

definition word_starts :: "u8 \<Rightarrow> u8 list \<Rightarrow> nat" where
  "word_starts p x = length (filter (\<lambda>(a, b). is_space a \<and> \<not> is_space b) (zip (p # x) x))"

lemma wc_byte_fields:
  "inword (wc_byte b k) \<longleftrightarrow> \<not> is_space b" "wc_l (wc_byte b k) = wc_l k + of_bool (b = 10)" "wc_c (wc_byte b k) = wc_c k + 1"
  "wc_w (wc_byte b k) = wc_w k + of_bool (\<not> inword k \<and> \<not> is_space b)"
  by (simp_all add: wc_byte_def Let_def)

lemma fold_wc_byte:
  assumes "inword k \<longleftrightarrow> \<not> is_space p"
  shows "wc_l (fold wc_byte x k) = wc_l k + int (count_list x 10)"
    "wc_c (fold wc_byte x k) = wc_c k + int (length x)"
    "wc_w (fold wc_byte x k) = wc_w k + int (word_starts p x)"
  using assms
proof (induction x arbitrary: k p)
  case (Cons b x)
  note IH = Cons.IH [OF wc_byte_fields(1)]
  { case 1 show ?case using IH(1) by (simp add: wc_byte_fields) }
  { case 2 show ?case using IH(2) by (simp add: wc_byte_fields) }
  { case 3 show ?case using IH(3) 3 by (simp add: wc_byte_fields word_starts_def) }
qed (simp_all add: word_starts_def)

lemma wc_loop_chunks: "\<forall>c\<in>set cs. c \<noteq> [] \<Longrightarrow> wc_loop k (map Some cs) = (fold wc_byte (concat cs) k, False)"
proof (induction "left (map Some cs)" arbitrary: cs k rule: less_induct)
  case less
  show ?case
  proof (cases cs)
    case Nil
    then show ?thesis by (subst wc_loop.simps) simp
  next
    case (Cons c cs')
    show ?thesis
    proof (cases "length c \<le> WC_BUF")
      case True
      have "wc_loop (fold wc_byte c k) (map Some cs') = (fold wc_byte (concat cs') (fold wc_byte c k), False)"
        using less Cons by (auto simp: left_def)
      then show ?thesis using True Cons less.prems by (subst wc_loop.simps) simp
    next
      case False
      let ?cs = "drop WC_BUF c # cs'"
      have "wc_loop k' (map Some ?cs) = (fold wc_byte (concat ?cs) k', False)" for k'
        using less.prems Cons False by (intro less.hyps) (auto simp: left_def WC_BUF_def)
      moreover have "fold wc_byte c k = fold wc_byte (drop WC_BUF c) (fold wc_byte (take WC_BUF c) k)"
        by (metis append_take_drop_id comp_apply fold_append)
      ultimately show ?thesis using False Cons by (subst wc_loop.simps) (simp add: WC_BUF_def)
    qed
  qed
qed

text \<open>
  C35. However a file is cut into reads, \<^verbatim>\<open>wc\<close> counts its newlines, its bytes and its words: the bytes
  that are no white space and follow white space or stand at the beginning. A word that is cut by the
  end of a read is counted once.
\<close>

theorem wc_counts:
  assumes "\<forall>c\<in>set cs. c \<noteq> []"
  shows "wc name (map Some cs) =
    ([(1, print_d (of_nat (count_list (concat cs) 10)) @ [32] @ print_d (of_nat (word_starts 32 (concat cs))) @ [32]
        @ print_d (of_nat (length (concat cs))) @ [32] @ name @ [10])], True)"
proof -
  let ?k = "\<lparr>wc_l = 0, wc_w = 0, wc_c = 0, inword = False\<rparr>"
  have "inword ?k \<longleftrightarrow> \<not> is_space 32" by (simp add: is_space_def)
  note f = fold_wc_byte [OF this, of "concat cs"]
  show ?thesis by (simp add: wc_def wc_loop_chunks [OF assms] f)
qed

theorem wc_counts_witness:
  "wc [102] (map Some [[97, 98], [99, 32, 10], [100]]) = ([(1, [49, 32, 50, 32, 54, 32, 102, 10])], True)"
proof -
  have "print_d 1 = [49]" "print_d 2 = [50]" "print_d 6 = [54]" by (simp_all add: print_d_def print_d_loop.simps digits_def)
  then show ?thesis using wc_counts [of "[[97, 98], [99, 32, 10], [100]]" "[102]"] by (simp add: word_starts_def is_space_def)
qed

end
