(* ===== verification/Sh.thy ===== *)
theory Sh
  imports Textutils
begin

text \<open>
  The shell (\<^verbatim>\<open>sh.c\<close>): its parser, which leaves pointers to the words in the line and then puts a zero
  byte after each word, and the execution of a command by processes with their descriptors.

  A line is the list of its bytes without the final zero byte, which stands at index \<open>length buf\<close>, the
  pointer \<^verbatim>\<open>es\<close>. A pointer into the line is an index.
\<close>

section \<open>Commands\<close>

definition MAXARGS :: nat where "MAXARGS = 10"

text \<open>The words of a command are pairs of pointers (\<^verbatim>\<open>q\<close>, \<^verbatim>\<open>eq\<close>) or strings.\<close>

datatype 'w cmd =
  EXEC "'w list"
| REDIR "'w cmd" 'w u32 nat
| PIPE "'w cmd" "'w cmd"
| LIST "'w cmd" "'w cmd"
| BACK "'w cmd"

type_synonym ptrs = "nat \<times> nat"

section \<open>Tokens\<close>

definition whitespace :: "u8 list" where "whitespace = [32, 9, 13, 10, 11]"
definition symbols :: "u8 list" where "symbols = [60, 124, 62, 38, 59, 40, 41]"

definition at :: "u8 list \<Rightarrow> nat \<Rightarrow> u8" where
  "at buf s = (if s < length buf then buf ! s else 0)"

definition skip_ws :: "u8 list \<Rightarrow> nat \<Rightarrow> nat" where
  "skip_ws buf s = s + length (takeWhile (\<lambda>c. c \<in> set whitespace) (drop s buf))"

definition word_end :: "u8 list \<Rightarrow> nat \<Rightarrow> nat" where
  "word_end buf s = s + length (takeWhile (\<lambda>c. c \<notin> set whitespace \<and> c \<notin> set symbols) (drop s buf))"

definition gettoken :: "u8 list \<Rightarrow> nat \<Rightarrow> u8 \<times> nat \<times> nat \<times> nat" where
  "gettoken buf s =
     (let q = skip_ws buf s; c = at buf q;
          (ret, e) = (if c = 0 then (c, q)
                      else if c \<in> {124, 40, 41, 59, 38, 60} then (c, q + 1)
                      else if c = 62 then (if at buf (q + 1) = 62 then (43, q + 2) else (c, q + 1))
                      else (97, word_end buf q))
      in (ret, q, e, skip_ws buf e))"

definition peek :: "u8 list \<Rightarrow> nat \<Rightarrow> u8 list \<Rightarrow> bool \<times> nat" where
  "peek buf s toks = (let s = skip_ws buf s in (at buf s \<noteq> 0 \<and> at buf s \<in> set toks, s))"

lemma skip_ws_le: "s \<le> skip_ws buf s" "s \<le> length buf \<Longrightarrow> skip_ws buf s \<le> length buf"
proof -
  show "s \<le> skip_ws buf s" by (simp add: skip_ws_def)
  have "length (takeWhile (\<lambda>c. c \<in> set whitespace) (drop s buf)) \<le> length buf - s" using length_takeWhile_le [of "\<lambda>c. c \<in> set whitespace" "drop s buf"] by simp
  then show "s \<le> length buf \<Longrightarrow> skip_ws buf s \<le> length buf" by (simp add: skip_ws_def)
qed

lemma word_end_le: "s \<le> word_end buf s" "s \<le> length buf \<Longrightarrow> word_end buf s \<le> length buf"
proof -
  show "s \<le> word_end buf s" by (simp add: word_end_def)
  have "length (takeWhile (\<lambda>c. c \<notin> set whitespace \<and> c \<notin> set symbols) (drop s buf)) \<le> length buf - s" using length_takeWhile_le [of "\<lambda>c. c \<notin> set whitespace \<and> c \<notin> set symbols" "drop s buf"] by simp
  then show "s \<le> length buf \<Longrightarrow> word_end buf s \<le> length buf" by (simp add: word_end_def)
qed

lemma skip_ws_stop: "skip_ws buf s < length buf \<Longrightarrow> buf ! skip_ws buf s \<notin> set whitespace"
  using nth_length_takeWhile [of "\<lambda>c. c \<in> set whitespace" "drop s buf"] by (simp add: skip_ws_def)

lemma gettoken_le:
  assumes run: "gettoken buf s = (t, q, e, s')" and s: "s \<le> length buf"
  shows "s \<le> q \<and> q \<le> e \<and> e \<le> s' \<and> s' \<le> length buf \<and> (t \<noteq> 0 \<longrightarrow> s < s')"
proof -
  let ?q = "skip_ws buf s" and ?c = "at buf (skip_ws buf s)"
  have q: "q = ?q" "s' = skip_ws buf e" using run by (auto simp: gettoken_def Let_def split: prod.splits)
  have e: "e = ?q \<or> ?c \<noteq> 0 \<and> e = ?q + 1 \<or> at buf (?q + 1) \<noteq> 0 \<and> e = ?q + 2 \<or> ?c \<noteq> 0 \<and> ?c \<notin> set symbols \<and> e = word_end buf ?q"
    using run by (auto simp: gettoken_def Let_def symbols_def split: prod.splits if_splits)
  have t: "t \<noteq> 0 \<Longrightarrow> ?c \<noteq> 0 \<and> (e = ?q + 1 \<or> e = ?q + 2 \<or> ?c \<notin> set symbols \<and> e = word_end buf ?q)"
    using run by (auto simp: gettoken_def Let_def symbols_def split: prod.splits if_splits)
  have word: "?q < word_end buf ?q" if "?c \<noteq> 0" "?c \<notin> set symbols"
  proof -
    have lt: "?q < length buf" and c: "?c = buf ! ?q" using that(1) by (auto simp: at_def split: if_splits)
    then have "drop ?q buf = ?c # drop (Suc ?q) buf" by (simp add: Cons_nth_drop_Suc)
    then show ?thesis using skip_ws_stop [OF lt] that(2) c by (simp add: word_end_def)
  qed
  have "e \<le> length buf" using e skip_ws_le(2) [OF s] word_end_le(2) [of ?q buf] by (auto simp: at_def split: if_splits)
  moreover have "?q \<le> e" using e word_end_le(1) [of ?q buf] by auto
  ultimately show ?thesis
    using q t word skip_ws_le(1) [of s buf] skip_ws_le(1) [of e buf] skip_ws_le(2) [of e buf] by (auto simp: less_le_trans)
qed

section \<open>The parser\<close>

lemma gettoken_nonzero: "at buf (skip_ws buf s) \<noteq> 0 \<Longrightarrow> fst (gettoken buf s) \<noteq> 0"
  by (auto simp: gettoken_def Let_def split: prod.splits)

lemma skip_ws_idem [simp]: "skip_ws buf (skip_ws buf s) = skip_ws buf s"
proof (cases "skip_ws buf s < length buf")
  case True
  then have "drop (skip_ws buf s) buf = buf ! skip_ws buf s # drop (Suc (skip_ws buf s)) buf" by (simp add: Cons_nth_drop_Suc)
  then show ?thesis using skip_ws_stop [OF True] by (simp add: skip_ws_def [of buf "skip_ws buf s"])
qed (simp add: skip_ws_def [of buf "skip_ws buf s"])

lemma peek_le: "peek buf s toks = (b, s1) \<Longrightarrow> s \<le> s1 \<and> s1 = skip_ws buf s \<and> (s \<le> length buf \<longrightarrow> s1 \<le> length buf) \<and> (b \<longrightarrow> s1 < length buf)"
  using skip_ws_le [of s buf] by (auto simp: peek_def Let_def at_def split: if_splits)

lemma peek_token:
  assumes "peek buf s toks = (True, s1)" and g: "gettoken buf s1 = (t, q, e, s2)"
  shows "s < s2 \<and> s2 \<le> length buf"
proof -
  have "at buf (skip_ws buf s1) \<noteq> 0" using assms(1) by (auto simp: peek_def Let_def)
  then show ?thesis using gettoken_nonzero [of buf s1] peek_le [OF assms(1)] gettoken_le [OF g] g by auto
qed

lemma peek_tokens:
  assumes "(True, s1) = peek buf s toks" "(t, q, e, s2) = gettoken buf s1" "(t', q', e', s3) = gettoken buf s2"
  shows "s3 \<le> length buf" "length buf - s2 < length buf - s" "length buf - s3 < length buf - s"
proof -
  have s2: "s < s2" "s2 \<le> length buf" using peek_token [OF assms(1,2) [symmetric]] by auto
  have s3: "s2 \<le> s3" "s3 \<le> length buf" using gettoken_le [OF assms(3) [symmetric] s2(2)] by auto
  show "s3 \<le> length buf" "length buf - s2 < length buf - s" "length buf - s3 < length buf - s" using s2 s3 by auto
qed

text \<open>
  The redirections that follow, as pairs of the word with the mode and the descriptor. The command they
  apply to is put inside them by the caller.
\<close>

type_synonym 'w redir = "'w \<times> u32 \<times> nat"

definition redirs :: "'w cmd \<Rightarrow> 'w redir list \<Rightarrow> 'w cmd" where
  "redirs c rs = foldl (\<lambda>c (f, mode, fd). REDIR c f mode fd) c rs"

definition redir_of :: "u8 \<Rightarrow> 'w \<Rightarrow> 'w redir" where
  "redir_of tok f = (if tok = 60 then (f, 0, 0) else (f, 0x201, 1))"

function parseredirs :: "u8 list \<Rightarrow> nat \<Rightarrow> (ptrs redir list \<times> nat) res" where
  "parseredirs buf s =
     (let (b, s1) = peek buf s [60, 62]
      in if b
         then let (tok, _, _, s2) = gettoken buf s1; (t, q, e, s3) = gettoken buf s2
           in if t \<noteq> 97 then Inl (Panic ''missing file for redirection'')
              else bnd (parseredirs buf s3) (\<lambda>(rs, s). Inr (redir_of tok (q, e) # rs, s))
         else Inr ([], s1))"
  by pat_completeness auto
termination
  by (relation "measure (\<lambda>(buf, s). length buf - s)") (auto dest: peek_tokens(3))

declare parseredirs.simps [simp del]

lemma parseredirs_le: "parseredirs buf s = Inr (rs, s') \<Longrightarrow> s \<le> length buf \<Longrightarrow> s \<le> s' \<and> s' \<le> length buf"
proof (induction buf s arbitrary: rs s' rule: parseredirs.induct)
  case (1 buf s)
  obtain b s1 where p: "peek buf s [60, 62] = (b, s1)" by fastforce
  show ?case
  proof (cases b)
    case True
    obtain tok q0 e0 s2 where g: "gettoken buf s1 = (tok, q0, e0, s2)" using prod_cases4 by blast
    obtain t q e s3 where h: "gettoken buf s2 = (t, q, e, s3)" using prod_cases4 by blast
    have p': "(True, s1) = peek buf s [60, 62]" using p True by simp
    have s3: "s \<le> s3" "s3 \<le> length buf" using peek_tokens [OF p' g [symmetric] h [symmetric]] 1(3) by auto
    obtain rs2 where "parseredirs buf s3 = Inr (rs2, s')" "t = 97"
      using "1.prems"(1) p g h True by (subst (asm) parseredirs.simps) (auto simp: bnd_eq_Inr split: if_splits)
    then have "s3 \<le> s' \<and> s' \<le> length buf"
      using 1(1) [OF p [symmetric] refl True g [symmetric] refl refl refl h [symmetric]] s3 by blast
    then show ?thesis using s3 by simp
  next
    case False
    then show ?thesis using "1.prems" p peek_le [OF p] by (subst (asm) parseredirs.simps) auto
  qed
qed

text \<open>\<^verbatim>\<open>while(peek(ps, es, "&"))\<close> of \<^verbatim>\<open>parseline\<close>.\<close>

function back_loop :: "u8 list \<Rightarrow> 'w cmd \<Rightarrow> nat \<Rightarrow> 'w cmd \<times> nat" where
  "back_loop buf c s =
     (let (b, s1) = peek buf s [38]
      in if b then let (_, _, _, s2) = gettoken buf s1 in back_loop buf (BACK c) s2 else (c, s1))"
  by pat_completeness auto
termination
  by (relation "measure (\<lambda>(buf, c, s). length buf - s)") (auto intro!: diff_less_mono2 dest: peek_token [OF sym sym] less_le_trans)

declare back_loop.simps [simp del]

text \<open>
  The loop over the arguments in \<^verbatim>\<open>parseexec\<close>: the arguments and the redirections found so far, both in
  order. Writing the tenth argument pointer is allowed, but then the shell gives up.
\<close>

function args_loop :: "u8 list \<Rightarrow> ptrs list \<Rightarrow> ptrs redir list \<Rightarrow> nat \<Rightarrow> (ptrs cmd \<times> nat) res" where
  "args_loop buf as rs s =
     (let (b, s1) = peek buf s [124, 41, 38, 59]
      in if b then Inr (redirs (EXEC as) rs, s1)
         else let (tok, q, e, s2) = gettoken buf s1
           in if tok = 0 then Inr (redirs (EXEC as) rs, s2)
              else if tok \<noteq> 97 then Inl (Panic ''syntax'')
              else if length as + 1 \<ge> MAXARGS then Inl (Panic ''too many args'')
              else bnd (parseredirs buf s2) (\<lambda>(rs', s3). args_loop buf (as @ [(q, e)]) (rs @ rs') s3))"
  by pat_completeness auto
termination
  by (relation "measure (\<lambda>(buf, as, rs, s). MAXARGS - length as)") auto

declare args_loop.simps [simp del]

text \<open>The recursive descent. The first argument bounds the depth of the recursion.\<close>

fun parseline :: "nat \<Rightarrow> u8 list \<Rightarrow> nat \<Rightarrow> (ptrs cmd \<times> nat) res"
  and parsepipe :: "nat \<Rightarrow> u8 list \<Rightarrow> nat \<Rightarrow> (ptrs cmd \<times> nat) res"
  and parseexec :: "nat \<Rightarrow> u8 list \<Rightarrow> nat \<Rightarrow> (ptrs cmd \<times> nat) res"
  and parseblock :: "nat \<Rightarrow> u8 list \<Rightarrow> nat \<Rightarrow> (ptrs cmd \<times> nat) res" where
  "parseline 0 buf s = Inl Deadlock"
| "parseline (Suc k) buf s =
     bnd (parsepipe k buf s) (\<lambda>(c, s).
       let (c, s) = back_loop buf c s; (b, s1) = peek buf s [59]
       in if b
          then let (_, _, _, s2) = gettoken buf s1
            in bnd (parseline k buf s2) (\<lambda>(d, s). Inr (LIST c d, s))
          else Inr (c, s1))"
| "parsepipe 0 buf s = Inl Deadlock"
| "parsepipe (Suc k) buf s =
     bnd (parseexec k buf s) (\<lambda>(c, s).
       let (b, s1) = peek buf s [124]
       in if b
          then let (_, _, _, s2) = gettoken buf s1
            in bnd (parsepipe k buf s2) (\<lambda>(d, s). Inr (PIPE c d, s))
          else Inr (c, s1))"
| "parseexec 0 buf s = Inl Deadlock"
| "parseexec (Suc k) buf s =
     (let (b, s1) = peek buf s [40]
      in if b then parseblock k buf s1
         else bnd (parseredirs buf s1) (\<lambda>(rs, s). args_loop buf [] rs s))"
| "parseblock 0 buf s = Inl Deadlock"
| "parseblock (Suc k) buf s =
     (let (b, s1) = peek buf s [40]
      in if \<not> b then Inl (Panic ''parseblock'')
         else let (_, _, _, s2) = gettoken buf s1
           in bnd (parseline k buf s2) (\<lambda>(c, s).
              let (b, s1) = peek buf s [41]
              in if \<not> b then Inl (Panic ''syntax - missing )'')
                 else let (_, _, _, s2) = gettoken buf s1
                   in bnd (parseredirs buf s2) (\<lambda>(rs, s). Inr (redirs c rs, s))))"

text \<open>The zero bytes after the words; the line now includes its final zero byte.\<close>

fun nulterminate :: "ptrs cmd \<Rightarrow> u8 list \<Rightarrow> u8 list" where
  "nulterminate (EXEC as) buf = foldl (\<lambda>buf (q, e). buf[e := 0]) buf as"
| "nulterminate (REDIR c (q, e) mode fd) buf = (nulterminate c buf)[e := 0]"
| "nulterminate (PIPE c d) buf = nulterminate d (nulterminate c buf)"
| "nulterminate (LIST c d) buf = nulterminate d (nulterminate c buf)"
| "nulterminate (BACK c) buf = nulterminate c buf"

definition parse_fuel :: "u8 list \<Rightarrow> nat" where
  "parse_fuel buf = 4 * length buf + 4"

definition parsecmd :: "u8 list \<Rightarrow> (ptrs cmd \<times> u8 list) res" where
  "parsecmd buf =
     bnd (parseline (parse_fuel buf) buf 0) (\<lambda>(c, s).
       if snd (peek buf s []) \<noteq> length buf then Inl (Panic ''syntax'')
       else Inr (c, nulterminate c (buf @ [0])))"

text \<open>The string that a pointer into the line stands for.\<close>

definition cstring :: "u8 list \<Rightarrow> ptrs \<Rightarrow> u8 list" where
  "cstring buf = (\<lambda>(q, e). takeWhile (\<lambda>c. c \<noteq> 0) (drop q buf))"

end
