(* ===== verification/Shparse.thy ===== *)
theory Shparse
  imports Sh
begin

text \<open>
  The parser of the shell always returns, and it reads back every command that is written in the
  shell's notation: the words of the tree it builds, as strings in the line with its zero bytes, are
  the words that were written.
\<close>

section \<open>The parser returns\<close>

lemma back_loop_le: "back_loop buf c s = (d, s') \<Longrightarrow> s \<le> length buf \<Longrightarrow> s \<le> s' \<and> s' \<le> length buf"
proof (induction buf c s arbitrary: d s' rule: back_loop.induct)
  case (1 buf c s)
  obtain b s1 where p: "peek buf s [38] = (b, s1)" by fastforce
  show ?case
  proof (cases b)
    case True
    obtain t q e s2 where g: "gettoken buf s1 = (t, q, e, s2)" using prod_cases4 by blast
    have s2: "s < s2" "s2 \<le> length buf" using peek_token [of buf s "[38]" s1] p True g by auto
    have "back_loop buf (BACK c) s2 = (d, s')" using 1(2) p True g by (subst (asm) back_loop.simps) simp
    then show ?thesis using 1(1) [OF p [symmetric] refl True g [symmetric] refl refl refl] s2 by fastforce
  next
    case False
    then show ?thesis using 1 p peek_le [OF p] by (subst (asm) back_loop.simps) auto
  qed
qed

lemma args_loop_le: "args_loop buf as rs s = Inr (c, s') \<Longrightarrow> s \<le> length buf \<Longrightarrow> s \<le> s' \<and> s' \<le> length buf"
proof (induction buf as rs s arbitrary: c s' rule: args_loop.induct)
  case (1 buf as rs s)
  obtain b s1 where p: "peek buf s [124, 41, 38, 59] = (b, s1)" by fastforce
  obtain t q e s2 where g: "gettoken buf s1 = (t, q, e, s2)" using prod_cases4 by blast
  have s1: "s \<le> s1" "s1 \<le> length buf" using peek_le [OF p] 1(3) by auto
  have s2: "s1 \<le> s2" "s2 \<le> length buf" using gettoken_le [OF g s1(2)] by auto
  have "s' = s1 \<or> s' = s2 \<or> (\<exists>rs' s3. \<not> b \<and> t = 97 \<and> \<not> MAXARGS \<le> length as + 1 \<and> parseredirs buf s2 = Inr (rs', s3) \<and> args_loop buf (as @ [(q, e)]) (rs @ rs') s3 = Inr (c, s'))"
    using 1(2) p g by (subst (asm) args_loop.simps) (auto simp: bnd_eq_Inr split: if_splits)
  then consider "s' = s1" | "s' = s2" | rs' s3 where "\<not> b" "t = 97" "\<not> MAXARGS \<le> length as + 1" "parseredirs buf s2 = Inr (rs', s3)"
    "args_loop buf (as @ [(q, e)]) (rs @ rs') s3 = Inr (c, s')" by blast
  then show ?case
  proof cases
    case 3
    have s3: "s2 \<le> s3" "s3 \<le> length buf" using parseredirs_le [OF 3(4) s2(2)] by auto
    have "s3 \<le> s' \<and> s' \<le> length buf"
      using 1(1) [OF p [symmetric] refl 3(1) g [symmetric] refl refl refl _ _ 3(3,4) refl 3(5) s3(2)] 3(2) by simp
    then show ?thesis using s1 s2 s3 by simp
  qed (use s1 s2 in auto)
qed

lemma parseredirs_returns: "parseredirs buf s \<noteq> Inl Deadlock"
proof (induction "length buf - s" arbitrary: s rule: less_induct)
  case less
  obtain b s1 where p: "peek buf s [60, 62] = (b, s1)" by fastforce
  obtain tok q0 e0 s2 where g: "gettoken buf s1 = (tok, q0, e0, s2)" using prod_cases4 by blast
  obtain t q e s3 where h: "gettoken buf s2 = (t, q, e, s3)" using prod_cases4 by blast
  have "b \<Longrightarrow> parseredirs buf s3 \<noteq> Inl Deadlock" using peek_tokens(3) [of s1 buf s "[60, 62]"] p g h less by fastforce
  then show ?case using p g h by (subst parseredirs.simps) (auto simp: bnd_def split: sum.splits)
qed

lemma args_loop_returns: "args_loop buf as rs s \<noteq> Inl Deadlock"
proof (induction "MAXARGS - length as" arbitrary: as rs s rule: less_induct)
  case less
  obtain b s1 where p: "peek buf s [124, 41, 38, 59] = (b, s1)" by fastforce
  obtain t q e s2 where g: "gettoken buf s1 = (t, q, e, s2)" using prod_cases4 by blast
  have "\<not> MAXARGS \<le> length as + 1 \<Longrightarrow> args_loop buf (as @ [x]) rs' s3 \<noteq> Inl Deadlock" for x rs' s3
    using less [of "as @ [x]"] by simp
  then show ?case using p g parseredirs_returns [of buf s2] by (subst args_loop.simps) (auto simp: bnd_def split: sum.splits)
qed

text \<open>Positions only grow, and the bound on the recursion is never reached.\<close>

lemma parser_le:
  "parseline k buf s = Inr (c, s') \<Longrightarrow> s \<le> length buf \<Longrightarrow> s \<le> s' \<and> s' \<le> length buf"
  "parsepipe k buf s = Inr (c, s') \<Longrightarrow> s \<le> length buf \<Longrightarrow> s \<le> s' \<and> s' \<le> length buf"
  "parseexec k buf s = Inr (c, s') \<Longrightarrow> s \<le> length buf \<Longrightarrow> s \<le> s' \<and> s' \<le> length buf"
  "parseblock k buf s = Inr (c, s') \<Longrightarrow> s \<le> length buf \<Longrightarrow> s \<le> s' \<and> s' \<le> length buf"
proof (induction k arbitrary: s c s')
  case (Suc k)
  { case 1
    obtain c1 t where t: "parsepipe k buf s = Inr (c1, t)" using 1 by (auto simp: bnd_eq_Inr)
    have "s \<le> t" "t \<le> length buf" using Suc(2) [OF t 1(2)] by auto
    obtain c2 u where u: "back_loop buf c1 t = (c2, u)" by fastforce
    obtain b s1 where p: "peek buf u [59] = (b, s1)" by fastforce
    obtain tk q e s2 where g: "gettoken buf s1 = (tk, q, e, s2)" using prod_cases4 by blast
    have "t \<le> u" "u \<le> length buf" using back_loop_le [OF u] \<open>t \<le> length buf\<close> by auto
    moreover have "u \<le> s1" "s1 \<le> length buf" using peek_le [OF p] \<open>u \<le> length buf\<close> by auto
    moreover have "s1 \<le> s2" "s2 \<le> length buf" using gettoken_le [OF g \<open>s1 \<le> length buf\<close>] by auto
    moreover have "s' = s1 \<or> (\<exists>d. parseline k buf s2 = Inr (d, s'))" using 1(1) t u p g by (auto simp: bnd_eq_Inr split: if_splits)
    ultimately show ?case using Suc(1) \<open>s \<le> t\<close> by fastforce }
  { case 2
    obtain c1 u where t: "parseexec k buf s = Inr (c1, u)" using 2 by (auto simp: bnd_eq_Inr)
    have "s \<le> u" "u \<le> length buf" using Suc(3) [OF t 2(2)] by auto
    obtain b s1 where p: "peek buf u [124] = (b, s1)" by fastforce
    obtain tk q e s2 where g: "gettoken buf s1 = (tk, q, e, s2)" using prod_cases4 by blast
    have "u \<le> s1" "s1 \<le> length buf" using peek_le [OF p] \<open>u \<le> length buf\<close> by auto
    moreover have "s1 \<le> s2" "s2 \<le> length buf" using gettoken_le [OF g \<open>s1 \<le> length buf\<close>] by auto
    moreover have "s' = s1 \<or> (\<exists>d. parsepipe k buf s2 = Inr (d, s'))" using 2(1) t p g by (auto simp: bnd_eq_Inr split: if_splits)
    ultimately show ?case using Suc(2) \<open>s \<le> u\<close> by fastforce }
  { case 3
    obtain b s1 where p: "peek buf s [40] = (b, s1)" by fastforce
    have "s \<le> s1" "s1 \<le> length buf" using peek_le [OF p] 3(2) by auto
    moreover have "parseblock k buf s1 = Inr (c, s') \<or> (\<exists>rs s2. parseredirs buf s1 = Inr (rs, s2) \<and> args_loop buf [] rs s2 = Inr (c, s'))"
      using 3(1) p by (auto simp: bnd_eq_Inr split: if_splits)
    ultimately show ?case using Suc(4) [of s1] parseredirs_le [of buf s1] args_loop_le [of buf "[]"] by fastforce }
  { case 4
    obtain b s1 where p: "peek buf s [40] = (b, s1)" by fastforce
    obtain tk q e s2 where g: "gettoken buf s1 = (tk, q, e, s2)" using prod_cases4 by blast
    obtain c1 u where u: "parseline k buf s2 = Inr (c1, u)" using 4 p g by (auto simp: bnd_eq_Inr split: if_splits)
    obtain b' s3 where p': "peek buf u [41] = (b', s3)" by fastforce
    obtain tk' q' e' s4 where g': "gettoken buf s3 = (tk', q', e', s4)" using prod_cases4 by blast
    have "s \<le> s1" "s1 \<le> length buf" using peek_le [OF p] 4(2) by auto
    moreover have "s1 \<le> s2" "s2 \<le> length buf" using gettoken_le [OF g \<open>s1 \<le> length buf\<close>] by auto
    moreover have "s2 \<le> u" "u \<le> length buf" using Suc(1) [OF u \<open>s2 \<le> length buf\<close>] by auto
    moreover have "u \<le> s3" "s3 \<le> length buf" using peek_le [OF p'] \<open>u \<le> length buf\<close> by auto
    moreover have "s3 \<le> s4" "s4 \<le> length buf" using gettoken_le [OF g' \<open>s3 \<le> length buf\<close>] by auto
    moreover obtain rs where "parseredirs buf s4 = Inr (rs, s')" using 4(1) p g u p' g' by (auto simp: bnd_eq_Inr split: if_splits)
    ultimately show ?case using parseredirs_le by fastforce }
qed simp_all
lemma bnd_not_Deadlock: "m \<noteq> Inl Deadlock \<Longrightarrow> (\<And>x. m = Inr x \<Longrightarrow> f x \<noteq> Inl Deadlock) \<Longrightarrow> bnd m f \<noteq> Inl Deadlock"
  by (cases m) simp_all

lemma parser_returns:
  "s \<le> length buf \<Longrightarrow> 4 * (length buf - s) + 4 \<le> k \<Longrightarrow> parseline k buf s \<noteq> Inl Deadlock"
  "s \<le> length buf \<Longrightarrow> 4 * (length buf - s) + 3 \<le> k \<Longrightarrow> parsepipe k buf s \<noteq> Inl Deadlock"
  "s \<le> length buf \<Longrightarrow> 4 * (length buf - s) + 2 \<le> k \<Longrightarrow> parseexec k buf s \<noteq> Inl Deadlock"
  "s \<le> length buf \<Longrightarrow> 4 * (length buf - s) + 1 \<le> k \<Longrightarrow> parseblock k buf s \<noteq> Inl Deadlock"
proof (induction k arbitrary: s)
  case (Suc k)
  have next_fuel: "s2 \<le> length buf \<and> 4 * (length buf - s2) + 4 \<le> 4 * (length buf - s)"
    if "s \<le> t" "peek buf t toks = (True, s1)" "gettoken buf s1 = (tk, q, e, s2)" for s t toks s1 tk q e s2
    using peek_token [OF that(2,3)] that(1) by linarith
  { case 1
    have pipe: "parsepipe k buf s \<noteq> Inl Deadlock" using Suc(2) [of s] 1 by simp
    show ?case unfolding parseline.simps
    proof (rule bnd_not_Deadlock [OF pipe], clarify)
      fix c t assume t: "parsepipe k buf s = Inr (c, t)"
      obtain c2 u where u: "back_loop buf c t = (c2, u)" by fastforce
      obtain b s1 where p: "peek buf u [59] = (b, s1)" by fastforce
      obtain tk q e s2 where g: "gettoken buf s1 = (tk, q, e, s2)" using prod_cases4 by blast
      have "s \<le> u" using parser_le(2) [OF t 1(1)] back_loop_le [OF u] by simp
      then have "b \<Longrightarrow> parseline k buf s2 \<noteq> Inl Deadlock" using next_fuel [of s u "[59]" s1] p g Suc(1) [of s2] 1(2) by auto
      moreover assume "(let (c, s) = back_loop buf c t; (b, s1) = peek buf s [59]
        in if b then let (_, _, _, s2) = gettoken buf s1 in bnd (parseline k buf s2) (\<lambda>(d, s). Inr (LIST c d, s)) else Inr (c, s1)) = Inl Deadlock"
      ultimately show False using u p g by (auto simp: bnd_def split: if_splits sum.splits)
    qed }
  { case 2
    have e: "parseexec k buf s \<noteq> Inl Deadlock" using Suc(3) [of s] 2 by simp
    show ?case unfolding parsepipe.simps
    proof (rule bnd_not_Deadlock [OF e], clarify)
      fix c u assume u: "parseexec k buf s = Inr (c, u)"
      obtain b s1 where p: "peek buf u [124] = (b, s1)" by fastforce
      obtain tk q e s2 where g: "gettoken buf s1 = (tk, q, e, s2)" using prod_cases4 by blast
      have "s \<le> u" using parser_le(3) [OF u 2(1)] by simp
      then have "b \<Longrightarrow> parsepipe k buf s2 \<noteq> Inl Deadlock" using next_fuel [of s u "[124]" s1] p g Suc(2) [of s2] 2(2) by auto
      moreover assume "(let (b, s1) = peek buf u [124]
        in if b then let (_, _, _, s2) = gettoken buf s1 in bnd (parsepipe k buf s2) (\<lambda>(d, s). Inr (PIPE c d, s)) else Inr (c, s1)) = Inl Deadlock"
      ultimately show False using p g by (auto simp: bnd_def split: if_splits sum.splits)
    qed }
  { case 3
    obtain b s1 where p: "peek buf s [40] = (b, s1)" by fastforce
    have "s \<le> s1" "s1 \<le> length buf" using peek_le [OF p] 3(1) by auto
    moreover have "4 * (length buf - s1) + 1 \<le> k" using 3(2) diff_le_mono2 [OF \<open>s \<le> s1\<close>, of "length buf"] by linarith
    ultimately have "parseblock k buf s1 \<noteq> Inl Deadlock" using Suc(4) [of s1] by blast
    then show ?case using p parseredirs_returns args_loop_returns by (auto simp: bnd_def split: sum.splits) }
  { case 4
    obtain b s1 where p: "peek buf s [40] = (b, s1)" by fastforce
    obtain tk q e s2 where g: "gettoken buf s1 = (tk, q, e, s2)" using prod_cases4 by blast
    have l: "b \<Longrightarrow> parseline k buf s2 \<noteq> Inl Deadlock" using next_fuel [of s s "[40]" s1] p g Suc(1) [of s2] 4(2) by auto
    have r: "parseredirs buf x \<noteq> Inl Deadlock" for x by (rule parseredirs_returns)
    show ?case using p g l by (auto simp: bnd_def r Let_def split: sum.splits prod.splits) }
qed simp_all

lemma parsecmd_returns: "parsecmd buf \<noteq> Inl Deadlock"
  using parser_returns(1) [of 0 buf "parse_fuel buf"] by (auto simp: parsecmd_def parse_fuel_def bnd_def split: sum.splits)

section \<open>Written commands\<close>

definition word_char :: "u8 \<Rightarrow> bool" where
  "word_char c \<longleftrightarrow> c \<noteq> 0 \<and> c \<notin> set whitespace \<and> c \<notin> set symbols"

definition is_word :: "u8 list \<Rightarrow> bool" where
  "is_word w \<longleftrightarrow> w \<noteq> [] \<and> (\<forall>c\<in>set w. word_char c)"

definition show_redir :: "u8 list redir \<Rightarrow> u8 list" where
  "show_redir = (\<lambda>(f, mode, fd). 32 # (if fd = 0 then 60 else 62) # 32 # f)"

definition show_redirs :: "u8 list redir list \<Rightarrow> u8 list" where
  "show_redirs rs = concat (map show_redir rs)"

definition show_words :: "u8 list list \<Rightarrow> u8 list" where
  "show_words ws = concat (map (\<lambda>w. 32 # w) ws)"

definition paren :: "bool \<Rightarrow> u8 list \<Rightarrow> u8 list" where
  "paren b t = (if b then [32, 40] @ t @ [32, 41] else t)"

text \<open>A command in the notation of the shell. The number is the level of the grammar at which it is used.\<close>

primrec show_cmd :: "u8 list cmd \<Rightarrow> nat \<Rightarrow> u8 list" where
  "show_cmd (EXEC ws) l = show_words ws"
| "show_cmd (REDIR c f mode fd) l = show_cmd c 3 @ show_redir (f, mode, fd)"
| "show_cmd (PIPE c d) l = paren (l > 2) (show_cmd c 3 @ [32, 124] @ show_cmd d 2)"
| "show_cmd (LIST c d) l = paren (l > 0) (show_cmd c 1 @ [32, 59] @ show_cmd d 0)"
| "show_cmd (BACK c) l = paren (l > 1) (show_cmd c 1 @ [32, 38])"

definition wf_redir :: "u8 list redir \<Rightarrow> bool" where
  "wf_redir = (\<lambda>(f, mode, fd). is_word f \<and> (mode = 0 \<and> fd = 0 \<or> mode = 0x201 \<and> fd = 1))"

primrec wf_cmd :: "u8 list cmd \<Rightarrow> bool" where
  "wf_cmd (EXEC ws) = ((\<forall>w\<in>set ws. is_word w) \<and> length ws < MAXARGS)"
| "wf_cmd (REDIR c f mode fd) = (wf_cmd c \<and> wf_redir (f, mode, fd))"
| "wf_cmd (PIPE c d) = (wf_cmd c \<and> wf_cmd d)"
| "wf_cmd (LIST c d) = (wf_cmd c \<and> wf_cmd d)"
| "wf_cmd (BACK c) = wf_cmd c"

section \<open>Reading tokens\<close>

abbreviation is_ws :: "u8 \<Rightarrow> bool" where "is_ws c \<equiv> c \<in> set whitespace"

text \<open>From \<open>s\<close> on the line holds \<open>t\<close>, apart from white space at the beginning.\<close>

definition sees :: "u8 list \<Rightarrow> nat \<Rightarrow> u8 list \<Rightarrow> bool" where
  "sees buf s t \<longleftrightarrow> s \<le> length buf \<and> dropWhile is_ws (drop s buf) = dropWhile is_ws t"

definition starts :: "u8 list \<Rightarrow> u8 list \<Rightarrow> bool" where
  "starts toks t = (case dropWhile is_ws t of [] \<Rightarrow> False | c # _ \<Rightarrow> c \<noteq> 0 \<and> c \<in> set toks)"

definition token :: "u8 list \<Rightarrow> ptrs \<Rightarrow> u8 list \<Rightarrow> bool" where
  "token buf = (\<lambda>(q, e) w. e = q + length w \<and> e \<le> length buf \<and> take (length w) (drop q buf) = w \<and> is_word w \<and> \<not> word_char (at buf e))"

lemma drop_skip_ws: "drop (skip_ws buf s) buf = dropWhile is_ws (drop s buf)"
  by (simp add: skip_ws_def dropWhile_eq_drop add.commute)

lemma at_drop: "at buf s = (case drop s buf of [] \<Rightarrow> 0 | c # _ \<Rightarrow> c)"
  by (cases "s < length buf") (simp_all add: at_def Cons_nth_drop_Suc [symmetric])

lemma sees_skip: "sees buf s t \<Longrightarrow> sees buf (skip_ws buf s) t"
  using skip_ws_le [of s buf] by (auto simp: sees_def drop_skip_ws)

lemma peek_sees: "sees buf s t \<Longrightarrow> peek buf s toks = (starts toks t, skip_ws buf s)"
  by (cases "dropWhile is_ws t") (simp_all add: peek_def Let_def starts_def sees_def at_drop drop_skip_ws del: dropWhile_eq_Nil_conv)

lemma sees_drop: "s \<le> length buf \<Longrightarrow> drop s buf = t \<Longrightarrow> sees buf (skip_ws buf s) t"
  using skip_ws_le [of s buf] by (auto simp: sees_def drop_skip_ws)

lemma gettoken_symbol:
  assumes "sees buf s t" "dropWhile is_ws t = c # r" "c \<in> {124, 40, 41, 59, 38, 60} \<or> c = 62 \<and> (r = [] \<or> hd r \<noteq> 62)"
  shows "\<exists>q e s'. gettoken buf s = (c, q, e, s') \<and> sees buf s' r"
proof -
  let ?q = "skip_ws buf s"
  have d: "drop ?q buf = c # r" using assms by (simp add: sees_def drop_skip_ws)
  then have lt: "?q < length buf" by (metis drop_eq_Nil linorder_not_less list.distinct(1))
  have d1: "drop (?q + 1) buf = r" using d by (metis Suc_eq_plus1 drop_Suc list.sel(3) tl_drop)
  have c: "at buf ?q = c" "c \<noteq> 0" using d assms(3) by (auto simp: at_drop)
  have n: "c = 62 \<Longrightarrow> at buf (?q + 1) \<noteq> 62" using assms(3) d1 by (auto simp: at_drop split: list.splits)
  have "gettoken buf s = (c, ?q, ?q + 1, skip_ws buf (?q + 1))" using c n assms(3) by (auto simp: gettoken_def Let_def)
  moreover have "sees buf (skip_ws buf (?q + 1)) r" using sees_drop [OF _ d1] lt by simp
  ultimately show ?thesis by blast
qed

lemma gettoken_word:
  assumes "sees buf s t" "dropWhile is_ws t = w @ r" "is_word w" "r = [] \<or> hd r = 32"
  shows "\<exists>q e s'. gettoken buf s = (97, q, e, s') \<and> sees buf s' r \<and> token buf (q, e) w"
proof -
  let ?q = "skip_ws buf s"
  have d: "drop ?q buf = w @ r" using assms by (simp add: sees_def drop_skip_ws)
  obtain c w' where w: "w = c # w'" "word_char c" using assms(3) by (cases w) (auto simp: is_word_def)
  have len: "?q + length w \<le> length buf" using arg_cong [OF d, of length] w by simp
  have d1: "drop (?q + length w) buf = r" using d by (simp add: add.commute flip: drop_drop)
  have at: "at buf ?q = c" "c \<noteq> 0" "c \<notin> set symbols" using d w by (auto simp: at_drop word_char_def)
  have e: "\<not> word_char (at buf (?q + length w))" using d1 assms(4)
    by (auto simp: at_drop word_char_def whitespace_def split: list.splits)
  have "takeWhile (\<lambda>c. c \<notin> set whitespace \<and> c \<notin> set symbols) (w @ r) = w"
    using assms(3,4) by (cases r) (auto simp: is_word_def word_char_def whitespace_def takeWhile_append)
  then have we: "word_end buf ?q = ?q + length w" using d by (simp add: word_end_def)
  have "gettoken buf s = (97, ?q, ?q + length w, skip_ws buf (?q + length w))"
    using at we by (auto simp: gettoken_def Let_def symbols_def)
  moreover have "sees buf (skip_ws buf (?q + length w)) r" using sees_drop [OF len d1] .
  moreover have "token buf (?q, ?q + length w) w" using d len e assms(3) by (simp add: token_def)
  ultimately show ?thesis by blast
qed

section \<open>Redirections and arguments\<close>

definition rel_redir :: "u8 list \<Rightarrow> ptrs redir \<Rightarrow> u8 list redir \<Rightarrow> bool" where
  "rel_redir buf = (\<lambda>(p, m, fd) (w, m', fd'). token buf p w \<and> m = m' \<and> fd = fd')"

definition sp :: "u8 list \<Rightarrow> bool" where
  "sp t \<longleftrightarrow> t = [] \<or> hd t = 32"

definition ends :: "u8 list \<Rightarrow> u8 list \<Rightarrow> bool" where
  "ends toks t \<longleftrightarrow> dropWhile is_ws t = [] \<or> starts toks t"

lemma blank [simp]: "is_ws 32" "\<not> is_ws 60" "\<not> is_ws 62" "\<not> is_ws 124" "\<not> is_ws 59" "\<not> is_ws 38" "\<not> is_ws 40" "\<not> is_ws 41"
  by (simp_all add: whitespace_def)

lemma starts_simps [simp]: "starts toks (32 # t) = starts toks t" "\<not> is_ws c \<Longrightarrow> starts toks (c # t) \<longleftrightarrow> c \<noteq> 0 \<and> c \<in> set toks"
  "\<not> starts toks []"
  by (simp_all add: starts_def)

lemma word_blank: "is_word w \<Longrightarrow> dropWhile is_ws (w @ t) = w @ t"
  by (cases w) (auto simp: is_word_def word_char_def)

lemma starts_word: "is_word w \<Longrightarrow> set toks \<subseteq> set symbols \<Longrightarrow> \<not> starts toks (w @ t)"
  using word_blank [of w t] by (cases w) (auto simp: is_word_def word_char_def starts_def)

lemma ends_starts: "ends toks t \<Longrightarrow> set toks \<inter> set toks' = {} \<Longrightarrow> \<not> starts toks' t"
  by (cases "dropWhile is_ws t") (auto simp: ends_def starts_def simp del: dropWhile_eq_Nil_conv)

lemma show_redirs_simps [simp]: "show_redirs [] = []" "show_redirs (r # rs) = show_redir r @ show_redirs rs"
  by (simp_all add: show_redirs_def)

lemma sp_redirs: "sp t \<Longrightarrow> sp (show_redirs rs @ t)"
  by (cases rs) (auto simp: sp_def show_redir_def split: prod.splits)

lemma redir_of_mode: "wf_redir (f, m, fd) \<Longrightarrow> rel_redir buf (redir_of (if fd = 0 then 60 else 62) p) (f, m, fd) \<longleftrightarrow> token buf p f"
  by (auto simp: wf_redir_def rel_redir_def redir_of_def)

lemma parseredirs_show:
  assumes "sees buf s (show_redirs rs @ t)" "\<forall>r\<in>set rs. wf_redir r" "sp t" "\<not> starts [60, 62] t"
  shows "\<exists>rs' s'. parseredirs buf s = Inr (rs', s') \<and> list_all2 (rel_redir buf) rs' rs \<and> sees buf s' t"
  using assms
proof (induction rs arbitrary: s)
  case Nil
  then show ?case using peek_sees [of buf s t] sees_skip [of buf s t] by (subst parseredirs.simps) simp
next
  case (Cons r rs)
  obtain f m fd where r: "r = (f, m, fd)" using prod_cases3 by blast
  then have f: "is_word f" using Cons.prems(2) by (simp add: wf_redir_def)
  define c where "c = (if fd = 0 then 60 else 62 :: u8)"
  then have c: "c = 60 \<or> c = 62" "\<not> is_ws c" "c \<noteq> 0" by auto
  let ?t = "32 # f @ show_redirs rs @ t"
  have s: "sees buf s (32 # c # ?t)" using Cons.prems(1) by (simp add: r show_redir_def c_def)
  note p = peek_sees [OF s, of "[60, 62]"]
  obtain q0 e0 s2 where g: "gettoken buf (skip_ws buf s) = (c, q0, e0, s2)" and s2: "sees buf s2 ?t"
    using gettoken_symbol [OF sees_skip [OF s], of c ?t] c by auto
  obtain q e s3 where h: "gettoken buf s2 = (97, q, e, s3)" and s3: "sees buf s3 (show_redirs rs @ t)" and tk: "token buf (q, e) f"
    using gettoken_word [OF s2, of f "show_redirs rs @ t"] f word_blank [OF f] sp_redirs [OF Cons.prems(3), of rs] by (auto simp: sp_def)
  obtain rs' s' where "parseredirs buf s3 = Inr (rs', s')" "list_all2 (rel_redir buf) rs' rs" "sees buf s' t"
    using Cons.IH [OF s3] Cons.prems by auto
  then show ?case using p g h tk c redir_of_mode [of f m fd buf "(q, e)", folded c_def] Cons.prems(2) r by (subst parseredirs.simps) auto
qed

lemma rel_redirs: "rel_cmd (token buf) c' c \<Longrightarrow> list_all2 (rel_redir buf) rs' rs \<Longrightarrow> rel_cmd (token buf) (redirs c' rs') (redirs c rs)"
  unfolding redirs_def
proof (induction rs' arbitrary: rs c c')
  case (Cons r' rs')
  then show ?case by (auto simp: list_all2_Cons1 rel_redir_def)
qed simp

lemma redirs_simps [simp]: "redirs c [] = c" "redirs c ((f, m, fd) # rs) = redirs (REDIR c f m fd) rs"
  by (simp_all add: redirs_def)

lemma sp_words: "sp t \<Longrightarrow> sp (show_words xs @ t)"
  by (cases xs) (auto simp: sp_def show_words_def)

text \<open>The arguments and the redirections after the last of them.\<close>

lemma args_loop_show:
  assumes "sees buf s (show_words xs @ show_redirs rs2 @ t)" "xs = [] \<longrightarrow> rs2 = []" "\<forall>w\<in>set xs. is_word w" "\<forall>r\<in>set rs2. wf_redir r"
    "sp t" "ends [124, 41, 38, 59] t" "list_all2 (token buf) as as0" "list_all2 (rel_redir buf) rs rs1" "length as0 + length xs < MAXARGS"
  shows "\<exists>c' s'. args_loop buf as rs s = Inr (c', s') \<and> rel_cmd (token buf) c' (redirs (EXEC (as0 @ xs)) (rs1 @ rs2)) \<and> sees buf s' t"
  using assms
proof (induction xs arbitrary: s as as0 rs rs1 rs2)
  case Nil
  then have s: "sees buf s t" by (simp add: show_words_def)
  have rel: "rel_cmd (token buf) (redirs (EXEC as) rs) (redirs (EXEC as0) rs1)" using Nil rel_redirs by simp
  show ?case
  proof (cases "starts [124, 41, 38, 59] t")
    case True
    then show ?thesis using rel Nil(2) peek_sees [OF s] sees_skip [OF s] by (subst args_loop.simps) simp
  next
    case False
    then have t: "dropWhile is_ws t = []" using Nil.prems(6) by (simp add: ends_def del: dropWhile_eq_Nil_conv)
    let ?s = "skip_ws buf s"
    have "drop ?s buf = []" using s t by (simp add: sees_def drop_skip_ws del: dropWhile_eq_Nil_conv)
    then have "gettoken buf ?s = (0, ?s, ?s, ?s)" by (simp add: gettoken_def Let_def at_drop)
    then show ?thesis using False rel Nil(2) peek_sees [OF s] sees_skip [OF s] by (subst args_loop.simps) simp
  qed
next
  case (Cons w xs)
  note IH = Cons.IH and prems = Cons.prems
  let ?t = "show_words xs @ show_redirs rs2 @ t"
  have w: "is_word w" and s: "sees buf s (32 # w @ ?t)" using Cons.prems(1,3) by (simp_all add: show_words_def)
  have sp: "sp ?t" using sp_words sp_redirs Cons.prems(5) by blast
  have "\<not> starts [124, 41, 38, 59] (w @ ?t)" by (rule starts_word [OF w]) (simp add: symbols_def)
  note p = peek_sees [OF s, of "[124, 41, 38, 59]", simplified this starts_simps]
  obtain q e s2 where g: "gettoken buf (skip_ws buf s) = (97, q, e, s2)" and s2: "sees buf s2 ?t" and tk: "token buf (q, e) w"
    using gettoken_word [OF sees_skip [OF s], of w ?t] w word_blank [OF w] sp by (auto simp: sp_def)
  have ne: "\<not> starts [60, 62] t" using ends_starts [OF Cons.prems(6)] by simp
  have n: "\<not> MAXARGS \<le> length as + 1" using Cons.prems(7,9) by (auto dest: list_all2_lengthD)
  have as: "list_all2 (token buf) (as @ [(q, e)]) (as0 @ [w])" using Cons.prems(7) tk by (simp add: list_all2_appendI)
  show ?case
  proof (cases xs)
    case Nil
    then obtain rs' s3 where r: "parseredirs buf s2 = Inr (rs', s3)" "list_all2 (rel_redir buf) rs' rs2" "sees buf s3 t"
      using parseredirs_show [of buf s2 rs2 t] s2 Cons.prems(4,5) ne by (auto simp: show_words_def)
    have "list_all2 (rel_redir buf) (rs @ rs') (rs1 @ rs2)" using Cons.prems(8) r(2) by (rule list_all2_appendI)
    then have "\<exists>c' s'. args_loop buf (as @ [(q, e)]) (rs @ rs') s3 = Inr (c', s') \<and> rel_cmd (token buf) c' (redirs (EXEC ((as0 @ [w]) @ [])) ((rs1 @ rs2) @ [])) \<and> sees buf s' t"
      using Cons.prems r(3) as by (intro Cons.IH [of s3 "[]", unfolded Nil]) (auto simp: show_words_def Nil)
    then show ?thesis using p g n r(1) Nil by (subst args_loop.simps) simp
  next
    case (Cons w2 xs2)
    have "\<not> starts [60, 62] ?t" using starts_word [of w2 "[60, 62]"] Cons prems(3)
      by (auto simp: show_words_def symbols_def)
    then obtain s3 where r: "parseredirs buf s2 = Inr ([], s3)" "sees buf s3 ?t"
      using parseredirs_show [of buf s2 "[]" ?t] s2 sp by auto
    have "\<exists>c' s'. args_loop buf (as @ [(q, e)]) rs s3 = Inr (c', s') \<and> rel_cmd (token buf) c' (redirs (EXEC ((as0 @ [w]) @ xs)) (rs1 @ rs2)) \<and> sees buf s' t"
      using prems r(2) as Cons by (intro IH) auto
    then show ?thesis using p g n r(1) by (subst args_loop.simps) simp
  qed
qed

section \<open>The levels of the grammar\<close>

text \<open>The outcome \<open>r\<close> is the command \<open>c\<close>, read up to the text \<open>t\<close>, unless the bound on the recursion was reached.\<close>

definition gives :: "u8 list \<Rightarrow> (ptrs cmd \<times> nat) res \<Rightarrow> u8 list cmd \<Rightarrow> u8 list \<Rightarrow> bool" where
  "gives buf r c t \<longleftrightarrow> r = Inl Deadlock \<or> (\<exists>c' s'. r = Inr (c', s') \<and> rel_cmd (token buf) c' c \<and> sees buf s' t)"

definition at_exec :: "u8 list \<Rightarrow> u8 list cmd \<Rightarrow> bool" where
  "at_exec buf c \<longleftrightarrow> (\<forall>k s rs t. sees buf s (show_cmd c 3 @ show_redirs rs @ t) \<longrightarrow> (\<forall>r\<in>set rs. wf_redir r) \<longrightarrow> sp t
     \<longrightarrow> ends [124, 41, 38, 59] t \<longrightarrow> gives buf (parseexec k buf s) (redirs c rs) t)"

definition at_pipe :: "u8 list \<Rightarrow> u8 list cmd \<Rightarrow> bool" where
  "at_pipe buf c \<longleftrightarrow> (\<forall>k s t. sees buf s (show_cmd c 2 @ t) \<longrightarrow> sp t \<longrightarrow> ends [41, 38, 59] t \<longrightarrow> gives buf (parsepipe k buf s) c t)"

definition at_back :: "u8 list \<Rightarrow> u8 list cmd \<Rightarrow> bool" where
  "at_back buf c \<longleftrightarrow> (\<forall>k s t. sees buf s (show_cmd c 1 @ t) \<longrightarrow> sp t \<longrightarrow> ends [41, 38, 59] t \<longrightarrow> parsepipe k buf s = Inl Deadlock
     \<or> (\<exists>p u c' s'. parsepipe k buf s = Inr (p, u) \<and> back_loop buf p u = back_loop buf c' s' \<and> rel_cmd (token buf) c' c \<and> sees buf s' t))"

definition at_line :: "u8 list \<Rightarrow> u8 list cmd \<Rightarrow> bool" where
  "at_line buf c \<longleftrightarrow> (\<forall>k s t. sees buf s (show_cmd c 0 @ t) \<longrightarrow> sp t \<longrightarrow> ends [41] t \<longrightarrow> gives buf (parseline k buf s) c t)"

lemma sp_show: "sp t \<Longrightarrow> sp (show_cmd c l @ t)"
proof (induction c arbitrary: l t)
  case (EXEC x)
  then show ?case using sp_words by simp
next
  case (REDIR c f m fd)
  have "sp (show_redir (f, m, fd) @ t)" by (simp add: sp_def show_redir_def)
  then show ?case using REDIR.IH by simp
next
  case (PIPE c d)
  have "sp (32 # r)" for r by (simp add: sp_def)
  then show ?case using PIPE.IH(1) [of "32 # 124 # show_cmd d 2 @ t"] by (simp add: paren_def)
next
  case (LIST c d)
  have "sp (32 # r)" for r by (simp add: sp_def)
  then show ?case using LIST.IH(1) [of "32 # 59 # show_cmd d 0 @ t"] by (simp add: paren_def)
next
  case (BACK c)
  have "sp (32 # r)" for r by (simp add: sp_def)
  then show ?case using BACK.IH [of "32 # 38 # t"] by (simp add: paren_def)
qed

lemma ends_simps [simp]: "ends toks (32 # t) = ends toks t" "\<not> is_ws c \<Longrightarrow> ends toks (c # t) \<longleftrightarrow> c \<noteq> 0 \<and> c \<in> set toks"
  by (simp_all add: ends_def)

lemma ends_mono: "ends toks t \<Longrightarrow> set toks \<subseteq> set toks' \<Longrightarrow> ends toks' t"
  by (cases "dropWhile is_ws t") (auto simp: ends_def starts_def simp del: dropWhile_eq_Nil_conv)

lemma sp_32 [simp]: "sp (32 # t)"
  by (simp add: sp_def)

lemma exec_pipe:
  assumes x: "at_exec buf c" and same: "show_cmd c 2 = show_cmd c 3"
  shows "at_pipe buf c"
  unfolding at_pipe_def
proof (intro allI impI)
  fix k s t assume t: "sees buf s (show_cmd c 2 @ t)" "sp t" "ends [41, 38, 59] t"
  show "gives buf (parsepipe k buf s) c t"
  proof (cases k)
    case (Suc k)
    have "gives buf (parseexec k buf s) c t"
      using x [unfolded at_exec_def, rule_format, of s "[]" t k] t same ends_mono [OF t(3)] by simp
    moreover have "\<not> starts [124] t" using ends_starts [OF t(3)] by simp
    ultimately show ?thesis using Suc by (auto simp: gives_def peek_sees sees_skip)
  qed (simp add: gives_def)
qed

lemma pipe_back:
  assumes x: "at_pipe buf c" and same: "show_cmd c 1 = show_cmd c 2"
  shows "at_back buf c"
  unfolding at_back_def using x same by (fastforce simp: at_pipe_def gives_def)

lemma back_loop_stop: "sees buf s t \<Longrightarrow> \<not> starts [38] t \<Longrightarrow> back_loop buf c s = (c, skip_ws buf s)"
  by (subst back_loop.simps) (simp add: peek_sees)

lemma back_line:
  assumes x: "at_back buf c" and same: "show_cmd c 0 = show_cmd c 1"
  shows "at_line buf c"
  unfolding at_line_def
proof (intro allI impI)
  fix k s t assume t: "sees buf s (show_cmd c 0 @ t)" "sp t" "ends [41] t"
  show "gives buf (parseline k buf s) c t"
  proof (cases k)
    case (Suc k)
    have n: "\<not> starts [38] t" "\<not> starts [59] t" using ends_starts [OF t(3)] by simp_all
    have "parsepipe k buf s = Inl Deadlock \<or> (\<exists>p u c' s'. parsepipe k buf s = Inr (p, u) \<and> back_loop buf p u = back_loop buf c' s'
        \<and> rel_cmd (token buf) c' c \<and> sees buf s' t)"
      using x [unfolded at_back_def, rule_format, of s t k] t same ends_mono [OF t(3)] by simp
    then consider "parsepipe k buf s = Inl Deadlock"
      | p u c' s' where "parsepipe k buf s = Inr (p, u)" "back_loop buf p u = back_loop buf c' s'" "rel_cmd (token buf) c' c" "sees buf s' t" by blast
    then show ?thesis
    proof cases
      case 2
      then have "back_loop buf p u = (c', skip_ws buf s')" using back_loop_stop [OF 2(4) n(1)] by simp
      then show ?thesis using 2 Suc n peek_sees [OF sees_skip [OF 2(4)], of "[59]"] sees_skip [OF 2(4)] by (simp add: gives_def)
    qed (simp add: Suc gives_def)
  qed (simp add: gives_def)
qed

lemma line_exec:
  assumes x: "at_line buf c" and par: "show_cmd c 3 = [32, 40] @ show_cmd c 0 @ [32, 41]"
  shows "at_exec buf c"
  unfolding at_exec_def
proof (intro allI impI)
  fix k s rs t assume t: "sees buf s (show_cmd c 3 @ show_redirs rs @ t)" "\<forall>r\<in>set rs. wf_redir r" "sp t" "ends [124, 41, 38, 59] t"
  let ?t = "show_cmd c 0 @ 32 # 41 # show_redirs rs @ t"
  have s: "sees buf s (32 # 40 # ?t)" using t(1) par by simp
  note p = peek_sees [OF s, of "[40]"]
  have s1: "sees buf (skip_ws buf s) (32 # 40 # ?t)" by (rule sees_skip [OF s])
  obtain q e s2 where g: "gettoken buf (skip_ws buf s) = (40, q, e, s2)" and s2: "sees buf s2 ?t"
    using gettoken_symbol [OF s1, of 40 ?t] by auto
  have ne: "\<not> starts [60, 62] t" using ends_starts [OF t(4)] by simp
  have block: "gives buf (parseblock j buf (skip_ws buf s)) (redirs c rs) t" for j
  proof (cases j)
    case (Suc j)
    have "gives buf (parseline j buf s2) c (32 # 41 # show_redirs rs @ t)"
      using x [unfolded at_line_def, rule_format, OF s2] by simp
    then consider "parseline j buf s2 = Inl Deadlock"
      | c' u where "parseline j buf s2 = Inr (c', u)" "rel_cmd (token buf) c' c" "sees buf u (32 # 41 # show_redirs rs @ t)" by (auto simp: gives_def)
    moreover have "gives buf (bnd (parseline j buf s2) (\<lambda>(c, s). let (b, s1) = peek buf s [41]
        in if \<not> b then Inl (Panic ''syntax - missing )'')
           else let (_, _, _, s2) = gettoken buf s1 in bnd (parseredirs buf s2) (\<lambda>(rs, s). Inr (redirs c rs, s)))) (redirs c rs) t"
      if "parseline j buf s2 = Inr (c', u)" "rel_cmd (token buf) c' c" and u: "sees buf u (32 # 41 # show_redirs rs @ t)" for c' u
    proof -
      obtain q e s4 where g': "gettoken buf (skip_ws buf u) = (41, q, e, s4)" and s4: "sees buf s4 (show_redirs rs @ t)"
        using gettoken_symbol [OF sees_skip [OF u], of 41 "show_redirs rs @ t"] by auto
      obtain rs' s' where "parseredirs buf s4 = Inr (rs', s')" "list_all2 (rel_redir buf) rs' rs" "sees buf s' t"
        using parseredirs_show [OF s4 t(2,3) ne] by blast
      then show ?thesis using that(1,2) g' peek_sees [OF u, of "[41]"] rel_redirs by (auto simp: gives_def)
    qed
    ultimately have "gives buf (bnd (parseline j buf s2) (\<lambda>(c, s). let (b, s1) = peek buf s [41]
        in if \<not> b then Inl (Panic ''syntax - missing )'')
           else let (_, _, _, s2) = gettoken buf s1 in bnd (parseredirs buf s2) (\<lambda>(rs, s). Inr (redirs c rs, s)))) (redirs c rs) t"
      by cases (simp add: gives_def, blast)
    then show ?thesis using Suc g peek_sees [OF s1, of "[40]"] by simp
  qed (simp add: gives_def)
  show "gives buf (parseexec k buf s) (redirs c rs) t" using p block by (cases k) (simp_all add: gives_def)
qed

lemma exec_EXEC:
  assumes "wf_cmd (EXEC xs)"
  shows "at_exec buf (EXEC xs)"
  unfolding at_exec_def
proof (intro allI impI)
  fix k s rs t assume t: "sees buf s (show_cmd (EXEC xs) 3 @ show_redirs rs @ t)" "\<forall>r\<in>set rs. wf_redir r" "sp t" "ends [124, 41, 38, 59] t"
  have xs: "\<forall>w\<in>set xs. is_word w" "length xs < MAXARGS" using assms by simp_all
  have ne: "\<not> starts [60, 62] t" "\<not> starts [40] t" using ends_starts [OF t(4)] by simp_all
  let ?t = "show_words xs @ show_redirs rs @ t"
  have s: "sees buf s ?t" using t(1) by simp
  have b: "\<not> starts [40] ?t" "xs \<noteq> [] \<Longrightarrow> \<not> starts [60, 62] ?t"
    using starts_word [of "hd xs" "[40]"] starts_word [of "hd xs" "[60, 62]"] ne(2) xs(1)
    by (cases xs; cases rs; auto simp: show_words_def symbols_def show_redir_def split: prod.splits)+
  note p = peek_sees [OF s, of "[40]"]
  have s1: "sees buf (skip_ws buf s) ?t" by (rule sees_skip [OF s])
  have "\<exists>rs' s2 c' s'. parseredirs buf (skip_ws buf s) = Inr (rs', s2) \<and> args_loop buf [] rs' s2 = Inr (c', s')
      \<and> rel_cmd (token buf) c' (redirs (EXEC xs) rs) \<and> sees buf s' t"
  proof (cases xs)
    case Nil
    obtain rs' s2 where r: "parseredirs buf (skip_ws buf s) = Inr (rs', s2)" "list_all2 (rel_redir buf) rs' rs" "sees buf s2 t"
      using parseredirs_show [of buf "skip_ws buf s" rs t] s1 Nil t(2,3) ne(1) by (auto simp: show_words_def)
    then show ?thesis using args_loop_show [of buf s2 "[]" "[]" t "[]" "[]" rs' rs] Nil t(3,4) by (simp add: show_words_def MAXARGS_def)
  next
    case (Cons w ys)
    obtain s2 where r: "parseredirs buf (skip_ws buf s) = Inr ([], s2)" "sees buf s2 ?t"
      using parseredirs_show [of buf "skip_ws buf s" "[]" ?t] s1 b(2) Cons sp_words [OF sp_redirs [OF t(3)], of xs rs] by auto
    then show ?thesis using args_loop_show [of buf s2 xs rs t "[]" "[]" "[]" "[]"] Cons t(2-4) xs by simp
  qed
  then show "gives buf (parseexec k buf s) (redirs (EXEC xs) rs) t" using p b(1) by (cases k) (auto simp: gives_def)
qed

lemma exec_REDIR:
  assumes "at_exec buf c" "wf_redir (f, m, fd)"
  shows "at_exec buf (REDIR c f m fd)"
  unfolding at_exec_def
proof (intro allI impI)
  fix k s rs t assume "sees buf s (show_cmd (REDIR c f m fd) 3 @ show_redirs rs @ t)" "\<forall>r\<in>set rs. wf_redir r" "sp t" "ends [124, 41, 38, 59] t"
  then show "gives buf (parseexec k buf s) (redirs (REDIR c f m fd) rs) t"
    using assms(1) [unfolded at_exec_def, rule_format, of s "(f, m, fd) # rs" t k] assms(2) by fastforce
qed

lemma pipe_PIPE:
  assumes c: "at_exec buf c" and d: "at_pipe buf d"
  shows "at_pipe buf (PIPE c d)"
  unfolding at_pipe_def
proof (intro allI impI)
  fix k s t assume t: "sees buf s (show_cmd (PIPE c d) 2 @ t)" "sp t" "ends [41, 38, 59] t"
  let ?t = "show_cmd d 2 @ t"
  show "gives buf (parsepipe k buf s) (PIPE c d) t"
  proof (cases k)
    case (Suc k)
    have "gives buf (parseexec k buf s) c (32 # 124 # ?t)"
      using c [unfolded at_exec_def, rule_format, of s "[]" "32 # 124 # ?t" k] t(1) by (simp add: paren_def)
    then consider "parseexec k buf s = Inl Deadlock"
      | c' u where "parseexec k buf s = Inr (c', u)" "rel_cmd (token buf) c' c" "sees buf u (32 # 124 # ?t)" by (auto simp: gives_def)
    then show ?thesis
    proof cases
      case 2
      obtain q e s2 where g: "gettoken buf (skip_ws buf u) = (124, q, e, s2)" and s2: "sees buf s2 ?t"
        using gettoken_symbol [OF sees_skip [OF 2(3)], of 124 ?t] by auto
      have "gives buf (parsepipe k buf s2) d t" using d [unfolded at_pipe_def, rule_format, OF s2 t(2,3)] .
      then show ?thesis using Suc 2 g peek_sees [OF 2(3), of "[124]"] by (auto simp: gives_def)
    qed (simp add: Suc gives_def)
  qed (simp add: gives_def)
qed

lemma back_BACK:
  assumes c: "at_back buf c"
  shows "at_back buf (BACK c)"
  unfolding at_back_def
proof (intro allI impI)
  fix k s t assume t: "sees buf s (show_cmd (BACK c) 1 @ t)" "sp t" "ends [41, 38, 59] t"
  have "parsepipe k buf s = Inl Deadlock \<or> (\<exists>p u c' s'. parsepipe k buf s = Inr (p, u) \<and> back_loop buf p u = back_loop buf c' s'
      \<and> rel_cmd (token buf) c' c \<and> sees buf s' (32 # 38 # t))"
    using c [unfolded at_back_def, rule_format, of s "32 # 38 # t" k] t(1) by (simp add: paren_def)
  then consider "parsepipe k buf s = Inl Deadlock"
    | p u c' s' where "parsepipe k buf s = Inr (p, u)" "back_loop buf p u = back_loop buf c' s'" "rel_cmd (token buf) c' c"
      "sees buf s' (32 # 38 # t)" by blast
  then show "parsepipe k buf s = Inl Deadlock \<or> (\<exists>p u c' s'. parsepipe k buf s = Inr (p, u) \<and> back_loop buf p u = back_loop buf c' s'
      \<and> rel_cmd (token buf) c' (BACK c) \<and> sees buf s' t)"
  proof cases
    case 2
    obtain q e s2 where g: "gettoken buf (skip_ws buf s') = (38, q, e, s2)" and s2: "sees buf s2 t"
      using gettoken_symbol [OF sees_skip [OF 2(4)], of 38 t] by auto
    have "back_loop buf c' s' = back_loop buf (BACK c') s2"
      using g peek_sees [OF 2(4), of "[38]"] by (subst back_loop.simps) simp
    then show ?thesis using 2 s2 by (metis cmd.rel_intros(5))
  qed simp
qed

lemma line_LIST:
  assumes c: "at_back buf c" and d: "at_line buf d"
  shows "at_line buf (LIST c d)"
  unfolding at_line_def
proof (intro allI impI)
  fix k s t assume t: "sees buf s (show_cmd (LIST c d) 0 @ t)" "sp t" "ends [41] t"
  let ?t = "show_cmd d 0 @ t"
  show "gives buf (parseline k buf s) (LIST c d) t"
  proof (cases k)
    case (Suc k)
    have "parsepipe k buf s = Inl Deadlock \<or> (\<exists>p u c' s'. parsepipe k buf s = Inr (p, u) \<and> back_loop buf p u = back_loop buf c' s'
        \<and> rel_cmd (token buf) c' c \<and> sees buf s' (32 # 59 # ?t))"
      using c [unfolded at_back_def, rule_format, of s "32 # 59 # ?t" k] t(1) by (simp add: paren_def)
    then consider "parsepipe k buf s = Inl Deadlock"
      | p u c' s' where "parsepipe k buf s = Inr (p, u)" "back_loop buf p u = back_loop buf c' s'" "rel_cmd (token buf) c' c"
        "sees buf s' (32 # 59 # ?t)" by blast
    then show ?thesis
    proof cases
      case 2
      have b: "back_loop buf p u = (c', skip_ws buf s')" using 2(2) back_loop_stop [OF 2(4)] by simp
      note s1 = sees_skip [OF 2(4)]
      obtain q e s2 where g: "gettoken buf (skip_ws buf s') = (59, q, e, s2)" and s2: "sees buf s2 ?t"
        using gettoken_symbol [OF s1, of 59 ?t] by auto
      have "gives buf (parseline k buf s2) d t" using d [unfolded at_line_def, rule_format, OF s2 t(2,3)] .
      then show ?thesis using Suc 2(1,3) g b peek_sees [OF s1, of "[59]"] by (auto simp: gives_def)
    qed (simp add: Suc gives_def)
  qed (simp add: gives_def)
qed

lemma all_levels: "wf_cmd c \<Longrightarrow> at_exec buf c \<and> at_pipe buf c \<and> at_back buf c \<and> at_line buf c"
proof (induction c)
  case (EXEC xs)
  then show ?case using exec_EXEC [of xs buf] exec_pipe [of buf "EXEC xs"] pipe_back [of buf "EXEC xs"] back_line [of buf "EXEC xs"] by simp
next
  case (REDIR c f m fd)
  let ?c = "REDIR c f m fd"
  show ?case using REDIR exec_REDIR [of buf c f m fd] exec_pipe [of buf ?c] pipe_back [of buf ?c] back_line [of buf ?c] by simp
next
  case (PIPE c d)
  let ?c = "PIPE c d"
  show ?case using PIPE pipe_PIPE [of buf c d] pipe_back [of buf ?c] back_line [of buf ?c] line_exec [of buf ?c] by (simp add: paren_def)
next
  case (LIST c d)
  let ?c = "LIST c d"
  show ?case using LIST line_LIST [of buf c d] line_exec [of buf ?c] exec_pipe [of buf ?c] pipe_back [of buf ?c] by (simp add: paren_def)
next
  case (BACK c)
  let ?c = "BACK c"
  show ?case using BACK back_BACK [of buf c] back_line [of buf ?c] line_exec [of buf ?c] exec_pipe [of buf ?c] by (simp add: paren_def)
qed

section \<open>Reading back\<close>

lemma nulterminate_length [simp]: "length (nulterminate c buf) = length buf"
proof (induction c buf rule: nulterminate.induct)
  case (1 as buf)
  show ?case by (induction as arbitrary: buf) auto
qed simp_all

lemma nulterminate_nth: "i < length buf \<Longrightarrow> nulterminate c buf ! i = (if i \<in> snd ` set_cmd c then 0 else buf ! i)"
proof (induction c buf rule: nulterminate.induct)
  case (1 as buf)
  then show ?case by (induction as arbitrary: buf) (force simp: nth_list_update)+
next
  case (2 c q e mode fd buf)
  then show ?case by (cases "e = i") (force simp: nth_list_update)+
qed (auto split: if_splits)

lemma rel_cmd_set: "rel_cmd R c' c \<Longrightarrow> p \<in> set_cmd c' \<Longrightarrow> \<exists>w. R p w"
proof (induction c' arbitrary: c)
  case (EXEC xs)
  then show ?case by (cases c) (auto simp: list_all2_conv_all_nth in_set_conv_nth)
next
  case (REDIR c' f m fd)
  then show ?case by (cases c) auto
next
  case (PIPE c' d')
  then show ?case by (cases c) auto
next
  case (LIST c' d')
  then show ?case by (cases c) auto
next
  case (BACK c')
  then show ?case by (cases c) auto
qed

text \<open>No zero byte is put into a word, since each goes where a word has ended.\<close>

lemma cstring_token:
  assumes c: "rel_cmd (token buf) c' c" and p: "p \<in> set_cmd c'" and w: "token buf p w"
  shows "cstring (nulterminate c' (buf @ [0])) p = w"
proof -
  obtain q e where qe: "p = (q, e)" by fastforce
  let ?b = "nulterminate c' (buf @ [0])"
  have e: "e = q + length w" "e \<le> length buf" "take (length w) (drop q buf) = w" "is_word w" using w by (auto simp: token_def qe)
  have ends: "\<not> word_char (at buf i)" if i: "i \<in> snd ` set_cmd c'" for i
  proof -
    from i obtain q' where "(q', i) \<in> set_cmd c'" by force
    then obtain w' where "token buf (q', i) w'" using rel_cmd_set [OF c] by blast
    then show ?thesis by (auto simp: token_def)
  qed
  have char: "?b ! (q + j) = w ! j" "w ! j \<noteq> 0" if "j < length w" for j
  proof -
    have "buf ! (q + j) = w ! j" using e that by (metis add.commute nth_drop nth_take le_add1 le_trans)
    moreover have "word_char (w ! j)" using e(4) that by (simp add: is_word_def)
    moreover have "q + j < length buf" using e that by simp
    ultimately show "?b ! (q + j) = w ! j" "w ! j \<noteq> 0"
      using ends [of "q + j"] by (auto simp: nulterminate_nth nth_append at_def word_char_def)
  qed
  have "?b ! e = 0" using p e(2) by (force simp: nulterminate_nth qe)
  then have "drop q ?b = w @ 0 # drop (Suc e) ?b"
    using e(1,2) char(1) by (intro nth_equalityI) (auto simp: nth_append nth_Cons' less_Suc_eq_le)
  then show ?thesis using e(4) by (simp add: cstring_def qe is_word_def word_char_def takeWhile_append)
qed

text \<open>
  C14. The parser of the shell returns on every line, with a command or with one of its error messages;
  its recursion is never deeper than the length of the line allows. It reads every command back from
  its notation, in which pipes, lists, background commands and redirections are nested at will with
  parentheses: the words of the result, taken as C strings from the line after \<^verbatim>\<open>nulterminate\<close> has put its
  zero bytes there, are the words that were written. A command has at most nine arguments.
\<close>

theorem parse_print:
  "parsecmd buf \<noteq> Inl Deadlock
   \<and> (wf_cmd c \<longrightarrow> (\<exists>c' buf'. parsecmd (show_cmd c 0) = Inr (c', buf') \<and> map_cmd (cstring buf') c' = c))"
proof (intro conjI impI parsecmd_returns)
  assume wf: "wf_cmd c"
  let ?b = "show_cmd c 0"
  have s: "sees ?b 0 (?b @ [])" by (simp add: sees_def)
  have "gives ?b (parseline (parse_fuel ?b) ?b 0) c []"
    using all_levels [OF wf, of ?b, unfolded at_line_def, THEN conjunct2, THEN conjunct2, THEN conjunct2, rule_format, OF s]
    by (simp add: sp_def ends_def)
  moreover have "parseline (parse_fuel ?b) ?b 0 \<noteq> Inl Deadlock" by (rule parser_returns) (simp_all add: parse_fuel_def)
  ultimately obtain c' s' where c': "parseline (parse_fuel ?b) ?b 0 = Inr (c', s')" "rel_cmd (token ?b) c' c" "sees ?b s' []"
    by (auto simp: gives_def)
  have "drop (skip_ws ?b s') ?b = []" using c'(3) by (simp add: sees_def drop_skip_ws)
  then have "skip_ws ?b s' = length ?b" using sees_skip [OF c'(3)] by (auto simp: sees_def)
  then have "parsecmd ?b = Inr (c', nulterminate c' (?b @ [0]))" using c'(1) by (simp add: parsecmd_def peek_def Let_def)
  moreover have "rel_cmd (\<lambda>p w. cstring (nulterminate c' (?b @ [0])) p = w) c' c"
    by (rule cmd.rel_mono_strong [OF c'(2)]) (use cstring_token [OF c'(2)] in blast)
  then have "map_cmd (cstring (nulterminate c' (?b @ [0]))) c' = c"
    using cmd.rel_map(1) [of "(=)" "cstring (nulterminate c' (?b @ [0]))" c' c] by (simp add: cmd.rel_eq)
  ultimately show "\<exists>c' buf'. parsecmd ?b = Inr (c', buf') \<and> map_cmd (cstring buf') c' = c" by blast
qed

text \<open>The line \<open> ( a b | c ) > f\<close>.\<close>

theorem parse_print_witness:
  "let c = REDIR (PIPE (EXEC [[97], [98]]) (EXEC [[99]])) [102] 0x201 1
   in show_cmd c 0 = [32, 40, 32, 97, 32, 98, 32, 124, 32, 99, 32, 41, 32, 62, 32, 102]
     \<and> (\<exists>c' buf'. parsecmd (show_cmd c 0) = Inr (c', buf') \<and> map_cmd (cstring buf') c' = c)"
proof -
  let ?c = "REDIR (PIPE (EXEC [[97], [98]]) (EXEC [[99]])) [102] 0x201 1"
  have "wf_cmd ?c" by (simp add: wf_redir_def is_word_def word_char_def whitespace_def symbols_def MAXARGS_def)
  moreover have "show_cmd ?c 0 = [32, 40, 32, 97, 32, 98, 32, 124, 32, 99, 32, 41, 32, 62, 32, 102]"
    by (simp add: show_words_def show_redir_def paren_def)
  ultimately show ?thesis using parse_print [of "[]" ?c] unfolding Let_def by blast
qed

end
