(* ===== verification/Shrun.thy ===== *)
theory Shrun
  imports Sh Proc
begin

text \<open>
  How the shell runs a command (\<^verbatim>\<open>runcmd\<close> and \<^verbatim>\<open>main\<close> of \<^verbatim>\<open>sh.c\<close>): the processes it makes and the
  descriptors each of them has. A descriptor refers to one of the descriptors the shell started with,
  to a file it has opened, or to an end of the pipe made at a node of the command.
\<close>

section \<open>Descriptors\<close>

datatype obj = Std nat | Opened "u8 list" u32 | PipeR "nat list" | PipeW "nat list"

type_synonym fdtab = "nat \<Rightarrow> obj option"

text \<open>The kernel hands out the lowest free descriptor.\<close>

definition lowest :: "fdtab \<Rightarrow> nat option" where
  "lowest t = List.find (\<lambda>fd. t fd = None) [0..<NOFILE]"

definition alloc :: "obj \<Rightarrow> fdtab \<Rightarrow> (nat \<times> fdtab) option" where
  "alloc x t = map_option (\<lambda>fd. (fd, t(fd \<mapsto> x))) (lowest t)"

definition sh_close :: "nat \<Rightarrow> fdtab \<Rightarrow> fdtab" where
  "sh_close fd t = t(fd := None)"

definition sh_dup :: "nat \<Rightarrow> fdtab \<Rightarrow> fdtab" where
  "sh_dup fd t = (case t fd of None \<Rightarrow> t | Some x \<Rightarrow> (case alloc x t of None \<Rightarrow> t | Some (_, t') \<Rightarrow> t'))"

definition sh_pipe :: "nat list \<Rightarrow> fdtab \<Rightarrow> (nat \<times> nat \<times> fdtab) option" where
  "sh_pipe pos t =
     (case alloc (PipeR pos) t of None \<Rightarrow> None
      | Some (p0, t) \<Rightarrow> (case alloc (PipeW pos) t of None \<Rightarrow> None | Some (p1, t) \<Rightarrow> Some (p0, p1, t)))"

section \<open>Running a command\<close>

text \<open>
  What the kernel answers: whether a file can be opened in a mode, whether a program can be executed,
  and whether the pipe and the first or second \<^verbatim>\<open>fork\<close> at a node of the command succeed. A node is
  named by the path that leads to it.
\<close>

record answers =
  can_open :: "u8 list \<Rightarrow> u32 \<Rightarrow> bool"
  can_exec :: "u8 list \<Rightarrow> bool"
  pipe_ok :: "nat list \<Rightarrow> bool"
  fork_ok :: "nat list \<Rightarrow> nat \<Rightarrow> bool"

text \<open>
  What becomes of a process: it executes a program with its descriptors, prints a message and exits, or
  exits; it waits for a child before it goes on, waits for two children, or leaves a child behind.
\<close>

datatype job =
  Exec "u8 list list" fdtab
| Message "u8 list"
| Nothing
| Then job job
| Both job job
| Detached job

definition message :: "string \<Rightarrow> u8 list \<Rightarrow> string \<Rightarrow> job" where
  "message a w b = Message (ascii_bytes a @ w @ ascii_bytes b @ [10])"

primrec runcmd :: "answers \<Rightarrow> u8 list cmd \<Rightarrow> nat list \<Rightarrow> fdtab \<Rightarrow> job" where
  "runcmd os (EXEC argv) pos t =
     (case argv of [] \<Rightarrow> Nothing
      | a # _ \<Rightarrow> if can_exec os a then Exec argv t else message ''exec '' a '' failed'')"
| "runcmd os (REDIR c f mode fd) pos t =
     (case (if can_open os f mode then alloc (Opened f mode) (sh_close fd t) else None) of
        None \<Rightarrow> message ''open '' f '' failed''
      | Some (_, t) \<Rightarrow> runcmd os c (pos @ [0]) t)"
| "runcmd os (PIPE c d) pos t =
     (case (if pipe_ok os pos then sh_pipe pos t else None) of
        None \<Rightarrow> message ''pipe'' [] ''''
      | Some (p0, p1, t) \<Rightarrow>
          if \<not> fork_ok os pos 0 then message ''fork'' [] ''''
          else Both (runcmd os c (pos @ [0]) (sh_close p1 (sh_close p0 (sh_dup p1 (sh_close 1 t)))))
                 (if \<not> fork_ok os pos 1 then message ''fork'' [] ''''
                  else runcmd os d (pos @ [1]) (sh_close p1 (sh_close p0 (sh_dup p0 (sh_close 0 t))))))"
| "runcmd os (LIST c d) pos t =
     (if \<not> fork_ok os pos 0 then message ''fork'' [] ''''
      else Then (runcmd os c (pos @ [0]) t) (runcmd os d (pos @ [1]) t))"
| "runcmd os (BACK c) pos t =
     (if \<not> fork_ok os pos 0 then message ''fork'' [] '''' else Detached (runcmd os c (pos @ [0]) t))"

text \<open>\<^verbatim>\<open>runcmd(parsecmd(buf))\<close> in the child of the shell.\<close>

definition run_line :: "answers \<Rightarrow> u8 list \<Rightarrow> fdtab \<Rightarrow> job res" where
  "run_line os line t =
     (case parsecmd line of
        Inr (c, buf) \<Rightarrow> Inr (runcmd os (map_cmd (cstring buf) c) [] t)
      | Inl (Panic m) \<Rightarrow> Inr (message m [] '''')
      | Inl e \<Rightarrow> Inl e)"

section \<open>The main loop\<close>

definition console_name :: "u8 list" where
  "console_name = ascii_bytes ''console''"

text \<open>The loop that makes sure that the descriptors 0, 1 and 2 are open; \<open>n\<close> is the number of free descriptors.\<close>

fun open_std :: "nat \<Rightarrow> answers \<Rightarrow> fdtab \<Rightarrow> fdtab" where
  "open_std 0 os t = t"
| "open_std (Suc n) os t =
     (case (if can_open os console_name 2 then alloc (Opened console_name 2) t else None) of
        None \<Rightarrow> t
      | Some (fd, t) \<Rightarrow> if fd \<ge> 3 then sh_close fd t else open_std n os t)"

text \<open>\<^verbatim>\<open>gets(buf, nbuf)\<close>: the bytes of a line up to and including its end, and the rest of the input.\<close>

fun get_line :: "nat \<Rightarrow> u8 list \<Rightarrow> u8 list \<times> u8 list" where
  "get_line (Suc (Suc n)) (c # inp) =
     (if c = 10 \<or> c = 13 then ([c], inp) else (case get_line (Suc n) inp of (l, inp) \<Rightarrow> (c # l, inp)))"
| "get_line n inp = ([], inp)"

lemma get_line_length: "length inp = length (fst (get_line n inp)) + length (snd (get_line n inp))"
  by (induction n inp rule: get_line.induct) (auto simp: case_prod_unfold)

lemma get_line_rest: "(l, inp') = get_line n inp \<Longrightarrow> takeWhile p l \<noteq> [] \<Longrightarrow> length inp' < length inp"
proof -
  assume "(l, inp') = get_line n inp" "takeWhile p l \<noteq> []"
  then have "length inp = length l + length inp'" "l \<noteq> []" using get_line_length [of inp n] by (auto dest: sym)
  then show ?thesis by simp
qed

datatype shell_event = Chdir "u8 list" | Job "job res" | CannotFork

function shell :: "answers \<Rightarrow> (nat \<Rightarrow> bool) \<Rightarrow> nat \<Rightarrow> fdtab \<Rightarrow> u8 list \<Rightarrow> shell_event list" where
  "shell os fork_main k t inp =
     (case get_line 100 inp of (raw, inp') \<Rightarrow>
        let line = takeWhile (\<lambda>c. c \<noteq> 0) raw
        in if line = [] then []
           else if take 3 line = [99, 100, 32] then Chdir (drop 3 (butlast line)) # shell os fork_main (Suc k) t inp'
           else if \<not> fork_main k then [CannotFork]
           else Job (run_line os line t) # shell os fork_main (Suc k) t inp')"
  by pat_completeness auto
termination
  by (relation "measure (\<lambda>(os, f, k, t, inp). length inp)") (auto dest: get_line_rest)

section \<open>Wiring\<close>

text \<open>The intended effect of a command on descriptors, without the calls that bring it about.\<close>

primrec wired :: "answers \<Rightarrow> u8 list cmd \<Rightarrow> nat list \<Rightarrow> fdtab \<Rightarrow> job" where
  "wired os (EXEC argv) pos t =
     (case argv of [] \<Rightarrow> Nothing
      | a # _ \<Rightarrow> if can_exec os a then Exec argv t else message ''exec '' a '' failed'')"
| "wired os (REDIR c f mode fd) pos t =
     (if can_open os f mode then wired os c (pos @ [0]) (t(fd \<mapsto> Opened f mode)) else message ''open '' f '' failed'')"
| "wired os (PIPE c d) pos t =
     (if \<not> pipe_ok os pos then message ''pipe'' [] ''''
      else if \<not> fork_ok os pos 0 then message ''fork'' [] ''''
      else Both (wired os c (pos @ [0]) (t(1 \<mapsto> PipeW pos)))
             (if fork_ok os pos 1 then wired os d (pos @ [1]) (t(0 \<mapsto> PipeR pos)) else message ''fork'' [] ''''))"
| "wired os (LIST c d) pos t =
     (if fork_ok os pos 0 then Then (wired os c (pos @ [0]) t) (wired os d (pos @ [1]) t) else message ''fork'' [] '''')"
| "wired os (BACK c) pos t =
     (if fork_ok os pos 0 then Detached (wired os c (pos @ [0]) t) else message ''fork'' [] '''')"

primrec redirects :: "u8 list cmd \<Rightarrow> nat set" where
  "redirects (EXEC argv) = {}"
| "redirects (REDIR c f mode fd) = insert fd (redirects c)"
| "redirects (PIPE c d) = redirects c \<union> redirects d"
| "redirects (LIST c d) = redirects c \<union> redirects d"
| "redirects (BACK c) = redirects c"

primrec job_tables :: "job \<Rightarrow> fdtab set" where
  "job_tables (Exec argv t) = {t}"
| "job_tables (Message m) = {}"
| "job_tables Nothing = {}"
| "job_tables (Then j k) = job_tables j \<union> job_tables k"
| "job_tables (Both j k) = job_tables j \<union> job_tables k"
| "job_tables (Detached j) = job_tables j"

definition std :: "fdtab \<Rightarrow> bool" where
  "std t \<longleftrightarrow> dom t = {0, 1, 2}"

lemma std_None: "std t \<Longrightarrow> t fd = None \<longleftrightarrow> fd \<noteq> 0 \<and> fd \<noteq> 1 \<and> fd \<noteq> 2"
  unfolding std_def by (metis domIff insert_iff singletonD)

lemma std_upd: "std t \<Longrightarrow> fd < 3 \<Longrightarrow> std (t(fd \<mapsto> x))"
  by (auto simp: std_def)

lemma upto_NOFILE: "[0..<NOFILE] = 0 # 1 # 2 # 3 # 4 # [5..<NOFILE]"
  by (simp add: NOFILE_def upt_conv_Cons)

lemma alloc_reopen: "std t \<Longrightarrow> fd < 3 \<Longrightarrow> alloc x (sh_close fd t) = Some (fd, t(fd \<mapsto> x))"
  unfolding alloc_def lowest_def upto_NOFILE
  by (cases "fd = 0"; cases "fd = 1"; cases "fd = 2") (simp_all add: sh_close_def std_None)

lemma sh_pipe_std: "std t \<Longrightarrow> sh_pipe pos t = Some (3, 4, t(3 \<mapsto> PipeR pos, 4 \<mapsto> PipeW pos))"
  unfolding sh_pipe_def alloc_def lowest_def upto_NOFILE by (auto simp: std_None)

lemma pipe_left:
  assumes "std t"
  shows "sh_close 4 (sh_close 3 (sh_dup 4 (sh_close 1 (t(3 \<mapsto> PipeR pos, 4 \<mapsto> PipeW pos))))) = t(1 \<mapsto> PipeW pos)"
proof -
  have n: "t 3 = None" "t 4 = None" using std_None [OF assms] by simp_all
  show ?thesis using assms unfolding sh_dup_def alloc_def lowest_def upto_NOFILE
    by (simp add: sh_close_def std_None) (simp add: fun_eq_iff n)
qed

lemma pipe_right:
  assumes "std t"
  shows "sh_close 4 (sh_close 3 (sh_dup 3 (sh_close 0 (t(3 \<mapsto> PipeR pos, 4 \<mapsto> PipeW pos))))) = t(0 \<mapsto> PipeR pos)"
proof -
  have n: "t 3 = None" "t 4 = None" using std_None [OF assms] by simp_all
  show ?thesis using assms unfolding sh_dup_def alloc_def lowest_def upto_NOFILE
    by (simp add: sh_close_def std_None) (simp add: fun_eq_iff n)
qed

lemma runcmd_wired: "std t \<Longrightarrow> redirects c \<subseteq> {0, 1, 2} \<Longrightarrow> runcmd os c pos t = wired os c pos t"
proof (induction c arbitrary: pos t)
  case (REDIR c f mode fd)
  then have fd: "fd < 3" by auto
  show ?case using REDIR.IH [of "t(fd \<mapsto> Opened f mode)"] std_upd [OF REDIR.prems(1) fd] REDIR.prems(2) alloc_reopen [OF REDIR.prems(1) fd]
    by (simp del: fun_upd_apply)
next
  case (PIPE c d)
  have "std (t(1 \<mapsto> PipeW pos))" "std (t(0 \<mapsto> PipeR pos))" using std_upd [OF PIPE.prems(1)] by simp_all
  then show ?case using PIPE.prems PIPE.IH(1) [of "t(1 \<mapsto> PipeW pos)"] PIPE.IH(2) [of "t(0 \<mapsto> PipeR pos)"] sh_pipe_std pipe_left pipe_right
    by (simp del: fun_upd_apply)
qed simp_all

lemma wired_std: "std t \<Longrightarrow> redirects c \<subseteq> {0, 1, 2} \<Longrightarrow> t' \<in> job_tables (wired os c pos t) \<Longrightarrow> std t'"
proof (induction c arbitrary: pos t)
  case (EXEC argv)
  then show ?case by (auto simp: message_def split: list.splits if_splits)
next
  case (REDIR c f mode fd)
  then have "std (t(fd \<mapsto> x))" for x using std_upd [OF REDIR.prems(1), of fd] by auto
  then show ?case using REDIR by (auto simp: message_def split: if_splits)
next
  case (PIPE c d)
  have "std (t(1 \<mapsto> PipeW pos))" "std (t(0 \<mapsto> PipeR pos))" using std_upd [OF PIPE.prems(1)] by simp_all
  then show ?case using PIPE.prems(2,3) PIPE.IH(1) [of "t(1 \<mapsto> PipeW pos)"] PIPE.IH(2) [of "t(0 \<mapsto> PipeR pos)"]
    by (auto simp: message_def simp del: fun_upd_apply split: if_splits)
qed (auto simp: message_def split: if_splits)



end
