(* ===== verification/Umalloc.thy ===== *)
theory Umalloc
  imports Main
begin

text \<open>
  The memory allocator of user programs (\<^verbatim>\<open>umalloc.c\<close>): a circular list of free blocks in the order of
  their addresses, each with a header that holds the next block and its size in units of a header.
  Addresses are numbers of bytes and sizes numbers of units. The header at an address is a pair of
  fields; what the program keeps in its blocks is not modelled.
\<close>

section \<open>malloc and free\<close>

record header =
  h_ptr :: nat
  h_size :: nat

record uheap =
  hdr :: "nat \<Rightarrow> header"
  freep :: nat
  brk :: nat

text \<open>\<^verbatim>\<open>sizeof(Header)\<close>.\<close>

definition UNIT :: nat where "UNIT = 16"

abbreviation ptr :: "uheap \<Rightarrow> nat \<Rightarrow> nat" where "ptr h a \<equiv> h_ptr (hdr h a)"
abbreviation size_at :: "uheap \<Rightarrow> nat \<Rightarrow> nat" where "size_at h a \<equiv> h_size (hdr h a)"

definition set_ptr :: "nat \<Rightarrow> nat \<Rightarrow> uheap \<Rightarrow> uheap" where
  "set_ptr a x h = h\<lparr>hdr := (hdr h)(a := (hdr h a)\<lparr>h_ptr := x\<rparr>)\<rparr>"

definition set_size :: "nat \<Rightarrow> nat \<Rightarrow> uheap \<Rightarrow> uheap" where
  "set_size a n h = h\<lparr>hdr := (hdr h)(a := (hdr h a)\<lparr>h_size := n\<rparr>)\<rparr>"

text \<open>The loop of \<^verbatim>\<open>free\<close>: the block after which \<open>bp\<close> belongs.\<close>

partial_function (option) free_find :: "uheap \<Rightarrow> nat \<Rightarrow> nat \<Rightarrow> nat option" where
  "free_find h bp p =
     (if bp > p \<and> bp < ptr h p then Some p
      else if p \<ge> ptr h p \<and> (bp > p \<or> bp < ptr h p) then Some p
      else free_find h bp (ptr h p))"

definition free_link :: "nat \<Rightarrow> nat \<Rightarrow> uheap \<Rightarrow> uheap" where
  "free_link bp p h =
     (let h = (if bp + UNIT * size_at h bp = ptr h p
               then set_ptr bp (ptr h (ptr h p)) (set_size bp (size_at h bp + size_at h (ptr h p)) h)
               else set_ptr bp (ptr h p) h);
          h = (if p + UNIT * size_at h p = bp
               then set_ptr p (ptr h bp) (set_size p (size_at h p + size_at h bp) h)
               else set_ptr p bp h)
      in h\<lparr>freep := p\<rparr>)"

definition free :: "nat \<Rightarrow> uheap \<Rightarrow> uheap option" where
  "free ap h = (let bp = ap - UNIT in map_option (\<lambda>p. free_link bp p h) (free_find h bp (freep h)))"

text \<open>\<open>grants\<close> says whether the kernel extends the process from a size by a number of bytes; 0 is the null pointer.\<close>

definition morecore :: "(nat \<Rightarrow> nat \<Rightarrow> bool) \<Rightarrow> nat \<Rightarrow> uheap \<Rightarrow> (nat \<times> uheap) option" where
  "morecore grants nu h =
     (let nu = (if nu < 4096 then 4096 else nu); p = brk h
      in if \<not> grants p (nu * UNIT) then Some (0, h)
         else map_option (\<lambda>h. (freep h, h)) (free (p + UNIT) (set_size p nu (h\<lparr>brk := p + nu * UNIT\<rparr>))))"

text \<open>A block that is large enough is taken whole or cut at its end.\<close>

definition take_block :: "nat \<Rightarrow> nat \<Rightarrow> nat \<Rightarrow> uheap \<Rightarrow> nat \<times> uheap" where
  "take_block nunits prevp p h =
     (if size_at h p = nunits then (p + UNIT, (set_ptr prevp (ptr h p) h)\<lparr>freep := prevp\<rparr>)
      else let h = set_size p (size_at h p - nunits) h; p = p + UNIT * size_at h p
        in (p + UNIT, (set_size p nunits h)\<lparr>freep := prevp\<rparr>))"

partial_function (option) malloc_loop :: "(nat \<Rightarrow> nat \<Rightarrow> bool) \<Rightarrow> nat \<Rightarrow> nat \<Rightarrow> nat \<Rightarrow> uheap \<Rightarrow> (nat \<times> uheap) option" where
  "malloc_loop grants nunits prevp p h =
     (if size_at h p \<ge> nunits then Some (take_block nunits prevp p h)
      else if p = freep h
      then Option.bind (morecore grants nunits h) (\<lambda>(p, h).
        if p = 0 then Some (0, h) else malloc_loop grants nunits p (ptr h p) h)
      else malloc_loop grants nunits p (ptr h p) h)"

text \<open>\<open>base\<close> is the address of the static header.\<close>

definition malloc :: "(nat \<Rightarrow> nat \<Rightarrow> bool) \<Rightarrow> nat \<Rightarrow> nat \<Rightarrow> uheap \<Rightarrow> (nat \<times> uheap) option" where
  "malloc grants base nbytes h =
     (let nunits = (nbytes + UNIT - 1) div UNIT + 1;
          h = (if freep h = 0 then set_size base 0 (set_ptr base base (h\<lparr>freep := base\<rparr>)) else h)
      in malloc_loop grants nunits (freep h) (ptr h (freep h)) h)"

section \<open>The free list\<close>

text \<open>
  The list of blocks (address, size) that the pointers run through; the last of them points to \<open>z\<close>.
\<close>

definition first :: "(nat \<times> nat) list \<Rightarrow> nat \<Rightarrow> nat" where
  "first rs z = (case rs of [] \<Rightarrow> z | r # _ \<Rightarrow> fst r)"

primrec links :: "uheap \<Rightarrow> (nat \<times> nat) list \<Rightarrow> nat \<Rightarrow> bool" where
  "links h [] z = True"
| "links h (r # rs) z = (size_at h (fst r) = snd r \<and> ptr h (fst r) = first rs z \<and> links h rs z)"

lemma first_simps [simp]: "first [] z = z" "first (r # rs) z = fst r" "first (xs @ ys) z = first xs (first ys z)"
  by (auto simp: first_def split: list.splits)

lemma links_append: "links h (xs @ ys) z \<longleftrightarrow> links h xs (first ys z) \<and> links h ys z"
  by (induction xs) auto

lemma links_cong: "(\<And>a. a \<in> fst ` set rs \<Longrightarrow> hdr h' a = hdr h a) \<Longrightarrow> links h' rs z = links h rs z"
  by (induction rs) auto

lemma set_fields [simp]:
  "hdr (set_ptr a x h) b = (if b = a then (hdr h a)\<lparr>h_ptr := x\<rparr> else hdr h b)"
  "hdr (set_size a n h) b = (if b = a then (hdr h a)\<lparr>h_size := n\<rparr> else hdr h b)"
  "freep (set_ptr a x h) = freep h" "freep (set_size a n h) = freep h" "brk (set_ptr a x h) = brk h" "brk (set_size a n h) = brk h"
  by (simp_all add: set_ptr_def set_size_def)

definition span :: "nat \<times> nat \<Rightarrow> nat set" where
  "span r = {fst r..<fst r + UNIT * snd r}"

definition cells :: "(nat \<times> nat) list \<Rightarrow> nat set" where
  "cells rs = (\<Union>r\<in>set rs. span r)"

definition apart :: "nat \<times> nat \<Rightarrow> nat \<times> nat \<Rightarrow> bool" where
  "apart r r' \<longleftrightarrow> fst r + UNIT * snd r < fst r'"

text \<open>The new block, joined with the free one that follows if they touch.\<close>

fun glue :: "nat \<times> nat \<Rightarrow> (nat \<times> nat) list \<Rightarrow> (nat \<times> nat) list" where
  "glue (a, n) [] = [(a, n)]"
| "glue (a, n) ((b, m) # ys) = (if a + UNIT * n = b then (a, n + m) # ys else (a, n) # (b, m) # ys)"

lemma first_glue [simp]: "first (glue r ys) z = fst r"
  by (induction r ys rule: glue.induct) auto

lemma cells_simps [simp]: "cells [] = {}" "cells (r # rs) = span r \<union> cells rs" "cells (xs @ ys) = cells xs \<union> cells ys"
  by (auto simp: cells_def)

lemma span_join: "span (a, n) \<union> span (a + UNIT * n, m) = span (a, n + m)"
  by (simp add: span_def distrib_left ivl_disj_un_two(3) add.assoc)

lemma cells_glue [simp]: "cells (glue r ys) = span r \<union> cells ys"
proof (induction r ys rule: glue.induct)
  case (2 a n b m ys)
  then show ?case by (auto simp flip: span_join)
qed simp

lemma glue_sorted:
  assumes "sorted_wrt apart ys" "\<forall>y\<in>set ys. fst r + UNIT * snd r \<le> fst y"
  shows "sorted_wrt apart (glue r ys)"
  using assms
proof (induction r ys rule: glue.induct)
  case (2 a n b m ys)
  then show ?case by (fastforce simp: apart_def algebra_simps)
qed simp
text \<open>The walk of \<open>free\<close> ends at the block before \<open>bp\<close> from wherever in the ring it starts.\<close>

lemma find_forward:
  assumes "links h (xs @ (p, s) # ys) z" "sorted_wrt (<) (map fst (xs @ (p, s) # ys))" "z \<le> p" "p < bp"
    "\<forall>y\<in>set ys. bp < fst y" "q \<in> fst ` set (xs @ [(p, s)])"
  shows "free_find h bp q = Some p"
  using assms
proof (induction xs arbitrary: q)
  case Nil
  then show ?case by (subst free_find.simps) (cases ys; auto)
next
  case (Cons x xs)
  let ?n = "first xs p"
  have n: "ptr h (fst x) = ?n" "fst x < ?n" "?n \<le> p"
    using Cons.prems(1,2) by (cases xs; auto)+
  have "?n \<in> fst ` set (xs @ [(p, s)])" by (cases xs) auto
  then have "free_find h bp ?n = Some p" using Cons by simp
  moreover have "free_find h bp (fst x) = free_find h bp ?n"
    using n Cons.prems(4) by (subst free_find.simps) simp
  ultimately show ?case using Cons by (cases "q = fst x") auto
qed

lemma find_wraps:
  assumes "links h ys z" "sorted_wrt (<) (map fst ys)" "z < bp" "\<forall>y\<in>set ys. bp < fst y" "q \<in> fst ` set ys"
  shows "free_find h bp q = free_find h bp z"
  using assms
proof (induction ys arbitrary: q)
  case (Cons y ys)
  let ?n = "first ys z"
  have "free_find h bp (fst y) = free_find h bp ?n"
    using Cons.prems by (subst free_find.simps) (cases ys; auto)
  moreover have "free_find h bp ?n = free_find h bp z" using Cons by (cases ys) auto
  ultimately show ?case using Cons by (cases "q = fst y") auto
qed simp

lemma free_find_ring:
  assumes "links h (xs @ (p, s) # ys) z" "z = first (xs @ [(p, s)]) 0" "sorted_wrt (<) (map fst (xs @ (p, s) # ys))" "p < bp"
    "\<forall>y\<in>set ys. bp < fst y" "q \<in> fst ` set (xs @ (p, s) # ys)"
  shows "free_find h bp q = Some p"
proof -
  have z: "z \<le> p" "z \<in> fst ` set (xs @ [(p, s)])" using assms(2,3) by (cases xs; force)+
  have fwd: "free_find h bp q = Some p" if "q \<in> fst ` set (xs @ [(p, s)])" for q
    using find_forward [OF assms(1,3) z(1) assms(4,5) that] .
  have "free_find h bp q = free_find h bp z" if "q \<in> fst ` set ys"
    using assms z(1) that by (intro find_wraps [where ys = ys]) (auto simp: links_append sorted_wrt_append)
  then show ?thesis using fwd [OF z(2)] fwd [of q] assms(6) by auto
qed

text \<open>Linking a block in joins it with its neighbours.\<close>

lemma free_link_hdr:
  assumes "bp \<noteq> p"
  shows "hdr (free_link bp p h) p =
      (if p + UNIT * size_at h p = bp
       then \<lparr>h_ptr = ptr (free_link bp p h) bp, h_size = size_at h p + size_at (free_link bp p h) bp\<rparr>
       else \<lparr>h_ptr = bp, h_size = size_at h p\<rparr>)"
    and "hdr (free_link bp p h) bp =
      (if bp + UNIT * size_at h bp = ptr h p
       then \<lparr>h_ptr = ptr h (ptr h p), h_size = size_at h bp + size_at h (ptr h p)\<rparr>
       else \<lparr>h_ptr = ptr h p, h_size = size_at h bp\<rparr>)"
    and "a \<noteq> p \<Longrightarrow> a \<noteq> bp \<Longrightarrow> hdr (free_link bp p h) a = hdr h a"
  using assms by (auto simp: free_link_def Let_def intro!: header.equality)

lemma free_link_links:
  assumes "links h (xs @ (p, s) # ys) z" "size_at h bp = n" "distinct (map fst (xs @ (p, s) # ys))" "bp \<notin> fst ` set (xs @ (p, s) # ys)"
    "bp + UNIT * n \<noteq> z"
  shows "links (free_link bp p h) (xs @ glue (p, s) (glue (bp, n) ys)) z"
proof -
  have ne: "bp \<noteq> p" using assms(4) by auto
  have frame: "links (free_link bp p h) rs w = links h rs w" if "p \<notin> fst ` set rs" "bp \<notin> fst ` set rs" for rs w
    by (rule links_cong) (use that free_link_hdr(3) [OF ne] in metis)
  have fr: "links (free_link bp p h) xs p" "links (free_link bp p h) ys z"
    using assms by (auto simp: links_append frame image_Un)
  have p: "size_at h p = s" "ptr h p = first ys z" using assms(1) by (simp_all add: links_append)
  show ?thesis
  proof (cases ys)
    case Nil
    then show ?thesis using fr p ne assms(2,5) by (simp add: links_append free_link_hdr(1,2) [OF ne])
  next
    case (Cons y zs)
    obtain b m where y: "y = (b, m)" by fastforce
    have "size_at h b = m" "ptr h b = first zs z" using assms(1) Cons y by (simp_all add: links_append)
    then show ?thesis using fr p ne assms(2,5) Cons y by (simp add: links_append free_link_hdr(1,2) [OF ne])
  qed
qed

text \<open>The ring of the free blocks \<open>fl\<close>, in the order of their addresses, no two of them touching.\<close>

definition ring :: "nat \<Rightarrow> uheap \<Rightarrow> (nat \<times> nat) list \<Rightarrow> bool" where
  "ring B h fl \<longleftrightarrow> links h ((B, 0) # fl) B \<and> sorted_wrt apart ((B, 0) # fl) \<and> (\<forall>r\<in>set fl. 0 < snd r)"

lemma sorted_apart: "sorted_wrt apart rs \<Longrightarrow> sorted_wrt (<) (map fst rs)"
  unfolding sorted_wrt_map by (erule sorted_wrt_mono_rel [rotated]) (auto simp: apart_def)

lemma glue_set: "r \<in> set (glue x ys) \<Longrightarrow> r \<in> set ys \<or> fst r = fst x \<and> snd x \<le> snd r"
  by (induction x ys rule: glue.induct) (auto split: if_splits)

lemma glue_has: "\<exists>r\<in>set (glue x ys). fst r = fst x \<and> snd x \<le> snd r"
  by (induction x ys rule: glue.induct) auto

lemma glue_keeps: "y \<in> set ys \<Longrightarrow> \<exists>r\<in>set (glue x ys). snd y \<le> snd r"
  by (induction x ys rule: glue.induct) auto

lemma span_lower: "0 < snd r \<Longrightarrow> fst r \<in> span r"
  by (cases r) (auto simp: span_def UNIT_def)

lemma ring_split:
  assumes r: "ring B h fl" and n: "0 < n" "B < bp" and d: "span (bp, n) \<inter> cells fl = {}"
  obtains xs p s ys where "(B, 0) # fl = xs @ (p, s) # ys" "p < bp" "p + UNIT * s \<le> bp" "\<forall>y\<in>set ys. bp + UNIT * n < fst y \<or> bp + UNIT * n = fst y"
proof -
  let ?rs = "(B, 0) # fl" and ?P = "\<lambda>r. fst r < bp"
  have pos: "\<forall>r\<in>set fl. 0 < snd r" and so: "sorted_wrt (<) (map fst ?rs)" using r sorted_apart [of ?rs] by (auto simp: ring_def)
  have "takeWhile ?P ?rs \<noteq> []" using n by simp
  then obtain xs p s where tw: "takeWhile ?P ?rs = xs @ [(p, s)]" by (metis rev_exhaust surj_pair)
  have eq: "?rs = xs @ (p, s) # dropWhile ?P ?rs" using takeWhile_dropWhile_id [of ?P ?rs] tw by simp
  have p: "p < bp" using tw set_takeWhileD [of "(p, s)" ?P ?rs] by simp
  have in_fl: "span x \<inter> span (bp, n) = {}" if "x \<in> set ?rs" for x
  proof (cases "x \<in> set fl")
    case True
    then have "span x \<subseteq> cells fl" by (auto simp: cells_def)
    then show ?thesis using d by blast
  qed (use that in \<open>auto simp: span_def\<close>)
  have "p + UNIT * s \<le> bp"
  proof -
    have "(p, s) \<in> set ?rs" by (subst eq) simp
    then have "bp \<notin> span (p, s)" using in_fl [of "(p, s)"] span_lower [of "(bp, n)"] n by auto
    then show ?thesis using p by (auto simp: span_def)
  qed
  moreover have "bp + UNIT * n \<le> fst y" if y: "y \<in> set (dropWhile ?P ?rs)" for y
  proof -
    have yr: "y \<in> set ?rs" using y set_dropWhileD by metis
    have "bp \<le> fst y"
    proof (cases "dropWhile ?P ?rs")
      case (Cons z zs)
      then have "\<not> ?P z" using hd_dropWhile [of ?P ?rs] by simp
      moreover have "fst z \<le> fst y" using y Cons so by (subst (asm) eq) (auto simp: sorted_wrt_append)
      ultimately show ?thesis by simp
    qed (use y in simp)
    moreover have "fst y \<in> span y" using yr pos n \<open>bp \<le> fst y\<close> by (intro span_lower) auto
    then have "fst y \<notin> span (bp, n)" using in_fl [OF yr] by auto
    ultimately show ?thesis by (auto simp: span_def)
  qed
  ultimately show thesis using that [OF eq p] by (auto simp: le_less)
qed

lemma ring_insert:
  assumes r: "ring B h fl" and n: "0 < n" "B < bp" "size_at h bp = n" and d: "span (bp, n) \<inter> cells fl = {}"
    and q: "q \<in> fst ` set ((B, 0) # fl)"
  shows "\<exists>p fl'. free_find h bp q = Some p \<and> ring B (free_link bp p h) fl' \<and> cells fl' = cells fl \<union> span (bp, n) \<and>
    p \<in> fst ` set ((B, 0) # fl) \<and> p \<in> fst ` set ((B, 0) # fl') \<and> (\<exists>r\<in>set fl'. n \<le> snd r)"
proof -
  obtain xs p s ys where eq: "(B, 0) # fl = xs @ (p, s) # ys" and p: "p < bp" "p + UNIT * s \<le> bp"
    and ys: "\<forall>y\<in>set ys. bp + UNIT * n < fst y \<or> bp + UNIT * n = fst y"
    using ring_split [OF r n(1,2) d] by blast
  let ?rs = "xs @ (p, s) # ys" and ?new = "xs @ glue (p, s) (glue (bp, n) ys)"
  have so: "sorted_wrt apart ?rs" and l: "links h ?rs B" and pos: "\<forall>r\<in>set fl. 0 < snd r"
    using r eq by (auto simp: ring_def)
  have ys': "bp < fst y" if "y \<in> set ys" for y using ys that n by (auto simp: UNIT_def)
  have B: "B = first (xs @ [(p, s)]) 0" using eq by (cases xs) auto
  have find: "free_find h bp q = Some p"
    using free_find_ring [OF l B sorted_apart [OF so] p(1)] ys' q eq by metis
  have xs: "fst x < p" if "x \<in> set xs" for x using sorted_apart [OF so] that by (auto simp: sorted_wrt_append)
  have "bp \<notin> fst ` set ?rs" using xs ys' p(1) by fastforce
  moreover have "distinct (map fst ?rs)" using sorted_apart [OF so] strict_sorted_iff by blast
  ultimately have links: "links (free_link bp p h) ?new B"
    using l n by (intro free_link_links) auto
  have "sorted_wrt apart (glue (bp, n) ys)" using so ys by (intro glue_sorted) (auto simp: sorted_wrt_append)
  then have "sorted_wrt apart (glue (p, s) (glue (bp, n) ys))"
    using p ys by (elim glue_sorted) (auto dest!: glue_set)
  then have sorted: "sorted_wrt apart ?new"
    using so p ys by (auto simp: sorted_wrt_append apart_def dest!: glue_set)
  have hd: "\<exists>fl'. ?new = (B, 0) # fl' \<and> (\<forall>r\<in>set fl'. 0 < snd r) \<and> (\<exists>r\<in>set fl'. n \<le> snd r)"
  proof (cases xs)
    case Nil
    moreover have "glue (B, 0) (glue (bp, n) ys) = (B, 0) # glue (bp, n) ys"
      using n(2) first_glue(1) [of "(bp, n)" ys 0] by (cases "glue (bp, n) ys") auto
    moreover have "\<exists>r\<in>set (glue (bp, n) ys). n \<le> snd r" using glue_has [of "(bp, n)" ys] by auto
    moreover have "\<forall>r\<in>set (glue (bp, n) ys). 0 < snd r" if "\<forall>r\<in>set ys. 0 < snd r" using that n(1) by (auto dest!: glue_set)
    ultimately show ?thesis using eq pos by auto
  next
    case (Cons x us)
    then have "fl = us @ (p, s) # ys" "x = (B, 0)" using eq by auto
    moreover have "\<exists>r\<in>set (glue (p, s) (glue (bp, n) ys)). n \<le> snd r"
      using glue_has [of "(bp, n)" ys] glue_keeps [of _ "glue (bp, n) ys" "(p, s)"] by (metis le_trans snd_conv)
    moreover have "\<forall>r\<in>set (glue (p, s) (glue (bp, n) ys)). 0 < snd r" if "0 < s" "\<forall>r\<in>set ys. 0 < snd r"
      using that n(1) by (auto dest!: glue_set)
    ultimately show ?thesis using Cons pos by auto
  qed
  then obtain fl' where fl': "?new = (B, 0) # fl'" "\<forall>r\<in>set fl'. 0 < snd r" "\<exists>r\<in>set fl'. n \<le> snd r" by blast
  have "cells ((B, 0) # fl') = cells ((B, 0) # fl) \<union> span (bp, n)" unfolding eq fl'(1) [symmetric] by auto
  then have "cells fl' = cells fl \<union> span (bp, n)" by (simp add: span_def)
  moreover have "p \<in> fst ` set ((B, 0) # fl')"
    unfolding fl'(1) [symmetric] using glue_has [of "(p, s)" "glue (bp, n) ys"] by force
  moreover have "p \<in> fst ` set ((B, 0) # fl)" unfolding eq by force
  ultimately show ?thesis using find links sorted fl' unfolding ring_def by metis
qed

section \<open>The heap and its blocks\<close>

text \<open>\<open>A\<close> gives the blocks in use: the address of the header and the size.\<close>

definition in_use :: "nat \<Rightarrow> uheap \<Rightarrow> (nat \<rightharpoonup> nat) \<Rightarrow> bool" where
  "in_use B h A \<longleftrightarrow> (\<forall>a n. A a = Some n \<longrightarrow> 0 < n \<and> B < a \<and> size_at h a = n \<and> a + UNIT * n \<le> brk h) \<and>
     (\<forall>a n b m. A a = Some n \<longrightarrow> A b = Some m \<longrightarrow> a \<noteq> b \<longrightarrow> span (a, n) \<inter> span (b, m) = {})"

definition heap_with :: "nat \<Rightarrow> uheap \<Rightarrow> (nat \<rightharpoonup> nat) \<Rightarrow> (nat \<times> nat) list \<Rightarrow> bool" where
  "heap_with B h A fl \<longleftrightarrow> 0 < B \<and> B < brk h \<and> ring B h fl \<and> freep h \<in> fst ` set ((B, 0) # fl) \<and> cells fl \<subseteq> {..<brk h} \<and>
     in_use B h A \<and> (\<forall>a n. A a = Some n \<longrightarrow> span (a, n) \<inter> cells fl = {})"

definition heap_inv :: "nat \<Rightarrow> uheap \<Rightarrow> (nat \<rightharpoonup> nat) \<Rightarrow> bool" where
  "heap_inv B h A \<longleftrightarrow> (if freep h = 0 then A = Map.empty \<and> 0 < B \<and> B < brk h else \<exists>fl. heap_with B h A fl)"

lemma free_link_brk [simp]: "brk (free_link bp p h) = brk h" "freep (free_link bp p h) = p"
  by (simp_all add: free_link_def Let_def)

lemma in_use_cong:
  "in_use B h A \<Longrightarrow> (\<And>a n. A a = Some n \<Longrightarrow> size_at h' a = size_at h a) \<Longrightarrow> brk h \<le> brk h' \<Longrightarrow> in_use B h' A"
  unfolding in_use_def by (metis le_trans)

lemma heap_withD:
  assumes "heap_with B h A fl"
  shows "0 < B" "B < brk h" "ring B h fl" "freep h \<in> fst ` set ((B, 0) # fl)" "cells fl \<subseteq> {..<brk h}" "in_use B h A"
    and "A a = Some n \<Longrightarrow> 0 < n" "A a = Some n \<Longrightarrow> B < a" "A a = Some n \<Longrightarrow> size_at h a = n" "A a = Some n \<Longrightarrow> a + UNIT * n \<le> brk h"
    "A a = Some n \<Longrightarrow> span (a, n) \<inter> cells fl = {}" "A a = Some n \<Longrightarrow> A b = Some m \<Longrightarrow> a \<noteq> b \<Longrightarrow> span (a, n) \<inter> span (b, m) = {}"
  using assms unfolding heap_with_def in_use_def by blast+

lemma heap_with_addrs:
  assumes "heap_with B h A fl" "r \<in> set ((B, 0) # fl)"
  shows "fst r \<in> insert B (cells fl)" "fst r < brk h" "B \<le> fst r" "fst r \<notin> dom A"
proof -
  have pos: "r = (B, 0) \<or> r \<in> set fl \<and> 0 < snd r \<and> B < fst r" using assms by (auto simp: heap_with_def ring_def apart_def)
  then show in_cells: "fst r \<in> insert B (cells fl)" using span_lower [of r] by (auto simp: cells_def)
  then show "fst r < brk h" using assms(1) by (auto simp: heap_with_def)
  show "B \<le> fst r" using pos by auto
  have "a \<noteq> fst r" if "A a = Some n" for a n
    using that assms(1) in_cells span_lower [of "(a, n)"] unfolding heap_with_def in_use_def by (metis disjoint_iff fst_conv insertE less_irrefl snd_conv)
  then show "fst r \<notin> dom A" by blast
qed

text \<open>Freeing a block that is neither in use nor free, with its size in its header.\<close>

lemma free_block:
  assumes w: "heap_with B h A fl" and n: "0 < n" "B < a" "size_at h a = n" "a + UNIT * n \<le> brk h"
    and d: "span (a, n) \<inter> cells fl = {}" "\<And>b m. A b = Some m \<Longrightarrow> span (a, n) \<inter> span (b, m) = {}"
  shows "\<exists>h' fl'. free (a + UNIT) h = Some h' \<and> heap_with B h' A fl' \<and> (\<exists>r\<in>set fl'. n \<le> snd r)"
proof -
  have r: "ring B h fl" "freep h \<in> fst ` set ((B, 0) # fl)" using w by (auto simp: heap_with_def)
  obtain p fl' where p: "free_find h a (freep h) = Some p" "ring B (free_link a p h) fl'" "cells fl' = cells fl \<union> span (a, n)"
    "p \<in> fst ` set ((B, 0) # fl)" "p \<in> fst ` set ((B, 0) # fl')" "\<exists>r\<in>set fl'. n \<le> snd r"
    using ring_insert [OF r(1) n(1-3) d(1) r(2)] by blast
  have ne: "b \<noteq> a \<and> b \<noteq> p" if "A b = Some m" for b m
  proof
    have "0 < m" using w that by (auto simp: heap_with_def in_use_def)
    then show "b \<noteq> a" using d(2) [OF that] span_lower [of "(a, n)"] span_lower [of "(b, m)"] n(1) by auto
    show "b \<noteq> p" using p(4) heap_with_addrs(4) [OF w] that by blast
  qed
  have ap: "a \<noteq> p" using p(4) heap_with_addrs(1) [OF w] d(1) span_lower [of "(a, n)"] n(1,2) by fastforce
  have "in_use B (free_link a p h) A"
    by (rule in_use_cong [of B h]) (use w ne free_link_hdr(3) [OF ap] in \<open>auto simp: heap_with_def\<close>)
  moreover have "span (a, n) \<subseteq> {..<brk h}" using n by (auto simp: span_def)
  moreover have "span (b, m) \<inter> cells fl' = {}" if "A b = Some m" for b m
    unfolding p(3) using heap_withD(11) [OF w that] d(2) [OF that] by blast
  ultimately have "heap_with B (free_link a p h) A fl'"
    using p heap_withD(1,2,5) [OF w] unfolding heap_with_def by simp
  then show ?thesis using p by (auto simp: free_def Let_def)
qed

lemma free_in_use:
  assumes w: "heap_with B h A fl" and a: "A a = Some n"
  shows "\<exists>h' fl'. free (a + UNIT) h = Some h' \<and> heap_with B h' (A(a := None)) fl'"
proof -
  have "heap_with B h (A(a := None)) fl" using w by (auto simp: heap_with_def in_use_def)
  moreover have "span (a, n) \<inter> span (b, m) = {}" if "(A(a := None)) b = Some m" for b m
    using heap_withD(12) [OF w a, of b m] that by (auto split: if_splits)
  ultimately show ?thesis
    using free_block [of B h "A(a := None)" fl n a] heap_withD(7-11) [OF w a] by blast
qed

lemma morecore_grows:
  assumes w: "heap_with B h A fl"
  shows "if grants (brk h) (max nu 4096 * UNIT)
    then \<exists>h' fl'. morecore grants nu h = Some (freep h', h') \<and> heap_with B h' A fl' \<and> (\<exists>r\<in>set fl'. nu \<le> snd r)
    else morecore grants nu h = Some (0, h)"
proof -
  let ?nu = "max nu 4096" and ?p = "brk h"
  let ?h = "set_size ?p ?nu (h\<lparr>brk := ?p + ?nu * UNIT\<rparr>)"
  have used: "a < ?p" "span (?p, ?nu) \<inter> span (a, n) = {}" if "A a = Some n" for a n
    using heap_withD(7,10) [OF w that] by (auto simp: span_def UNIT_def)
  have nin: "?p \<notin> fst ` set ((B, 0) # fl)" using heap_with_addrs(2) [OF w] by (metis imageE less_irrefl)
  have "hdr ?h a = hdr h a" if "a \<in> fst ` set ((B, 0) # fl)" for a using that nin by (cases "a = ?p") simp_all
  then have "links ?h ((B, 0) # fl) B = links h ((B, 0) # fl) B" by (rule links_cong)
  then have "ring B ?h fl" using heap_withD(3) [OF w] by (simp add: ring_def)
  moreover have "in_use B ?h A"
    using heap_withD(6) [OF w] by (rule in_use_cong) (use used(1) in \<open>auto dest!: used(1)\<close>)
  moreover have "cells fl \<subseteq> {..<brk ?h}" using heap_withD(5) [OF w] by auto
  ultimately have w': "heap_with B ?h A fl" using heap_withD [OF w] unfolding heap_with_def by simp
  have d: "span (?p, ?nu) \<inter> cells fl = {}" using heap_withD(5) [OF w] by (auto simp: span_def)
  have "\<exists>h' fl'. free (?p + UNIT) ?h = Some h' \<and> heap_with B h' A fl' \<and> (\<exists>r\<in>set fl'. ?nu \<le> snd r)"
    by (rule free_block [OF w']) (use heap_withD(2) [OF w] d used(2) in \<open>auto simp: mult.commute\<close>)
  moreover have "(if nu < 4096 then 4096 else nu) = ?nu" by auto
  ultimately show ?thesis by (auto simp: morecore_def Let_def simp del: max_less_iff_conj)
qed

text \<open>Cells that leave the free list become a block in use.\<close>

lemma heap_with_take:
  assumes w: "heap_with B h A fl" and "ring B h' fl'" and c: "cells fl = cells fl' \<union> span (a, n)" "cells fl' \<inter> span (a, n) = {}"
    and "freep h' \<in> fst ` set ((B, 0) # fl')" "brk h' = brk h" and sz: "\<And>b. b \<in> dom A \<Longrightarrow> size_at h' b = size_at h b"
    and n: "size_at h' a = n" "0 < n" "B < a"
  shows "A a = None" "heap_with B h' (A(a \<mapsto> n)) fl'"
proof -
  have a: "a \<in> span (a, n)" using span_lower [of "(a, n)"] n by simp
  show fresh: "A a = None"
  proof (cases "A a")
    case (Some m)
    then have "a \<in> span (a, m)" using span_lower [of "(a, m)"] heap_withD(7) [OF w] by simp
    then show ?thesis using heap_withD(11) [OF w Some] a c(1) by blast
  qed
  have dis: "span (b, m) \<inter> cells fl = {}" if "A b = Some m" for b m using heap_withD(11) [OF w that] .
  have "a + UNIT * n - 1 \<in> span (a, n)" using n(2) by (auto simp: span_def UNIT_def)
  then have "a + UNIT * n \<le> brk h'" using heap_withD(5) [OF w] c(1) assms(6) by fastforce
  moreover have "in_use B h' A" by (rule in_use_cong [OF heap_withD(6) [OF w]]) (use sz assms(6) in auto)
  moreover have "span (a, n) \<inter> span (b, m) = {}" if "A b = Some m" for b m using dis [OF that] c(1) by blast
  ultimately have "in_use B h' (A(a \<mapsto> n))" using n unfolding in_use_def by (auto simp: Int_commute)
  moreover have "span (b, m) \<inter> cells fl' = {}" if "(A(a \<mapsto> n)) b = Some m" for b m
    using that dis [of b m] c by (auto split: if_splits)
  ultimately show "heap_with B h' (A(a \<mapsto> n)) fl'"
    using assms(2,5,6) heap_withD(1,2,5) [OF w] c(1) unfolding heap_with_def by auto
qed

lemma links_pred:
  assumes "links h (xs @ r # zs) z" "distinct (map fst (xs @ r # zs))" "fst r \<noteq> z" "pr \<in> fst ` set (xs @ r # zs)" "ptr h pr = fst r"
  shows "\<exists>vs k. xs = vs @ [(pr, k)]"
proof -
  obtain k where "(pr, k) \<in> set (xs @ r # zs)" using assms(4) by force
  then obtain us ws where sp: "xs @ r # zs = us @ (pr, k) # ws" by (metis split_list)
  then have "links h (us @ (pr, k) # ws) z" using assms(1) by simp
  then have "first ws z = fst r" using assms(5) by (simp add: links_append)
  then obtain r' ws' where ws: "ws = r' # ws'" "fst r' = fst r" using assms(3) by (cases ws) auto
  have "length xs = length (us @ [(pr, k)])"
  proof (rule nth_eq_iff_index_eq [THEN iffD1, OF assms(2)])
    have "map fst (xs @ r # zs) ! length xs = fst r" by (simp add: nth_append)
    moreover have "map fst (us @ (pr, k) # r' # ws') ! length (us @ [(pr, k)]) = fst r" using ws by (simp add: nth_append)
    ultimately show "map fst (xs @ r # zs) ! length xs = map fst (xs @ r # zs) ! length (us @ [(pr, k)])"
      unfolding sp ws(1) by simp
    show "length xs < length (map fst (xs @ r # zs))" by simp
    show "length (us @ [(pr, k)]) < length (map fst (xs @ r # zs))" unfolding sp ws(1) by simp
  qed
  then have "xs = us @ [(pr, k)]" using sp ws by (metis append.assoc append_Cons append_Nil append_eq_append_conv)
  then show ?thesis by blast
qed

lemma free_ring_distinct: "ring B h fl \<Longrightarrow> distinct (map fst ((B, 0) # fl))"
  using sorted_apart strict_sorted_iff unfolding ring_def by blast

lemma apart_cells: "sorted_wrt apart (us @ r # zs) \<Longrightarrow> cells (us @ zs) \<inter> span r = {}"
  by (fastforce simp: sorted_wrt_append apart_def cells_def span_def)

lemma take_block_ok:
  assumes w: "heap_with B h A fl" and r: "r \<in> set ((B, 0) # fl)" "nu \<le> snd r" "0 < nu" and pr: "ptr h pr = fst r" "pr \<in> fst ` set ((B, 0) # fl)"
  shows "\<exists>a h' fl'. take_block nu pr (fst r) h = (a + UNIT, h') \<and> A a = None \<and> heap_with B h' (A(a \<mapsto> nu)) fl'"
proof -
  obtain p n where [simp]: "r = (p, n)" by fastforce
  obtain us zs where fl: "fl = us @ (p, n) # zs" using r by (auto dest!: split_list)
  let ?rs = "((B, 0) # us) @ (p, n) # zs"
  have rg: "ring B h fl" and l: "links h ?rs B" and so: "sorted_wrt apart ?rs" and d: "distinct (map fst ?rs)"
    and pos: "\<forall>r\<in>set fl. 0 < snd r"
    using heap_withD(3) [OF w] free_ring_distinct [OF heap_withD(3) [OF w]] unfolding ring_def fl by simp_all
  have Bp: "B < p" using so by (simp add: apart_def)
  obtain vs k where vs: "(B, 0) # us = vs @ [(pr, k)]"
    using links_pred [OF l d _ _ pr(1) [unfolded \<open>r = (p, n)\<close>]] pr(2) Bp unfolding fl by auto
  have sz: "size_at h p = n" "ptr h p = first zs B" using l by (simp_all add: links_append)
  have pn: "p \<noteq> pr" using d unfolding vs by auto
  show ?thesis
  proof (cases "n = nu")
    case True
    let ?h = "(set_ptr pr (first zs B) h)\<lparr>freep := pr\<rparr>"
    have frame: "links ?h rs w = links h rs w" if "pr \<notin> fst ` set rs" for rs w
      by (rule links_cong) (use that in auto)
    have e: "(B, 0) # us @ zs = vs @ (pr, k) # zs" using vs by simp
    have "links ?h ((B, 0) # us @ zs) B" unfolding e
      using l d sz unfolding vs by (simp add: links_append frame)
    then have rg': "ring B ?h (us @ zs)"
      using so pos fl by (auto simp: ring_def sorted_wrt_append simp del: links.simps)
    have c: "cells fl = cells (us @ zs) \<union> span (p, nu)" "cells (us @ zs) \<inter> span (p, nu) = {}"
      using apart_cells [of us "(p, nu)" zs] so fl True by auto
    have fp: "freep ?h \<in> fst ` set ((B, 0) # us @ zs)" unfolding e by simp
    have "A p = None" "heap_with B ?h (A(p \<mapsto> nu)) (us @ zs)"
      by (rule heap_with_take [OF w rg' c fp]; use True r(3) Bp sz(1) pn in simp)+
    moreover have "take_block nu pr p h = (p + UNIT, ?h)" using True sz by (simp add: take_block_def)
    ultimately show ?thesis by auto
  next
    case False
    let ?q = "p + UNIT * (n - nu)" and ?fl = "us @ (p, n - nu) # zs"
    let ?h = "(set_size ?q nu (set_size p (n - nu) h))\<lparr>freep := pr\<rparr>"
    have nu: "nu < n" "p < ?q" "?q < p + UNIT * n" using False r by (auto simp: UNIT_def)
    have "?q \<notin> fst ` set (us @ zs)" using so nu by (force simp: sorted_wrt_append apart_def)
    moreover have "hdr ?h a = hdr h a" if "a \<noteq> p" "a \<noteq> ?q" for a using that by simp
    then have frame: "links ?h rs w = links h rs w" if "p \<notin> fst ` set rs" "?q \<notin> fst ` set rs" for rs w
      using that by (intro links_cong) metis
    ultimately have "links ?h (((B, 0) # us) @ (p, n - nu) # zs) B"
      using l d sz nu Bp by (simp add: links_append frame image_Un)
    moreover have "sorted_wrt apart (((B, 0) # us) @ (p, n - nu) # zs)"
      using so nu by (auto simp: sorted_wrt_append apart_def UNIT_def)
    ultimately have rg': "ring B ?h ?fl" using pos fl nu by (auto simp: ring_def)
    have sp: "span (p, n) = span (p, n - nu) \<union> span (?q, nu)" using span_join [of p "n - nu" nu] nu by simp
    then have c: "cells fl = cells ?fl \<union> span (?q, nu)" using fl by auto
    have "cells (us @ zs) \<inter> span (p, n) = {}" using so by (intro apart_cells) simp
    then have c2: "cells ?fl \<inter> span (?q, nu) = {}" using sp by (auto simp: span_def)
    have fp: "freep ?h \<in> fst ` set ((B, 0) # ?fl)" using vs by (cases vs) auto
    have szA: "size_at ?h b = size_at h b" if b: "b \<in> dom A" for b
    proof -
      obtain m where m: "A b = Some m" using b by blast
      have "b \<notin> cells fl" using heap_withD(7,11) [OF w m] span_lower [of "(b, m)"] by auto
      moreover have "?q \<in> cells fl" "p \<in> cells fl" using nu fl by (auto simp: span_def)
      ultimately have "b \<noteq> ?q" "b \<noteq> p" by metis+
      then show ?thesis by simp
    qed
    have "A ?q = None" "heap_with B ?h (A(?q \<mapsto> nu)) ?fl"
      by (rule heap_with_take [OF w rg' c c2 fp _ szA]; use r(3) Bp nu in simp)+
    moreover have "take_block nu pr p h = (?q + UNIT, ?h)" using False sz nu pn by (simp add: take_block_def Let_def)
    ultimately show ?thesis by auto
  qed
qed

lemma malloc_walk:
  assumes "links h ws z" "ws \<noteq> []" "fst (last ws) = freep h" "freep h \<notin> fst ` set (butlast ws)" "ptr h prevp = fst (hd ws)"
  shows "if \<exists>r\<in>set ws. nu \<le> snd r
    then \<exists>pr r. r \<in> set ws \<and> nu \<le> snd r \<and> ptr h pr = fst r \<and> pr \<in> insert prevp (fst ` set ws) \<and>
      malloc_loop grants nu prevp (fst (hd ws)) h = Some (take_block nu pr (fst r) h)
    else malloc_loop grants nu prevp (fst (hd ws)) h = Option.bind (morecore grants nu h) (\<lambda>(p, h).
        if p = 0 then Some (0, h) else malloc_loop grants nu p (ptr h p) h)"
  using assms
proof (induction ws arbitrary: prevp)
  case (Cons r ws)
  show ?case
  proof (cases "nu \<le> snd r")
    case True
    then have "malloc_loop grants nu prevp (fst (hd (r # ws))) h = Some (take_block nu prevp (fst r) h)"
      using Cons.prems by (subst malloc_loop.simps) simp
    then have "\<exists>pr s. s \<in> set (r # ws) \<and> nu \<le> snd s \<and> ptr h pr = fst s \<and> pr \<in> insert prevp (fst ` set (r # ws)) \<and>
        malloc_loop grants nu prevp (fst (hd (r # ws))) h = Some (take_block nu pr (fst s) h)"
      using Cons.prems True by (intro exI [of _ prevp] exI [of _ r]) simp
    then show ?thesis using True by simp
  next
    case False
    show ?thesis
    proof (cases ws)
      case Nil
      then show ?thesis using Cons.prems False by (subst malloc_loop.simps) auto
    next
      case (Cons s ws')
      have "malloc_loop grants nu prevp (fst r) h = malloc_loop grants nu (fst r) (fst s) h"
        using Cons.prems False Cons by (subst malloc_loop.simps) auto
      then show ?thesis using Cons.IH [of "fst r"] Cons.prems False Cons by (auto split: if_splits)
    qed
  qed
qed simp

text \<open>From \<open>freep\<close> the walk sees every block of the ring before it asks for more.\<close>

lemma malloc_ring:
  assumes w: "heap_with B h A fl" and nu: "0 < nu"
  shows "if \<exists>r\<in>set fl. nu \<le> snd r
    then \<exists>a h' fl'. malloc_loop grants nu (freep h) (ptr h (freep h)) h = Some (a + UNIT, h') \<and> A a = None \<and> heap_with B h' (A(a \<mapsto> nu)) fl'
    else malloc_loop grants nu (freep h) (ptr h (freep h)) h = Option.bind (morecore grants nu h) (\<lambda>(p, h).
        if p = 0 then Some (0, h) else malloc_loop grants nu p (ptr h p) h)"
proof -
  obtain k where "(freep h, k) \<in> set ((B, 0) # fl)" using heap_withD(4) [OF w] by force
  then obtain xs ys where sp: "(B, 0) # fl = xs @ (freep h, k) # ys" by (metis split_list)
  let ?ws = "ys @ xs @ [(freep h, k)]"
  have set: "set ?ws = set ((B, 0) # fl)" unfolding sp by auto
  have B: "first (xs @ (freep h, k) # ys) 0 = B" unfolding sp [symmetric] by simp
  have l: "links h (xs @ (freep h, k) # ys) B" using heap_withD(3) [OF w] sp by (simp add: ring_def)
  have "links h ?ws (first ys B)" "ptr h (freep h) = fst (hd ?ws)"
    using l B by (cases xs; cases ys; auto simp: links_append)+
  moreover have "freep h \<notin> fst ` set (butlast ?ws)"
    using free_ring_distinct [OF heap_withD(3) [OF w]] unfolding sp by (auto simp: butlast_append)
  ultimately have walk: "if \<exists>r\<in>set ?ws. nu \<le> snd r
    then \<exists>pr r. r \<in> set ?ws \<and> nu \<le> snd r \<and> ptr h pr = fst r \<and> pr \<in> insert (freep h) (fst ` set ?ws) \<and>
      malloc_loop grants nu (freep h) (fst (hd ?ws)) h = Some (take_block nu pr (fst r) h)
    else malloc_loop grants nu (freep h) (fst (hd ?ws)) h = Option.bind (morecore grants nu h) (\<lambda>(p, h).
        if p = 0 then Some (0, h) else malloc_loop grants nu p (ptr h p) h)"
    by (intro malloc_walk) auto
  have hd: "fst (hd ?ws) = ptr h (freep h)" using l B by (cases xs; cases ys; auto simp: links_append)
  have ex: "(\<exists>r\<in>set ?ws. nu \<le> snd r) \<longleftrightarrow> (\<exists>r\<in>set fl. nu \<le> snd r)" unfolding set using nu by simp
  have ins: "insert (freep h) (fst ` set ((B, 0) # fl)) = fst ` set ((B, 0) # fl)" using heap_withD(4) [OF w] by blast
  note walk = walk [unfolded ex hd, unfolded set ins]
  show ?thesis
  proof (cases "\<exists>r\<in>set fl. nu \<le> snd r")
    case True
    obtain pr r where pr: "r \<in> set ((B, 0) # fl)" "nu \<le> snd r" "ptr h pr = fst r" "pr \<in> fst ` set ((B, 0) # fl)"
      "malloc_loop grants nu (freep h) (ptr h (freep h)) h = Some (take_block nu pr (fst r) h)"
      using walk [unfolded if_P [OF True]] by blast
    obtain a h' fl' where t: "take_block nu pr (fst r) h = (a + UNIT, h')" "A a = None \<and> heap_with B h' (A(a \<mapsto> nu)) fl'"
      using take_block_ok [OF w pr(1,2) nu pr(3,4)] by blast
    show ?thesis unfolding if_P [OF True] pr(5) t(1) using t(2) by blast
  next
    case False
    then show ?thesis using walk by simp
  qed
qed

definition nunits :: "nat \<Rightarrow> nat" where
  "nunits nbytes = (nbytes + UNIT - 1) div UNIT + 1"

lemma nunits_holds: "nbytes \<le> UNIT * (nunits nbytes - 1)" "0 < nunits nbytes"
  by (simp_all add: nunits_def UNIT_def)

lemma heap_with_freep: "heap_with B h A fl \<Longrightarrow> freep h \<noteq> 0"
  using heap_withD(1,4) heap_with_addrs(3) by (metis imageE le_zero_eq less_irrefl)

lemma heap_with_inv: "heap_with B h A fl \<Longrightarrow> heap_inv B h A"
  using heap_with_freep [of B h A fl] by (auto simp: heap_inv_def)

text \<open>
  Every request is answered: with a block of enough units that was not in use, or with the null
  pointer, and then because the kernel refused to extend the process.
\<close>

lemma malloc_loop_ok:
  assumes w: "heap_with B h A fl" and nu: "0 < nu"
  shows "\<exists>r h'. malloc_loop grants nu (freep h) (ptr h (freep h)) h = Some (r, h') \<and>
    (r = 0 \<and> heap_inv B h' A \<and> \<not> grants (brk h) (max nu 4096 * UNIT) \<or>
     (\<exists>a. r = a + UNIT \<and> A a = None \<and> heap_inv B h' (A(a \<mapsto> nu))))"
proof (cases "\<exists>r\<in>set fl. nu \<le> snd r")
  case True
  show ?thesis using malloc_ring [OF w nu, of grants, unfolded if_P [OF True]] heap_with_inv by blast
next
  case small: False
  note loop = malloc_ring [OF w nu, of grants, unfolded if_not_P [OF small]]
  show ?thesis
  proof (cases "grants (brk h) (max nu 4096 * UNIT)")
    case True
    obtain h1 fl1 where h1: "morecore grants nu h = Some (freep h1, h1)" "heap_with B h1 A fl1" "\<exists>r\<in>set fl1. nu \<le> snd r"
      using morecore_grows [OF w, of grants nu, unfolded if_P [OF True]] by blast
    have "malloc_loop grants nu (freep h) (ptr h (freep h)) h = malloc_loop grants nu (freep h1) (ptr h1 (freep h1)) h1"
      unfolding loop h1(1) using heap_with_freep [OF h1(2)] by simp
    then show ?thesis
      using malloc_ring [OF h1(2) nu, of grants, unfolded if_P [OF h1(3)]] heap_with_inv by (metis (no_types))
  next
    case False
    have "malloc_loop grants nu (freep h) (ptr h (freep h)) h = Some (0, h)"
      unfolding loop morecore_grows [OF w, of grants nu, unfolded if_not_P [OF False]] by simp
    then show ?thesis using False heap_with_inv [OF w] by blast
  qed
qed

lemma malloc_ok:
  assumes "heap_inv B h A"
  shows "\<exists>r h'. malloc grants B nbytes h = Some (r, h') \<and>
    (r = 0 \<and> heap_inv B h' A \<and> \<not> grants (brk h) (max (nunits nbytes) 4096 * UNIT) \<or>
     (\<exists>a. r = a + UNIT \<and> A a = None \<and> heap_inv B h' (A(a \<mapsto> nunits nbytes))))"
proof -
  define h1 where "h1 = (if freep h = 0 then set_size B 0 (set_ptr B B (h\<lparr>freep := B\<rparr>)) else h)"
  have "\<exists>fl. heap_with B h1 A fl"
  proof (cases "freep h = 0")
    case True
    then have "heap_with B h1 A []"
      using assms by (auto simp: heap_inv_def heap_with_def ring_def in_use_def h1_def)
    then show ?thesis by blast
  qed (use assms in \<open>simp add: heap_inv_def h1_def\<close>)
  moreover have "brk h1 = brk h" by (simp add: h1_def)
  moreover have "malloc grants B nbytes h = malloc_loop grants (nunits nbytes) (freep h1) (ptr h1 (freep h1)) h1"
    by (simp add: malloc_def nunits_def Let_def h1_def)
  ultimately show ?thesis using malloc_loop_ok [OF _ nunits_holds(2), of B h1 A _ grants nbytes] by auto
qed

section \<open>A program that allocates and frees\<close>

text \<open>
  The calls of a program: a request, or the release of one of the blocks it holds, by its position.
  The blocks held are kept with the number of bytes asked for.
\<close>

datatype heap_op = Malloc nat | Free nat

fun heap_run :: "(nat \<Rightarrow> 'h \<Rightarrow> (nat \<times> 'h) option) \<Rightarrow> (nat \<Rightarrow> 'h \<Rightarrow> 'h option) \<Rightarrow> heap_op list \<Rightarrow> 'h \<Rightarrow>
    (nat \<times> nat) list \<Rightarrow> ('h \<times> (nat \<times> nat) list) option" where
  "heap_run alloc release [] h held = Some (h, held)"
| "heap_run alloc release (Malloc n # ops) h held = Option.bind (alloc n h) (\<lambda>(p, h).
     heap_run alloc release ops h (if p = 0 then held else (p, n) # held))"
| "heap_run alloc release (Free i # ops) h held =
     (if i < length held
      then Option.bind (release (fst (held ! i)) h) (\<lambda>h. heap_run alloc release ops h (take i held @ drop (Suc i) held))
      else heap_run alloc release ops h held)"

text \<open>How many blocks the program holds after its calls, when none of its requests is refused.\<close>

fun held_count :: "heap_op list \<Rightarrow> nat \<Rightarrow> nat" where
  "held_count [] k = k"
| "held_count (Malloc n # ops) k = held_count ops (Suc k)"
| "held_count (Free i # ops) k = held_count ops (if i < k then k - 1 else k)"

lemma distinct_remove_nth:
  assumes "i < length xs" "distinct (map f xs)"
  shows "distinct (map f (take i xs @ drop (Suc i) xs)) \<and> f (xs ! i) \<notin> f ` set (take i xs @ drop (Suc i) xs) \<and>
    set (take i xs @ drop (Suc i) xs) \<subseteq> set xs"
proof -
  obtain us y vs where "xs = us @ y # vs" "length us = i" using id_take_nth_drop [OF assms(1)] assms(1) by (metis length_take min.absorb4)
  then show ?thesis using assms(2) by auto
qed

text \<open>What such a program relies on; \<open>inv h A\<close> says that \<open>A\<close> gives the blocks held and the room in
  them, and \<open>refuses\<close> that a request may be refused.\<close>

locale block_allocator =
  fixes alloc :: "nat \<Rightarrow> 'h \<Rightarrow> (nat \<times> 'h) option"
    and release :: "nat \<Rightarrow> 'h \<Rightarrow> 'h option"
    and inv :: "'h \<Rightarrow> (nat \<rightharpoonup> nat) \<Rightarrow> bool"
    and limit :: "'h \<Rightarrow> nat"
    and refuses :: bool
  assumes alloc_returns: "inv h A \<Longrightarrow> \<exists>p h'. alloc n h = Some (p, h') \<and>
      (p = 0 \<and> inv h' A \<and> refuses \<or> p \<noteq> 0 \<and> A p = None \<and> (\<exists>m\<ge>n. inv h' (A(p \<mapsto> m))))"
    and release_returns: "inv h A \<Longrightarrow> A p = Some m \<Longrightarrow> \<exists>h'. release p h = Some h' \<and> inv h' (A(p := None))"
    and disjoint: "inv h A \<Longrightarrow> A p = Some m \<Longrightarrow> A q = Some k \<Longrightarrow> p \<noteq> q \<Longrightarrow> {p..<p + m} \<inter> {q..<q + k} = {}"
    and inside: "inv h A \<Longrightarrow> A p = Some m \<Longrightarrow> p + m \<le> limit h"
begin

lemma run_returns:
  assumes "inv h A" "distinct (map fst held)" "\<forall>(p, n)\<in>set held. \<exists>m\<ge>n. A p = Some m"
  shows "\<exists>h' A' held'. heap_run alloc release ops h held = Some (h', held') \<and> inv h' A' \<and> distinct (map fst held') \<and>
    (\<forall>(p, n)\<in>set held'. \<exists>m\<ge>n. A' p = Some m) \<and> (refuses \<or> length held' = held_count ops (length held))"
  using assms
proof (induction ops arbitrary: h A held)
  case (Cons op ops)
  show ?case
  proof (cases op)
    case (Malloc n)
    obtain p h' where a: "alloc n h = Some (p, h')" "p = 0 \<and> inv h' A \<and> refuses \<or> p \<noteq> 0 \<and> A p = None \<and> (\<exists>m\<ge>n. inv h' (A(p \<mapsto> m)))"
      using alloc_returns [OF Cons.prems(1)] by blast
    show ?thesis
    proof (cases "p = 0")
      case True
      then show ?thesis using Cons.IH [of h' A held] Cons.prems a Malloc by simp
    next
      case False
      then obtain m where m: "A p = None" "n \<le> m" "inv h' (A(p \<mapsto> m))" using a(2) by blast
      then show ?thesis using Cons.IH [of h' "A(p \<mapsto> m)" "(p, n) # held"] Cons.prems a(1) Malloc False by fastforce
    qed
  next
    case (Free i)
    show ?thesis
    proof (cases "i < length held")
      case True
      obtain p n where i: "held ! i = (p, n)" by fastforce
      then have "(p, n) \<in> set held" using True by (metis nth_mem)
      then obtain m where m: "A p = Some m" using Cons.prems(3) by blast
      obtain h' where r: "release p h = Some h'" "inv h' (A(p := None))" using release_returns [OF Cons.prems(1) m] by blast
      let ?rest = "take i held @ drop (Suc i) held"
      have "distinct (map fst ?rest)" "p \<notin> fst ` set ?rest" "set ?rest \<subseteq> set held"
        using distinct_remove_nth [OF True Cons.prems(2)] i by simp_all
      have "\<exists>m\<ge>snd x. (A(p := None)) (fst x) = Some m" if "x \<in> set ?rest" for x
      proof -
        have "fst x \<noteq> p" using that \<open>p \<notin> fst ` set ?rest\<close> by blast
        moreover have "x \<in> set held" using that \<open>set ?rest \<subseteq> set held\<close> by blast
        ultimately show ?thesis using Cons.prems(3) by (auto simp: case_prod_unfold)
      qed
      then have "\<forall>(q, k)\<in>set ?rest. \<exists>m\<ge>k. (A(p := None)) q = Some m" by (simp add: case_prod_unfold)
      moreover have "length ?rest = length held - 1" using True by simp
      ultimately show ?thesis using Cons.IH [OF r(2) \<open>distinct (map fst ?rest)\<close>] r Free True i by simp
    next
      case False
      then show ?thesis using Cons.IH [OF Cons.prems] Free by simp
    qed
  qed
qed auto

theorem run_blocks:
  assumes "inv h Map.empty"
  shows "\<exists>h' held. heap_run alloc release ops h [] = Some (h', held) \<and> (refuses \<or> length held = held_count ops 0) \<and>
    (\<forall>i<length held. fst (held ! i) + snd (held ! i) \<le> limit h') \<and>
    (\<forall>i<length held. \<forall>j<length held. i \<noteq> j \<longrightarrow>
      {fst (held ! i)..<fst (held ! i) + snd (held ! i)} \<inter> {fst (held ! j)..<fst (held ! j) + snd (held ! j)} = {})"
proof -
  obtain h' A held where r: "heap_run alloc release ops h [] = Some (h', held)" "inv h' A" "distinct (map fst held)"
    "\<forall>(p, n)\<in>set held. \<exists>m\<ge>n. A p = Some m" "refuses \<or> length held = held_count ops 0"
    using run_returns [OF assms, of "[]" ops] by auto
  have room: "\<exists>m\<ge>snd (held ! i). A (fst (held ! i)) = Some m" if "i < length held" for i
    using r(4) nth_mem [OF that] by (auto simp: case_prod_unfold)
  have "{fst (held ! i)..<fst (held ! i) + snd (held ! i)} \<inter> {fst (held ! j)..<fst (held ! j) + snd (held ! j)} = {}"
    if ij: "i < length held" "j < length held" "i \<noteq> j" for i j
  proof -
    obtain m k where "snd (held ! i) \<le> m" "A (fst (held ! i)) = Some m" "snd (held ! j) \<le> k" "A (fst (held ! j)) = Some k"
      using room [OF ij(1)] room [OF ij(2)] by blast
    moreover have "fst (held ! i) \<noteq> fst (held ! j)" using r(3) ij nth_eq_iff_index_eq [OF r(3), of i j] by simp
    ultimately show ?thesis using disjoint [OF r(2), of "fst (held ! i)" m "fst (held ! j)" k] by auto
  qed
  moreover have "fst (held ! i) + snd (held ! i) \<le> limit h'" if "i < length held" for i
    using room [OF that] inside [OF r(2)] by (meson add_le_mono le_refl le_trans)
  ultimately show ?thesis using r(1,5) by blast
qed

end

text \<open>The room in a block is what its units but the header hold.\<close>

definition payload :: "(nat \<rightharpoonup> nat) \<Rightarrow> nat \<rightharpoonup> nat" where
  "payload A p = (if p < UNIT then None else map_option (\<lambda>n. UNIT * (n - 1)) (A (p - UNIT)))"

definition umalloc_inv :: "nat \<Rightarrow> uheap \<Rightarrow> (nat \<rightharpoonup> nat) \<Rightarrow> bool" where
  "umalloc_inv B h R \<longleftrightarrow> (\<exists>A. heap_inv B h A \<and> R = payload A)"

lemma payload_upd:
  "payload (A(a \<mapsto> n)) = (payload A)(a + UNIT \<mapsto> UNIT * (n - 1))" "payload (A(a := None)) = (payload A)(a + UNIT := None)"
  by (auto simp: payload_def fun_eq_iff)

lemma payloadE:
  assumes "heap_inv B h A" "payload A p = Some m"
  obtains a n fl where "p = a + UNIT" "A a = Some n" "0 < n" "UNIT * n = UNIT + m" "heap_with B h A fl"
proof -
  obtain n where n: "UNIT \<le> p" "A (p - UNIT) = Some n" "m = UNIT * (n - 1)"
    using assms(2) by (auto simp: payload_def split: if_splits)
  then obtain fl where w: "heap_with B h A fl" using assms(1) by (auto simp: heap_inv_def split: if_splits)
  then have "0 < n" using heap_withD(7) [OF w n(2)] by simp
  then have "UNIT * n = UNIT + m" using n(3) by (cases n) simp_all
  then show thesis using that [of "p - UNIT" n fl] n \<open>0 < n\<close> w by simp
qed

interpretation umalloc: block_allocator "malloc grants base" free "umalloc_inv base" brk "\<exists>s n. \<not> grants s n" for grants base
proof
  fix h R n
  assume "umalloc_inv base h R"
  then obtain A where A: "heap_inv base h A" "R = payload A" by (auto simp: umalloc_inv_def)
  show "\<exists>p h'. malloc grants base n h = Some (p, h') \<and>
      (p = 0 \<and> umalloc_inv base h' R \<and> (\<exists>s n. \<not> grants s n) \<or> p \<noteq> 0 \<and> R p = None \<and> (\<exists>m\<ge>n. umalloc_inv base h' (R(p \<mapsto> m))))"
  proof -
    obtain r h' where m: "malloc grants base n h = Some (r, h')"
      "r = 0 \<and> heap_inv base h' A \<and> (\<exists>s n. \<not> grants s n) \<or> (\<exists>a. r = a + UNIT \<and> A a = None \<and> heap_inv base h' (A(a \<mapsto> nunits n)))"
      using malloc_ok [OF A(1), of grants n] by blast
    from m(2) have "r = 0 \<and> umalloc_inv base h' R \<and> (\<exists>s n. \<not> grants s n) \<or> r \<noteq> 0 \<and> R r = None \<and> (\<exists>m\<ge>n. umalloc_inv base h' (R(r \<mapsto> m)))"
    proof
      assume "\<exists>a. r = a + UNIT \<and> A a = None \<and> heap_inv base h' (A(a \<mapsto> nunits n))"
      then obtain a where a: "r = a + UNIT" "A a = None" "heap_inv base h' (A(a \<mapsto> nunits n))" by blast
      then have "umalloc_inv base h' (R(r \<mapsto> UNIT * (nunits n - 1)))" unfolding umalloc_inv_def A(2) a(1) payload_upd(1) [symmetric] by blast
      moreover have "R r = None" "r \<noteq> 0" using a A(2) by (simp_all add: payload_def UNIT_def)
      ultimately show ?thesis using nunits_holds(1) by blast
    qed (use A in \<open>auto simp: umalloc_inv_def\<close>)
    then show ?thesis using m(1) by blast
  qed
next
  fix h R p m
  assume "umalloc_inv base h R" "R p = Some m"
  then obtain A where A: "heap_inv base h A" "R = payload A" "payload A p = Some m" by (auto simp: umalloc_inv_def)
  obtain a n fl where a: "p = a + UNIT" "A a = Some n" "UNIT * n = UNIT + m" and w: "heap_with base h A fl" using payloadE [OF A(1,3)] .
  show "p + m \<le> brk h" using heap_withD(10) [OF w a(2)] a by simp
  obtain h' fl' where "free p h = Some h'" "heap_with base h' (A(a := None)) fl'" using free_in_use [OF w a(2)] a(1) by blast
  then show "\<exists>h'. free p h = Some h' \<and> umalloc_inv base h' (R(p := None))"
    unfolding umalloc_inv_def A(2) a(1) payload_upd(2) [symmetric] using heap_with_inv by blast
next
  fix h R p m q k
  assume "umalloc_inv base h R" "R p = Some m" "R q = Some k" and ne: "p \<noteq> q"
  then obtain A where A: "heap_inv base h A" "payload A p = Some m" "payload A q = Some k" by (auto simp: umalloc_inv_def)
  obtain a n fl where a: "p = a + UNIT" "A a = Some n" "UNIT * n = UNIT + m" and w: "heap_with base h A fl" using payloadE [OF A(1,2)] .
  obtain b l where b: "q = b + UNIT" "A b = Some l" "UNIT * l = UNIT + k" using payloadE [OF A(1,3)] by metis
  have "span (a, n) \<inter> span (b, l) = {}" using heap_withD(12) [OF w a(2) b(2)] ne a(1) b(1) by simp
  moreover have "{p..<p + m} \<subseteq> span (a, n)" "{q..<q + k} \<subseteq> span (b, l)" using a b by (auto simp: span_def)
  ultimately show "{p..<p + m} \<inter> {q..<q + k} = {}" by blast
qed

text \<open>
  C11. Whatever a program asks of the allocator, in any order and whatever the kernel grants, every
  call of \<open>malloc\<close> and \<open>free\<close> returns, and the blocks the program then holds, each of the
  number of bytes it asked for, lie below the end of its memory and do not overlap. A request is
  refused only if the kernel refuses to extend the process.
\<close>

theorem malloc_blocks_disjoint:
  assumes "freep h = 0" "0 < base" "base < brk h"
  shows "\<exists>h' held. heap_run (malloc grants base) free ops h [] = Some (h', held) \<and>
    ((\<exists>s n. \<not> grants s n) \<or> length held = held_count ops 0) \<and>
    (\<forall>i<length held. fst (held ! i) + snd (held ! i) \<le> brk h') \<and>
    (\<forall>i<length held. \<forall>j<length held. i \<noteq> j \<longrightarrow>
      {fst (held ! i)..<fst (held ! i) + snd (held ! i)} \<inter> {fst (held ! j)..<fst (held ! j) + snd (held ! j)} = {})"
proof -
  have "payload Map.empty = Map.empty" by (simp add: payload_def fun_eq_iff)
  then have "umalloc_inv base h Map.empty" using assms unfolding umalloc_inv_def heap_inv_def by metis
  then show ?thesis by (rule umalloc.run_blocks)
qed

definition demo_heap :: uheap where
  "demo_heap = \<lparr>hdr = (\<lambda>_. \<lparr>h_ptr = 0, h_size = 0\<rparr>), freep = 0, brk = 4096\<rparr>"

theorem malloc_blocks_disjoint_witness:
  "freep demo_heap = 0 \<and> (0::nat) < 64 \<and> 64 < brk demo_heap \<and>
   (\<exists>h' held. heap_run (malloc (\<lambda>_ _. True) 64) free [Malloc 100, Malloc 20, Free 1, Malloc 30] demo_heap [] = Some (h', held) \<and>
     length held = 2)"
  using malloc_blocks_disjoint [of demo_heap 64 "\<lambda>_ _. True" "[Malloc 100, Malloc 20, Free 1, Malloc 30]"]
  by (auto simp: demo_heap_def)

end
