(* ===== verification/Fsfile.thy ===== *)
theory Fsfile
  imports Fsblock
begin

text \<open>
  The contents of files: \<^verbatim>\<open>bmap\<close>, \<^verbatim>\<open>readi\<close> and \<^verbatim>\<open>writei\<close> inside a transaction. The abstract file is
  the list of its bytes, read from the blocks that the addresses of the inode lead to.
\<close>

section \<open>Allocation\<close>

definition free_count :: "superblock \<Rightarrow> (u32 \<Rightarrow> block) \<Rightarrow> nat" where
  "free_count S V = card {k. k < unat (sb_size S) \<and> bit_free (V (sb_bmapstart S)) k}"

text \<open>What all of the operations keep: the free map, and blocks of the right size.\<close>

definition disk_ok :: "superblock \<Rightarrow> nat \<Rightarrow> (u32 \<Rightarrow> block) \<Rightarrow> bool" where
  "disk_ok S a V \<longleftrightarrow> bitmap_ok S a V \<and> (\<forall>b. length (V b) = BSIZE)"

definition allocated :: "superblock \<Rightarrow> nat \<Rightarrow> (u32 \<Rightarrow> block) \<Rightarrow> u32 \<Rightarrow> (u32 \<Rightarrow> block) \<Rightarrow> bool" where
  "allocated S a V b V' \<longleftrightarrow> disk_ok S a V' \<and> b < sb_size S \<and> b \<notin> meta S a \<and> \<not> used S V b \<and> V' b = replicate BSIZE 0 \<and>
     (\<forall>x. x \<noteq> sb_bmapstart S \<longrightarrow> x \<noteq> b \<longrightarrow> V' x = V x) \<and> (\<forall>x. used S V' x \<longleftrightarrow> x = b \<or> used S V x) \<and>
     Suc (free_count S V') = free_count S V"

lemma first_free_exists: "0 < free_count S V \<Longrightarrow> \<exists>b. first_free (V (sb_bmapstart S)) (unat (sb_size S)) = Some b"
  by (cases "first_free (V (sb_bmapstart S)) (unat (sb_size S))") (auto simp: free_count_def first_free_None card_gt_0_iff)

lemma allocated_first:
  assumes ok: "disk_ok S a V" and f: "first_free (V (sb_bmapstart S)) (unat (sb_size S)) = Some b"
  shows "allocated S a V (of_nat b) (V(sb_bmapstart S := mark_used b (V (sb_bmapstart S)), of_nat b := replicate BSIZE 0))"
proof -
  let ?m = "sb_bmapstart S" and ?b = "of_nat b :: u32"
  let ?V = "V(?m := mark_used b (V ?m), ?b := replicate BSIZE 0)"
  have bok: "bitmap_ok S a V" and len: "length (V x) = BSIZE" for x using ok by (simp_all add: disk_ok_def)
  note fr = free_not_meta [OF bok f] and bm = bmap_block [OF bok]
  have ne: "?b \<noteq> ?m" "?b \<noteq> 1" "?m \<noteq> 1" using fr(4) bm(3,5) by (auto simp: meta_def)
  have bits: "bit_free (mark_used b (V ?m)) j \<longleftrightarrow> j \<noteq> b \<and> bit_free (V ?m) j" for j
    using bit_free_mark_used [of b "V ?m"] fr(5) len by simp
  have used: "used S ?V x \<longleftrightarrow> x = ?b \<or> used S V x" for x
  proof (cases "x = ?b")
    case False
    then have "unat x \<noteq> b" by auto
    then show ?thesis using False ne(1) bits by (simp add: used_def)
  qed (use ne(1) bits fr(2) in \<open>simp add: used_def\<close>)
  then have "bitmap_ok S a ?V" using bok ne len by (auto simp: bitmap_ok_def)
  moreover have "{k. k < unat (sb_size S) \<and> bit_free (V ?m) k} = insert b {k. k < unat (sb_size S) \<and> bit_free (?V ?m) k}"
    using first_free_Some [OF f] bits ne(1) by auto
  then have "Suc (free_count S ?V) = free_count S V" using bits ne(1) by (simp add: free_count_def)
  ultimately show ?thesis
    using fr len used ne(1) by (auto simp: allocated_def disk_ok_def)
qed

lemma balloc_ok:
  fixes s :: "'a fsys_scheme"
  assumes t: "txn s a V H bs" and S: "sb s = S" and ok: "disk_ok S a V" and n: "0 < free_count S V"
    and H: "\<forall>x\<in>dom H. used S V x \<and> x \<noteq> sb_bmapstart S" and r: "room 2 H bs"
  shows "\<exists>b s' V' bs'. balloc 1 s = Inr (b, s') \<and> txn s' a V' H bs' \<and> logsys.more s' = logsys.more s \<and> allocated S a V b V' \<and>
    length bs' \<le> length bs + 2"
proof -
  obtain b where b: "first_free (V (sb_bmapstart S)) (unat (sb_size S)) = Some b" using first_free_exists [OF n] by blast
  have bok: "bitmap_ok S a V" using ok by (simp add: disk_ok_def)
  have "H (sb_bmapstart S) = None" "H (of_nat b) = None" using H free_not_meta(3) [OF bok b] by (auto simp: domIff)
  then obtain s' where "balloc 1 s = Inr (of_nat b, s')" "logsys.more s' = logsys.more s"
    "txn s' a (V(sb_bmapstart S := mark_used b (V (sb_bmapstart S)), of_nat b := replicate BSIZE 0)) H
      (add_block (of_nat b) (add_block (sb_bmapstart S) bs))"
    using balloc_run [OF t S bok refl b _ _ r] by auto
  moreover have "length (add_block (of_nat b) (add_block (sb_bmapstart S) bs)) \<le> length bs + 2" by (simp add: add_block_def)
  ultimately show ?thesis using allocated_first [OF ok b] by blast
qed

section \<open>The blocks of a file\<close>

definition blk_addr :: "(u32 \<Rightarrow> block) \<Rightarrow> u32 list \<Rightarrow> nat \<Rightarrow> u32" where
  "blk_addr V as bn =
     (if bn < NDIRECT then as ! bn else if as ! NDIRECT = 0 then 0 else get32 (V (as ! NDIRECT)) (4 * (bn - NDIRECT)))"

text \<open>The blocks a file owns: those of its data, and number \<^term>\<open>MAXFILE\<close>, the block of addresses.\<close>

definition slot :: "(u32 \<Rightarrow> block) \<Rightarrow> u32 list \<Rightarrow> nat \<Rightarrow> u32" where
  "slot V as k = (if k = MAXFILE then as ! NDIRECT else blk_addr V as k)"

definition file_wf :: "superblock \<Rightarrow> nat \<Rightarrow> (u32 \<Rightarrow> block) \<Rightarrow> u32 list \<Rightarrow> bool" where
  "file_wf S a V as \<longleftrightarrow> length as = NDIRECT + 1 \<and>
     (\<forall>k\<le>MAXFILE. slot V as k \<noteq> 0 \<longrightarrow> slot V as k < sb_size S \<and> slot V as k \<notin> meta S a \<and> used S V (slot V as k)) \<and>
     (\<forall>j\<le>MAXFILE. \<forall>k\<le>MAXFILE. slot V as j = slot V as k \<longrightarrow> slot V as j \<noteq> 0 \<longrightarrow> j = k)"

definition fbyte :: "(u32 \<Rightarrow> block) \<Rightarrow> u32 list \<Rightarrow> nat \<Rightarrow> u8" where
  "fbyte V as k = V (blk_addr V as (k div BSIZE)) ! (k mod BSIZE)"

definition contents :: "(u32 \<Rightarrow> block) \<Rightarrow> u32 list \<Rightarrow> nat \<Rightarrow> u8 list" where
  "contents V as n = map (fbyte V as) [0..<n]"

lemma file_wfD:
  assumes "file_wf S a V as"
  shows "length as = NDIRECT + 1"
    and "k \<le> MAXFILE \<Longrightarrow> slot V as k \<noteq> 0 \<Longrightarrow> slot V as k < sb_size S \<and> slot V as k \<notin> meta S a \<and> used S V (slot V as k)"
    and "j \<le> MAXFILE \<Longrightarrow> k \<le> MAXFILE \<Longrightarrow> slot V as j = slot V as k \<Longrightarrow> slot V as j \<noteq> 0 \<Longrightarrow> j = k"
  using assms by (auto simp: file_wf_def)

lemma meta_bmap: "disk_ok S a V \<Longrightarrow> sb_bmapstart S \<in> meta S a \<and> 0 \<in> meta S a \<and> log_area a \<subseteq> meta S a"
  using bmap_block(5) by (auto simp: disk_ok_def meta_def)

lemma slot_data: "bn < MAXFILE \<Longrightarrow> slot V as bn = blk_addr V as bn" "slot V as MAXFILE = as ! NDIRECT"
  by (simp_all add: slot_def)

text \<open>The file keeps its blocks when blocks that it does not own change.\<close>

lemma slot_frame:
  assumes "as ! NDIRECT = 0 \<or> V' (as ! NDIRECT) = V (as ! NDIRECT)"
  shows "slot V' as k = slot V as k"
  using assms by (auto simp: slot_def blk_addr_def)
lemma file_wf_new:
  assumes wf: "file_wf S a V as" and b: "b < sb_size S" "b \<notin> meta S a" "\<not> used S V b" "used S V' b"
    and u: "\<And>x. used S V x \<Longrightarrow> used S V' x" and l: "length as' = NDIRECT + 1"
    and sl: "\<And>j. j \<le> MAXFILE \<Longrightarrow> slot V' as' j = (if j = k then b else slot V as j)"
  shows "file_wf S a V' as'"
  unfolding file_wf_def
proof (intro conjI allI impI)
  fix j assume j: "j \<le> MAXFILE" "slot V' as' j \<noteq> 0"
  show "slot V' as' j < sb_size S" "slot V' as' j \<notin> meta S a" "used S V' (slot V' as' j)"
    using b u sl [OF j(1)] j file_wfD(2) [OF wf j(1)] by (auto split: if_splits)
next
  fix i j assume ij: "i \<le> MAXFILE" "j \<le> MAXFILE" "slot V' as' i = slot V' as' j" "slot V' as' i \<noteq> 0"
  show "i = j"
    using ij(3,4) sl [OF ij(1)] sl [OF ij(2)] file_wfD(2) [OF wf ij(1)] file_wfD(2) [OF wf ij(2)] file_wfD(3) [OF wf ij(1,2)] b(3)
    by (auto split: if_splits)
qed (rule l)

lemma get32_zeros: "k + 3 < n \<Longrightarrow> get32 (replicate n 0) k = 0"
  by (simp add: get32_def get16_def)

lemma allocated_keep:
  assumes "allocated S a V b V'" "used S V x" "x \<noteq> sb_bmapstart S"
  shows "V' x = V x"
  using assms by (auto simp: allocated_def)

text \<open>A new block at a direct address, or as the block of addresses.\<close>

lemma slot_direct:
  assumes al: "allocated S a V b V'" and ok: "disk_ok S a V" and wf: "file_wf S a V as" and k: "k \<le> NDIRECT" "as ! k = 0" and j: "j \<le> MAXFILE"
  shows "slot V' (as[k := b]) j = (if j = (if k = NDIRECT then MAXFILE else k) then b else slot V as j)"
proof -
  have len: "length as = NDIRECT + 1" using wf by (simp add: file_wf_def)
  have ind: "V' (as ! NDIRECT) = V (as ! NDIRECT)" if "as ! NDIRECT \<noteq> 0"
    using that file_wfD(2) [OF wf, of MAXFILE] meta_bmap [OF ok] by (intro allocated_keep [OF al]) (auto simp: slot_data)
  have "b \<noteq> 0" using al meta_bmap [OF ok] by (auto simp: allocated_def)
  moreover have "get32 (V' b) (4 * (j - NDIRECT)) = 0" if "NDIRECT \<le> j" "j < MAXFILE"
    using al that by (auto simp: allocated_def MAXFILE_def NINDIRECT_def NDIRECT_def BSIZE_def get32_zeros)
  ultimately show ?thesis
    using k len ind j by (auto simp: slot_def blk_addr_def nth_list_update MAXFILE_def NINDIRECT_def)
qed

text \<open>A new address in the block of addresses.\<close>

lemma slot_indirect:
  assumes al: "allocated S a V b V'" and ok: "disk_ok S a V" and wf: "file_wf S a V as" and k: "NDIRECT \<le> k" "k < MAXFILE" and n: "as ! NDIRECT \<noteq> 0"
    and j: "j \<le> MAXFILE"
  shows "slot (V'(as ! NDIRECT := put32 (V (as ! NDIRECT)) (4 * (k - NDIRECT)) b)) as j = (if j = k then b else slot V as j)"
proof -
  have len: "length (V (as ! NDIRECT)) = BSIZE" using ok by (simp add: disk_ok_def)
  have "get32 (put32 (V (as ! NDIRECT)) (4 * (k - NDIRECT)) b) (4 * (j - NDIRECT)) =
      (if j = k then b else get32 (V (as ! NDIRECT)) (4 * (j - NDIRECT)))" if "NDIRECT \<le> j" "j < MAXFILE"
  proof (cases "j = k")
    case False
    then have "4 * (j - NDIRECT) + 4 \<le> 4 * (k - NDIRECT) \<or> 4 * (k - NDIRECT) + 4 \<le> 4 * (j - NDIRECT)" using k that by linarith
    then show ?thesis using False by (simp add: get32_put32_other)
  qed (use k len in \<open>simp add: MAXFILE_def NINDIRECT_def NDIRECT_def BSIZE_def\<close>)
  then show ?thesis using k n j by (auto simp: slot_def blk_addr_def)
qed

text \<open>What \<^verbatim>\<open>bmap\<close> does to the blocks: block \<open>bn\<close> of the file is there, and the others are where they were.\<close>

definition mapped :: "superblock \<Rightarrow> nat \<Rightarrow> (u32 \<Rightarrow> block) \<Rightarrow> u32 list \<Rightarrow> nat \<Rightarrow> (u32 \<Rightarrow> block) \<Rightarrow> u32 list \<Rightarrow> bool" where
  "mapped S a V as bn V' as' \<longleftrightarrow> disk_ok S a V' \<and> file_wf S a V' as' \<and> blk_addr V' as' bn \<noteq> 0 \<and>
     (\<forall>k<MAXFILE. k \<noteq> bn \<longrightarrow> blk_addr V' as' k = blk_addr V as k) \<and> (blk_addr V as bn \<noteq> 0 \<longrightarrow> V' = V \<and> as' = as) \<and>
     (\<forall>k\<le>MAXFILE. slot V' as' k = slot V as k \<or> slot V as k = 0 \<and> \<not> used S V (slot V' as' k)) \<and>
     (\<forall>x. used S V x \<longrightarrow> x \<noteq> sb_bmapstart S \<longrightarrow> x \<noteq> as ! NDIRECT \<longrightarrow> V' x = V x) \<and> (\<forall>x. used S V x \<longrightarrow> used S V' x) \<and>
     free_count S V \<le> free_count S V' + 2"

lemma mapped_direct:
  assumes al: "allocated S a V b V'" and ok: "disk_ok S a V" and wf: "file_wf S a V as" and k: "k < NDIRECT" "as ! k = 0"
  shows "mapped S a V as k V' (as[k := b])"
proof -
  have sl: "slot V' (as[k := b]) j = (if j = k then b else slot V as j)" if "j \<le> MAXFILE" for j
    using slot_direct [OF al ok wf _ k(2) that] k(1) by simp
  have kM: "k < MAXFILE" using k by (simp add: MAXFILE_def)
  have "file_wf S a V' (as[k := b])"
    by (rule file_wf_new [OF wf, of b _ _ k]) (use al sl file_wfD(1) [OF wf] in \<open>auto simp: allocated_def\<close>)
  moreover have "b \<noteq> 0" using al meta_bmap [OF ok] by (auto simp: allocated_def)
  moreover have "slot V as k = 0" using k kM by (simp add: slot_data blk_addr_def)
  moreover have "blk_addr V' (as[k := b]) j = (if j = k then b else blk_addr V as j)" if "j < MAXFILE" for j
    using sl [of j] that by (simp add: slot_data)
  ultimately show ?thesis
    using al sl kM unfolding mapped_def allocated_def by (auto simp: slot_data)
qed

lemma mapped_indirect:
  assumes al: "allocated S a V b V'" and ok: "disk_ok S a V" and wf: "file_wf S a V as" and k: "NDIRECT \<le> k" "k < MAXFILE" and n: "as ! NDIRECT \<noteq> 0"
    and z: "blk_addr V as k = 0"
  shows "mapped S a V as k (V'(as ! NDIRECT := put32 (V (as ! NDIRECT)) (4 * (k - NDIRECT)) b)) as"
proof -
  let ?V = "V'(as ! NDIRECT := put32 (V (as ! NDIRECT)) (4 * (k - NDIRECT)) b)"
  have sl: "slot ?V as j = (if j = k then b else slot V as j)" if "j \<le> MAXFILE" for j
    using slot_indirect [OF al ok wf k n that] .
  have ind: "as ! NDIRECT \<notin> meta S a" "used S V (as ! NDIRECT)" using file_wfD(2) [OF wf, of MAXFILE] n by (simp_all add: slot_data)
  have one: "1 \<in> meta S a" by (simp add: meta_def)
  have m: "as ! NDIRECT \<noteq> sb_bmapstart S" "as ! NDIRECT \<noteq> 1" using ind meta_bmap [OF ok] one by metis+
  then have same: "used S ?V x = used S V' x" "free_count S ?V = free_count S V'" for x by (simp_all add: used_def free_count_def)
  have "disk_ok S a ?V"
    using al ok m same(1) by (auto simp: allocated_def disk_ok_def bitmap_ok_def)
  moreover have "file_wf S a ?V as"
    by (rule file_wf_new [OF wf, of b _ _ k]) (use al sl same file_wfD(1) [OF wf] in \<open>auto simp: allocated_def\<close>)
  moreover have "b \<noteq> 0" using al meta_bmap [OF ok] by (auto simp: allocated_def)
  moreover have "blk_addr ?V as j = (if j = k then b else blk_addr V as j)" if "j < MAXFILE" for j
    using sl [of j] that by (simp add: slot_data)
  ultimately show ?thesis
    using al sl k z same unfolding mapped_def allocated_def by (auto simp: slot_data)
qed

lemma txn_upd_inode [simp]: "txn (upd_inode i f s) a V H bs = txn s a V H bs"
  by (simp add: upd_inode_def txn_def cache_def has_block_def logged_def)

lemma mapped_refl: "disk_ok S a V \<Longrightarrow> file_wf S a V as \<Longrightarrow> blk_addr V as bn \<noteq> 0 \<Longrightarrow> mapped S a V as bn V as"
  by (simp add: mapped_def)

lemma mapped_both:
  assumes al: "allocated S a V b V1" and ok: "disk_ok S a V" and wf: "file_wf S a V as" and z: "as ! NDIRECT = 0"
    and m: "mapped S a V1 (as[NDIRECT := b]) bn V2 as2" and bn: "NDIRECT \<le> bn" "bn < MAXFILE" and f: "free_count S V1 \<le> free_count S V2 + 1"
  shows "mapped S a V as bn V2 as2"
proof -
  let ?as = "as[NDIRECT := b]"
  have len: "length as = NDIRECT + 1" using wf by (simp add: file_wf_def)
  have b: "\<not> used S V b" "\<And>x. used S V x \<Longrightarrow> used S V1 x" "free_count S V = Suc (free_count S V1)" using al by (auto simp: allocated_def)
  have sl: "slot V1 ?as j = (if j = MAXFILE then b else slot V as j)" if "j \<le> MAXFILE" for j
    using slot_direct [OF al ok wf _ z that] by simp
  have z1: "blk_addr V as bn = 0" using bn z by (simp add: blk_addr_def)
  have "blk_addr V2 as2 k = blk_addr V as k" if "k < MAXFILE" "k \<noteq> bn" for k
    using m that sl [of k] by (auto simp: mapped_def slot_data)
  moreover have "slot V2 as2 k = slot V as k \<or> slot V as k = 0 \<and> \<not> used S V (slot V2 as2 k)" if "k \<le> MAXFILE" for k
  proof -
    have "slot V2 as2 k = slot V1 ?as k \<or> slot V1 ?as k = 0 \<and> \<not> used S V1 (slot V2 as2 k)" using m that by (simp add: mapped_def)
    then show ?thesis using sl [OF that] b z by (auto simp: slot_data split: if_splits)
  qed
  moreover have "V2 x = V x" if "used S V x" "x \<noteq> sb_bmapstart S" for x
    using m that b len allocated_keep [OF al that] unfolding mapped_def by fastforce
  ultimately show ?thesis
    using m z1 b f unfolding mapped_def by auto
qed

section \<open>bmap\<close>

lemma bmap_direct:
  fixes s :: "'a fsys_scheme"
  assumes t: "txn s a V Map.empty bs" and S: "sb s = S" and ok: "disk_ok S a V" and as: "i_addrs (icache s ! i) = as" and wf: "file_wf S a V as"
    and dev: "i_dev (icache s ! i) = 1" and bn: "bn < NDIRECT" and f: "2 \<le> free_count S V" and r: "length bs + 5 < LOGSIZE"
  shows "\<exists>s' V' as' bs'. bmap i bn s = Inr (blk_addr V' as' bn, s') \<and> txn s' a V' Map.empty bs' \<and> mapped S a V as bn V' as' \<and>
    icache s' = (icache s)[i := (icache s ! i)\<lparr>i_addrs := as'\<rparr>] \<and> sb s' = S \<and> length bs' \<le> length bs + 5"
proof (cases "as ! bn = 0")
  case True
  have "room 2 Map.empty bs" using r by (simp add: room_def)
  then obtain b s1 V1 bs1 where b: "balloc 1 s = Inr (b, s1)" "txn s1 a V1 Map.empty bs1" "logsys.more s1 = logsys.more s"
    "allocated S a V b V1" "length bs1 \<le> length bs + 2"
    using balloc_ok [OF t S ok, of] f by auto
  let ?s = "upd_inode i (\<lambda>ip. ip\<lparr>i_addrs := (i_addrs ip)[bn := b]\<rparr>) s1"
  have "bmap i bn s = Inr (b, ?s)" using True bn b(1) dev as by (simp add: bmap_def Let_def)
  moreover have "blk_addr V1 (as[bn := b]) bn = b" using bn file_wfD(1) [OF wf] by (simp add: blk_addr_def)
  moreover have "icache ?s = (icache s)[i := (icache s ! i)\<lparr>i_addrs := as[bn := b]\<rparr>]" "sb ?s = S"
    using more_fsys [OF b(3)] as S by (simp_all add: upd_inode_def)
  ultimately show ?thesis using mapped_direct [OF b(4) ok wf bn True] b(2,5) by (intro exI [of _ ?s] exI [of _ V1] exI [of _ "as[bn := b]"] exI [of _ bs1]) simp
next
  case False
  then have "bmap i bn s = Inr (blk_addr V as bn, s)" "blk_addr V as bn \<noteq> 0" using bn as by (simp_all add: bmap_def Let_def blk_addr_def)
  moreover have "icache s = (icache s)[i := (icache s ! i)\<lparr>i_addrs := as\<rparr>]" by (simp flip: as)
  ultimately show ?thesis using t S mapped_refl [OF ok wf] le_add1 [of "length bs" 5] by blast
qed

text \<open>The second half of \<^verbatim>\<open>bmap\<close>, with the block of addresses at hand.\<close>

definition bmap_indirect :: "u32 \<Rightarrow> u32 \<Rightarrow> nat \<Rightarrow> 'a fsys_scheme \<Rightarrow> (u32 \<times> 'a fsys_scheme) res" where
  "bmap_indirect dev addr bn s = bnd (bread dev addr s) (\<lambda>(bp, s).
     if get32 (buf_data bp s) (4 * bn) = 0
     then bnd (balloc dev s) (\<lambda>(addr, s).
          bnd (log_write bp (set_data bp (put32 (buf_data bp s) (4 * bn) addr) s)) (\<lambda>s.
          bnd (brelse bp s) (\<lambda>s. Inr (addr, s))))
     else bnd (brelse bp s) (\<lambda>s'. Inr (get32 (buf_data bp s) (4 * bn), s')))"

lemma bmap_beyond:
  "NDIRECT \<le> bn \<Longrightarrow> bn - NDIRECT < NINDIRECT \<Longrightarrow> bmap i bn s =
    bnd (if i_addrs (icache s ! i) ! NDIRECT = 0
         then bnd (balloc (i_dev (icache s ! i)) s) (\<lambda>(addr, s).
                Inr (addr, upd_inode i (\<lambda>ip. ip\<lparr>i_addrs := (i_addrs ip)[NDIRECT := addr]\<rparr>) s))
         else Inr (i_addrs (icache s ! i) ! NDIRECT, s)) (\<lambda>(addr, s'). bmap_indirect (i_dev (icache s ! i)) addr (bn - NDIRECT) s')"
  by (simp add: bmap_def bmap_indirect_def Let_def)

lemma bmap_indirect_run:
  fixes s :: "'a fsys_scheme"
  assumes t: "txn s a V Map.empty bs" and S: "sb s = S" and ok: "disk_ok S a V" and wf: "file_wf S a V as"
    and ind: "as ! NDIRECT \<noteq> 0" and bn: "NDIRECT \<le> bn" "bn < MAXFILE" and f: "1 \<le> free_count S V" and r: "length bs + 3 < LOGSIZE"
  shows "\<exists>s' V' bs'. bmap_indirect 1 (as ! NDIRECT) (bn - NDIRECT) s = Inr (blk_addr V' as bn, s') \<and> txn s' a V' Map.empty bs' \<and>
    mapped S a V as bn V' as \<and> logsys.more s' = logsys.more s \<and> length bs' \<le> length bs + 3 \<and> free_count S V \<le> free_count S V' + 1"
proof -
  let ?n = "as ! NDIRECT"
  have n: "?n \<notin> meta S a" "used S V ?n" "?n < sb_size S" using file_wfD(2) [OF wf, of MAXFILE] ind by (simp_all add: slot_data)
  have g: "geometry S a" using ok by (simp add: disk_ok_def bitmap_ok_def)
  have lt: "?n < FSSIZE" "?n \<notin> log_area a" "?n \<noteq> sb_bmapstart S" using n g meta_bmap [OF ok] by (auto simp: geometry_def)
  obtain bp s1 where s1: "bread 1 ?n s = Inr (bp, s1)" "txn s1 a V [?n \<mapsto> bp] bs" "buf_data bp s1 = V ?n" "logsys.more s1 = logsys.more s"
    using txn_bread [OF t _ lt(1)] r by (auto simp: room_def)
  have sb1: "sb s1 = S" using more_fsys [OF s1(4)] S by simp
  have addr: "blk_addr V as bn = get32 (V ?n) (4 * (bn - NDIRECT))" using bn ind by (simp add: blk_addr_def)
  have unhold: "[?n \<mapsto> bp](?n := None) = Map.empty" by simp
  show ?thesis
  proof (cases "blk_addr V as bn = 0")
    case True
    have "\<forall>x\<in>dom [?n \<mapsto> bp]. used S V x \<and> x \<noteq> sb_bmapstart S" "room 2 [?n \<mapsto> bp] bs" "0 < free_count S V"
      using n lt r f by (simp_all add: room_def)
    then obtain b s2 V2 bs2 where b: "balloc 1 s1 = Inr (b, s2)" "txn s2 a V2 [?n \<mapsto> bp] bs2" "logsys.more s2 = logsys.more s1"
      "allocated S a V b V2" "length bs2 \<le> length bs + 2"
      using balloc_ok [OF s1(2) sb1 ok] by blast
    have V2: "V2 ?n = V ?n" using allocated_keep [OF b(4) n(2) lt(3)] .
    let ?d = "put32 (V ?n) (4 * (bn - NDIRECT)) b"
    have "buf_data bp s2 = V ?n" using txn_held [OF b(2), of ?n bp] V2 by simp
    moreover have "room 0 [?n \<mapsto> bp] bs2" using b(5) r by (simp add: room_def)
    then obtain s3 where s3: "log_write bp (set_data bp ?d s2) = Inr s3" "txn s3 a (V2(?n := ?d)) [?n \<mapsto> bp] (add_block ?n bs2)"
      "logsys.more s3 = logsys.more s2"
      using txn_log_write [OF b(2) _ lt(1,2), of bp ?d] by auto
    obtain s4 where s4: "brelse bp s3 = Inr s4" "txn s4 a (V2(?n := ?d)) Map.empty (add_block ?n bs2)" "logsys.more s4 = logsys.more s3"
      using txn_brelse [OF s3(2), of ?n bp] unhold by auto
    note mp = mapped_indirect [OF b(4) ok wf bn ind True]
    have "blk_addr (V2(?n := ?d)) as bn = b" using slot_indirect [OF b(4) ok wf bn ind, of bn] bn by (simp add: slot_data)
    moreover have "free_count S (V2(?n := ?d)) = free_count S V2" using lt(3) by (simp add: free_count_def)
    moreover have "length (add_block ?n bs2) \<le> length bs + 3" using b(5) by (simp add: add_block_def)
    ultimately show ?thesis
      using s1 b s3 s4 mp True addr by (intro exI [of _ s4] exI [of _ "V2(?n := ?d)"] exI [of _ "add_block ?n bs2"]) (simp add: bmap_indirect_def allocated_def)
  next
    case False
    obtain s2 where s2: "brelse bp s1 = Inr s2" "txn s2 a V Map.empty bs" "logsys.more s2 = logsys.more s1"
      using txn_brelse [OF s1(2), of ?n bp] unhold by auto
    then show ?thesis
      using s1 False addr mapped_refl [OF ok wf False] by (intro exI [of _ s2] exI [of _ V] exI [of _ bs]) (simp add: bmap_indirect_def)
  qed
qed

lemma bmap_run:
  fixes s :: "'a fsys_scheme"
  assumes t: "txn s a V Map.empty bs" and S: "sb s = S" and ok: "disk_ok S a V" and as: "i_addrs (icache s ! i) = as" and wf: "file_wf S a V as"
    and i: "i < length (icache s)" and dev: "i_dev (icache s ! i) = 1" and bn: "bn < MAXFILE" and f: "2 \<le> free_count S V" and r: "length bs + 5 < LOGSIZE"
  shows "\<exists>s' V' as' bs'. bmap i bn s = Inr (blk_addr V' as' bn, s') \<and> txn s' a V' Map.empty bs' \<and> mapped S a V as bn V' as' \<and>
    icache s' = (icache s)[i := (icache s ! i)\<lparr>i_addrs := as'\<rparr>] \<and> sb s' = S \<and> length bs' \<le> length bs + 5"
proof (cases "bn < NDIRECT")
  case True
  show ?thesis by (rule bmap_direct [OF t S ok as wf dev True f r])
next
  case False
  then have bn': "NDIRECT \<le> bn" "bn - NDIRECT < NINDIRECT" using bn by (simp_all add: MAXFILE_def)
  show ?thesis
  proof (cases "as ! NDIRECT = 0")
    case True
    have "room 2 Map.empty bs" using r by (simp add: room_def)
    then obtain b s1 V1 bs1 where b: "balloc 1 s = Inr (b, s1)" "txn s1 a V1 Map.empty bs1" "logsys.more s1 = logsys.more s"
      "allocated S a V b V1" "length bs1 \<le> length bs + 2"
      using balloc_ok [OF t S ok, of] f by auto
    let ?as = "as[NDIRECT := b]" and ?s = "upd_inode i (\<lambda>ip. ip\<lparr>i_addrs := (i_addrs ip)[NDIRECT := b]\<rparr>) s1"
    have len: "length as = NDIRECT + 1" using wf by (simp add: file_wf_def)
    have t1: "txn ?s a V1 Map.empty bs1" using b(2) by simp
    have S1: "sb ?s = S" "icache ?s = (icache s)[i := (icache s ! i)\<lparr>i_addrs := ?as\<rparr>]"
      using more_fsys [OF b(3)] as S by (simp_all add: upd_inode_def)
    have b0: "b \<noteq> 0" "?as ! NDIRECT = b" using b(4) meta_bmap [OF ok] len by (auto simp: allocated_def)
    have ok1: "disk_ok S a V1" using b(4) by (simp add: allocated_def)
    have "slot V1 ?as j = (if j = MAXFILE then b else slot V as j)" if "j \<le> MAXFILE" for j
      using slot_direct [OF b(4) ok wf _ True that] by simp
    then have wf1: "file_wf S a V1 ?as"
      by (intro file_wf_new [OF wf, of b _ _ MAXFILE]) (use b(4) len in \<open>auto simp: allocated_def\<close>)
    have "1 \<le> free_count S V1" "length bs1 + 3 < LOGSIZE" using b(4,5) f r by (auto simp: allocated_def)
    then obtain s2 V2 bs2 where s2: "bmap_indirect 1 b (bn - NDIRECT) ?s = Inr (blk_addr V2 ?as bn, s2)" "txn s2 a V2 Map.empty bs2"
      "mapped S a V1 ?as bn V2 ?as" "logsys.more s2 = logsys.more ?s" "length bs2 \<le> length bs1 + 3" "free_count S V1 \<le> free_count S V2 + 1"
      using bmap_indirect_run [OF t1 S1(1) ok1 wf1 _ bn'(1) bn] b0 by auto
    have "bmap i bn s = Inr (blk_addr V2 ?as bn, s2)"
      using s2(1) b(1) True as dev by (simp add: bmap_beyond [OF bn'])
    moreover have "mapped S a V as bn V2 ?as" by (rule mapped_both [OF b(4) ok wf True s2(3) bn'(1) bn s2(6)])
    moreover have "length bs2 \<le> length bs + 5" using s2(5) b(5) by simp
    moreover have "sb s2 = S" "icache s2 = (icache s)[i := (icache s ! i)\<lparr>i_addrs := ?as\<rparr>]" using more_fsys [OF s2(4)] S1 by simp_all
    ultimately show ?thesis using s2(2) by blast
  next
    case ind: False
    have "1 \<le> free_count S V" "length bs + 3 < LOGSIZE" using f r by auto
    then obtain s2 V2 bs2 where s2: "bmap_indirect 1 (as ! NDIRECT) (bn - NDIRECT) s = Inr (blk_addr V2 as bn, s2)" "txn s2 a V2 Map.empty bs2"
      "mapped S a V as bn V2 as" "logsys.more s2 = logsys.more s" "length bs2 \<le> length bs + 3"
      using bmap_indirect_run [OF t S ok wf ind bn'(1) bn] by auto
    have "bmap i bn s = Inr (blk_addr V2 as bn, s2)"
      using s2(1) ind as dev by (simp add: bmap_beyond [OF bn'])
    moreover have "length bs2 \<le> length bs + 5" using s2(5) by simp
    moreover have "sb s2 = S" "icache s2 = (icache s)[i := (icache s ! i)\<lparr>i_addrs := as\<rparr>]"
      using more_fsys [OF s2(4)] S by (simp_all flip: as)
    ultimately show ?thesis using s2(2,3) by blast
  qed
qed

section \<open>What a write changes\<close>

text \<open>
  From \<open>V\<close> and the addresses \<open>as\<close> to \<open>V'\<close> and \<open>as'\<close> the file gets the bytes \<open>W\<close>; its other bytes
  stay, new blocks were free before, and blocks that it does not own stay as they are.
\<close>

definition changed :: "superblock \<Rightarrow> nat \<Rightarrow> (u32 \<Rightarrow> block) \<Rightarrow> u32 list \<Rightarrow> (nat \<rightharpoonup> u8) \<Rightarrow> (u32 \<Rightarrow> block) \<Rightarrow> u32 list \<Rightarrow> bool" where
  "changed S a V as W V' as' \<longleftrightarrow> disk_ok S a V' \<and> file_wf S a V' as' \<and>
     (\<forall>k<MAXFILE * BSIZE. W k = None \<longrightarrow> blk_addr V as (k div BSIZE) \<noteq> 0 \<longrightarrow> fbyte V' as' k = fbyte V as k) \<and>
     (\<forall>k<MAXFILE * BSIZE. \<forall>c. W k = Some c \<longrightarrow> fbyte V' as' k = c \<and> blk_addr V' as' (k div BSIZE) \<noteq> 0) \<and>
     (\<forall>k\<le>MAXFILE. slot V' as' k = slot V as k \<or> slot V as k = 0 \<and> \<not> used S V (slot V' as' k)) \<and>
     (\<forall>x. used S V x \<longrightarrow> x \<noteq> sb_bmapstart S \<longrightarrow> x \<notin> slot V as ` {..MAXFILE} \<longrightarrow> V' x = V x) \<and>
     (\<forall>x. used S V x \<longrightarrow> used S V' x)"

lemma changedD:
  assumes "changed S a V as W V' as'"
  shows "disk_ok S a V'" "file_wf S a V' as'"
    and "k < MAXFILE * BSIZE \<Longrightarrow> W k = None \<Longrightarrow> blk_addr V as (k div BSIZE) \<noteq> 0 \<Longrightarrow> fbyte V' as' k = fbyte V as k"
    and "k < MAXFILE * BSIZE \<Longrightarrow> W k = Some c \<Longrightarrow> fbyte V' as' k = c \<and> blk_addr V' as' (k div BSIZE) \<noteq> 0"
    and "k \<le> MAXFILE \<Longrightarrow> slot V' as' k = slot V as k \<or> slot V as k = 0 \<and> \<not> used S V (slot V' as' k)"
    and "used S V x \<Longrightarrow> x \<noteq> sb_bmapstart S \<Longrightarrow> x \<notin> slot V as ` {..MAXFILE} \<Longrightarrow> V' x = V x"
    and "used S V x \<Longrightarrow> used S V' x"
  using assms by (auto simp: changed_def)

lemma div_MAXFILE: "k < MAXFILE * BSIZE \<Longrightarrow> k div BSIZE < MAXFILE"
  by (simp add: less_mult_imp_div_less)

lemma changed_addr:
  assumes "changed S a V as W V' as'" "k < MAXFILE" "blk_addr V as k \<noteq> 0"
  shows "blk_addr V' as' k = blk_addr V as k"
  using changedD(5) [OF assms(1), of k] assms(2,3) by (simp add: slot_data)

lemma changed_trans:
  assumes 1: "changed S a V as W1 V1 as1" and 2: "changed S a V1 as1 W2 V2 as2"
  shows "changed S a V as (W1 ++ W2) V2 as2"
  unfolding changed_def
proof (intro conjI allI impI)
  show "disk_ok S a V2" "file_wf S a V2 as2" using changedD(1,2) [OF 2] .
next
  fix k assume k: "k < MAXFILE * BSIZE" "(W1 ++ W2) k = None" "blk_addr V as (k div BSIZE) \<noteq> 0"
  then show "fbyte V2 as2 k = fbyte V as k"
    using changedD(3) [OF 1 k(1)] changedD(3) [OF 2 k(1)] changed_addr [OF 1 div_MAXFILE [OF k(1)]] by auto
next
  fix k c assume k: "k < MAXFILE * BSIZE" "(W1 ++ W2) k = Some c"
  note kk = div_MAXFILE [OF k(1)]
  show "fbyte V2 as2 k = c" "blk_addr V2 as2 (k div BSIZE) \<noteq> 0"
    using k(2) changedD(4) [OF 2 k(1), of c] changedD(4) [OF 1 k(1), of c] changedD(3) [OF 2 k(1)] changed_addr [OF 2 kk]
    by (auto simp: map_add_Some_iff)
next
  fix k assume k: "k \<le> MAXFILE"
  show "slot V2 as2 k = slot V as k \<or> slot V as k = 0 \<and> \<not> used S V (slot V2 as2 k)"
    using changedD(5) [OF 1 k] changedD(5) [OF 2 k] changedD(7) [OF 1] by metis
next
  fix x assume x: "used S V x" "x \<noteq> sb_bmapstart S" "x \<notin> slot V as ` {..MAXFILE}"
  have "x \<notin> slot V1 as1 ` {..MAXFILE}" using x changedD(5) [OF 1] by fastforce
  then show "V2 x = V x" using changedD(6) [OF 1 x] changedD(6) [OF 2 changedD(7) [OF 1 x(1)] x(2)] by simp
next
  fix x assume "used S V x"
  then show "used S V2 x" using changedD(7) [OF 1] changedD(7) [OF 2] by simp
qed

lemma slot_not_bmap: "disk_ok S a V \<Longrightarrow> file_wf S a V as \<Longrightarrow> k \<le> MAXFILE \<Longrightarrow> slot V as k \<noteq> 0 \<Longrightarrow> slot V as k \<noteq> sb_bmapstart S \<and> slot V as k \<noteq> 1"
  using file_wfD(2) [of S a V as k] meta_bmap [of S a V] by (auto simp: meta_def)

lemma mapped_changed:
  assumes ok: "disk_ok S a V" and wf: "file_wf S a V as" and m: "mapped S a V as bn V' as'" and bn: "bn < MAXFILE"
  shows "changed S a V as Map.empty V' as'"
proof -
  have "fbyte V' as' k = fbyte V as k" if k: "k < MAXFILE * BSIZE" "blk_addr V as (k div BSIZE) \<noteq> 0" for k
  proof (cases "blk_addr V as bn \<noteq> 0")
    case True
    then show ?thesis using m by (simp add: mapped_def)
  next
    case False
    note kk = div_MAXFILE [OF k(1)]
    have ne: "k div BSIZE \<noteq> bn" using False k(2) by metis
    have s: "slot V as (k div BSIZE) = blk_addr V as (k div BSIZE)" using kk by (simp add: slot_data)
    have "blk_addr V as (k div BSIZE) \<noteq> as ! NDIRECT"
      using file_wfD(3) [OF wf, of "k div BSIZE" MAXFILE] kk s k(2) by (auto simp: slot_data(2))
    then have "V' (blk_addr V as (k div BSIZE)) = V (blk_addr V as (k div BSIZE))"
      using m file_wfD(2) [OF wf, of "k div BSIZE"] slot_not_bmap [OF ok wf, of "k div BSIZE"] kk s k(2) by (simp add: mapped_def)
    moreover have "blk_addr V' as' (k div BSIZE) = blk_addr V as (k div BSIZE)" using m kk ne by (simp add: mapped_def)
    ultimately show ?thesis by (simp add: fbyte_def)
  qed
  moreover have "as ! NDIRECT \<in> slot V as ` {..MAXFILE}" using slot_data(2) [of V as] by (metis atMost_iff image_eqI order_refl)
  then have "V' x = V x" if "used S V x" "x \<noteq> sb_bmapstart S" "x \<notin> slot V as ` {..MAXFILE}" for x
    using m that unfolding mapped_def by metis
  ultimately show ?thesis using m unfolding changed_def mapped_def by simp
qed

definition overlay :: "nat \<Rightarrow> u8 list \<Rightarrow> nat \<rightharpoonup> u8" where
  "overlay off src k = (if off \<le> k \<and> k < off + length src then Some (src ! (k - off)) else None)"

lemma overlay_append: "overlay off (xs @ ys) = overlay off xs ++ overlay (off + length xs) ys"
  by (rule ext) (auto simp: overlay_def map_add_def nth_append)

lemma overwrite_nth:
  "o' + length bytes \<le> length d \<Longrightarrow> j < length d \<Longrightarrow>
    overwrite d o' bytes ! j = (if o' \<le> j \<and> j < o' + length bytes then bytes ! (j - o') else d ! j)"
  by (auto simp: overwrite_def nth_append)

lemma length_overwrite [simp]: "o' + length bytes \<le> length d \<Longrightarrow> length (overwrite d o' bytes) = length d"
  by (simp add: overwrite_def)

lemma block_pos: "r < BSIZE \<Longrightarrow> k = q * BSIZE + r \<Longrightarrow> k div BSIZE = q \<and> k mod BSIZE = r"
  by simp

lemma same_block:
  assumes "off mod BSIZE + n \<le> BSIZE" "off \<le> k" "k < off + n"
  shows "k div BSIZE = off div BSIZE" "k mod BSIZE = off mod BSIZE + (k - off)"
proof -
  have "k = off div BSIZE * BSIZE + (off mod BSIZE + (k - off))" using assms(2) div_mult_mod_eq [of off BSIZE] by linarith
  moreover have "off mod BSIZE + (k - off) < BSIZE" using assms by linarith
  ultimately show "k div BSIZE = off div BSIZE" "k mod BSIZE = off mod BSIZE + (k - off)"
    using block_pos [of "off mod BSIZE + (k - off)" k "off div BSIZE"] by blast+
qed

lemma write_changed:
  assumes ok: "disk_ok S a V" and wf: "file_wf S a V as" and bn: "off div BSIZE < MAXFILE" and b: "blk_addr V as (off div BSIZE) = b" "b \<noteq> 0"
    and n: "off mod BSIZE + length bytes \<le> BSIZE"
  shows "changed S a V as (overlay off bytes) (V(b := overwrite (V b) (off mod BSIZE) bytes)) as"
proof -
  let ?bn = "off div BSIZE" and ?V = "V(b := overwrite (V b) (off mod BSIZE) bytes)"
  have sb: "slot V as ?bn = b" using bn b by (simp add: slot_data)
  have len: "length (V x) = BSIZE" for x using ok by (simp add: disk_ok_def)
  have m: "b \<noteq> sb_bmapstart S" "b \<noteq> 1" using slot_not_bmap [OF ok wf, of ?bn] bn b sb by auto
  then have u: "used S ?V x = used S V x" for x by (simp add: used_def)
  have "disk_ok S a ?V" using ok m n u by (auto simp: disk_ok_def bitmap_ok_def)
  moreover have "as ! NDIRECT \<noteq> b" using file_wfD(3) [OF wf, of ?bn MAXFILE] bn b sb by (auto simp: slot_data(2))
  then have sl: "slot ?V as k = slot V as k" for k by (intro slot_frame) simp
  moreover have "file_wf S a ?V as" using wf by (simp add: file_wf_def sl u)
  moreover have ad: "blk_addr ?V as k = blk_addr V as k" if "k < MAXFILE" for k using sl [of k] that by (simp add: slot_data)
  moreover have fb: "fbyte ?V as k = (case overlay off bytes k of Some c \<Rightarrow> c | None \<Rightarrow> fbyte V as k)"
    if k: "k < MAXFILE * BSIZE" for k
  proof (cases "k div BSIZE = ?bn")
    case True
    have "k mod BSIZE < BSIZE" by (simp add: BSIZE_def)
    moreover have "(off mod BSIZE \<le> k mod BSIZE \<and> k mod BSIZE < off mod BSIZE + length bytes) \<longleftrightarrow> off \<le> k \<and> k < off + length bytes"
      "k mod BSIZE - off mod BSIZE = k - off"
      using div_mult_mod_eq [of k BSIZE, unfolded True] div_mult_mod_eq [of off BSIZE] by linarith+
    ultimately show ?thesis
      using ad [OF div_MAXFILE [OF k]] True b len n by (simp add: fbyte_def overlay_def overwrite_nth)
  next
    case False
    then have "overlay off bytes k = None" using same_block(1) [OF n] by (auto simp: overlay_def)
    moreover have "blk_addr V as (k div BSIZE) \<noteq> b"
      using file_wfD(3) [OF wf, of "k div BSIZE" ?bn] False div_MAXFILE [OF k] bn b sb by (auto simp: slot_data)
    ultimately show ?thesis using ad [OF div_MAXFILE [OF k]] by (simp add: fbyte_def)
  qed
  moreover have "blk_addr V as (k div BSIZE) \<noteq> 0" if "overlay off bytes k = Some c" for k c
    using that same_block(1) [OF n, of k] b by (auto simp: overlay_def split: if_splits)
  moreover have "b \<in> slot V as ` {..MAXFILE}" using sb bn by (intro image_eqI [of _ _ ?bn]) auto
  ultimately show ?thesis unfolding changed_def by (auto simp: u div_MAXFILE)
qed

section \<open>readi and writei\<close>

text \<open>A block that is there is found without any change.\<close>

lemma bmap_present:
  fixes s :: "'a fsys_scheme"
  assumes t: "txn s a V Map.empty bs" and S: "sb s = S" and ok: "disk_ok S a V" and as: "i_addrs (icache s ! i) = as" and wf: "file_wf S a V as"
    and dev: "i_dev (icache s ! i) = 1" and bn: "bn < MAXFILE" and n: "blk_addr V as bn \<noteq> 0" and r: "length bs + 1 < LOGSIZE"
  shows "\<exists>s'. bmap i bn s = Inr (blk_addr V as bn, s') \<and> txn s' a V Map.empty bs \<and> logsys.more s' = logsys.more s"
proof (cases "bn < NDIRECT")
  case True
  then show ?thesis using t as n by (simp add: bmap_def Let_def blk_addr_def)
next
  case False
  then have bn': "NDIRECT \<le> bn" "bn - NDIRECT < NINDIRECT" using bn by (simp_all add: MAXFILE_def)
  let ?n = "as ! NDIRECT"
  have ind: "?n \<noteq> 0" "blk_addr V as bn = get32 (V ?n) (4 * (bn - NDIRECT))" using n False by (auto simp: blk_addr_def split: if_splits)
  have "?n < sb_size S" using file_wfD(2) [OF wf, of MAXFILE] ind by (simp add: slot_data)
  then have lt: "?n < FSSIZE" using ok by (auto simp: disk_ok_def bitmap_ok_def geometry_def)
  obtain bp s1 where s1: "bread 1 ?n s = Inr (bp, s1)" "txn s1 a V [?n \<mapsto> bp] bs" "buf_data bp s1 = V ?n" "logsys.more s1 = logsys.more s"
    using txn_bread [OF t _ lt] r by (auto simp: room_def)
  have "[?n \<mapsto> bp](?n := None) = Map.empty" by simp
  then obtain s2 where "brelse bp s1 = Inr s2" "txn s2 a V Map.empty bs" "logsys.more s2 = logsys.more s1"
    using txn_brelse [OF s1(2), of ?n bp] by auto
  then show ?thesis using s1 ind n as dev by (simp add: bmap_beyond [OF bn'] bmap_indirect_def)
qed

lemma data_block:
  assumes ok: "disk_ok S a V" and wf: "file_wf S a V as" and bn: "bn < MAXFILE" and n: "blk_addr V as bn \<noteq> 0"
  shows "blk_addr V as bn < FSSIZE" "blk_addr V as bn \<notin> log_area a"
proof -
  have "blk_addr V as bn < sb_size S" "blk_addr V as bn \<notin> meta S a" using file_wfD(2) [OF wf, of bn] bn n by (simp_all add: slot_data)
  then show "blk_addr V as bn < FSSIZE" "blk_addr V as bn \<notin> log_area a"
    using ok by (auto simp: disk_ok_def bitmap_ok_def geometry_def meta_def)
qed

lemma chunk_step:
  assumes "0 < n" "unat off + n \<le> MAXFILE * BSIZE"
  shows "0 < chunk off n" "chunk off n \<le> n" "unat off mod BSIZE + chunk off n \<le> BSIZE" "unat (off + of_nat (chunk off n)) = unat off + chunk off n"
    "unat off div BSIZE < MAXFILE"
proof -
  have "unat off mod BSIZE < BSIZE" by (simp add: BSIZE_def)
  then show c: "0 < chunk off n" "chunk off n \<le> n" "unat off mod BSIZE + chunk off n \<le> BSIZE" using assms(1) by (auto simp: chunk_def)
  have "unat off + chunk off n < 2 ^ 32" using c(2) assms(2) by (simp add: MAXFILE_def NDIRECT_def NINDIRECT_def BSIZE_def)
  then show "unat (off + of_nat (chunk off n)) = unat off + chunk off n"
    by (simp add: unat_word_ariths unat_of_nat take_bit_eq_mod)
  show "unat off div BSIZE < MAXFILE" using assms by (intro div_MAXFILE) linarith
qed

lemma chunk_bytes:
  assumes "length d = BSIZE" "k mod BSIZE + m \<le> BSIZE"
  shows "take m (drop (k mod BSIZE) d) = map (\<lambda>j. d ! (j mod BSIZE)) [k..<k + m]"
proof (rule nth_equalityI)
  show "length (take m (drop (k mod BSIZE) d)) = length (map (\<lambda>j. d ! (j mod BSIZE)) [k..<k + m])" using assms by simp
next
  fix j assume "j < length (take m (drop (k mod BSIZE) d))"
  then have "j < m" by simp
  then show "take m (drop (k mod BSIZE) d) ! j = map (\<lambda>j. d ! (j mod BSIZE)) [k..<k + m] ! j"
    using assms same_block(2) [OF assms(2), of "k + j"] by simp
qed

lemma readi_loop_run:
  fixes s :: "'a fsys_scheme"
  assumes "txn s a V Map.empty bs" "sb s = S" "disk_ok S a V" "i_addrs (icache s ! i) = as" "file_wf S a V as"
    "i_dev (icache s ! i) = 1" "unat off + n \<le> MAXFILE * BSIZE" "length bs + 1 < LOGSIZE"
    "\<And>k. unat off \<le> k \<Longrightarrow> k < unat off + n \<Longrightarrow> blk_addr V as (k div BSIZE) \<noteq> 0"
  shows "\<exists>s'. readi_loop i off n s = Inr (map (fbyte V as) [unat off..<unat off + n], s') \<and> txn s' a V Map.empty bs \<and> logsys.more s' = logsys.more s"
  using assms
proof (induction n arbitrary: off s rule: less_induct)
  case (less n)
  note p = less.prems
  show ?case
  proof (cases "n = 0")
    case True
    then show ?thesis using p(1) by (subst readi_loop.simps) simp
  next
    case False
    let ?m = "chunk off n" and ?b = "blk_addr V as (unat off div BSIZE)"
    have n0: "0 < n" using False by simp
    note c = chunk_step [OF n0 p(7)]
    have b: "?b \<noteq> 0" by (rule p(9)) (use n0 in simp_all)
    obtain s1 where s1: "bmap i (unat off div BSIZE) s = Inr (?b, s1)" "txn s1 a V Map.empty bs" "logsys.more s1 = logsys.more s"
      using bmap_present [OF p(1-6) c(5) b p(8)] by blast
    have dev: "i_dev (icache s1 ! i) = 1" using more_fsys [OF s1(3)] p(6) by simp
    obtain bp s2 where s2: "bread 1 ?b s1 = Inr (bp, s2)" "txn s2 a V [?b \<mapsto> bp] bs" "buf_data bp s2 = V ?b" "logsys.more s2 = logsys.more s1"
      using txn_bread [OF s1(2) _ data_block(1) [OF p(3,5) c(5) b]] p(8) by (auto simp: room_def)
    have "[?b \<mapsto> bp](?b := None) = Map.empty" by simp
    then obtain s3 where s3: "brelse bp s2 = Inr s3" "txn s3 a V Map.empty bs" "logsys.more s3 = logsys.more s2"
      using txn_brelse [OF s2(2), of ?b bp] by auto
    have more: "logsys.more s3 = logsys.more s" using s1(3) s2(4) s3(3) by simp
    have e: "unat off + ?m + (n - ?m) = unat off + n" using c(2) by simp
    have "\<exists>s'. readi_loop i (off + of_nat ?m) (n - ?m) s3 =
        Inr (map (fbyte V as) [unat (off + of_nat ?m)..<unat (off + of_nat ?m) + (n - ?m)], s') \<and> txn s' a V Map.empty bs \<and> logsys.more s' = logsys.more s3"
    proof (rule less.IH)
      have le: "unat off \<le> unat (off + of_nat ?m)" unfolding c(4) by simp
      show "n - ?m < n" using c(1) n0 by simp
      show "sb s3 = S" "i_addrs (icache s3 ! i) = as" "i_dev (icache s3 ! i) = 1" using more_fsys [OF more] p(2,4,6) by simp_all
      show "unat (off + of_nat ?m) + (n - ?m) \<le> MAXFILE * BSIZE" using p(7) unfolding c(4) e .
      show "blk_addr V as (k div BSIZE) \<noteq> 0" if "unat (off + of_nat ?m) \<le> k" "k < unat (off + of_nat ?m) + (n - ?m)" for k
        using p(9) [OF order_trans [OF le that(1)]] that(2) unfolding c(4) e .
    qed (fact s3(2) p(3) p(5) p(8))+
    then obtain s' where s': "readi_loop i (off + of_nat ?m) (n - ?m) s3 = Inr (map (fbyte V as) [unat off + ?m..<unat off + n], s')"
      "txn s' a V Map.empty bs" "logsys.more s' = logsys.more s3"
      unfolding c(4) e by blast
    have "take ?m (drop (unat off mod BSIZE) (V ?b)) = map (fbyte V as) [unat off..<unat off + ?m]"
    proof -
      have "length (V ?b) = BSIZE" using p(3) by (simp add: disk_ok_def)
      moreover have "V ?b ! (j mod BSIZE) = fbyte V as j" if "j \<in> set [unat off..<unat off + ?m]" for j
        using same_block(1) [OF c(3), of j] that by (simp only: fbyte_def set_upt atLeastLessThan_iff)
      ultimately show ?thesis by (simp only: chunk_bytes [OF _ c(3)] cong: map_cong)
    qed
    then have "take ?m (drop (unat off mod BSIZE) (V ?b)) @ map (fbyte V as) [unat off + ?m..<unat off + n] = map (fbyte V as) [unat off..<unat off + n]"
      using upt_add_eq_append [of "unat off" "unat off + ?m" "n - ?m"] unfolding e by (simp only: le_add1 map_append [symmetric] simp_thms)
    then have "readi_loop i off n s = Inr (map (fbyte V as) [unat off..<unat off + n], s')"
      using False s1(1) s2 s3(1) s' dev by (subst readi_loop.simps) (simp add: Let_def)
    then show ?thesis using s' more by auto
  qed
qed

text \<open>The number of blocks that \<open>n\<close> bytes from \<open>off\<close> on touch.\<close>

definition rounds :: "nat \<Rightarrow> nat \<Rightarrow> nat" where
  "rounds off n = (if n = 0 then 0 else (off mod BSIZE + n + (BSIZE - 1)) div BSIZE)"

lemma rounds_step:
  assumes "0 < n"
  shows "rounds off n = Suc (rounds (off + min n (BSIZE - off mod BSIZE)) (n - min n (BSIZE - off mod BSIZE)))"
proof (cases "n \<le> BSIZE - off mod BSIZE")
  case True
  have "off mod BSIZE < BSIZE" by (simp add: BSIZE_def)
  then have "(off mod BSIZE + n + (BSIZE - 1)) div BSIZE = 1" using True assms by (intro div_nat_eqI) auto
  then show ?thesis using True assms by (simp add: rounds_def)
next
  case False
  let ?m = "BSIZE - off mod BSIZE"
  have lt: "off mod BSIZE < BSIZE" by (simp add: BSIZE_def)
  have "off + ?m = Suc (off div BSIZE) * BSIZE" using div_mult_mod_eq [of off BSIZE] lt unfolding mult_Suc by linarith
  then have "(off + ?m) mod BSIZE = 0" by simp
  moreover have "off mod BSIZE + n + (BSIZE - 1) = BSIZE + ((n - ?m) + (BSIZE - 1))" using lt False by linarith
  moreover have "(BSIZE + ((n - ?m) + (BSIZE - 1))) div BSIZE = Suc (((n - ?m) + (BSIZE - 1)) div BSIZE)"
    by (simp add: BSIZE_def)
  moreover have "min n ?m = ?m" "n - ?m \<noteq> 0" "n \<noteq> 0" using False by simp_all
  ultimately show ?thesis by (simp only: rounds_def if_False add_0)
qed

lemma txn_update_data:
  fixes s :: "'a fsys_scheme"
  assumes "txn s a V Map.empty bs" "disk_ok S a V" "file_wf S a V as" "bn < MAXFILE" "blk_addr V as bn \<noteq> 0" "length bs + 1 < LOGSIZE"
  shows "\<exists>s'. update_block 1 (blk_addr V as bn) f s = Inr s' \<and> txn s' a (V(blk_addr V as bn := f (V (blk_addr V as bn)))) Map.empty (add_block (blk_addr V as bn) bs) \<and>
    logsys.more s' = logsys.more s"
  using txn_update [OF assms(1) _ data_block [OF assms(2-5)]] assms(6) by (simp add: room_def)

lemma writei_loop_run:
  fixes s :: "'a fsys_scheme"
  assumes "txn s a V Map.empty bs" "sb s = S" "disk_ok S a V" "i_addrs (icache s ! i) = as" "file_wf S a V as"
    "i < length (icache s)" "i_dev (icache s ! i) = 1" "unat off + length src \<le> MAXFILE * BSIZE"
    "2 * rounds (unat off) (length src) \<le> free_count S V" "length bs + 6 * rounds (unat off) (length src) < LOGSIZE"
  shows "\<exists>s' V' as' bs'. writei_loop i off src s = Inr (off + of_nat (length src), s') \<and> txn s' a V' Map.empty bs' \<and>
    changed S a V as (overlay (unat off) src) V' as' \<and> icache s' = (icache s)[i := (icache s ! i)\<lparr>i_addrs := as'\<rparr>] \<and> sb s' = S \<and>
    length bs' \<le> length bs + 6 * rounds (unat off) (length src) \<and>
    ((\<forall>k. unat off \<le> k \<and> k < unat off + length src \<longrightarrow> blk_addr V as (k div BSIZE) \<noteq> 0) \<longrightarrow> as' = as)"
  using assms
proof (induction "length src" arbitrary: off src s V as bs rule: less_induct)
  case less
  note p = less.prems
  show ?case
  proof (cases "src = []")
    case True
    have "changed S a V as (overlay (unat off) src) V as" using p(3,5) True by (auto simp: changed_def overlay_def)
    moreover have "icache s = (icache s)[i := (icache s ! i)\<lparr>i_addrs := as\<rparr>]" by (simp flip: p(4))
    moreover have "writei_loop i off src s = Inr (off + of_nat (length src), s)" using True by (subst writei_loop.simps) simp
    ultimately show ?thesis using p(1,2) le_add1 by blast
  next
    case False
    let ?n = "length src" and ?bn = "unat off div BSIZE"
    define m where "m = chunk off ?n"
    have n0: "0 < ?n" using False by simp
    note c = chunk_step [OF n0 p(8), folded m_def]
    have m': "m = min ?n (BSIZE - unat off mod BSIZE)" by (simp add: m_def chunk_def)
    note rs = rounds_step [OF n0, of "unat off", folded m', unfolded Suc_eq_plus1]
    have f2: "2 \<le> free_count S V" "length bs + 5 < LOGSIZE" using p(9,10) unfolding rs by auto
    obtain s1 V1 as1 bs1 where s1: "bmap i ?bn s = Inr (blk_addr V1 as1 ?bn, s1)" "txn s1 a V1 Map.empty bs1" "mapped S a V as ?bn V1 as1"
      "icache s1 = (icache s)[i := (icache s ! i)\<lparr>i_addrs := as1\<rparr>]" "sb s1 = S" "length bs1 \<le> length bs + 5"
      using bmap_run [OF p(1-7) c(5) f2] by blast
    note ch1 = mapped_changed [OF p(3,5) s1(3) c(5)]
    let ?b = "blk_addr V1 as1 ?bn" and ?f = "\<lambda>d. overwrite d (unat off mod BSIZE) (take m src)"
    have b: "?b \<noteq> 0" "free_count S V \<le> free_count S V1 + 2" using s1(3) by (simp_all add: mapped_def)
    have "length bs1 + 1 < LOGSIZE" using s1(6) p(10) unfolding rs by simp
    then obtain s2 where s2: "update_block 1 ?b ?f s1 = Inr s2" "txn s2 a (V1(?b := ?f (V1 ?b))) Map.empty (add_block ?b bs1)" "logsys.more s2 = logsys.more s1"
      using txn_update_data [OF s1(2) changedD(1,2) [OF ch1] c(5) b(1)] by blast
    have len: "length (take m src) = m" using c(2) by simp
    have ch2: "changed S a V1 as1 (overlay (unat off) (take m src)) (V1(?b := ?f (V1 ?b))) as1"
      by (rule write_changed [OF changedD(1,2) [OF ch1] c(5) refl b(1)]) (use c(3) len in simp)
    let ?V = "V1(?b := ?f (V1 ?b))"
    have ic: "icache s2 = (icache s)[i := (icache s ! i)\<lparr>i_addrs := as1\<rparr>]" "sb s2 = S" using more_fsys [OF s2(3)] s1(4,5) by simp_all
    have nb: "?b \<noteq> sb_bmapstart S" using slot_not_bmap [OF changedD(1,2) [OF ch1], of ?bn] b(1) c(5) by (simp add: slot_data)
    have e: "unat off + m + (?n - m) = unat off + ?n" using c(2) by simp
    have "\<exists>s' V' as' bs'. writei_loop i (off + of_nat m) (drop m src) s2 = Inr (off + of_nat m + of_nat (length (drop m src)), s') \<and> txn s' a V' Map.empty bs' \<and>
      changed S a ?V as1 (overlay (unat (off + of_nat m)) (drop m src)) V' as' \<and> icache s' = (icache s2)[i := (icache s2 ! i)\<lparr>i_addrs := as'\<rparr>] \<and> sb s' = S \<and>
      length bs' \<le> length (add_block ?b bs1) + 6 * rounds (unat (off + of_nat m)) (length (drop m src)) \<and>
      ((\<forall>k. unat (off + of_nat m) \<le> k \<and> k < unat (off + of_nat m) + length (drop m src) \<longrightarrow> blk_addr ?V as1 (k div BSIZE) \<noteq> 0) \<longrightarrow> as' = as1)"
    proof (rule less.hyps)
      show "length (drop m src) < length src" using c(1) n0 by simp
      show "i_addrs (icache s2 ! i) = as1" "i < length (icache s2)" "i_dev (icache s2 ! i) = 1" using ic p(6,7) by simp_all
      show "unat (off + of_nat m) + length (drop m src) \<le> MAXFILE * BSIZE" using p(8) unfolding c(4) length_drop e .
      have fc: "free_count S ?V = free_count S V1" using nb by (simp add: free_count_def)
      show "2 * rounds (unat (off + of_nat m)) (length (drop m src)) \<le> free_count S ?V"
        using b(2) p(9) unfolding rs c(4) length_drop fc by simp
      have "length (add_block ?b bs1) \<le> length bs1 + 1" by (simp add: add_block_def)
      then show "length (add_block ?b bs1) + 6 * rounds (unat (off + of_nat m)) (length (drop m src)) < LOGSIZE"
        using s1(6) p(10) unfolding rs c(4) length_drop by simp
    qed (fact s2(2) ic(2) changedD(1) [OF ch2] changedD(2) [OF ch2])+
    then obtain s' V' as' bs' where r: "writei_loop i (off + of_nat m) (drop m src) s2 = Inr (off + of_nat m + of_nat (length (drop m src)), s')"
      "txn s' a V' Map.empty bs'" "changed S a ?V as1 (overlay (unat off + m) (drop m src)) V' as'" "icache s' = (icache s2)[i := (icache s2 ! i)\<lparr>i_addrs := as'\<rparr>]"
      "sb s' = S" "length bs' \<le> length (add_block ?b bs1) + 6 * rounds (unat off + m) (?n - m)"
      "(\<forall>k. unat off + m \<le> k \<and> k < unat off + ?n \<longrightarrow> blk_addr ?V as1 (k div BSIZE) \<noteq> 0) \<longrightarrow> as' = as1"
      unfolding c(4) length_drop e by blast
    have "overlay (unat off) src = overlay (unat off) (take m src) ++ overlay (unat off + m) (drop m src)"
      using overlay_append [of "unat off" "take m src" "drop m src"] len by simp
    then have "changed S a V as (overlay (unat off) src) V' as'"
      using changed_trans [OF changed_trans [OF ch1 ch2] r(3)] by simp
    moreover have "writei_loop i off src s = Inr (off + of_nat ?n, s')"
    proof -
      have "off + of_nat m + of_nat (length (drop m src)) = off + of_nat ?n" using c(2) by (simp add: add.assoc flip: of_nat_add)
      moreover have "i_dev (icache s1 ! i) = 1" using s1(4) p(6,7) by simp
      ultimately show ?thesis using False s1(1) s2(1) r(1) by (subst writei_loop.simps) (simp add: Let_def m_def)
    qed
    moreover have "icache s' = (icache s)[i := (icache s ! i)\<lparr>i_addrs := as'\<rparr>]" using r(4) ic(1) p(6) by simp
    moreover have "length bs' \<le> length bs + 6 * rounds (unat off) ?n" using r(6) s1(6) unfolding rs by (auto simp: add_block_def split: if_splits)
    moreover have "as' = as" if al: "\<forall>k. unat off \<le> k \<and> k < unat off + ?n \<longrightarrow> blk_addr V as (k div BSIZE) \<noteq> 0"
    proof -
      have "blk_addr V as ?bn \<noteq> 0" using al n0 by simp
      then have "as1 = as" "V1 = V" using s1(3) by (simp_all add: mapped_def)
      moreover have "blk_addr ?V as1 (k div BSIZE) \<noteq> 0" if k: "unat off + m \<le> k \<and> k < unat off + ?n" for k
      proof -
        have "k div BSIZE < MAXFILE" using k p(8) by (intro div_MAXFILE) linarith
        moreover have "blk_addr V as (k div BSIZE) \<noteq> 0" using al k by simp
        ultimately show ?thesis using changed_addr [OF ch2] \<open>as1 = as\<close> \<open>V1 = V\<close> by simp
      qed
      ultimately show ?thesis using r(7) by blast
    qed
    ultimately show ?thesis using r(2,5) by blast
  qed
qed

text \<open>A regular file or a directory: all of the blocks that its size covers are there.\<close>

definition file_at :: "superblock \<Rightarrow> nat \<Rightarrow> (u32 \<Rightarrow> block) \<Rightarrow> inode \<Rightarrow> bool" where
  "file_at S a V ip \<longleftrightarrow> i_dev ip = 1 \<and> i_type ip \<noteq> T_DEV \<and> file_wf S a V (i_addrs ip) \<and> unat (i_size ip) \<le> MAXFILE * BSIZE \<and>
     (\<forall>k<unat (i_size ip). blk_addr V (i_addrs ip) (k div BSIZE) \<noteq> 0)"

abbreviation file_of :: "(u32 \<Rightarrow> block) \<Rightarrow> inode \<Rightarrow> u8 list" where
  "file_of V ip \<equiv> contents V (i_addrs ip) (unat (i_size ip))"

text \<open>The block of inode \<open>inum\<close> lies between the log and the free map.\<close>

definition inode_place :: "superblock \<Rightarrow> nat \<Rightarrow> u32 \<Rightarrow> bool" where
  "inode_place S a inum \<longleftrightarrow> sb_inodestart S \<le> IBLOCK inum S \<and> IBLOCK inum S < sb_bmapstart S \<and> IBLOCK inum S \<notin> log_area a"

definition on_disk :: "superblock \<Rightarrow> (u32 \<Rightarrow> block) \<Rightarrow> u32 \<Rightarrow> dinode" where
  "on_disk S V inum = get_dinode (V (IBLOCK inum S)) (unat inum mod IPB)"

lemma inode_place_meta:
  assumes "inode_place S a inum" "disk_ok S a V"
  shows "IBLOCK inum S \<in> meta S a" "IBLOCK inum S \<noteq> sb_bmapstart S" "IBLOCK inum S \<noteq> 1" "IBLOCK inum S < FSSIZE" "used S V (IBLOCK inum S)" "IBLOCK inum S \<noteq> 0"
proof -
  have g: "geometry S a" and u: "\<forall>b\<in>meta S a. b < sb_size S \<longrightarrow> used S V b" using assms(2) by (simp_all add: disk_ok_def bitmap_ok_def)
  show m: "IBLOCK inum S \<in> meta S a" using assms(1) by (auto simp: inode_place_def meta_def)
  show "IBLOCK inum S \<noteq> sb_bmapstart S" "IBLOCK inum S \<noteq> 1" "IBLOCK inum S \<noteq> 0" using assms(1) g by (auto simp: inode_place_def geometry_def)
  have lt: "IBLOCK inum S < sb_size S" using assms(1) g by (auto simp: inode_place_def geometry_def)
  then show "IBLOCK inum S < FSSIZE" using g by (auto simp: geometry_def)
  show "used S V (IBLOCK inum S)" using u m lt by blast
qed

text \<open>A change of a block of inodes is none of the files'.\<close>

lemma meta_update:
  assumes x: "x \<in> meta S a" "x \<noteq> sb_bmapstart S" "x \<noteq> 1" and d: "length d = BSIZE" and ok: "disk_ok S a V" and wf: "file_wf S a V as"
  shows "disk_ok S a (V(x := d))" "file_wf S a (V(x := d)) as" "slot (V(x := d)) as k = slot V as k"
    and "k < MAXFILE * BSIZE \<Longrightarrow> blk_addr V as (k div BSIZE) \<noteq> 0 \<Longrightarrow> fbyte (V(x := d)) as k = fbyte V as k"
    and "k < MAXFILE \<Longrightarrow> blk_addr (V(x := d)) as k = blk_addr V as k" "used S (V(x := d)) y = used S V y"
proof -
  have u: "used S (V(x := d)) y = used S V y" for y using x by (simp add: used_def)
  then show "used S (V(x := d)) y = used S V y" .
  show "disk_ok S a (V(x := d))" using ok x d u by (auto simp: disk_ok_def bitmap_ok_def)
  have "as ! NDIRECT = 0 \<or> x \<noteq> as ! NDIRECT" using file_wfD(2) [OF wf, of MAXFILE] x(1) by (auto simp: slot_data(2))
  then have sl: "slot (V(x := d)) as k = slot V as k" for k by (intro slot_frame) auto
  then show "slot (V(x := d)) as k = slot V as k" .
  show "file_wf S a (V(x := d)) as" using wf by (simp add: file_wf_def sl u)
  show ad: "blk_addr (V(x := d)) as k = blk_addr V as k" if "k < MAXFILE" for k using sl [of k] that by (simp add: slot_data)
  show "fbyte (V(x := d)) as k = fbyte V as k" if k: "k < MAXFILE * BSIZE" "blk_addr V as (k div BSIZE) \<noteq> 0"
  proof -
    have "x \<noteq> blk_addr V as (k div BSIZE)" using file_wfD(2) [OF wf, of "k div BSIZE"] div_MAXFILE [OF k(1)] k(2) x(1) by (auto simp: slot_data)
    then show ?thesis using ad [OF div_MAXFILE [OF k(1)]] by (simp add: fbyte_def)
  qed
qed

lemma contents_overlay:
  assumes ch: "changed S a V as (overlay off src) V' as'" and o: "off \<le> n" "n \<le> MAXFILE * BSIZE" "off + length src \<le> MAXFILE * BSIZE"
    and p: "\<forall>k<n. blk_addr V as (k div BSIZE) \<noteq> 0"
  shows "contents V' as' (max n (off + length src)) = take off (contents V as n) @ src @ drop (off + length src) (contents V as n)"
    "\<forall>k<max n (off + length src). blk_addr V' as' (k div BSIZE) \<noteq> 0"
proof -
  have b: "fbyte V' as' k = (if off \<le> k \<and> k < off + length src then src ! (k - off) else fbyte V as k) \<and> blk_addr V' as' (k div BSIZE) \<noteq> 0"
    if k: "k < max n (off + length src)" for k
  proof -
    have kk: "k < MAXFILE * BSIZE" using k o by linarith
    show ?thesis
    proof (cases "off \<le> k \<and> k < off + length src")
      case True
      then show ?thesis using changedD(4) [OF ch kk] by (simp add: overlay_def)
    next
      case False
      then have "k < n" "overlay off src k = None" using k o by (auto simp: overlay_def)
      then show ?thesis using False changedD(3) [OF ch kk] changed_addr [OF ch div_MAXFILE [OF kk]] p by auto
    qed
  qed
  then show "\<forall>k<max n (off + length src). blk_addr V' as' (k div BSIZE) \<noteq> 0" by blast
  show "contents V' as' (max n (off + length src)) = take off (contents V as n) @ src @ drop (off + length src) (contents V as n)"
    using b o by (intro nth_equalityI) (auto simp: contents_def nth_append)
qed

lemma sint_small: "n < 2 ^ 31 \<Longrightarrow> sint (of_nat n :: u32) = int n"
  by (simp add: sint_uint unsigned_of_nat take_bit_nat_eq_self signed_take_bit_int_eq_self_iff)

lemma contents_part:
  assumes "off \<le> n"
  shows "map (fbyte V as) [off..<off + min m (n - off)] = take m (drop off (contents V as n))"
  using assms by (intro nth_equalityI) (auto simp: contents_def)

lemma readi_run:
  fixes s :: "'a fsys_scheme"
  assumes t: "txn s a V Map.empty bs" and ok: "disk_ok (sb s) a V" and f: "file_at (sb s) a V (icache s ! i)" and r: "length bs + 1 < LOGSIZE"
    and o: "off \<le> unat (i_size (icache s ! i))" "off + n < 2 ^ 31"
  shows "\<exists>s'. readi devsw i (of_nat off) (of_nat n) s =
      Inr (int (length (take n (drop off (file_of V (icache s ! i))))), take n (drop off (file_of V (icache s ! i))), s') \<and>
    txn s' a V Map.empty bs \<and> logsys.more s' = logsys.more s"
proof -
  let ?ip = "icache s ! i" and ?off = "of_nat off :: u32" and ?n = "of_nat n :: u32"
  let ?as = "i_addrs ?ip" and ?sz = "unat (i_size ?ip)"
  define m where "m = min n (?sz - off)"
  have f': "i_dev ?ip = 1" "i_type ?ip \<noteq> T_DEV" "file_wf (sb s) a V ?as" "?sz \<le> MAXFILE * BSIZE" "\<forall>k<?sz. blk_addr V ?as (k div BSIZE) \<noteq> 0"
    using f by (simp_all add: file_at_def)
  have u: "unat ?off = off" "unat ?n = n" "unat (?off + ?n) = off + n"
    using o by (simp_all add: unat_word_ariths unat_of_nat take_bit_nat_eq_self flip: of_nat_add)
  have g: "\<not> i_size ?ip < ?off" "\<not> ?off + ?n < ?off" using o u by (simp_all add: word_less_nat_alt)
  have n': "(if i_size ?ip < ?off + ?n then i_size ?ip - ?off else ?n) = of_nat m"
  proof (cases "i_size ?ip < ?off + ?n")
    case True
    then have "m = ?sz - off" using u by (simp add: m_def word_less_nat_alt)
    moreover have "i_size ?ip - ?off = of_nat (?sz - off)" using o(1) by (simp add: of_nat_diff)
    ultimately show ?thesis using True by simp
  qed (use u in \<open>simp add: m_def word_less_nat_alt\<close>)
  have mm: "off + m \<le> ?sz" "m \<le> n" using o(1) by (simp_all add: m_def)
  then have um: "unat (of_nat m :: u32) = m" "sint (of_nat m :: u32) = int m"
    using o by (simp_all add: sint_small unat_of_nat take_bit_nat_eq_self)
  have "\<exists>s'. readi_loop i ?off m s = Inr (map (fbyte V ?as) [unat ?off..<unat ?off + m], s') \<and> txn s' a V Map.empty bs \<and> logsys.more s' = logsys.more s"
    by (rule readi_loop_run [OF t refl ok refl f'(3,1) _ r]) (use mm f'(4,5) u in auto)
  then obtain s' where s': "readi_loop i ?off m s = Inr (map (fbyte V ?as) [off..<off + m], s')" "txn s' a V Map.empty bs" "logsys.more s' = logsys.more s"
    unfolding u(1) by blast
  have c: "map (fbyte V ?as) [off..<off + m] = take n (drop off (file_of V ?ip))" unfolding m_def by (rule contents_part [OF o(1)])
  moreover have "length (map (fbyte V ?as) [off..<off + m]) = m" by simp
  ultimately have len: "length (take n (drop off (file_of V ?ip))) = m" by simp
  have "readi devsw i ?off ?n s = bnd (readi_loop i ?off m s) (\<lambda>(bytes, s). Inr (int m, bytes, s))"
    using f'(2) g um n' by (simp add: readi_def Let_def)
  then show ?thesis using s' c len by simp
qed

lemma iupdate_run:
  fixes s :: "'a fsys_scheme"
  assumes t: "txn s a V Map.empty bs" and ip: "icache s ! i = ip" "i_dev ip = 1" and pl: "inode_place (sb s) a (i_inum ip)" and ok: "disk_ok (sb s) a V"
    and r: "length bs + 1 < LOGSIZE"
  shows "\<exists>s'. iupdate i s = Inr s' \<and> logsys.more s' = logsys.more s \<and>
    txn s' a (V(IBLOCK (i_inum ip) (sb s) := put_dinode (V (IBLOCK (i_inum ip) (sb s))) (unat (i_inum ip) mod IPB) (dinode_of ip))) Map.empty
      (add_block (IBLOCK (i_inum ip) (sb s)) bs)"
  using txn_update [OF t, of "IBLOCK (i_inum ip) (sb s)"] inode_place_meta(4) [OF pl ok] pl ip r
  by (auto simp: iupdate_def Let_def room_def inode_place_def)

lemma meta_update_contents:
  assumes "x \<in> meta S a" "x \<noteq> sb_bmapstart S" "x \<noteq> 1" "length d = BSIZE" "disk_ok S a V" "file_wf S a V as" "n \<le> MAXFILE * BSIZE"
    "\<forall>k<n. blk_addr V as (k div BSIZE) \<noteq> 0"
  shows "contents (V(x := d)) as n = contents V as n"
  unfolding contents_def by (rule map_cong [OF refl], rule meta_update(4) [OF assms(1-6)]) (use assms(7,8) in auto)

text \<open>Files that share no block with the one that is written.\<close>

definition other_file :: "superblock \<Rightarrow> nat \<Rightarrow> (u32 \<Rightarrow> block) \<Rightarrow> u32 list \<Rightarrow> u32 list \<Rightarrow> nat \<Rightarrow> bool" where
  "other_file S a V as cs n \<longleftrightarrow> file_wf S a V cs \<and> n \<le> MAXFILE * BSIZE \<and> (\<forall>k<n. blk_addr V cs (k div BSIZE) \<noteq> 0) \<and>
     slot V as ` {..MAXFILE} \<inter> slot V cs ` {..MAXFILE} \<subseteq> {0}"

lemma changed_other:
  assumes ok: "disk_ok S a V" and ch: "changed S a V as W V' as'" and o: "other_file S a V as cs n"
  shows "contents V' cs n = contents V cs n" "file_wf S a V' cs" "\<forall>k<n. blk_addr V' cs (k div BSIZE) \<noteq> 0"
proof -
  have wf: "file_wf S a V cs" and n: "n \<le> MAXFILE * BSIZE" and p: "\<forall>k<n. blk_addr V cs (k div BSIZE) \<noteq> 0"
    and d: "slot V as ` {..MAXFILE} \<inter> slot V cs ` {..MAXFILE} \<subseteq> {0}"
    using o by (simp_all add: other_file_def)
  have keep: "V' (slot V cs k) = V (slot V cs k)" if k: "k \<le> MAXFILE" "slot V cs k \<noteq> 0" for k
    using changedD(6) [OF ch, of "slot V cs k"] file_wfD(2) [OF wf k] slot_not_bmap [OF ok wf k] d k by blast
  have "cs ! NDIRECT = 0 \<or> V' (cs ! NDIRECT) = V (cs ! NDIRECT)" using keep [of MAXFILE] by (auto simp: slot_data(2))
  then have sl: "slot V' cs k = slot V cs k" for k by (intro slot_frame)
  show "file_wf S a V' cs" using wf changedD(7) [OF ch] by (auto simp: file_wf_def sl)
  have b: "fbyte V' cs k = fbyte V cs k \<and> blk_addr V' cs (k div BSIZE) \<noteq> 0" if "k < n" for k
  proof -
    have kk: "k div BSIZE < MAXFILE" using that n by (intro div_MAXFILE) simp
    then have "slot V cs (k div BSIZE) \<noteq> 0" using p that by (simp add: slot_data)
    then show ?thesis using keep [of "k div BSIZE"] sl [of "k div BSIZE"] kk by (simp add: fbyte_def slot_data)
  qed
  then show "contents V' cs n = contents V cs n" "\<forall>k<n. blk_addr V' cs (k div BSIZE) \<noteq> 0" by (simp_all add: contents_def)
qed

definition splice :: "u8 list \<Rightarrow> nat \<Rightarrow> u8 list \<Rightarrow> u8 list" where
  "splice c off src = take off c @ src @ drop (off + length src) c"

lemma writei_run:
  fixes s :: "'a fsys_scheme"
  assumes t: "txn s a V Map.empty bs" and ok: "disk_ok (sb s) a V" and i: "i < length (icache s)" and ip: "icache s ! i = ip" and f: "file_at (sb s) a V ip"
    and pl: "inode_place (sb s) a (i_inum ip)" and sy: "on_disk (sb s) V (i_inum ip) = dinode_of ip"
    and o: "off \<le> unat (i_size ip)" "off + length src \<le> MAXFILE * BSIZE"
    and n: "2 * rounds off (length src) \<le> free_count (sb s) V" and r: "length bs + 6 * rounds off (length src) + 1 < LOGSIZE"
  shows "\<exists>s' V' bs' ip'. writei devsw i src (of_nat off) s = Inr (int (length src), s') \<and> txn s' a V' Map.empty bs' \<and> sb s' = sb s \<and>
    length bs' \<le> length bs + 6 * rounds off (length src) + 1 \<and>
    icache s' = (icache s)[i := ip'] \<and> file_at (sb s) a V' ip' \<and> on_disk (sb s) V' (i_inum ip) = dinode_of ip' \<and>
    file_of V' ip' = splice (file_of V ip) off src \<and> disk_ok (sb s) a V' \<and>
    (\<forall>cs k. other_file (sb s) a V (i_addrs ip) cs k \<longrightarrow> contents V' cs k = contents V cs k)"
proof -
  let ?S = "sb s" and ?off = "of_nat off :: u32" and ?as = "i_addrs ip" and ?sz = "unat (i_size ip)" and ?n = "length src"
  have f': "i_dev ip = 1" "i_type ip \<noteq> T_DEV" "file_wf ?S a V ?as" "?sz \<le> MAXFILE * BSIZE" "\<forall>k<?sz. blk_addr V ?as (k div BSIZE) \<noteq> 0"
    using f by (simp_all add: file_at_def)
  have big: "MAXFILE * BSIZE < 2 ^ 31" by (simp add: MAXFILE_def NDIRECT_def NINDIRECT_def BSIZE_def)
  have u: "unat ?off = off" "unat (of_nat ?n :: u32) = ?n" "unat (?off + of_nat ?n) = off + ?n"
    using o big by (simp_all add: unat_word_ariths unat_of_nat take_bit_nat_eq_self flip: of_nat_add)
  have sn: "sint (of_nat ?n :: u32) = int ?n" using o(2) big by (intro sint_small) simp
  have "\<exists>s' V' as' bs'. writei_loop i ?off src s = Inr (?off + of_nat ?n, s') \<and> txn s' a V' Map.empty bs' \<and>
    changed ?S a V ?as (overlay (unat ?off) src) V' as' \<and> icache s' = (icache s)[i := (icache s ! i)\<lparr>i_addrs := as'\<rparr>] \<and> sb s' = ?S \<and>
    length bs' \<le> length bs + 6 * rounds (unat ?off) ?n \<and>
    ((\<forall>k. unat ?off \<le> k \<and> k < unat ?off + ?n \<longrightarrow> blk_addr V ?as (k div BSIZE) \<noteq> 0) \<longrightarrow> as' = ?as)"
    by (rule writei_loop_run [OF t refl ok _ f'(3) i]) (use ip f'(1) o n r u in simp_all)
  then obtain s1 V1 as1 bs1 where s1: "writei_loop i ?off src s = Inr (?off + of_nat ?n, s1)" "txn s1 a V1 Map.empty bs1"
    "changed ?S a V ?as (overlay off src) V1 as1" "icache s1 = (icache s)[i := ip\<lparr>i_addrs := as1\<rparr>]" "sb s1 = ?S"
    "length bs1 \<le> length bs + 6 * rounds off ?n" "(\<forall>k. off \<le> k \<and> k < off + ?n \<longrightarrow> blk_addr V ?as (k div BSIZE) \<noteq> 0) \<longrightarrow> as1 = ?as"
    unfolding u(1) ip by blast
  note ch = s1(3) and ok1 = changedD(1) [OF s1(3)] and wf1 = changedD(2) [OF s1(3)] and ct = contents_overlay [OF s1(3) o(1) f'(4) o(2) f'(5)]
  have ipn: "icache s1 ! i = ip\<lparr>i_addrs := as1\<rparr>" using s1(4) i by simp
  have start: "writei devsw i src ?off s = bnd (writei_loop i ?off src s) (\<lambda>(off, s).
      bnd (if of_nat ?n > (0 :: u32) \<and> off > i_size (icache s ! i) then iupdate i (upd_inode i (\<lambda>ip. ip\<lparr>i_size := off\<rparr>) s) else Inr s) (\<lambda>s. Inr (int ?n, s)))"
    using f'(2) ip o u sn by (simp add: writei_def Let_def word_less_nat_alt)
  note m = inode_place_meta [OF pl ok]
  have "IBLOCK (i_inum ip) ?S \<notin> slot V ?as ` {..MAXFILE}"
  proof
    assume "IBLOCK (i_inum ip) ?S \<in> slot V ?as ` {..MAXFILE}"
    then obtain k where k: "k \<le> MAXFILE" "slot V ?as k = IBLOCK (i_inum ip) ?S" by auto
    then show False using file_wfD(2) [OF f'(3) k(1)] m(1) m(6) by simp
  qed
  then have ib: "V1 (IBLOCK (i_inum ip) ?S) = V (IBLOCK (i_inum ip) ?S)" using changedD(6) [OF ch m(5,2)] by simp
  show ?thesis
  proof (cases "?sz < off + ?n")
    case False
    then have as1: "as1 = ?as" using s1(7) f'(5) by simp
    have mx: "max ?sz (off + ?n) = ?sz" using False by simp
    have "\<not> i_size ip < ?off + of_nat ?n" using False u by (simp add: word_less_nat_alt)
    then have "writei devsw i src ?off s = Inr (int ?n, s1)" using start s1(1) ipn by simp
    moreover have "icache s1 = (icache s)[i := ip]" using s1(4) as1 by simp
    moreover have "on_disk ?S V1 (i_inum ip) = dinode_of ip" using sy ib by (simp add: on_disk_def)
    moreover have "file_at ?S a V1 ip" using f' wf1 ct(2) as1 unfolding mx file_at_def by simp
    moreover have "file_of V1 ip = splice (file_of V ip) off src" using ct(1) as1 unfolding mx splice_def by simp
    moreover have "length bs1 \<le> length bs + 6 * rounds off ?n + 1" using s1(6) by simp
    moreover have "\<forall>cs k. other_file ?S a V ?as cs k \<longrightarrow> contents V1 cs k = contents V cs k" using changed_other(1) [OF ok ch] by blast
    ultimately show ?thesis using s1(2,5) ok1 by blast
  next
    case True
    let ?ip = "ip\<lparr>i_addrs := as1, i_size := ?off + of_nat ?n\<rparr>" and ?s = "upd_inode i (\<lambda>ip. ip\<lparr>i_size := ?off + of_nat ?n\<rparr>) s1"
    let ?B = "IBLOCK (i_inum ip) ?S" and ?j = "unat (i_inum ip) mod IPB"
    let ?d = "put_dinode (V1 ?B) ?j (dinode_of ?ip)"
    have mx: "max ?sz (off + ?n) = unat (i_size ?ip)" using True u by simp
    have s1': "icache ?s ! i = ?ip" "sb ?s = ?S" "icache ?s = (icache s)[i := ?ip]" using s1(4,5) i by (simp_all add: upd_inode_def)
    have "length bs1 + 1 < LOGSIZE" using s1(6) r by simp
    then obtain s2 where s2: "iupdate i ?s = Inr s2" "logsys.more s2 = logsys.more ?s" "txn s2 a (V1(?B := ?d)) Map.empty (add_block ?B bs1)"
      using iupdate_run [of ?s a V1 bs1 i ?ip] s1(2) s1' f'(1) pl ok1 by auto
    have d: "length ?d = BSIZE" using ok1 by (simp add: disk_ok_def)
    note mu = meta_update [OF m(1-3) d ok1 wf1]
    have "i_size ip < ?off + of_nat ?n" "0 < (of_nat ?n :: u32)" using True o(1) u by (auto simp: word_less_nat_alt)
    then have "writei devsw i src ?off s = Inr (int ?n, s2)" using start s1(1) ipn s2(1) by simp
    moreover have "sb s2 = ?S" "icache s2 = (icache s)[i := ?ip]" using more_fsys [OF s2(2)] s1' by simp_all
    moreover have le: "unat (i_size ?ip) \<le> MAXFILE * BSIZE" using o(2) u by simp
    have ad: "blk_addr (V1(?B := ?d)) as1 (k div BSIZE) = blk_addr V1 as1 (k div BSIZE)" if "k < MAXFILE * BSIZE" for k
      using mu(5) div_MAXFILE [OF that] by simp
    have "file_at ?S a (V1(?B := ?d)) ?ip"
      using f' mu(2) ct(2) le ad unfolding mx file_at_def by simp
    moreover have "file_of (V1(?B := ?d)) ?ip = splice (file_of V ip) off src"
      using ct meta_update_contents [OF m(1-3) d ok1 wf1 le] unfolding mx splice_def by simp
    moreover have "?j < IPB" by (simp add: IPB_def)
    then have "DINODE_SIZE * (?j + 1) \<le> length (V1 ?B)" using ok1 by (simp add: disk_ok_def DINODE_SIZE_def IPB_def BSIZE_def)
    then have "on_disk ?S (V1(?B := ?d)) (i_inum ip) = dinode_of ?ip"
      using file_wfD(1) [OF wf1] by (simp add: on_disk_def get_dinode_put_dinode dinode_of_def)
    moreover have "contents (V1(?B := ?d)) cs k = contents V cs k" if oth: "other_file ?S a V ?as cs k" for cs k
    proof -
      note co = changed_other [OF ok ch oth]
      have k: "k \<le> MAXFILE * BSIZE" using oth by (simp add: other_file_def)
      show ?thesis using meta_update_contents [OF m(1-3) d ok1 co(2) k co(3)] co(1) by simp
    qed
    moreover have "length (add_block ?B bs1) \<le> length bs + 6 * rounds off ?n + 1" using s1(6) by (simp add: add_block_def)
    ultimately show ?thesis using s2(3) mu(1) by blast
  qed
qed

text \<open>
  C7. What is written to a file is read back. In a transaction with room for it, \<^verbatim>\<open>writei\<close> of any
  bytes at any offset up to the size of the file writes all of them, allocating blocks where the
  file has none yet. The file then holds the old contents with the new bytes spliced in, its inode
  on the disk is the one in memory, every later \<^verbatim>\<open>readi\<close> at any offset returns that part of the
  new contents, and no file that shares no block with it has changed.
\<close>

theorem file_write_read:
  fixes s :: "'a fsys_scheme"
  assumes "txn s a V Map.empty bs" and "disk_ok (sb s) a V" and "i < length (icache s)" and "icache s ! i = ip" and "file_at (sb s) a V ip"
    and "inode_place (sb s) a (i_inum ip)" and "on_disk (sb s) V (i_inum ip) = dinode_of ip"
    and "off \<le> unat (i_size ip)" and "off + length src \<le> MAXFILE * BSIZE"
    and "2 * rounds off (length src) \<le> free_count (sb s) V" and "length bs + 6 * rounds off (length src) + 2 < LOGSIZE"
  shows "\<exists>s' V' bs' ip'. writei devsw i src (of_nat off) s = Inr (int (length src), s') \<and> txn s' a V' Map.empty bs' \<and>
    icache s' = (icache s)[i := ip'] \<and> file_at (sb s) a V' ip' \<and> on_disk (sb s) V' (i_inum ip) = dinode_of ip' \<and>
    file_of V' ip' = splice (file_of V ip) off src \<and>
    (\<forall>p m. p \<le> unat (i_size ip') \<and> p + m < 2 ^ 31 \<longrightarrow>
      (\<exists>s''. readi devsw i (of_nat p) (of_nat m) s' = Inr (int (length (take m (drop p (splice (file_of V ip) off src)))), take m (drop p (splice (file_of V ip) off src)), s''))) \<and>
    (\<forall>cs k. other_file (sb s) a V (i_addrs ip) cs k \<longrightarrow> contents V' cs k = contents V cs k)"
proof -
  have "length bs + 6 * rounds off (length src) + 1 < LOGSIZE" using assms(11) by simp
  from writei_run [OF assms(1-10) this, of devsw] obtain s' V' bs' ip' where w:
    "writei devsw i src (of_nat off) s = Inr (int (length src), s')" "txn s' a V' Map.empty bs'" "sb s' = sb s"
    "length bs' \<le> length bs + 6 * rounds off (length src) + 1" "icache s' = (icache s)[i := ip']" "file_at (sb s) a V' ip'"
    "on_disk (sb s) V' (i_inum ip) = dinode_of ip'" "file_of V' ip' = splice (file_of V ip) off src" "disk_ok (sb s) a V'"
    "\<forall>cs k. other_file (sb s) a V (i_addrs ip) cs k \<longrightarrow> contents V' cs k = contents V cs k"
    by blast
  have ip': "icache s' ! i = ip'" using w(5) assms(3) by simp
  have "length bs' + 1 < LOGSIZE" using w(4) assms(11) by simp
  then have "\<exists>s''. readi devsw i (of_nat p) (of_nat m) s' = Inr (int (length (take m (drop p (splice (file_of V ip) off src)))), take m (drop p (splice (file_of V ip) off src)), s'')"
    if "p \<le> unat (i_size ip') \<and> p + m < 2 ^ 31" for p m
    using readi_run [OF w(2), of i p m devsw] w(3,6,8,9) ip' that by metis
  then show ?thesis using w by blast
qed

text \<open>An empty file on the small disk: inode 1, in block 32.\<close>

definition demo_file :: inode where
  "demo_file = demo_inode\<lparr>i_dev := 1, i_inum := 1, i_ref := 1, i_valid := True, i_type := T_FILE, i_nlink := 1\<rparr>"

definition demo_file_blocks :: "u32 \<Rightarrow> block" where
  "demo_file_blocks = demo_blocks(32 := put_dinode (replicate BSIZE 0) 1 (dinode_of demo_file))"

definition demo_file_fs :: fsys where
  "demo_file_fs = binit \<lparr>bufs = [], mru = [], idequeue = [], havedisk1 = True, disk = (\<lambda>_. demo_file_blocks), written = [],
     cur_pid = 1, lg = zero_log\<lparr>l_start := 2, l_size := int LOGSIZE, l_dev := 1, l_outstanding := 1\<rparr>,
     sb = demo_sb, icache = [demo_file]\<rparr>"

lemma demo_file_fs: "txn demo_file_fs 2 demo_file_blocks Map.empty []" "sb demo_file_fs = demo_sb" "icache demo_file_fs = [demo_file]"
proof -
  have "cache demo_file_fs demo_file_blocks Map.empty {}"
    unfolding demo_file_fs_def
    using binit_cache [of "\<lparr>bufs = [], mru = [], idequeue = [], havedisk1 = True, disk = (\<lambda>_. demo_file_blocks), written = [],
     cur_pid = 1, lg = zero_log\<lparr>l_start := 2, l_size := int LOGSIZE, l_dev := 1, l_outstanding := 1\<rparr>,
     sb = demo_sb, icache = [demo_file]\<rparr>"] by simp
  then show "txn demo_file_fs 2 demo_file_blocks Map.empty []"
    by (simp add: txn_def) (simp add: demo_file_fs_def binit_def logged_def zero_log_def FSSIZE_def LOGSIZE_def)
  show "sb demo_file_fs = demo_sb" "icache demo_file_fs = [demo_file]" by (simp_all add: demo_file_fs_def binit_def)
qed

lemma no_blocks: "k \<le> MAXFILE \<Longrightarrow> slot V (replicate 13 0) k = 0"
  by (simp add: slot_def blk_addr_def NDIRECT_def)

lemma demo_file_disk:
  "disk_ok demo_sb 2 demo_file_blocks" "file_at demo_sb 2 demo_file_blocks demo_file" "inode_place demo_sb 2 1"
  "on_disk demo_sb demo_file_blocks 1 = dinode_of demo_file" "2 \<le> free_count demo_sb demo_file_blocks"
proof -
  have ok: "disk_ok demo_sb 2 demo_blocks"
    using demo_bitmap_ok(1) by (simp add: disk_ok_def demo_blocks_def demo_bitmap_def demo_sb_block_def BSIZE_def)
  have as: "i_addrs demo_file = replicate 13 0" by (simp add: demo_file_def demo_inode_def)
  have wf: "file_wf demo_sb 2 V (replicate 13 0)" for V by (simp add: file_wf_def no_blocks NDIRECT_def)
  have ib: "IBLOCK 1 demo_sb = 32" by (simp add: IBLOCK_def demo_sb_def IPB_def word_arith_nat_div)
  show pl: "inode_place demo_sb 2 1"
    unfolding inode_place_def ib by (simp add: demo_sb_def log_area_small LOGSIZE_def)
  note m = inode_place_meta [OF pl ok, unfolded ib]
  show "disk_ok demo_sb 2 demo_file_blocks"
    unfolding demo_file_blocks_def by (rule meta_update(1) [OF m(1-3) _ ok wf]) simp
  show "file_at demo_sb 2 demo_file_blocks demo_file"
    using wf as by (simp add: file_at_def) (simp add: demo_file_def demo_inode_def T_FILE_def T_DEV_def)
  show "on_disk demo_sb demo_file_blocks 1 = dinode_of demo_file"
    unfolding on_disk_def ib demo_file_blocks_def
    by (simp add: IPB_def get_dinode_put_dinode as dinode_of_def NDIRECT_def DINODE_SIZE_def BSIZE_def)
  have "bit_free demo_bitmap 64" "bit_free demo_bitmap 65" by code_simp+
  then have "{64, 65} \<subseteq> {k. k < unat (sb_size demo_sb) \<and> bit_free (demo_file_blocks (sb_bmapstart demo_sb)) k}"
    by (simp add: demo_sb_def demo_file_blocks_def demo_blocks_def)
  then have "card {64, 65 :: nat} \<le> free_count demo_sb demo_file_blocks" unfolding free_count_def by (intro card_mono) auto
  then show "2 \<le> free_count demo_sb demo_file_blocks" by simp
qed

theorem file_write_read_witness:
  "\<exists>s' s''. writei (\<lambda>_. \<lparr>dev_read = None, dev_write = None\<rparr>) 0 [104, 105, 33] 0 demo_file_fs = Inr (3, s') \<and>
    readi (\<lambda>_. \<lparr>dev_read = None, dev_write = None\<rparr>) 0 1 100 s' = Inr (2, [105, 33], s'')"
proof -
  have r: "rounds 0 (length [104, 105, 33 :: u8]) = 1" by (simp add: rounds_def BSIZE_def)
  have sz: "unat (i_size demo_file) = 0" "i_inum demo_file = 1" "icache demo_file_fs ! 0 = demo_file" "0 < length (icache demo_file_fs)"
    by (simp_all add: demo_file_def demo_inode_def demo_file_fs(3))
  have c: "splice (file_of demo_file_blocks demo_file) 0 [104, 105, 33] = [104, 105, 33]" by (simp add: splice_def contents_def sz)
  have nums: "0 + length [104, 105, 33 :: u8] \<le> MAXFILE * BSIZE" "length ([] :: u32 list) + 6 * 1 + 2 < LOGSIZE"
    by (simp_all add: MAXFILE_def NDIRECT_def NINDIRECT_def BSIZE_def LOGSIZE_def)
  obtain s' ip' V' where w: "writei (\<lambda>_. \<lparr>dev_read = None, dev_write = None\<rparr>) 0 [104, 105, 33] (of_nat 0) demo_file_fs = Inr (int (length [104, 105, 33 :: u8]), s')"
    "file_of V' ip' = [104, 105, 33]"
    "\<forall>p m. p \<le> unat (i_size ip') \<and> p + m < 2 ^ 31 \<longrightarrow>
      (\<exists>s''. readi (\<lambda>_. \<lparr>dev_read = None, dev_write = None\<rparr>) 0 (of_nat p) (of_nat m) s' = Inr (int (length (take m (drop p [104, 105, 33 :: u8]))), take m (drop p [104, 105, 33]), s''))"
    using file_write_read [OF demo_file_fs(1) _ sz(4,3), of 0 "[104, 105, 33]" "\<lambda>_. \<lparr>dev_read = None, dev_write = None\<rparr>"]
      demo_file_disk nums sz unfolding demo_file_fs(2) r c by auto
  have "length (file_of V' ip') = 3" using w(2) by simp
  then have "unat (i_size ip') = 3" by (simp add: contents_def)
  then show ?thesis using w(1) w(3) [rule_format, of 1 100] by auto
qed

end
