(* ===== verification/Mkfs.thy ===== *)
theory Mkfs
  imports Fsfile
begin

text \<open>
  The program that builds the image of the file system (\<^verbatim>\<open>mkfs.c\<close>) and what the kernel finds on it.
  The image is the list of its sectors; a failed assertion and a failed access to it end the
  program. The counters of inodes and blocks are numbers, since they run out of sectors long
  before they wrap around. What the program reports on the terminal is left out.
\<close>

section \<open>The image\<close>

record mkfs =
  img :: "block list"
  freeinode :: nat
  freeblock :: nat

definition NINODES :: nat where "NINODES = 200"
definition nbitmap :: nat where "nbitmap = unat FSSIZE div (BSIZE * 8) + 1"
definition ninodeblocks :: nat where "ninodeblocks = NINODES div IPB + 1"
definition nlog :: nat where "nlog = LOGSIZE"
definition nmeta :: nat where "nmeta = 2 + nlog + ninodeblocks + nbitmap"
definition nblocks :: nat where "nblocks = unat FSSIZE - nmeta"

text \<open>The bytes of an integer in Intel order.\<close>

definition xshort :: "u16 \<Rightarrow> u8 list" where
  "xshort x = [ucast x, ucast (drop_bit 8 x)]"

definition xint :: "u32 \<Rightarrow> u8 list" where
  "xint x = [ucast x, ucast (drop_bit 8 x), ucast (drop_bit 16 x), ucast (drop_bit 24 x)]"

definition mkfs_sb :: superblock where
  "mkfs_sb = \<lparr>sb_size = FSSIZE, sb_nblocks = of_nat nblocks, sb_ninodes = of_nat NINODES, sb_nlog = of_nat nlog, sb_logstart = 2,
     sb_inodestart = of_nat (2 + nlog), sb_bmapstart = of_nat (2 + nlog + ninodeblocks)\<rparr>"

definition bytes_of_sb :: "superblock \<Rightarrow> u8 list" where
  "bytes_of_sb S = xint (sb_size S) @ xint (sb_nblocks S) @ xint (sb_ninodes S) @ xint (sb_nlog S) @ xint (sb_logstart S) @
     xint (sb_inodestart S) @ xint (sb_bmapstart S)"

text \<open>A read behind the end of the image fails; a write there extends it.\<close>

definition wsect :: "nat \<Rightarrow> block \<Rightarrow> mkfs \<Rightarrow> mkfs" where
  "wsect sec buf m = m\<lparr>img :=
     (if sec < length (img m) then (img m)[sec := buf] else img m @ replicate (sec - length (img m)) (replicate BSIZE 0) @ [buf])\<rparr>"

definition rsect :: "nat \<Rightarrow> mkfs \<Rightarrow> block res" where
  "rsect sec m = (if sec < length (img m) then Inr (img m ! sec) else Inl (Panic ''read''))"

definition winode :: "nat \<Rightarrow> dinode \<Rightarrow> mkfs \<Rightarrow> mkfs res" where
  "winode inum ip m =
     (let bn = unat (IBLOCK (of_nat inum) mkfs_sb)
      in bnd (rsect bn m) (\<lambda>buf. Inr (wsect bn (put_dinode buf (inum mod IPB) ip) m)))"

definition rinode :: "nat \<Rightarrow> mkfs \<Rightarrow> dinode res" where
  "rinode inum m = bnd (rsect (unat (IBLOCK (of_nat inum) mkfs_sb)) m) (\<lambda>buf. Inr (get_dinode buf (inum mod IPB)))"

definition mk_ialloc :: "u16 \<Rightarrow> mkfs \<Rightarrow> (nat \<times> mkfs) res" where
  "mk_ialloc type m =
     (let inum = freeinode m
      in bnd (winode inum ((fresh_dinode type)\<lparr>di_nlink := 1\<rparr>) (m\<lparr>freeinode := inum + 1\<rparr>)) (\<lambda>m. Inr (inum, m)))"

definition mk_balloc :: "nat \<Rightarrow> mkfs \<Rightarrow> mkfs res" where
  "mk_balloc n m =
     (if n < BSIZE * 8
      then Inr (wsect (unat (sb_bmapstart mkfs_sb)) (fold mark_used [0..<n] (replicate BSIZE 0)) m)
      else Inl (Panic ''assert used < BSIZE*8''))"

text \<open>The address of block \<open>fbn\<close> of a file, taken from the free ones if it has none.\<close>

definition new_block :: "nat \<Rightarrow> dinode \<times> mkfs \<Rightarrow> dinode \<times> mkfs" where
  "new_block k = (\<lambda>(din, m).
     if di_addrs din ! k = 0
     then (din\<lparr>di_addrs := (di_addrs din)[k := of_nat (freeblock m)]\<rparr>, m\<lparr>freeblock := freeblock m + 1\<rparr>) else (din, m))"

definition iappend_addr :: "nat \<Rightarrow> dinode \<Rightarrow> mkfs \<Rightarrow> (u32 \<times> dinode \<times> mkfs) res" where
  "iappend_addr fbn din m =
     (if fbn < NDIRECT then let (din, m) = new_block fbn (din, m) in Inr (di_addrs din ! fbn, din, m)
      else let (din, m) = new_block NDIRECT (din, m); a = unat (di_addrs din ! NDIRECT); k = 4 * (fbn - NDIRECT)
        in bnd (rsect a m) (\<lambda>indirect.
             if get32 indirect k = 0
             then let indirect = put32 indirect k (of_nat (freeblock m))
               in Inr (get32 indirect k, din, wsect a indirect (m\<lparr>freeblock := freeblock m + 1\<rparr>))
             else Inr (get32 indirect k, din, m)))"

lemma sector_rest: "0 < (off div BSIZE + 1) * BSIZE - off" "off < BSIZE + off div BSIZE * BSIZE"
  by (simp_all add: BSIZE_def dividend_less_div_times)

function iappend_loop :: "dinode \<Rightarrow> nat \<Rightarrow> u8 list \<Rightarrow> mkfs \<Rightarrow> (dinode \<times> nat \<times> mkfs) res" where
  "iappend_loop din off p m =
     (if p = [] then Inr (din, off, m)
      else let fbn = off div BSIZE
        in if \<not> fbn < MAXFILE then Inl (Panic ''assert fbn < MAXFILE'')
           else bnd (iappend_addr fbn din m) (\<lambda>(x, din, m).
             let n1 = min (length p) ((fbn + 1) * BSIZE - off)
             in bnd (rsect (unat x) m) (\<lambda>buf.
                iappend_loop din (off + n1) (drop n1 p) (wsect (unat x) (overwrite buf (off - fbn * BSIZE) (take n1 p)) m))))"
  by pat_completeness auto
termination
  by (relation "measure (\<lambda>(din, off, p, m). length p)") (use sector_rest in auto)

declare iappend_loop.simps [simp del]

definition iappend :: "nat \<Rightarrow> u8 list \<Rightarrow> mkfs \<Rightarrow> mkfs res" where
  "iappend inum p m =
     bnd (rinode inum m) (\<lambda>din.
     bnd (iappend_loop din (unat (di_size din)) p m) (\<lambda>(din, off, m).
     winode inum (din\<lparr>di_size := of_nat off\<rparr>) m))"

section \<open>The program\<close>

text \<open>The contents of a file arrive in reads of a sector each.\<close>

function append_file :: "nat \<Rightarrow> u8 list \<Rightarrow> mkfs \<Rightarrow> mkfs res" where
  "append_file inum bytes m =
     (if bytes = [] then Inr m else bnd (iappend inum (take BSIZE bytes) m) (append_file inum (drop BSIZE bytes)))"
  by pat_completeness auto
termination
  by (relation "measure (\<lambda>(inum, bytes, m). length bytes)") (auto simp: BSIZE_def)

declare append_file.simps [simp del]

definition mk_dirent :: "nat \<Rightarrow> u8 list \<Rightarrow> dirent" where
  "mk_dirent inum name = \<lparr>de_inum = of_nat inum, de_name = strncpy0 DIRSIZ name\<rparr>"

text \<open>An argument: its name, and the contents of the file unless it cannot be opened.\<close>

definition add_file :: "nat \<Rightarrow> u8 list \<times> u8 list option \<Rightarrow> mkfs \<Rightarrow> mkfs res" where
  "add_file rootino = (\<lambda>(name, file) m.
     if 47 \<in> set name then Inl (Panic ''assert index'')
     else case file of None \<Rightarrow> Inl (Panic ''open'') | Some bytes \<Rightarrow>
       (let name = (if chr0 name = 95 then tl name else name)
        in bnd (mk_ialloc T_FILE m) (\<lambda>(inum, m).
           bnd (iappend rootino (bytes_of_dirent (mk_dirent inum name)) m)
             (append_file inum bytes))))"

definition mkfs_init :: mkfs where
  "mkfs_init = wsect 1 (bytes_of_sb mkfs_sb @ replicate (BSIZE - length (bytes_of_sb mkfs_sb)) 0)
     (fold (\<lambda>i. wsect i (replicate BSIZE 0)) [0..<unat FSSIZE] \<lparr>img = [], freeinode = 1, freeblock = nmeta\<rparr>)"

definition mkfs_root :: "mkfs \<Rightarrow> (nat \<times> mkfs) res" where
  "mkfs_root m =
     bnd (mk_ialloc T_DIR m) (\<lambda>(rootino, m).
       if rootino \<noteq> unat ROOTINO then Inl (Panic ''assert rootino'')
       else bnd (iappend rootino (bytes_of_dirent (mk_dirent rootino [46])) m) (\<lambda>m.
            bnd (iappend rootino (bytes_of_dirent (mk_dirent rootino [46, 46])) m) (\<lambda>m. Inr (rootino, m))))"

definition fix_root :: "nat \<Rightarrow> mkfs \<Rightarrow> mkfs res" where
  "fix_root rootino m =
     bnd (rinode rootino m) (\<lambda>din.
       let off = (unat (di_size din) div BSIZE + 1) * BSIZE
       in winode rootino (din\<lparr>di_size := of_nat off\<rparr>) m)"

definition mkfs_main :: "(u8 list \<times> u8 list option) list \<Rightarrow> mkfs res" where
  "mkfs_main args =
     bnd (mkfs_root mkfs_init) (\<lambda>(rootino, m).
     bnd (for_each args (add_file rootino) m) (\<lambda>m.
     bnd (fix_root rootino m) (\<lambda>m.
     mk_balloc (freeblock m) m)))"

section \<open>Placement\<close>

definition vol :: "mkfs \<Rightarrow> u32 \<Rightarrow> block" where
  "vol m b = img m ! unat b"

definition SIZE :: nat where "SIZE = 1000"

lemma sizes: "unat FSSIZE = SIZE" "nmeta = 59" "nlog = 30" "ninodeblocks = 26" "SIZE = 1000"
  by (simp_all add: FSSIZE_def SIZE_def nmeta_def nlog_def ninodeblocks_def nbitmap_def NINODES_def IPB_def LOGSIZE_def BSIZE_def)

definition img_ok :: "mkfs \<Rightarrow> bool" where
  "img_ok m \<longleftrightarrow> length (img m) = SIZE \<and> (\<forall>b<SIZE. length (img m ! b) = BSIZE) \<and> nmeta \<le> freeblock m \<and>
     (\<forall>b. freeblock m \<le> b \<longrightarrow> b < SIZE \<longrightarrow> img m ! b = replicate BSIZE 0)"

text \<open>
  The files \<open>J\<close> with the addresses \<open>A\<close>: their blocks lie between the metadata and the next free
  block, and no block belongs to two of them.
\<close>

definition owned :: "(u32 \<Rightarrow> block) \<Rightarrow> nat \<Rightarrow> nat set \<Rightarrow> (nat \<Rightarrow> u32 list) \<Rightarrow> bool" where
  "owned V fb J A \<longleftrightarrow>
     (\<forall>j\<in>J. length (A j) = NDIRECT + 1 \<and> (\<forall>k\<le>MAXFILE. slot V (A j) k \<noteq> 0 \<longrightarrow> nmeta \<le> unat (slot V (A j) k) \<and> unat (slot V (A j) k) < fb)) \<and>
     (\<forall>j\<in>J. \<forall>i\<in>J. \<forall>k\<le>MAXFILE. \<forall>l\<le>MAXFILE. slot V (A j) k = slot V (A i) l \<longrightarrow> slot V (A j) k \<noteq> 0 \<longrightarrow> j = i \<and> k = l)"

text \<open>A file has exactly the blocks that its size needs.\<close>

definition sized :: "(u32 \<Rightarrow> block) \<Rightarrow> u32 list \<Rightarrow> nat \<Rightarrow> bool" where
  "sized V as n \<longleftrightarrow> n \<le> MAXFILE * BSIZE \<and> (\<forall>k<MAXFILE. blk_addr V as k \<noteq> 0 \<longleftrightarrow> k * BSIZE < n) \<and> (as ! NDIRECT \<noteq> 0 \<longleftrightarrow> NDIRECT * BSIZE < n)"

definition blocks :: "nat \<Rightarrow> nat" where
  "blocks n = (n + (BSIZE - 1)) div BSIZE + (if NDIRECT * BSIZE < n then 1 else 0)"

lemma ownedD:
  assumes "owned V fb J A" "j \<in> J"
  shows "length (A j) = NDIRECT + 1"
    and "k \<le> MAXFILE \<Longrightarrow> slot V (A j) k \<noteq> 0 \<Longrightarrow> nmeta \<le> unat (slot V (A j) k) \<and> unat (slot V (A j) k) < fb"
    and "i \<in> J \<Longrightarrow> k \<le> MAXFILE \<Longrightarrow> l \<le> MAXFILE \<Longrightarrow> slot V (A j) k = slot V (A i) l \<Longrightarrow> slot V (A j) k \<noteq> 0 \<Longrightarrow> j = i \<and> k = l"
  using assms unfolding owned_def by blast+

lemma vol_wsect:
  assumes "unat x < length (img m)"
  shows "vol (wsect (unat x) d m) = (vol m)(x := d)" "length (img (wsect (unat x) d m)) = length (img m)"
    "freeblock (wsect n d m) = freeblock m" "freeinode (wsect n d m) = freeinode m"
  using assms by (auto simp: vol_def wsect_def fun_eq_iff nth_list_update word_unat_eq_iff)

lemma of_nat_block: "n < SIZE \<Longrightarrow> unat (of_nat n :: u32) = n"
  by (rule unat_of_nat_u32) (simp add: SIZE_def)

lemma owned_others:
  assumes o: "owned V fb J A" and j: "j \<in> J" "i \<in> J" "i \<noteq> j" and fr: "\<And>x. unat x < fb \<Longrightarrow> x \<noteq> A j ! NDIRECT \<Longrightarrow> V' x = V x"
  shows "slot V' (A i) l = slot V (A i) l"
proof (rule slot_frame)
  have "V' (A i ! NDIRECT) = V (A i ! NDIRECT)" if n: "A i ! NDIRECT \<noteq> 0"
  proof (rule fr)
    show "unat (A i ! NDIRECT) < fb" using ownedD(2) [OF o j(2), of MAXFILE] n by (simp add: slot_data)
    show "A i ! NDIRECT \<noteq> A j ! NDIRECT" using ownedD(3) [OF o j(2,1), of MAXFILE MAXFILE] n j(3) by (auto simp: slot_data)
  qed
  then show "A i ! NDIRECT = 0 \<or> V' (A i ! NDIRECT) = V (A i ! NDIRECT)" by blast
qed

lemma owned_new:
  assumes o: "owned V fb J A" and j: "j \<in> J" and fb: "nmeta \<le> fb" "fb < SIZE" and len: "length as' = NDIRECT + 1"
    and sl: "\<And>l. l \<le> MAXFILE \<Longrightarrow> slot V' as' l = (if l = k then of_nat fb else slot V (A j) l)"
    and fr: "\<And>x. unat x < fb \<Longrightarrow> x \<noteq> A j ! NDIRECT \<Longrightarrow> V' x = V x"
  shows "owned V' (fb + 1) J (A(j := as'))"
proof -
  note oth = owned_others [OF o j _ _ fr]
  have ub: "unat (of_nat fb :: u32) = fb" by (rule of_nat_block [OF fb(2)])
  have new: "slot V (A i) l \<noteq> of_nat fb" if "i \<in> J" "l \<le> MAXFILE" for i l
    using ownedD(2) [OF o that] ub fb(1) sizes(2) by fastforce
  have slots: "slot V' ((A(j := as')) i) l = (if i = j \<and> l = k then of_nat fb else slot V (A i) l)" if "i \<in> J" "l \<le> MAXFILE" for i l
    using sl [OF that(2)] oth [OF that(1)] by (cases "i = j") auto
  show ?thesis
    unfolding owned_def
  proof (intro conjI ballI allI impI)
    fix i assume i: "i \<in> J"
    show "length ((A(j := as')) i) = NDIRECT + 1" using len ownedD(1) [OF o i] by simp
    fix l assume l: "l \<le> MAXFILE" "slot V' ((A(j := as')) i) l \<noteq> 0"
    show "nmeta \<le> unat (slot V' ((A(j := as')) i) l)" "unat (slot V' ((A(j := as')) i) l) < fb + 1"
      using slots [OF i l(1)] l(2) ownedD(2) [OF o i l(1)] ub fb(1) by (auto split: if_splits)
  next
    fix i h k' l assume ih: "i \<in> J" "h \<in> J" "k' \<le> MAXFILE" "l \<le> MAXFILE" and eq: "slot V' ((A(j := as')) i) k' = slot V' ((A(j := as')) h) l"
      and nz: "slot V' ((A(j := as')) i) k' \<noteq> 0"
    show "i = h" "k' = l"
      using eq nz slots [OF ih(1,3)] slots [OF ih(2,4)] new [OF ih(1,3)] new [OF ih(2,4)] ownedD(3) [OF o ih]
      by (auto split: if_splits)
  qed
qed

lemma owned_mono: "owned V fb J A \<Longrightarrow> fb \<le> fb' \<Longrightarrow> owned V fb' J A"
  unfolding owned_def by (meson less_le_trans)

lemma sized_upto:
  assumes "sized V as off'" "off div BSIZE * BSIZE < off'" "off' \<le> Suc (off div BSIZE) * BSIZE" "off div BSIZE * BSIZE < n" "n \<le> Suc (off div BSIZE) * BSIZE"
    "off div BSIZE < MAXFILE"
  shows "sized V as n"
proof -
  have B: "0 < BSIZE" by (simp add: BSIZE_def)
  have eq: "k * BSIZE < z \<longleftrightarrow> k \<le> off div BSIZE" if "off div BSIZE * BSIZE < z" "z \<le> Suc (off div BSIZE) * BSIZE" for k z
    using that B by (meson le_less_trans less_Suc_eq_le less_le_trans mult_le_mono1 not_less)
  have "n \<le> MAXFILE * BSIZE" using assms(5,6) by (meson Suc_leI le_trans mult_le_mono1)
  then show ?thesis using assms eq [OF assms(2,3)] eq [OF assms(4,5)] by (auto simp: sized_def)
qed

lemma blocks_next:
  "blocks (off + 1) = blocks off + (if off mod BSIZE = 0 then 1 else 0) + (if off = NDIRECT * BSIZE then 1 else 0)"
proof -
  have "(off + 1 + (BSIZE - 1)) div BSIZE = off div BSIZE + 1" by (simp add: BSIZE_def)
  moreover have "(off + (BSIZE - 1)) div BSIZE = off div BSIZE + (if off mod BSIZE = 0 then 0 else 1)"
  proof -
    have "off + (BSIZE - 1) = off div BSIZE * BSIZE + (off mod BSIZE + (BSIZE - 1))" using div_mult_mod_eq [of off BSIZE] by linarith
    also have "\<dots> div BSIZE = off div BSIZE + (off mod BSIZE + (BSIZE - 1)) div BSIZE" by (rule div_mult_self3) (simp add: BSIZE_def)
    also have "(off mod BSIZE + (BSIZE - 1)) div BSIZE = (if off mod BSIZE = 0 then 0 else 1)"
    proof (cases "off mod BSIZE = 0")
      case False
      moreover have "off mod BSIZE < BSIZE" by (simp add: BSIZE_def)
      ultimately show ?thesis by (simp add: div_nat_eqI)
    qed (simp add: BSIZE_def)
    finally show ?thesis .
  qed
  ultimately show ?thesis by (auto simp: blocks_def)
qed

lemma blocks_upto:
  assumes "off < n" "n \<le> Suc (off div BSIZE) * BSIZE"
  shows "blocks n = blocks (off + 1)"
proof -
  have o: "off div BSIZE * BSIZE \<le> off" by simp
  have "(n + (BSIZE - 1)) div BSIZE = off div BSIZE + 1"
    using assms o by (intro div_nat_eqI) (simp_all add: BSIZE_def)
  moreover have "(off + 1 + (BSIZE - 1)) div BSIZE = off div BSIZE + 1" by (simp add: BSIZE_def)
  moreover have "NDIRECT * BSIZE < n \<longleftrightarrow> NDIRECT * BSIZE < off + 1"
  proof
    assume "NDIRECT * BSIZE < n"
    then have "NDIRECT * BSIZE < Suc (off div BSIZE) * BSIZE" using assms(2) by linarith
    then have "NDIRECT \<le> off div BSIZE" by (simp add: BSIZE_def)
    then have "NDIRECT * BSIZE \<le> off div BSIZE * BSIZE" by (rule mult_le_mono1)
    then show "NDIRECT * BSIZE < off + 1" using o by linarith
  qed (use assms(1) in linarith)
  ultimately show ?thesis by (simp add: blocks_def)
qed

lemma slot_put:
  assumes k: "NDIRECT \<le> k" "k < MAXFILE" and n: "as ! NDIRECT \<noteq> 0" and len: "length (V (as ! NDIRECT)) = BSIZE" and j: "j \<le> MAXFILE"
  shows "slot (V(as ! NDIRECT := put32 (V (as ! NDIRECT)) (4 * (k - NDIRECT)) b)) as j = (if j = k then b else slot V as j)"
proof -
  have "get32 (put32 (V (as ! NDIRECT)) (4 * (k - NDIRECT)) b) (4 * (j - NDIRECT)) =
      (if j = k then b else get32 (V (as ! NDIRECT)) (4 * (j - NDIRECT)))" if "NDIRECT \<le> j" "j < MAXFILE"
  proof (cases "j = k")
    case False
    then have "4 * (j - NDIRECT) + 4 \<le> 4 * (k - NDIRECT) \<or> 4 * (k - NDIRECT) + 4 \<le> 4 * (j - NDIRECT)" using k that by linarith
    then show ?thesis using False by (simp add: get32_put32_other)
  qed (use k len in \<open>simp add: MAXFILE_def NINDIRECT_def NDIRECT_def BSIZE_def\<close>)
  then show ?thesis using k n j by (auto simp: slot_def blk_addr_def)
qed

lemma slot_address:
  assumes k: "k \<le> NDIRECT" and len: "length as = NDIRECT + 1" and z: "k = NDIRECT \<Longrightarrow> as ! NDIRECT = 0" "V b = replicate BSIZE 0" and b: "b \<noteq> 0" and j: "j \<le> MAXFILE"
  shows "slot V (as[k := b]) j = (if j = (if k = NDIRECT then MAXFILE else k) then b else slot V as j)"
proof -
  have "get32 (V b) (4 * (j - NDIRECT)) = 0" if "NDIRECT \<le> j" "j < MAXFILE"
    using that by (simp add: z(2) MAXFILE_def NINDIRECT_def NDIRECT_def BSIZE_def get32_zeros)
  then show ?thesis
    using k len z(1) b j by (auto simp: slot_def blk_addr_def nth_list_update MAXFILE_def NINDIRECT_def)
qed

text \<open>What taking the address of the block at \<open>off\<close> does; the image is only changed in the block of addresses.\<close>

definition addressed :: "mkfs \<Rightarrow> nat set \<Rightarrow> (nat \<Rightarrow> u32 list) \<Rightarrow> nat \<Rightarrow> nat \<Rightarrow> mkfs \<Rightarrow> u32 list \<Rightarrow> bool" where
  "addressed m J A j off m' as' \<longleftrightarrow> img_ok m' \<and> owned (vol m') (freeblock m') J (A(j := as')) \<and> sized (vol m') as' (off + 1) \<and>
     freeblock m' + blocks off = freeblock m + blocks (off + 1) \<and> freeinode m' = freeinode m \<and>
     (\<forall>x. unat x < freeblock m \<longrightarrow> x \<noteq> A j ! NDIRECT \<longrightarrow> vol m' x = vol m x) \<and>
     (\<forall>k<MAXFILE. blk_addr (vol m) (A j) k \<noteq> 0 \<longrightarrow> blk_addr (vol m') as' k = blk_addr (vol m) (A j) k) \<and>
     (as' ! NDIRECT = A j ! NDIRECT \<or> A j ! NDIRECT = 0 \<and> freeblock m \<le> unat (as' ! NDIRECT)) \<and>
     (blk_addr (vol m) (A j) (off div BSIZE) = 0 \<longrightarrow> freeblock m \<le> unat (blk_addr (vol m') as' (off div BSIZE)))"

lemma img_ok_wsect:
  assumes "img_ok m" "unat x < freeblock m" "freeblock m \<le> SIZE" "length d = BSIZE"
  shows "img_ok (wsect (unat x) d m)"
proof -
  have "unat x < length (img m)" using assms by (simp add: img_ok_def)
  then show ?thesis using assms by (auto simp: img_ok_def wsect_def nth_list_update)
qed

lemma at_boundary: "sized V as off \<Longrightarrow> off div BSIZE < MAXFILE \<Longrightarrow> blk_addr V as (off div BSIZE) \<noteq> 0 \<longleftrightarrow> off mod BSIZE \<noteq> 0"
  using div_mult_mod_eq [of off BSIZE] unfolding sized_def by (metis add.right_neutral less_add_same_cancel1 less_irrefl neq0_conv)

lemma sized_next:
  assumes s: "sized V as off" and n: "off div BSIZE < MAXFILE"
    and bl: "\<And>k. k < MAXFILE \<Longrightarrow> blk_addr V' as' k \<noteq> 0 \<longleftrightarrow> k = off div BSIZE \<or> blk_addr V as k \<noteq> 0"
    and nd: "as' ! NDIRECT \<noteq> 0 \<longleftrightarrow> as ! NDIRECT \<noteq> 0 \<or> NDIRECT \<le> off div BSIZE"
  shows "sized V' as' (off + 1)"
proof -
  have B: "0 < BSIZE" by (simp add: BSIZE_def)
  have le: "k * BSIZE < off + 1 \<longleftrightarrow> k \<le> off div BSIZE" for k
    using B by (simp add: less_eq_div_iff_mult_less_eq less_Suc_eq_le)
  have lt: "k * BSIZE < off \<Longrightarrow> k \<le> off div BSIZE" for k using le [of k] by simp
  have conv: "k \<le> off div BSIZE \<Longrightarrow> k = off div BSIZE \<or> k * BSIZE < off" for k
    using B by (metis div_times_less_eq_dividend le_neq_implies_less less_le_trans mult_less_mono1)
  have "off + 1 \<le> MAXFILE * BSIZE" using n B by (simp add: div_less_iff_less_mult Suc_leI)
  moreover have "blk_addr V' as' k \<noteq> 0 \<longleftrightarrow> k * BSIZE < off + 1" if "k < MAXFILE" for k
    using bl [OF that] s that le [of k] lt [of k] conv [of k] unfolding sized_def by blast
  moreover have "as' ! NDIRECT \<noteq> 0 \<longleftrightarrow> NDIRECT * BSIZE < off + 1"
    using nd s le [of NDIRECT] lt [of NDIRECT] unfolding sized_def by blast
  ultimately show ?thesis unfolding sized_def by blast
qed

lemma img_ok_take: "img_ok m \<Longrightarrow> freeblock m < SIZE \<Longrightarrow> img_ok (m\<lparr>freeblock := freeblock m + 1\<rparr>)"
  by (simp add: img_ok_def)

lemma vol_take [simp]: "vol (m\<lparr>freeblock := n\<rparr>) = vol m"
  by (simp add: vol_def fun_eq_iff)

lemma vol_length: "img_ok m \<Longrightarrow> unat x < SIZE \<Longrightarrow> length (vol m x) = BSIZE"
  by (simp add: img_ok_def vol_def)

lemma rsect_vol: "img_ok m \<Longrightarrow> unat x < SIZE \<Longrightarrow> rsect (unat x) m = Inr (vol m x)"
  by (simp add: rsect_def img_ok_def vol_def)

lemma free_block_zero:
  assumes "img_ok m" "freeblock m < SIZE"
  shows "vol m (of_nat (freeblock m)) = replicate BSIZE 0" "(of_nat (freeblock m) :: u32) \<noteq> 0" "unat (of_nat (freeblock m) :: u32) = freeblock m"
proof -
  show u: "unat (of_nat (freeblock m) :: u32) = freeblock m" by (rule of_nat_block [OF assms(2)])
  show "vol m (of_nat (freeblock m)) = replicate BSIZE 0" using assms u by (simp add: vol_def img_ok_def)
  show "(of_nat (freeblock m) :: u32) \<noteq> 0"
  proof
    assume "(of_nat (freeblock m) :: u32) = 0"
    then have "freeblock m = 0" using u by simp
    then show False using assms(1) sizes(2) by (simp add: img_ok_def)
  qed
qed

text \<open>A new entry in the block of addresses.\<close>

lemma entry_step:
  assumes ok: "img_ok m" and o: "owned (vol m) (freeblock m) J A" and j: "j \<in> J" and n: "A j ! NDIRECT = n" "n \<noteq> 0" and k: "NDIRECT \<le> k" "k < MAXFILE"
    and fb: "freeblock m < SIZE"
  defines "m' \<equiv> wsect (unat n) (put32 (vol m n) (4 * (k - NDIRECT)) (of_nat (freeblock m))) (m\<lparr>freeblock := freeblock m + 1\<rparr>)"
  shows "unat n < freeblock m" "img_ok m'" "owned (vol m') (freeblock m') J A" "freeblock m' = freeblock m + 1" "freeinode m' = freeinode m"
    "l < MAXFILE \<Longrightarrow> blk_addr (vol m') (A j) l = (if l = k then of_nat (freeblock m) else blk_addr (vol m) (A j) l)"
    "x \<noteq> n \<Longrightarrow> vol m' x = vol m x"
proof -
  let ?m = "m\<lparr>freeblock := freeblock m + 1\<rparr>"
  show un: "unat n < freeblock m" using ownedD(2) [OF o j, of MAXFILE] n by (simp add: slot_data)
  have un': "unat n < length (img ?m)" "unat n < SIZE" using un fb ok by (simp_all add: img_ok_def)
  have len: "length (vol m n) = BSIZE" using vol_length [OF ok un'(2)] .
  show "img_ok m'" unfolding m'_def by (rule img_ok_wsect [OF img_ok_take [OF ok fb]]) (use un fb len in simp_all)
  have v: "vol m' = (vol m)(n := put32 (vol m n) (4 * (k - NDIRECT)) (of_nat (freeblock m)))" "freeblock m' = freeblock m + 1" "freeinode m' = freeinode m"
    using vol_wsect [OF un'(1)] unfolding m'_def by simp_all
  then show "freeblock m' = freeblock m + 1" "freeinode m' = freeinode m" "x \<noteq> n \<Longrightarrow> vol m' x = vol m x" by simp_all
  have sl: "slot (vol m') (A j) l = (if l = k then of_nat (freeblock m) else slot (vol m) (A j) l)" if "l \<le> MAXFILE" for l
    using slot_put [of k "A j" "vol m" l "of_nat (freeblock m)"] n k len that v(1) by simp
  have "owned (vol m') (freeblock m + 1) J (A(j := A j))"
    by (rule owned_new [OF o j _ fb ownedD(1) [OF o j] sl]) (use ok v(1) n in \<open>auto simp: img_ok_def\<close>)
  then show "owned (vol m') (freeblock m') J A" using v(2) by simp
  show "blk_addr (vol m') (A j) l = (if l = k then of_nat (freeblock m) else blk_addr (vol m) (A j) l)" if "l < MAXFILE"
    using sl [of l] that by (simp add: slot_data)
qed

lemma addr_present:
  assumes ok: "img_ok m" and o: "owned (vol m) (freeblock m) J A" and j: "j \<in> J" and d: "di_addrs din = A j" and s: "sized (vol m) (A j) off"
    and n: "off div BSIZE < MAXFILE" and p: "blk_addr (vol m) (A j) (off div BSIZE) \<noteq> 0" and fb: "freeblock m \<le> SIZE"
  shows "iappend_addr (off div BSIZE) din m = Inr (blk_addr (vol m) (A j) (off div BSIZE), din, m)" "addressed m J A j off m (A j)"
proof -
  let ?k = "off div BSIZE" and ?n = "A j ! NDIRECT"
  have md: "off mod BSIZE \<noteq> 0" using at_boundary [OF s n] p by simp
  show "iappend_addr ?k din m = Inr (blk_addr (vol m) (A j) ?k, din, m)"
  proof (cases "?k < NDIRECT")
    case True
    then show ?thesis using p d by (simp add: iappend_addr_def new_block_def blk_addr_def)
  next
    case False
    then have ind: "?n \<noteq> 0" "blk_addr (vol m) (A j) ?k = get32 (vol m ?n) (4 * (?k - NDIRECT))" using p by (auto simp: blk_addr_def split: if_splits)
    have "unat ?n < SIZE" using ownedD(2) [OF o j, of MAXFILE] ind fb by (simp add: slot_data)
    then show ?thesis using False ind p d rsect_vol [OF ok] by (simp add: iappend_addr_def new_block_def Let_def)
  qed
  have nd: "NDIRECT \<le> ?k \<Longrightarrow> ?n \<noteq> 0" using p by (auto simp: blk_addr_def split: if_splits)
  have "sized (vol m) (A j) (off + 1)" by (rule sized_next [OF s n]) (use p nd in auto)
  moreover have "blocks (off + 1) = blocks off" using md blocks_next [of off] by auto
  ultimately show "addressed m J A j off m (A j)" using ok o p by (simp add: addressed_def)
qed

lemma addr_direct:
  assumes ok: "img_ok m" and o: "owned (vol m) (freeblock m) J A" and j: "j \<in> J" and d: "di_addrs din = A j" and s: "sized (vol m) (A j) off"
    and n: "off div BSIZE < NDIRECT" and p: "blk_addr (vol m) (A j) (off div BSIZE) = 0" and fb: "freeblock m < SIZE"
  shows "\<exists>as' m'. iappend_addr (off div BSIZE) din m = Inr (blk_addr (vol m') as' (off div BSIZE), din\<lparr>di_addrs := as'\<rparr>, m') \<and> addressed m J A j off m' as'"
proof -
  let ?k = "off div BSIZE" and ?b = "of_nat (freeblock m) :: u32" and ?m = "m\<lparr>freeblock := freeblock m + 1\<rparr>"
  let ?as = "(A j)[?k := ?b]"
  have M: "?k < MAXFILE" using n by (simp add: MAXFILE_def)
  note z = free_block_zero [OF ok fb] and len = ownedD(1) [OF o j]
  have sl: "slot (vol m) ?as l = (if l = ?k then ?b else slot (vol m) (A j) l)" if "l \<le> MAXFILE" for l
    using slot_address [of ?k "A j" "vol m" ?b l] n len z that by simp
  have bl: "blk_addr (vol m) ?as l = (if l = ?k then ?b else blk_addr (vol m) (A j) l)" if "l < MAXFILE" for l
    using sl [of l] that by (simp add: slot_data)
  have run: "iappend_addr ?k din m = Inr (blk_addr (vol ?m) ?as ?k, din\<lparr>di_addrs := ?as\<rparr>, ?m)"
    using n p d len bl [OF M] by (simp add: iappend_addr_def new_block_def blk_addr_def)
  have md: "off mod BSIZE = 0" using at_boundary [OF s M] p by simp
  have "?k \<noteq> NDIRECT" using n by simp
  then have "off \<noteq> NDIRECT * BSIZE" by (auto simp: BSIZE_def)
  then have bk: "blocks (off + 1) = blocks off + 1" using md blocks_next [of off] by simp
  have "owned (vol m) (freeblock m + 1) J (A(j := ?as))"
    by (rule owned_new [OF o j _ fb _ sl]) (use ok len in \<open>auto simp: img_ok_def\<close>)
  moreover have "sized (vol m) ?as (off + 1)" by (rule sized_next [OF s M]) (use bl z(2) n in auto)
  ultimately have "addressed m J A j off ?m ?as"
    using img_ok_take [OF ok fb] bk bl p n M z(3) by (auto simp: addressed_def)
  then show ?thesis using run by blast
qed

lemma addr_indirect:
  assumes ok: "img_ok m" and o: "owned (vol m) (freeblock m) J A" and j: "j \<in> J" and d: "di_addrs din = A j" and s: "sized (vol m) (A j) off"
    and n: "NDIRECT \<le> off div BSIZE" "off div BSIZE < MAXFILE" and p: "blk_addr (vol m) (A j) (off div BSIZE) = 0"
    and fb: "freeblock m + (blocks (off + 1) - blocks off) \<le> SIZE"
  shows "\<exists>as' m'. iappend_addr (off div BSIZE) din m = Inr (blk_addr (vol m') as' (off div BSIZE), din\<lparr>di_addrs := as'\<rparr>, m') \<and> addressed m J A j off m' as'"
proof -
  let ?k = "off div BSIZE"
  have md: "off mod BSIZE = 0" using at_boundary [OF s n(2)] p by simp
  have B: "0 < BSIZE" by (simp add: BSIZE_def)
  show ?thesis
  proof (cases "A j ! NDIRECT = 0")
    case False
    let ?n = "A j ! NDIRECT"
    have "NDIRECT * BSIZE < off" using s False by (simp add: sized_def)
    then have bk: "blocks (off + 1) = blocks off + 1" using md blocks_next [of off] by simp
    then have fb': "freeblock m < SIZE" using fb by simp
    define m' where "m' = wsect (unat ?n) (put32 (vol m ?n) (4 * (?k - NDIRECT)) (of_nat (freeblock m))) (m\<lparr>freeblock := freeblock m + 1\<rparr>)"
    note e = entry_step [OF ok o j refl False n fb', folded m'_def] and z = free_block_zero [OF ok fb']
    have g: "get32 (vol m ?n) (4 * (?k - NDIRECT)) = 0" using p n False by (simp add: blk_addr_def)
    have "length (vol m ?n) = BSIZE" using vol_length [OF ok] e(1) fb' by simp
    then have "get32 (put32 (vol m ?n) (4 * (?k - NDIRECT)) (of_nat (freeblock m))) (4 * (?k - NDIRECT)) = of_nat (freeblock m)"
      using n by (intro get32_put32) (simp add: MAXFILE_def NDIRECT_def NINDIRECT_def BSIZE_def)
    then have "iappend_addr ?k din m = Inr (of_nat (freeblock m), din, m')"
      using n(1) d False g rsect_vol [OF ok, of ?n] e(1) fb' by (simp add: iappend_addr_def new_block_def Let_def m'_def)
    moreover have "din\<lparr>di_addrs := A j\<rparr> = din" using d by simp
    moreover have "sized (vol m') (A j) (off + 1)" by (rule sized_next [OF s n(2)]) (use e(6) z(2) False in auto)
    then have "addressed m J A j off m' (A j)" using e bk p n z(3) by (auto simp: addressed_def)
    ultimately show ?thesis using e(6) [OF n(2)] by (intro exI [of _ "A j"] exI [of _ m']) simp
  next
    case True
    have "\<not> NDIRECT * BSIZE < off" using s True by (simp add: sized_def)
    moreover have "NDIRECT * BSIZE \<le> off" using n(1) B by (simp add: less_eq_div_iff_mult_less_eq)
    ultimately have off: "off = NDIRECT * BSIZE" by simp
    then have k: "?k = NDIRECT" using B by simp
    have bk: "blocks (off + 1) = blocks off + 2" using md off blocks_next [of off] by simp
    then have fb': "freeblock m < SIZE" "freeblock m + 1 < SIZE" using fb by simp_all
    let ?b = "of_nat (freeblock m) :: u32" and ?m = "m\<lparr>freeblock := freeblock m + 1\<rparr>"
    let ?as = "(A j)[NDIRECT := ?b]"
    note z = free_block_zero [OF ok fb'(1)] and len = ownedD(1) [OF o j] and ok1 = img_ok_take [OF ok fb'(1)]
    have sl: "slot (vol m) ?as l = (if l = MAXFILE then ?b else slot (vol m) (A j) l)" if "l \<le> MAXFILE" for l
      using slot_address [of NDIRECT "A j" "vol m" ?b l] True len z that by simp
    have o1: "owned (vol ?m) (freeblock ?m) J (A(j := ?as))"
      using owned_new [OF o j _ fb'(1) _ sl] ok len by (auto simp: img_ok_def)
    have as1: "?as ! NDIRECT = ?b" using len by simp
    define m' where "m' = wsect (unat ?b) (put32 (vol ?m ?b) (4 * (?k - NDIRECT)) (of_nat (freeblock ?m))) (?m\<lparr>freeblock := freeblock ?m + 1\<rparr>)"
    have e: "unat ?b < freeblock ?m" "img_ok m'" "owned (vol m') (freeblock m') J (A(j := ?as))" "freeblock m' = freeblock m + 2" "freeinode m' = freeinode m"
      "\<And>l. l < MAXFILE \<Longrightarrow> blk_addr (vol m') ?as l = (if l = ?k then of_nat (freeblock m + 1) else blk_addr (vol m) ?as l)"
      "\<And>x. x \<noteq> ?b \<Longrightarrow> vol m' x = vol m x"
      using entry_step [OF ok1 o1 j, of ?b ?k] as1 z(2) n fb' unfolding m'_def by simp_all
    have z1: "(of_nat (freeblock m + 1) :: u32) \<noteq> 0" using free_block_zero(2) [OF ok1] fb'(2) by simp
    have bl: "blk_addr (vol m) ?as l = blk_addr (vol m) (A j) l" if "l < MAXFILE" for l using sl [of l] that by (simp add: slot_data)
    have "get32 (put32 (vol m ?b) (4 * (?k - NDIRECT)) (of_nat (freeblock m + 1))) (4 * (?k - NDIRECT)) = of_nat (freeblock m + 1)"
      using k z(1) by (intro get32_put32) (simp add: BSIZE_def)
    moreover have "get32 (vol m ?b) (4 * (?k - NDIRECT)) = 0" using k z(1) by (simp add: get32_zeros BSIZE_def)
    moreover have "rsect (unat ?b) ?m = Inr (vol m ?b)" using rsect_vol [OF ok1, of ?b] z(3) fb'(1) by simp
    ultimately have run: "iappend_addr ?k din m = Inr (of_nat (freeblock m + 1), din\<lparr>di_addrs := ?as\<rparr>, m')"
      using n(1) d True len z(3) unfolding m'_def by (simp add: iappend_addr_def new_block_def Let_def)
    have "sized (vol m') ?as (off + 1)" by (rule sized_next [OF s n(2)]) (use e(6) z(2) z1 bl as1 n in auto)
    moreover have "vol m' x = vol m x" if "unat x < freeblock m" for x using e(7) [of x] z(3) that by fastforce
    moreover have "unat (of_nat (freeblock m + 1) :: u32) = freeblock m + 1" by (rule of_nat_block [OF fb'(2)])
    ultimately have "addressed m J A j off m' ?as" using e bk bl p n True as1 z(3) by (auto simp: addressed_def)
    then show ?thesis using run e(6) [OF n(2)] by (intro exI [of _ ?as] exI [of _ m']) simp
  qed
qed

lemma addr_run:
  assumes ok: "img_ok m" and o: "owned (vol m) (freeblock m) J A" and j: "j \<in> J" and d: "di_addrs din = A j" and s: "sized (vol m) (A j) off"
    and n: "off div BSIZE < MAXFILE" and fb: "freeblock m + (blocks (off + 1) - blocks off) \<le> SIZE"
  shows "\<exists>as' m'. iappend_addr (off div BSIZE) din m = Inr (blk_addr (vol m') as' (off div BSIZE), din\<lparr>di_addrs := as'\<rparr>, m') \<and> addressed m J A j off m' as'"
proof (cases "blk_addr (vol m) (A j) (off div BSIZE) = 0")
  case True
  then have "off mod BSIZE = 0" using at_boundary [OF s n] by simp
  then have "freeblock m < SIZE" using fb blocks_next [of off] by simp
  then show ?thesis
    using addr_direct [OF ok o j d s _ True] addr_indirect [OF ok o j d s _ n True fb] by (cases "off div BSIZE < NDIRECT") auto
next
  case False
  have "din\<lparr>di_addrs := A j\<rparr> = din" using d by simp
  then show ?thesis using addr_present [OF ok o j d s n False] fb by (intro exI [of _ "A j"] exI [of _ m]) simp
qed

lemma blocks_mono: "m \<le> n \<Longrightarrow> blocks m \<le> blocks n"
proof -
  assume "m \<le> n"
  then have "(m + (BSIZE - 1)) div BSIZE \<le> (n + (BSIZE - 1)) div BSIZE" by (intro div_le_mono) simp
  then show ?thesis using \<open>m \<le> n\<close> by (auto simp: blocks_def)
qed

text \<open>Bytes added to the end of the file \<open>j\<close>.\<close>

definition appended :: "mkfs \<Rightarrow> nat set \<Rightarrow> (nat \<Rightarrow> u32 list) \<Rightarrow> nat \<Rightarrow> nat \<Rightarrow> u8 list \<Rightarrow> mkfs \<Rightarrow> u32 list \<Rightarrow> bool" where
  "appended m J A j off p m' as' \<longleftrightarrow> img_ok m' \<and> owned (vol m') (freeblock m') J (A(j := as')) \<and> sized (vol m') as' (off + length p) \<and>
     freeblock m' + blocks off = freeblock m + blocks (off + length p) \<and> freeinode m' = freeinode m \<and>
     contents (vol m') as' (off + length p) = contents (vol m) (A j) off @ p \<and>
     (\<forall>x. unat x < freeblock m \<longrightarrow> x \<notin> slot (vol m) (A j) ` {..MAXFILE} \<longrightarrow> vol m' x = vol m x) \<and>
     (\<forall>k\<le>MAXFILE. slot (vol m') as' k = slot (vol m) (A j) k \<or> slot (vol m) (A j) k = 0 \<and> freeblock m \<le> unat (slot (vol m') as' k))"

lemma block_of_byte: "sized V as n \<Longrightarrow> k < n \<Longrightarrow> k div BSIZE < MAXFILE \<and> blk_addr V as (k div BSIZE) \<noteq> 0"
proof -
  assume s: "sized V as n" "k < n"
  have "k div BSIZE < MAXFILE" using s by (intro div_MAXFILE) (auto simp: sized_def)
  moreover have "k div BSIZE * BSIZE < n" using s(2) div_times_less_eq_dividend [of k BSIZE] by linarith
  ultimately show ?thesis using s(1) by (simp add: sized_def)
qed

lemma owned_data:
  assumes o: "owned V fb J A" and j: "j \<in> J" and k: "k < MAXFILE" "blk_addr V (A j) k \<noteq> 0"
  shows "unat (blk_addr V (A j) k) < fb" "nmeta \<le> unat (blk_addr V (A j) k)" "blk_addr V (A j) k \<noteq> A j ! NDIRECT"
    "i \<in> J \<Longrightarrow> slot (V(blk_addr V (A j) k := d)) (A i) l = slot V (A i) l"
proof -
  have s: "slot V (A j) k = blk_addr V (A j) k" using k by (simp add: slot_data)
  show "unat (blk_addr V (A j) k) < fb" "nmeta \<le> unat (blk_addr V (A j) k)" using ownedD(2) [OF o j, of k] k s by simp_all
  have ne: "blk_addr V (A j) k \<noteq> A i ! NDIRECT" if "i \<in> J" for i
    using ownedD(3) [OF o j that, of k MAXFILE] k s by (auto simp: slot_data(2))
  then show "blk_addr V (A j) k \<noteq> A j ! NDIRECT" using j by blast
  show "slot (V(blk_addr V (A j) k := d)) (A i) l = slot V (A i) l" if "i \<in> J" using ne [OF that] by (intro slot_frame) simp
qed

lemma owned_cong: "owned V fb J A \<Longrightarrow> (\<And>i l. i \<in> J \<Longrightarrow> slot V' (A i) l = slot V (A i) l) \<Longrightarrow> owned V' fb J A"
  unfolding owned_def by simp

text \<open>One round of the loop.\<close>

lemma append_step:
  assumes ok: "img_ok m" and o: "owned (vol m) (freeblock m) J A" and j: "j \<in> J" and s: "sized (vol m) (A j) off"
    and n: "off div BSIZE < MAXFILE" and ad: "addressed m J A j off m1 as1" and fb: "freeblock m1 \<le> SIZE"
    and p: "p \<noteq> []" "off mod BSIZE + length p \<le> BSIZE"
  defines "x \<equiv> blk_addr (vol m1) as1 (off div BSIZE)"
  defines "m2 \<equiv> wsect (unat x) (overwrite (vol m1 x) (off mod BSIZE) p) m1"
  shows "rsect (unat x) m1 = Inr (vol m1 x)" "appended m J A j off p m2 as1"
proof -
  let ?k = "off div BSIZE" and ?off = "off + length p"
  have ad': "img_ok m1" "owned (vol m1) (freeblock m1) J (A(j := as1))" "sized (vol m1) as1 (off + 1)"
    "freeblock m1 + blocks off = freeblock m + blocks (off + 1)" "freeinode m1 = freeinode m"
    "\<And>x. unat x < freeblock m \<Longrightarrow> x \<noteq> A j ! NDIRECT \<Longrightarrow> vol m1 x = vol m x"
    "\<And>k. k < MAXFILE \<Longrightarrow> blk_addr (vol m) (A j) k \<noteq> 0 \<Longrightarrow> blk_addr (vol m1) as1 k = blk_addr (vol m) (A j) k"
    "as1 ! NDIRECT = A j ! NDIRECT \<or> A j ! NDIRECT = 0 \<and> freeblock m \<le> unat (as1 ! NDIRECT)" "blk_addr (vol m) (A j) ?k = 0 \<Longrightarrow> freeblock m \<le> unat x"
    using ad by (auto simp: addressed_def x_def)
  have B: "off mod BSIZE < BSIZE" by (simp add: BSIZE_def)
  have up: "off < ?off" "?off \<le> Suc ?k * BSIZE" using p div_mult_mod_eq [of off BSIZE] unfolding mult_Suc by (simp, linarith)
  have sz: "sized (vol m1) as1 ?off"
  proof (rule sized_upto [OF ad'(3) _ _ _ up(2) n])
    have "?k * BSIZE \<le> off" by simp
    then show "?k * BSIZE < off + 1" "?k * BSIZE < ?off" using up(1) by linarith+
    show "off + 1 \<le> Suc ?k * BSIZE" using up by linarith
  qed
  have x0: "x \<noteq> 0" unfolding x_def using block_of_byte [OF ad'(3), of off] by simp
  note od = owned_data [OF ad'(2) j n, unfolded fun_upd_same, folded x_def, OF x0]
  have ux: "unat x < SIZE" "unat x < length (img m1)" using od(1) fb ad'(1) by (simp_all add: img_ok_def)
  show "rsect (unat x) m1 = Inr (vol m1 x)" by (rule rsect_vol [OF ad'(1) ux(1)])
  let ?d = "overwrite (vol m1 x) (off mod BSIZE) p"
  have len: "length (vol m1 x) = BSIZE" by (rule vol_length [OF ad'(1) ux(1)])
  have v: "vol m2 = (vol m1)(x := ?d)" "freeblock m2 = freeblock m1" "freeinode m2 = freeinode m1" using vol_wsect [OF ux(2)] unfolding m2_def by simp_all
  have "img_ok m2" unfolding m2_def by (rule img_ok_wsect [OF ad'(1) od(1) fb]) (use len p in simp)
  moreover have sl: "slot (vol m2) ((A(j := as1)) i) l = slot (vol m1) ((A(j := as1)) i) l" if "i \<in> J" for i l
    unfolding v(1) using od(4) [OF that] .
  then have "owned (vol m2) (freeblock m2) J (A(j := as1))" unfolding v(2) by (rule owned_cong [OF ad'(2)])
  moreover have slj: "slot (vol m2) as1 l = slot (vol m1) as1 l" for l using sl [OF j] by simp
  have blj: "blk_addr (vol m2) as1 l = blk_addr (vol m1) as1 l" if "l < MAXFILE" for l using slj [of l] that by (simp add: slot_data)
  have "sized (vol m2) as1 ?off" using sz blj by (simp add: sized_def)
  moreover have "freeblock m2 + blocks off = freeblock m + blocks ?off" "freeinode m2 = freeinode m"
    using v ad'(4,5) blocks_upto [OF up] by simp_all
  moreover have "vol m2 y = vol m y" if y: "unat y < freeblock m" "y \<notin> slot (vol m) (A j) ` {..MAXFILE}" for y
  proof -
    have "y \<noteq> slot (vol m) (A j) MAXFILE" "y \<noteq> slot (vol m) (A j) ?k" using y(2) n by auto
    then have "y \<noteq> A j ! NDIRECT" "y \<noteq> x" using ad'(7) [OF n] ad'(9) y(1) n by (cases "blk_addr (vol m) (A j) ?k = 0"; auto simp: slot_data x_def)+
    then show ?thesis using v(1) ad'(6) [OF y(1)] by simp
  qed
  moreover have "slot (vol m2) as1 k = slot (vol m) (A j) k \<or> slot (vol m) (A j) k = 0 \<and> freeblock m \<le> unat (slot (vol m2) as1 k)"
    if k: "k \<le> MAXFILE" for k
  proof -
    consider "k = MAXFILE" | "k = ?k" | "k < MAXFILE" "k \<noteq> ?k" using k by fastforce
    then show ?thesis
    proof cases
      case 3
      have "k * BSIZE \<noteq> off" using 3(2) by (auto simp: BSIZE_def)
      then have "k * BSIZE < off + 1 \<longleftrightarrow> k * BSIZE < off" by linarith
      then have "blk_addr (vol m1) as1 k \<noteq> 0 \<longleftrightarrow> blk_addr (vol m) (A j) k \<noteq> 0" using s ad'(3) 3(1) by (simp add: sized_def)
      then show ?thesis using ad'(7) [OF 3(1)] slj [of k] 3(1) by (auto simp: slot_data)
    next
      case 2
      then show ?thesis using ad'(7) [OF n] ad'(9) slj [of k] n by (auto simp: slot_data x_def)
    qed (use ad'(8) slj [of k] in \<open>simp add: slot_data\<close>)
  qed
  moreover have "contents (vol m2) as1 ?off = contents (vol m) (A j) off @ p"
  proof -
    have old: "fbyte (vol m2) as1 i = fbyte (vol m) (A j) i" if i: "i < off" for i
    proof -
      note bi = block_of_byte [OF s i]
      let ?y = "blk_addr (vol m) (A j) (i div BSIZE)"
      note odi = owned_data [OF o j conjunct1 [OF bi] conjunct2 [OF bi]]
      have y1: "blk_addr (vol m2) as1 (i div BSIZE) = ?y" using blj ad'(7) bi by simp
      have vy: "vol m1 ?y = vol m ?y" by (rule ad'(6) [OF odi(1,3)])
      show ?thesis
      proof (cases "?y = x")
        case True
        then have "blk_addr (vol m) (A j) ?k \<noteq> 0" using ad'(9) odi(1) by auto
        then have "i div BSIZE = ?k" using ownedD(3) [OF o j j, of "i div BSIZE" ?k] True ad'(7) [OF n] bi n by (simp add: slot_data x_def)
        then have "i mod BSIZE < off mod BSIZE" using i div_mult_mod_eq [of i BSIZE] div_mult_mod_eq [of off BSIZE] by (metis nat_add_left_cancel_less)
        moreover have "i mod BSIZE < BSIZE" by (simp add: BSIZE_def)
        ultimately have "?d ! (i mod BSIZE) = vol m1 x ! (i mod BSIZE)" using len p by (simp add: overwrite_nth)
        then show ?thesis using y1 True vy v(1) by (simp add: fbyte_def)
      qed (use y1 vy v(1) in \<open>simp add: fbyte_def\<close>)
    qed
    have new: "fbyte (vol m2) as1 (off + i) = p ! i" if i: "i < length p" for i
    proof -
      note sb = same_block [OF p(2), of "off + i"]
      have "blk_addr (vol m2) as1 ((off + i) div BSIZE) = x" using sb(1) i blj [OF n] by (simp add: x_def)
      moreover have "?d ! (off mod BSIZE + i) = p ! i" using len p i by (subst overwrite_nth) auto
      ultimately show ?thesis using sb(2) i v(1) by (simp add: fbyte_def)
    qed
    have "fbyte (vol m2) as1 i = p ! (i - off)" if "\<not> i < off" "i < ?off" for i using new [of "i - off"] that by simp
    then show ?thesis
      unfolding contents_def by (intro nth_equalityI) (use old in \<open>auto simp: nth_append\<close>)
  qed
  ultimately show "appended m J A j off p m2 as1" unfolding appended_def by blast
qed

lemma appended_trans:
  assumes 1: "appended m J A j off p m1 as1" and 2: "appended m1 J (A(j := as1)) j (off + length p) q m2 as2" and j: "j \<in> J"
    and o: "owned (vol m) (freeblock m) J A"
  shows "appended m J A j off (p @ q) m2 as2"
proof -
  have a1: "freeblock m1 + blocks off = freeblock m + blocks (off + length p)" "freeinode m1 = freeinode m"
    "contents (vol m1) as1 (off + length p) = contents (vol m) (A j) off @ p"
    "\<And>x. unat x < freeblock m \<Longrightarrow> x \<notin> slot (vol m) (A j) ` {..MAXFILE} \<Longrightarrow> vol m1 x = vol m x"
    "\<And>k. k \<le> MAXFILE \<Longrightarrow> slot (vol m1) as1 k = slot (vol m) (A j) k \<or> slot (vol m) (A j) k = 0 \<and> freeblock m \<le> unat (slot (vol m1) as1 k)"
    using 1 by (simp_all add: appended_def)
  have a2: "img_ok m2" "owned (vol m2) (freeblock m2) J (A(j := as2))" "sized (vol m2) as2 (off + length p + length q)"
    "freeblock m2 + blocks (off + length p) = freeblock m1 + blocks (off + length p + length q)" "freeinode m2 = freeinode m1"
    "contents (vol m2) as2 (off + length p + length q) = contents (vol m1) as1 (off + length p) @ q"
    "\<And>x. unat x < freeblock m1 \<Longrightarrow> x \<notin> slot (vol m1) as1 ` {..MAXFILE} \<Longrightarrow> vol m2 x = vol m1 x"
    "\<And>k. k \<le> MAXFILE \<Longrightarrow> slot (vol m2) as2 k = slot (vol m1) as1 k \<or> slot (vol m1) as1 k = 0 \<and> freeblock m1 \<le> unat (slot (vol m2) as2 k)"
    using 2 by (simp_all add: appended_def)
  have fb: "freeblock m \<le> freeblock m1" using a1(1) blocks_mono [of off "off + length p"] by linarith
  have "vol m2 x = vol m x" if x: "unat x < freeblock m" "x \<notin> slot (vol m) (A j) ` {..MAXFILE}" for x
  proof -
    have "slot (vol m1) as1 k \<noteq> x" if "k \<le> MAXFILE" for k
    proof -
      have "slot (vol m) (A j) k \<noteq> x" using x(2) that by blast
      then show ?thesis using a1(5) [OF that] x(1) by auto
    qed
    then show ?thesis using a2(7) [of x] a1(4) [OF x] x(1) fb by auto
  qed
  moreover have "slot (vol m2) as2 k = slot (vol m) (A j) k \<or> slot (vol m) (A j) k = 0 \<and> freeblock m \<le> unat (slot (vol m2) as2 k)" if "k \<le> MAXFILE" for k
    using a1(5) [OF that] a2(8) [OF that] fb by (elim disjE conjE) simp_all
  ultimately show ?thesis using a1 a2 unfolding appended_def by (simp add: add.assoc)
qed

lemma iappend_loop_run:
  assumes "img_ok m" "owned (vol m) (freeblock m) J A" "j \<in> J" "di_addrs din = A j" "sized (vol m) (A j) off"
    "off + length p \<le> MAXFILE * BSIZE" "freeblock m + blocks (off + length p) \<le> SIZE + blocks off"
  shows "\<exists>as' m'. iappend_loop din off p m = Inr (din\<lparr>di_addrs := as'\<rparr>, off + length p, m') \<and> appended m J A j off p m' as'"
  using assms
proof (induction "length p" arbitrary: p off m A din rule: less_induct)
  case less
  note a = less.prems
  show ?case
  proof (cases "p = []")
    case True
    have "din\<lparr>di_addrs := A j\<rparr> = din" using a(4) by simp
    moreover have "appended m J A j off [] m (A j)" using a(1,2,5) by (simp add: appended_def)
    moreover have "iappend_loop din off p m = Inr (din, off + length p, m)" using True by (subst iappend_loop.simps) simp
    ultimately show ?thesis using True by metis
  next
    case False
    let ?k = "off div BSIZE"
    define n1 where "n1 = min (length p) ((?k + 1) * BSIZE - off)"
    have dm: "?k * BSIZE + off mod BSIZE = off" by simp
    have B: "off mod BSIZE < BSIZE" by (simp add: BSIZE_def)
    have k: "?k < MAXFILE" using a(6) False by (intro div_MAXFILE) (cases p; simp)
    have rest: "(?k + 1) * BSIZE - off = BSIZE - off mod BSIZE" unfolding add_mult_distrib using dm B by linarith
    then have n1: "0 < n1" "n1 \<le> length p" "off mod BSIZE + n1 \<le> BSIZE" using False B by (auto simp: n1_def)
    have fbk: "freeblock m + (blocks (off + 1) - blocks off) \<le> SIZE" 
      using a(7) blocks_mono [of "off + 1" "off + length p"] blocks_mono [of off "off + 1"] False n1 by simp
    obtain as1 m1 where r1: "iappend_addr ?k din m = Inr (blk_addr (vol m1) as1 ?k, din\<lparr>di_addrs := as1\<rparr>, m1)" and ad: "addressed m J A j off m1 as1"
      using addr_run [OF a(1-5) k fbk] by blast
    let ?x = "blk_addr (vol m1) as1 ?k" and ?q = "take n1 p"
    have q: "?q \<noteq> []" "off mod BSIZE + length ?q \<le> BSIZE" "length ?q = n1" using n1 False by auto
    have f1: "freeblock m1 \<le> SIZE" using ad fbk unfolding addressed_def by linarith
    define m2 where "m2 = wsect (unat ?x) (overwrite (vol m1 ?x) (off mod BSIZE) ?q) m1"
    note st = append_step [OF a(1-3,5) k ad f1 q(1,2), folded m2_def]
    have ap: "img_ok m2" "owned (vol m2) (freeblock m2) J (A(j := as1))" "sized (vol m2) as1 (off + n1)"
      "freeblock m2 + blocks off = freeblock m + blocks (off + n1)"
      using st(2) q(3) by (simp_all add: appended_def)
    have len: "off + n1 + length (drop n1 p) = off + length p" using n1(2) by simp
    have "\<exists>as' m'. iappend_loop (din\<lparr>di_addrs := as1\<rparr>) (off + n1) (drop n1 p) m2 =
        Inr (din\<lparr>di_addrs := as1\<rparr>\<lparr>di_addrs := as'\<rparr>, off + n1 + length (drop n1 p), m') \<and> appended m2 J (A(j := as1)) j (off + n1) (drop n1 p) m' as'"
    proof (rule less.hyps)
      show "length (drop n1 p) < length p" using n1(1,2) by simp
      show "di_addrs (din\<lparr>di_addrs := as1\<rparr>) = (A(j := as1)) j" by simp
      show "sized (vol m2) ((A(j := as1)) j) (off + n1)" using ap(3) by simp
      show "off + n1 + length (drop n1 p) \<le> MAXFILE * BSIZE" using a(6) unfolding len .
      show "freeblock m2 + blocks (off + n1 + length (drop n1 p)) \<le> SIZE + blocks (off + n1)" using a(7) ap(4) unfolding len by linarith
    qed (fact ap(1) ap(2) a(3))+
    then obtain as' m' where r2: "iappend_loop (din\<lparr>di_addrs := as1\<rparr>) (off + n1) (drop n1 p) m2 = Inr (din\<lparr>di_addrs := as'\<rparr>, off + length p, m')"
      "appended m2 J (A(j := as1)) j (off + n1) (drop n1 p) m' as'"
      unfolding len by auto
    have "appended m J A j off (?q @ drop n1 p) m' as'"
      by (rule appended_trans [OF st(2) _ a(3,2)]) (use r2(2) q(3) in simp)
    moreover have "off - ?k * BSIZE = off mod BSIZE" using dm by linarith
    then have "iappend_loop din off p m = Inr (din\<lparr>di_addrs := as'\<rparr>, off + length p, m')"
      using False k r1 st(1) r2(1) by (subst iappend_loop.simps) (simp only: if_False Let_def bnd_Inr prod.case not_True_eq_False n1_def [symmetric] m2_def [symmetric])
    ultimately show ?thesis unfolding append_take_drop_id by blast
  qed
qed

section \<open>The files on the image\<close>

definition dinode_at :: "mkfs \<Rightarrow> nat \<Rightarrow> dinode" where
  "dinode_at m j = get_dinode (vol m (IBLOCK (of_nat j) mkfs_sb)) (j mod IPB)"

definition sb_sector :: block where
  "sb_sector = bytes_of_sb mkfs_sb @ replicate (BSIZE - length (bytes_of_sb mkfs_sb)) 0"

text \<open>The inode of a file of type \<open>t\<close> with the contents \<open>c\<close>.\<close>

definition is_file :: "(u32 \<Rightarrow> block) \<Rightarrow> dinode \<Rightarrow> u16 \<Rightarrow> u8 list \<Rightarrow> bool" where
  "is_file V di t c \<longleftrightarrow> di_type di = t \<and> di_major di = 0 \<and> di_minor di = 0 \<and> di_nlink di = 1 \<and> unat (di_size di) = length c \<and>
     sized V (di_addrs di) (length c) \<and> contents V (di_addrs di) (length c) = c"

definition space :: "(u16 \<times> u8 list) list \<Rightarrow> nat" where
  "space fs = nmeta + sum_list (map (\<lambda>f. blocks (length (snd f))) fs)"

text \<open>The image holds the files \<open>fs\<close>, in the inodes from 1 on.\<close>

definition holds :: "mkfs \<Rightarrow> (u16 \<times> u8 list) list \<Rightarrow> bool" where
  "holds m fs \<longleftrightarrow> img_ok m \<and> freeinode m = Suc (length fs) \<and> length fs < NINODES \<and> vol m 1 = sb_sector \<and>
     owned (vol m) (freeblock m) {..<length fs} (\<lambda>j. di_addrs (dinode_at m (Suc j))) \<and>
     (\<forall>j<length fs. is_file (vol m) (dinode_at m (Suc j)) (fst (fs ! j)) (snd (fs ! j))) \<and>
     freeblock m = space fs \<and> freeblock m \<le> SIZE"

lemma iblock:
  assumes "j < NINODES"
  shows "unat (IBLOCK (of_nat j) mkfs_sb) = 32 + j div IPB"
proof -
  have "unat (of_nat j :: u32) = j" using assms by (intro unat_of_nat_u32) (simp add: NINODES_def)
  then have "unat (of_nat j div of_nat IPB :: u32) = j div IPB" by (simp add: IPB_def unat_div)
  moreover have "j div IPB < 26" using assms by (simp add: NINODES_def IPB_def div_less_iff_less_mult)
  moreover have "unat (sb_inodestart mkfs_sb) = 32" by (simp add: mkfs_sb_def sizes)
  ultimately show ?thesis unfolding IBLOCK_def by (subst unat_add_lem [THEN iffD1]) simp_all
qed

lemma iblock_eq: "i < NINODES \<Longrightarrow> j < NINODES \<Longrightarrow> IBLOCK (of_nat i) mkfs_sb = IBLOCK (of_nat j) mkfs_sb \<longleftrightarrow> i div IPB = j div IPB"
  using iblock by (simp add: word_unat_eq_iff)

lemma iblock_meta:
  assumes "j < NINODES"
  shows "unat (IBLOCK (of_nat j) mkfs_sb) < nmeta" "IBLOCK (of_nat j) mkfs_sb \<noteq> 0" "IBLOCK (of_nat j) mkfs_sb \<noteq> 1" "unat (IBLOCK (of_nat j) mkfs_sb) < 58"
proof -
  have "j div IPB < 26" using assms by (simp add: NINODES_def IPB_def div_less_iff_less_mult)
  then show "unat (IBLOCK (of_nat j) mkfs_sb) < nmeta" "unat (IBLOCK (of_nat j) mkfs_sb) < 58" using iblock [OF assms] sizes by simp_all
  show "IBLOCK (of_nat j) mkfs_sb \<noteq> 0" "IBLOCK (of_nat j) mkfs_sb \<noteq> 1" using iblock [OF assms] by (auto simp: word_unat_eq_iff)
qed

text \<open>A change of the metadata leaves the contents of the files alone.\<close>

lemma meta_write:
  assumes o: "owned V fb J A" and x: "unat x < nmeta" and i: "i \<in> J"
  shows "slot (V(x := d)) (A i) k = slot V (A i) k" "sized V (A i) n \<Longrightarrow> sized (V(x := d)) (A i) n"
    "sized V (A i) n \<Longrightarrow> contents (V(x := d)) (A i) n = contents V (A i) n"
proof -
  have far: "slot V (A i) k \<noteq> x \<or> slot V (A i) k = 0" if "k \<le> MAXFILE" for k using ownedD(2) [OF o i that] x by fastforce
  have "A i ! NDIRECT = 0 \<or> A i ! NDIRECT \<noteq> x" using far [of MAXFILE] by (auto simp: slot_data(2))
  then have sl: "slot (V(x := d)) (A i) k = slot V (A i) k" for k by (intro slot_frame) auto
  then show "slot (V(x := d)) (A i) k = slot V (A i) k" .
  have bl: "blk_addr (V(x := d)) (A i) k = blk_addr V (A i) k" if "k < MAXFILE" for k using sl [of k] that by (simp add: slot_data)
  then show "sized V (A i) n \<Longrightarrow> sized (V(x := d)) (A i) n" by (simp add: sized_def)
  show "contents (V(x := d)) (A i) n = contents V (A i) n" if s: "sized V (A i) n"
    unfolding contents_def
  proof (rule map_cong [OF refl])
    fix k assume "k \<in> set [0..<n]"
    then have b: "k div BSIZE < MAXFILE" "blk_addr V (A i) (k div BSIZE) \<noteq> 0" using block_of_byte [OF s, of k] by simp_all
    then have "blk_addr V (A i) (k div BSIZE) \<noteq> x" using far [of "k div BSIZE"] by (simp add: slot_data)
    then show "fbyte (V(x := d)) (A i) k = fbyte V (A i) k" using bl [OF b(1)] by (simp add: fbyte_def)
  qed
qed

lemma winode_run:
  assumes ok: "img_ok m" and j: "j < NINODES" and fb: "freeblock m \<le> SIZE"
  defines "x \<equiv> IBLOCK (of_nat j) mkfs_sb"
  shows "\<exists>m'. winode j di m = Inr m' \<and> vol m' = (vol m)(x := put_dinode (vol m x) (j mod IPB) di) \<and> img_ok m' \<and> freeblock m' = freeblock m \<and> freeinode m' = freeinode m"
    "rinode j m = Inr (dinode_at m j)"
proof -
  have x: "unat x < nmeta" unfolding x_def by (rule iblock_meta(1) [OF j])
  have ux: "unat x < SIZE" "unat x < length (img m)" "unat x < freeblock m" using x ok sizes by (simp_all add: img_ok_def)
  have len: "length (put_dinode (vol m x) (j mod IPB) di) = BSIZE" using vol_length [OF ok ux(1)] by simp
  note r = rsect_vol [OF ok ux(1)]
  show "rinode j m = Inr (dinode_at m j)" using r by (simp add: rinode_def dinode_at_def x_def)
  show "\<exists>m'. winode j di m = Inr m' \<and> vol m' = (vol m)(x := put_dinode (vol m x) (j mod IPB) di) \<and> img_ok m' \<and> freeblock m' = freeblock m \<and> freeinode m' = freeinode m"
    using r img_ok_wsect [OF ok ux(3) fb len] vol_wsect [OF ux(2)] by (simp add: winode_def x_def [symmetric] Let_def)
qed

lemma dinode_at_put:
  assumes "img_ok m" "i < NINODES" "j < NINODES" "length (di_addrs di) = NDIRECT + 1"
    and "vol m' = (vol m)(IBLOCK (of_nat j) mkfs_sb := put_dinode (vol m (IBLOCK (of_nat j) mkfs_sb)) (j mod IPB) di)"
  shows "dinode_at m' i = (if i = j then di else dinode_at m i)"
proof -
  let ?x = "IBLOCK (of_nat j) mkfs_sb :: u32"
  have "unat ?x < SIZE" using iblock_meta(1) [OF assms(3)] sizes by simp
  then have len: "length (vol m ?x) = BSIZE" by (rule vol_length [OF assms(1)])
  have "DINODE_SIZE * (j mod IPB + 1) \<le> BSIZE"
  proof -
    have "j mod IPB < IPB" by (simp add: IPB_def)
    then show ?thesis by (simp add: DINODE_SIZE_def IPB_def BSIZE_def)
  qed
  then have self: "get_dinode (put_dinode (vol m ?x) (j mod IPB) di) (j mod IPB) = di" using assms(4) len by (intro get_dinode_put_dinode) simp_all
  show ?thesis
  proof (cases "i div IPB = j div IPB \<and> i \<noteq> j")
    case True
    then have ne: "j mod IPB \<noteq> i mod IPB" by (metis div_mult_mod_eq)
    have "IBLOCK (of_nat i) mkfs_sb = ?x" using True iblock_eq [OF assms(2,3)] by simp
    then show ?thesis using True assms(5) get_dinode_put_other [OF ne assms(4)] by (simp add: dinode_at_def)
  next
    case False
    then show ?thesis using self assms(5) iblock_eq [OF assms(2,3)] by (auto simp: dinode_at_def)
  qed
qed

lemma appended_others:
  assumes o: "owned (vol m) (freeblock m) J A" and j: "j \<in> J" and i: "i \<in> J" "i \<noteq> j" and ap: "appended m J A j off p m' as'" and s: "sized (vol m) (A i) n"
  shows "sized (vol m') (A i) n" "contents (vol m') (A i) n = contents (vol m) (A i) n"
proof -
  have keep: "vol m' (slot (vol m) (A i) k) = vol m (slot (vol m) (A i) k)" if k: "k \<le> MAXFILE" "slot (vol m) (A i) k \<noteq> 0" for k
  proof -
    have "slot (vol m) (A i) k \<notin> slot (vol m) (A j) ` {..MAXFILE}" using ownedD(3) [OF o i(1) j k(1)] k(2) i(2) by blast
    then show ?thesis using ap ownedD(2) [OF o i(1) k] by (simp add: appended_def)
  qed
  have sl: "slot (vol m') (A i) k = slot (vol m) (A i) k" for k
    using keep [of MAXFILE] by (intro slot_frame) (auto simp: slot_data(2))
  have bl: "blk_addr (vol m') (A i) k = blk_addr (vol m) (A i) k" if "k < MAXFILE" for k using sl [of k] that by (simp add: slot_data)
  then show "sized (vol m') (A i) n" using s by (simp add: sized_def)
  show "contents (vol m') (A i) n = contents (vol m) (A i) n"
    unfolding contents_def
  proof (rule map_cong [OF refl])
    fix k assume "k \<in> set [0..<n]"
    then have b: "k div BSIZE < MAXFILE" "blk_addr (vol m) (A i) (k div BSIZE) \<noteq> 0" using block_of_byte [OF s, of k] by simp_all
    then show "fbyte (vol m') (A i) k = fbyte (vol m) (A i) k" using bl [OF b(1)] keep [of "k div BSIZE"] by (simp add: fbyte_def slot_data)
  qed
qed

lemma appended_meta:
  assumes o: "owned (vol m) (freeblock m) J A" and j: "j \<in> J" and ap: "appended m J A j off p m' as'" and ok: "img_ok m"
    and x: "unat x < nmeta" "x \<noteq> 0"
  shows "vol m' x = vol m x"
proof -
  have "x \<notin> slot (vol m) (A j) ` {..MAXFILE}" using ownedD(2) [OF o j] x by fastforce
  then show ?thesis using ap ok x by (simp add: appended_def img_ok_def)
qed

lemma space_update:
  assumes "j < length fs"
  shows "space (fs[j := f]) + blocks (length (snd (fs ! j))) = space fs + blocks (length (snd f))"
proof -
  let ?g = "\<lambda>f. blocks (length (snd f))"
  have "?g (fs ! j) \<le> sum_list (map ?g fs)" using assms by (intro elem_le_sum_list [of j "map ?g fs", simplified])
  then show ?thesis using assms by (simp add: space_def map_update sum_list_update)
qed

lemma holds_file:
  assumes "holds m fs" "j < length fs"
  shows "is_file (vol m) (dinode_at m (Suc j)) (fst (fs ! j)) (snd (fs ! j))" "Suc j < NINODES"
  using assms by (auto simp: holds_def)

text \<open>Writing an inode makes a file of what its addresses lead to.\<close>

lemma winode_holds:
  assumes ok: "img_ok m" and fb: "freeblock m = space fs" "freeblock m \<le> SIZE" and fi: "freeinode m = Suc (length fs)" "length fs < NINODES" and sb: "vol m 1 = sb_sector"
    and A: "\<And>i. i < length fs \<Longrightarrow> i \<noteq> j \<Longrightarrow> A i = di_addrs (dinode_at m (Suc i))" "A j = di_addrs di" and o: "owned (vol m) (freeblock m) {..<length fs} A"
    and j: "j < length fs" "is_file (vol m) di (fst (fs ! j)) (snd (fs ! j))"
    and oth: "\<And>i. i < length fs \<Longrightarrow> i \<noteq> j \<Longrightarrow> is_file (vol m) (dinode_at m (Suc i)) (fst (fs ! i)) (snd (fs ! i))"
  shows "\<exists>m'. winode (Suc j) di m = Inr m' \<and> holds m' fs"
proof -
  have jn: "Suc j < NINODES" using j fi by simp
  let ?x = "IBLOCK (of_nat (Suc j)) mkfs_sb :: u32"
  obtain m' where m': "winode (Suc j) di m = Inr m'" and v: "vol m' = (vol m)(?x := put_dinode (vol m ?x) (Suc j mod IPB) di)"
    and st: "img_ok m'" "freeblock m' = freeblock m" "freeinode m' = freeinode m"
    using winode_run(1) [OF ok jn fb(2)] by blast
  have len: "length (di_addrs di) = NDIRECT + 1" using ownedD(1) [OF o, of j] j(1) A(2) by simp
  have da: "dinode_at m' (Suc i) = (if i = j then di else dinode_at m (Suc i))" if "i < length fs" for i
    using dinode_at_put [OF ok _ jn len v, of "Suc i"] that fi by simp
  note mw = meta_write [OF o iblock_meta(1) [OF jn]]
  have Ai: "di_addrs (dinode_at m' (Suc i)) = A i" if "i < length fs" for i using da [OF that] A that by auto
  have "owned (vol m') (freeblock m') {..<length fs} A" unfolding st(2) v by (rule owned_cong [OF o], rule mw(1))
  then have ow: "owned (vol m') (freeblock m') {..<length fs} (\<lambda>i. di_addrs (dinode_at m' (Suc i)))"
    using Ai unfolding owned_def by simp
  have "is_file (vol m') (dinode_at m' (Suc i)) (fst (fs ! i)) (snd (fs ! i))" if i: "i < length fs" for i
  proof -
    have f: "is_file (vol m) (dinode_at m' (Suc i)) (fst (fs ! i)) (snd (fs ! i))" using da [OF i] j oth [OF i] by auto
    then have s: "sized (vol m) (A i) (length (snd (fs ! i)))" using Ai [OF i] by (simp add: is_file_def)
    show ?thesis using f mw(2,3) [OF _ s] i Ai [OF i] unfolding v is_file_def by simp
  qed
  moreover have "vol m' 1 = sb_sector" using sb v iblock_meta(3) [OF jn] by simp
  ultimately show ?thesis using m' st ow fb fi by (auto simp: holds_def)
qed

lemma iappend_holds:
  assumes h: "holds m fs" and j: "j < length fs" "fs ! j = (t, c)" and n: "length c + length p \<le> MAXFILE * BSIZE" and sp: "space (fs[j := (t, c @ p)]) \<le> SIZE"
  shows "\<exists>m'. iappend (Suc j) p m = Inr m' \<and> holds m' (fs[j := (t, c @ p)])"
proof -
  let ?J = "{..<length fs}" and ?A = "\<lambda>i. di_addrs (dinode_at m (Suc i))" and ?d = "dinode_at m (Suc j)"
  have h': "img_ok m" "freeinode m = Suc (length fs)" "length fs < NINODES" "vol m 1 = sb_sector" "owned (vol m) (freeblock m) ?J ?A"
    "freeblock m = space fs" "freeblock m \<le> SIZE" using h by (auto simp: holds_def)
  note f = holds_file [OF h j(1)]
  have d: "sized (vol m) (?A j) (length c)" "unat (di_size ?d) = length c" "contents (vol m) (?A j) (length c) = c" "di_type ?d = t"
    "di_major ?d = 0" "di_minor ?d = 0" "di_nlink ?d = 1"
    using f(1) j(2) by (auto simp: is_file_def)
  have "freeblock m + blocks (length c + length p) \<le> SIZE + blocks (length c)"
    using space_update [OF j(1), of "(t, c @ p)"] sp h'(6) j(2) by simp
  then obtain as' m1 where l: "iappend_loop ?d (length c) p m = Inr (?d\<lparr>di_addrs := as'\<rparr>, length c + length p, m1)" and ap: "appended m ?J ?A j (length c) p m1 as'"
    using iappend_loop_run [OF h'(1,5) _ refl d(1) n] j(1) by auto
  have ap': "img_ok m1" "owned (vol m1) (freeblock m1) ?J (?A(j := as'))" "sized (vol m1) as' (length c + length p)"
    "freeblock m1 + blocks (length c) = freeblock m + blocks (length c + length p)" "freeinode m1 = freeinode m"
    "contents (vol m1) as' (length c + length p) = c @ p"
    using ap d(3) by (simp_all add: appended_def)
  have jJ: "j \<in> ?J" using j(1) by simp
  note meta = appended_meta [OF h'(5) jJ ap h'(1)]
  have dk: "dinode_at m1 i = dinode_at m i" if "i < NINODES" for i
    using meta [OF iblock_meta(1,2) [OF that]] by (simp add: dinode_at_def)
  let ?di = "?d\<lparr>di_addrs := as', di_size := of_nat (length c + length p)\<rparr>" and ?fs = "fs[j := (t, c @ p)]"
  have big: "MAXFILE * BSIZE < 2 ^ 32" by (simp add: MAXFILE_def NDIRECT_def NINDIRECT_def BSIZE_def)
  have "unat (of_nat (length c + length p) :: u32) = length c + length p" by (rule unat_of_nat_u32) (use n big in linarith)
  then have new: "is_file (vol m1) ?di (fst (?fs ! j)) (snd (?fs ! j))" using d ap' j(1) by (simp add: is_file_def)
  have oth: "is_file (vol m1) (dinode_at m1 (Suc i)) (fst (?fs ! i)) (snd (?fs ! i))" if i: "i < length fs" "i \<noteq> j" for i
  proof -
    note fi = holds_file [OF h i(1)]
    have s: "sized (vol m) (?A i) (length (snd (fs ! i)))" using fi(1) by (simp add: is_file_def)
    have "i \<in> ?J" using i by simp
    from appended_others [OF h'(5) jJ this i(2) ap s] show ?thesis using fi i dk [OF fi(2)] by (simp add: is_file_def)
  qed
  have "\<exists>m'. winode (Suc j) ?di m1 = Inr m' \<and> holds m' ?fs"
  proof (rule winode_holds [of m1 ?fs j "?A(j := as')"])
    show "freeblock m1 = space ?fs" using space_update [OF j(1), of "(t, c @ p)"] ap'(4) h'(6) j(2) by simp
    then show "freeblock m1 \<le> SIZE" using sp by simp
    show "vol m1 1 = sb_sector" using meta [of 1] h'(4) sizes by simp
    show "(?A(j := as')) i = di_addrs (dinode_at m1 (Suc i))" if "i < length ?fs" "i \<noteq> j" for i using that dk [of "Suc i"] h'(3) by simp
  qed (use ap' new oth h' j(1) in simp_all)
  then show ?thesis using winode_run(2) [OF h'(1) f(2) h'(7)] l d(2) by (simp add: iappend_def)
qed

lemma freeinode_simps [simp]: "vol (m\<lparr>freeinode := n\<rparr>) = vol m" "img_ok (m\<lparr>freeinode := n\<rparr>) = img_ok m" "dinode_at (m\<lparr>freeinode := n\<rparr>) = dinode_at m"
  by (simp_all add: vol_def img_ok_def dinode_at_def fun_eq_iff)

lemma blocks_0 [simp]: "blocks 0 = 0"
  by (simp add: blocks_def BSIZE_def)

lemma space_append [simp]: "space (fs @ gs) = space fs + sum_list (map (\<lambda>f. blocks (length (snd f))) gs)"
  by (simp add: space_def)

lemma ialloc_holds:
  assumes h: "holds m fs" and n: "Suc (length fs) < NINODES"
  shows "\<exists>m'. mk_ialloc t m = Inr (Suc (length fs), m') \<and> holds m' (fs @ [(t, [])])"
proof -
  let ?m = "m\<lparr>freeinode := freeinode m + 1\<rparr>" and ?di = "(fresh_dinode t)\<lparr>di_nlink := 1\<rparr>" and ?A = "\<lambda>i. di_addrs (dinode_at m (Suc i))"
  let ?B = "\<lambda>i. if i < length fs then ?A i else replicate (NDIRECT + 1) 0"
  have h': "img_ok m" "freeinode m = Suc (length fs)" "vol m 1 = sb_sector" "owned (vol m) (freeblock m) {..<length fs} ?A"
    "freeblock m = space fs" "freeblock m \<le> SIZE" using h by (auto simp: holds_def)
  have z: "slot V (replicate (NDIRECT + 1) 0) k = 0" if "k \<le> MAXFILE" for k and V :: "u32 \<Rightarrow> block" using no_blocks [OF that] by (simp add: NDIRECT_def)
  have "owned (vol m) (freeblock m) {..<length (fs @ [(t, [])])} ?B"
    unfolding owned_def
  proof (intro conjI ballI allI impI)
    fix i assume "i \<in> {..<length (fs @ [(t, [])])}"
    then have i: "i < length fs \<or> i = length fs" by auto
    show "length (?B i) = NDIRECT + 1" using i ownedD(1) [OF h'(4), of i] by auto
    fix k assume k: "k \<le> MAXFILE" "slot (vol m) (?B i) k \<noteq> 0"
    then show "nmeta \<le> unat (slot (vol m) (?B i) k)" "unat (slot (vol m) (?B i) k) < freeblock m"
      using i ownedD(2) [OF h'(4), of i k] z [OF k(1)] by auto
  next
    fix i j k l assume k: "k \<le> MAXFILE" "l \<le> MAXFILE" "slot (vol m) (?B i) k = slot (vol m) (?B j) l" "slot (vol m) (?B i) k \<noteq> 0"
    then show "i = j" "k = l" using ownedD(3) [OF h'(4), of i j k l] z [OF k(1)] z [OF k(2)] by (auto split: if_splits)
  qed
  moreover have "sized (vol m) (di_addrs ?di) 0"
  proof -
    have "blk_addr (vol m) (replicate (NDIRECT + 1) 0) k = 0" if "k < MAXFILE" for k using z [of k "vol m"] that by (simp add: slot_data)
    moreover have "replicate (NDIRECT + 1) (0 :: u32) ! NDIRECT = 0" by (rule nth_replicate) simp
    ultimately show ?thesis unfolding sized_def fresh_dinode_def by simp
  qed
  then have new: "is_file (vol m) ?di t []" by (simp add: is_file_def fresh_dinode_def contents_def)
  have "\<exists>m'. winode (Suc (length fs)) ?di ?m = Inr m' \<and> holds m' (fs @ [(t, [])])"
    by (rule winode_holds [of ?m "fs @ [(t, [])]" "length fs" ?B])
      (use h' n new calculation holds_file(1) [OF h] in \<open>auto simp: nth_append fresh_dinode_def\<close>)
  then show ?thesis using h'(2) by (auto simp: mk_ialloc_def Let_def)
qed

lemma space_bigger:
  assumes "j < length fs"
  shows "length c \<le> length c' \<Longrightarrow> space (fs[j := (t, c)]) \<le> space (fs[j := (t', c')])"
  using space_update [OF assms, of "(t, c)"] space_update [OF assms, of "(t', c')"] blocks_mono [of "length c" "length c'"] by simp

lemma append_file_holds:
  assumes "holds m fs" "j < length fs" "fs ! j = (t, c)" "length c + length bytes \<le> MAXFILE * BSIZE" "space (fs[j := (t, c @ bytes)]) \<le> SIZE"
  shows "\<exists>m'. append_file (Suc j) bytes m = Inr m' \<and> holds m' (fs[j := (t, c @ bytes)])"
  using assms
proof (induction "length bytes" arbitrary: bytes c m fs rule: less_induct)
  case less
  note a = less.prems
  show ?case
  proof (cases "bytes = []")
    case True
    have "fs[j := (t, c)] = fs" using a(3) by (metis list_update_id)
    then show ?thesis using True a(1) by (subst append_file.simps) simp
  next
    case False
    let ?p = "take BSIZE bytes"
    have le: "length (c @ ?p) \<le> length (c @ bytes)" by simp
    have "length c + length ?p \<le> MAXFILE * BSIZE" using a(4) le by simp
    moreover have "space (fs[j := (t, c @ ?p)]) \<le> SIZE" using space_bigger [OF a(2) le, of t t] a(5) by simp
    ultimately obtain m1 where m1: "iappend (Suc j) ?p m = Inr m1" "holds m1 (fs[j := (t, c @ ?p)])"
      using iappend_holds [OF a(1-3)] by blast
    have "\<exists>m'. append_file (Suc j) (drop BSIZE bytes) m1 = Inr m' \<and> holds m' ((fs[j := (t, c @ ?p)])[j := (t, (c @ ?p) @ drop BSIZE bytes)])"
    proof (rule less.hyps)
      show "length (drop BSIZE bytes) < length bytes" using False by (simp add: BSIZE_def)
      show "length (c @ ?p) + length (drop BSIZE bytes) \<le> MAXFILE * BSIZE" using a(4) by simp
    qed (use m1 a(2,5) in simp_all)
    then show ?thesis using False m1(1) by (subst append_file.simps) simp
  qed
qed

section \<open>The whole program\<close>

lemma fold_wsect:
  "fold (\<lambda>i. wsect i z) [0..<n] \<lparr>img = [], freeinode = f, freeblock = b\<rparr> = \<lparr>img = replicate n z, freeinode = f, freeblock = b\<rparr>"
  by (induction n) (simp_all add: wsect_def flip: replicate_append_same)

lemma length_xint [simp]: "length (xint v) = 4"
  by (simp add: xint_def)

lemma length_bytes_of_sb [simp]: "length (bytes_of_sb S) = 28"
  by (simp add: bytes_of_sb_def)

lemma length_sb_sector: "length sb_sector = BSIZE"
  by (simp add: sb_sector_def BSIZE_def)

lemma init_holds: "holds mkfs_init []"
proof -
  have i: "mkfs_init = \<lparr>img = (replicate SIZE (replicate BSIZE 0))[1 := sb_sector], freeinode = 1, freeblock = nmeta\<rparr>"
    by (simp add: mkfs_init_def fold_wsect sizes(1) sb_sector_def [symmetric]) (simp add: wsect_def SIZE_def sb_sector_def)
  have len: "length ((replicate SIZE (replicate BSIZE 0))[1 := sb_sector] ! b) = BSIZE" if "b < SIZE" for b
    using that by (cases "b = 1") (simp_all add: length_sb_sector)
  show ?thesis
    unfolding i
    by (simp add: holds_def img_ok_def vol_def owned_def space_def NINODES_def len del: One_nat_def) (simp add: sizes)
qed

lemma length_strncpy0 [simp]: "length (strncpy0 n p) = n"
  by (induction n arbitrary: p) simp_all

lemma length_entry [simp]: "length (bytes_of_dirent (mk_dirent k name)) = 16"
  by (simp add: bytes_of_dirent_def mk_dirent_def DIRSIZ_def)

definition strip :: "u8 list \<Rightarrow> u8 list" where
  "strip name = (if chr0 name = 95 then tl name else name)"

text \<open>The entries of the files of the arguments, which get the inodes from \<open>k\<close> on.\<close>

fun entries :: "nat \<Rightarrow> (u8 list \<times> u8 list option) list \<Rightarrow> u8 list" where
  "entries k [] = []"
| "entries k (arg # args) = bytes_of_dirent (mk_dirent k (strip (fst arg))) @ entries (Suc k) args"

definition files_of :: "(u8 list \<times> u8 list option) list \<Rightarrow> (u16 \<times> u8 list) list" where
  "files_of args = map (\<lambda>arg. (T_FILE, the (snd arg))) args"

definition good_arg :: "u8 list \<times> u8 list option \<Rightarrow> bool" where
  "good_arg arg \<longleftrightarrow> 47 \<notin> set (fst arg) \<and> (\<exists>bytes. snd arg = Some bytes \<and> length bytes \<le> MAXFILE * BSIZE)"

lemma length_entries [simp]: "length (entries k args) = 16 * length args"
  by (induction k args rule: entries.induct) simp_all

lemma add_file_holds:
  assumes h: "holds m ((T_DIR, d) # fl)" and g: "good_arg arg" and n: "length fl + 2 < NINODES" and d: "length d + 16 \<le> MAXFILE * BSIZE"
    and sp: "space ((T_DIR, d @ e) # fl @ [(T_FILE, the (snd arg))]) \<le> SIZE" and e: "e = bytes_of_dirent (mk_dirent (length fl + 2) (strip (fst arg)))"
  shows "\<exists>m'. add_file 1 arg m = Inr m' \<and> holds m' ((T_DIR, d @ e) # fl @ [(T_FILE, the (snd arg))])"
proof -
  obtain bytes where b: "snd arg = Some bytes" "length bytes \<le> MAXFILE * BSIZE" "47 \<notin> set (fst arg)" using g by (auto simp: good_arg_def)
  obtain m1 where m1: "mk_ialloc T_FILE m = Inr (length fl + 2, m1)" "holds m1 ((T_DIR, d) # fl @ [(T_FILE, [])])"
    using ialloc_holds [OF h, of T_FILE] n by auto
  let ?fs = "(T_DIR, d) # fl @ [(T_FILE, [])]"
  have le: "space ((T_DIR, d @ e) # fl @ [(T_FILE, [])]) \<le> SIZE" using sp by (simp add: space_def)
  have "length e = 16" unfolding e by simp
  then have "\<exists>m'. iappend (Suc 0) e m1 = Inr m' \<and> holds m' (?fs[0 := (T_DIR, d @ e)])"
    using le d by (intro iappend_holds [OF m1(2)]) simp_all
  then obtain m2 where m2: "iappend 1 e m1 = Inr m2" "holds m2 ((T_DIR, d @ e) # fl @ [(T_FILE, [])])" by auto
  let ?fs2 = "(T_DIR, d @ e) # fl @ [(T_FILE, [])]" and ?j = "Suc (length fl)"
  have j: "?j < length ?fs2" "?fs2 ! ?j = (T_FILE, [])" "?fs2[?j := (T_FILE, bytes)] = (T_DIR, d @ e) # fl @ [(T_FILE, bytes)]" by simp_all
  have "\<exists>m'. append_file (Suc ?j) bytes m2 = Inr m' \<and> holds m' (?fs2[?j := (T_FILE, [] @ bytes)])"
    using b(2) sp b(1) j(3) by (intro append_file_holds [OF m2(2) j(1,2)]) simp_all
  then obtain m3 where m3: "append_file (length fl + 2) bytes m2 = Inr m3" "holds m3 ((T_DIR, d @ e) # fl @ [(T_FILE, bytes)])" using j(3) by auto
  obtain name where arg: "arg = (name, Some bytes)" using b(1) by (cases arg) auto
  have "add_file 1 arg m = Inr m3"
    using b(3) m1(1) m2(1) m3(1) unfolding e arg strip_def by (cases "chr0 name = 95") (simp_all add: add_file_def Let_def)
  then show ?thesis using m3(2) b(1) by simp
qed

lemma add_files_holds:
  assumes "holds m ((T_DIR, d) # fl)" "list_all good_arg args" "length fl + length args + 1 < NINODES" "length d + 16 * length args \<le> MAXFILE * BSIZE"
    "space ((T_DIR, d @ entries (length fl + 2) args) # fl @ files_of args) \<le> SIZE"
  shows "\<exists>m'. for_each args (add_file 1) m = Inr m' \<and> holds m' ((T_DIR, d @ entries (length fl + 2) args) # fl @ files_of args)"
  using assms
proof (induction args arbitrary: m d fl)
  case (Cons arg args)
  let ?e = "bytes_of_dirent (mk_dirent (length fl + 2) (strip (fst arg)))"
  let ?f = "(T_FILE, the (snd arg))"
  have eq: "(T_DIR, d @ entries (length fl + 2) (arg # args)) # fl @ files_of (arg # args) =
      (T_DIR, (d @ ?e) @ entries (length (fl @ [?f]) + 2) args) # (fl @ [?f]) @ files_of args"
    by (simp add: files_of_def)
  have "blocks (length d + 16) \<le> blocks (length d + (16 + 16 * length args))" by (intro blocks_mono) simp
  then have "space ((T_DIR, d @ ?e) # fl @ [?f]) \<le> SIZE" using Cons.prems(5) by (simp add: space_def files_of_def)
  then obtain m1 where m1: "add_file 1 arg m = Inr m1" "holds m1 ((T_DIR, d @ ?e) # fl @ [?f])"
    using add_file_holds [OF Cons.prems(1), of arg ?e] Cons.prems(2,3,4) by auto
  have "\<exists>m'. for_each args (add_file 1) m1 = Inr m' \<and>
      holds m' ((T_DIR, (d @ ?e) @ entries (length (fl @ [?f]) + 2) args) # (fl @ [?f]) @ files_of args)"
    using Cons.prems(2,3,4) Cons.prems(5) [unfolded eq] by (intro Cons.IH [OF m1(2)]) simp_all
  then show ?case using m1(1) unfolding eq by simp
qed (simp add: files_of_def)

lemma get32_xint:
  assumes "k = length pre"
  shows "get32 (pre @ xint v @ suf) k = v"
proof -
  have "get16 (pre @ xint v @ suf) k = ucast v" "get16 (pre @ xint v @ suf) (k + 2) = ucast (drop_bit 16 v)"
    unfolding get16_def assms xint_def
    by (intro bit_word_eqI; auto simp: nth_append bit_or_iff bit_push_bit_iff bit_unsigned_iff bit_drop_bit_eq bit_imp_le_length)+
  then show ?thesis
    unfolding get32_def
    by (intro bit_word_eqI) (auto simp: bit_or_iff bit_push_bit_iff bit_unsigned_iff bit_drop_bit_eq bit_imp_le_length)
qed

lemma sb_of_sector: "sb_of_block sb_sector = mkfs_sb"
proof -
  define f where "f = [sb_size mkfs_sb, sb_nblocks mkfs_sb, sb_ninodes mkfs_sb, sb_nlog mkfs_sb, sb_logstart mkfs_sb, sb_inodestart mkfs_sb, sb_bmapstart mkfs_sb]"
  have sec: "sb_sector = concat (map xint f) @ replicate (BSIZE - 28) 0" by (simp add: sb_sector_def bytes_of_sb_def f_def)
  have len: "length (concat (map xint (take i f))) = 4 * i" if "i \<le> 7" for i
    using that by (simp add: length_concat comp_def sum_list_triv f_def)
  have "get32 sb_sector (4 * i) = f ! i" if i: "i < 7" for i
  proof -
    have "i < length f" using i by (simp add: f_def)
    then have "f = take i f @ f ! i # drop (Suc i) f" by (rule id_take_nth_drop)
    then have "concat (map xint f) = concat (map xint (take i f)) @ xint (f ! i) @ concat (map xint (drop (Suc i) f))"
      by (metis concat.simps(2) concat_append list.simps(9) map_append)
    then have eq: "sb_sector = concat (map xint (take i f)) @ xint (f ! i) @ (concat (map xint (drop (Suc i) f)) @ replicate (BSIZE - 28) 0)" unfolding sec by simp
    show ?thesis unfolding eq by (rule get32_xint) (use len [of i] i in simp)
  qed
  from this [of 0] this [of 1] this [of 2] this [of 3] this [of 4] this [of 5] this [of 6] show ?thesis
    by (simp add: sb_of_block_def f_def)
qed

lemma bitmap_fold:
  assumes "n \<le> 8 * BSIZE"
  shows "length (fold mark_used [0..<n] (replicate BSIZE 0)) = BSIZE \<and> (\<forall>k<8 * BSIZE. bit_free (fold mark_used [0..<n] (replicate BSIZE 0)) k \<longleftrightarrow> n \<le> k)"
  using assms
proof (induction n)
  case 0
  have "bit_free (replicate BSIZE 0) k" if "k < 8 * BSIZE" for k using that by (simp add: bit_free_iff less_mult_imp_div_less mult.commute)
  then show ?case by simp
next
  case (Suc n)
  let ?d = "fold mark_used [0..<n] (replicate BSIZE 0)"
  have l: "length ?d = BSIZE" "\<forall>k<8 * BSIZE. bit_free ?d k \<longleftrightarrow> n \<le> k" using Suc by simp_all
  have "fold mark_used [0..<Suc n] (replicate BSIZE 0) = mark_used n ?d" by simp
  then show ?case using l bit_free_mark_used [of n ?d] Suc.prems by (auto simp: Suc_le_eq le_less)
qed

section \<open>What the kernel finds\<close>

text \<open>The disk made of the image; behind its end there is nothing.\<close>

definition device :: "mkfs \<Rightarrow> u32 \<Rightarrow> block" where
  "device m b = (if unat b < SIZE then vol m b else replicate BSIZE 0)"

lemma device_file:
  assumes o: "owned (vol m) fb J A" and fb: "fb \<le> SIZE" and j: "j \<in> J" and s: "sized (vol m) (A j) n"
  shows "slot (device m) (A j) k = slot (vol m) (A j) k" "contents (device m) (A j) n = contents (vol m) (A j) n"
    "k < n \<Longrightarrow> blk_addr (device m) (A j) (k div BSIZE) \<noteq> 0"
proof -
  have low: "device m (slot (vol m) (A j) k) = vol m (slot (vol m) (A j) k)" if "k \<le> MAXFILE" "slot (vol m) (A j) k \<noteq> 0" for k
    using ownedD(2) [OF o j that] fb by (simp add: device_def)
  have sl: "slot (device m) (A j) k = slot (vol m) (A j) k" for k
    using low [of MAXFILE] by (intro slot_frame) (auto simp: slot_data(2))
  then show "slot (device m) (A j) k = slot (vol m) (A j) k" .
  have bl: "blk_addr (device m) (A j) k = blk_addr (vol m) (A j) k" if "k < MAXFILE" for k using sl [of k] that by (simp add: slot_data)
  show "k < n \<Longrightarrow> blk_addr (device m) (A j) (k div BSIZE) \<noteq> 0" using block_of_byte [OF s, of k] bl by simp
  show "contents (device m) (A j) n = contents (vol m) (A j) n"
    unfolding contents_def
  proof (rule map_cong [OF refl])
    fix k assume "k \<in> set [0..<n]"
    then have b: "k div BSIZE < MAXFILE" "blk_addr (vol m) (A j) (k div BSIZE) \<noteq> 0" using block_of_byte [OF s, of k] by simp_all
    then show "fbyte (device m) (A j) k = fbyte (vol m) (A j) k" using bl [OF b(1)] low [of "k div BSIZE"] by (simp add: fbyte_def slot_data)
  qed
qed

lemma mkfs_meta: "b \<in> meta mkfs_sb 2 \<Longrightarrow> unat b < nmeta"
  using log_area_small [of 2 b] by (auto simp: meta_def mkfs_sb_def sizes LOGSIZE_def word_le_nat_alt)

lemma mkfs_geometry: "geometry mkfs_sb 2" "unat (sb_bmapstart mkfs_sb) = 58"
  by (simp_all add: geometry_def mkfs_sb_def sizes FSSIZE_def log_area_small LOGSIZE_def)

lemma device_ok:
  assumes ok: "img_ok m" and sb: "vol m 1 = sb_sector" and bm: "vol m (sb_bmapstart mkfs_sb) = fold mark_used [0..<fb] (replicate BSIZE 0)"
    and fb: "nmeta \<le> fb" "fb \<le> SIZE"
  shows "unat b < SIZE \<Longrightarrow> used mkfs_sb (device m) b \<longleftrightarrow> unat b < fb" "disk_ok mkfs_sb 2 (device m)"
proof -
  have n: "fb \<le> 8 * BSIZE" "SIZE \<le> 8 * BSIZE" using fb sizes by (simp_all add: BSIZE_def)
  note bf = bitmap_fold [OF n(1)]
  have dev: "device m (sb_bmapstart mkfs_sb) = fold mark_used [0..<fb] (replicate BSIZE 0)" "device m 1 = sb_sector"
    using bm sb mkfs_geometry(2) sizes by (simp_all add: device_def)
  show u: "used mkfs_sb (device m) b \<longleftrightarrow> unat b < fb" if "unat b < SIZE" for b
    using bf that n(2) by (simp add: used_def dev(1) not_le)
  have "length (device m b) = BSIZE" for b using vol_length [OF ok] by (simp add: device_def)
  moreover have "used mkfs_sb (device m) b" if "b \<in> meta mkfs_sb 2" for b
    using u [of b] mkfs_meta [OF that] fb by simp
  ultimately show "disk_ok mkfs_sb 2 (device m)"
    using mkfs_geometry(1) sb_of_sector dev(2) by (simp add: disk_ok_def bitmap_ok_def)
qed

lemma device_wf:
  assumes ok: "img_ok m" and sb: "vol m 1 = sb_sector" and bm: "vol m (sb_bmapstart mkfs_sb) = fold mark_used [0..<fb] (replicate BSIZE 0)"
    and fb: "nmeta \<le> fb" "fb \<le> SIZE" and o: "owned (vol m) fb J A" and j: "j \<in> J" and s: "sized (vol m) (A j) n"
  shows "file_wf mkfs_sb 2 (device m) (A j)"
  unfolding file_wf_def device_file(1) [OF o fb(2) j s]
proof (intro conjI allI impI)
  show "length (A j) = NDIRECT + 1" by (rule ownedD(1) [OF o j])
  fix k assume k: "k \<le> MAXFILE" "slot (vol m) (A j) k \<noteq> 0"
  note b = ownedD(2) [OF o j k]
  have "unat (slot (vol m) (A j) k) < SIZE" using b fb by simp
  then show "slot (vol m) (A j) k < sb_size mkfs_sb" "used mkfs_sb (device m) (slot (vol m) (A j) k)"
    using b device_ok(1) [OF ok sb bm fb] sizes(1) by (simp_all add: word_less_nat_alt mkfs_sb_def)
  show "slot (vol m) (A j) k \<notin> meta mkfs_sb 2" using b mkfs_meta by fastforce
next
  fix i k assume "i \<le> MAXFILE" "k \<le> MAXFILE" "slot (vol m) (A j) i = slot (vol m) (A j) k" "slot (vol m) (A j) i \<noteq> 0"
  then show "i = k" using ownedD(3) [OF o j j] by blast
qed

text \<open>The inode as \<^verbatim>\<open>ilock\<close> loads it.\<close>

definition loaded :: "mkfs \<Rightarrow> nat \<Rightarrow> inode \<Rightarrow> bool" where
  "loaded m inum ip \<longleftrightarrow> i_dev ip = 1 \<and> i_inum ip = of_nat inum \<and> dinode_of ip = on_disk mkfs_sb (device m) (of_nat inum)"

text \<open>What the last steps of the program leave: the size of the root directory in whole blocks and the free map.\<close>

lemma finish_run:
  assumes h: "holds m ((T_DIR, d) # fl)"
  shows "\<exists>m1 m2. fix_root 1 m = Inr m1 \<and> mk_balloc (freeblock m1) m1 = Inr m2 \<and> img_ok m2 \<and> vol m2 1 = sb_sector \<and> freeblock m2 = freeblock m \<and>
    vol m2 (sb_bmapstart mkfs_sb) = fold mark_used [0..<freeblock m] (replicate BSIZE 0) \<and>
    owned (vol m2) (freeblock m) {..<Suc (length fl)} (\<lambda>j. di_addrs (dinode_at m2 (Suc j))) \<and>
    dinode_at m2 1 = (dinode_at m 1)\<lparr>di_size := of_nat ((length d div BSIZE + 1) * BSIZE)\<rparr> \<and>
    (\<forall>j<Suc (length fl). sized (vol m2) (di_addrs (dinode_at m2 (Suc j))) (length (snd (((T_DIR, d) # fl) ! j))) \<and>
      contents (vol m2) (di_addrs (dinode_at m2 (Suc j))) (length (snd (((T_DIR, d) # fl) ! j))) = snd (((T_DIR, d) # fl) ! j)) \<and>
    (\<forall>j<length fl. is_file (vol m2) (dinode_at m2 (j + 2)) (fst (fl ! j)) (snd (fl ! j)))"
proof -
  let ?fs = "(T_DIR, d) # fl" and ?A = "\<lambda>j. di_addrs (dinode_at m (Suc j))" and ?d = "dinode_at m 1"
  let ?J = "{..<Suc (length fl)}" and ?x = "IBLOCK (of_nat 1) mkfs_sb :: u32" and ?y = "sb_bmapstart mkfs_sb"
  let ?di = "?d\<lparr>di_size := of_nat ((length d div BSIZE + 1) * BSIZE)\<rparr>" and ?bm = "fold mark_used [0..<freeblock m] (replicate BSIZE 0)"
  have h': "img_ok m" "length fl + 1 < NINODES" "vol m 1 = sb_sector" "owned (vol m) (freeblock m) ?J ?A" "freeblock m \<le> SIZE" "nmeta \<le> freeblock m"
    using h by (auto simp: holds_def img_ok_def)
  have fil: "is_file (vol m) (dinode_at m (Suc j)) (fst (?fs ! j)) (snd (?fs ! j))" if "j < Suc (length fl)" for j using h that by (simp add: holds_def)
  have n1: "1 < NINODES" by (simp add: NINODES_def)
  have sz: "unat (di_size ?d) = length d" using fil [of 0] by (simp add: is_file_def)
  obtain m1 where m1: "winode 1 ?di m = Inr m1" "vol m1 = (vol m)(?x := put_dinode (vol m ?x) (1 mod IPB) ?di)" "img_ok m1" "freeblock m1 = freeblock m"
    using winode_run(1) [OF h'(1) n1 h'(5), of ?di] by blast
  have fixed: "fix_root 1 m = Inr m1" using winode_run(2) [OF h'(1) n1 h'(5)] sz m1(1) by (simp add: fix_root_def Let_def)
  have y: "unat ?y < length (img m1)" "unat ?y < freeblock m1" "freeblock m1 \<le> SIZE" "unat ?y < nmeta"
    using m1(3,4) h'(5,6) mkfs_geometry(2) sizes by (auto simp: img_ok_def)
  have bl: "length ?bm = BSIZE" "freeblock m < BSIZE * 8" using bitmap_fold [of "freeblock m"] h'(5) sizes by (simp_all add: BSIZE_def)
  define m2 where "m2 = wsect (unat ?y) ?bm m1"
  have bal: "mk_balloc (freeblock m1) m1 = Inr m2" using bl(2) m1(4) by (simp add: mk_balloc_def m2_def)
  have v2: "vol m2 = (vol m1)(?y := ?bm)" "freeblock m2 = freeblock m" "img_ok m2"
    using vol_wsect [OF y(1)] m1(4) img_ok_wsect [OF m1(3) y(2,3) bl(1)] unfolding m2_def by simp_all
  have len: "length (di_addrs ?di) = NDIRECT + 1" using ownedD(1) [OF h'(4), of 0] by simp
  have di1: "dinode_at m1 i = (if i = 1 then ?di else dinode_at m i)" if "i < NINODES" for i
    by (rule dinode_at_put [OF h'(1) that n1 len m1(2)])
  have di2: "dinode_at m2 i = dinode_at m1 i" if "i < NINODES" for i
    using iblock_meta(4) [OF that] mkfs_geometry(2) by (auto simp: dinode_at_def v2(1))
  have A: "di_addrs (dinode_at m2 (Suc j)) = ?A j" if "j < Suc (length fl)" for j using di1 [of "Suc j"] di2 [of "Suc j"] that h'(2) by simp
  note w1 = meta_write [OF h'(4) iblock_meta(1) [OF n1], where d = "put_dinode (vol m ?x) (1 mod IPB) ?di"]
  have o1: "owned (vol m1) (freeblock m) ?J ?A" unfolding m1(2) by (rule owned_cong [OF h'(4)], rule w1(1))
  note w2 = meta_write [OF o1 y(4), where d = ?bm, folded v2(1)]
  have o2: "owned (vol m2) (freeblock m) ?J ?A" by (rule owned_cong [OF o1], rule w2(1))
  then have ow: "owned (vol m2) (freeblock m) ?J (\<lambda>j. di_addrs (dinode_at m2 (Suc j)))" using A unfolding owned_def by simp
  have cont: "sized (vol m2) (?A j) (length (snd (?fs ! j))) \<and> contents (vol m2) (?A j) (length (snd (?fs ! j))) = snd (?fs ! j)" if j: "j < Suc (length fl)" for j
  proof -
    have jj: "j \<in> ?J" using j by simp
    have s: "sized (vol m) (?A j) (length (snd (?fs ! j)))" "contents (vol m) (?A j) (length (snd (?fs ! j))) = snd (?fs ! j)"
      using fil [OF j] unfolding is_file_def by blast+
    have s1: "sized (vol m1) (?A j) (length (snd (?fs ! j)))" unfolding m1(2) by (rule w1(2) [OF jj s(1)])
    have s2: "contents (vol m1) (?A j) (length (snd (?fs ! j))) = snd (?fs ! j)" unfolding m1(2) by (rule trans [OF w1(3) [OF jj s(1)] s(2)])
    show ?thesis using w2(2) [OF jj s1] trans [OF w2(3) [OF jj s1] s2] by blast
  qed
  have "is_file (vol m2) (dinode_at m2 (j + 2)) (fst (fl ! j)) (snd (fl ! j))" if j: "j < length fl" for j
    using fil [of "Suc j"] cont [of "Suc j"] di1 [of "j + 2"] di2 [of "j + 2"] j h'(2) by (simp add: is_file_def)
  moreover have "vol m2 1 = sb_sector"
  proof -
    have "?x \<noteq> 1" "?y \<noteq> 1" using iblock_meta(3) [OF n1] mkfs_geometry(2) by auto
    then show ?thesis unfolding v2(1) m1(2) using h'(3) by simp
  qed
  moreover have "dinode_at m2 1 = ?di" using di1 [OF n1] di2 [OF n1] by simp
  moreover have "vol m2 ?y = ?bm" unfolding v2(1) by simp
  ultimately show ?thesis using fixed bal v2 ow cont A by (intro exI [of _ m1] exI [of _ m2]) simp
qed

lemma on_disk_at: "j < NINODES \<Longrightarrow> on_disk mkfs_sb (device m) (of_nat j) = dinode_at m j"
proof -
  assume j: "j < NINODES"
  have "unat (IBLOCK (of_nat j) mkfs_sb) < SIZE" using iblock_meta(1) [OF j] sizes by simp
  moreover have "unat (of_nat j :: u32) = j" by (rule unat_of_nat_u32) (use j in \<open>simp add: NINODES_def\<close>)
  ultimately show ?thesis by (simp add: on_disk_def dinode_at_def device_def)
qed

definition dots :: "u8 list" where
  "dots = bytes_of_dirent (mk_dirent 1 [46]) @ bytes_of_dirent (mk_dirent 1 [46, 46])"

lemma root_holds: "\<exists>m. mkfs_root mkfs_init = Inr (1, m) \<and> holds m [(T_DIR, dots)]"
proof -
  let ?e = "bytes_of_dirent (mk_dirent 1 [46])" and ?f = "bytes_of_dirent (mk_dirent 1 [46, 46])"
  have b: "blocks 16 = 1" "blocks 32 = 1" "16 \<le> MAXFILE * BSIZE" "32 \<le> MAXFILE * BSIZE"
    by (simp_all add: blocks_def BSIZE_def NDIRECT_def MAXFILE_def NINDIRECT_def)
  obtain m1 where m1: "mk_ialloc T_DIR mkfs_init = Inr (1, m1)" "holds m1 [(T_DIR, [])]"
    using ialloc_holds [OF init_holds, of T_DIR] by (auto simp: NINODES_def)
  have "\<exists>m'. iappend (Suc 0) ?e m1 = Inr m' \<and> holds m' ([(T_DIR, [])][0 := (T_DIR, [] @ ?e)])"
    by (rule iappend_holds [OF m1(2)]) (simp_all add: space_def sizes b)
  then obtain m2 where m2: "iappend 1 ?e m1 = Inr m2" "holds m2 [(T_DIR, ?e)]" by auto
  have "\<exists>m'. iappend (Suc 0) ?f m2 = Inr m' \<and> holds m' ([(T_DIR, ?e)][0 := (T_DIR, ?e @ ?f)])"
    by (rule iappend_holds [OF m2(2)]) (simp_all add: space_def sizes b)
  then obtain m3 where "iappend 1 ?f m2 = Inr m3" "holds m3 [(T_DIR, dots)]" by (auto simp: dots_def)
  then show ?thesis using m1(1) m2(1) by (simp add: mkfs_root_def ROOTINO_def)
qed

lemma loaded_file:
  assumes l: "loaded m j ip" and j: "j < NINODES" and f: "is_file V (dinode_at m j) T_FILE c" and wf: "file_wf S a (device m) (di_addrs (dinode_at m j))"
    and c: "contents (device m) (di_addrs (dinode_at m j)) (length c) = c" and n: "\<And>k. k < length c \<Longrightarrow> blk_addr (device m) (di_addrs (dinode_at m j)) (k div BSIZE) \<noteq> 0"
  shows "file_at S a (device m) ip" "file_of (device m) ip = c"
proof -
  have d: "dinode_of ip = dinode_at m j" "i_dev ip = 1" using l on_disk_at [OF j] by (simp_all add: loaded_def)
  then have "i_addrs ip = di_addrs (dinode_at m j)" "i_size ip = di_size (dinode_at m j)" "i_type ip = di_type (dinode_at m j)"
    by (simp_all add: dinode_of_def flip: d(1))
  then show "file_at S a (device m) ip" "file_of (device m) ip = c"
    using f wf c n d(2) by (simp_all add: file_at_def is_file_def sized_def T_FILE_def T_DEV_def)
qed

text \<open>
  C8. The image that \<^verbatim>\<open>mkfs\<close> builds is a file system for the kernel. If the files fit, the program
  succeeds; the kernel reads the super block that was meant, exactly the blocks up to the last one
  taken are marked as used, the root directory consists of its two standard entries and one for each
  file, and \<^verbatim>\<open>readi\<close> on the inode of a file delivers the bytes of that file, for files with and
  without a block of addresses.
\<close>

theorem mkfs_readable:
  assumes "list_all good_arg args" and "length args + 1 < NINODES"
    and "nmeta + blocks (16 * (length args + 2)) + sum_list (map (\<lambda>arg. blocks (length (the (snd arg)))) args) \<le> SIZE"
  shows "\<exists>m. mkfs_main args = Inr m \<and> sb_of_block (device m 1) = mkfs_sb \<and> disk_ok mkfs_sb 2 (device m) \<and>
    (\<forall>b. unat b < SIZE \<longrightarrow> used mkfs_sb (device m) b = (unat b < freeblock m)) \<and>
    di_type (on_disk mkfs_sb (device m) ROOTINO) = T_DIR \<and>
    contents (device m) (di_addrs (on_disk mkfs_sb (device m) ROOTINO)) (16 * (length args + 2)) = dots @ entries 2 args \<and>
    (\<forall>k<length args. \<forall>(s :: 'a fsys_scheme) i devsw n. txn s 2 (device m) Map.empty [] \<and> sb s = mkfs_sb \<and> loaded m (k + 2) (icache s ! i) \<and> n < 2 ^ 31 \<longrightarrow>
      (\<exists>s'. readi devsw i 0 (of_nat n) s = Inr (int (min n (length (the (snd (args ! k))))), take n (the (snd (args ! k))), s')))"
proof -
  obtain m0 where m0: "mkfs_root mkfs_init = Inr (1, m0)" "holds m0 [(T_DIR, dots)]" using root_holds by blast
  have ld: "length dots = 32" by (simp add: dots_def)
  let ?d = "dots @ entries 2 args" and ?fl = "files_of args"
  have n16: "length dots + 16 * length args \<le> MAXFILE * BSIZE"
    using assms(2) by (simp add: ld NINODES_def MAXFILE_def NDIRECT_def NINDIRECT_def BSIZE_def)
  have sp: "space ((T_DIR, ?d) # ?fl) \<le> SIZE" using assms(3) by (simp add: space_def ld files_of_def comp_def algebra_simps)
  then obtain m1 where m1: "for_each args (add_file 1) m0 = Inr m1" "holds m1 ((T_DIR, ?d) # ?fl)"
    using add_files_holds [OF m0(2) assms(1) _ n16] assms(2) by (auto simp: numeral_2_eq_2)
  obtain mr m where m: "fix_root 1 m1 = Inr mr" "mk_balloc (freeblock mr) mr = Inr m" "img_ok m" "vol m 1 = sb_sector" "freeblock m = freeblock m1"
    "vol m (sb_bmapstart mkfs_sb) = fold mark_used [0..<freeblock m1] (replicate BSIZE 0)"
    "owned (vol m) (freeblock m1) {..<Suc (length ?fl)} (\<lambda>j. di_addrs (dinode_at m (Suc j)))"
    "dinode_at m 1 = (dinode_at m1 1)\<lparr>di_size := of_nat ((length ?d div BSIZE + 1) * BSIZE)\<rparr>"
    "\<forall>j<Suc (length ?fl). sized (vol m) (di_addrs (dinode_at m (Suc j))) (length (snd (((T_DIR, ?d) # ?fl) ! j))) \<and>
      contents (vol m) (di_addrs (dinode_at m (Suc j))) (length (snd (((T_DIR, ?d) # ?fl) ! j))) = snd (((T_DIR, ?d) # ?fl) ! j)"
    "\<forall>j<length ?fl. is_file (vol m) (dinode_at m (j + 2)) (fst (?fl ! j)) (snd (?fl ! j))"
    using finish_run [OF m1(2)] by blast
  have fb: "nmeta \<le> freeblock m1" "freeblock m1 \<le> SIZE" using m1(2) by (auto simp: holds_def img_ok_def)
  have main: "mkfs_main args = Inr m" using m0(1) m1(1) m(1,2) by (simp add: mkfs_main_def)
  note ok = device_ok [OF m(3,4,6) fb]
  have s0: "sized (vol m) (di_addrs (dinode_at m (Suc 0))) (length ?d)" "contents (vol m) (di_addrs (dinode_at m (Suc 0))) (length ?d) = ?d"
    using m(9) [rule_format, of 0] by simp_all
  note df = device_file [OF m(7) fb(2)] and dw = device_wf [OF m(3,4,6) fb m(7)]
  have root: "on_disk mkfs_sb (device m) ROOTINO = dinode_at m (Suc 0)" using on_disk_at [of 1 m] by (simp add: ROOTINO_def NINODES_def)
  have "di_type (dinode_at m (Suc 0)) = T_DIR" using m(8) holds_file(1) [OF m1(2), of 0] by (simp add: is_file_def)
  moreover have "length ?d = 16 * (length args + 2)" by (simp add: ld)
  then have "contents (device m) (di_addrs (dinode_at m (Suc 0))) (16 * (length args + 2)) = ?d" using df(2) [OF _ s0(1)] s0(2) by simp
  moreover have "device m 1 = sb_sector" using m(4) by (simp add: device_def SIZE_def)
  moreover have "\<exists>s'. readi devsw i 0 (of_nat n) s = Inr (int (min n (length (the (snd (args ! k))))), take n (the (snd (args ! k))), s')"
    if k: "k < length args" and s: "txn s 2 (device m) Map.empty [] \<and> sb s = mkfs_sb \<and> loaded m (k + 2) (icache s ! i) \<and> n < 2 ^ 31"
    for k i devsw n and s :: "'a fsys_scheme"
  proof -
    let ?c = "the (snd (args ! k))" and ?ip = "icache s ! i"
    have f: "is_file (vol m) (dinode_at m (Suc (Suc k))) T_FILE ?c" using m(10) k by (simp add: files_of_def)
    have sz: "sized (vol m) (di_addrs (dinode_at m (Suc (Suc k)))) (length ?c)" "contents (vol m) (di_addrs (dinode_at m (Suc (Suc k)))) (length ?c) = ?c"
      using f by (simp_all add: is_file_def)
    have j: "Suc k \<in> {..<Suc (length ?fl)}" "Suc (Suc k) < NINODES" using k assms(2) by (simp_all add: files_of_def)
    have fa: "file_at mkfs_sb 2 (device m) ?ip" "file_of (device m) ?ip = ?c"
      using loaded_file [OF _ j(2) f dw [OF j(1) sz(1)] trans [OF df(2) [OF j(1) sz(1)] sz(2)] df(3) [OF j(1) sz(1)]] s by simp_all
    have "\<exists>s'. readi devsw i (of_nat 0) (of_nat n) s = Inr (int (length (take n (drop 0 (file_of (device m) ?ip)))), take n (drop 0 (file_of (device m) ?ip)), s') \<and>
        txn s' 2 (device m) Map.empty [] \<and> logsys.more s' = logsys.more s"
      by (rule readi_run) (use s ok(2) fa(1) in \<open>simp_all add: LOGSIZE_def\<close>)
    then show ?thesis unfolding fa(2) by (auto simp: min.commute)
  qed
  ultimately show ?thesis using main ok m(5) sb_of_sector root by (intro exI [of _ m]) auto
qed

text \<open>The kernel in a transaction on a disk whose blocks are \<open>V\<close>, with one inode in its cache.\<close>

definition mounted :: "(u32 \<Rightarrow> block) \<Rightarrow> inode \<Rightarrow> fsys" where
  "mounted V ip = binit \<lparr>bufs = [], mru = [], idequeue = [], havedisk1 = True, disk = (\<lambda>_. V), written = [],
     cur_pid = 1, lg = zero_log\<lparr>l_start := 2, l_size := int LOGSIZE, l_dev := 1, l_outstanding := 1\<rparr>,
     sb = sb_of_block (V 1), icache = [ip]\<rparr>"

lemma mounted_txn: "txn (mounted V ip) 2 V Map.empty []" "sb (mounted V ip) = sb_of_block (V 1)" "icache (mounted V ip) = [ip]"
proof -
  have "cache (mounted V ip) V Map.empty {}"
    unfolding mounted_def
    using binit_cache [of "\<lparr>bufs = [], mru = [], idequeue = [], havedisk1 = True, disk = (\<lambda>_. V), written = [],
     cur_pid = 1, lg = zero_log\<lparr>l_start := 2, l_size := int LOGSIZE, l_dev := 1, l_outstanding := 1\<rparr>,
     sb = sb_of_block (V 1), icache = [ip]\<rparr>"] by simp
  then show "txn (mounted V ip) 2 V Map.empty []"
    by (simp add: txn_def) (simp add: mounted_def binit_def logged_def zero_log_def FSSIZE_def LOGSIZE_def)
  show "sb (mounted V ip) = sb_of_block (V 1)" "icache (mounted V ip) = [ip]" by (simp_all add: mounted_def binit_def)
qed

theorem mkfs_readable_witness:
  "\<exists>m s'. mkfs_main [([95, 97], Some [1, 2, 3])] = Inr m \<and>
    contents (device m) (di_addrs (on_disk mkfs_sb (device m) ROOTINO)) 48 = dots @ entries 2 [([95, 97], Some [1, 2, 3])] \<and>
    readi (\<lambda>_. \<lparr>dev_read = None, dev_write = None\<rparr>) 0 0 10
      (mounted (device m) (load_dinode (on_disk mkfs_sb (device m) 2) (demo_inode\<lparr>i_dev := 1, i_inum := 2\<rparr>))) = Inr (3, [1, 2, 3], s')"
proof -
  let ?args = "[([95, 97 :: u8], Some [1, 2, 3 :: u8])]"
  have good: "list_all good_arg ?args" "length ?args + 1 < NINODES" "16 * (length ?args + 2) = 48"
    "nmeta + blocks (16 * (length ?args + 2)) + sum_list (map (\<lambda>arg. blocks (length (the (snd arg)))) ?args) \<le> SIZE"
    by (simp_all add: good_arg_def MAXFILE_def NDIRECT_def NINDIRECT_def BSIZE_def NINODES_def sizes blocks_def)
  obtain m where m: "mkfs_main ?args = Inr m" "sb_of_block (device m 1) = mkfs_sb"
    "contents (device m) (di_addrs (on_disk mkfs_sb (device m) ROOTINO)) 48 = dots @ entries 2 ?args"
    "\<forall>k<length ?args. \<forall>(s :: fsys) i devsw n. txn s 2 (device m) Map.empty [] \<and> sb s = mkfs_sb \<and> loaded m (k + 2) (icache s ! i) \<and> n < 2 ^ 31 \<longrightarrow>
      (\<exists>s'. readi devsw i 0 (of_nat n) s = Inr (int (min n (length (the (snd (?args ! k))))), take n (the (snd (?args ! k))), s'))"
    using mkfs_readable [OF good(1,2,4), where 'a = unit] unfolding good(3) by blast
  let ?ip = "load_dinode (on_disk mkfs_sb (device m) 2) (demo_inode\<lparr>i_dev := 1, i_inum := 2\<rparr>)"
  have "loaded m (0 + 2) ?ip" by (simp add: loaded_def load_dinode_def dinode_of_def)
  then have "\<exists>s'. readi (\<lambda>_. \<lparr>dev_read = None, dev_write = None\<rparr>) 0 0 (of_nat 10) (mounted (device m) ?ip) = Inr (int (min 10 3), take 10 [1, 2, 3], s')"
    using m(4) [rule_format, of 0 "mounted (device m) ?ip" 0 10 "\<lambda>_. \<lparr>dev_read = None, dev_write = None\<rparr>"] mounted_txn [of "device m" ?ip] m(2) by simp
  then show ?thesis using m(1,3) by auto
qed

end
