(* ===== verification/Spec2Isabelle.thy ===== *)
theory Spec2Isabelle
  imports Cow Fork Log Path Fdcount Kbd Shparse Shrun Umalloc Mkfs
begin

text \<open>
  \<^bold>\<open>The program.\<close> \<^verbatim>\<open>src/\<close> holds an x86-64 version of the teaching kernel xv6, extended with page
  deduplication and copy-on-write, its user programs, and the program that builds the image of its file system.
  The parts and how they use each other, from the bottom up:
  \<^item> memory: address arithmetic (\<^verbatim>\<open>mmu.h\<close>), C strings (\<^verbatim>\<open>string.c\<close>), the page allocator with reference
    counts and checksums (\<^verbatim>\<open>kalloc.c\<close>), page tables and address spaces (\<^verbatim>\<open>vm.c\<close>);
  \<^item> locks (\<^verbatim>\<open>spinlock.c\<close>, \<^verbatim>\<open>sleeplock.c\<close>) and pipes (\<^verbatim>\<open>pipe.c\<close>);
  \<^item> the disk: driver (\<^verbatim>\<open>ide.c\<close>), buffer cache (\<^verbatim>\<open>bio.c\<close>), write-ahead log (\<^verbatim>\<open>log.c\<close>), blocks, inodes,
    directories and paths (\<^verbatim>\<open>fs.c\<close>), open files (\<^verbatim>\<open>file.c\<close>);
  \<^item> processes (\<^verbatim>\<open>proc.c\<close>), system calls (\<^verbatim>\<open>syscall.c\<close>, \<^verbatim>\<open>sysfile.c\<close>, \<^verbatim>\<open>sysproc.c\<close>), program loading
    (\<^verbatim>\<open>exec.c\<close>), traps (\<^verbatim>\<open>trap.c\<close>), console and keyboard (\<^verbatim>\<open>console.c\<close>, \<^verbatim>\<open>uart.c\<close>, \<^verbatim>\<open>kbd.c\<close>);
  \<^item> user space: library (\<^verbatim>\<open>ulib.c\<close>, \<^verbatim>\<open>printf.c\<close>, \<^verbatim>\<open>umalloc.c\<close>), text programs, shell (\<^verbatim>\<open>sh.c\<close>), and \<^verbatim>\<open>mkfs.c\<close>.

  \<^bold>\<open>The model.\<close> A C function is a HOL function from the state to a result and the new state. A struct is a
  record, an enumeration a datatype; a pointer into a table is an index, a pointer to memory an address. Integers
  keep their width as words where they can wrap around. A call that can fail returns \<open>Inl e\<close>, where the error
  \<open>e\<close> is a panic with its message, a fault (a null pointer, a wild access), an access outside an array, or
  \<open>Deadlock\<close>, which stands for a sleep that only another process could end. The state grows in one chain of
  records: disk and buffers, log, inode cache, open files and pipes, kernel (memory, process table, current
  process), console. Locks are held inside one step, except in \<open>Spinlock\<close>, \<open>Pipe\<close> and \<open>File\<close>, where step relations
  interleave processors, processes or calls.

  \<^bold>\<open>The theories\<close>, each with the code it models and what it shows.

  \<^item> \<open>Prelude\<close>: the words, results and their sequencing, C loops, byte memory with 64-bit loads and stores.
  \<^item> \<open>Mmu\<close> (\<^verbatim>\<open>mmu.h\<close>, \<^verbatim>\<open>memlayout.h\<close>), \<open>Cstring\<close> (\<^verbatim>\<open>string.c\<close>, \<^verbatim>\<open>x86.h\<close>): the bit tricks as arithmetic; each
    routine as a closed description of the memory it leaves.
  \<^item> \<open>Kalloc\<close> (\<^verbatim>\<open>kalloc.c\<close>): \<open>kmem_inv\<close> describes the free list; initialisation, reference counting, exact
    comparison of pages, and what happens when no page is left. The locale \<open>page_allocator\<close> is the contract, which
    the allocator implements (\<open>kpages\<close>).
  \<^item> \<open>Vm\<close> (\<^verbatim>\<open>vm.c\<close>): the operations on page tables. \<open>Pagetable\<close> says what tables in memory mean; \<open>aspace\<close> is the
    invariant of an address space: the tables form a tree and every frame's count is the number of its mappings
    plus those held elsewhere. \<open>Cow\<close> proves deduplication invisible and effective and that a write to a shared page
    gives a private copy. \<open>Uvm\<close> shows how \<^verbatim>\<open>setupkvm\<close>, \<^verbatim>\<open>walkpgdir\<close>, \<^verbatim>\<open>mappages\<close> and \<^verbatim>\<open>copyuvm\<close> build an address
    space in free pages only; \<open>Fork\<close> (\<^verbatim>\<open>fork\<close> of \<^verbatim>\<open>proc.c\<close>) that the child is a copy of the parent in memory
    of its own.
  \<^item> \<open>Spinlock\<close> (\<^verbatim>\<open>spinlock.c\<close>, \<^verbatim>\<open>sleeplock.c\<close>): nesting of interrupt disabling; mutual exclusion of both locks under
    every interleaving and no lost wakeup. \<open>Fifo\<close> is the contract of a bounded queue (locale \<open>bounded_fifo\<close>);
    \<open>Pipe\<close> (\<^verbatim>\<open>pipe.c\<close>) implements it with counters that wrap around, refines a byte stream, and makes progress.
  \<^item> \<open>Bio\<close> (\<^verbatim>\<open>ide.c\<close>, \<^verbatim>\<open>bio.c\<close>): the cache is transparent. \<open>Layout\<close> (\<^verbatim>\<open>fs.h\<close>): fields on the disk read back.
    \<open>Log\<close> (\<^verbatim>\<open>log.c\<close>): a transaction survives a crash entirely or not at all; the reservation is one block too
    generous.
  \<^item> \<open>Fs\<close> (\<^verbatim>\<open>fs.c\<close>) has the operations; \<open>Fsblock\<close> treats the block allocator inside a transaction, \<open>Fsfile\<close> the
    contents of files (what \<^verbatim>\<open>writei\<close> writes \<^verbatim>\<open>readi\<close> reads, other files are unchanged), \<open>Icache\<close> the references to
    inodes, \<open>Path\<close> the parsing of path names.
  \<^item> \<open>Mkfs\<close> (\<^verbatim>\<open>mkfs.c\<close>): the image it builds is a file system on which the kernel reads every file.
  \<^item> \<open>File\<close> (\<^verbatim>\<open>file.c\<close>): life and death of open files and pipes. \<open>Proc\<close> (\<^verbatim>\<open>proc.c\<close>): exit meets wait, a fair
    scheduler (locale \<open>kernel_thread\<close>), the effect of \<^verbatim>\<open>kill(0)\<close>.
  \<^item> \<open>Syscall\<close> (\<^verbatim>\<open>syscall.c\<close>), \<open>Exec\<close> (\<^verbatim>\<open>exec.c\<close>), \<open>Sysfile\<close> (\<^verbatim>\<open>sysfile.c\<close>), \<open>Trap\<close> (\<^verbatim>\<open>sysproc.c\<close>, \<^verbatim>\<open>trap.c\<close>):
    access to user memory, every system call, faults, killed processes, the length of \<^verbatim>\<open>sleep\<close>. \<open>Frames\<close>
    (locales \<open>quiet_devices\<close>, \<open>quiet_calls\<close>) shows what system calls leave alone; on it rest \<open>Descriptors\<close> (\<^verbatim>\<open>exec\<close> is
    all or nothing) and \<open>Fdcount\<close> (every file's count is the number of its descriptors).
  \<^item> \<open>Console\<close> (\<^verbatim>\<open>console.c\<close>): formatted output is type sound; the input refines a line editor. \<open>Kbd\<close> (\<^verbatim>\<open>kbd.c\<close>,
    \<^verbatim>\<open>uart.c\<close>): from scan codes to that editor.
  \<^item> \<open>Ulib\<close> (\<^verbatim>\<open>ulib.c\<close>, \<^verbatim>\<open>printf.c\<close>): numbers are read back as printed. \<open>Umalloc\<close> (\<^verbatim>\<open>umalloc.c\<close>, locale
    \<open>block_allocator\<close>): blocks never overlap. \<open>Textutils\<close> (\<^verbatim>\<open>grep.c\<close>, \<^verbatim>\<open>wc.c\<close>, \<^verbatim>\<open>cat.c\<close>, \<^verbatim>\<open>echo.c\<close>): grep against
    regular expressions, the counts of wc.
  \<^item> \<open>Sh\<close>, \<open>Shparse\<close>, \<open>Shrun\<close> (\<^verbatim>\<open>sh.c\<close>): the parser returns on every line and reads back what was written in the
    shell's notation; the descriptors of the programs that a command runs.

  \<^bold>\<open>Loops and bounds.\<close> Loops are structural recursion or \<^theory_text>\<open>function\<close> with a measure. Walks through lists in
  memory that need not end (\<^verbatim>\<open>freerange\<close>, the free lists of \<^verbatim>\<open>kalloc.c\<close> and \<^verbatim>\<open>umalloc.c\<close>) are partial functions
  with an optional result, and the theorems state that they return. The recursive parser of the shell has fuel;
  the theorem on it says that the length of the line, up to a constant factor, is enough. Addresses of user pages
  lie below \<open>2 ^ 47\<close>, the user half of the tables. The theorem on \<^verbatim>\<open>fork\<close> asks for as many free pages as the
  child's stack, tables and frames need.

  \<^bold>\<open>Not modelled.\<close> Assembly code (boot, entry, trap vectors, context switch) and the loader \<^verbatim>\<open>bootmain.c\<close>; the
  registers of interrupt controllers and processors (\<^verbatim>\<open>lapic.c\<close>, \<^verbatim>\<open>ioapic.c\<close>, \<^verbatim>\<open>mp.c\<close>), of segments and the
  interrupt table (\<^verbatim>\<open>seginit\<close>, \<^verbatim>\<open>tvinit\<close> and their like), whose only effect is on the processor; the order of
  initialisation in \<^verbatim>\<open>main.c\<close>; \<^verbatim>\<open>memide.c\<close>, which the default build does not link; the small programs that make a few
  system calls in a row, and the tests. The translation look-aside buffer and weak memory ordering are not
  modelled: memory is sequentially consistent and an entry of a page table takes effect when it is stored. The
  disk reports no errors, and a block is written atomically. What the kernel calls that is not under \<^verbatim>\<open>src/\<close>, the
  devices and the decisions of the scheduler's processes, is an argument of the definitions that use it.
\<close>

end
